(* ===== verification/Prelude.thy ===== *)
theory Prelude
  imports Main "HOL-Library.Word" "HOL-Library.Monad_Syntax"
begin

text \<open>
  What every theory of the development shares: the names of the machine types, little-endian
  bytes (every on-disk integer of the runtime is little-endian), parsers over byte lists in the
  option monad, and the collections of rewrite rules the component proofs pass to
  \<^theory_text>\<open>simp\<close>.

  The collections:
  \<^item> \<open>codec\<close>: a decoder applied to what its encoder wrote, with the rest of the input kept;
  \<^item> \<open>len_simps\<close>: the length of what an encoder writes;
  \<^item> \<open>frame_simps\<close>: fields that an operation leaves as they are.
\<close>

named_theorems codec \<open>decoding what was encoded\<close>
named_theorems len_simps \<open>lengths of encodings\<close>
named_theorems frame_simps \<open>what an operation does not change\<close>

unbundle bit_operations_syntax

type_synonym u8 = "8 word"
type_synonym u16 = "16 word"
type_synonym u32 = "32 word"
type_synonym u64 = "64 word"
type_synonym bytes = "u8 list"

section \<open>Little-endian integers\<close>

fun le :: "nat \<Rightarrow> nat \<Rightarrow> bytes" where
  "le 0 x = []"
| "le (Suc n) x = of_nat x # le n (x div 256)"

fun of_le :: "bytes \<Rightarrow> nat" where
  "of_le [] = 0"
| "of_le (b # bs) = unat b + 256 * of_le bs"

lemma length_le [simp, len_simps]: "length (le n x) = n"
  by (induction n x rule: le.induct) auto

lemma of_le_le: "of_le (le n x) = x mod 256 ^ n"
proof (induction n x rule: le.induct)
  case (2 n x)
  have "unat (of_nat x :: u8) = x mod 256"
    by (simp add: unat_of_nat)
  with 2 show ?case
    by (simp add: mod_mult2_eq)
qed simp

lemma of_le_le_id: "x < 256 ^ n \<Longrightarrow> of_le (le n x) = x"
  by (simp add: of_le_le)

lemma of_le_bound: "of_le bs < 256 ^ length bs"
proof (induction bs)
  case (Cons b bs)
  have "unat b < 256" using unsigned_less [of b] by simp
  with Cons show ?case by simp
qed simp

lemma le_of_le: "le (length bs) (of_le bs) = bs"
proof (induction bs)
  case (Cons b bs)
  have b: "unat b < 256" using unsigned_less [of b] by simp
  have "of_nat (unat b + 256 * of_le bs) = (of_nat (unat b) :: u8) + 256 * of_nat (of_le bs)"
    by simp
  also have "(256::u8) = 0" by simp
  finally have "of_nat (unat b + 256 * of_le bs) = (of_nat (unat b) :: u8)" by simp
  also have "\<dots> = b" by simp
  finally have "of_nat (unat b + 256 * of_le bs) = b" .
  moreover have "(unat b + 256 * of_le bs) div 256 = of_le bs" using b by simp
  ultimately show ?case using Cons by simp
qed simp

lemma le_inj: "le n x = le n y \<Longrightarrow> x < 256 ^ n \<Longrightarrow> y < 256 ^ n \<Longrightarrow> x = y"
  by (metis of_le_le_id)

section \<open>Words\<close>

lemma ff_mask: "(0xFF :: 'a::len word) = mask 8"
  by (simp add: mask_eq_exp_minus_1)

lemma unat_and_ff: "unat ((x :: 'a::len word) AND 0xFF) = unat x mod 256"
proof -
  have "unat (take_bit 8 x) = take_bit 8 (unat x)"
    by (rule unsigned_take_bit_eq)
  also have "\<dots> = unat x mod 256"
    unfolding take_bit_eq_mod by simp
  finally show ?thesis unfolding ff_mask take_bit_eq_mask .
qed

lemma xor_cancel_right: "(a :: 'a::len word) XOR k = b XOR k \<Longrightarrow> a = b"
  by (metis xor.assoc xor_self_eq xor.right_neutral)

lemma xor_cancel_left: "k XOR (a :: 'a::len word) = k XOR b \<Longrightarrow> a = b"
  by (metis xor.assoc xor_self_eq xor.left_neutral)

section \<open>Parsers in the option monad\<close>

text \<open>
  A reader with a sticky failure flag, as the C code has it, is a parser: \<open>None\<close> is the flag,
  \<open>Some (v, rest)\<close> the value and the bytes still unread.
\<close>

type_synonym 'a parser = "bytes \<Rightarrow> ('a \<times> bytes) option"

fun map_parse :: "('k \<Rightarrow> 'a parser) \<Rightarrow> 'k list \<Rightarrow> 'a list parser" where
  "map_parse f [] bs = Some ([], bs)"
| "map_parse f (k # ks) bs =
     (case f k bs of
        None \<Rightarrow> None
      | Some (v, bs1) \<Rightarrow>
         (case map_parse f ks bs1 of
            None \<Rightarrow> None
          | Some (vs, bs2) \<Rightarrow> Some (v # vs, bs2)))"

lemma map_parse_cong [fundef_cong]:
  assumes "ks = ks'" and "bs = bs'" and "\<And>k b. k \<in> set ks' \<Longrightarrow> f k b = g k b"
  shows "map_parse f ks bs = map_parse g ks' bs'"
proof -
  have "\<forall>k\<in>set ks'. \<forall>b. f k b = g k b \<Longrightarrow> map_parse f ks' b = map_parse g ks' b" for b
    by (induction ks' arbitrary: b) (auto split: option.splits)
  then show ?thesis using assms by auto
qed

lemma map_parse_codec:
  assumes "list_all2 (\<lambda>k v. \<forall>rest. f k (enc k v @ rest) = Some (v, rest)) ks vs"
  shows "map_parse f ks (concat (map2 enc ks vs) @ rest) = Some (vs, rest)"
  using assms by (induction ks vs rule: list_all2_induct) auto

lemma map_parse_length: "map_parse f ks bs = Some (vs, rest) \<Longrightarrow> length vs = length ks"
  by (induction ks arbitrary: bs vs) (auto split: option.splits prod.splits)

section \<open>Lists\<close>

lemma nth_update_other: "p \<noteq> q \<Longrightarrow> xs[p := x] ! q = xs ! q"
  by simp

lemma take_append_exact [simp]: "length xs = n \<Longrightarrow> take n (xs @ ys) = xs"
  by simp

lemma drop_append_exact [simp]: "length xs = n \<Longrightarrow> drop n (xs @ ys) = ys"
  by simp

lemma find_Some_set: "List.find P xs = Some x \<Longrightarrow> x \<in> set xs \<and> P x"
  by (auto simp: find_Some_iff)

section \<open>Results\<close>

lemma map_sum_Inr_iff [simp]: "map_sum f g x = Inr y \<longleftrightarrow> (\<exists>z. x = Inr z \<and> y = g z)"
  by (cases x) auto

lemma map_sum_Inl_iff [simp]: "map_sum f g x = Inl y \<longleftrightarrow> (\<exists>z. x = Inl z \<and> y = f z)"
  by (cases x) auto

end
