(* ===== verification/Probing.thy ===== *)
theory Probing
  imports Prelude
begin

text \<open>
  Open addressing with linear probing, as three places of the engine write it: the id hash of a
  table, the buckets of a secondary index (\<open>database/src/table.c\<close>) and the offset map of a
  migration (\<open>database/src/wal.c\<close>). All three walk an array of 64-bit keys whose size is a power
  of two, in which 0 marks an empty place; the id hash also has a mark for a deleted one.

  \<open>probe\<close> is their loop \<open>while (k[j] && k[j] != key) j = (j + 1) & (cap - 1)\<close>. It would not
  end in an array with neither the key nor an empty place, so it has a bound, the capacity, and
  \<open>None\<close> stands for the endless loop. Shown: while one place is empty the loop ends
  (\<open>probe_ends\<close>); and storing, deleting and rehashing keep \<open>placed\<close>, the invariant that every
  key is found where it lies.
\<close>

section \<open>The loop\<close>

fun probe_n :: "nat \<Rightarrow> u64 list \<Rightarrow> u64 \<Rightarrow> nat \<Rightarrow> nat option" where
  "probe_n 0 ks key j = None"
| "probe_n (Suc n) ks key j =
     (if ks ! j = 0 \<or> ks ! j = key then Some j
      else probe_n n ks key ((j + 1) AND (length ks - 1)))"

definition home :: "u64 \<Rightarrow> nat \<Rightarrow> nat" where
  "home h cap = unat h AND (cap - 1)"

definition probe :: "u64 list \<Rightarrow> u64 \<Rightarrow> u64 \<Rightarrow> nat option" where
  "probe ks h key = probe_n (length ks) ks key (home h (length ks))"

text \<open>
  Rehashing: each kept entry goes to the first empty place from its home, \<open>while (nk[j])\<close>. This
  is \<open>probe\<close> for the key 0. \<open>None\<close> again stands for a loop that would not end.
\<close>

fun rehash ::
  "(u64 \<Rightarrow> u64) \<Rightarrow> (u64 \<Rightarrow> bool) \<Rightarrow> (u64 \<times> 'v) list \<Rightarrow> u64 list \<Rightarrow> 'v list \<Rightarrow> (u64 list \<times> 'v list) option"
where
  "rehash h keep [] nk nv = Some (nk, nv)"
| "rehash h keep ((k, v) # es) nk nv =
     (if \<not> keep k then rehash h keep es nk nv
      else
        (case probe nk (h k) 0 of
           None \<Rightarrow> None
         | Some j \<Rightarrow> rehash h keep es (nk[j := k]) (nv[j := v])))"

section \<open>Where the loop stops\<close>

definition pow2 :: "nat \<Rightarrow> bool" where
  "pow2 n \<longleftrightarrow> (\<exists>k. n = 2 ^ k)"

lemma and_pred_pow2: "pow2 n \<Longrightarrow> x AND (n - 1) = x mod (n :: nat)"
  by (auto simp: pow2_def take_bit_eq_mod [symmetric] take_bit_eq_mask mask_eq_exp_minus_1)

lemma pow2_pos: "pow2 n \<Longrightarrow> 0 < n"
  by (auto simp: pow2_def)

lemma pow2_double: "pow2 n \<Longrightarrow> pow2 (n * 2)"
  unfolding pow2_def by (metis power_Suc2)

lemma home_less: "pow2 n \<Longrightarrow> home h n < n"
  unfolding home_def and_pred_pow2 by (rule mod_less_divisor [OF pow2_pos])

lemma probe_n_iff:
  assumes "pow2 (length ks)" and "j < length ks"
  shows "probe_n n ks key j = Some i \<longleftrightarrow>
     (\<exists>d<n. i = (j + d) mod length ks \<and> (ks ! i = 0 \<or> ks ! i = key) \<and>
        (\<forall>e<d. ks ! ((j + e) mod length ks) \<noteq> 0 \<and> ks ! ((j + e) mod length ks) \<noteq> key))"
  using assms(2)
proof (induction n arbitrary: j)
  case (Suc n)
  let ?L = "length ks"
  have jm: "j mod ?L = j" using Suc.prems by simp
  show ?case
  proof (cases "ks ! j = 0 \<or> ks ! j = key")
    case True
    have zero: "d = 0" if "\<forall>e<d. ks ! ((j + e) mod ?L) \<noteq> 0 \<and> ks ! ((j + e) mod ?L) \<noteq> key" for d
      using that [rule_format, of 0] True jm by (cases d) auto
    show ?thesis
    proof
      assume "probe_n (Suc n) ks key j = Some i"
      then have "i = j" using True by auto
      then show "\<exists>d<Suc n. i = (j + d) mod ?L \<and> (ks ! i = 0 \<or> ks ! i = key) \<and>
        (\<forall>e<d. ks ! ((j + e) mod ?L) \<noteq> 0 \<and> ks ! ((j + e) mod ?L) \<noteq> key)"
        using True jm by (intro exI [of _ 0]) simp
    next
      assume "\<exists>d<Suc n. i = (j + d) mod ?L \<and> (ks ! i = 0 \<or> ks ! i = key) \<and>
        (\<forall>e<d. ks ! ((j + e) mod ?L) \<noteq> 0 \<and> ks ! ((j + e) mod ?L) \<noteq> key)"
      then obtain d where i: "i = (j + d) mod ?L"
        and "\<forall>e<d. ks ! ((j + e) mod ?L) \<noteq> 0 \<and> ks ! ((j + e) mod ?L) \<noteq> key" by blast
      then have "d = 0" by (intro zero)
      with i jm have "i = j" by simp
      then show "probe_n (Suc n) ks key j = Some i" using True by auto
    qed
  next
    case False
    let ?j = "(j + 1) mod ?L"
    have step: "probe_n (Suc n) ks key j = probe_n n ks key ?j"
      using False assms(1) and_pred_pow2 [of ?L "j + 1"] by simp
    have "?j < ?L" using pow2_pos [OF assms(1)] by simp
    note ih = Suc.IH [OF this]
    have shift: "(?j + d) mod ?L = (j + Suc d) mod ?L" for d
      by (simp add: mod_simps)
    show ?thesis
    proof
      assume "probe_n (Suc n) ks key j = Some i"
      then obtain d where d: "d < n" "i = (j + Suc d) mod ?L" "ks ! i = 0 \<or> ks ! i = key"
        and path: "\<forall>e<d. ks ! ((j + Suc e) mod ?L) \<noteq> 0 \<and> ks ! ((j + Suc e) mod ?L) \<noteq> key"
        unfolding step ih shift by blast
      have "ks ! ((j + e) mod ?L) \<noteq> 0 \<and> ks ! ((j + e) mod ?L) \<noteq> key" if "e < Suc d" for e
        using that path False jm by (cases e) auto
      with d show "\<exists>d<Suc n. i = (j + d) mod ?L \<and> (ks ! i = 0 \<or> ks ! i = key) \<and>
        (\<forall>e<d. ks ! ((j + e) mod ?L) \<noteq> 0 \<and> ks ! ((j + e) mod ?L) \<noteq> key)"
        by (intro exI [of _ "Suc d"]) auto
    next
      assume "\<exists>d<Suc n. i = (j + d) mod ?L \<and> (ks ! i = 0 \<or> ks ! i = key) \<and>
        (\<forall>e<d. ks ! ((j + e) mod ?L) \<noteq> 0 \<and> ks ! ((j + e) mod ?L) \<noteq> key)"
      then obtain d where d: "d < Suc n" "i = (j + d) mod ?L" "ks ! i = 0 \<or> ks ! i = key"
        and path: "\<forall>e<d. ks ! ((j + e) mod ?L) \<noteq> 0 \<and> ks ! ((j + e) mod ?L) \<noteq> key"
        by blast
      obtain d' where d': "d = Suc d'" using d False jm by (cases d) auto
      have "ks ! ((j + Suc e) mod ?L) \<noteq> 0 \<and> ks ! ((j + Suc e) mod ?L) \<noteq> key" if "e < d'" for e
        using path that d' by blast
      with d d' show "probe_n (Suc n) ks key j = Some i"
        unfolding step ih shift by blast
    qed
  qed
qed simp

text \<open>\<open>path ks h d\<close>: the place the loop looks at after \<open>d\<close> steps.\<close>

definition path :: "u64 list \<Rightarrow> u64 \<Rightarrow> nat \<Rightarrow> nat" where
  "path ks h d = (home h (length ks) + d) mod length ks"

lemma path_update [simp]: "path (ks[j := x]) h d = path ks h d"
  by (simp add: path_def)

lemma path_less: "pow2 (length ks) \<Longrightarrow> path ks h d < length ks"
  unfolding path_def by (rule mod_less_divisor [OF pow2_pos])

lemma probe_iff:
  assumes "pow2 (length ks)"
  shows "probe ks h key = Some i \<longleftrightarrow>
     (\<exists>d<length ks. i = path ks h d \<and> (ks ! i = 0 \<or> ks ! i = key) \<and>
        (\<forall>e<d. ks ! path ks h e \<noteq> 0 \<and> ks ! path ks h e \<noteq> key))"
  unfolding probe_def path_def by (rule probe_n_iff [OF assms home_less [OF assms]])

lemma path_onto:
  assumes "pow2 (length ks)" and "i < length ks"
  obtains d where "d < length ks" and "i = path ks h d"
proof -
  let ?L = "length ks" and ?h = "home h (length ks)"
  have h: "?h < ?L" using home_less [OF assms(1)] .
  show thesis
  proof (cases "?h \<le> i")
    case True
    then show thesis using that [of "i - ?h"] assms(2) by (simp add: path_def)
  next
    case False
    have "(?h + (?L - ?h + i)) mod ?L = (?L + i) mod ?L" using h by simp
    then show thesis
      using that [of "?L - ?h + i"] False h assms(2) by (simp add: path_def)
  qed
qed

lemma probe_ends:
  assumes "pow2 (length ks)" and "0 \<in> set ks"
  shows "\<exists>i<length ks. probe ks h key = Some i \<and> (ks ! i = 0 \<or> ks ! i = key)"
proof -
  obtain z where z: "z < length ks" "ks ! z = 0" using assms(2) by (meson in_set_conv_nth)
  define stop where "stop d \<longleftrightarrow> d < length ks \<and> (ks ! path ks h d = 0 \<or> ks ! path ks h d = key)" for d
  obtain d0 where "stop d0" using path_onto [OF assms(1) z(1)] z(2) unfolding stop_def by metis
  define d where "d = (LEAST d. stop d)"
  have d: "stop d" unfolding d_def by (rule LeastI) fact
  have nd: "\<not> stop e" if "e < d" for e using that unfolding d_def by (rule not_less_Least)
  have "probe ks h key = Some (path ks h d)"
    unfolding probe_iff [OF assms(1)]
  proof (intro exI conjI allI impI)
    show "d < length ks" and "ks ! path ks h d = 0 \<or> ks ! path ks h d = key"
      using d by (simp_all add: stop_def)
  next
    fix e assume "e < d"
    with nd [OF this] d show "ks ! path ks h e \<noteq> 0" and "ks ! path ks h e \<noteq> key"
      by (auto simp: stop_def)
  qed (rule refl)
  with d show ?thesis using path_less [OF assms(1)] by (auto simp: stop_def)
qed

lemma probe_less: "pow2 (length ks) \<Longrightarrow> probe ks h key = Some i \<Longrightarrow> i < length ks"
  by (auto simp: probe_iff path_less)

lemma probe_stop: "pow2 (length ks) \<Longrightarrow> probe ks h key = Some i \<Longrightarrow> ks ! i = 0 \<or> ks ! i = key"
  by (auto simp: probe_iff)

section \<open>Every key is found where it lies\<close>

definition placed :: "(u64 \<Rightarrow> u64) \<Rightarrow> (u64 \<Rightarrow> bool) \<Rightarrow> u64 list \<Rightarrow> bool" where
  "placed h live ks \<longleftrightarrow>
     (\<forall>i<length ks. ks ! i \<noteq> 0 \<longrightarrow> live (ks ! i) \<longrightarrow> probe ks (h (ks ! i)) (ks ! i) = Some i)"

lemma placedD:
  "placed h live ks \<Longrightarrow> i < length ks \<Longrightarrow> ks ! i = k \<Longrightarrow> k \<noteq> 0 \<Longrightarrow> live k \<Longrightarrow>
     probe ks (h k) k = Some i"
  by (auto simp: placed_def)

lemma placed_inj:
  "placed h live ks \<Longrightarrow> i < length ks \<Longrightarrow> j < length ks \<Longrightarrow> ks ! i = ks ! j \<Longrightarrow> ks ! i \<noteq> 0 \<Longrightarrow>
     live (ks ! i) \<Longrightarrow> i = j"
  by (metis placedD option.inject)

lemma probe_absent:
  "pow2 (length ks) \<Longrightarrow> probe ks h key = Some i \<Longrightarrow> key \<notin> set ks \<Longrightarrow> ks ! i = 0"
  using probe_stop probe_less by (metis nth_mem)

lemma placed_empty: "placed h live (replicate n 0)"
  by (simp add: placed_def)

text \<open>Storing a key that is not there at the place the loop stops at.\<close>

lemma placed_store:
  assumes p2: "pow2 (length ks)" and pl: "placed h live ks"
    and j: "probe ks (h key) key = Some j" and z: "ks ! j = 0" and key: "key \<noteq> 0"
  shows "placed h live (ks[j := key])"
  unfolding placed_def
proof (intro allI impI)
  let ?ks = "ks[j := key]"
  have jl: "j < length ks" using probe_less [OF p2 j] .
  fix i assume i: "i < length ?ks" and nz: "?ks ! i \<noteq> 0" and lv: "live (?ks ! i)"
  have "\<exists>d<length ks. i = path ks (h (?ks ! i)) d \<and>
      (\<forall>e<d. ks ! path ks (h (?ks ! i)) e \<noteq> 0 \<and> ks ! path ks (h (?ks ! i)) e \<noteq> ?ks ! i)"
  proof (cases "i = j")
    case True
    then show ?thesis using j jl by (auto simp: probe_iff [OF p2])
  next
    case False
    then have "probe ks (h (ks ! i)) (ks ! i) = Some i"
      using pl i nz lv by (auto simp: placed_def)
    with False show ?thesis by (auto simp: probe_iff [OF p2])
  qed
  then obtain d where d: "d < length ks" "i = path ks (h (?ks ! i)) d"
    and pth: "\<And>e. e < d \<Longrightarrow> ks ! path ks (h (?ks ! i)) e \<noteq> 0 \<and> ks ! path ks (h (?ks ! i)) e \<noteq> ?ks ! i"
    by blast
  have "?ks ! path ks (h (?ks ! i)) e = ks ! path ks (h (?ks ! i)) e" if "e < d" for e
    using pth [OF that] z by (metis nth_list_update_neq)
  moreover have "pow2 (length ?ks)" using p2 by simp
  ultimately show "probe ?ks (h (?ks ! i)) (?ks ! i) = Some i"
    unfolding probe_iff [OF \<open>pow2 (length ?ks)\<close>] path_update
    using d pth by (intro exI [of _ d]) simp
qed

text \<open>Overwriting a key by a mark that is neither 0 nor live.\<close>

lemma placed_mark:
  assumes p2: "pow2 (length ks)" and pl: "placed h live ks"
    and j: "j < length ks" and t: "t \<noteq> 0" "\<not> live t"
  shows "placed h live (ks[j := t])"
  unfolding placed_def
proof (intro allI impI)
  let ?ks = "ks[j := t]"
  fix i assume i: "i < length ?ks" and nz: "?ks ! i \<noteq> 0" and lv: "live (?ks ! i)"
  have ij: "i \<noteq> j" using t lv j by auto
  then have "probe ks (h (ks ! i)) (ks ! i) = Some i" using pl i nz lv by (auto simp: placed_def)
  then obtain d where d: "d < length ks" "i = path ks (h (ks ! i)) d"
    and pth: "\<And>e. e < d \<Longrightarrow> ks ! path ks (h (ks ! i)) e \<noteq> 0 \<and> ks ! path ks (h (ks ! i)) e \<noteq> ks ! i"
    by (auto simp: probe_iff [OF p2])
  have eq: "?ks ! i = ks ! i" using ij by simp
  have "?ks ! path ks (h (ks ! i)) e \<noteq> 0 \<and> ?ks ! path ks (h (ks ! i)) e \<noteq> ks ! i" if "e < d" for e
  proof -
    have "t \<noteq> ks ! i" using t(2) lv eq by auto
    then show ?thesis using pth [OF that] t(1) j
      by (cases "path ks (h (ks ! i)) e = j") simp_all
  qed
  moreover have "pow2 (length ?ks)" using p2 by simp
  ultimately show "probe ?ks (h (?ks ! i)) (?ks ! i) = Some i"
    unfolding eq probe_iff [OF \<open>pow2 (length ?ks)\<close>] path_update
    using d eq by (intro exI [of _ d]) simp
qed

section \<open>What the arrays hold\<close>

definition used :: "u64 list \<Rightarrow> nat" where
  "used ks = length (filter (\<lambda>k. k \<noteq> 0) ks)"

definition entries :: "u64 list \<Rightarrow> 'v list \<Rightarrow> (u64 \<times> 'v) set" where
  "entries ks vs = {(k, v). (k, v) \<in> set (zip ks vs) \<and> k \<noteq> 0}"

lemma used_le: "used ks \<le> length ks"
  by (simp add: used_def)

lemma used_less: "used ks < length ks \<longleftrightarrow> 0 \<in> set ks"
  by (induction ks) (auto simp: used_def le_imp_less_Suc)

lemma used_replicate [simp]: "used (replicate n 0) = 0"
  by (simp add: used_def)

lemma used_update:
  "j < length ks \<Longrightarrow> used (ks[j := k]) + (if ks ! j \<noteq> 0 then 1 else 0) = used ks + (if k \<noteq> 0 then 1 else 0)"
proof (induction ks arbitrary: j)
  case (Cons x ks)
  show ?case
  proof (cases j)
    case (Suc i)
    then show ?thesis using Cons.IH [of i] Cons.prems by (simp add: used_def split: if_splits)
  qed (simp add: used_def)
qed simp

lemma entries_iff:
  "length vs = length ks \<Longrightarrow> (k, v) \<in> entries ks vs \<longleftrightarrow> k \<noteq> 0 \<and> (\<exists>i<length ks. ks ! i = k \<and> vs ! i = v)"
  by (auto simp: entries_def set_zip)

lemma entries_replicate [simp]: "entries (replicate n 0) vs = {}"
  by (auto simp: entries_def set_zip)

lemma entries_Nil [simp]: "entries [] vs = {}"
  by (simp add: entries_def)

lemma entries_store:
  assumes "length vs = length ks" and "j < length ks" and "ks ! j = 0" and "k \<noteq> 0"
  shows "entries (ks[j := k]) (vs[j := v]) = insert (k, v) (entries ks vs)"
  unfolding set_eq_iff split_paired_All
  using assms by (auto simp: entries_iff nth_list_update)

lemma entries_store_old:
  assumes "length vs = length ks" and "j < length ks" and "ks ! j = 0" and "k \<noteq> 0"
  shows "entries (ks[j := k]) vs = insert (k, vs ! j) (entries ks vs)"
  using entries_store [OF assms, of "vs ! j"] by simp

text \<open>Under the invariant the loop's place decides whether a key is there, and its value.\<close>

lemma probe_finds:
  assumes "pow2 (length ks)" and "placed h live ks" and "i < length ks" and "ks ! i = k"
    and "k \<noteq> 0" and "live k"
  shows "probe ks (h k) k = Some i"
  using assms by (auto simp: placed_def)

lemma probe_entries:
  assumes p2: "pow2 (length ks)" and pl: "placed h live ks" and len: "length vs = length ks"
    and j: "probe ks (h k) k = Some j" and k: "k \<noteq> 0" "live k"
  shows "(k, v) \<in> entries ks vs \<longleftrightarrow> ks ! j = k \<and> vs ! j = v"
proof -
  have jl: "j < length ks" by (rule probe_less [OF p2 j])
  have "i = j" if "i < length ks" "ks ! i = k" for i
    using probe_finds [OF p2 pl that k] j by simp
  then show ?thesis using jl k by (auto simp: entries_iff [OF len])
qed

lemma rehash_full:
  fixes nk :: "u64 list"
  assumes "pow2 (length nk)" and "length nv = length nk" and "placed h live nk"
    and "used nk + length (filter (\<lambda>(k, v). keep k) es) < length nk"
    and "distinct (map fst (filter (\<lambda>(k, v). keep k) es))"
    and "\<forall>(k, v)\<in>set es. keep k \<longrightarrow> k \<noteq> 0 \<and> k \<notin> set nk"
  shows "\<exists>nk' nv'. rehash h keep es nk nv = Some (nk', nv') \<and> length nk' = length nk \<and>
     length nv' = length nk \<and> placed h live nk' \<and>
     used nk' = used nk + length (filter (\<lambda>(k, v). keep k) es) \<and>
     entries nk' nv' = entries nk nv \<union> set (filter (\<lambda>(k, v). keep k) es) \<and>
     (\<forall>i<length nk. nk' ! i = 0 \<longrightarrow> nk ! i = 0 \<and> nv' ! i = nv ! i)"
  using assms
proof (induction es arbitrary: nk nv)
  case (Cons e es)
  obtain k v where e: "e = (k, v)" by (cases e)
  show ?case
  proof (cases "keep k")
    case False
    then show ?thesis using Cons e by simp
  next
    case True
    have kz: "k \<noteq> 0" and kn: "k \<notin> set nk" using Cons.prems(6) e True by auto
    have "0 \<in> set nk" using Cons.prems(4) used_less [of nk] by simp
    then obtain j where j: "j < length nk" "probe nk (h k) 0 = Some j" "nk ! j = 0"
      using probe_ends [OF Cons.prems(1), of "h k" 0] by auto
    have jk: "probe nk (h k) k = Some j"
    proof -
      obtain d where d: "d < length nk" "j = path nk (h k) d"
        and pth: "\<forall>e<d. nk ! path nk (h k) e \<noteq> 0"
        using j(2) by (auto simp: probe_iff [OF Cons.prems(1)])
      have "nk ! path nk (h k) e \<noteq> k" for e
        using kn path_less [OF Cons.prems(1), of "h k" e] nth_mem by metis
      with d pth j(3) show ?thesis
        unfolding probe_iff [OF Cons.prems(1)] by (intro exI [of _ d]) simp
    qed
    let ?nk = "nk[j := k]" and ?nv = "nv[j := v]"
    have "placed h live ?nk" by (rule placed_store [OF Cons.prems(1,3) jk j(3) kz])
    moreover have u: "used ?nk = used nk + 1" using used_update [OF j(1), of k] j(3) kz by simp
    moreover have "\<forall>(k', v')\<in>set es. keep k' \<longrightarrow> k' \<noteq> 0 \<and> k' \<notin> set ?nk"
    proof (clarify)
      fix k' v' assume m: "(k', v') \<in> set es" and kp: "keep k'"
      have "k' \<noteq> k"
        using Cons.prems(5) m kp True e by (force simp: image_iff)
      moreover have "k' \<noteq> 0 \<and> k' \<notin> set nk" using Cons.prems(6) m kp by auto
      ultimately show "k' \<noteq> 0 \<and> k' \<notin> set ?nk"
        using set_update_subset_insert [of nk j k] by auto
    qed
    ultimately obtain nk' nv' where r: "rehash h keep es ?nk ?nv = Some (nk', nv')"
      "length nk' = length nk" "length nv' = length nk" "placed h live nk'"
      "used nk' = used nk + 1 + length (filter (\<lambda>(k, v). keep k) es)"
      "entries nk' nv' = entries ?nk ?nv \<union> set (filter (\<lambda>(k, v). keep k) es)"
      "\<forall>i<length nk. nk' ! i = 0 \<longrightarrow> ?nk ! i = 0 \<and> nv' ! i = ?nv ! i"
      using Cons.IH [of ?nk ?nv] Cons.prems e True by auto
    have "entries ?nk ?nv = insert (k, v) (entries nk nv)"
      using Cons.prems(2) j kz by (intro entries_store)
    moreover have "nk ! i = 0 \<and> nv' ! i = nv ! i" if "i < length nk" "nk' ! i = 0" for i
      using r(7) that kz j(1) by (cases "i = j") auto
    ultimately show ?thesis using r(1-6) True e j(2) by simp
  qed
qed simp

lemma rehash_ok:
  fixes nk :: "u64 list"
  assumes "pow2 (length nk)" and "length nv = length nk" and "placed h live nk"
    and "used nk + length (filter (\<lambda>(k, v). keep k) es) < length nk"
    and "distinct (map fst (filter (\<lambda>(k, v). keep k) es))"
    and "\<forall>(k, v)\<in>set es. keep k \<longrightarrow> k \<noteq> 0 \<and> k \<notin> set nk"
  shows "\<exists>nk' nv'. rehash h keep es nk nv = Some (nk', nv') \<and> length nk' = length nk \<and>
     length nv' = length nk \<and> placed h live nk' \<and>
     used nk' = used nk + length (filter (\<lambda>(k, v). keep k) es) \<and>
     entries nk' nv' = entries nk nv \<union> set (filter (\<lambda>(k, v). keep k) es)"
  using rehash_full [OF assms] by blast

text \<open>The live keys of an array are distinct.\<close>

lemma placed_distinct:
  assumes "placed h live ks" and "length vs = length ks"
    and "\<And>k. keep k \<Longrightarrow> k \<noteq> 0 \<and> live k"
  shows "distinct (map fst (filter (\<lambda>(k, v). keep k) (zip ks vs)))"
proof -
  have "distinct (filter keep ks)"
    unfolding distinct_conv_nth
  proof (intro allI impI)
    fix i j assume i: "i < length (filter keep ks)" and j: "j < length (filter keep ks)" and ij: "i \<noteq> j"
    define ixs where "ixs = filter (\<lambda>i. keep (ks ! i)) [0..<length ks]"
    have fk: "filter keep ks = map ((!) ks) ixs"
      unfolding ixs_def by (subst map_nth [of ks, symmetric], subst filter_map) (simp add: o_def)
    have dx: "distinct ixs" by (simp add: ixs_def)
    have m: "ixs ! i \<in> set ixs" "ixs ! j \<in> set ixs" using i j fk by auto
    have "ixs ! i \<noteq> ixs ! j" using dx i j ij fk by (simp add: nth_eq_iff_index_eq)
    then have "ks ! (ixs ! i) \<noteq> ks ! (ixs ! j)"
      using m placed_inj [OF assms(1)] assms(3) by (auto simp: ixs_def)
    then show "filter keep ks ! i \<noteq> filter keep ks ! j"
      using i j fk by simp
  qed
  moreover have "map fst (filter (\<lambda>(k, v). keep k) (zip ks vs)) = filter keep ks"
    using assms(2) [symmetric] by (induction ks vs rule: list_induct2) auto
  ultimately show ?thesis by simp
qed

lemma filter_used:
  "length vs = length ks \<Longrightarrow> (\<And>k. keep k \<Longrightarrow> k \<noteq> 0) \<Longrightarrow>
     length (filter (\<lambda>(k, v). keep k) (zip ks vs)) \<le> used ks"
proof (induction ks arbitrary: vs)
  case (Cons k ks)
  then obtain v vs' where "vs = v # vs'" by (cases vs) auto
  with Cons show ?case by (auto simp: used_def le_SucI)
qed simp

lemma filter_nonzero_used:
  "length vs = length ks \<Longrightarrow> length (filter (\<lambda>(k, v). k \<noteq> 0) (zip ks vs)) = used ks"
proof (induction ks arbitrary: vs)
  case (Cons k ks)
  then obtain v vs' where "vs = v # vs'" by (cases vs) auto
  with Cons show ?case by (auto simp: used_def)
qed (simp add: used_def)

end
