(* ===== verification/WobFormat.thy ===== *)
theory WobFormat
  imports Prelude
begin

text \<open>
  The constants and the class descriptor that compiler, virtual machine and database share
  (\<open>runtime/src/wob.h\<close>): the field kinds, the class flags, the trap codes and the class table.
\<close>

section \<open>Field kinds\<close>

text \<open>One byte per field in the class table, \<open>WO_K_SCALAR = 0\<close> to \<open>WO_K_BYTES = 7\<close>.\<close>

datatype kind = KScalar | KOwned | KGcref | KText | KMulti | KMap | KFloat | KBytes

fun kind_byte :: "kind \<Rightarrow> u8" where
  "kind_byte KScalar = 0"
| "kind_byte KOwned = 1"
| "kind_byte KGcref = 2"
| "kind_byte KText = 3"
| "kind_byte KMulti = 4"
| "kind_byte KMap = 5"
| "kind_byte KFloat = 6"
| "kind_byte KBytes = 7"

text \<open>A byte past \<open>WO_K_MAX\<close> names no kind: every reader of a kind byte refuses it.\<close>

definition kind_of_byte :: "u8 \<Rightarrow> kind option" where
  "kind_of_byte b =
     (if b = 0 then Some KScalar else if b = 1 then Some KOwned
      else if b = 2 then Some KGcref else if b = 3 then Some KText
      else if b = 4 then Some KMulti else if b = 5 then Some KMap
      else if b = 6 then Some KFloat else if b = 7 then Some KBytes else None)"

lemma kind_of_kind_byte [simp, codec]: "kind_of_byte (kind_byte k) = Some k"
  by (cases k) (simp_all add: kind_of_byte_def)

lemma kind_byte_inj: "kind_byte k = kind_byte k' \<Longrightarrow> k = k'"
  by (metis kind_of_kind_byte option.inject)

section \<open>The class descriptor\<close>

text \<open>
  \<open>wo_classdesc\<close>: \<open>field_cnt\<close> is the length of \<open>kinds\<close>. \<open>field_class\<close> and \<open>field_elem\<close> may
  be absent (a null pointer). An index of \<open>idx_meta\<close> is its flags word (bit 0: unique) and its columns.
\<close>

record wo_classdesc =
  cls_flags :: u32
  kinds :: "kind list"
  field_class :: "u32 list option"
  field_elem :: "u32 list option"
  idx_meta :: "(u32 \<times> nat list) list"

abbreviation field_cnt :: "wo_classdesc \<Rightarrow> nat" where
  "field_cnt c \<equiv> length (kinds c)"

type_synonym classes = "wo_classdesc list"

definition WO_CLASSF_GC :: u32 where "WO_CLASSF_GC = 1"
definition WO_CLASSF_VOLATILE :: u32 where "WO_CLASSF_VOLATILE = 2"
definition WO_CLASSF_RESIDENT_KEYS :: u32 where "WO_CLASSF_RESIDENT_KEYS = 4"
definition WO_CLASSF_TABLE :: u32 where "WO_CLASSF_TABLE = 8"

definition WOB_NONE :: u32 where "WOB_NONE = 0xFFFFFFFF"

section \<open>Trap codes\<close>

text \<open>The codes of \<open>wob.h\<close>; \<open>WO_T_FK = 11\<close> and so on are their positions in the enum.\<close>

datatype trap = WO_T_DIV0 | WO_T_BORROW | WO_T_STACK | WO_T_OOM | WO_T_DB | WO_T_BOUNDS
  | WO_T_KEY | WO_T_EXPLICIT | WO_T_IO | WO_T_UNIQUE | WO_T_FK | WO_T_SHIFT | WO_T_ACTOR

section \<open>The two nil words\<close>

definition WO_NIL_SCALAR :: u64 where "WO_NIL_SCALAR = - 4611686018427387904"
definition WO_NIL_FLOAT :: u64 where "WO_NIL_FLOAT = 0x7FF8000000000EE1"

section \<open>IEEE 754 doubles, as far as the index keys look at them\<close>

text \<open>
  A Float is the register's 64 bits. \<open>d != d\<close> holds for exactly the NaNs (exponent all ones,
  mantissa not zero); \<open>d == 0.0\<close> for exactly the two zeros.
\<close>

definition f64_is_nan :: "u64 \<Rightarrow> bool" where
  "f64_is_nan b \<longleftrightarrow>
     (b AND 0x7FF0000000000000) = 0x7FF0000000000000 \<and> (b AND 0x000FFFFFFFFFFFFF) \<noteq> 0"

definition f64_is_zero :: "u64 \<Rightarrow> bool" where
  "f64_is_zero b \<longleftrightarrow> (b AND 0x7FFFFFFFFFFFFFFF) = 0"

section \<open>Allocation\<close>

text \<open>
  Allocation is the C library's. Whether it succeeds is a parameter \<open>mem\<close> of every function that
  allocates: one answer for each allocation site of the source, so every out-of-memory arm is a
  branch of the model. Freeing has no effect that the model can see.
\<close>

datatype alloc_site =
    AVmStr | AVmObj | AVmMulti | AVmPush | AVmMap | AVmMapKeys | AVmMapVals  \<comment> \<open>the VM heap\<close>
  | AEncText | AEncRec | AEncMulti | AEncMap          \<comment> \<open>\<open>db_val_encode\<close>\<close>
  | ACloneText | ACloneRec | ACloneMulti | ACloneMap  \<comment> \<open>\<open>wo_db_val_clone\<close>\<close>
  | AHash                                             \<comment> \<open>\<open>hgrow\<close>\<close>
  | AIdxInit | AIdxGrow | AIdxIds nat | AProbeIds     \<comment> \<open>the secondary indexes\<close>
  | ATabIndexes | ASlabArr | ASlab | ABitmap | AFreeSlots  \<comment> \<open>tables and slabs\<close>
  | AScratch | ACand                                  \<comment> \<open>borrowed rows\<close>
  | AWalPayload | AWalRec | AWalBuf | AWalSchema      \<comment> \<open>staging\<close>
  | APend | ARepoint                                  \<comment> \<open>the pending lists\<close>
  | AScan | ADec | AFold                              \<comment> \<open>reading the log\<close>
  | ADb | AIdList                                     \<comment> \<open>\<open>wo_db_init\<close>, the executor\<close>
  | AMig | AMigMap | AMigVals                          \<comment> \<open>migration\<close>
  | AGray | AMay                                      \<comment> \<open>the collector\<close>
  | ALdConsts | ALdText | ALdClasses | ALdPool | ALdIface | ALdVtab | ALdMethods | ALdTable  \<comment> \<open>the loader\<close>
  | AFiber | AMailbox | AEnvelope | AActor | AMonitor | ATimer  \<comment> \<open>fibers and actors\<close>

type_synonym mem = "alloc_site \<Rightarrow> bool"

end
