(* ===== verification/IdHash.thy ===== *)
theory IdHash
  imports Probing WobFormat
begin

text \<open>
  The id hash of a table (\<open>hmix\<close>, \<open>hgrow\<close>, \<open>hput\<close>, \<open>hget\<close>, \<open>hdel\<close> of
  \<open>database/src/table.c\<close>): row ids to a 64-bit value, 0 for "no such row". Shown: over the ids a
  table hands out it is a finite map, every loop ends, and growing keeps all entries.
\<close>

section \<open>The interface of a key-value store\<close>

text \<open>
  What the engine's maps promise their clients: a successful put is seen by every later lookup
  and disturbs no other key.
\<close>

locale kv_store =
  fixes lookup :: "'s \<Rightarrow> 'k \<Rightarrow> 'v option"
    and put :: "'s \<Rightarrow> 'k \<Rightarrow> 'v \<Rightarrow> 's option"
    and inv :: "'s \<Rightarrow> bool"
    and key_ok :: "'k \<Rightarrow> bool"
    and val_ok :: "'v \<Rightarrow> bool"
  assumes put_inv: "inv s \<Longrightarrow> key_ok k \<Longrightarrow> put s k v = Some s' \<Longrightarrow> inv s'"
    and lookup_put:
      "inv s \<Longrightarrow> key_ok k \<Longrightarrow> key_ok k' \<Longrightarrow> val_ok v \<Longrightarrow> put s k v = Some s' \<Longrightarrow>
         lookup s' k' = (if k' = k then Some v else lookup s k')"
begin

primrec put_all :: "'s \<Rightarrow> ('k \<times> 'v) list \<Rightarrow> 's option" where
  "put_all s [] = Some s"
| "put_all s (e # es) = (case put s (fst e) (snd e) of None \<Rightarrow> None | Some s' \<Rightarrow> put_all s' es)"

text \<open>After a sequence of puts the last one for a key wins.\<close>

lemma lookup_put_all:
  assumes "inv s" and "put_all s es = Some s'" and "\<forall>e\<in>set es. key_ok (fst e) \<and> val_ok (snd e)"
    and "key_ok k"
  shows "inv s' \<and> lookup s' k = (case map_of (rev es) k of Some v \<Rightarrow> Some v | None \<Rightarrow> lookup s k)"
  using assms
proof (induction es arbitrary: s)
  case (Cons e es)
  obtain k1 v1 where e: "e = (k1, v1)" by (cases e)
  obtain s1 where s1: "put s k1 v1 = Some s1" "put_all s1 es = Some s'"
    using Cons.prems(2) e by (auto split: option.splits)
  have ok: "key_ok k1" "val_ok v1" using Cons.prems(3) e by auto
  have "inv s1" by (rule put_inv [OF Cons.prems(1) ok(1) s1(1)])
  then have "inv s' \<and> lookup s' k = (case map_of (rev es) k of Some v \<Rightarrow> Some v | None \<Rightarrow> lookup s1 k)"
    using s1(2) Cons.prems by (intro Cons.IH) auto
  moreover have "lookup s1 k = (if k = k1 then Some v1 else lookup s k)"
    by (rule lookup_put [OF Cons.prems(1) ok(1) Cons.prems(4) ok(2) s1(1)])
  ultimately show ?case using e by (auto simp: map_add_def split: option.splits)
qed simp

end

section \<open>The hash function\<close>

text \<open>The finalizer of splitmix64, on 64-bit words that wrap.\<close>

definition hmix :: "u64 \<Rightarrow> u64" where
  "hmix x0 =
     (let x = x0 + 0x9e3779b97f4a7c15;
          y = (x XOR drop_bit 30 x) * 0xbf58476d1ce4e5b9;
          z = (y XOR drop_bit 27 y) * 0x94d049bb133111eb
      in z XOR drop_bit 31 z)"

definition H_DELETED :: u64 where "H_DELETED = - 1"

section \<open>The table\<close>

text \<open>The fields \<open>hkeys\<close>, \<open>hvals\<close> and \<open>hlen\<close> of \<open>db_table\<close>; \<open>hcap\<close> is the length of \<open>hkeys\<close>.\<close>

record id_hash =
  hkeys :: "u64 list"
  hvals :: "u64 list"
  hlen :: nat

definition empty_hash :: id_hash where
  "empty_hash = \<lparr>hkeys = [], hvals = [], hlen = 0\<rparr>"

definition h_live :: "u64 \<Rightarrow> bool" where
  "h_live k \<longleftrightarrow> k \<noteq> 0 \<and> k \<noteq> H_DELETED"

text \<open>
  \<open>None\<close> is the result \<open>-1\<close>, no memory (or a rehash that would not end, which
  \<open>hgrow_ok\<close> excludes). Deleted marks are not carried over; \<open>hlen\<close> is not recomputed.
\<close>

definition hgrow :: "mem \<Rightarrow> id_hash \<Rightarrow> id_hash option" where
  "hgrow mem t =
     (let ncap = (if hkeys t \<noteq> [] then length (hkeys t) * 2 else 64) in
      if \<not> mem AHash then None
      else
        (case rehash hmix h_live (zip (hkeys t) (hvals t)) (replicate ncap 0) (replicate ncap 0) of
           None \<Rightarrow> None
         | Some (nk, nv) \<Rightarrow> Some (t\<lparr>hkeys := nk, hvals := nv\<rparr>)))"

definition hput :: "mem \<Rightarrow> id_hash \<Rightarrow> u64 \<Rightarrow> u64 \<Rightarrow> id_hash option" where
  "hput mem t0 rid slot1 =
     (case (if length (hkeys t0) * 7 \<le> hlen t0 * 10 then hgrow mem t0 else Some t0) of
        None \<Rightarrow> None
      | Some t \<Rightarrow>
         (case probe (hkeys t) (hmix rid) rid of
            None \<Rightarrow> None
          | Some j \<Rightarrow>
              Some (t\<lparr>hlen := (if hkeys t ! j = 0 then hlen t + 1 else hlen t),
                      hkeys := (hkeys t)[j := rid], hvals := (hvals t)[j := slot1]\<rparr>)))"

definition hget :: "id_hash \<Rightarrow> u64 \<Rightarrow> u64" where
  "hget t rid =
     (if hkeys t = [] then 0
      else
        (case probe (hkeys t) (hmix rid) rid of
           None \<Rightarrow> 0
         | Some j \<Rightarrow> if hkeys t ! j = 0 then 0 else hvals t ! j))"

definition hdel :: "id_hash \<Rightarrow> u64 \<Rightarrow> id_hash" where
  "hdel t rid =
     (if hkeys t = [] then t
      else
        (case probe (hkeys t) (hmix rid) rid of
           None \<Rightarrow> t
         | Some j \<Rightarrow>
             if hkeys t ! j = 0 then t
             else t\<lparr>hkeys := (hkeys t)[j := H_DELETED], hvals := (hvals t)[j := 0]\<rparr>))"

text \<open>The loop of \<open>wo_row_set_offset\<close>: overwrite the value of a key that is there, or \<open>None\<close>.\<close>

definition hset :: "id_hash \<Rightarrow> u64 \<Rightarrow> u64 \<Rightarrow> id_hash option" where
  "hset t rid v =
     (if hkeys t = [] then None
      else
        (case probe (hkeys t) (hmix rid) rid of
           None \<Rightarrow> None
         | Some j \<Rightarrow>
             if hkeys t ! j = 0 then None else Some (t\<lparr>hvals := (hvals t)[j := v]\<rparr>)))"

section \<open>The invariant\<close>

text \<open>
  \<open>hlen\<close> counts the places in use, deleted ones included, or more (a rehash drops the deleted
  marks and keeps the count); it stays about seven tenths of the capacity, so a place is always
  empty.
\<close>

definition hash_inv :: "id_hash \<Rightarrow> bool" where
  "hash_inv t \<longleftrightarrow>
     (hkeys t = [] \<and> hvals t = [] \<and> hlen t = 0) \<or>
     (pow2 (length (hkeys t)) \<and> 64 \<le> length (hkeys t) \<and> length (hvals t) = length (hkeys t) \<and>
      placed hmix h_live (hkeys t) \<and> used (hkeys t) \<le> hlen t \<and>
      hlen t * 10 < length (hkeys t) * 7 + 10 \<and>
      (\<forall>i<length (hkeys t). hkeys t ! i = H_DELETED \<longrightarrow> hvals t ! i = 0))"

lemma empty_hash_inv [simp]: "hash_inv empty_hash"
  by (simp add: hash_inv_def empty_hash_def)

lemma hash_inv_cases:
  assumes "hash_inv t"
  obtains (empty) "hkeys t = []" "hvals t = []" "hlen t = 0"
  | (full) "hkeys t \<noteq> []" "pow2 (length (hkeys t))" "64 \<le> length (hkeys t)"
      "length (hvals t) = length (hkeys t)" "placed hmix h_live (hkeys t)"
      "used (hkeys t) \<le> hlen t" "hlen t * 10 < length (hkeys t) * 7 + 10" "0 \<in> set (hkeys t)"
      "\<forall>i<length (hkeys t). hkeys t ! i = H_DELETED \<longrightarrow> hvals t ! i = 0"
proof (cases "hkeys t = []")
  case True
  then show thesis using assms empty by (auto simp: hash_inv_def)
next
  case False
  then have f: "pow2 (length (hkeys t))" "64 \<le> length (hkeys t)"
      "length (hvals t) = length (hkeys t)" "placed hmix h_live (hkeys t)"
      "used (hkeys t) \<le> hlen t" "hlen t * 10 < length (hkeys t) * 7 + 10"
      "\<forall>i<length (hkeys t). hkeys t ! i = H_DELETED \<longrightarrow> hvals t ! i = 0"
    using assms by (auto simp: hash_inv_def)
  have "0 \<in> set (hkeys t)" unfolding used_less [symmetric] using f by linarith
  then show thesis using full False f by blast
qed

lemma h_live_key: "h_live k \<Longrightarrow> k \<noteq> 0" by (simp add: h_live_def)

text \<open>What \<open>hget\<close> returns, in terms of the entries of the arrays.\<close>

lemma hget_entries:
  assumes inv: "hash_inv t" and rid: "h_live rid"
  shows "(rid, v) \<in> entries (hkeys t) (hvals t) \<Longrightarrow> hget t rid = v"
    and "(\<And>v. (rid, v) \<notin> entries (hkeys t) (hvals t)) \<Longrightarrow> hget t rid = 0"
proof -
  from inv have *: "((rid, v) \<in> entries (hkeys t) (hvals t) \<longrightarrow> hget t rid = v) \<and>
     ((\<forall>v. (rid, v) \<notin> entries (hkeys t) (hvals t)) \<longrightarrow> hget t rid = 0)"
  proof (cases rule: hash_inv_cases)
    case empty
    then show ?thesis by (simp add: hget_def entries_def)
  next
    case full
    obtain j where j: "probe (hkeys t) (hmix rid) rid = Some j"
      using probe_ends [OF full(2,8)] by blast
    note pe = probe_entries [OF full(2,5,4) j h_live_key [OF rid] rid]
    have g: "hget t rid = (if hkeys t ! j = 0 then 0 else hvals t ! j)"
      using full(1) j by (simp add: hget_def)
    have st: "hkeys t ! j = 0 \<or> hkeys t ! j = rid" by (rule probe_stop [OF full(2) j])
    show ?thesis
    proof (cases "hkeys t ! j = 0")
      case True
      then show ?thesis using g pe h_live_key [OF rid] by auto
    next
      case False
      then have "(rid, hvals t ! j) \<in> entries (hkeys t) (hvals t)" using st pe by simp
      then show ?thesis using False g pe by auto
    qed
  qed
  show "(rid, v) \<in> entries (hkeys t) (hvals t) \<Longrightarrow> hget t rid = v" using * by blast
  show "(\<And>v. (rid, v) \<notin> entries (hkeys t) (hvals t)) \<Longrightarrow> hget t rid = 0" using * by blast
qed

lemma hget_iff:
  assumes "hash_inv t" and "h_live rid" and "v \<noteq> 0"
  shows "hget t rid = v \<longleftrightarrow> (rid, v) \<in> entries (hkeys t) (hvals t)"
  using hget_entries [OF assms(1,2)] assms(3) by metis

text \<open>Growing: it succeeds whenever there is memory, and every live entry is still there.\<close>

lemma hgrow_ok:
  assumes inv: "hash_inv t" and mem: "mem AHash"
  shows "\<exists>t'. hgrow mem t = Some t' \<and> hlen t' = hlen t \<and>
     pow2 (length (hkeys t')) \<and> length (hvals t') = length (hkeys t') \<and>
     length (hkeys t') = (if hkeys t = [] then 64 else length (hkeys t) * 2) \<and>
     placed hmix h_live (hkeys t') \<and> used (hkeys t') \<le> hlen t \<and>
     entries (hkeys t') (hvals t') = {(k, v) \<in> entries (hkeys t) (hvals t). h_live k}"
proof -
  let ?n = "if hkeys t = [] then 64 else length (hkeys t) * 2"
  let ?es = "zip (hkeys t) (hvals t)"
  let ?live = "filter (\<lambda>(k, v). h_live k) ?es"
  from inv have "pow2 ?n \<and> length ?live \<le> hlen t \<and> hlen t < ?n \<and> distinct (map fst ?live) \<and>
      length (hvals t) = length (hkeys t)"
  proof (cases rule: hash_inv_cases)
    case empty
    have "pow2 64" unfolding pow2_def by (rule exI [of _ 6]) simp
    with empty show ?thesis by simp
  next
    case full
    have "length ?live \<le> used (hkeys t)"
      by (rule filter_used [OF full(4)]) (rule h_live_key)
    moreover have "distinct (map fst ?live)"
      by (rule placed_distinct [OF full(5) full(4)]) (simp add: h_live_key)
    moreover have "hlen t < length (hkeys t) * 2" using full(3,7) by linarith
    ultimately show ?thesis using full pow2_double by auto
  qed
  then have f: "pow2 ?n" "length ?live \<le> hlen t" "hlen t < ?n" "distinct (map fst ?live)"
    "length (hvals t) = length (hkeys t)" by blast+
  have "\<exists>nk' nv'. rehash hmix h_live ?es (replicate ?n 0) (replicate ?n 0) = Some (nk', nv') \<and>
     length nk' = length (replicate ?n (0::u64)) \<and> length nv' = length (replicate ?n (0::u64)) \<and>
     placed hmix h_live nk' \<and> used nk' = used (replicate ?n (0::u64)) + length ?live \<and>
     entries nk' nv' = entries (replicate ?n (0::u64)) (replicate ?n (0::u64)) \<union> set ?live"
    by (rule rehash_ok) (use f in \<open>auto simp: placed_empty h_live_key\<close>)
  moreover have "set ?live = {(k, v) \<in> entries (hkeys t) (hvals t). h_live k}"
    by (auto simp: entries_def h_live_def)
  ultimately show ?thesis using f mem by (auto simp: hgrow_def Let_def)
qed

section \<open>The map laws\<close>

lemma hput_inv_entries:
  assumes inv: "hash_inv t0" and rid: "h_live rid" and put: "hput mem t0 rid v = Some t'"
  shows "hash_inv t' \<and>
     (\<forall>k w. h_live k \<longrightarrow> ((k, w) \<in> entries (hkeys t') (hvals t') \<longleftrightarrow>
        (if k = rid then w = v else (k, w) \<in> entries (hkeys t0) (hvals t0))))"
proof -
  obtain t where t: "(if length (hkeys t0) * 7 \<le> hlen t0 * 10 then hgrow mem t0 else Some t0) = Some t"
    using put by (auto simp: hput_def split: option.splits)
  have "pow2 (length (hkeys t)) \<and> 64 \<le> length (hkeys t) \<and> length (hvals t) = length (hkeys t) \<and>
      placed hmix h_live (hkeys t) \<and> used (hkeys t) \<le> hlen t \<and> hlen t * 10 < length (hkeys t) * 7 \<and>
      (\<forall>i<length (hkeys t). hkeys t ! i = H_DELETED \<longrightarrow> hvals t ! i = 0) \<and>
      (\<forall>k w. h_live k \<longrightarrow> ((k, w) \<in> entries (hkeys t) (hvals t) \<longleftrightarrow> (k, w) \<in> entries (hkeys t0) (hvals t0)))"
  proof (cases "length (hkeys t0) * 7 \<le> hlen t0 * 10")
    case True
    then have "mem AHash" using t by (auto simp: hgrow_def Let_def split: if_splits)
    from hgrow_ok [where mem = mem, OF inv this] True t
    have g: "hlen t = hlen t0" "pow2 (length (hkeys t))" "length (hvals t) = length (hkeys t)"
      "length (hkeys t) = (if hkeys t0 = [] then 64 else length (hkeys t0) * 2)"
      "placed hmix h_live (hkeys t)" "used (hkeys t) \<le> hlen t0"
      "entries (hkeys t) (hvals t) = {(k, v) \<in> entries (hkeys t0) (hvals t0). h_live k}"
      by auto
    have "hlen t0 * 10 < length (hkeys t) * 7 \<and> 64 \<le> length (hkeys t)"
      using inv by (cases rule: hash_inv_cases) (auto simp: g(4))
    moreover have "hkeys t ! i \<noteq> H_DELETED" if "i < length (hkeys t)" for i
    proof
      assume d: "hkeys t ! i = H_DELETED"
      then have "(H_DELETED, hvals t ! i) \<in> entries (hkeys t) (hvals t)"
        using that g(3) by (auto simp: entries_iff H_DELETED_def)
      then show False using g(7) by (simp add: h_live_def)
    qed
    ultimately show ?thesis
      using g by auto
  next
    case False
    with t inv show ?thesis
      by (auto simp: hash_inv_def)
  qed
  then have f: "pow2 (length (hkeys t))" "64 \<le> length (hkeys t)" "length (hvals t) = length (hkeys t)"
    "placed hmix h_live (hkeys t)" "used (hkeys t) \<le> hlen t" "hlen t * 10 < length (hkeys t) * 7"
    "\<forall>i<length (hkeys t). hkeys t ! i = H_DELETED \<longrightarrow> hvals t ! i = 0"
    "\<forall>k w. h_live k \<longrightarrow> ((k, w) \<in> entries (hkeys t) (hvals t) \<longleftrightarrow> (k, w) \<in> entries (hkeys t0) (hvals t0))" by blast+
  have z: "0 \<in> set (hkeys t)" unfolding used_less [symmetric] using f by linarith
  obtain j where j: "probe (hkeys t) (hmix rid) rid = Some j" "j < length (hkeys t)"
    using probe_ends [OF f(1) z] by blast
  have t': "hkeys t' = (hkeys t)[j := rid]" "hvals t' = (hvals t)[j := v]"
    "hlen t' = (if hkeys t ! j = 0 then hlen t + 1 else hlen t)"
    using put t j by (auto simp: hput_def)
  note idz = h_live_key [OF rid]
  have st: "hkeys t ! j = 0 \<or> hkeys t ! j = rid" by (rule probe_stop [OF f(1) j(1)])
  show ?thesis
  proof (cases "hkeys t ! j = 0")
    case True
    have "placed hmix h_live (hkeys t')"
      unfolding t' by (rule placed_store [OF f(1,4) j(1) True idz])
    moreover have "used (hkeys t') \<le> hlen t'"
      using used_update [OF j(2), of rid] True idz f(5) by (simp add: t')
    moreover have "\<forall>i<length (hkeys t'). hkeys t' ! i = H_DELETED \<longrightarrow> hvals t' ! i = 0"
      using f(7) rid f(3) j(2) by (auto simp: t' nth_list_update h_live_def)
    ultimately have "hash_inv t'"
      using f(1,2,3,6) True by (simp add: hash_inv_def t')
    moreover have "entries (hkeys t') (hvals t') = insert (rid, v) (entries (hkeys t) (hvals t))"
      unfolding t' by (rule entries_store [OF f(3) j(2) True idz])
    moreover have "(rid, w) \<notin> entries (hkeys t) (hvals t)" for w
      using probe_entries [OF f(1,4,3) j(1) idz rid] True idz by auto
    ultimately show ?thesis using f(8) rid by auto
  next
    case False
    then have jid: "hkeys t ! j = rid" using st by simp
    then have same: "hkeys t' = hkeys t" by (simp add: t' list_update_same_conv j(2))
    have "hash_inv t'"
      unfolding hash_inv_def same using f False rid j(2) by (auto simp: t' nth_list_update jid h_live_def)
    moreover have "(k, w) \<in> entries (hkeys t) ((hvals t)[j := v]) \<longleftrightarrow>
        (if k = rid then w = v else (k, w) \<in> entries (hkeys t) (hvals t))" if "h_live k" for k w
    proof (cases "k = rid")
      case True
      show ?thesis
        using probe_entries [OF f(1,4) _ j(1) idz rid, of "(hvals t)[j := v]" w] f(3) j jid True by auto
    next
      case F: False
      have nj: "(hvals t)[j := v] ! i = hvals t ! i" if "hkeys t ! i = k" for i
        using F jid that by (metis nth_list_update_neq)
      have "length ((hvals t)[j := v]) = length (hkeys t)" using f(3) by simp
      then show ?thesis using F nj by (auto simp: entries_iff f(3))
    qed
    ultimately show ?thesis using f(8) by (simp add: same t'(2))
  qed
qed

lemma hput_inv: "hash_inv t \<Longrightarrow> h_live rid \<Longrightarrow> hput mem t rid v = Some t' \<Longrightarrow> hash_inv t'"
  using hput_inv_entries by blast

lemma hget_hput:
  assumes "hash_inv t" and "h_live rid" and "h_live k" and "hput mem t rid v = Some t'"
  shows "hget t' k = (if k = rid then v else hget t k)"
proof -
  have inv': "hash_inv t'" and en: "\<And>w. (k, w) \<in> entries (hkeys t') (hvals t') \<longleftrightarrow>
        (if k = rid then w = v else (k, w) \<in> entries (hkeys t) (hvals t))"
    using hput_inv_entries [OF assms(1,2,4)] assms(3) by auto
  show ?thesis
  proof (cases "k = rid")
    case True
    then show ?thesis using hget_entries(1) [OF inv' assms(3)] en by simp
  next
    case False
    show ?thesis
    proof (cases "\<exists>w. (k, w) \<in> entries (hkeys t) (hvals t)")
      case True
      then obtain w where w: "(k, w) \<in> entries (hkeys t) (hvals t)" by blast
      then have "hget t k = w" by (rule hget_entries(1) [OF assms(1,3)])
      moreover have "hget t' k = w" using w en False by (intro hget_entries(1) [OF inv' assms(3)]) simp
      ultimately show ?thesis using False by simp
    next
      case none: False
      have "hget t k = 0" using none by (intro hget_entries(2) [OF assms(1,3)]) blast
      moreover have "hget t' k = 0" using none en False by (intro hget_entries(2) [OF inv' assms(3)]) auto
      ultimately show ?thesis using False by simp
    qed
  qed
qed

text \<open>With memory a put always succeeds: the probe ends and the array never fills.\<close>

lemma hput_ok:
  assumes inv: "hash_inv t" and rid: "h_live rid" and mem: "mem AHash"
  shows "\<exists>t'. hput mem t rid v = Some t'"
proof -
  obtain t1 where t1: "(if length (hkeys t) * 7 \<le> hlen t * 10 then hgrow mem t else Some t) = Some t1"
    and p2: "pow2 (length (hkeys t1))" and u: "used (hkeys t1) < length (hkeys t1)"
  proof (cases "length (hkeys t) * 7 \<le> hlen t * 10")
    case True
    obtain t1 where g: "hgrow mem t = Some t1" "pow2 (length (hkeys t1))"
      "length (hkeys t1) = (if hkeys t = [] then 64 else length (hkeys t) * 2)"
      "used (hkeys t1) \<le> hlen t"
      using hgrow_ok [where mem = mem, OF inv mem] by blast
    have "hlen t < length (hkeys t1)"
      using inv by (cases rule: hash_inv_cases) (auto simp: g(3))
    then show thesis using that [of t1] True g by simp
  next
    case False
    then show thesis using that [of t] inv by (auto simp: hash_inv_def)
  qed
  obtain j where "probe (hkeys t1) (hmix rid) rid = Some j"
    using probe_ends [OF p2] u unfolding used_less by blast
  with t1 show ?thesis by (simp add: hput_def)
qed

lemma hdel_inv_entries:
  assumes inv: "hash_inv t" and rid: "h_live rid"
  shows "hash_inv (hdel t rid) \<and>
     (\<forall>k w. h_live k \<longrightarrow> ((k, w) \<in> entries (hkeys (hdel t rid)) (hvals (hdel t rid)) \<longleftrightarrow>
        k \<noteq> rid \<and> (k, w) \<in> entries (hkeys t) (hvals t)))"
  using inv
proof (cases rule: hash_inv_cases)
  case empty
  then show ?thesis using inv by (simp add: hdel_def entries_def)
next
  case full
  note idz = h_live_key [OF rid]
  obtain j where j: "probe (hkeys t) (hmix rid) rid = Some j" "j < length (hkeys t)"
    using probe_ends [OF full(2,8)] by blast
  note pe = probe_entries [OF full(2,5,4) j(1) idz rid]
  show ?thesis
  proof (cases "hkeys t ! j = 0")
    case True
    then have "hdel t rid = t" using j full by (simp add: hdel_def)
    then show ?thesis using pe True idz inv by auto
  next
    case False
    then have jid: "hkeys t ! j = rid" using probe_stop [OF full(2) j(1)] by simp
    have d: "hkeys (hdel t rid) = (hkeys t)[j := H_DELETED]" "hvals (hdel t rid) = (hvals t)[j := 0]"
      "hlen (hdel t rid) = hlen t"
      using False j full by (simp_all add: hdel_def)
    have dz: "H_DELETED \<noteq> 0" by (simp add: H_DELETED_def)
    have "placed hmix h_live ((hkeys t)[j := H_DELETED])"
      by (rule placed_mark [OF full(2,5) j(2) dz]) (simp add: h_live_def)
    moreover have "used ((hkeys t)[j := H_DELETED]) = used (hkeys t)"
      using used_update [OF j(2), of H_DELETED] False dz by simp
    ultimately have "hash_inv (hdel t rid)"
      using full j(2) by (auto simp: hash_inv_def d nth_list_update)
    moreover have "(k, w) \<in> entries (hkeys (hdel t rid)) (hvals (hdel t rid)) \<longleftrightarrow>
        k \<noteq> rid \<and> (k, w) \<in> entries (hkeys t) (hvals t)" if k: "h_live k" for k w
    proof (cases "k = rid")
      case True
      have "i = j" if "i < length (hkeys t)" "hkeys t ! i = rid" for i
        using probe_finds [OF full(2,5) that idz rid] j by simp
      then show ?thesis using True full(4) rid j
        by (auto simp: entries_iff d nth_list_update h_live_def)
    next
      case False
      then show ?thesis using full(4) jid k j
        by (auto simp: entries_iff d nth_list_update h_live_def)
    qed
    ultimately show ?thesis by blast
  qed
qed

lemma hdel_inv: "hash_inv t \<Longrightarrow> h_live rid \<Longrightarrow> hash_inv (hdel t rid)"
  using hdel_inv_entries by blast

lemma hget_hdel:
  assumes "hash_inv t" and "h_live rid" and "h_live k"
  shows "hget (hdel t rid) k = (if k = rid then 0 else hget t k)"
proof -
  have inv': "hash_inv (hdel t rid)" and en: "\<And>w. (k, w) \<in> entries (hkeys (hdel t rid)) (hvals (hdel t rid)) \<longleftrightarrow>
        k \<noteq> rid \<and> (k, w) \<in> entries (hkeys t) (hvals t)"
    using hdel_inv_entries [OF assms(1,2)] assms(3) by auto
  show ?thesis
  proof (cases "\<exists>w. k \<noteq> rid \<and> (k, w) \<in> entries (hkeys t) (hvals t)")
    case True
    then obtain w where w: "k \<noteq> rid" "(k, w) \<in> entries (hkeys t) (hvals t)" by blast
    then have "hget t k = w" by (intro hget_entries(1) [OF assms(1,3)])
    moreover have "hget (hdel t rid) k = w" using w en by (intro hget_entries(1) [OF inv' assms(3)]) simp
    ultimately show ?thesis using w by simp
  next
    case none: False
    have "hget (hdel t rid) k = 0" using none en by (intro hget_entries(2) [OF inv' assms(3)]) auto
    moreover have "k \<noteq> rid \<Longrightarrow> hget t k = 0" using none by (intro hget_entries(2) [OF assms(1,3)]) auto
    ultimately show ?thesis by simp
  qed
qed

text \<open>\<open>hset\<close> never changes the keys, so a walk over them stays valid.\<close>

lemma hset_hput:
  assumes inv: "hash_inv t" and rid: "h_live rid" and s: "hset t rid v = Some t'"
  shows "hkeys t' = hkeys t" and "hash_inv t'" and "h_live k \<Longrightarrow> hget t' k = (if k = rid then v else hget t k)"
proof -
  from s obtain j where ne: "hkeys t \<noteq> []" and j: "probe (hkeys t) (hmix rid) rid = Some j"
    and jz: "hkeys t ! j \<noteq> 0" and t': "t' = t\<lparr>hvals := (hvals t)[j := v]\<rparr>"
    by (auto simp: hset_def split: if_splits option.splits)
  show same: "hkeys t' = hkeys t" by (simp add: t')
  from inv ne have f: "pow2 (length (hkeys t))" "placed hmix h_live (hkeys t)"
    "length (hvals t) = length (hkeys t)" "0 \<in> set (hkeys t)"
    by (auto elim: hash_inv_cases)
  have jid: "hkeys t ! j = rid" using probe_stop [OF f(1) j] jz by simp
  have jl: "j < length (hkeys t)" by (rule probe_less [OF f(1) j])
  show inv': "hash_inv t'"
    using inv ne rid jid jl f(3) by (auto simp: hash_inv_def t' nth_list_update h_live_def)
  assume k: "h_live k"
  show "hget t' k = (if k = rid then v else hget t k)"
  proof (cases "k = rid")
    case True
    then show ?thesis using ne j jz jl f(3) by (simp add: hget_def t')
  next
    case False
    obtain i where i: "probe (hkeys t) (hmix k) k = Some i"
      using probe_ends [OF f(1,4)] by blast
    have "hkeys t ! i = 0 \<or> i \<noteq> j" using probe_stop [OF f(1) i] jid False by auto
    then show ?thesis using ne i False by (auto simp: hget_def t')
  qed
qed

text \<open>The value 0 says "absent", so as a map the hash takes values other than 0.\<close>

definition hlookup :: "id_hash \<Rightarrow> u64 \<Rightarrow> u64 option" where
  "hlookup t rid = (if hget t rid = 0 then None else Some (hget t rid))"

interpretation ih: kv_store hlookup "hput mem" hash_inv h_live "\<lambda>v. v \<noteq> 0" for mem
  by unfold_locales (auto simp: hlookup_def hget_hput dest: hput_inv)

end
