(* ===== verification/Containers.thy ===== *)
theory Containers
  imports WobFormat
begin

text \<open>
  The native containers of the virtual machine (\<open>runtime/src/cont.c\<close>, \<open>cont.h\<close>): \<open>multi\<close>, an array
  that doubles its capacity, and \<open>map\<close>, two parallel arrays searched linearly. Shown: what a
  \<open>map\<close> returns after an insert, that inserting keeps the keys distinct, and that pushing
  appends.
\<close>

section \<open>Values of the virtual machine\<close>

text \<open>
  A register or field word is either a plain word (Int, Bool, Float bits, an id) or a pointer:
  null, a string object, a class instance with its fields, a \<open>multi\<close> or a \<open>map\<close> (parallel key
  and value arrays).
\<close>

datatype vmval =
    VWord u64
  | VNull
  | VStr bytes
  | VBytes bytes
  | VObj nat "vmval list"
  | VMulti kind "vmval list"
  | VMap kind kind "vmval list" "vmval list"

section \<open>\<open>multi\<close>\<close>

record wo_multi =
  elem_kind :: kind
  items :: "vmval list"
  mcap :: nat

definition wo_multi_new :: "mem \<Rightarrow> kind \<Rightarrow> wo_multi option" where
  "wo_multi_new mem k =
     (if mem AVmMulti then Some \<lparr>elem_kind = k, items = [], mcap = 0\<rparr> else None)"

definition wo_multi_push :: "mem \<Rightarrow> wo_multi \<Rightarrow> vmval \<Rightarrow> wo_multi option" where
  "wo_multi_push mem m v =
     (if length (items m) = mcap m then
        (if mem AVmPush
         then Some (m\<lparr>items := items m @ [v], mcap := (if mcap m \<noteq> 0 then mcap m * 2 else 8)\<rparr>)
         else None)
      else Some (m\<lparr>items := items m @ [v]\<rparr>))"

definition wo_multi_get :: "wo_multi \<Rightarrow> u64 \<Rightarrow> vmval option" where
  "wo_multi_get m idx = (if length (items m) \<le> unat idx then None else Some (items m ! unat idx))"

text \<open>The length never passes the capacity, so the store of a push is inside the array.\<close>

definition multi_inv :: "wo_multi \<Rightarrow> bool" where
  "multi_inv m \<longleftrightarrow> length (items m) \<le> mcap m"

lemma wo_multi_push_inv: "multi_inv m \<Longrightarrow> wo_multi_push mem m v = Some m' \<Longrightarrow> multi_inv m'"
  by (auto simp: wo_multi_push_def multi_inv_def split: if_splits)

lemma wo_multi_push_items:
  "wo_multi_push mem m v = Some m' \<Longrightarrow> items m' = items m @ [v] \<and> elem_kind m' = elem_kind m"
  by (auto simp: wo_multi_push_def split: if_splits)

lemma wo_multi_push_ok: "mem AVmPush \<Longrightarrow> \<exists>m'. wo_multi_push mem m v = Some m'"
  by (simp add: wo_multi_push_def)

section \<open>\<open>map\<close>\<close>

record wo_map =
  key_kind :: kind
  val_kind :: kind
  keys :: "vmval list"
  vals :: "vmval list"
  pcap :: nat

definition wo_map_new :: "mem \<Rightarrow> kind \<Rightarrow> kind \<Rightarrow> wo_map option" where
  "wo_map_new mem kk vk =
     (if mem AVmMap
      then Some \<lparr>key_kind = kk, val_kind = vk, keys = [], vals = [], pcap = 0\<rparr> else None)"

fun str_bytes :: "vmval \<Rightarrow> bytes option" where
  "str_bytes (VStr bs) = Some bs"
| "str_bytes (VBytes bs) = Some bs"
| "str_bytes _ = None"

text \<open>
  Text keys compare by content (\<open>wo_str_eq\<close>; a nil text key would be read through a null pointer,
  the model says unequal), all others by the word: equal numbers, both null. Two objects of a
  value tree are two allocations, so their pointers differ.
\<close>

definition key_norm :: "kind \<Rightarrow> vmval \<Rightarrow> (bytes + u64) option" where
  "key_norm kk v =
     (if kk = KText then map_option Inl (str_bytes v)
      else (case v of VWord w \<Rightarrow> Some (Inr w) | VNull \<Rightarrow> Some (Inr 0) | _ \<Rightarrow> None))"

definition key_eq :: "kind \<Rightarrow> vmval \<Rightarrow> vmval \<Rightarrow> bool" where
  "key_eq kk a b = (key_norm kk a \<noteq> None \<and> key_norm kk a = key_norm kk b)"

fun find_from :: "kind \<Rightarrow> vmval list \<Rightarrow> vmval \<Rightarrow> nat \<Rightarrow> nat option" where
  "find_from kk [] k i = None"
| "find_from kk (x # xs) k i = (if key_eq kk x k then Some i else find_from kk xs k (Suc i))"

definition map_find :: "wo_map \<Rightarrow> vmval \<Rightarrow> nat option" where
  "map_find m k = find_from (key_kind m) (keys m) k 0"

text \<open>The second component is the displaced value: \<open>Some old\<close> is the result code 1.\<close>

definition wo_map_set :: "mem \<Rightarrow> wo_map \<Rightarrow> vmval \<Rightarrow> vmval \<Rightarrow> (wo_map \<times> vmval option) option" where
  "wo_map_set mem m k v =
     (case map_find m k of
        Some i \<Rightarrow> Some (m\<lparr>vals := (vals m)[i := v]\<rparr>, Some (vals m ! i))
      | None \<Rightarrow>
         (if length (keys m) = pcap m \<and> \<not> (mem AVmMapKeys \<and> mem AVmMapVals) then None
          else Some (m\<lparr>keys := keys m @ [k], vals := vals m @ [v],
                       pcap := (if length (keys m) = pcap m
                                then (if pcap m \<noteq> 0 then pcap m * 2 else 8) else pcap m)\<rparr>, None)))"

definition wo_map_get :: "wo_map \<Rightarrow> vmval \<Rightarrow> vmval option" where
  "wo_map_get m k = (case map_find m k of None \<Rightarrow> None | Some i \<Rightarrow> Some (vals m ! i))"

definition wo_map_has :: "wo_map \<Rightarrow> vmval \<Rightarrow> bool" where
  "wo_map_has m k = (map_find m k \<noteq> None)"

section \<open>Lookup after insert\<close>

lemma key_eq_sym: "key_eq kk a b = key_eq kk b a"
  unfolding key_eq_def by metis

lemma key_eq_trans: "key_eq kk a b \<Longrightarrow> key_eq kk b c \<Longrightarrow> key_eq kk a c"
  unfolding key_eq_def by metis

lemma find_from_Some:
  "find_from kk xs k i = Some j \<Longrightarrow>
     i \<le> j \<and> j - i < length xs \<and> key_eq kk (xs ! (j - i)) k"
proof (induction xs arbitrary: i)
  case (Cons x xs)
  show ?case
  proof (cases "key_eq kk x k")
    case True with Cons.prems show ?thesis by simp
  next
    case False
    then have "find_from kk xs k (Suc i) = Some j" using Cons.prems by simp
    from Cons.IH [OF this] show ?thesis by (auto simp: nth_Cons' Suc_diff_Suc)
  qed
qed simp

lemma find_from_None: "find_from kk xs k i = None \<longleftrightarrow> (\<forall>x\<in>set xs. \<not> key_eq kk x k)"
  by (induction xs arbitrary: i) auto

lemma find_from_append:
  "find_from kk (xs @ ys) k i =
     (case find_from kk xs k i of Some j \<Rightarrow> Some j | None \<Rightarrow> find_from kk ys k (i + length xs))"
  by (induction xs arbitrary: i) (auto split: option.split)

lemma find_from_cong:
  "(\<And>x. key_eq kk x k = key_eq kk x k') \<Longrightarrow> find_from kk xs k i = find_from kk xs k' i"
  by (induction xs arbitrary: i) auto

definition map_inv :: "wo_map \<Rightarrow> bool" where
  "map_inv m \<longleftrightarrow> length (vals m) = length (keys m) \<and> length (keys m) \<le> pcap m \<and>
     (\<forall>i j. i < j \<longrightarrow> j < length (keys m) \<longrightarrow> \<not> key_eq (key_kind m) (keys m ! i) (keys m ! j))"

lemma map_find_Some: "map_find m k = Some i \<Longrightarrow> i < length (keys m) \<and> key_eq (key_kind m) (keys m ! i) k"
  unfolding map_find_def by (drule find_from_Some) simp

lemma map_find_None: "map_find m k = None \<longleftrightarrow> (\<forall>x\<in>set (keys m). \<not> key_eq (key_kind m) x k)"
  unfolding map_find_def by (rule find_from_None)

lemma wo_map_set_inv:
  assumes inv: "map_inv m" and set: "wo_map_set mem m k v = Some (m', old)"
  shows "map_inv m'"
proof (cases "map_find m k")
  case None
  then have new: "\<forall>x\<in>set (keys m). \<not> key_eq (key_kind m) x k" by (simp add: map_find_None)
  have m': "keys m' = keys m @ [k]" "vals m' = vals m @ [v]" "key_kind m' = key_kind m"
    and cap: "length (keys m) < pcap m'"
    using set inv None by (auto simp: wo_map_set_def map_inv_def split: if_splits)
  show ?thesis
    using inv new cap unfolding map_inv_def m'
    by (auto simp: nth_append less_Suc_eq all_set_conv_all_nth)
next
  case (Some i)
  then show ?thesis using set inv by (auto simp: wo_map_set_def map_inv_def)
qed

lemma wo_map_get_set:
  assumes inv: "map_inv m" and set: "wo_map_set mem m k v = Some (m', old)"
    and refl: "key_eq (key_kind m) k k"
  shows "wo_map_get m' k' = (if key_eq (key_kind m) k k' then Some v else wo_map_get m k')"
proof (cases "map_find m k")
  case None
  then have new: "\<forall>x\<in>set (keys m). \<not> key_eq (key_kind m) x k" by (simp add: map_find_None)
  have m': "keys m' = keys m @ [k]" "vals m' = vals m @ [v]" "key_kind m' = key_kind m"
    using set None by (auto simp: wo_map_set_def split: if_splits)
  have len: "length (vals m) = length (keys m)" using inv by (simp add: map_inv_def)
  show ?thesis
  proof (cases "key_eq (key_kind m) k k'")
    case True
    have "find_from (key_kind m) (keys m) k' 0 = None"
      using new True by (metis find_from_None key_eq_sym key_eq_trans)
    then show ?thesis using True len
      by (simp add: wo_map_get_def map_find_def m' find_from_append nth_append)
  next
    case False
    then show ?thesis using len
      by (auto simp: wo_map_get_def map_find_def m' find_from_append nth_append
          dest: find_from_Some split: option.splits)
  qed
next
  case (Some i)
  have m': "keys m' = keys m" "vals m' = (vals m)[i := v]" "key_kind m' = key_kind m"
    using set Some by (auto simp: wo_map_set_def)
  have i: "i < length (keys m)" "key_eq (key_kind m) (keys m ! i) k"
    using map_find_Some [OF Some] by auto
  have len: "length (vals m) = length (keys m)" using inv by (simp add: map_inv_def)
  have find': "map_find m' x = map_find m x" for x by (simp add: map_find_def m')
  show ?thesis
  proof (cases "key_eq (key_kind m) k k'")
    case True
    have "find_from (key_kind m) (keys m) k' 0 = find_from (key_kind m) (keys m) k 0"
      using True by (intro find_from_cong) (metis key_eq_sym key_eq_trans)
    then have "map_find m k' = Some i" using Some by (simp add: map_find_def)
    with True i len show ?thesis by (simp add: wo_map_get_def find' m')
  next
    case False
    have "map_find m k' \<noteq> Some i"
      using False i by (metis map_find_Some key_eq_sym key_eq_trans)
    with False show ?thesis by (auto simp: wo_map_get_def find' m' split: option.splits)
  qed
qed

end
