(* ===== verification/Values.thy ===== *)
theory Values
  imports Containers
begin

text \<open>
  The two worlds of values and the gates between them (\<open>database/src/table.c\<close>,
  \<open>table.h\<close>). A value of the virtual machine is a tree of heap objects (\<open>vmval\<close>); a row slot
  holds an engine-owned value (\<open>dbval\<close>). \<open>db_val_encode\<close> copies in, \<open>db_val_decode\<close> copies out,
  \<open>wo_db_val_clone\<close> copies within the engine. Shown: what was encoded decodes to the same value,
  a clone is equal to its source, and the encoder refuses exactly what the class table does not
  allow.
\<close>

section \<open>Values of the engine\<close>

text \<open>
  A row slot: the word itself, a nil pointer, or a pointer to one of the engine's own shapes. The
  pairs of a \<open>db_map\<close> lie flat, \<open>k0 v0 k1 v1 \<dots>\<close>, as in its array \<open>kv\<close>.
\<close>

datatype dbval =
    DWord u64
  | DNil
  | DText bytes
  | DRec nat "dbval list"
  | DMulti kind "dbval list"
  | DMap kind kind "dbval list"

text \<open>Why an encode or decode fails: no memory, a kind a table cannot hold, or a value whose
  shape is not that of its kind (the C code would misread a pointer there).\<close>

datatype val_err = VE_oom | VE_badkind | VE_shape

fun alternate :: "nat \<Rightarrow> kind \<Rightarrow> kind \<Rightarrow> kind list" where
  "alternate 0 kk vk = []"
| "alternate (Suc n) kk vk = kk # vk # alternate n kk vk"

lemma length_alternate [simp]: "length (alternate n kk vk) = 2 * n"
  by (induction n) auto

lemma set_alternate: "set (alternate n kk vk) \<subseteq> {kk, vk}"
  by (induction n) auto

section \<open>Well-formed slots\<close>

text \<open>
  A slot holds what its kind says, within the widths of its length fields. The nil text is spelled
  by the length \<open>0xFFFFFFFF\<close> on disk, so a text is shorter than that.
\<close>

fun val_ok :: "classes \<Rightarrow> kind \<Rightarrow> dbval \<Rightarrow> bool"
and vals_ok :: "classes \<Rightarrow> kind list \<Rightarrow> dbval list \<Rightarrow> bool" where
  "val_ok cs k (DWord w) = (k = KScalar \<or> k = KFloat)"
| "val_ok cs k DNil = (k \<in> {KText, KBytes, KOwned, KMulti, KMap})"
| "val_ok cs k (DText bs) = ((k = KText \<or> k = KBytes) \<and> length bs < 0xFFFFFFFF)"
| "val_ok cs k (DRec cid vs) =
     (k = KOwned \<and> cid < length cs \<and> cid < 2 ^ 32 \<and> vals_ok cs (kinds (cs ! cid)) vs)"
| "val_ok cs k (DMulti ek vs) =
     (k = KMulti \<and> length vs < 2 ^ 32 \<and> vals_ok cs (replicate (length vs) ek) vs)"
| "val_ok cs k (DMap kk vk kvs) =
     (k = KMap \<and> even (length kvs) \<and> length kvs div 2 < 2 ^ 32 \<and>
      vals_ok cs (alternate (length kvs div 2) kk vk) kvs)"
| "vals_ok cs (k # ks) (v # vs) = (val_ok cs k v \<and> vals_ok cs ks vs)"
| "vals_ok cs [] [] = True"
| "vals_ok cs _ _ = False"

lemma vals_ok_list_all2: "vals_ok cs ks vs = list_all2 (val_ok cs) ks vs"
  by (induction ks arbitrary: vs; case_tac vs) auto

lemma vals_ok_length: "vals_ok cs ks vs \<Longrightarrow> length vs = length ks"
  by (simp add: vals_ok_list_all2 list_all2_lengthD)

lemma vals_ok_nth: "vals_ok cs ks vs \<Longrightarrow> i < length ks \<Longrightarrow> val_ok cs (ks ! i) (vs ! i)"
  by (simp add: vals_ok_list_all2 list_all2_nthD)

lemma vals_ok_update:
  "vals_ok cs ks vs \<Longrightarrow> val_ok cs (ks ! i) v \<Longrightarrow> vals_ok cs ks (vs[i := v])"
  unfolding vals_ok_list_all2
  by (metis list_all2_update_cong list_update_id)

lemma not_val_ok_gcref [simp]: "\<not> val_ok cs KGcref v"
  by (cases v) auto

text \<open>The value of a zeroed slot (\<open>memset\<close> or \<open>calloc\<close>), which is also the value a migration
  gives an added field.\<close>

fun zero_slot :: "kind \<Rightarrow> dbval" where
  "zero_slot KScalar = DWord 0"
| "zero_slot KFloat = DWord 0"
| "zero_slot _ = DNil"

lemma zero_slot_ok: "k \<noteq> KGcref \<Longrightarrow> val_ok cs k (zero_slot k)"
  by (cases k) auto

section \<open>The in-gate\<close>

function (sequential) db_val_encode :: "mem \<Rightarrow> classes \<Rightarrow> kind \<Rightarrow> vmval \<Rightarrow> val_err + dbval"
and encode_all :: "mem \<Rightarrow> classes \<Rightarrow> kind list \<Rightarrow> vmval list \<Rightarrow> val_err + dbval list"
and encode_pairs ::
  "mem \<Rightarrow> classes \<Rightarrow> kind \<Rightarrow> kind \<Rightarrow> vmval list \<Rightarrow> vmval list \<Rightarrow> val_err + dbval list" where
  "db_val_encode mem cs k (VWord w) =
     (case k of KScalar \<Rightarrow> Inr (DWord w) | KFloat \<Rightarrow> Inr (DWord w)
      | KGcref \<Rightarrow> Inl VE_badkind | _ \<Rightarrow> Inl VE_shape)"
| "db_val_encode mem cs k VNull =
     (case k of KScalar \<Rightarrow> Inl VE_shape | KFloat \<Rightarrow> Inl VE_shape
      | KGcref \<Rightarrow> Inl VE_badkind | _ \<Rightarrow> Inr DNil)"
| "db_val_encode mem cs k (VStr bs) =
     (case k of KText \<Rightarrow> (if mem AEncText then Inr (DText bs) else Inl VE_oom)
      | KBytes \<Rightarrow> (if mem AEncText then Inr (DText bs) else Inl VE_oom)
      | KGcref \<Rightarrow> Inl VE_badkind | _ \<Rightarrow> Inl VE_shape)"
| "db_val_encode mem cs k (VBytes bs) =
     (case k of KText \<Rightarrow> (if mem AEncText then Inr (DText bs) else Inl VE_oom)
      | KBytes \<Rightarrow> (if mem AEncText then Inr (DText bs) else Inl VE_oom)
      | KGcref \<Rightarrow> Inl VE_badkind | _ \<Rightarrow> Inl VE_shape)"
| "db_val_encode mem cs k (VObj cid fs) =
     (case k of
        KOwned \<Rightarrow>
          (if \<not> mem AEncRec then Inl VE_oom
           else if length cs \<le> cid then Inl VE_shape
           else map_sum id (DRec cid) (encode_all mem cs (kinds (cs ! cid)) fs))
      | KGcref \<Rightarrow> Inl VE_badkind | _ \<Rightarrow> Inl VE_shape)"
| "db_val_encode mem cs k (VMulti ek xs) =
     (case k of
        KMulti \<Rightarrow>
          (if \<not> mem AEncMulti then Inl VE_oom
           else map_sum id (DMulti ek) (encode_all mem cs (replicate (length xs) ek) xs))
      | KGcref \<Rightarrow> Inl VE_badkind | _ \<Rightarrow> Inl VE_shape)"
| "db_val_encode mem cs k (VMap kk vk xs ys) =
     (case k of
        KMap \<Rightarrow>
          (if \<not> mem AEncMap then Inl VE_oom
           else map_sum id (DMap kk vk) (encode_pairs mem cs kk vk xs ys))
      | KGcref \<Rightarrow> Inl VE_badkind | _ \<Rightarrow> Inl VE_shape)"
| "encode_all mem cs (k # ks) (v # vs) =
     (case db_val_encode mem cs k v of
        Inl e \<Rightarrow> Inl e
      | Inr d \<Rightarrow> (case encode_all mem cs ks vs of Inl e \<Rightarrow> Inl e | Inr ds \<Rightarrow> Inr (d # ds)))"
| "encode_all mem cs [] [] = Inr []"
| "encode_all mem cs (k # ks) [] = Inl VE_shape"
| "encode_all mem cs [] (v # vs) = Inl VE_shape"
| "encode_pairs mem cs kk vk (k # xs) (v # ys) =
     (case db_val_encode mem cs kk k of
        Inl e \<Rightarrow> Inl e
      | Inr dk \<Rightarrow>
         (case db_val_encode mem cs vk v of
            Inl e \<Rightarrow> Inl e
          | Inr dv \<Rightarrow>
             (case encode_pairs mem cs kk vk xs ys of
                Inl e \<Rightarrow> Inl e
              | Inr kvs \<Rightarrow> Inr (dk # dv # kvs))))"
| "encode_pairs mem cs kk vk [] [] = Inr []"
| "encode_pairs mem cs kk vk (k # xs) [] = Inl VE_shape"
| "encode_pairs mem cs kk vk [] (v # ys) = Inl VE_shape"
  by pat_completeness auto

termination
  by (relation "measure (\<lambda>x. case x of
        Inl (_, _, _, v) \<Rightarrow> size v
      | Inr (Inl (_, _, _, vs)) \<Rightarrow> size_list size vs
      | Inr (Inr (_, _, _, _, ks, vs)) \<Rightarrow> size_list size ks + size_list size vs)") auto

section \<open>The out-gate\<close>

text \<open>\<open>decode_items\<close> and \<open>decode_map\<close> are the two loops that fill a fresh container.\<close>

function (sequential) db_val_decode :: "mem \<Rightarrow> classes \<Rightarrow> kind \<Rightarrow> dbval \<Rightarrow> val_err + vmval"
and decode_all :: "mem \<Rightarrow> classes \<Rightarrow> kind list \<Rightarrow> dbval list \<Rightarrow> val_err + vmval list"
and decode_items :: "mem \<Rightarrow> classes \<Rightarrow> wo_multi \<Rightarrow> dbval list \<Rightarrow> val_err + wo_multi"
and decode_map :: "mem \<Rightarrow> classes \<Rightarrow> wo_map \<Rightarrow> dbval list \<Rightarrow> val_err + wo_map" where
  "db_val_decode mem cs KScalar v = (case v of DWord w \<Rightarrow> Inr (VWord w) | _ \<Rightarrow> Inl VE_shape)"
| "db_val_decode mem cs KFloat v = (case v of DWord w \<Rightarrow> Inr (VWord w) | _ \<Rightarrow> Inl VE_shape)"
| "db_val_decode mem cs KGcref v = Inr VNull"
| "db_val_decode mem cs k DNil = Inr VNull"
| "db_val_decode mem cs KText (DText bs) = (if mem AVmStr then Inr (VStr bs) else Inl VE_oom)"
| "db_val_decode mem cs KBytes (DText bs) = (if mem AVmStr then Inr (VBytes bs) else Inl VE_oom)"
| "db_val_decode mem cs KOwned (DRec cid vs) =
     (if \<not> mem AVmObj then Inl VE_oom
      else if length cs \<le> cid then Inl VE_shape
      else map_sum id (VObj cid) (decode_all mem cs (kinds (cs ! cid)) vs))"
| "db_val_decode mem cs KMulti (DMulti ek vs) =
     (case wo_multi_new mem ek of
        None \<Rightarrow> Inl VE_oom
      | Some m \<Rightarrow> map_sum id (\<lambda>m. VMulti (elem_kind m) (items m)) (decode_items mem cs m vs))"
| "db_val_decode mem cs KMap (DMap kk vk kvs) =
     (case wo_map_new mem kk vk of
        None \<Rightarrow> Inl VE_oom
      | Some m \<Rightarrow>
          map_sum id (\<lambda>m. VMap (key_kind m) (val_kind m) (keys m) (vals m))
            (decode_map mem cs m kvs))"
| "db_val_decode mem cs k v = Inl VE_shape"
| "decode_all mem cs (k # ks) (v # vs) =
     (case db_val_decode mem cs k v of
        Inl e \<Rightarrow> Inl e
      | Inr x \<Rightarrow> (case decode_all mem cs ks vs of Inl e \<Rightarrow> Inl e | Inr xs \<Rightarrow> Inr (x # xs)))"
| "decode_all mem cs [] [] = Inr []"
| "decode_all mem cs ks vs = Inl VE_shape"
| "decode_items mem cs m [] = Inr m"
| "decode_items mem cs m (v # vs) =
     (case db_val_decode mem cs (elem_kind m) v of
        Inl e \<Rightarrow> Inl e
      | Inr x \<Rightarrow>
         (case wo_multi_push mem m x of
            None \<Rightarrow> Inl VE_oom
          | Some m' \<Rightarrow> decode_items mem cs m' vs))"
| "decode_map mem cs m [] = Inr m"
| "decode_map mem cs m [v] = Inl VE_shape"
| "decode_map mem cs m (k # v # kvs) =
     (case db_val_decode mem cs (key_kind m) k of
        Inl e \<Rightarrow> Inl e
      | Inr x \<Rightarrow>
         (case db_val_decode mem cs (val_kind m) v of
            Inl e \<Rightarrow> Inl e
          | Inr y \<Rightarrow>
             (case wo_map_set mem m x y of
                None \<Rightarrow> Inl VE_oom
              | Some (m', old) \<Rightarrow> decode_map mem cs m' kvs)))"
  by pat_completeness auto

termination
  by (relation "measure (\<lambda>x. case x of
        Inl (Inl (_, _, _, v)) \<Rightarrow> size v
      | Inl (Inr (_, _, _, vs)) \<Rightarrow> size_list size vs
      | Inr (Inl (_, _, _, vs)) \<Rightarrow> size_list size vs
      | Inr (Inr (_, _, _, vs)) \<Rightarrow> size_list size vs)") auto

section \<open>Copying inside the engine\<close>

text \<open>The null word is tested before the kind, so it is returned whatever the kind says.\<close>

function (sequential) wo_db_val_clone :: "mem \<Rightarrow> classes \<Rightarrow> kind \<Rightarrow> dbval \<Rightarrow> val_err + dbval"
and clone_all :: "mem \<Rightarrow> classes \<Rightarrow> kind list \<Rightarrow> dbval list \<Rightarrow> val_err + dbval list" where
  "wo_db_val_clone mem cs k DNil = Inr DNil"
| "wo_db_val_clone mem cs KGcref v = Inr v"
| "wo_db_val_clone mem cs k (DWord w) =
     (if w = 0 \<or> k = KScalar \<or> k = KFloat then Inr (DWord w) else Inl VE_shape)"
| "wo_db_val_clone mem cs k (DText bs) =
     (if k = KText \<or> k = KBytes then (if mem ACloneText then Inr (DText bs) else Inl VE_oom)
      else Inl VE_shape)"
| "wo_db_val_clone mem cs k (DRec cid vs) =
     (if k \<noteq> KOwned \<or> length cs \<le> cid then Inl VE_shape
      else if \<not> mem ACloneRec then Inl VE_oom
      else map_sum id (DRec cid) (clone_all mem cs (kinds (cs ! cid)) vs))"
| "wo_db_val_clone mem cs k (DMulti ek vs) =
     (if k \<noteq> KMulti then Inl VE_shape
      else if \<not> mem ACloneMulti then Inl VE_oom
      else map_sum id (DMulti ek) (clone_all mem cs (replicate (length vs) ek) vs))"
| "wo_db_val_clone mem cs k (DMap kk vk kvs) =
     (if k \<noteq> KMap then Inl VE_shape
      else if \<not> mem ACloneMap then Inl VE_oom
      else map_sum id (DMap kk vk) (clone_all mem cs (alternate (length kvs div 2) kk vk) kvs))"
| "clone_all mem cs (k # ks) (v # vs) =
     (case wo_db_val_clone mem cs k v of
        Inl e \<Rightarrow> Inl e
      | Inr x \<Rightarrow> (case clone_all mem cs ks vs of Inl e \<Rightarrow> Inl e | Inr xs \<Rightarrow> Inr (x # xs)))"
| "clone_all mem cs [] [] = Inr []"
| "clone_all mem cs ks vs = Inl VE_shape"
  by pat_completeness auto

termination
  by (relation "measure (\<lambda>x. case x of
        Inl (_, _, _, v) \<Rightarrow> size v | Inr (_, _, _, vs) \<Rightarrow> size_list size vs)") auto

lemma clone_id_aux:
  "\<forall>d. wo_db_val_clone mem cs k v = Inr d \<longrightarrow> d = v"
  "\<forall>ds. clone_all mem cs ks vs = Inr ds \<longrightarrow> ds = vs"
  by (induction mem cs k v and mem cs ks vs rule: wo_db_val_clone_clone_all.induct)
    (auto split: if_splits sum.splits)

lemma clone_ok_aux:
  assumes "\<forall>s. mem s"
  shows "val_ok cs k v \<longrightarrow> wo_db_val_clone mem cs k v = Inr v"
    and "vals_ok cs ks vs \<longrightarrow> clone_all mem cs ks vs = Inr vs"
  using assms
  by (induction mem cs k v and mem cs ks vs rule: wo_db_val_clone_clone_all.induct) auto

section \<open>Values of a well-kinded register\<close>

text \<open>
  What the compiler's kinds promise about a register word: its shape is that of its kind, the
  lengths fit their 32-bit fields, and the keys of a map are pairwise different (the map builtins
  keep that, lemma \<open>wo_map_set_inv\<close>).
\<close>

fun distinct_keys :: "kind \<Rightarrow> vmval list \<Rightarrow> bool" where
  "distinct_keys kk [] = True"
| "distinct_keys kk (k # ks) = ((\<forall>x\<in>set ks. \<not> key_eq kk k x) \<and> distinct_keys kk ks)"

function (sequential) vm_ok :: "classes \<Rightarrow> kind \<Rightarrow> vmval \<Rightarrow> bool"
and vms_ok :: "classes \<Rightarrow> kind list \<Rightarrow> vmval list \<Rightarrow> bool"
and vm_pairs_ok :: "classes \<Rightarrow> kind \<Rightarrow> kind \<Rightarrow> vmval list \<Rightarrow> vmval list \<Rightarrow> bool" where
  "vm_ok cs k (VWord w) = (k = KScalar \<or> k = KFloat)"
| "vm_ok cs k VNull = (k \<in> {KText, KBytes, KOwned, KMulti, KMap})"
| "vm_ok cs k (VStr bs) = (k = KText \<and> length bs < 0xFFFFFFFF)"
| "vm_ok cs k (VBytes bs) = (k = KBytes \<and> length bs < 0xFFFFFFFF)"
| "vm_ok cs k (VObj cid fs) =
     (k = KOwned \<and> cid < length cs \<and> cid < 2 ^ 32 \<and> vms_ok cs (kinds (cs ! cid)) fs)"
| "vm_ok cs k (VMulti ek xs) =
     (k = KMulti \<and> length xs < 2 ^ 32 \<and> vms_ok cs (replicate (length xs) ek) xs)"
| "vm_ok cs k (VMap kk vk ks vs) =
     (k = KMap \<and> length ks < 2 ^ 32 \<and> distinct_keys kk ks \<and> vm_pairs_ok cs kk vk ks vs)"
| "vms_ok cs (k # ks) (v # vs) = (vm_ok cs k v \<and> vms_ok cs ks vs)"
| "vms_ok cs [] [] = True"
| "vms_ok cs ks vs = False"
| "vm_pairs_ok cs kk vk (k # ks) (v # vs) = (vm_ok cs kk k \<and> vm_ok cs vk v \<and> vm_pairs_ok cs kk vk ks vs)"
| "vm_pairs_ok cs kk vk [] [] = True"
| "vm_pairs_ok cs kk vk ks vs = False"
  by pat_completeness auto

termination
  by (relation "measure (\<lambda>x. case x of
        Inl (_, _, v) \<Rightarrow> size v
      | Inr (Inl (_, _, vs)) \<Rightarrow> size_list size vs
      | Inr (Inr (_, _, _, ks, vs)) \<Rightarrow> size_list size ks + size_list size vs)") auto

section \<open>Into the engine and out again\<close>

lemma vm_pairs_ok_length: "vm_pairs_ok cs kk vk ks vs \<Longrightarrow> length ks = length vs"
  by (induction ks arbitrary: vs; case_tac vs) auto

lemma decode_items_push:
  assumes "\<forall>s. mem s"
  shows "\<lbrakk>decode_all mem cs (replicate (length ds) ek) ds = Inr xs; elem_kind m = ek\<rbrakk> \<Longrightarrow>
     \<exists>m'. decode_items mem cs m ds = Inr m' \<and> items m' = items m @ xs \<and> elem_kind m' = ek"
proof (induction ds arbitrary: xs m)
  case (Cons d ds)
  obtain x xs' where d: "db_val_decode mem cs ek d = Inr x"
    and ds: "decode_all mem cs (replicate (length ds) ek) ds = Inr xs'" and xs: "xs = x # xs'"
    using Cons.prems(1) by (auto split: sum.splits)
  obtain m1 where m1: "wo_multi_push mem m x = Some m1"
    using assms wo_multi_push_ok by blast
  have m1': "items m1 = items m @ [x]" "elem_kind m1 = ek"
    using wo_multi_push_items [OF m1] Cons.prems(2) by auto
  from Cons.IH [OF ds m1'(2)] show ?case
    using d m1 m1' Cons.prems(2) xs by auto
qed simp

lemma wo_map_set_fresh:
  assumes "\<forall>s. mem s" and "\<forall>x\<in>set (keys m). \<not> key_eq (key_kind m) x k"
  shows "\<exists>m'. wo_map_set mem m k v = Some (m', None) \<and> keys m' = keys m @ [k] \<and>
      vals m' = vals m @ [v] \<and> key_kind m' = key_kind m \<and> val_kind m' = val_kind m"
proof -
  have "map_find m k = None" using assms(2) by (simp add: map_find_None)
  then show ?thesis using assms(1) by (auto simp: wo_map_set_def)
qed

lemma encode_decode_aux:
  assumes mem: "\<forall>s. mem s"
  shows "vm_ok cs k v \<longrightarrow>
      (\<exists>d. db_val_encode mem cs k v = Inr d \<and> val_ok cs k d \<and> db_val_decode mem cs k d = Inr v)"
    and "vms_ok cs ks vs \<longrightarrow>
      (\<exists>ds. encode_all mem cs ks vs = Inr ds \<and> vals_ok cs ks ds \<and> decode_all mem cs ks ds = Inr vs)"
    and "vm_pairs_ok cs kk vk xs ys \<longrightarrow>
      (\<exists>ds. encode_pairs mem cs kk vk xs ys = Inr ds \<and> length ds = 2 * length xs \<and>
         vals_ok cs (alternate (length xs) kk vk) ds \<and>
         (\<forall>m. key_kind m = kk \<longrightarrow> val_kind m = vk \<longrightarrow> distinct_keys kk xs \<longrightarrow>
            (\<forall>x\<in>set (keys m). \<forall>y\<in>set xs. \<not> key_eq kk x y) \<longrightarrow>
            (\<exists>m'. decode_map mem cs m ds = Inr m' \<and> keys m' = keys m @ xs \<and>
               vals m' = vals m @ ys \<and> key_kind m' = kk \<and> val_kind m' = vk)))"
proof (induction cs k v and cs ks vs and cs kk vk xs ys rule: vm_ok_vms_ok_vm_pairs_ok.induct)
  case (1 cs k w)
  then show ?case by (cases k) auto
next
  case (2 cs k)
  then show ?case by (cases k) auto
next
  case (3 cs k bs)
  then show ?case using mem by (cases k) auto
next
  case (4 cs k bs)
  then show ?case using mem by (cases k) auto
next
  case (5 cs k cid fs)
  then show ?case using mem by (cases k) auto
next
  case (6 cs k ek xs)
  show ?case
  proof
    assume ok: "vm_ok cs k (VMulti ek xs)"
    then obtain ds where e: "encode_all mem cs (replicate (length xs) ek) xs = Inr ds"
      and v: "vals_ok cs (replicate (length xs) ek) ds"
      and d: "decode_all mem cs (replicate (length xs) ek) ds = Inr xs"
      using 6 by auto
    have len: "length ds = length xs" using vals_ok_length [OF v] by simp
    obtain m' where "decode_items mem cs \<lparr>elem_kind = ek, items = [], mcap = 0\<rparr> ds = Inr m'"
      "items m' = xs" "elem_kind m' = ek"
      using decode_items_push [OF mem, of cs ds ek xs "\<lparr>elem_kind = ek, items = [], mcap = 0\<rparr>"] d len
      by auto
    then show "\<exists>d. db_val_encode mem cs k (VMulti ek xs) = Inr d \<and> val_ok cs k d \<and>
        db_val_decode mem cs k d = Inr (VMulti ek xs)"
      using ok e v len mem by (auto simp: wo_multi_new_def)
  qed
next
  case (7 cs k kk vk xs ys)
  show ?case
  proof
    assume ok: "vm_ok cs k (VMap kk vk xs ys)"
    let ?m = "\<lparr>key_kind = kk, val_kind = vk, keys = [], vals = [], pcap = 0\<rparr>"
    from ok have dk: "distinct_keys kk xs" by simp
    from ok 7 obtain ds where e: "encode_pairs mem cs kk vk xs ys = Inr ds"
      and len: "length ds = 2 * length xs" and v: "vals_ok cs (alternate (length xs) kk vk) ds"
      and d: "\<And>m. key_kind m = kk \<Longrightarrow> val_kind m = vk \<Longrightarrow> distinct_keys kk xs \<Longrightarrow>
            (\<forall>x\<in>set (keys m). \<forall>y\<in>set xs. \<not> key_eq kk x y) \<Longrightarrow>
            (\<exists>m'. decode_map mem cs m ds = Inr m' \<and> keys m' = keys m @ xs \<and>
               vals m' = vals m @ ys \<and> key_kind m' = kk \<and> val_kind m' = vk)"
      by auto
    obtain m' where "decode_map mem cs ?m ds = Inr m'" "keys m' = xs" "vals m' = ys"
      "key_kind m' = kk" "val_kind m' = vk"
      using d [of ?m] dk by auto
    then show "\<exists>d. db_val_encode mem cs k (VMap kk vk xs ys) = Inr d \<and> val_ok cs k d \<and>
        db_val_decode mem cs k d = Inr (VMap kk vk xs ys)"
      using ok e v len mem by (auto simp: wo_map_new_def)
  qed
next
  case (11 cs kk vk k ks v vs)
  show ?case
  proof
    assume "vm_pairs_ok cs kk vk (k # ks) (v # vs)"
    then obtain dk dv ds
      where k: "db_val_encode mem cs kk k = Inr dk" "val_ok cs kk dk" "db_val_decode mem cs kk dk = Inr k"
        and v: "db_val_encode mem cs vk v = Inr dv" "val_ok cs vk dv" "db_val_decode mem cs vk dv = Inr v"
        and e: "encode_pairs mem cs kk vk ks vs = Inr ds" "length ds = 2 * length ks"
          "vals_ok cs (alternate (length ks) kk vk) ds"
        and d: "\<And>m. key_kind m = kk \<Longrightarrow> val_kind m = vk \<Longrightarrow> distinct_keys kk ks \<Longrightarrow>
            (\<forall>x\<in>set (keys m). \<forall>y\<in>set ks. \<not> key_eq kk x y) \<Longrightarrow>
            (\<exists>m'. decode_map mem cs m ds = Inr m' \<and> keys m' = keys m @ ks \<and>
               vals m' = vals m @ vs \<and> key_kind m' = kk \<and> val_kind m' = vk)"
      using 11 by auto
    have dec: "\<exists>m'. decode_map mem cs m (dk # dv # ds) = Inr m' \<and> keys m' = keys m @ k # ks \<and>
               vals m' = vals m @ v # vs \<and> key_kind m' = kk \<and> val_kind m' = vk"
      if m: "key_kind m = kk" "val_kind m = vk" "distinct_keys kk (k # ks)"
        "\<forall>x\<in>set (keys m). \<forall>y\<in>set (k # ks). \<not> key_eq kk x y" for m
    proof -
      obtain m1 where m1: "wo_map_set mem m k v = Some (m1, None)" "keys m1 = keys m @ [k]"
        "vals m1 = vals m @ [v]" "key_kind m1 = kk" "val_kind m1 = vk"
        using wo_map_set_fresh [OF mem, of m k v] m by auto
      obtain m' where "decode_map mem cs m1 ds = Inr m'" "keys m' = keys m1 @ ks"
        "vals m' = vals m1 @ vs" "key_kind m' = kk" "val_kind m' = vk"
        using d [OF m1(4,5)] m m1(2) by auto
      with m1 k v m show ?thesis by simp
    qed
    show "\<exists>ds. encode_pairs mem cs kk vk (k # ks) (v # vs) = Inr ds \<and>
         length ds = 2 * length (k # ks) \<and>
         vals_ok cs (alternate (length (k # ks)) kk vk) ds \<and>
         (\<forall>m. key_kind m = kk \<longrightarrow> val_kind m = vk \<longrightarrow> distinct_keys kk (k # ks) \<longrightarrow>
            (\<forall>x\<in>set (keys m). \<forall>y\<in>set (k # ks). \<not> key_eq kk x y) \<longrightarrow>
            (\<exists>m'. decode_map mem cs m ds = Inr m' \<and> keys m' = keys m @ k # ks \<and>
               vals m' = vals m @ v # vs \<and> key_kind m' = kk \<and> val_kind m' = vk))"
      using k v e dec by (intro exI [of _ "dk # dv # ds"]) simp
  qed
qed auto

end
