(* ===== verification/Index.thy ===== *)
theory Index
  imports IdHash Values
begin

text \<open>
  The secondary indexes of a table (\<open>database/src/table.c\<close>): a hash multimap from the hash of a
  row's index columns to the ids of the rows that have it. The hash only finds the bucket;
  equality is decided on the rows, which the index reads through the table's accessor, the
  parameter \<open>borrow\<close> here. Shown: an index whose buckets hold exactly the ids of the live rows
  (\<open>indexed\<close>) stays so under adding and removing a row, its unique check finds a clash exactly
  when a live row has the same columns, and a probe returns exactly the rows a scan would.
\<close>

section \<open>Rows and buckets\<close>

record db_row =
  row_id :: u64
  row_class :: nat
  slots :: "dbval list"

datatype db_err = DB_ERR_NONE | DB_ERR_OOM | DB_ERR_BADKIND | DB_ERR_UNIQUE | DB_ERR_MISC

text \<open>
  The bucket array as two lists: \<open>bkeys\<close> the hash words (0 is an empty place), \<open>bids\<close> each
  bucket's ids and their capacity.
\<close>

record db_index =
  ix_flags :: u32
  cols :: "nat list"
  bkeys :: "u64 list"
  bids :: "(u64 list \<times> nat) list"
  blen :: nat

abbreviation ix_unique :: "db_index \<Rightarrow> bool" where
  "ix_unique ix \<equiv> ix_flags ix AND 1 \<noteq> 0"

section \<open>Hashing and comparing columns\<close>

text \<open>The word of a scalar or Float slot. (No index column has another kind, Text apart: the
  loader refuses it.)\<close>

fun slot_word :: "dbval \<Rightarrow> u64" where
  "slot_word (DWord w) = w"
| "slot_word _ = 0"

definition idx_float_key :: "u64 \<Rightarrow> u64" where
  "idx_float_key bits =
     (if f64_is_nan bits then 0x7FF8000000000000 else if f64_is_zero bits then 0 else bits)"

definition fnv1a :: "bytes \<Rightarrow> u64" where
  "fnv1a bs = foldl (\<lambda>th b. (th XOR ucast b) * 1099511628211) 1469598103934665603 bs"

fun text_hash :: "dbval \<Rightarrow> u64" where
  "text_hash (DText bs) = fnv1a bs"
| "text_hash _ = 0"

definition col_hash :: "kind \<Rightarrow> dbval \<Rightarrow> u64" where
  "col_hash k v =
     (if k = KText then text_hash v
      else if k = KFloat then idx_float_key (slot_word v) else slot_word v)"

fun idx_hash_from :: "wo_classdesc \<Rightarrow> db_row \<Rightarrow> nat list \<Rightarrow> nat \<Rightarrow> u64 \<Rightarrow> u64" where
  "idx_hash_from c r [] i h = h"
| "idx_hash_from c r (col # cs) i h =
     idx_hash_from c r cs (i + 1) (h XOR hmix (col_hash (kinds c ! col) (slots r ! col) + of_nat i))"

definition idx_hash :: "wo_classdesc \<Rightarrow> db_index \<Rightarrow> db_row \<Rightarrow> u64" where
  "idx_hash c ix r =
     (let h = idx_hash_from c r (cols ix) 0 0x9e3779b97f4a7c15 in if h \<noteq> 0 then h else 1)"

text \<open>The hash of a single-column key given as a word or as bytes (\<open>None\<close> is the nil text).\<close>

definition idx_hash_key1 :: "kind \<Rightarrow> u64 \<Rightarrow> bytes option \<Rightarrow> u64" where
  "idx_hash_key1 k key_scalar key_bytes =
     (let v = (if k = KText then (case key_bytes of Some p \<Rightarrow> fnv1a p | None \<Rightarrow> 0)
               else if k = KFloat then idx_float_key key_scalar else key_scalar);
          h = 0x9e3779b97f4a7c15 XOR hmix (v + 0)
      in if h \<noteq> 0 then h else 1)"

fun text_eq :: "dbval \<Rightarrow> dbval \<Rightarrow> bool" where
  "text_eq (DText x) (DText y) = (x = y)"
| "text_eq DNil DNil = True"
| "text_eq _ _ = False"

definition col_eq :: "kind \<Rightarrow> dbval \<Rightarrow> dbval \<Rightarrow> bool" where
  "col_eq k a b =
     (if k = KText then text_eq a b
      else if k = KFloat then idx_float_key (slot_word a) = idx_float_key (slot_word b)
      else slot_word a = slot_word b)"

definition idx_cols_equal :: "wo_classdesc \<Rightarrow> db_index \<Rightarrow> db_row \<Rightarrow> db_row \<Rightarrow> bool" where
  "idx_cols_equal c ix a b =
     list_all (\<lambda>col. col_eq (kinds c ! col) (slots a ! col) (slots b ! col)) (cols ix)"

section \<open>Buckets\<close>

text \<open>\<open>idx_bucket\<close> without \<open>create\<close>: the place of the bucket of \<open>h\<close>.\<close>

definition idx_find :: "db_index \<Rightarrow> u64 \<Rightarrow> nat option" where
  "idx_find ix h =
     (if bkeys ix = [] then None
      else
        (case probe (bkeys ix) h h of
           None \<Rightarrow> None
         | Some j \<Rightarrow> if bkeys ix ! j = 0 then None else Some j))"

text \<open>\<open>idx_bucket\<close> with \<open>create\<close>: the array is allocated, grown, and the bucket taken if new.\<close>

definition idx_create :: "mem \<Rightarrow> db_index \<Rightarrow> u64 \<Rightarrow> (db_index \<times> nat) option" where
  "idx_create mem ix0 h =
     (case (if bkeys ix0 = []
            then if mem AIdxInit
                 then Some (ix0\<lparr>bkeys := replicate 64 0, bids := replicate 64 ([], 0)\<rparr>) else None
            else Some ix0) of
        None \<Rightarrow> None
      | Some ix1 \<Rightarrow>
         (case (if length (bkeys ix1) * 7 \<le> blen ix1 * 10
                then if \<not> mem AIdxGrow then None
                     else map_option (\<lambda>(nk, nv). ix1\<lparr>bkeys := nk, bids := nv\<rparr>)
                            (rehash (\<lambda>x. x) (\<lambda>k. k \<noteq> 0) (zip (bkeys ix1) (bids ix1))
                              (replicate (length (bkeys ix1) * 2) 0)
                              (replicate (length (bkeys ix1) * 2) ([], 0)))
                else Some ix1) of
            None \<Rightarrow> None
          | Some ix \<Rightarrow>
             (case probe (bkeys ix) h h of
                None \<Rightarrow> None
              | Some j \<Rightarrow>
                  if bkeys ix ! j \<noteq> 0 then Some (ix, j)
                  else Some (ix\<lparr>bkeys := (bkeys ix)[j := h], blen := blen ix + 1\<rparr>, j))))"

definition ids_push :: "bool \<Rightarrow> u64 list \<times> nat \<Rightarrow> u64 \<Rightarrow> (u64 list \<times> nat) option" where
  "ids_push ok b rid =
     (if length (fst b) = snd b
      then if ok then Some (fst b @ [rid], if snd b \<noteq> 0 then snd b * 2 else 4) else None
      else Some (fst b @ [rid], snd b))"

text \<open>\<open>b->ids[i] = b->ids[--b->len]\<close> at the first place that holds the id.\<close>

fun index_of :: "u64 list \<Rightarrow> u64 \<Rightarrow> nat option" where
  "index_of [] rid = None"
| "index_of (x # xs) rid = (if x = rid then Some 0 else map_option Suc (index_of xs rid))"

definition ids_remove :: "u64 list \<Rightarrow> u64 \<Rightarrow> u64 list" where
  "ids_remove xs rid =
     (case index_of xs rid of None \<Rightarrow> xs | Some i \<Rightarrow> butlast (xs[i := last xs]))"

section \<open>Adding and removing a row\<close>

text \<open>Does a row with the same columns lie in the bucket? A row that cannot be read is no clash.\<close>

definition idx_clash :: "wo_classdesc \<Rightarrow> (u64 \<Rightarrow> db_row option) \<Rightarrow> db_index \<Rightarrow> db_row \<Rightarrow> bool" where
  "idx_clash c borrow ix r =
     (case idx_find ix (idx_hash c ix r) of
        None \<Rightarrow> False
      | Some j \<Rightarrow>
          list_ex (\<lambda>i. case borrow i of None \<Rightarrow> False | Some other \<Rightarrow> idx_cols_equal c ix r other)
            (fst (bids ix ! j)))"

text \<open>One index: the bucket may have been created even when the id could not be added.\<close>

definition idx_add_one :: "mem \<Rightarrow> nat \<Rightarrow> wo_classdesc \<Rightarrow> db_index \<Rightarrow> db_row \<Rightarrow> db_index \<times> bool" where
  "idx_add_one mem x c ix r =
     (case idx_create mem ix (idx_hash c ix r) of
        None \<Rightarrow> (ix, False)
      | Some (ix', j) \<Rightarrow>
         (case ids_push (mem (AIdxIds x)) (bids ix' ! j) (row_id r) of
            None \<Rightarrow> (ix', False)
          | Some b \<Rightarrow> (ix'\<lparr>bids := (bids ix')[j := b]\<rparr>, True)))"

fun idx_add_all :: "mem \<Rightarrow> nat \<Rightarrow> wo_classdesc \<Rightarrow> db_index list \<Rightarrow> db_row \<Rightarrow> db_index list \<times> bool" where
  "idx_add_all mem x c [] r = ([], True)"
| "idx_add_all mem x c (ix # ixs) r =
     (case idx_add_one mem x c ix r of
        (ix', False) \<Rightarrow> (ix' # ixs, False)
      | (ix', True) \<Rightarrow> (case idx_add_all mem (x + 1) c ixs r of (ixs', ok) \<Rightarrow> (ix' # ixs', ok)))"

definition idx_add_row ::
  "mem \<Rightarrow> wo_classdesc \<Rightarrow> (u64 \<Rightarrow> db_row option) \<Rightarrow> db_index list \<Rightarrow> db_row \<Rightarrow> db_index list \<times> db_err"
where
  "idx_add_row mem c borrow ixs r =
     (if list_ex (\<lambda>ix. ix_unique ix \<and> idx_clash c borrow ix r) ixs then (ixs, DB_ERR_UNIQUE)
      else
        (case idx_add_all mem 0 c ixs r of
           (ixs', ok) \<Rightarrow> (ixs', if ok then DB_ERR_NONE else DB_ERR_OOM)))"

definition idx_remove_one :: "wo_classdesc \<Rightarrow> db_row \<Rightarrow> db_index \<Rightarrow> db_index" where
  "idx_remove_one c r ix =
     (case idx_find ix (idx_hash c ix r) of
        None \<Rightarrow> ix
      | Some j \<Rightarrow>
          ix\<lparr>bids := (bids ix)[j := (ids_remove (fst (bids ix ! j)) (row_id r), snd (bids ix ! j))]\<rparr>)"

definition idx_remove_row :: "wo_classdesc \<Rightarrow> db_index list \<Rightarrow> db_row \<Rightarrow> db_index list" where
  "idx_remove_row c ixs r = map (idx_remove_one c r) ixs"

section \<open>Probing\<close>

text \<open>The comparison of a probe: raw words for scalars and Floats, bytes for Text.\<close>

definition probe_eq :: "kind \<Rightarrow> u64 \<Rightarrow> bytes option \<Rightarrow> dbval \<Rightarrow> bool" where
  "probe_eq k key_scalar key_bytes v =
     (if k = KText
      then (case (key_bytes, v) of
              (None, DNil) \<Rightarrow> True | (Some p, DText have) \<Rightarrow> have = p | _ \<Rightarrow> False)
      else slot_word v = key_scalar)"

datatype probe_res = CannotProbe | Probed "u64 list" | ProbeOOM

definition idx_probe ::
  "mem \<Rightarrow> wo_classdesc \<Rightarrow> (u64 \<Rightarrow> db_row option) \<Rightarrow> db_index \<Rightarrow> u64 \<Rightarrow> bytes option \<Rightarrow> probe_res"
where
  "idx_probe mem c borrow ix key_scalar key_bytes =
     (if length (cols ix) \<noteq> 1 then CannotProbe
      else
        let col = cols ix ! 0; k = kinds c ! col in
        (case idx_find ix (idx_hash_key1 k key_scalar key_bytes) of
           None \<Rightarrow> Probed []
         | Some j \<Rightarrow>
            if fst (bids ix ! j) = [] then Probed []
            else if \<not> mem AProbeIds then ProbeOOM
            else
              Probed
                (filter (\<lambda>i. case borrow i of
                    None \<Rightarrow> False
                  | Some r \<Rightarrow> probe_eq k key_scalar key_bytes (slots r ! col))
                  (fst (bids ix ! j)))))"

section \<open>The bucket array as a map\<close>

definition bucket_inv :: "db_index \<Rightarrow> bool" where
  "bucket_inv ix \<longleftrightarrow>
     length (bids ix) = length (bkeys ix) \<and>
     (bkeys ix = [] \<and> blen ix = 0 \<or>
      pow2 (length (bkeys ix)) \<and> 64 \<le> length (bkeys ix) \<and>
      placed (\<lambda>x. x) (\<lambda>_. True) (bkeys ix) \<and> used (bkeys ix) = blen ix \<and>
      blen ix * 10 < length (bkeys ix) * 7 + 10 \<and>
      (\<forall>i<length (bkeys ix). bkeys ix ! i = 0 \<longrightarrow> fst (bids ix ! i) = []))"

definition ix_ids :: "db_index \<Rightarrow> u64 \<Rightarrow> u64 list" where
  "ix_ids ix h = (case idx_find ix h of None \<Rightarrow> [] | Some j \<Rightarrow> fst (bids ix ! j))"

lemma bucket_inv_full:
  assumes "bucket_inv ix" and "bkeys ix \<noteq> []"
  shows "pow2 (length (bkeys ix))" and "length (bids ix) = length (bkeys ix)"
    and "placed (\<lambda>x. x) (\<lambda>_. True) (bkeys ix)" and "0 \<in> set (bkeys ix)" and "64 \<le> length (bkeys ix)"
proof -
  have f: "pow2 (length (bkeys ix)) \<and> 64 \<le> length (bkeys ix) \<and> length (bids ix) = length (bkeys ix) \<and>
      placed (\<lambda>x. x) (\<lambda>_. True) (bkeys ix) \<and> used (bkeys ix) = blen ix \<and>
      blen ix * 10 < length (bkeys ix) * 7 + 10"
    using assms by (auto simp: bucket_inv_def)
  then show "pow2 (length (bkeys ix))" and "length (bids ix) = length (bkeys ix)"
    and "placed (\<lambda>x. x) (\<lambda>_. True) (bkeys ix)" and "64 \<le> length (bkeys ix)" by blast+
  show "0 \<in> set (bkeys ix)" unfolding used_less [symmetric] using f by linarith
qed

lemma idx_find_iff:
  assumes "bucket_inv ix" and "h \<noteq> 0"
  shows "idx_find ix h = Some j \<longleftrightarrow> j < length (bkeys ix) \<and> bkeys ix ! j = h"
proof (cases "bkeys ix = []")
  case True
  then show ?thesis by (simp add: idx_find_def)
next
  case False
  note f = bucket_inv_full [OF assms(1) False]
  obtain i where i: "probe (bkeys ix) h h = Some i" "i < length (bkeys ix)"
    using probe_ends [OF f(1,4)] by blast
  show ?thesis
  proof
    assume "idx_find ix h = Some j"
    then have "i = j" "bkeys ix ! i \<noteq> 0" using False i by (auto simp: idx_find_def split: if_splits)
    then show "j < length (bkeys ix) \<and> bkeys ix ! j = h" using probe_stop [OF f(1) i(1)] i(2) by auto
  next
    assume j: "j < length (bkeys ix) \<and> bkeys ix ! j = h"
    then have "probe (bkeys ix) h h = Some j"
      using probe_finds [OF f(1,3), of j h] assms(2) by simp
    then show "idx_find ix h = Some j" using False j assms(2) by (simp add: idx_find_def)
  qed
qed

lemma idx_find_None:
  assumes "bucket_inv ix" and "h \<noteq> 0"
  shows "idx_find ix h = None \<longleftrightarrow> h \<notin> set (bkeys ix)"
  using idx_find_iff [OF assms] by (metis in_set_conv_nth not_None_eq option.distinct(1))

lemma ix_ids_at:
  assumes "bucket_inv ix" and "h \<noteq> 0" and "j < length (bkeys ix)" and "bkeys ix ! j = h"
  shows "ix_ids ix h = fst (bids ix ! j)"
  using idx_find_iff [OF assms(1,2), of j] assms(3,4) by (simp add: ix_ids_def)

lemma ix_ids_none: "bucket_inv ix \<Longrightarrow> h \<noteq> 0 \<Longrightarrow> h \<notin> set (bkeys ix) \<Longrightarrow> ix_ids ix h = []"
  using idx_find_None [of ix h] by (simp add: ix_ids_def)

lemma idx_hash_nonzero [simp]: "idx_hash c ix r \<noteq> 0"
  by (simp add: idx_hash_def Let_def)

text \<open>Replacing the ids of one bucket.\<close>

lemma bucket_update:
  assumes inv: "bucket_inv ix" and j: "j < length (bkeys ix)" and nz: "bkeys ix ! j \<noteq> 0"
  shows "bucket_inv (ix\<lparr>bids := (bids ix)[j := b]\<rparr>)"
    and "h \<noteq> 0 \<Longrightarrow> ix_ids (ix\<lparr>bids := (bids ix)[j := b]\<rparr>) h = (if h = bkeys ix ! j then fst b else ix_ids ix h)"
proof -
  let ?ix = "ix\<lparr>bids := (bids ix)[j := b]\<rparr>"
  have len: "length (bids ix) = length (bkeys ix)" using inv by (simp add: bucket_inv_def)
  show inv': "bucket_inv ?ix"
    using inv j nz by (auto simp: bucket_inv_def nth_list_update)
  assume h: "h \<noteq> 0"
  show "ix_ids ?ix h = (if h = bkeys ix ! j then fst b else ix_ids ix h)"
  proof (cases "h \<in> set (bkeys ix)")
    case False
    then show ?thesis using ix_ids_none [OF inv h] ix_ids_none [OF inv' h] j by auto
  next
    case True
    then obtain i where i: "i < length (bkeys ix)" "bkeys ix ! i = h" by (meson in_set_conv_nth)
    have "h = bkeys ix ! j \<Longrightarrow> i = j"
      using idx_find_iff [OF inv h, of i] idx_find_iff [OF inv h, of j] i j by auto
    then show ?thesis
      using ix_ids_at [OF inv h i] ix_ids_at [OF inv' h, of i] i j len by (cases "i = j") auto
  qed
qed

text \<open>Creating a bucket changes no other and leaves the new one empty.\<close>

lemma ix_ids_cong:
  assumes inv: "bucket_inv ix" "bucket_inv ix'" and h: "h \<noteq> 0"
    and eq: "\<And>b. (h, b) \<in> entries (bkeys ix') (bids ix') \<longleftrightarrow> (h, b) \<in> entries (bkeys ix) (bids ix)"
  shows "ix_ids ix' h = ix_ids ix h"
proof -
  have len: "length (bids ix) = length (bkeys ix)" "length (bids ix') = length (bkeys ix')"
    using inv by (simp_all add: bucket_inv_def)
  show ?thesis
  proof (cases "h \<in> set (bkeys ix)")
    case True
    then obtain i where i: "i < length (bkeys ix)" "bkeys ix ! i = h" by (meson in_set_conv_nth)
    then have "(h, bids ix ! i) \<in> entries (bkeys ix') (bids ix')"
      unfolding eq using len h by (auto simp: entries_iff)
    then obtain i' where i': "i' < length (bkeys ix')" "bkeys ix' ! i' = h" "bids ix' ! i' = bids ix ! i"
      using len by (auto simp: entries_iff)
    show ?thesis using ix_ids_at [OF inv(1) h i] ix_ids_at [OF inv(2) h i'(1,2)] i'(3) by simp
  next
    case False
    have "h \<notin> set (bkeys ix')"
    proof
      assume "h \<in> set (bkeys ix')"
      then obtain i where "i < length (bkeys ix')" "bkeys ix' ! i = h" by (meson in_set_conv_nth)
      then have "(h, bids ix' ! i) \<in> entries (bkeys ix) (bids ix)"
        unfolding eq [symmetric] using len h by (auto simp: entries_iff)
      then show False using False len by (auto simp: entries_iff)
    qed
    then show ?thesis using False ix_ids_none inv h by metis
  qed
qed

lemma idx_init_inv:
  assumes "bucket_inv ix" and "bkeys ix = []"
  shows "bucket_inv (ix\<lparr>bkeys := replicate 64 0, bids := replicate 64 ([], 0)\<rparr>)"
proof -
  have "pow2 64" unfolding pow2_def by (rule exI [of _ 6]) simp
  then show ?thesis using assms by (simp add: bucket_inv_def placed_empty)
qed

lemma idx_grow_inv:
  assumes inv: "bucket_inv ix" and ne: "bkeys ix \<noteq> []"
    and re: "rehash (\<lambda>x. x) (\<lambda>k. k \<noteq> 0) (zip (bkeys ix) (bids ix))
       (replicate (length (bkeys ix) * 2) 0) (replicate (length (bkeys ix) * 2) ([], 0)) = Some (nk, nv)"
  shows "bucket_inv (ix\<lparr>bkeys := nk, bids := nv\<rparr>)" and "length nk = length (bkeys ix) * 2"
    and "entries nk nv = entries (bkeys ix) (bids ix)"
proof -
  note f = bucket_inv_full [OF inv ne]
  let ?n = "length (bkeys ix) * 2"
  let ?es = "zip (bkeys ix) (bids ix)"
  let ?live = "filter (\<lambda>(k, v). k \<noteq> 0) ?es"
  have bl: "used (bkeys ix) = blen ix" "blen ix * 10 < length (bkeys ix) * 7 + 10"
    using inv ne by (auto simp: bucket_inv_def)
  have ul: "length ?live \<le> used (bkeys ix)" by (rule filter_used [OF f(2)]) simp
  have "distinct (map fst ?live)" by (rule placed_distinct [OF f(3,2)]) simp
  then have "\<exists>nk' nv'. rehash (\<lambda>x. x) (\<lambda>k. k \<noteq> 0) ?es (replicate ?n 0) (replicate ?n ([], 0)) = Some (nk', nv') \<and>
     length nk' = length (replicate ?n (0::u64)) \<and> length nv' = length (replicate ?n (0::u64)) \<and>
     placed (\<lambda>x. x) (\<lambda>_. True) nk' \<and> used nk' = used (replicate ?n (0::u64)) + length ?live \<and>
     entries nk' nv' = entries (replicate ?n (0::u64)) (replicate ?n ([], 0)) \<union> set ?live \<and>
     (\<forall>i<length (replicate ?n (0::u64)). nk' ! i = 0 \<longrightarrow>
        replicate ?n (0::u64) ! i = 0 \<and> nv' ! i = replicate ?n ([], 0) ! i)"
    using pow2_double [OF f(1)] ul bl f(5)
    by (intro rehash_full) (auto simp: placed_empty)
  then have r: "length nk = ?n" "length nv = ?n" "placed (\<lambda>x. x) (\<lambda>_. True) nk"
    "used nk = length ?live" "entries nk nv = set ?live" "\<forall>i<?n. nk ! i = 0 \<longrightarrow> nv ! i = ([], 0)"
    unfolding re by auto
  have "set ?live = entries (bkeys ix) (bids ix)" by (auto simp: entries_def)
  then show "entries nk nv = entries (bkeys ix) (bids ix)" and len: "length nk = ?n"
    using r by simp_all
  have "length ?live = used (bkeys ix)" by (rule filter_nonzero_used [OF f(2)])
  moreover have "pow2 (length nk)" unfolding len by (rule pow2_double [OF f(1)])
  ultimately show "bucket_inv (ix\<lparr>bkeys := nk, bids := nv\<rparr>)"
    using r bl f(5) by (auto simp: bucket_inv_def)
qed

lemma idx_create_ok:
  assumes inv: "bucket_inv ix0" and h: "h \<noteq> 0" and cr: "idx_create mem ix0 h = Some (ix', j)"
  shows "bucket_inv ix'" and "j < length (bkeys ix')" and "bkeys ix' ! j = h"
    and "h' \<noteq> 0 \<Longrightarrow> ix_ids ix' h' = ix_ids ix0 h'"
    and "cols ix' = cols ix0" and "ix_flags ix' = ix_flags ix0"
proof -
  from cr obtain ix1 where ix1: "(if bkeys ix0 = []
            then if mem AIdxInit
                 then Some (ix0\<lparr>bkeys := replicate 64 0, bids := replicate 64 ([], 0)\<rparr>) else None
            else Some ix0) = Some ix1"
    unfolding idx_create_def by (cases "if bkeys ix0 = []
            then if mem AIdxInit
                 then Some (ix0\<lparr>bkeys := replicate 64 0, bids := replicate 64 ([], 0)\<rparr>) else None
            else Some ix0") simp_all
  have i1: "bucket_inv ix1" "bkeys ix1 \<noteq> []" "cols ix1 = cols ix0" "ix_flags ix1 = ix_flags ix0"
    "\<And>b. (k, b) \<in> entries (bkeys ix1) (bids ix1) \<longleftrightarrow> (k, b) \<in> entries (bkeys ix0) (bids ix0)" for k
    using ix1 idx_init_inv [OF inv] inv by (auto split: if_splits)
  from cr ix1 obtain ix where ix: "(if length (bkeys ix1) * 7 \<le> blen ix1 * 10
                then if \<not> mem AIdxGrow then None
                     else map_option (\<lambda>(nk, nv). ix1\<lparr>bkeys := nk, bids := nv\<rparr>)
                            (rehash (\<lambda>x. x) (\<lambda>k. k \<noteq> 0) (zip (bkeys ix1) (bids ix1))
                              (replicate (length (bkeys ix1) * 2) 0)
                              (replicate (length (bkeys ix1) * 2) ([], 0)))
                else Some ix1) = Some ix"
    unfolding idx_create_def by (simp only: option.case) (auto split: option.splits)
  have i2: "bucket_inv ix \<and> bkeys ix \<noteq> [] \<and> blen ix * 10 < length (bkeys ix) * 7 \<and>
      cols ix = cols ix0 \<and> ix_flags ix = ix_flags ix0 \<and>
      (\<forall>k b. (k, b) \<in> entries (bkeys ix) (bids ix) \<longleftrightarrow> (k, b) \<in> entries (bkeys ix0) (bids ix0))"
  proof (cases "length (bkeys ix1) * 7 \<le> blen ix1 * 10")
    case False
    then show ?thesis using ix i1 by auto
  next
    case True
    then obtain nk nv where re: "rehash (\<lambda>x. x) (\<lambda>k. k \<noteq> 0) (zip (bkeys ix1) (bids ix1))
                              (replicate (length (bkeys ix1) * 2) 0)
                              (replicate (length (bkeys ix1) * 2) ([], 0)) = Some (nk, nv)"
      and e: "ix = ix1\<lparr>bkeys := nk, bids := nv\<rparr>"
      using ix by (auto split: if_splits)
    note g = idx_grow_inv [OF i1(1,2) re]
    have "blen ix1 * 10 < length (bkeys ix1) * 7 + 10" using i1(1,2) by (auto simp: bucket_inv_def)
    then have "blen ix1 * 10 < length nk * 7"
      using g(2) bucket_inv_full(5) [OF i1(1,2)] by linarith
    moreover have "nk \<noteq> []" using g(2) i1(2) by auto
    ultimately show ?thesis using g e i1 by auto
  qed
  then have inv2: "bucket_inv ix" and ne2: "bkeys ix \<noteq> []" by blast+
  note f = bucket_inv_full [OF inv2 ne2]
  obtain i where i: "probe (bkeys ix) h h = Some i" "i < length (bkeys ix)"
    using probe_ends [OF f(1,4)] by blast
  have res: "(ix', j) = (if bkeys ix ! i \<noteq> 0 then (ix, i)
       else (ix\<lparr>bkeys := (bkeys ix)[i := h], blen := blen ix + 1\<rparr>, i))"
    using cr unfolding idx_create_def ix1 option.case ix i(1) by (auto split: if_splits)
  have same: "ix_ids ix k = ix_ids ix0 k" if "k \<noteq> 0" for k
    by (rule ix_ids_cong [OF inv inv2 that]) (use i2 in blast)
  have "bucket_inv ix' \<and> j < length (bkeys ix') \<and> bkeys ix' ! j = h \<and>
    (\<forall>h'. h' \<noteq> 0 \<longrightarrow> ix_ids ix' h' = ix_ids ix0 h') \<and> cols ix' = cols ix0 \<and> ix_flags ix' = ix_flags ix0"
  proof (cases "bkeys ix ! i = 0")
    case False
    then show ?thesis using res i inv2 same i2 probe_stop [OF f(1) i(1)] by auto
  next
    case True
    then have r: "j = i" "ix' = ix\<lparr>bkeys := (bkeys ix)[i := h], blen := blen ix + 1\<rparr>" using res by auto
    have "placed (\<lambda>x. x) (\<lambda>_. True) ((bkeys ix)[i := h])"
      by (rule placed_store [OF f(1,3) i(1) True h])
    moreover have "used ((bkeys ix)[i := h]) = blen ix + 1"
      using used_update [OF i(2), of h] True h inv2 ne2 by (auto simp: bucket_inv_def)
    ultimately have inv': "bucket_inv ix'"
      using inv2 ne2 i2 i(2) h by (auto simp: r bucket_inv_def nth_list_update split: if_splits)
    have hn: "h \<notin> set (bkeys ix)"
    proof
      assume "h \<in> set (bkeys ix)"
      then obtain m where "m < length (bkeys ix)" "bkeys ix ! m = h" by (meson in_set_conv_nth)
      then have "probe (bkeys ix) h h = Some m" using probe_finds [OF f(1,3)] h by simp
      then show False using i True h \<open>bkeys ix ! m = h\<close> by simp
    qed
    have em: "fst (bids ix ! i) = []" using inv2 ne2 True i(2) by (auto simp: bucket_inv_def)
    have "ix_ids ix' k = ix_ids ix k" if k: "k \<noteq> 0" for k
    proof (cases "k = h")
      case True
      have "ix_ids ix' h = fst (bids ix' ! i)" by (rule ix_ids_at [OF inv' h]) (simp_all add: r i)
      then show ?thesis using ix_ids_none [OF inv2 h hn] em True by (simp add: r)
    next
      case False
      show ?thesis
      proof (rule ix_ids_cong [OF inv2 inv' k])
        fix b
        have "entries (bkeys ix') (bids ix') = insert (h, bids ix ! i) (entries (bkeys ix) (bids ix))"
          using entries_store_old [OF f(2) i(2) True h] by (simp add: r)
        with False show "(k, b) \<in> entries (bkeys ix') (bids ix') \<longleftrightarrow> (k, b) \<in> entries (bkeys ix) (bids ix)"
          by simp
      qed
    qed
    then show ?thesis using inv' r i same i2 by auto
  qed
  then show "bucket_inv ix'" and "j < length (bkeys ix')" and "bkeys ix' ! j = h"
    and "h' \<noteq> 0 \<Longrightarrow> ix_ids ix' h' = ix_ids ix0 h'"
    and "cols ix' = cols ix0" and "ix_flags ix' = ix_flags ix0" by blast+
qed

lemma idx_create_total:
  assumes inv: "bucket_inv ix" and h: "h \<noteq> 0" and mem: "mem AIdxInit" "mem AIdxGrow"
  shows "\<exists>ix' j. idx_create mem ix h = Some (ix', j)"
proof -
  define ix1 where "ix1 = (if bkeys ix = []
     then ix\<lparr>bkeys := replicate 64 0, bids := replicate 64 ([], 0)\<rparr> else ix)"
  have i1: "bucket_inv ix1" "bkeys ix1 \<noteq> []"
    using idx_init_inv [OF inv] inv by (auto simp: ix1_def)
  note f = bucket_inv_full [OF i1]
  have s1: "(if bkeys ix = []
            then if mem AIdxInit
                 then Some (ix\<lparr>bkeys := replicate 64 0, bids := replicate 64 ([], 0)\<rparr>) else None
            else Some ix) = Some ix1"
    using mem by (simp add: ix1_def)
  let ?n = "length (bkeys ix1) * 2"
  let ?es = "zip (bkeys ix1) (bids ix1)"
  have bl: "used (bkeys ix1) = blen ix1" "blen ix1 * 10 < length (bkeys ix1) * 7 + 10"
    using i1 by (auto simp: bucket_inv_def)
  have "distinct (map fst (filter (\<lambda>(k, v). k \<noteq> 0) ?es))" by (rule placed_distinct [OF f(3,2)]) simp
  then have "\<exists>nk nv. rehash (\<lambda>x. x) (\<lambda>k. k \<noteq> 0) ?es (replicate ?n 0) (replicate ?n ([], 0)) = Some (nk, nv) \<and>
     length nk = length (replicate ?n (0::u64)) \<and> length nv = length (replicate ?n (0::u64)) \<and>
     placed (\<lambda>x. x) (\<lambda>_. True) nk \<and> used nk = used (replicate ?n (0::u64)) + length (filter (\<lambda>(k, v). k \<noteq> 0) ?es) \<and>
     entries nk nv = entries (replicate ?n (0::u64)) (replicate ?n ([], 0)) \<union> set (filter (\<lambda>(k, v). k \<noteq> 0) ?es)"
    using pow2_double [OF f(1)] bl f(5) filter_nonzero_used [OF f(2)]
    by (intro rehash_ok) (auto simp: placed_empty)
  then obtain nk nv
    where re: "rehash (\<lambda>x. x) (\<lambda>k. k \<noteq> 0) ?es (replicate ?n 0) (replicate ?n ([], 0)) = Some (nk, nv)"
    by blast
  note g = idx_grow_inv [OF i1 re]
  define ix2 where "ix2 = (if length (bkeys ix1) * 7 \<le> blen ix1 * 10
     then ix1\<lparr>bkeys := nk, bids := nv\<rparr> else ix1)"
  have i2: "bucket_inv ix2" "bkeys ix2 \<noteq> []"
    using i1 g(1,2) by (auto simp: ix2_def)
  note f2 = bucket_inv_full [OF i2]
  obtain i where "probe (bkeys ix2) h h = Some i" using probe_ends [OF f2(1,4)] by blast
  then show ?thesis
    unfolding idx_create_def s1 option.case using mem re
    by (cases "length (bkeys ix1) * 7 \<le> blen ix1 * 10") (simp_all add: ix2_def)
qed

section \<open>Exact indexes\<close>

lemma index_of_Some: "index_of xs x = Some i \<Longrightarrow> i < length xs \<and> xs ! i = x"
  by (induction xs arbitrary: i) (auto split: if_splits)

lemma index_of_None: "index_of xs x = None \<longleftrightarrow> x \<notin> set xs"
  by (induction xs) auto

lemma ids_remove_set:
  assumes "distinct xs"
  shows "distinct (ids_remove xs x) \<and> set (ids_remove xs x) = set xs - {x}"
proof (cases "index_of xs x")
  case None
  then have "ids_remove xs x = xs" and "x \<notin> set xs"
    by (simp_all add: ids_remove_def flip: index_of_None)
  then show ?thesis using assms by simp
next
  case (Some i)
  have i: "i < length xs" "xs ! i = x" using index_of_Some [OF Some] by auto
  then have "xs \<noteq> []" by auto
  then obtain ys l where xs: "xs = ys @ [l]" by (metis rev_exhaust)
  have ys: "distinct ys" "l \<notin> set ys" using assms xs by auto
  show ?thesis
  proof (cases "i < length ys")
    case True
    have "ids_remove xs x = ys[i := l]"
      using Some True by (simp add: ids_remove_def xs list_update_append)
    moreover have "ys ! i = x" using i True xs by (simp add: nth_append)
    ultimately show ?thesis
      using ys True xs i set_update_distinct [OF ys(1) True, of l] by (auto simp: distinct_list_update)
  next
    case False
    then have "i = length ys" using i xs by simp
    then show ?thesis using Some xs i ys by (auto simp: ids_remove_def)
  qed
qed

lemma idx_add_one_ids:
  assumes inv: "bucket_inv ix" and add: "idx_add_one mem x c ix r = (ix', ok)"
  shows "bucket_inv ix' \<and> cols ix' = cols ix \<and> ix_flags ix' = ix_flags ix \<and>
    (\<forall>h. h \<noteq> 0 \<longrightarrow> ix_ids ix' h =
       (if ok \<and> h = idx_hash c ix r then ix_ids ix h @ [row_id r] else ix_ids ix h))"
proof (cases "idx_create mem ix (idx_hash c ix r)")
  case None
  then show ?thesis using add inv by (simp add: idx_add_one_def)
next
  case (Some p)
  then obtain ix1 j where cr: "idx_create mem ix (idx_hash c ix r) = Some (ix1, j)" by (cases p) auto
  note ok1 = idx_create_ok [OF inv idx_hash_nonzero cr]
  show ?thesis
  proof (cases "ids_push (mem (AIdxIds x)) (bids ix1 ! j) (row_id r)")
    case None
    then show ?thesis using add cr ok1 by (auto simp: idx_add_one_def)
  next
    case b: (Some b)
    have fb: "fst b = fst (bids ix1 ! j) @ [row_id r]"
      using b by (auto simp: ids_push_def split: if_splits)
    have nz: "bkeys ix1 ! j \<noteq> 0" using ok1(3) by simp
    have r: "ix' = ix1\<lparr>bids := (bids ix1)[j := b]\<rparr>" "ok"
      using add cr b by (auto simp: idx_add_one_def)
    have at: "ix_ids ix1 (idx_hash c ix r) = fst (bids ix1 ! j)"
      by (rule ix_ids_at [OF ok1(1) idx_hash_nonzero ok1(2,3)])
    show ?thesis
      using bucket_update [OF ok1(1,2) nz, where b = b] ok1 fb at by (auto simp: r)
  qed
qed

lemma idx_add_one_total:
  assumes "bucket_inv ix" and "mem AIdxInit" and "mem AIdxGrow" and "mem (AIdxIds x)"
  shows "snd (idx_add_one mem x c ix r)"
  using idx_create_total [OF assms(1) idx_hash_nonzero [of c ix r] assms(2,3)] assms(4)
  by (auto simp: idx_add_one_def ids_push_def split: option.splits)

text \<open>
  \<open>live\<close> are the rows of the table. The buckets hold exactly their ids, each once, under the hash
  of the row's columns.
\<close>

definition indexed :: "wo_classdesc \<Rightarrow> db_index \<Rightarrow> (u64 \<Rightarrow> db_row option) \<Rightarrow> bool" where
  "indexed c ix live \<longleftrightarrow> bucket_inv ix \<and>
     (\<forall>h. h \<noteq> 0 \<longrightarrow> distinct (ix_ids ix h) \<and>
        set (ix_ids ix h) = {i. \<exists>r. live i = Some r \<and> idx_hash c ix r = h})"

definition unique_in :: "wo_classdesc \<Rightarrow> db_index \<Rightarrow> (u64 \<Rightarrow> db_row option) \<Rightarrow> bool" where
  "unique_in c ix live \<longleftrightarrow> (ix_unique ix \<longrightarrow>
     (\<forall>i j r r'. live i = Some r \<longrightarrow> live j = Some r' \<longrightarrow> i \<noteq> j \<longrightarrow> \<not> idx_cols_equal c ix r r'))"

lemma idx_hash_cong: "cols ix = cols ix' \<Longrightarrow> idx_hash c ix r = idx_hash c ix' r"
  by (simp add: idx_hash_def)

lemma idx_cols_equal_cong: "cols ix = cols ix' \<Longrightarrow> idx_cols_equal c ix r r' = idx_cols_equal c ix' r r'"
  by (simp add: idx_cols_equal_def)

lemma indexed_add:
  assumes ix: "indexed c ix live" and new: "live (row_id r) = None"
    and add: "idx_add_one mem x c ix r = (ix', ok)"
  shows "indexed c ix' (if ok then live(row_id r \<mapsto> r) else live)"
proof -
  have inv: "bucket_inv ix" using ix by (simp add: indexed_def)
  note a = idx_add_one_ids [OF inv add]
  have hc: "idx_hash c ix' q = idx_hash c ix q" for q using a by (intro idx_hash_cong) simp
  have notin: "row_id r \<notin> set (ix_ids ix h)" if "h \<noteq> 0" for h
    using ix that new by (auto simp: indexed_def)
  show ?thesis
    unfolding indexed_def hc
  proof (intro conjI allI impI)
    show "bucket_inv ix'" using a by simp
  next
    fix h :: u64 assume h: "h \<noteq> 0"
    then show "distinct (ix_ids ix' h)" using a ix notin [OF h] by (auto simp: indexed_def)
  next
    fix h :: u64 assume h: "h \<noteq> 0"
    have s: "set (ix_ids ix h) = {i. \<exists>r. live i = Some r \<and> idx_hash c ix r = h}"
      using ix h by (simp add: indexed_def)
    show "set (ix_ids ix' h) = {i. \<exists>q. (if ok then live(row_id r \<mapsto> r) else live) i = Some q \<and> idx_hash c ix q = h}"
      using a h s new by auto
  qed
qed

lemma indexed_remove:
  assumes ix: "indexed c ix live" and there: "live (row_id r) = Some r"
  shows "indexed c (idx_remove_one c r ix) (live(row_id r := None))"
proof -
  have inv: "bucket_inv ix" using ix by (simp add: indexed_def)
  let ?h = "idx_hash c ix r"
  have s: "set (ix_ids ix h) = {i. \<exists>r. live i = Some r \<and> idx_hash c ix r = h} \<and> distinct (ix_ids ix h)"
    if "h \<noteq> 0" for h using ix that by (simp add: indexed_def)
  have "row_id r \<in> set (ix_ids ix ?h)" using s [of ?h] there by auto
  then obtain j where j: "idx_find ix ?h = Some j"
    by (cases "idx_find ix ?h") (auto simp: ix_ids_def)
  then have jl: "j < length (bkeys ix)" "bkeys ix ! j = ?h"
    using idx_find_iff [OF inv idx_hash_nonzero] by auto
  have nz: "bkeys ix ! j \<noteq> 0" using jl by simp
  let ?b = "(ids_remove (fst (bids ix ! j)) (row_id r), snd (bids ix ! j))"
  have r: "idx_remove_one c r ix = ix\<lparr>bids := (bids ix)[j := ?b]\<rparr>"
    using j by (simp add: idx_remove_one_def)
  have at: "ix_ids ix ?h = fst (bids ix ! j)" using j by (simp add: ix_ids_def)
  note u = bucket_update [OF inv jl(1) nz, where b = ?b]
  have rm: "distinct (ids_remove (fst (bids ix ! j)) (row_id r)) \<and>
      set (ids_remove (fst (bids ix ! j)) (row_id r)) = set (fst (bids ix ! j)) - {row_id r}"
    using s [of ?h] at by (intro ids_remove_set) simp
  have hc: "idx_hash c (ix\<lparr>bids := (bids ix)[j := ?b]\<rparr>) q = idx_hash c ix q" for q
    by (rule idx_hash_cong) simp
  show ?thesis
    unfolding r indexed_def hc
  proof (intro conjI allI impI)
    show "bucket_inv (ix\<lparr>bids := (bids ix)[j := ?b]\<rparr>)" by (rule u(1))
  next
    fix h :: u64 assume h: "h \<noteq> 0"
    show "distinct (ix_ids (ix\<lparr>bids := (bids ix)[j := ?b]\<rparr>) h)"
      using u(2) [OF h] rm s [OF h] by simp
  next
    fix h :: u64 assume h: "h \<noteq> 0"
    show "set (ix_ids (ix\<lparr>bids := (bids ix)[j := ?b]\<rparr>) h) =
        {i. \<exists>q. (live(row_id r := None)) i = Some q \<and> idx_hash c ix q = h}"
      using u(2) [OF h] rm s [OF h] at jl(2) there by auto
  qed
qed

section \<open>Equal columns, equal hashes\<close>

lemma col_eq_hash: "col_eq k a b \<Longrightarrow> col_hash k a = col_hash k b"
  by (cases "(a, b)" rule: text_eq.cases) (auto simp: col_eq_def col_hash_def split: if_splits)

lemma idx_cols_equal_hash_from:
  "list_all (\<lambda>col. col_eq (kinds c ! col) (slots a ! col) (slots b ! col)) cs \<Longrightarrow>
     idx_hash_from c a cs i h = idx_hash_from c b cs i h"
  by (induction cs arbitrary: i h) (auto dest: col_eq_hash)

lemma idx_cols_equal_hash: "idx_cols_equal c ix a b \<Longrightarrow> idx_hash c ix a = idx_hash c ix b"
  unfolding idx_cols_equal_def idx_hash_def by (simp add: idx_cols_equal_hash_from)

lemma text_eq_sym: "text_eq a b = text_eq b a"
  by (cases "(a, b)" rule: text_eq.cases) auto

lemma col_eq_sym: "col_eq k a b = col_eq k b a"
  using text_eq_sym by (auto simp: col_eq_def)

lemma idx_cols_equal_sym: "idx_cols_equal c ix a b = idx_cols_equal c ix b a"
  by (simp add: idx_cols_equal_def col_eq_sym)

lemma probe_eq_hash:
  assumes "cols ix = [col]" and "probe_eq (kinds c ! col) w p (slots r ! col)"
  shows "idx_hash_key1 (kinds c ! col) w p = idx_hash c ix r"
proof -
  have "(if kinds c ! col = KText then (case p of Some p \<Rightarrow> fnv1a p | None \<Rightarrow> 0)
      else if kinds c ! col = KFloat then idx_float_key w else w) = col_hash (kinds c ! col) (slots r ! col)"
    using assms(2)
    by (cases "slots r ! col") (auto simp: probe_eq_def col_hash_def split: if_splits option.splits)
  then show ?thesis using assms(1) by (simp add: idx_hash_key1_def idx_hash_def)
qed

section \<open>What the index relies on\<close>

text \<open>
  The accessor the table gives its indexes: a live row can be borrowed, and a row carries the id
  it is stored under. Rows that are not live may be refused or stale.
\<close>

locale row_source =
  fixes borrow :: "u64 \<Rightarrow> db_row option"
    and live :: "u64 \<Rightarrow> db_row option"
  assumes borrow_live: "live i = Some r \<Longrightarrow> borrow i = Some r"
    and live_id: "live i = Some r \<Longrightarrow> row_id r = i"
begin

text \<open>The unique check sees a clash exactly when a live row has the same columns.\<close>

lemma idx_clash_iff:
  assumes ix: "indexed c ix live"
  shows "idx_clash c borrow ix r \<longleftrightarrow> (\<exists>i r'. live i = Some r' \<and> idx_cols_equal c ix r r')"
proof -
  let ?h = "idx_hash c ix r"
  have s: "set (ix_ids ix ?h) = {i. \<exists>q. live i = Some q \<and> idx_hash c ix q = ?h}"
    using ix by (simp add: indexed_def)
  have "idx_clash c borrow ix r \<longleftrightarrow>
      (\<exists>i\<in>set (ix_ids ix ?h). \<exists>q. borrow i = Some q \<and> idx_cols_equal c ix r q)"
    by (auto simp: idx_clash_def ix_ids_def list_ex_iff split: option.splits)
  also have "\<dots> \<longleftrightarrow> (\<exists>i r'. live i = Some r' \<and> idx_cols_equal c ix r r')"
    using s borrow_live idx_cols_equal_hash by fastforce
  finally show ?thesis .
qed

text \<open>A probe returns each matching live row once, and nothing else.\<close>

lemma idx_probe_exact:
  assumes ix: "indexed c ix live" and col: "cols ix = [col]"
    and p: "idx_probe mem c borrow ix w kb = Probed xs"
  shows "distinct xs \<and>
    set xs = {i. \<exists>r. live i = Some r \<and> probe_eq (kinds c ! col) w kb (slots r ! col)}"
proof -
  let ?h = "idx_hash_key1 (kinds c ! col) w kb"
  let ?f = "\<lambda>i. case borrow i of None \<Rightarrow> False | Some r \<Rightarrow> probe_eq (kinds c ! col) w kb (slots r ! col)"
  have h: "?h \<noteq> 0" by (simp add: idx_hash_key1_def Let_def)
  have s: "distinct (ix_ids ix ?h)" "set (ix_ids ix ?h) = {i. \<exists>r. live i = Some r \<and> idx_hash c ix r = ?h}"
    using ix h by (auto simp: indexed_def)
  have xs: "xs = filter ?f (ix_ids ix ?h)"
    using p col by (auto simp: idx_probe_def ix_ids_def Let_def split: option.splits if_splits)
  have "i \<in> set xs \<longleftrightarrow> (\<exists>r. live i = Some r \<and> probe_eq (kinds c ! col) w kb (slots r ! col))" for i
    unfolding xs using s(2) borrow_live probe_eq_hash [OF col] by fastforce
  then show ?thesis using s(1) xs by auto
qed

end

section \<open>All indexes of a table\<close>

definition all_indexed :: "wo_classdesc \<Rightarrow> db_index list \<Rightarrow> (u64 \<Rightarrow> db_row option) \<Rightarrow> bool" where
  "all_indexed c ixs live \<longleftrightarrow> (\<forall>ix\<in>set ixs. indexed c ix live)"

definition all_unique :: "wo_classdesc \<Rightarrow> db_index list \<Rightarrow> (u64 \<Rightarrow> db_row option) \<Rightarrow> bool" where
  "all_unique c ixs live \<longleftrightarrow> (\<forall>ix\<in>set ixs. unique_in c ix live)"

definition ix_meta :: "db_index list \<Rightarrow> (u32 \<times> nat list) list" where
  "ix_meta ixs = map (\<lambda>ix. (ix_flags ix, cols ix)) ixs"

lemma unique_in_cong:
  "cols ix = cols ix' \<Longrightarrow> ix_flags ix = ix_flags ix' \<Longrightarrow> unique_in c ix live = unique_in c ix' live"
  by (simp add: unique_in_def idx_cols_equal_def)

lemma all_unique_meta: "ix_meta ixs = ix_meta ixs' \<Longrightarrow> all_unique c ixs live \<Longrightarrow> all_unique c ixs' live"
proof -
  assume m: "ix_meta ixs = ix_meta ixs'" and u: "all_unique c ixs live"
  show ?thesis
    unfolding all_unique_def
  proof
    fix ix' assume "ix' \<in> set ixs'"
    then have "(ix_flags ix', cols ix') \<in> set (ix_meta ixs)" unfolding m by (auto simp: ix_meta_def)
    then obtain ix where ix: "ix \<in> set ixs" "ix_flags ix = ix_flags ix'" "cols ix = cols ix'"
      unfolding ix_meta_def by force
    then have "unique_in c ix live" using u by (simp add: all_unique_def)
    then show "unique_in c ix' live" using unique_in_cong [OF ix(3,2)] by simp
  qed
qed

lemma idx_add_all_ok:
  assumes "all_indexed c ixs live" and "live (row_id r) = None"
    and "idx_add_all mem x c ixs r = (ixs', True)"
  shows "all_indexed c ixs' (live(row_id r \<mapsto> r)) \<and> ix_meta ixs' = ix_meta ixs"
  using assms
proof (induction ixs arbitrary: x ixs')
  case Nil
  then show ?case by (simp add: all_indexed_def)
next
  case (Cons ix ixs)
  obtain ix1 ok where one: "idx_add_one mem x c ix r = (ix1, ok)" by fastforce
  with Cons.prems(3) have ok: "ok" by (cases ok) auto
  obtain rest where rest: "idx_add_all mem (x + 1) c ixs r = (rest, True)" "ixs' = ix1 # rest"
    using Cons.prems(3) one ok by (auto split: prod.splits)
  have i: "indexed c ix live" using Cons.prems(1) by (simp add: all_indexed_def)
  have "indexed c ix1 (live(row_id r \<mapsto> r))"
    using indexed_add [OF i Cons.prems(2) one] ok by simp
  moreover have "bucket_inv ix" using i by (simp add: indexed_def)
  moreover note idx_add_one_ids [OF this one]
  moreover have "all_indexed c rest (live(row_id r \<mapsto> r)) \<and> ix_meta rest = ix_meta ixs"
    using Cons.prems rest by (intro Cons.IH) (auto simp: all_indexed_def)
  ultimately show ?case using rest by (simp add: all_indexed_def ix_meta_def del: fun_upd_apply)
qed

lemma idx_add_all_total:
  assumes "\<forall>s. mem s" and "all_indexed c ixs live"
  shows "snd (idx_add_all mem x c ixs r)"
  using assms(2)
proof (induction ixs arbitrary: x)
  case (Cons ix ixs)
  obtain ix1 ok where one: "idx_add_one mem x c ix r = (ix1, ok)" by fastforce
  have "bucket_inv ix" using Cons.prems by (simp add: all_indexed_def indexed_def)
  then have "ok" using idx_add_one_total [of ix mem x c r] assms(1) one by simp
  moreover have "snd (idx_add_all mem (x + 1) c ixs r)"
    using Cons.prems by (intro Cons.IH) (simp add: all_indexed_def)
  ultimately show ?case using one by (auto split: prod.splits)
qed simp

lemma idx_remove_row_ok:
  assumes "all_indexed c ixs live" and "live (row_id r) = Some r"
  shows "all_indexed c (idx_remove_row c ixs r) (live(row_id r := None))"
    and "ix_meta (idx_remove_row c ixs r) = ix_meta ixs"
  using assms indexed_remove
  by (auto simp: all_indexed_def idx_remove_row_def ix_meta_def idx_remove_one_def split: option.splits)

lemma unique_remove: "all_unique c ixs live \<Longrightarrow> all_unique c ixs (live(i := None))"
  unfolding all_unique_def unique_in_def by (metis fun_upd_apply option.distinct(1))

lemma unique_add:
  assumes "all_unique c ixs live" and "live (row_id r) = None"
    and "\<And>ix i r'. ix \<in> set ixs \<Longrightarrow> ix_unique ix \<Longrightarrow> live i = Some r' \<Longrightarrow> \<not> idx_cols_equal c ix r r'"
  shows "all_unique c ixs (live(row_id r \<mapsto> r))"
  unfolding all_unique_def unique_in_def
proof (intro ballI impI allI)
  fix ix i j q q'
  assume ix: "ix \<in> set ixs" "ix_unique ix" and q: "(live(row_id r \<mapsto> r)) i = Some q"
    "(live(row_id r \<mapsto> r)) j = Some q'" "i \<noteq> j"
  show "\<not> idx_cols_equal c ix q q'"
    using assms ix q idx_cols_equal_sym unfolding all_unique_def unique_in_def
    by (metis fun_upd_other fun_upd_same option.inject)
qed

context row_source
begin

lemma idx_add_row_ok:
  assumes ix: "all_indexed c ixs live" and u: "all_unique c ixs live" and new: "live (row_id r) = None"
    and add: "idx_add_row mem c borrow ixs r = (ixs', DB_ERR_NONE)"
  shows "all_indexed c ixs' (live(row_id r \<mapsto> r)) \<and> all_unique c ixs' (live(row_id r \<mapsto> r)) \<and>
    ix_meta ixs' = ix_meta ixs"
proof -
  have nc: "\<not> idx_clash c borrow jx r" if "jx \<in> set ixs" "ix_unique jx" for jx
    using add that by (auto simp: idx_add_row_def list_ex_iff split: if_splits)
  have all: "idx_add_all mem 0 c ixs r = (ixs', True)"
    using add by (auto simp: idx_add_row_def split: if_splits prod.splits)
  note a = idx_add_all_ok [OF ix new all]
  have "all_unique c ixs (live(row_id r \<mapsto> r))"
  proof (rule unique_add [OF u new])
    fix jx i r' assume jx: "jx \<in> set ixs" "ix_unique jx" and l: "live i = Some r'"
    have "indexed c jx live" using ix jx by (simp add: all_indexed_def)
    from idx_clash_iff [OF this, of r] nc [OF jx] l show "\<not> idx_cols_equal c jx r r'" by blast
  qed
  with a all_unique_meta [of ixs ixs'] show ?thesis by simp
qed

lemma idx_add_row_unique:
  assumes ix: "all_indexed c ixs live"
  shows "snd (idx_add_row mem c borrow ixs r) = DB_ERR_UNIQUE \<longleftrightarrow>
    (\<exists>jx\<in>set ixs. ix_unique jx \<and> (\<exists>i r'. live i = Some r' \<and> idx_cols_equal c jx r r'))"
  using ix idx_clash_iff
  by (auto simp: idx_add_row_def list_ex_iff all_indexed_def split: prod.splits)

end

lemma idx_add_row_unchanged:
  "idx_add_row mem c borrow ixs r = (ixs', DB_ERR_UNIQUE) \<Longrightarrow> ixs' = ixs"
  by (auto simp: idx_add_row_def split: if_splits prod.splits)

lemma idx_add_row_total:
  "\<forall>s. mem s \<Longrightarrow> all_indexed c ixs live \<Longrightarrow> snd (idx_add_row mem c borrow ixs r) \<noteq> DB_ERR_OOM"
  using idx_add_all_total [of mem c ixs live 0 r]
  by (auto simp: idx_add_row_def split: prod.splits)

end
