(* ===== verification/Crc.thy ===== *)
theory Crc
  imports Prelude
begin

text \<open>
  The CRC-32 of the write-ahead log (\<open>database/src/wal.c\<close>, polynomial \<open>0xEDB88320\<close>): the table
  that \<open>crc32_init\<close> fills, and the byte loop of \<open>crc32\<close>. Shown: the checksum tells apart any two
  payloads of the same length that differ in one byte.
\<close>

fun crc_shift :: "nat \<Rightarrow> u32 \<Rightarrow> u32" where
  "crc_shift 0 c = c"
| "crc_shift (Suc k) c =
     crc_shift k (if c AND 1 = 1 then 0xEDB88320 XOR drop_bit 1 c else drop_bit 1 c)"

definition crc32_init :: "u32 list" where
  "crc32_init = map (\<lambda>i. crc_shift 8 (of_nat i)) [0..<256]"

definition crc_step :: "u32 \<Rightarrow> u8 \<Rightarrow> u32" where
  "crc_step c p = (crc32_init ! unat ((c XOR ucast p) AND 0xFF)) XOR drop_bit 8 c"

definition crc32 :: "bytes \<Rightarrow> u32" where
  "crc32 buf = foldl crc_step 0xFFFFFFFF buf XOR 0xFFFFFFFF"

section \<open>The table computes the bitwise division\<close>

text \<open>One step of the polynomial division, the body of the inner loop of \<open>crc32_init\<close>.\<close>

definition crc_poly_step :: "u32 \<Rightarrow> u32" where
  "crc_poly_step c = (if c AND 1 = 1 then 0xEDB88320 XOR drop_bit 1 c else drop_bit 1 c)"

lemma crc_shift_step: "crc_shift (Suc k) c = crc_shift k (crc_poly_step c)"
  by (simp add: crc_poly_step_def)

lemma crc_poly_step_alt:
  "crc_poly_step c = drop_bit 1 c XOR (if bit c 0 then 0xEDB88320 else 0)"
proof -
  have "(c AND 1 = 1) = bit c 0"
    by (simp add: and_one_eq bit_0 odd_iff_mod_2_eq_one)
  then show ?thesis by (simp add: crc_poly_step_def xor.commute)
qed

lemma crc_poly_step_xor: "crc_poly_step (a XOR b) = crc_poly_step a XOR crc_poly_step b"
  by (rule bit_word_eqI) (auto simp: crc_poly_step_alt bit_simps)

lemma crc_poly_step_inj: "crc_poly_step a = crc_poly_step b \<Longrightarrow> a = b"
proof -
  assume eq: "crc_poly_step a = crc_poly_step b"
  have top: "bit (crc_poly_step c) 31 = bit c 0" for c
    by (auto simp: crc_poly_step_alt bit_simps dest: bit_imp_le_length)
  have b0: "bit a 0 = bit b 0" using top [of a] top [of b] eq by simp
  have d: "drop_bit 1 a = drop_bit 1 b"
    using eq b0 xor_cancel_right [of "drop_bit 1 a" _ "drop_bit 1 b"]
    by (simp add: crc_poly_step_alt split: if_splits)
  show "a = b"
  proof (rule bit_word_eqI)
    fix n assume "n < LENGTH(32)"
    show "bit a n = bit b n"
    proof (cases n)
      case 0 with b0 show ?thesis by simp
    next
      case (Suc m)
      have "bit (drop_bit 1 a) m = bit (drop_bit 1 b) m" using d by simp
      with Suc show ?thesis by (simp add: bit_drop_bit_eq)
    qed
  qed
qed

lemma crc_shift_xor: "crc_shift k (a XOR b) = crc_shift k a XOR crc_shift k b"
  by (induction k arbitrary: a b) (simp_all only: crc_shift.simps(1) crc_shift_step crc_poly_step_xor)

lemma crc_shift_inj: "crc_shift k a = crc_shift k b \<Longrightarrow> a = b"
  by (induction k arbitrary: a b)
    (simp, metis crc_shift_step crc_poly_step_inj)

lemma crc_shift_low_zero: "take_bit k c = 0 \<Longrightarrow> crc_shift k c = drop_bit k c"
proof (induction k arbitrary: c)
  case (Suc k)
  have b0: "\<not> bit c 0"
    using Suc.prems by (metis bit_0_eq bit_take_bit_iff bot_apply bot_bool_def zero_less_Suc)
  have t: "take_bit k (drop_bit 1 c) = 0"
  proof (rule bit_word_eqI)
    fix n assume "n < LENGTH(32)"
    have "bit (take_bit (Suc k) c) (Suc n) = False" using Suc.prems by simp
    then show "bit (take_bit k (drop_bit 1 c)) n = bit 0 n"
      by (auto simp: bit_simps)
  qed
  have "crc_shift (Suc k) c = crc_shift k (drop_bit 1 c)"
    using b0 by (simp only: crc_shift_step crc_poly_step_alt) simp
  also have "\<dots> = drop_bit (Suc k) c"
    using Suc.IH [OF t] by (simp add: drop_bit_drop_bit)
  finally show ?case .
qed simp

lemma crc_step_bitwise: "crc_step c p = crc_shift 8 (c XOR ucast p)"
proof -
  define x where "x = c XOR ucast p"
  have hi: "take_bit 8 (x AND NOT 0xFF) = 0"
    unfolding ff_mask by (rule bit_word_eqI) (auto simp: bit_simps)
  have "unat (x AND 0xFF) < 256"
    by (simp add: unat_and_ff)
  then have tab: "crc32_init ! unat (x AND 0xFF) = crc_shift 8 (x AND 0xFF)"
    by (simp add: crc32_init_def del: crc_shift.simps)
  have dr: "drop_bit 8 (x AND NOT 0xFF) = drop_bit 8 c"
    unfolding x_def ff_mask
    by (rule bit_word_eqI) (auto simp: bit_simps dest: bit_imp_le_length)
  have "x = (x AND 0xFF) XOR (x AND NOT 0xFF)"
    unfolding ff_mask by (rule bit_word_eqI) (auto simp: bit_simps)
  then have "crc_shift 8 x = crc_shift 8 ((x AND 0xFF) XOR (x AND NOT 0xFF))"
    by simp
  also have "\<dots> = crc_shift 8 (x AND 0xFF) XOR drop_bit 8 (x AND NOT 0xFF)"
    by (simp only: crc_shift_xor crc_shift_low_zero [OF hi])
  finally show ?thesis
    using tab dr by (simp add: crc_step_def x_def [symmetric])
qed

section \<open>What the checksum detects\<close>

lemma crc_step_inj_state: "crc_step c p = crc_step c' p \<Longrightarrow> c = c'"
  by (metis crc_step_bitwise crc_shift_inj xor_cancel_right)

lemma crc_step_inj_byte: "crc_step c p = crc_step c p' \<Longrightarrow> p = p'"
proof -
  assume "crc_step c p = crc_step c p'"
  then have "(ucast p :: u32) = ucast p'"
    by (metis crc_step_bitwise crc_shift_inj xor_cancel_left)
  then have u: "(ucast p :: u32) = ucast p'" .
  have "p = ucast (ucast p :: u32)" by (simp add: ucast_up_ucast_id is_up)
  also have "\<dots> = p'" unfolding u by (simp add: ucast_up_ucast_id is_up)
  finally show "p = p'" .
qed

lemma crc_fold_inj: "foldl crc_step c bs = foldl crc_step c' bs \<Longrightarrow> c = c'"
  by (induction bs arbitrary: c c') (auto dest: crc_step_inj_state)

theorem crc32_detects_one_byte:
  assumes "p \<noteq> p'"
  shows "crc32 (xs @ p # ys) \<noteq> crc32 (xs @ p' # ys)"
proof
  assume "crc32 (xs @ p # ys) = crc32 (xs @ p' # ys)"
  then have "foldl crc_step 0xFFFFFFFF (xs @ p # ys) = foldl crc_step 0xFFFFFFFF (xs @ p' # ys)"
    unfolding crc32_def by (rule xor_cancel_right)
  then have "crc_step (foldl crc_step 0xFFFFFFFF xs) p = crc_step (foldl crc_step 0xFFFFFFFF xs) p'"
    by (auto dest: crc_fold_inj)
  then have "p = p'" by (rule crc_step_inj_byte)
  with assms show False ..
qed

end
