(* ===== verification/WalCodec.thy ===== *)
theory WalCodec
  imports Values Crc
begin

text \<open>
  The bytes of the write-ahead log (\<open>database/src/wal.c\<close>): the reader \<open>rbuf\<close>, the kind-driven
  encoding of a value (\<open>enc_val\<close>, \<open>dec_val\<close>), the frame of a record and \<open>scan_record\<close>. Shown:
  a well-formed value is read back from its encoding whatever follows it, the decoder never
  reads outside its input and its depth is bounded by the input's length, and a scan finds
  exactly the records that were framed, up to the first torn one.
\<close>

section \<open>The bounds-checked reader\<close>

text \<open>\<open>rbuf\<close> with its flag \<open>bad\<close> is a parser: after the flag is set every read fails.\<close>

definition rtake :: "nat \<Rightarrow> bytes parser" where
  "rtake n bs = (if length bs < n then None else Some (take n bs, drop n bs))"

fun rd_u8 :: "u8 parser" where
  "rd_u8 [] = None"
| "rd_u8 (b # bs) = Some (b, bs)"

definition rd_u32 :: "nat parser" where
  "rd_u32 bs = map_option (\<lambda>(x, r). (of_le x, r)) (rtake 4 bs)"

definition rd_u64 :: "u64 parser" where
  "rd_u64 bs = map_option (\<lambda>(x, r). (of_nat (of_le x), r)) (rtake 8 bs)"

definition wput_u8 :: "u8 \<Rightarrow> bytes" where "wput_u8 v = [v]"
definition wput_u32 :: "nat \<Rightarrow> bytes" where "wput_u32 v = le 4 v"
definition wput_u64 :: "u64 \<Rightarrow> bytes" where "wput_u64 v = le 8 (unat v)"

definition WAL_NIL_TEXT :: nat where "WAL_NIL_TEXT = 0xFFFFFFFF"

lemma length_wput [simp, len_simps]:
  "length (wput_u8 b) = 1" "length (wput_u32 n) = 4" "length (wput_u64 w) = 8"
  by (simp_all add: wput_u8_def wput_u32_def wput_u64_def)

lemma rd_u8_wput [simp, codec]: "rd_u8 (wput_u8 b @ rest) = Some (b, rest)"
  by (simp add: wput_u8_def)

lemma rd_u32_wput [simp, codec]: "n < 2 ^ 32 \<Longrightarrow> rd_u32 (wput_u32 n @ rest) = Some (n, rest)"
  by (simp add: rd_u32_def rtake_def wput_u32_def of_le_le_id)

lemma rd_u64_wput [simp, codec]: "rd_u64 (wput_u64 w @ rest) = Some (w, rest)"
proof -
  have "unat w < 256 ^ 8" using unsigned_less [of w] by simp
  then show ?thesis by (simp add: rd_u64_def rtake_def wput_u64_def of_le_le_id)
qed

lemma rd_u32_bound: "rd_u32 bs = Some (n, r) \<Longrightarrow> n < 2 ^ 32"
  using of_le_bound [of "take 4 bs"] by (auto simp: rd_u32_def rtake_def split: if_splits)

text \<open>A parser that does not give back more than it was given.\<close>

definition shrinks :: "'a parser \<Rightarrow> bool" where
  "shrinks p \<longleftrightarrow> (\<forall>bs v r. p bs = Some (v, r) \<longrightarrow> length r \<le> length bs)"

lemma shrinksD: "shrinks p \<Longrightarrow> p bs = Some (v, r) \<Longrightarrow> length r \<le> length bs"
  by (auto simp: shrinks_def)

lemma rd_u8_less: "rd_u8 bs = Some (v, r) \<Longrightarrow> length bs = Suc (length r)"
  by (cases bs) auto

lemma rd_u32_less: "rd_u32 bs = Some (v, r) \<Longrightarrow> length bs = 4 + length r"
  by (auto simp: rd_u32_def rtake_def split: if_splits)

lemma rd_u64_less: "rd_u64 bs = Some (v, r) \<Longrightarrow> length bs = 8 + length r"
  by (auto simp: rd_u64_def rtake_def split: if_splits)

lemmas rd_less = rd_u8_less rd_u32_less rd_u64_less

section \<open>A value as bytes\<close>

text \<open>
  \<open>enc_vals\<close> writes a sequence of values of given kinds: the fields of a record, the items of a
  \<open>multi\<close>, the pairs of a \<open>map\<close>. A value whose shape is not that of its kind would be a misread
  pointer; nothing is written for it, and the invariant of the store rules it out.
\<close>

function (sequential) enc_val :: "classes \<Rightarrow> kind \<Rightarrow> dbval \<Rightarrow> bytes"
and enc_vals :: "classes \<Rightarrow> kind list \<Rightarrow> dbval list \<Rightarrow> bytes" where
  "enc_val cs k (DWord w) = (if k = KScalar \<or> k = KFloat then wput_u64 w else [])"
| "enc_val cs k DNil =
     (if k = KText \<or> k = KBytes then wput_u32 WAL_NIL_TEXT
      else if k = KOwned \<or> k = KMulti \<or> k = KMap then wput_u8 0 else [])"
| "enc_val cs k (DText bs) =
     (if k = KText \<or> k = KBytes then wput_u32 (length bs) @ bs else [])"
| "enc_val cs k (DRec cid vs) =
     (if k = KOwned then wput_u8 1 @ wput_u32 cid @ enc_vals cs (kinds (cs ! cid)) vs else [])"
| "enc_val cs k (DMulti ek vs) =
     (if k = KMulti
      then wput_u8 1 @ wput_u8 (kind_byte ek) @ wput_u32 (length vs) @
           enc_vals cs (replicate (length vs) ek) vs
      else [])"
| "enc_val cs k (DMap kk vk kvs) =
     (if k = KMap
      then wput_u8 1 @ wput_u8 (kind_byte kk) @ wput_u8 (kind_byte vk) @
           wput_u32 (length kvs div 2) @ enc_vals cs (alternate (length kvs div 2) kk vk) kvs
      else [])"
| "enc_vals cs (k # ks) (v # vs) = enc_val cs k v @ enc_vals cs ks vs"
| "enc_vals cs ks vs = []"
  by pat_completeness auto

termination
  by (relation "measure (\<lambda>x. case x of
        Inl (_, _, v) \<Rightarrow> size v | Inr (_, _, vs) \<Rightarrow> size_list size vs)") auto

text \<open>
  The decoder recurses on nested values; \<open>n\<close> bounds the depth of that recursion. Each level reads
  at least one byte, so the length of the input is always enough (\<open>dec_fuel_enough\<close>), and
  \<open>dec_val\<close> below is the function without a bound.
\<close>

fun dec_val_n :: "nat \<Rightarrow> mem \<Rightarrow> classes \<Rightarrow> kind \<Rightarrow> dbval parser" where
  "dec_val_n 0 mem cs k bs = None"
| "dec_val_n (Suc n) mem cs k bs =
     (case k of
        KGcref \<Rightarrow> None
      | KScalar \<Rightarrow> do { (w, r) \<leftarrow> rd_u64 bs; Some (DWord w, r) }
      | KFloat \<Rightarrow> do { (w, r) \<leftarrow> rd_u64 bs; Some (DWord w, r) }
      | KOwned \<Rightarrow> do {
          (tag, r) \<leftarrow> rd_u8 bs;
          if tag = 0 then Some (DNil, r)
          else do {
            (cid, r) \<leftarrow> rd_u32 r;
            if length cs \<le> cid \<or> \<not> mem ADec then None
            else do {
              (vs, r) \<leftarrow> map_parse (dec_val_n n mem cs) (kinds (cs ! cid)) r;
              Some (DRec cid vs, r) } } }
      | KMulti \<Rightarrow> do {
          (tag, r) \<leftarrow> rd_u8 bs;
          if tag = 0 then Some (DNil, r)
          else do {
            (eb, r) \<leftarrow> rd_u8 r;
            (len, r) \<leftarrow> rd_u32 r;
            ek \<leftarrow> kind_of_byte eb;
            if length r < len \<or> \<not> mem ADec then None
            else do {
              (vs, r) \<leftarrow> map_parse (dec_val_n n mem cs) (replicate len ek) r;
              Some (DMulti ek vs, r) } } }
      | KMap \<Rightarrow> do {
          (tag, r) \<leftarrow> rd_u8 bs;
          if tag = 0 then Some (DNil, r)
          else do {
            (kb, r) \<leftarrow> rd_u8 r;
            (vb, r) \<leftarrow> rd_u8 r;
            (len, r) \<leftarrow> rd_u32 r;
            kk \<leftarrow> kind_of_byte kb;
            vk \<leftarrow> kind_of_byte vb;
            if length r < len \<or> \<not> mem ADec then None
            else do {
              (kvs, r) \<leftarrow> map_parse (dec_val_n n mem cs) (alternate len kk vk) r;
              Some (DMap kk vk kvs, r) } } }
      | _ \<Rightarrow> do {
          (len, r) \<leftarrow> rd_u32 bs;
          if len = WAL_NIL_TEXT then Some (DNil, r)
          else if length r < len \<or> \<not> mem ADec then None
          else Some (DText (take len r), drop len r) })"

definition dec_val :: "mem \<Rightarrow> classes \<Rightarrow> kind \<Rightarrow> dbval parser" where
  "dec_val mem cs k bs = dec_val_n (Suc (length bs)) mem cs k bs"

section \<open>The depth bound is enough\<close>

lemma map_parse_shrinks:
  assumes "\<And>k. k \<in> set ks \<Longrightarrow> shrinks (f k)"
  shows "shrinks (map_parse f ks)"
  using assms
proof (induction ks)
  case (Cons k ks)
  have k: "shrinks (f k)" and ks: "shrinks (map_parse f ks)" using Cons by auto
  show ?case unfolding shrinks_def
  proof (intro allI impI)
    fix bs v r assume "map_parse f (k # ks) bs = Some (v, r)"
    then obtain x b1 xs where "f k bs = Some (x, b1)" "map_parse f ks b1 = Some (xs, r)"
      by (auto split: option.splits)
    with k ks show "length r \<le> length bs" by (meson shrinksD order_trans)
  qed
qed (simp add: shrinks_def)

lemma dec_val_n_shrinks: "shrinks (dec_val_n n mem cs k)"
proof (induction n arbitrary: k)
  case 0
  then show ?case by (simp add: shrinks_def)
next
  case (Suc n)
  have mp: "shrinks (map_parse (dec_val_n n mem cs) ks)" for ks
    using Suc by (intro map_parse_shrinks)
  show ?case unfolding shrinks_def
    by (auto simp: bind_eq_Some_conv split: kind.splits if_splits
        dest!: rd_less shrinksD [OF mp])
qed

lemma map_parse_agree:
  assumes "\<And>k b. k \<in> set ks \<Longrightarrow> length b \<le> length bs \<Longrightarrow> f k b = g k b"
    and "\<And>k. k \<in> set ks \<Longrightarrow> shrinks (g k)"
  shows "map_parse f ks bs = map_parse g ks bs"
  using assms
proof (induction ks arbitrary: bs)
  case (Cons k ks)
  have k: "f k bs = g k bs" using Cons.prems(1) by simp
  show ?case
  proof (cases "g k bs")
    case None
    with k show ?thesis by simp
  next
    case (Some p)
    obtain x b1 where p: "p = (x, b1)" by (cases p)
    have "shrinks (g k)" using Cons.prems(2) by simp
    then have "length b1 \<le> length bs" using Some p shrinksD by metis
    then have "map_parse f ks b1 = map_parse g ks b1"
      using Cons.prems by (intro Cons.IH) auto
    with k Some p show ?thesis by simp
  qed
qed simp

lemma dec_fuel_enough:
  "length bs < n \<Longrightarrow> length bs < m \<Longrightarrow> dec_val_n n mem cs k bs = dec_val_n m mem cs k bs"
proof (induction n arbitrary: m k bs)
  case (Suc n)
  obtain m' where m: "m = Suc m'" using Suc.prems(2) by (cases m) auto
  have mp: "map_parse (dec_val_n n mem cs) ks r = map_parse (dec_val_n m' mem cs) ks r"
    if "length r < length bs" for ks r
  proof (rule map_parse_agree)
    fix k and b :: bytes assume "length b \<le> length r"
    with that Suc.prems m show "dec_val_n n mem cs k b = dec_val_n m' mem cs k b"
      by (intro Suc.IH) auto
  qed (rule dec_val_n_shrinks)
  show ?case
    unfolding m
    by (cases k) (auto simp: mp dest!: rd_less intro!: Option.bind_cong split: prod.splits)
qed simp

lemma dec_val_eq: "length bs < n \<Longrightarrow> dec_val_n n mem cs k bs = dec_val mem cs k bs"
  by (simp add: dec_val_def del: dec_val_n.simps) (rule dec_fuel_enough; simp)

lemma dec_val_shrinks: "shrinks (dec_val mem cs k)"
  using dec_val_n_shrinks by (auto simp: shrinks_def dec_val_def simp del: dec_val_n.simps)

lemma map_parse_dec_val:
  "length bs < n \<Longrightarrow> map_parse (dec_val_n n mem cs) ks bs = map_parse (dec_val mem cs) ks bs"
  by (rule map_parse_agree) (auto simp: dec_val_eq dec_val_shrinks)

text \<open>The recursion of the source, with no bound.\<close>

lemma dec_val_scalar:
  "dec_val mem cs KScalar bs = do { (w, r) \<leftarrow> rd_u64 bs; Some (DWord w, r) }"
  "dec_val mem cs KFloat bs = do { (w, r) \<leftarrow> rd_u64 bs; Some (DWord w, r) }"
  by (simp_all add: dec_val_def)

lemma dec_val_text:
  "k = KText \<or> k = KBytes \<Longrightarrow> dec_val mem cs k bs =
     do { (len, r) \<leftarrow> rd_u32 bs;
          if len = WAL_NIL_TEXT then Some (DNil, r)
          else if length r < len \<or> \<not> mem ADec then None
          else Some (DText (take len r), drop len r) }"
  by (auto simp: dec_val_def)

lemma dec_val_gcref: "dec_val mem cs KGcref bs = None"
  by (simp add: dec_val_def)

lemma dec_val_owned:
  "dec_val mem cs KOwned bs =
     do { (tag, r) \<leftarrow> rd_u8 bs;
          if tag = 0 then Some (DNil, r)
          else do {
            (cid, r) \<leftarrow> rd_u32 r;
            if length cs \<le> cid \<or> \<not> mem ADec then None
            else do {
              (vs, r) \<leftarrow> map_parse (dec_val mem cs) (kinds (cs ! cid)) r;
              Some (DRec cid vs, r) } } }"
  unfolding dec_val_def [of mem cs KOwned]
  by (auto simp: map_parse_dec_val dest!: rd_less intro!: Option.bind_cong split: prod.splits)

lemma dec_val_multi:
  "dec_val mem cs KMulti bs =
     do { (tag, r) \<leftarrow> rd_u8 bs;
          if tag = 0 then Some (DNil, r)
          else do {
            (eb, r) \<leftarrow> rd_u8 r;
            (len, r) \<leftarrow> rd_u32 r;
            ek \<leftarrow> kind_of_byte eb;
            if length r < len \<or> \<not> mem ADec then None
            else do {
              (vs, r) \<leftarrow> map_parse (dec_val mem cs) (replicate len ek) r;
              Some (DMulti ek vs, r) } } }"
  unfolding dec_val_def [of mem cs KMulti]
  by (auto simp: map_parse_dec_val dest!: rd_less intro!: Option.bind_cong split: prod.splits)

lemma dec_val_map:
  "dec_val mem cs KMap bs =
     do { (tag, r) \<leftarrow> rd_u8 bs;
          if tag = 0 then Some (DNil, r)
          else do {
            (kb, r) \<leftarrow> rd_u8 r;
            (vb, r) \<leftarrow> rd_u8 r;
            (len, r) \<leftarrow> rd_u32 r;
            kk \<leftarrow> kind_of_byte kb;
            vk \<leftarrow> kind_of_byte vb;
            if length r < len \<or> \<not> mem ADec then None
            else do {
              (kvs, r) \<leftarrow> map_parse (dec_val mem cs) (alternate len kk vk) r;
              Some (DMap kk vk kvs, r) } } }"
  unfolding dec_val_def [of mem cs KMap]
  by (auto simp: map_parse_dec_val dest!: rd_less intro!: Option.bind_cong split: prod.splits)

lemmas dec_val_rec = dec_val_scalar dec_val_text dec_val_gcref dec_val_owned dec_val_multi dec_val_map

section \<open>Reading back what was written\<close>

lemma enc_nonempty_aux:
  "val_ok cs k v \<longrightarrow> 1 \<le> length (enc_val cs k v)"
  "vals_ok cs ks vs \<longrightarrow> length ks \<le> length (enc_vals cs ks vs)"
proof (induction cs k v and cs ks vs rule: enc_val_enc_vals.induct)
  case (7 cs k ks v vs)
  then show ?case by auto
qed (auto dest: vals_ok_length)

lemma dec_enc_aux:
  assumes mem: "mem ADec"
  shows "val_ok cs k v \<longrightarrow> (\<forall>rest. dec_val mem cs k (enc_val cs k v @ rest) = Some (v, rest))"
    and "vals_ok cs ks vs \<longrightarrow>
      (\<forall>rest. map_parse (dec_val mem cs) ks (enc_vals cs ks vs @ rest) = Some (vs, rest))"
proof (induction cs k v and cs ks vs rule: enc_val_enc_vals.induct)
  case (1 cs k w)
  then show ?case by (auto simp: dec_val_scalar)
next
  case (2 cs k)
  then show ?case by (auto simp: dec_val_rec WAL_NIL_TEXT_def)
next
  case (3 cs k bs)
  then show ?case using mem by (auto simp: dec_val_text WAL_NIL_TEXT_def)
next
  case (4 cs k cid vs)
  then show ?case using mem by (auto simp: dec_val_owned)
next
  case (5 cs k ek vs)
  show ?case
  proof (intro impI allI)
    fix rest assume ok: "val_ok cs k (DMulti ek vs)"
    then have "length vs \<le> length (enc_vals cs (replicate (length vs) ek) vs)"
      using enc_nonempty_aux(2) [of cs "replicate (length vs) ek" vs] by simp
    with ok 5 mem show "dec_val mem cs k (enc_val cs k (DMulti ek vs) @ rest) = Some (DMulti ek vs, rest)"
      by (auto simp: dec_val_multi)
  qed
next
  case (6 cs k kk vk kvs)
  show ?case
  proof (intro impI allI)
    fix rest assume ok: "val_ok cs k (DMap kk vk kvs)"
    then have "length (alternate (length kvs div 2) kk vk)
        \<le> length (enc_vals cs (alternate (length kvs div 2) kk vk) kvs)"
      using enc_nonempty_aux(2) [of cs "alternate (length kvs div 2) kk vk" kvs] by simp
    then have "length kvs div 2 \<le> length (enc_vals cs (alternate (length kvs div 2) kk vk) kvs)"
      by simp
    with ok 6 mem show "dec_val mem cs k (enc_val cs k (DMap kk vk kvs) @ rest) = Some (DMap kk vk kvs, rest)"
      by (auto simp: dec_val_map)
  qed
qed (auto dest: vals_ok_length)

lemma dec_enc_val [codec]:
  "mem ADec \<Longrightarrow> val_ok cs k v \<Longrightarrow> dec_val mem cs k (enc_val cs k v @ rest) = Some (v, rest)"
  using dec_enc_aux(1) by blast

lemma dec_enc_vals [codec]:
  "mem ADec \<Longrightarrow> vals_ok cs ks vs \<Longrightarrow>
     map_parse (dec_val mem cs) ks (enc_vals cs ks vs @ rest) = Some (vs, rest)"
  using dec_enc_aux(2) by blast

section \<open>Whatever is decoded is well formed\<close>

lemma map_parse_vals_ok:
  assumes "map_parse f ks bs = Some (vs, r)"
    and "\<And>k b v r'. k \<in> set ks \<Longrightarrow> f k b = Some (v, r') \<Longrightarrow> val_ok cs k v"
  shows "vals_ok cs ks vs"
  using assms
proof (induction ks arbitrary: bs vs)
  case (Cons k ks)
  obtain v b1 vs' where v: "f k bs = Some (v, b1)" and vs: "map_parse f ks b1 = Some (vs', r)"
    and eq: "vs = v # vs'"
    using Cons.prems(1) by (auto split: option.splits)
  have "val_ok cs k v" using v by (rule Cons.prems(2) [rotated]) simp
  moreover have "vals_ok cs ks vs'"
    using vs by (rule Cons.IH) (rule Cons.prems(2), auto)
  ultimately show ?case using eq by simp
qed simp

lemma dec_val_n_ok: "dec_val_n n mem cs k bs = Some (v, r) \<Longrightarrow> val_ok cs k v"
proof (induction n arbitrary: k bs v r)
  case (Suc n)
  have mp: "vals_ok cs ks vs \<and> length vs = length ks"
    if "map_parse (dec_val_n n mem cs) ks b = Some (vs, r')" for ks b vs r'
  proof -
    have "vals_ok cs ks vs" using that by (rule map_parse_vals_ok) (rule Suc.IH)
    then show ?thesis using vals_ok_length by blast
  qed
  show ?case
  proof (cases k)
    case KScalar
    then show ?thesis using Suc.prems by (auto simp: bind_eq_Some_conv)
  next
    case KFloat
    then show ?thesis using Suc.prems by (auto simp: bind_eq_Some_conv)
  next
    case KGcref
    then show ?thesis using Suc.prems by simp
  next
    case KText
    then show ?thesis using Suc.prems
      by (auto simp: bind_eq_Some_conv WAL_NIL_TEXT_def split: if_splits dest!: rd_u32_bound)
  next
    case KBytes
    then show ?thesis using Suc.prems
      by (auto simp: bind_eq_Some_conv WAL_NIL_TEXT_def split: if_splits dest!: rd_u32_bound)
  next
    case KOwned
    then show ?thesis using Suc.prems
      by (auto simp: bind_eq_Some_conv split: if_splits dest!: rd_u32_bound mp)
  next
    case KMulti
    then show ?thesis using Suc.prems
      by (auto simp: bind_eq_Some_conv split: if_splits dest!: rd_u32_bound mp)
  next
    case KMap
    then show ?thesis using Suc.prems
      by (auto simp: bind_eq_Some_conv split: if_splits dest!: rd_u32_bound mp)
  qed
qed simp

lemma dec_val_ok: "dec_val mem cs k bs = Some (v, r) \<Longrightarrow> val_ok cs k v"
  unfolding dec_val_def by (rule dec_val_n_ok)

lemma dec_vals_ok:
  "map_parse (dec_val mem cs) ks bs = Some (vs, r) \<Longrightarrow> vals_ok cs ks vs"
  by (rule map_parse_vals_ok) (auto dest: dec_val_ok)

section \<open>Records in the file\<close>

text \<open>
  \<open>len u32 | crc u32 | payload | mark u32\<close>; the mark comes last, so a record without it is torn.
  A file is its bytes; a \<open>pread\<close> past the end is short. Offsets are 64-bit in the code and
  natural numbers here: no file reaches \<open>2^63\<close> bytes, the range of \<open>off_t\<close>.
\<close>

definition WO_WAL_MARK :: nat where "WO_WAL_MARK = 0x574F4C31"

definition WAL_MAX_PAYLOAD :: nat where "WAL_MAX_PAYLOAD = 64 * 2 ^ 20"

definition frame :: "bytes \<Rightarrow> bytes" where
  "frame payload =
     wput_u32 (length payload) @ wput_u32 (unat (crc32 payload)) @ payload @ wput_u32 WO_WAL_MARK"

definition pread :: "bytes \<Rightarrow> nat \<Rightarrow> nat \<Rightarrow> bytes" where
  "pread f n off = take n (drop off f)"

definition scan_record :: "mem \<Rightarrow> bytes \<Rightarrow> nat \<Rightarrow> bytes option" where
  "scan_record mem f off =
     (let hdr = pread f 8 off in
      if length hdr \<noteq> 8 then None
      else
        let len = of_le (take 4 hdr); crc = of_le (drop 4 hdr) in
        if len = 0 \<or> WAL_MAX_PAYLOAD < len then None
        else if \<not> mem AScan then None
        else
          let p = pread f (len + 4) (off + 8) in
          if length p \<noteq> len + 4 then None
          else if of_le (drop len p) \<noteq> WO_WAL_MARK \<or> unat (crc32 (take len p)) \<noteq> crc then None
          else Some (take len p))"

text \<open>The same frame read from the staged bytes \<open>buf\<close>, which will land at offset \<open>woff\<close>.\<close>

definition scan_record_staged :: "mem \<Rightarrow> nat \<Rightarrow> bytes \<Rightarrow> nat \<Rightarrow> bytes option" where
  "scan_record_staged mem woff buf off =
     (if off < woff then None
      else
        let rel = off - woff in
        if length buf < rel + 8 then None
        else
          let len = of_le (take 4 (drop rel buf)); crc = of_le (take 4 (drop (rel + 4) buf)) in
          if len = 0 \<or> WAL_MAX_PAYLOAD < len then None
          else if length buf < rel + 8 + len + 4 then None
          else
            let p = take len (drop (rel + 8) buf) in
            if of_le (take 4 (drop (rel + 8 + len) buf)) \<noteq> WO_WAL_MARK \<or> unat (crc32 p) \<noteq> crc
            then None
            else if \<not> mem AScan then None
            else Some p)"

lemma length_frame [simp, len_simps]: "length (frame p) = length p + 12"
  by (simp add: frame_def)

lemma scan_record_length:
  "scan_record mem f off = Some p \<Longrightarrow> off + length p + 12 \<le> length f \<and> 0 < length p"
  by (auto simp: scan_record_def Let_def pread_def split: if_splits)

lemma scan_record_shift: "scan_record mem (xs @ f) (length xs + off) = scan_record mem f off"
  by (simp add: scan_record_def Let_def pread_def)

lemma unat_crc: "unat (crc32 p) < 2 ^ 32"
  using unsigned_less [of "crc32 p"] by simp

lemma scan_record_frame [codec]:
  assumes "0 < length p" and "length p \<le> WAL_MAX_PAYLOAD" and "mem AScan"
  shows "scan_record mem (frame p @ rest) 0 = Some p"
proof -
  have len: "length p < 2 ^ 32" using assms(2) by (simp add: WAL_MAX_PAYLOAD_def)
  have "of_le (le 4 (length p)) = length p" using len by (simp add: of_le_le_id)
  moreover have "of_le (le 4 (unat (crc32 p))) = unat (crc32 p)"
    using unat_crc [of p] by (simp add: of_le_le_id)
  moreover have "of_le (le 4 WO_WAL_MARK) = WO_WAL_MARK"
    by (simp add: of_le_le_id WO_WAL_MARK_def)
  ultimately show ?thesis using assms
    by (simp add: scan_record_def Let_def pread_def frame_def wput_u32_def)
qed

text \<open>The staged reader and the file reader agree: what is staged at the tail of the file is read
  the same before and after the write.\<close>

lemma scan_record_unfold:
  "scan_record mem f 0 =
     (let len = of_le (take 4 f); crc = of_le (take 4 (drop 4 f)); p = take len (drop 8 f) in
      if length f < 8 \<or> len = 0 \<or> WAL_MAX_PAYLOAD < len \<or> length f < 8 + len + 4 \<or>
         of_le (take 4 (drop (8 + len) f)) \<noteq> WO_WAL_MARK \<or> unat (crc32 p) \<noteq> crc \<or> \<not> mem AScan
      then None else Some p)"
proof (cases "length f < 8")
  case False
  have "take 4 (take 8 f) = take 4 f" by simp
  moreover have "drop 4 (take 8 f) = take 4 (drop 4 f)" by (simp add: drop_take)
  moreover have "drop n (take (n + 4) (drop 8 f)) = take 4 (drop (8 + n) f)" for n
    by (simp add: drop_take add.commute)
  moreover have "take n (take (n + 4) (drop 8 f)) = take n (drop 8 f)" for n by simp
  moreover have "length (take (n + 4) (drop 8 f)) \<noteq> n + 4 \<longleftrightarrow> length f < 8 + n + 4" for n
    using False by auto
  ultimately show ?thesis using False
    by (simp only: scan_record_def pread_def Let_def drop_0 add_0) (simp add: min_def)
qed (simp add: scan_record_def pread_def)

lemma scan_staged_eq_scan:
  "scan_record_staged mem (length f) buf (length f + rel) = scan_record mem (f @ buf) (length f + rel)"
proof -
  have "scan_record mem (f @ buf) (length f + rel) = scan_record mem buf rel"
    by (rule scan_record_shift)
  also have "\<dots> = scan_record mem (drop rel buf) 0"
    by (simp add: scan_record_def pread_def Let_def add.commute)
  finally have e: "scan_record mem (f @ buf) (length f + rel) = scan_record mem (drop rel buf) 0" .
  have d: "drop n (drop rel buf) = drop (rel + n) buf" for n by (simp add: add.commute)
  define len where "len = of_le (take 4 (drop rel buf))"
  define crc where "crc = of_le (take 4 (drop (rel + 4) buf))"
  define p where "p = take len (drop (rel + 8) buf)"
  define mk where "mk = of_le (take 4 (drop (rel + (8 + len)) buf))"
  have "scan_record mem (drop rel buf) 0 =
      (if length buf - rel < 8 \<or> len = 0 \<or> WAL_MAX_PAYLOAD < len \<or> length buf - rel < 8 + len + 4 \<or>
         mk \<noteq> WO_WAL_MARK \<or> unat (crc32 p) \<noteq> crc \<or> \<not> mem AScan then None else Some p)"
    unfolding scan_record_unfold Let_def d len_def [symmetric]
    by (simp add: crc_def p_def mk_def)
  moreover have "scan_record_staged mem (length f) buf (length f + rel) =
      (if length buf < rel + 8 then None
       else if len = 0 \<or> WAL_MAX_PAYLOAD < len then None
       else if length buf < rel + 8 + len + 4 then None
       else if mk \<noteq> WO_WAL_MARK \<or> unat (crc32 p) \<noteq> crc then None
       else if \<not> mem AScan then None else Some p)"
    unfolding scan_record_staged_def Let_def
    by (simp add: len_def crc_def p_def mk_def add.assoc)
  moreover have "length buf - rel < n \<longleftrightarrow> length buf < rel + n" if "0 < n" for n
    using that by linarith
  ultimately show ?thesis unfolding e by (simp add: add.assoc)
qed

section \<open>Walking the intact prefix\<close>

text \<open>
  The loop of \<open>wo_wal_open\<close>, \<open>wo_wal_check\<close>, \<open>wo_wal_replay_ex\<close> and \<open>wo_wal_migrate\<close>: records in
  order with their offsets, to the first offset at which none is intact.
\<close>

function wal_records :: "mem \<Rightarrow> bytes \<Rightarrow> nat \<Rightarrow> (nat \<times> bytes) list" where
  "wal_records mem f off =
     (case scan_record mem f off of
        None \<Rightarrow> []
      | Some p \<Rightarrow> (off, p) # wal_records mem f (off + 8 + length p + 4))"
  by pat_completeness auto

termination
  by (relation "measure (\<lambda>(mem, f, off). length f - off)") (auto dest: scan_record_length)

function intact_end :: "mem \<Rightarrow> bytes \<Rightarrow> nat \<Rightarrow> nat" where
  "intact_end mem f off =
     (case scan_record mem f off of
        None \<Rightarrow> off
      | Some p \<Rightarrow> intact_end mem f (off + 8 + length p + 4))"
  by pat_completeness auto

termination
  by (relation "measure (\<lambda>(mem, f, off). length f - off)") (auto dest: scan_record_length)

declare wal_records.simps [simp del] intact_end.simps [simp del]

text \<open>\<open>wo_wal_check\<close> on an existing file: the number of intact records and where they end.\<close>

definition wo_wal_check :: "mem \<Rightarrow> bytes \<Rightarrow> nat \<times> nat" where
  "wo_wal_check mem f = (length (wal_records mem f 0), intact_end mem f 0)"

definition payload_ok :: "bytes \<Rightarrow> bool" where
  "payload_ok p \<longleftrightarrow> 0 < length p \<and> length p \<le> WAL_MAX_PAYLOAD"

definition frames :: "bytes list \<Rightarrow> bytes" where
  "frames ps = concat (map frame ps)"

fun with_offsets :: "nat \<Rightarrow> bytes list \<Rightarrow> (nat \<times> bytes) list" where
  "with_offsets off [] = []"
| "with_offsets off (p # ps) = (off, p) # with_offsets (off + 8 + length p + 4) ps"

lemma frames_simps [simp]: "frames [] = []" "frames (p # ps) = frame p @ frames ps"
  by (simp_all add: frames_def)

lemma frames_append [simp]: "frames (ps @ qs) = frames ps @ frames qs"
  by (simp add: frames_def)

lemma scan_frames:
  assumes "\<forall>p\<in>set ps. payload_ok p" and "mem AScan" and "scan_record mem tail 0 = None"
  shows "wal_records mem (pre @ frames ps @ tail) (length pre) = with_offsets (length pre) ps \<and>
     intact_end mem (pre @ frames ps @ tail) (length pre) = length pre + length (frames ps)"
  using assms
proof (induction ps arbitrary: pre)
  case Nil
  have "scan_record mem (pre @ tail) (length pre) = None"
    using scan_record_shift [of mem pre tail 0] Nil.prems(3) by simp
  then show ?case by (simp add: wal_records.simps intact_end.simps)
next
  case (Cons p ps)
  have p: "scan_record mem (frame p @ frames ps @ tail) 0 = Some p"
    using Cons.prems by (auto simp: payload_ok_def intro!: scan_record_frame)
  then have s: "scan_record mem (pre @ frame p @ frames ps @ tail) (length pre) = Some p"
    using scan_record_shift [of mem pre _ 0] by simp
  have ih: "wal_records mem ((pre @ frame p) @ frames ps @ tail) (length (pre @ frame p)) =
        with_offsets (length (pre @ frame p)) ps \<and>
      intact_end mem ((pre @ frame p) @ frames ps @ tail) (length (pre @ frame p)) =
        length (pre @ frame p) + length (frames ps)"
    using Cons.prems by (intro Cons.IH) auto
  show ?case
    using ih s
    by (subst wal_records.simps, subst intact_end.simps) (simp add: algebra_simps)
qed

lemma scan_frames0:
  assumes "\<forall>p\<in>set ps. payload_ok p" and "mem AScan" and "scan_record mem tail 0 = None"
  shows "wal_records mem (frames ps @ tail) 0 = with_offsets 0 ps"
    and "intact_end mem (frames ps @ tail) 0 = length (frames ps)"
  using scan_frames [OF assms, of "[]"] by simp_all

section \<open>A torn record\<close>

lemma of_le_append: "of_le (xs @ ys) = of_le xs + 256 ^ length xs * of_le ys"
  by (induction xs) (auto simp: algebra_simps)

lemma of_le_zeros [simp]: "of_le (replicate n 0) = 0"
  by (induction n) auto

lemma mark_last_byte:
  assumes "of_le xs = WO_WAL_MARK" and len: "length xs = 4"
  shows "xs ! 3 \<noteq> 0"
proof
  assume z: "xs ! 3 = 0"
  have "xs = take 3 xs @ [xs ! 3]"
    using len by (metis append_take_drop_id Cons_nth_drop_Suc drop_all eval_nat_numeral(2)
        lessI numeral_3_eq_3 order_refl semiring_norm(26,27) Suc_numeral)
  then have "of_le xs = of_le (take 3 xs)"
    using z by (metis (no_types) of_le_append of_le.simps add_0_right mult_0_right unsigned_0)
  also have "\<dots> < 256 ^ 3"
    using of_le_bound [of "take 3 xs"] len by simp
  finally show False using assms(1) by (simp add: WO_WAL_MARK_def)
qed

text \<open>
  An append that a crash cut short leaves a prefix of the record over the zeros of the
  preallocated tail. Whatever the length of the prefix, no record is found there: its mark's last
  byte would have to be one of those zeros.
\<close>

lemma scan_record_SomeD:
  assumes "scan_record mem f 0 = Some q"
  shows "8 + of_le (take 4 f) + 4 \<le> length f"
    and "of_le (take 4 (drop (8 + of_le (take 4 f)) f)) = WO_WAL_MARK"
    and "q = take (of_le (take 4 f)) (drop 8 f)"
  using assms unfolding scan_record_unfold Let_def by (auto split: if_splits)

lemma scan_torn:
  assumes n: "n < length (frame p)" and p: "payload_ok p"
  shows "scan_record mem (take n (frame p) @ replicate m 0) 0 = None"
proof (rule ccontr)
  define F where "F = take n (frame p) @ replicate m 0"
  define len where "len = of_le (take 4 F)"
  assume "scan_record mem (take n (frame p) @ replicate m 0) 0 \<noteq> None"
  then obtain q where q: "scan_record mem F 0 = Some q" by (auto simp: F_def)
  have l: "8 + len + 4 \<le> length F"
    and mark: "of_le (take 4 (drop (8 + len) F)) = WO_WAL_MARK"
    using scan_record_SomeD [OF q] by (simp_all add: len_def)
  have "take 4 (drop (8 + len) F) ! 3 \<noteq> 0"
    by (rule mark_last_byte [OF mark]) (use l in simp)
  moreover have "take 4 (drop (8 + len) F) ! 3 = F ! (8 + len + 3)"
    using l by (simp add: nth_drop)
  ultimately have nz: "F ! (8 + len + 3) \<noteq> 0" by simp
  have zero: "F ! i = 0" if "n \<le> i" "i < length F" for i
    using that n by (auto simp: nth_append F_def)
  have big: "8 + len + 3 < n"
  proof (rule ccontr)
    assume "\<not> 8 + len + 3 < n"
    then have "F ! (8 + len + 3) = 0" using l by (intro zero) linarith+
    with nz show False by contradiction
  qed
  have "take 4 F = take 4 (frame p)" using big n by (simp add: F_def)
  also have "\<dots> = le 4 (length p)" by (simp add: frame_def wput_u32_def)
  finally have "len = length p"
    using p by (simp add: len_def of_le_le_id payload_ok_def WAL_MAX_PAYLOAD_def)
  with big n show False by simp
qed

end
