(* ===== verification/Wal.thy ===== *)
theory Wal
  imports WalCodec
begin

text \<open>
  The write-ahead log as an object (\<open>wo_wal\<close> of \<open>database/src/wal.h\<close>, \<open>database/src/wal.c\<close>): the
  staged batch, the lazily written schema head, the commit barrier, the two pending lists and the
  checkpoint policy. Shown: the offset handed out for a record is the one it is written at
  (\<open>next_offset_exact\<close>); a commit appends the batch and a failed or interrupted one leaves a log
  whose intact prefix is the old log and a prefix of the batch (\<open>crash_prefix\<close>); what the policy
  decides.
\<close>

section \<open>State\<close>

text \<open>
  The file is its bytes, the preallocated zeros included. \<open>None\<close> for \<open>schema\<close> is a log opened
  without one. An entry of the pending lists is class, id and offset. The path, the descriptor
  and the timing statistics are left out.
\<close>

type_synonym pending = "nat \<times> u64 \<times> nat"

record wo_wal =
  fbytes :: bytes
  woff :: nat
  wbytes :: bytes
  wcap :: nat
  stat_batches :: nat
  stat_records :: nat
  stat_peak_batch :: nat
  stat_peak_staged :: nat
  compacted_bytes :: nat
  prealloc :: nat
  pend :: "pending list"
  pend_cap :: nat
  repoint :: "pending list"
  repoint_cap :: nat
  schema :: "bytes option"
  schema_written :: bool

text \<open>
  A call that may stop the process (\<open>exit(WO_EXIT_DURABILITY)\<close>) either returns or dies; what
  survives then is the file.
\<close>

datatype 'a outcome = Lives 'a | Dies bytes

section \<open>Opening\<close>

text \<open>\<open>posix_fallocate\<close> extends a shorter file with zeros. The write offset goes to the end of the
  intact prefix.\<close>

definition fallocate :: "bytes \<Rightarrow> nat \<Rightarrow> bytes" where
  "fallocate f n = f @ replicate (n - length f) 0"

definition wo_wal_open :: "mem \<Rightarrow> bytes \<Rightarrow> nat \<Rightarrow> wo_wal" where
  "wo_wal_open mem f pre =
     (let f' = (if pre \<noteq> 0 then fallocate f pre else f) in
      \<lparr>fbytes = f', woff = intact_end mem f' 0, wbytes = [], wcap = 0,
       stat_batches = 0, stat_records = 0, stat_peak_batch = 0, stat_peak_staged = 0,
       compacted_bytes = 0, prealloc = pre, pend = [], pend_cap = 0, repoint = [], repoint_cap = 0,
       schema = None, schema_written = False\<rparr>)"

section \<open>Staging\<close>

text \<open>\<open>while (nc < need) nc *= 2\<close>; a capacity is never 0 here.\<close>

function cap_for :: "nat \<Rightarrow> nat \<Rightarrow> nat" where
  "cap_for nc need = (if nc < need \<and> nc \<noteq> 0 then cap_for (nc * 2) need else nc)"
  by pat_completeness auto

termination
  by (relation "measure (\<lambda>(nc, need). need - nc)") auto

declare cap_for.simps [simp del]

lemma cap_for_enough: "nc \<noteq> 0 \<Longrightarrow> need \<le> cap_for nc need"
  by (induction nc need rule: cap_for.induct) (subst cap_for.simps, auto)

text \<open>The part of \<open>stage\<close> after the schema head: frame the payload into the batch.\<close>

definition stage_frame :: "mem \<Rightarrow> wo_wal \<Rightarrow> bytes \<Rightarrow> bool \<times> wo_wal" where
  "stage_frame mem w p =
     (let fr = frame p; need = length (wbytes w) + length fr in
      if \<not> mem AWalRec then (False, w)
      else if wcap w < need \<and> \<not> mem AWalBuf then (False, w)
      else (True, w\<lparr>wbytes := wbytes w @ fr,
                    wcap := (if wcap w < need
                             then cap_for (if wcap w \<noteq> 0 then wcap w * 2 else 4096) need
                             else wcap w)\<rparr>))"

text \<open>
  \<open>stage_schema_head\<close> calls \<open>stage\<close>, which calls \<open>stage_schema_head\<close> again; the flag it has set
  by then ends the recursion, so the inner call is \<open>stage_frame\<close>.
\<close>

definition stage_schema_head :: "mem \<Rightarrow> wo_wal \<Rightarrow> bool \<times> wo_wal" where
  "stage_schema_head mem w =
     (case schema w of
        None \<Rightarrow> (True, w)
      | Some s \<Rightarrow>
          if schema_written w then (True, w)
          else
            let w' = w\<lparr>schema_written := True\<rparr> in
            if woff w \<noteq> 0 \<or> wbytes w \<noteq> [] then (True, w')
            else if \<not> mem AWalSchema then (False, w')
            else stage_frame mem w' s)"

text \<open>A payload that ran out of memory while it was built is \<open>None\<close>.\<close>

definition stage :: "mem \<Rightarrow> wo_wal \<Rightarrow> bytes option \<Rightarrow> bool \<times> wo_wal" where
  "stage mem w payload =
     (case payload of
        None \<Rightarrow> (False, w)
      | Some p \<Rightarrow>
          (case stage_schema_head mem w of
             (False, w') \<Rightarrow> (False, w')
           | (True, w') \<Rightarrow> stage_frame mem w' p))"

definition wo_wal_next_offset :: "mem \<Rightarrow> wo_wal \<Rightarrow> (nat \<times> wo_wal) outcome" where
  "wo_wal_next_offset mem w =
     (case stage_schema_head mem w of
        (False, w') \<Rightarrow> Dies (fbytes w')
      | (True, w') \<Rightarrow> Lives (woff w' + length (wbytes w'), w'))"

definition wo_wal_set_schema :: "mem \<Rightarrow> wo_wal \<Rightarrow> bytes \<Rightarrow> bool \<times> wo_wal" where
  "wo_wal_set_schema mem w p = (if \<not> mem AWalSchema then (False, w) else (True, w\<lparr>schema := Some p\<rparr>))"

section \<open>Payloads\<close>

datatype rec_kind = RInsert | RRemove | RUpdate | RDelta | RSchema

fun rec_byte :: "rec_kind \<Rightarrow> u8" where
  "rec_byte RInsert = 1"
| "rec_byte RRemove = 2"
| "rec_byte RUpdate = 3"
| "rec_byte RDelta = 4"
| "rec_byte RSchema = 5"

definition rec_head :: "rec_kind \<Rightarrow> nat \<Rightarrow> u64 \<Rightarrow> bytes" where
  "rec_head k cid rid = wput_u8 (rec_byte k) @ wput_u32 cid @ wput_u64 rid"

definition row_payload :: "classes \<Rightarrow> rec_kind \<Rightarrow> nat \<Rightarrow> u64 \<Rightarrow> dbval list \<Rightarrow> bytes" where
  "row_payload cs k cid rid vs = rec_head k cid rid @ enc_vals cs (kinds (cs ! cid)) vs"

definition delta_payload :: "classes \<Rightarrow> nat \<Rightarrow> u64 \<Rightarrow> nat \<Rightarrow> nat \<Rightarrow> dbval \<Rightarrow> bytes" where
  "delta_payload cs cid rid field back_off v =
     rec_head RDelta cid rid @ wput_u32 field @ wput_u64 (of_nat back_off) @
     enc_val cs (kinds (cs ! cid) ! field) v"

definition build :: "mem \<Rightarrow> bytes \<Rightarrow> bytes option" where
  "build mem p = (if mem AWalPayload then Some p else None)"

definition wo_wal_append_row_image ::
  "mem \<Rightarrow> wo_wal \<Rightarrow> classes \<Rightarrow> nat \<Rightarrow> u64 \<Rightarrow> dbval list \<Rightarrow> bool \<times> wo_wal" where
  "wo_wal_append_row_image mem w cs cid rid vs =
     stage mem w (build mem (row_payload cs RUpdate cid rid vs))"

definition wo_wal_append_delta ::
  "mem \<Rightarrow> wo_wal \<Rightarrow> classes \<Rightarrow> nat \<Rightarrow> u64 \<Rightarrow> nat \<Rightarrow> nat \<Rightarrow> dbval \<Rightarrow> bool \<times> wo_wal" where
  "wo_wal_append_delta mem w cs cid rid field back_off v =
     stage mem w (build mem (delta_payload cs cid rid field back_off v))"

definition wo_wal_append_remove :: "mem \<Rightarrow> wo_wal \<Rightarrow> nat \<Rightarrow> u64 \<Rightarrow> bool \<times> wo_wal" where
  "wo_wal_append_remove mem w cid rid = stage mem w (build mem (rec_head RRemove cid rid))"

section \<open>The commit barrier\<close>

text \<open>
  What the device does with a barrier: \<open>wr\<close> is \<open>None\<close> when the whole batch is written (partial
  writes and \<open>EINTR\<close> are retried by the loop), \<open>Some n\<close> when a write fails after \<open>n\<close> bytes;
  \<open>sync_ok\<close> whether \<open>fdatasync\<close> succeeds.
\<close>

record io =
  wr :: "nat option"
  sync_ok :: bool

datatype commit_res = CommitOk | ERR_WRITE | ERR_SYNC

definition write_at :: "bytes \<Rightarrow> nat \<Rightarrow> bytes \<Rightarrow> bytes" where
  "write_at f off bs = take off f @ replicate (off - length f) 0 @ bs @ drop (off + length bs) f"

definition wo_wal_commit :: "io \<Rightarrow> wo_wal \<Rightarrow> commit_res \<times> wo_wal" where
  "wo_wal_commit io w0 =
     (if wbytes w0 = [] then (CommitOk, w0)
      else
        let w = w0\<lparr>stat_peak_staged := max (stat_peak_staged w0) (length (wbytes w0))\<rparr> in
        (case wr io of
           Some n \<Rightarrow> (ERR_WRITE, w\<lparr>fbytes := write_at (fbytes w) (woff w) (take n (wbytes w))\<rparr>)
         | None \<Rightarrow>
             let w = w\<lparr>fbytes := write_at (fbytes w) (woff w) (wbytes w)\<rparr> in
             if \<not> sync_ok io then (ERR_SYNC, w)
             else (CommitOk, w\<lparr>woff := woff w + length (wbytes w), wbytes := []\<rparr>)))"

definition wo_wal_commit_fatal :: "io \<Rightarrow> wo_wal \<Rightarrow> nat \<Rightarrow> wo_wal outcome" where
  "wo_wal_commit_fatal io w nrec =
     (case wo_wal_commit io w of
        (CommitOk, w') \<Rightarrow>
          Lives (if wbytes w \<noteq> []
                 then w'\<lparr>stat_batches := stat_batches w' + 1, stat_records := stat_records w' + nrec,
                         stat_peak_batch := max (stat_peak_batch w') nrec\<rparr>
                 else w')
      | (_, w') \<Rightarrow> Dies (fbytes w'))"

definition wo_wal_ensure_schema :: "mem \<Rightarrow> io \<Rightarrow> wo_wal \<Rightarrow> bool \<times> wo_wal" where
  "wo_wal_ensure_schema mem io w =
     (if schema w = None then (True, w)
      else if woff w \<noteq> 0 \<or> wbytes w \<noteq> [] then (True, w)
      else if schema_written w then (True, w)
      else
        (case stage_schema_head mem w of
           (False, w') \<Rightarrow> (False, w')
         | (True, w') \<Rightarrow> (case wo_wal_commit io w' of (r, w'') \<Rightarrow> (r = CommitOk, w''))))"

text \<open>Intermediate writes of a compaction or migration, without a barrier. On failure the C code
  leaves the offset, as here.\<close>

definition wal_write_nosync :: "io \<Rightarrow> wo_wal \<Rightarrow> bool \<times> wo_wal" where
  "wal_write_nosync io w =
     (case wr io of
        Some n \<Rightarrow> (wbytes w = [], w\<lparr>fbytes := write_at (fbytes w) (woff w) (take n (wbytes w))\<rparr>)
      | None \<Rightarrow>
          (True, w\<lparr>fbytes := write_at (fbytes w) (woff w) (wbytes w),
                   woff := woff w + length (wbytes w), wbytes := []\<rparr>))"

section \<open>The pending lists\<close>

definition wo_wal_pend_drop :: "mem \<Rightarrow> wo_wal \<Rightarrow> nat \<Rightarrow> u64 \<Rightarrow> nat \<Rightarrow> bool \<times> wo_wal" where
  "wo_wal_pend_drop mem w cid rid off =
     (if length (pend w) = pend_cap w \<and> \<not> mem APend then (False, w)
      else (True, w\<lparr>pend := pend w @ [(cid, rid, off)],
                    pend_cap := (if length (pend w) = pend_cap w
                                 then (if pend_cap w \<noteq> 0 then pend_cap w * 2 else 16)
                                 else pend_cap w)\<rparr>))"

definition wo_wal_pend_repoint :: "mem \<Rightarrow> wo_wal \<Rightarrow> nat \<Rightarrow> u64 \<Rightarrow> nat \<Rightarrow> bool \<times> wo_wal" where
  "wo_wal_pend_repoint mem w cid rid off =
     (if length (repoint w) = repoint_cap w \<and> \<not> mem ARepoint then (False, w)
      else (True, w\<lparr>repoint := repoint w @ [(cid, rid, off)],
                    repoint_cap := (if length (repoint w) = repoint_cap w
                                    then (if repoint_cap w \<noteq> 0 then repoint_cap w * 2 else 16)
                                    else repoint_cap w)\<rparr>))"

text \<open>The search runs backward: the latest entry of the row counts. \<open>off + 1\<close>, or 0 for none.\<close>

definition wo_wal_repoint_offset1 :: "wo_wal \<Rightarrow> nat \<Rightarrow> u64 \<Rightarrow> nat" where
  "wo_wal_repoint_offset1 w cid rid =
     (case List.find (\<lambda>(c, i, off). c = cid \<and> i = rid) (rev (repoint w)) of
        Some (c, i, off) \<Rightarrow> off + 1
      | None \<Rightarrow> 0)"

section \<open>The checkpoint policy\<close>

definition WO_CKPT_ABS_BYTES :: u64 where "WO_CKPT_ABS_BYTES = 64 * 1024 * 1024"

definition wo_wal_should_compact :: "u64 \<Rightarrow> u64 \<Rightarrow> u64 \<Rightarrow> u32 \<Rightarrow> bool" where
  "wo_wal_should_compact used_bytes last_bytes floor_bytes ratio =
     (if used_bytes < floor_bytes then False
      else if last_bytes = 0 then True
      else if ratio = 0 then False
      else
        let garbage = (if used_bytes > last_bytes then used_bytes - last_bytes else 0) in
        if garbage \<ge> WO_CKPT_ABS_BYTES then True
        else used_bytes > last_bytes * ucast ratio)"

section \<open>What staging does to the batch\<close>

lemma stage_frame_ok:
  assumes "stage_frame mem w p = (True, w')"
  shows "wbytes w' = wbytes w @ frame p" and "woff w' = woff w"
    and "fbytes w' = fbytes w" and "pend w' = pend w" and "repoint w' = repoint w"
    and "schema w' = schema w" and "compacted_bytes w' = compacted_bytes w"
    and "schema_written w' = schema_written w"
  using assms by (auto simp: stage_frame_def Let_def split: if_splits)

lemma stage_frame_fail: "stage_frame mem w p = (False, w') \<Longrightarrow> w' = w"
  by (auto simp: stage_frame_def Let_def split: if_splits)

lemma stage_frame_total:
  "mem AWalRec \<Longrightarrow> mem AWalBuf \<Longrightarrow> fst (stage_frame mem w p)"
  by (simp add: stage_frame_def Let_def)

text \<open>The bytes the head adds: the schema record on an empty log that has one to write.\<close>

definition head_bytes :: "wo_wal \<Rightarrow> bytes" where
  "head_bytes w =
     (case schema w of
        Some s \<Rightarrow> if \<not> schema_written w \<and> woff w = 0 \<and> wbytes w = [] then frame s else []
      | None \<Rightarrow> [])"

lemma stage_schema_head_ok:
  assumes "stage_schema_head mem w = (True, w')"
  shows "wbytes w' = wbytes w @ head_bytes w" and "woff w' = woff w" and "fbytes w' = fbytes w"
    and "head_bytes w' = []" and "pend w' = pend w" and "repoint w' = repoint w" and "schema w' = schema w"
    and "compacted_bytes w' = compacted_bytes w"
proof -
  have "wbytes w' = wbytes w @ head_bytes w \<and> woff w' = woff w \<and> fbytes w' = fbytes w \<and>
    head_bytes w' = [] \<and> pend w' = pend w \<and> repoint w' = repoint w \<and> schema w' = schema w \<and>
    compacted_bytes w' = compacted_bytes w"
  proof (cases "schema w = None \<or> schema_written w \<or> woff w \<noteq> 0 \<or> wbytes w \<noteq> []")
    case True
    then show ?thesis using assms
      by (auto simp: stage_schema_head_def head_bytes_def Let_def split: option.splits if_splits)
  next
    case False
    then obtain s where s: "schema w = Some s" "\<not> schema_written w" "woff w = 0" "wbytes w = []" by auto
    have f: "stage_frame mem (w\<lparr>schema_written := True\<rparr>) s = (True, w')"
      using assms s by (simp add: stage_schema_head_def Let_def split: if_splits)
    show ?thesis using stage_frame_ok [OF f] s by (simp add: head_bytes_def)
  qed
  then show "wbytes w' = wbytes w @ head_bytes w" and "woff w' = woff w" and "fbytes w' = fbytes w"
    and "head_bytes w' = []" and "pend w' = pend w" and "repoint w' = repoint w" and "schema w' = schema w"
    and "compacted_bytes w' = compacted_bytes w"
    by blast+
qed

lemma stage_ok:
  assumes "stage mem w (Some p) = (True, w')"
  shows "wbytes w' = wbytes w @ head_bytes w @ frame p" and "woff w' = woff w"
    and "fbytes w' = fbytes w" and "pend w' = pend w" and "repoint w' = repoint w"
    and "head_bytes w' = []" and "schema w' = schema w" and "compacted_bytes w' = compacted_bytes w"
proof -
  obtain w1 where h: "stage_schema_head mem w = (True, w1)" and f: "stage_frame mem w1 p = (True, w')"
    using assms by (auto simp: stage_def split: prod.splits bool.splits)
  note h1 = stage_schema_head_ok [OF h] and f1 = stage_frame_ok [OF f]
  show w: "wbytes w' = wbytes w @ head_bytes w @ frame p" and "woff w' = woff w"
    and "fbytes w' = fbytes w" and "pend w' = pend w" and "repoint w' = repoint w"
    and "schema w' = schema w" and "compacted_bytes w' = compacted_bytes w"
    using h1 f1 by simp_all
  have "0 < length (frame p)" by simp
  then have "wbytes w' \<noteq> []" unfolding w by (metis append_is_Nil_conv length_greater_0_conv)
  then show "head_bytes w' = []" by (cases "schema w'") (simp_all add: head_bytes_def)
qed

lemma stage_total:
  assumes "mem AWalRec" and "mem AWalBuf" and "mem AWalSchema"
  shows "fst (stage mem w (Some p))"
proof -
  have "fst (stage_schema_head mem w)"
    using assms stage_frame_total [of mem "w\<lparr>schema_written := True\<rparr>"]
    by (auto simp: stage_schema_head_def Let_def split: option.splits)
  then obtain w1 where "stage_schema_head mem w = (True, w1)" by (metis prod.collapse)
  then show ?thesis using stage_frame_total [OF assms(1,2)] by (simp add: stage_def)
qed

section \<open>The offset of a record\<close>

text \<open>
  The batch is a sequence of frames, and the log a sequence of frames up to the write offset
  followed by the zeros of the preallocation.
\<close>

definition log_is :: "wo_wal \<Rightarrow> bytes list \<Rightarrow> bytes list \<Rightarrow> bool" where
  "log_is w ps qs \<longleftrightarrow>
     (\<exists>m. fbytes w = frames ps @ replicate m 0) \<and> woff w = length (frames ps) \<and>
     wbytes w = frames qs \<and> (\<forall>p\<in>set (ps @ qs). payload_ok p) \<and>
     (\<forall>s. schema w = Some s \<longrightarrow> payload_ok s)"

definition head_payload :: "wo_wal \<Rightarrow> bytes list" where
  "head_payload w =
     (case schema w of
        Some s \<Rightarrow> if \<not> schema_written w \<and> woff w = 0 \<and> wbytes w = [] then [s] else []
      | None \<Rightarrow> [])"

lemma head_bytes_payload: "head_bytes w = frames (head_payload w)"
  by (auto simp: head_bytes_def head_payload_def split: option.split)

lemma head_payload_ok: "log_is w ps qs \<Longrightarrow> \<forall>p\<in>set (head_payload w). payload_ok p"
  by (auto simp: head_payload_def log_is_def split: option.split)

lemma log_is_stage:
  assumes l: "log_is w ps qs" and s: "stage mem w (Some p) = (True, w')" and p: "payload_ok p"
  shows "log_is w' ps (qs @ head_payload w @ [p])"
  using l stage_ok [OF s] head_payload_ok [OF l] p
  by (auto simp: log_is_def head_bytes_payload)

lemma log_is_head:
  assumes l: "log_is w ps qs" and s: "stage_schema_head mem w = (True, w')"
  shows "log_is w' ps (qs @ head_payload w)"
  using l stage_schema_head_ok [OF s] head_payload_ok [OF l]
  by (auto simp: log_is_def head_bytes_payload)

lemma next_offset_after:
  assumes n: "wo_wal_next_offset mem w = Lives (off, w1)" and s: "stage mem w1 (Some p) = (True, w2)"
  shows "off = woff w2 + length (wbytes w1)" and "wbytes w2 = wbytes w1 @ frame p"
    and "woff w2 = woff w" and "fbytes w2 = fbytes w"
proof -
  from n have h: "stage_schema_head mem w = (True, w1)" and off: "off = woff w1 + length (wbytes w1)"
    by (auto simp: wo_wal_next_offset_def split: prod.splits bool.splits)
  note h1 = stage_schema_head_ok [OF h] and s1 = stage_ok [OF s]
  show "off = woff w2 + length (wbytes w1)" and "wbytes w2 = wbytes w1 @ frame p"
    and "woff w2 = woff w" and "fbytes w2 = fbytes w"
    using off h1 s1 by simp_all
qed

section \<open>Writing the batch\<close>

lemma write_at_tail:
  assumes "length bs \<le> m"
  shows "write_at (xs @ replicate m (0::u8)) (length xs) bs = xs @ bs @ replicate (m - length bs) 0"
  using assms by (simp add: write_at_def)

lemma write_at_extend:
  assumes "m < length bs"
  shows "write_at (xs @ replicate m (0::u8)) (length xs) bs = xs @ bs"
  using assms by (simp add: write_at_def)

lemma write_at_zeros:
  "\<exists>m'. write_at (xs @ replicate m (0::u8)) (length xs) bs = xs @ bs @ replicate m' 0"
proof (cases "length bs \<le> m")
  case True
  then show ?thesis using write_at_tail by blast
next
  case False
  then have "write_at (xs @ replicate m (0::u8)) (length xs) bs = xs @ bs @ replicate 0 0"
    using write_at_extend [of m bs xs] by simp
  then show ?thesis by blast
qed

lemma commit_ok:
  assumes l: "log_is w ps qs" and c: "wo_wal_commit io w = (CommitOk, w')"
  shows "log_is w' (ps @ qs) []" and "schema w' = schema w" and "repoint w' = repoint w" and "pend w' = pend w"
proof -
  obtain m where f: "fbytes w = frames ps @ replicate m 0" using l by (auto simp: log_is_def)
  have o: "woff w = length (frames ps)" "wbytes w = frames qs" using l by (auto simp: log_is_def)
  have "log_is w' (ps @ qs) [] \<and> schema w' = schema w \<and> repoint w' = repoint w \<and> pend w' = pend w"
  proof (cases "wbytes w = []")
    case True
    then have "frames qs = []" using o by simp
    then have "qs = []"
      by (cases qs) (auto simp flip: length_0_conv)
    then show ?thesis using c l True by (simp add: wo_wal_commit_def log_is_def)
  next
    case False
    obtain m' where "write_at (frames ps @ replicate m 0) (length (frames ps)) (frames qs) =
        frames ps @ frames qs @ replicate m' 0"
      using write_at_zeros by blast
    then show ?thesis using c l False f o
      by (auto simp: wo_wal_commit_def log_is_def Let_def split: option.splits if_splits)
  qed
  then show "log_is w' (ps @ qs) []" and "schema w' = schema w" and "repoint w' = repoint w"
    and "pend w' = pend w" by blast+
qed

section \<open>What a crash leaves\<close>

lemma scan_zeros: "scan_record mem (replicate m 0) 0 = None"
  by (simp add: scan_record_unfold Let_def)

lemma log_is_records:
  assumes "log_is w ps qs" and "mem AScan"
  shows "wal_records mem (fbytes w) 0 = with_offsets 0 ps" and "intact_end mem (fbytes w) 0 = woff w"
proof -
  obtain m where f: "fbytes w = frames ps @ replicate m 0" using assms by (auto simp: log_is_def)
  have ok: "\<forall>p\<in>set ps. payload_ok p" using assms(1) by (auto simp: log_is_def)
  note s = scan_frames0 [where mem = mem, OF ok assms(2) scan_zeros [of mem m]]
  then show "wal_records mem (fbytes w) 0 = with_offsets 0 ps" and "intact_end mem (fbytes w) 0 = woff w"
    using s assms(1) f by (auto simp: log_is_def)
qed

lemma take_frames:
  assumes "\<forall>q\<in>set qs. payload_ok q"
  shows "\<exists>k torn. k \<le> length qs \<and> take n (frames qs) = frames (take k qs) @ torn \<and>
     (\<forall>m. scan_record mem (torn @ replicate m 0) 0 = None)"
  using assms
proof (induction qs arbitrary: n)
  case Nil
  then show ?case by (simp add: scan_zeros)
next
  case (Cons q qs)
  show ?case
  proof (cases "n < length (frame q)")
    case True
    then have "take n (frames (q # qs)) = frames (take 0 (q # qs)) @ take n (frame q)" by simp
    moreover have "\<forall>m. scan_record mem (take n (frame q) @ replicate m 0) 0 = None"
      using scan_torn [OF True] Cons.prems by simp
    ultimately show ?thesis by (metis zero_le)
  next
    case False
    obtain k torn where k: "k \<le> length qs" "take (n - length (frame q)) (frames qs) = frames (take k qs) @ torn"
      "\<forall>m. scan_record mem (torn @ replicate m 0) 0 = None"
      using Cons.IH [of "n - length (frame q)"] Cons.prems by auto
    have "take n (frames (q # qs)) = frames (take (Suc k) (q # qs)) @ torn"
      using False k(2) by (simp del: length_frame)
    then show ?thesis using k by (metis Suc_le_mono length_Cons)
  qed
qed

text \<open>
  Power fails while a batch is being written over the zeros of the log: however many of its bytes
  reached the disk, the intact prefix is the old log and whole records from the front of the batch.
\<close>

lemma crash_prefix_aux:
  assumes ps: "\<forall>p\<in>set ps. payload_ok p" and qs: "\<forall>q\<in>set qs. payload_ok q" and mem: "mem AScan"
  shows "\<exists>k\<le>length qs. wal_records mem (write_at (frames ps @ replicate m 0) (length (frames ps)) (take n (frames qs))) 0
     = with_offsets 0 (ps @ take k qs)"
proof -
  obtain k torn where k: "k \<le> length qs" and t: "take n (frames qs) = frames (take k qs) @ torn"
    and s: "\<forall>m. scan_record mem (torn @ replicate m 0) 0 = None"
    using take_frames [OF qs] by blast
  obtain m' where w: "write_at (frames ps @ replicate m 0) (length (frames ps)) (take n (frames qs)) =
      frames ps @ take n (frames qs) @ replicate m' 0"
    using write_at_zeros by blast
  have "\<forall>p\<in>set (ps @ take k qs). payload_ok p"
    using ps qs by (auto dest: in_set_takeD)
  then have "wal_records mem (frames (ps @ take k qs) @ (torn @ replicate m' 0)) 0 =
      with_offsets 0 (ps @ take k qs)"
    using scan_frames0(1) [where mem = mem] mem s by blast
  then show ?thesis using k by (intro exI [of _ k]) (simp add: w [unfolded t] t)
qed

lemma commit_dies:
  assumes l: "log_is w ps qs" and d: "wo_wal_commit_fatal io w n = Dies f" and mem: "mem AScan"
  shows "\<exists>k\<le>length qs. wal_records mem f 0 = with_offsets 0 (ps @ take k qs)"
proof -
  obtain m where fb: "fbytes w = frames ps @ replicate m 0" using l by (auto simp: log_is_def)
  have o: "woff w = length (frames ps)" "wbytes w = frames qs"
    and ok: "\<forall>p\<in>set ps. payload_ok p" "\<forall>q\<in>set qs. payload_ok q"
    using l by (auto simp: log_is_def)
  obtain j where "f = write_at (fbytes w) (woff w) (take j (wbytes w))"
    using d
    by (auto simp: wo_wal_commit_fatal_def wo_wal_commit_def Let_def
        split: prod.splits commit_res.splits if_splits option.splits intro: that [of "length (wbytes w)"])
  then show ?thesis using crash_prefix_aux [where mem = mem, OF ok mem] fb o by simp
qed

section \<open>A stale record behind a torn one\<close>

text \<open>
  A batch of several records is one write, and a crash may leave its second record on disk without
  the first. The next open stops before the torn one, and the next append overwrites it, but
  nothing clears what lies behind: a record of the same length makes the stale one, never
  acknowledged and not part of the replayed log, valid again.
\<close>

definition stale_file :: "bytes list \<Rightarrow> bytes \<Rightarrow> bytes \<Rightarrow> nat \<Rightarrow> bytes" where
  "stale_file ps torn q m = frames ps @ torn @ frame q @ replicate m 0"

lemma stale_invisible:
  assumes ps: "\<forall>p\<in>set ps. payload_ok p" and mem: "mem AScan"
    and torn: "scan_record mem (torn @ frame q @ replicate m 0) 0 = None"
  shows "woff (wo_wal_open mem (stale_file ps torn q m) 0) = length (frames ps)"
    and "wal_records mem (stale_file ps torn q m) 0 = with_offsets 0 ps"
  using scan_frames0 [where mem = mem, OF ps mem torn]
  by (simp_all add: stale_file_def wo_wal_open_def)

lemma stale_revived:
  assumes ps: "\<forall>p\<in>set ps. payload_ok p" and pq: "payload_ok p" "payload_ok q" and mem: "mem AScan"
    and torn: "scan_record mem (torn @ frame q @ replicate m 0) 0 = None"
    and len: "length torn = length (frame p)"
    and st: "stage mem (wo_wal_open mem (stale_file ps torn q m) 0) (Some p) = (True, w)"
    and c: "wo_wal_commit io w = (CommitOk, w')"
  shows "wal_records mem (fbytes w') 0 = with_offsets 0 (ps @ [p, q])"
proof -
  let ?w0 = "wo_wal_open mem (stale_file ps torn q m) 0"
  have h: "head_bytes ?w0 = []" by (simp add: wo_wal_open_def head_bytes_def Let_def)
  note s = stage_ok [OF st]
  have w: "wbytes w = frame p" "woff w = length (frames ps)" "fbytes w = stale_file ps torn q m"
    using s h stale_invisible(1) [where mem = mem, OF ps mem torn] by (simp_all add: wo_wal_open_def Let_def)
  have ne: "wbytes w \<noteq> []" unfolding w by (metis length_frame add_is_0 list.size(3) zero_neq_numeral)
  have "fbytes w' = write_at (fbytes w) (woff w) (wbytes w)"
    using c ne by (auto simp: wo_wal_commit_def Let_def split: option.splits if_splits)
  also have "\<dots> = frames (ps @ [p, q]) @ replicate m 0"
    unfolding w using len by (simp add: write_at_def stale_file_def)
  finally show ?thesis
    using ps pq mem scan_zeros by (simp only:) (rule scan_frames0(1); auto)
qed

section \<open>The checkpoint decision\<close>

text \<open>Below the wrap of \<open>last * ratio\<close>, the decision is this arithmetic.\<close>

lemma should_compact_iff:
  assumes nw: "unat last_bytes * unat ratio < 2 ^ 64"
  shows "wo_wal_should_compact used_bytes last_bytes floor_bytes ratio \<longleftrightarrow>
    unat floor_bytes \<le> unat used_bytes \<and>
    (last_bytes = 0 \<or>
     ratio \<noteq> 0 \<and>
     (unat last_bytes + 64 * 2 ^ 20 \<le> unat used_bytes \<or> unat last_bytes * unat ratio < unat used_bytes))"
proof -
  have r: "unat (ucast ratio :: u64) = unat ratio"
  proof -
    have "unat ratio < 2 ^ LENGTH(32)" by (rule unsigned_less)
    then have "unat ratio < 2 ^ 64" by simp
    then show ?thesis by (simp only: unsigned_ucast_eq) (simp add: take_bit_nat_eq_self)
  qed
  have m: "unat (last_bytes * ucast ratio) = unat last_bytes * unat ratio"
    using nw r by (simp add: unat_word_ariths)
  have c: "unat WO_CKPT_ABS_BYTES = 64 * 2 ^ 20" by (simp add: WO_CKPT_ABS_BYTES_def)
  have s: "last_bytes < used_bytes \<Longrightarrow> unat (used_bytes - last_bytes) = unat used_bytes - unat last_bytes"
    by (rule unat_sub) simp
  have z: "\<not> WO_CKPT_ABS_BYTES \<le> 0" by (simp add: WO_CKPT_ABS_BYTES_def)
  have g: "WO_CKPT_ABS_BYTES \<le> (if last_bytes < used_bytes then used_bytes - last_bytes else 0) \<longleftrightarrow>
      unat last_bytes + 64 * 2 ^ 20 \<le> unat used_bytes"
  proof (cases "last_bytes < used_bytes")
    case True
    then show ?thesis using s c by (simp add: word_le_nat_alt word_less_nat_alt) linarith
  next
    case False
    then show ?thesis using z by (simp add: word_less_nat_alt)
  qed
  have l: "last_bytes * ucast ratio < used_bytes \<longleftrightarrow> unat last_bytes * unat ratio < unat used_bytes"
    by (simp add: word_less_nat_alt m)
  have f: "used_bytes < floor_bytes \<longleftrightarrow> \<not> unat floor_bytes \<le> unat used_bytes"
    by (simp add: word_less_nat_alt not_le)
  show ?thesis
    unfolding wo_wal_should_compact_def Let_def g l f by simp
qed

end
