(* ===== verification/Fold.thy ===== *)
theory Fold
  imports Wal
begin

text \<open>
  Reading a row back from the log (\<open>wo_wal_fold_row_at\<close> and \<open>wo_wal_read_row_at\<close> of
  \<open>database/src/wal.c\<close>). A row's newest record may be a delta, one field with a pointer to the
  row's previous record; the fold walks back to a full row and lays the newest value of each
  field over it. Shown: the walk ends on any bytes (each pointer must lead strictly back), it
  returns only well-formed rows, and on a chain of records as the engine writes them it returns
  the base row with the deltas applied in order.
\<close>

datatype read_err = Unreadable | ReadOom

text \<open>\<open>wal.h\<close>: kind, class and id open every row record.\<close>

definition parse_head :: "(u8 \<times> nat \<times> u64) parser" where
  "parse_head p =
     do { (k, r) \<leftarrow> rd_u8 p; (cid, r) \<leftarrow> rd_u32 r; (rid, r) \<leftarrow> rd_u64 r; Some ((k, cid, rid), r) }"

text \<open>A hop into the staged batch is read from there, every other from the file.\<close>

definition fold_read :: "mem \<Rightarrow> wo_wal \<Rightarrow> nat \<Rightarrow> bytes option" where
  "fold_read mem w cur =
     (if woff w \<le> cur \<and> cur < woff w + length (wbytes w)
      then scan_record_staged mem (woff w) (wbytes w) cur
      else scan_record mem (fbytes w) cur)"

definition overlay :: "dbval option list \<Rightarrow> dbval list \<Rightarrow> dbval list" where
  "overlay res vs = map2 (\<lambda>q v. case q of Some x \<Rightarrow> x | None \<Rightarrow> v) res vs"

text \<open>
  One loop. \<open>st\<close> is \<open>None\<close> before the first record, then the row's class and id and, for each
  field, the value a newer delta has claimed.
\<close>

function fold_loop ::
  "mem \<Rightarrow> wo_wal \<Rightarrow> classes \<Rightarrow> (nat \<times> u64 \<times> dbval option list) option \<Rightarrow> nat \<Rightarrow> nat \<Rightarrow>
   read_err + (nat \<times> u64 \<times> dbval list \<times> nat)"
where
  "fold_loop mem w cs st cur hops =
     (case fold_read mem w cur of
        None \<Rightarrow> Inl Unreadable
      | Some payload \<Rightarrow>
     (case parse_head payload of
        None \<Rightarrow> Inl Unreadable
      | Some ((kind, rec_cid, rec_id), r) \<Rightarrow>
        if length cs \<le> rec_cid then Inl Unreadable
        else if st = None \<and> field_cnt (cs ! rec_cid) \<noteq> 0 \<and> \<not> mem AFold then Inl ReadOom
        else
     (case (case st of None \<Rightarrow> (rec_cid, rec_id, replicate (field_cnt (cs ! rec_cid)) None)
                     | Some s \<Rightarrow> s) of
        (cid, rid, resolved) \<Rightarrow>
        if rec_cid \<noteq> cid \<or> rec_id \<noteq> rid then Inl Unreadable
        else if kind = rec_byte RDelta then
          (case rd_u32 r of
             None \<Rightarrow> Inl Unreadable
           | Some (field, r) \<Rightarrow>
          (case rd_u64 r of
             None \<Rightarrow> Inl Unreadable
           | Some (back_off, r) \<Rightarrow>
             if field_cnt (cs ! cid) \<le> field then Inl Unreadable
             else if cur \<le> unat back_off then Inl Unreadable
             else
          (case dec_val mem cs (kinds (cs ! cid) ! field) r of
             None \<Rightarrow> Inl Unreadable
           | Some (v, rest) \<Rightarrow>
             if rest \<noteq> [] then Inl Unreadable
             else fold_loop mem w cs
                    (Some (cid, rid,
                       if resolved ! field = None then resolved[field := Some v] else resolved))
                    (unat back_off) (hops + 1))))
        else if kind \<noteq> rec_byte RInsert \<and> kind \<noteq> rec_byte RUpdate then Inl Unreadable
        else if field_cnt (cs ! cid) \<noteq> 0 \<and> \<not> mem AFold then Inl ReadOom
        else
          (case map_parse (dec_val mem cs) (kinds (cs ! cid)) r of
             None \<Rightarrow> Inl Unreadable
           | Some (vs, rest) \<Rightarrow>
             if rest \<noteq> [] then Inl Unreadable
             else Inr (cid, rid, overlay resolved vs, hops)))))"
  by pat_completeness auto

termination
  by (relation "measure (\<lambda>(mem, w, cs, st, cur, hops). cur)") auto

declare fold_loop.simps [simp del]

definition wo_wal_fold_row_at ::
  "mem \<Rightarrow> wo_wal \<Rightarrow> classes \<Rightarrow> nat \<Rightarrow> read_err + (nat \<times> u64 \<times> dbval list \<times> nat)" where
  "wo_wal_fold_row_at mem w cs off = fold_loop mem w cs None off 0"

text \<open>The single-record reader, which decodes on into the virtual machine.\<close>

definition wo_wal_read_row_at ::
  "mem \<Rightarrow> wo_wal \<Rightarrow> classes \<Rightarrow> nat \<Rightarrow> read_err + (nat \<times> u64 \<times> vmval list)" where
  "wo_wal_read_row_at mem w cs off =
     (case scan_record mem (fbytes w) off of
        None \<Rightarrow> Inl Unreadable
      | Some payload \<Rightarrow>
     (case parse_head payload of
        None \<Rightarrow> Inl Unreadable
      | Some ((kind, cid, rid), r) \<Rightarrow>
        if length cs \<le> cid then Inl Unreadable
        else if kind \<noteq> rec_byte RInsert \<and> kind \<noteq> rec_byte RUpdate then Inl Unreadable
        else if field_cnt (cs ! cid) \<noteq> 0 \<and> \<not> mem AFold then Inl ReadOom
        else
          (case map_parse (dec_val mem cs) (kinds (cs ! cid)) r of
             None \<Rightarrow> Inl Unreadable
           | Some (vs, rest) \<Rightarrow>
             if rest \<noteq> [] then Inl Unreadable
             else
               (case decode_all mem cs (kinds (cs ! cid)) vs of
                  Inl e \<Rightarrow> Inl ReadOom
                | Inr xs \<Rightarrow> Inr (cid, rid, xs)))))"

section \<open>Reading record heads\<close>

lemma parse_head_rec [simp, codec]:
  "cid < 2 ^ 32 \<Longrightarrow> parse_head (rec_head k cid rid @ rest) = Some ((rec_byte k, cid, rid), rest)"
  by (simp add: parse_head_def rec_head_def)

lemma rec_byte_inj [simp]: "rec_byte k = rec_byte k' \<longleftrightarrow> k = k'"
  by (cases k; cases k') simp_all

lemma length_rec_head [simp, len_simps]: "length (rec_head k cid rid) = 13"
  by (simp add: rec_head_def)

section \<open>Only well-formed rows come back\<close>

lemma overlay_length [simp]: "length (overlay res vs) = min (length res) (length vs)"
  by (simp add: overlay_def)

lemma overlay_nth:
  "i < length res \<Longrightarrow> i < length vs \<Longrightarrow>
     overlay res vs ! i = (case res ! i of Some x \<Rightarrow> x | None \<Rightarrow> vs ! i)"
  by (simp add: overlay_def)

lemma overlay_none: "length vs = n \<Longrightarrow> overlay (replicate n None) vs = vs"
  by (rule nth_equalityI) (simp_all add: overlay_nth)

lemma overlay_claim:
  assumes "length res = length vs"
  shows "overlay (if res ! f = None then res[f := Some v] else res) vs = overlay res (vs[f := v])"
proof (rule nth_equalityI)
  show "length (overlay (if res ! f = None then res[f := Some v] else res) vs) = length (overlay res (vs[f := v]))"
    using assms by simp
next
  fix i assume "i < length (overlay (if res ! f = None then res[f := Some v] else res) vs)"
  then have i: "i < length res" "i < length vs" using assms by (auto split: if_splits)
  then show "overlay (if res ! f = None then res[f := Some v] else res) vs ! i = overlay res (vs[f := v]) ! i"
    by (cases "i = f"; cases "res ! i") (simp_all add: overlay_nth)
qed

definition res_ok :: "classes \<Rightarrow> kind list \<Rightarrow> dbval option list \<Rightarrow> bool" where
  "res_ok cs ks res \<longleftrightarrow> list_all2 (\<lambda>k q. \<forall>x. q = Some x \<longrightarrow> val_ok cs k x) ks res"

lemma res_ok_claim:
  assumes "res_ok cs ks res" and "val_ok cs (ks ! f) v"
  shows "res_ok cs ks (if res ! f = None then res[f := Some v] else res)"
proof -
  have "res_ok cs ks (res[f := Some v])"
    unfolding res_ok_def list_all2_conv_all_nth
  proof (intro conjI allI impI)
    show "length ks = length (res[f := Some v])" using assms(1) by (simp add: res_ok_def list_all2_lengthD)
  next
    fix i x assume "i < length ks" and "res[f := Some v] ! i = Some x"
    then show "val_ok cs (ks ! i) x"
      using assms by (cases "i = f") (auto simp: res_ok_def list_all2_conv_all_nth)
  qed
  then show ?thesis using assms(1) by simp
qed

lemma overlay_ok: "res_ok cs ks res \<Longrightarrow> vals_ok cs ks vs \<Longrightarrow> vals_ok cs ks (overlay res vs)"
  unfolding res_ok_def vals_ok_list_all2 list_all2_conv_all_nth
  by (auto simp: overlay_nth split: option.splits)

lemma res_ok_fresh: "res_ok cs ks (replicate (length ks) None)"
  by (simp add: res_ok_def list_all2_conv_all_nth)

text \<open>What a successful round of the loop has seen.\<close>

definition fold_state ::
  "classes \<Rightarrow> (nat \<times> u64 \<times> dbval option list) option \<Rightarrow> nat \<Rightarrow> u64 \<Rightarrow> nat \<times> u64 \<times> dbval option list"
where
  "fold_state cs st rec_cid rec_id =
     (case st of None \<Rightarrow> (rec_cid, rec_id, replicate (field_cnt (cs ! rec_cid)) None) | Some s \<Rightarrow> s)"

lemma fold_loop_elim:
  assumes run: "fold_loop mem w cs st cur hops = Inr R"
  obtains payload kind c i res r where
    "fold_read mem w cur = Some payload" "parse_head payload = Some ((kind, c, i), r)"
    "c < length cs" "fold_state cs st c i = (c, i, res)"
    "(\<exists>vs. map_parse (dec_val mem cs) (kinds (cs ! c)) r = Some (vs, []) \<and>
        R = (c, i, overlay res vs, hops)) \<or>
     (\<exists>f bk v r1 r2. f < field_cnt (cs ! c) \<and> unat bk < cur \<and>
        rd_u32 r = Some (f, r1) \<and> rd_u64 r1 = Some (bk, r2) \<and>
        dec_val mem cs (kinds (cs ! c) ! f) r2 = Some (v, []) \<and>
        fold_loop mem w cs (Some (c, i, if res ! f = None then res[f := Some v] else res))
          (unat bk) (hops + 1) = Inr R)"
proof -
  obtain payload where rd: "fold_read mem w cur = Some payload"
    using run by (subst (asm) fold_loop.simps) (auto split: option.splits)
  obtain kind rc ri r where ph: "parse_head payload = Some ((kind, rc, ri), r)"
    using run rd by (subst (asm) fold_loop.simps) (auto split: option.splits)
  obtain c i res where s: "fold_state cs st rc ri = (c, i, res)" by (cases "fold_state cs st rc ri")
  note eq = fold_loop.simps [of mem w cs st cur hops, unfolded rd ph option.case prod.case
      fold_state_def [symmetric] s]
  have lt: "rc < length cs" and same: "rc = c" "ri = i"
    using run unfolding eq by (simp_all split: if_splits)
  show thesis
  proof (cases "kind = rec_byte RDelta")
    case True
    obtain f r1 where f: "rd_u32 r = Some (f, r1)"
      using run True unfolding eq by (auto split: if_splits option.splits)
    obtain bk r2 where b: "rd_u64 r1 = Some (bk, r2)"
      using run True f unfolding eq by (auto split: if_splits option.splits)
    obtain v rest where v: "dec_val mem cs (kinds (cs ! c) ! f) r2 = Some (v, rest)"
      using run True f b unfolding eq by (auto split: if_splits option.splits)
    have "f < field_cnt (cs ! c)" "unat bk < cur" "rest = []"
      "fold_loop mem w cs (Some (c, i, if res ! f = None then res[f := Some v] else res))
          (unat bk) (hops + 1) = Inr R"
      using run True f b v unfolding eq by (auto split: if_splits)
    then show thesis using that [OF rd ph [unfolded same] _ s [unfolded same]] lt same f b v by blast
  next
    case False
    obtain vs rest where v: "map_parse (dec_val mem cs) (kinds (cs ! c)) r = Some (vs, rest)"
      using run False unfolding eq by (auto split: if_splits option.splits)
    have "rest = []" "R = (c, i, overlay res vs, hops)"
      using run False v unfolding eq by (auto split: if_splits)
    then show thesis using that [OF rd ph [unfolded same] _ s [unfolded same]] lt same v by blast
  qed
qed

lemma fold_loop_ok:
  "fold_loop mem w cs st cur hops = Inr (cid, rid, vs, h) \<Longrightarrow>
   (\<forall>c i res. st = Some (c, i, res) \<longrightarrow> res_ok cs (kinds (cs ! c)) res) \<Longrightarrow>
     cid < length cs \<and> vals_ok cs (kinds (cs ! cid)) vs"
proof (induction cur arbitrary: st hops rule: less_induct)
  case (less cur)
  show ?case
    using less.prems(1)
  proof (rule fold_loop_elim)
    fix payload kind c i res r
    assume rd: "fold_read mem w cur = Some payload" "parse_head payload = Some ((kind, c, i), r)"
      "c < length cs" "fold_state cs st c i = (c, i, res)"
    have rok: "res_ok cs (kinds (cs ! c)) res"
      using rd(4) less.prems(2) by (cases st) (auto simp: fold_state_def res_ok_fresh)
    assume "(\<exists>vsa. map_parse (dec_val mem cs) (kinds (cs ! c)) r = Some (vsa, []) \<and>
        (cid, rid, vs, h) = (c, i, overlay res vsa, hops)) \<or>
     (\<exists>f bk v r1 r2. f < field_cnt (cs ! c) \<and> unat bk < cur \<and>
        rd_u32 r = Some (f, r1) \<and> rd_u64 r1 = Some (bk, r2) \<and>
        dec_val mem cs (kinds (cs ! c) ! f) r2 = Some (v, []) \<and>
        fold_loop mem w cs (Some (c, i, if res ! f = None then res[f := Some v] else res))
          (unat bk) (hops + 1) = Inr (cid, rid, vs, h))"
    then show ?thesis
    proof
      assume "\<exists>vsa. map_parse (dec_val mem cs) (kinds (cs ! c)) r = Some (vsa, []) \<and>
        (cid, rid, vs, h) = (c, i, overlay res vsa, hops)"
      then show ?thesis using rd(3) rok overlay_ok dec_vals_ok by auto
    next
      assume "\<exists>f bk v r1 r2. f < field_cnt (cs ! c) \<and> unat bk < cur \<and>
        rd_u32 r = Some (f, r1) \<and> rd_u64 r1 = Some (bk, r2) \<and>
        dec_val mem cs (kinds (cs ! c) ! f) r2 = Some (v, []) \<and>
        fold_loop mem w cs (Some (c, i, if res ! f = None then res[f := Some v] else res))
          (unat bk) (hops + 1) = Inr (cid, rid, vs, h)"
      then obtain f v r2 and bk :: u64 where b: "unat bk < cur"
        and v: "dec_val mem cs (kinds (cs ! c) ! f) r2 = Some (v, [])"
        and run: "fold_loop mem w cs (Some (c, i, if res ! f = None then res[f := Some v] else res))
          (unat bk) (hops + 1) = Inr (cid, rid, vs, h)"
        by blast
      from less.IH [OF b run] res_ok_claim [OF rok dec_val_ok [OF v]] show ?thesis by blast
    qed
  qed
qed

lemma fold_row_ok:
  "wo_wal_fold_row_at mem w cs off = Inr (cid, rid, vs, h) \<Longrightarrow>
     cid < length cs \<and> vals_ok cs (kinds (cs ! cid)) vs"
  unfolding wo_wal_fold_row_at_def by (rule fold_loop_ok) auto

section \<open>The fold applies the deltas\<close>

text \<open>
  \<open>chain w cs cid rid off vs n\<close>: at \<open>off\<close> starts a chain of \<open>n\<close> deltas, as the engine writes
  them, over a full row; \<open>vs\<close> is that row with the deltas applied, oldest first.
\<close>

inductive chain :: "mem \<Rightarrow> wo_wal \<Rightarrow> classes \<Rightarrow> nat \<Rightarrow> u64 \<Rightarrow> nat \<Rightarrow> dbval list \<Rightarrow> nat \<Rightarrow> bool"
  for mem w cs cid rid where
  base: "fold_read mem w off = Some (row_payload cs k cid rid vs) \<Longrightarrow> k = RInsert \<or> k = RUpdate \<Longrightarrow>
     vals_ok cs (kinds (cs ! cid)) vs \<Longrightarrow> chain mem w cs cid rid off vs 0"
| delta: "fold_read mem w off = Some (delta_payload cs cid rid f bk v) \<Longrightarrow> bk < off \<Longrightarrow>
     off < 2 ^ 64 \<Longrightarrow> f < field_cnt (cs ! cid) \<Longrightarrow> val_ok cs (kinds (cs ! cid) ! f) v \<Longrightarrow>
     chain mem w cs cid rid bk vs n \<Longrightarrow> chain mem w cs cid rid off (vs[f := v]) (n + 1)"

lemma chain_vals: "chain mem w cs cid rid off vs n \<Longrightarrow> vals_ok cs (kinds (cs ! cid)) vs"
  by (induction rule: chain.induct) (auto intro: vals_ok_update)

text \<open>The sizes that fit the length fields of the log's format, which the loader guarantees.\<close>

definition classes_fit :: "classes \<Rightarrow> bool" where
  "classes_fit cs \<longleftrightarrow> length cs < 2 ^ 32 \<and> (\<forall>c\<in>set cs. field_cnt c < 2 ^ 31)"

lemma fold_loop_chain:
  assumes "chain mem w cs cid rid off vs n" and mem: "\<forall>s. mem s" and cs: "classes_fit cs"
    and cid: "cid < length cs"
  shows "fold_state cs st cid rid = (cid, rid, res) \<Longrightarrow> length res = field_cnt (cs ! cid) \<Longrightarrow>
     fold_loop mem w cs st off hops = Inr (cid, rid, overlay res vs, hops + n)"
  using assms(1)
proof (induction arbitrary: st res hops rule: chain.induct)
  case (base off k vs)
  have c32: "cid < 2 ^ 32" using cid cs by (simp add: classes_fit_def)
  have ph: "parse_head (row_payload cs k cid rid vs) =
      Some ((rec_byte k, cid, rid), enc_vals cs (kinds (cs ! cid)) vs)"
    using c32 by (simp add: row_payload_def)
  have dec: "map_parse (dec_val mem cs) (kinds (cs ! cid)) (enc_vals cs (kinds (cs ! cid)) vs) = Some (vs, [])"
    using dec_enc_vals [where mem = mem, of cs _ vs "[]"] base.hyps(3) mem by simp
  note eq = fold_loop.simps [of mem w cs st off hops, unfolded base.hyps(1) ph option.case prod.case
      fold_state_def [symmetric] base.prems(1)]
  show ?case unfolding eq using cid mem base.hyps(2) dec by auto
next
  case (delta off f bk v vs n)
  have c32: "cid < 2 ^ 32" using cid cs by (simp add: classes_fit_def)
  have "field_cnt (cs ! cid) < 2 ^ 31" using cs cid by (simp add: classes_fit_def)
  then have f32: "f < 2 ^ 32" using delta.hyps(4) by simp
  let ?body = "wput_u32 f @ wput_u64 (of_nat bk) @ enc_val cs (kinds (cs ! cid) ! f) v"
  have ph: "parse_head (delta_payload cs cid rid f bk v) = Some ((rec_byte RDelta, cid, rid), ?body)"
    using c32 by (simp add: delta_payload_def)
  have bk: "unat (of_nat bk :: u64) = bk"
    using delta.hyps(2,3) by (simp add: unat_of_nat)
  have dec: "dec_val mem cs (kinds (cs ! cid) ! f) (enc_val cs (kinds (cs ! cid) ! f) v) = Some (v, [])"
    using dec_enc_val [where mem = mem, of cs _ v "[]"] delta.hyps(5) mem by simp
  note eq = fold_loop.simps [of mem w cs st off hops, unfolded delta.hyps(1) ph option.case prod.case
      fold_state_def [symmetric] delta.prems(1)]
  let ?res = "if res ! f = None then res[f := Some v] else res"
  have "fold_loop mem w cs (Some (cid, rid, ?res)) bk (hops + 1) =
      Inr (cid, rid, overlay ?res vs, hops + 1 + n)"
    by (rule delta.IH) (use delta.prems(2) in \<open>simp_all add: fold_state_def\<close>)
  moreover have "overlay ?res vs = overlay res (vs[f := v])"
    using delta.prems(2) vals_ok_length [OF chain_vals [OF delta.hyps(6)]] by (intro overlay_claim) simp
  ultimately show ?case
    unfolding eq using cid mem delta.hyps(2,4) f32 bk dec by simp
qed

lemma fold_row_chain:
  assumes "chain mem w cs cid rid off vs n" and "\<forall>s. mem s" and "classes_fit cs" and "cid < length cs"
  shows "wo_wal_fold_row_at mem w cs off = Inr (cid, rid, vs, n)"
proof -
  have len: "length vs = field_cnt (cs ! cid)" by (rule vals_ok_length [OF chain_vals [OF assms(1)]])
  show ?thesis
    using fold_loop_chain [OF assms, of None "replicate (field_cnt (cs ! cid)) None" 0]
    by (simp add: wo_wal_fold_row_at_def fold_state_def overlay_none len)
qed

end

