(* ===== verification/Table.thy ===== *)
theory Table
  imports Index Fold
begin

text \<open>
  Class-shaped row storage (\<open>database/src/table.c\<close>, \<open>table.h\<close>): slabs of rows with an occupancy
  bitmap and a list of free slots, the id hash, the secondary indexes, and the operations that
  touch them. A table of a class with \<open>resident: keys\<close> keeps its rows in the log; its id hash
  then holds log offsets.

  What is left out: the bytes of a row's header padding, the message texts, and the buffer a
  borrowed log row is unpacked into, of which only the flag \<open>scratch_busy\<close> remains. The slot
  numbers are natural numbers (32 bits in the code), which \<open>table_inv\<close> bounds.
\<close>

section \<open>State\<close>

text \<open>\<open>row_size\<close> is 0 for a table no statement has touched yet. \<open>rows\<close> are the slabs, one behind
  the other; a fresh slab's memory is not initialized, and no operation reads it.\<close>

record db_table =
  row_size :: nat
  rows :: "db_row list"
  slab_cap :: nat
  bitmap :: "bool list"
  free_slots :: "nat list"
  free_cap :: nat
  next_id :: u64
  count :: nat
  idmap :: id_hash
  indexes :: "db_index list"
  scratch_busy :: bool

record wo_db =
  classes :: classes
  shard :: nat
  nshards :: nat
  tables :: "db_table list"

definition DB_SLAB_ROWS :: nat where "DB_SLAB_ROWS = 256"

definition empty_table :: db_table where
  "empty_table = \<lparr>row_size = 0, rows = [], slab_cap = 0, bitmap = [], free_slots = [], free_cap = 0,
     next_id = 0, count = 0, idmap = empty_hash, indexes = [], scratch_busy = False\<rparr>"

definition junk_row :: db_row where
  "junk_row = \<lparr>row_id = 0, row_class = 0, slots = []\<rparr>"

definition wo_db_init :: "mem \<Rightarrow> classes \<Rightarrow> nat \<Rightarrow> nat \<Rightarrow> wo_db option" where
  "wo_db_init mem cs sh n =
     (if n = 0 \<or> n \<le> sh then None
      else if \<not> mem ADb then None
      else Some \<lparr>classes = cs, shard = sh, nshards = n, tables = replicate (length cs) empty_table\<rparr>)"

definition set_table :: "wo_db \<Rightarrow> nat \<Rightarrow> db_table \<Rightarrow> wo_db" where
  "set_table db cid t = db\<lparr>tables := (tables db)[cid := t]\<rparr>"

definition class_of :: "wo_db \<Rightarrow> nat \<Rightarrow> wo_classdesc" where
  "class_of db cid = classes db ! cid"

definition wo_table_is_keys_resident :: "wo_db \<Rightarrow> nat \<Rightarrow> bool" where
  "wo_table_is_keys_resident db cid \<longleftrightarrow>
     cid < length (tables db) \<and> cls_flags (class_of db cid) AND WO_CLASSF_RESIDENT_KEYS \<noteq> 0"

section \<open>Tables and slots\<close>

text \<open>
  The first touch initializes the table. When the index array cannot be allocated the call fails,
  but \<open>row_size\<close> is set by then, so the next call takes the table for initialized.
\<close>

definition table_of :: "mem \<Rightarrow> wo_db \<Rightarrow> nat \<Rightarrow> bool \<times> wo_db" where
  "table_of mem db cid =
     (if length (tables db) \<le> cid then (False, db)
      else
        let t = tables db ! cid; c = class_of db cid in
        if row_size t \<noteq> 0 then (True, db)
        else
          let t1 = t\<lparr>row_size := 16 + field_cnt c * 8, next_id := of_nat (shard db + 1)\<rparr> in
          if idx_meta c = [] then (True, set_table db cid t1)
          else if \<not> mem ATabIndexes then (False, set_table db cid t1)
          else (True, set_table db cid
                 (t1\<lparr>indexes := map (\<lambda>(fl, cl). \<lparr>ix_flags = fl, cols = cl, bkeys = [], bids = [], blen = 0\<rparr>)
                       (idx_meta c)\<rparr>)))"

fun first_clear :: "bool list \<Rightarrow> nat option" where
  "first_clear [] = None"
| "first_clear (b # bs) = (if \<not> b then Some 0 else map_option Suc (first_clear bs))"

definition slot_alloc :: "mem \<Rightarrow> db_table \<Rightarrow> nat option \<times> db_table" where
  "slot_alloc mem t =
     (if free_slots t \<noteq> [] then (Some (last (free_slots t)), t\<lparr>free_slots := butlast (free_slots t)\<rparr>)
      else
        (case first_clear (bitmap t) of
           Some g \<Rightarrow> (Some g, t)
         | None \<Rightarrow>
             let full = (length (rows t) div DB_SLAB_ROWS = slab_cap t) in
             if full \<and> \<not> mem ASlabArr then (None, t)
             else
               let t1 = (if full then t\<lparr>slab_cap := (if slab_cap t \<noteq> 0 then slab_cap t * 2 else 4)\<rparr> else t) in
               if \<not> mem ASlab then (None, t1)
               else if \<not> mem ABitmap then (None, t1)
               else (Some (length (rows t1)),
                     t1\<lparr>rows := rows t1 @ replicate DB_SLAB_ROWS junk_row,
                        bitmap := bitmap t1 @ replicate DB_SLAB_ROWS False\<rparr>)))"

text \<open>A freed slot goes on the list, which may have to grow; if it cannot, the bitmap still says
  that the slot is free.\<close>

definition recycle :: "mem \<Rightarrow> db_table \<Rightarrow> nat \<Rightarrow> db_table" where
  "recycle mem t g =
     (let t1 = (if length (free_slots t) = free_cap t \<and> mem AFreeSlots
                then t\<lparr>free_cap := (if free_cap t \<noteq> 0 then free_cap t * 2 else 16)\<rparr> else t) in
      if length (free_slots t1) < free_cap t1 then t1\<lparr>free_slots := free_slots t1 @ [g]\<rparr> else t1)"

definition recycle_nogrow :: "db_table \<Rightarrow> nat \<Rightarrow> db_table" where
  "recycle_nogrow t g =
     (if length (free_slots t) < free_cap t then t\<lparr>free_slots := free_slots t @ [g]\<rparr> else t)"

section \<open>Finding and borrowing a row\<close>

text \<open>The result is the slot. On a \<open>resident: keys\<close> table a value that is no occupied slot is a log
  offset.\<close>

definition wo_row_ptr :: "wo_db \<Rightarrow> nat \<Rightarrow> u64 \<Rightarrow> nat option" where
  "wo_row_ptr db cid rid =
     (if length (tables db) \<le> cid then None
      else
        let t = tables db ! cid in
        if row_size t = 0 then None
        else
          let s1 = hget (idmap t) rid; g = unat (s1 - 1) in
          if s1 = 0 then None
          else if wo_table_is_keys_resident db cid \<and> (length (rows t) \<le> g \<or> \<not> bitmap t ! g) then None
          else Some g)"

definition keys_fold_into ::
  "mem \<Rightarrow> wo_wal \<Rightarrow> wo_db \<Rightarrow> nat \<Rightarrow> u64 \<Rightarrow> nat \<Rightarrow> (db_row \<times> nat) option" where
  "keys_fold_into mem w db cid rid off =
     (case wo_wal_fold_row_at mem w (classes db) off of
        Inl e \<Rightarrow> None
      | Inr (got_cid, got_id, vs, hops) \<Rightarrow>
          if got_cid \<noteq> cid \<or> got_id \<noteq> rid then None
          else Some (\<lparr>row_id = rid, row_class = cid, slots = vs\<rparr>, hops))"

text \<open>The row a borrow gives, and how many deltas its fold crossed. \<open>None\<close> for the log is a store
  without one.\<close>

definition borrow_row ::
  "mem \<Rightarrow> wo_wal option \<Rightarrow> wo_db \<Rightarrow> nat \<Rightarrow> u64 \<Rightarrow> (db_row \<times> nat) option" where
  "borrow_row mem wo db cid rid =
     (if \<not> wo_table_is_keys_resident db cid
      then map_option (\<lambda>g. (rows (tables db ! cid) ! g, 0)) (wo_row_ptr db cid rid)
      else
        let t = tables db ! cid in
        if row_size t = 0 then None
        else
          let durable1 = hget (idmap t) rid in
          if durable1 = 0 then None
          else
            (case wo of
               None \<Rightarrow> None
             | Some w \<Rightarrow>
                 let pending1 = wo_wal_repoint_offset1 w cid rid;
                     o1 = (if pending1 \<noteq> 0 then pending1 else unat durable1) in
                 if scratch_busy t then None
                 else if \<not> mem AScratch then None
                 else keys_fold_into mem w db cid rid (o1 - 1)))"

definition wo_row_borrow ::
  "mem \<Rightarrow> wo_wal option \<Rightarrow> wo_db \<Rightarrow> nat \<Rightarrow> u64 \<Rightarrow> (db_row \<times> nat) option \<times> wo_db" where
  "wo_row_borrow mem wo db cid rid =
     (case borrow_row mem wo db cid rid of
        None \<Rightarrow> (None, db)
      | Some b \<Rightarrow>
          (Some b,
           if wo_table_is_keys_resident db cid
           then set_table db cid ((tables db ! cid)\<lparr>scratch_busy := True\<rparr>) else db))"

definition wo_row_release :: "wo_db \<Rightarrow> nat \<Rightarrow> wo_db" where
  "wo_row_release db cid =
     (if length (tables db) \<le> cid then db
      else if scratch_busy (tables db ! cid)
      then set_table db cid ((tables db ! cid)\<lparr>scratch_busy := False\<rparr>) else db)"

text \<open>The accessor the indexes use: borrowed, looked at and released at once.\<close>

definition peek_row :: "mem \<Rightarrow> wo_wal option \<Rightarrow> wo_db \<Rightarrow> nat \<Rightarrow> u64 \<Rightarrow> db_row option" where
  "peek_row mem wo db cid rid = map_option fst (fst (wo_row_borrow mem wo db cid rid))"

datatype read_res = NoSuchRow | DecodeOom | RowVals "vmval list"

definition wo_row_read :: "mem \<Rightarrow> wo_wal option \<Rightarrow> wo_db \<Rightarrow> nat \<Rightarrow> u64 \<Rightarrow> read_res" where
  "wo_row_read mem wo db cid rid =
     (case peek_row mem wo db cid rid of
        None \<Rightarrow> NoSuchRow
      | Some r \<Rightarrow>
          (case decode_all mem (classes db) (kinds (class_of db cid)) (slots r) of
             Inl e \<Rightarrow> DecodeOom
           | Inr vs \<Rightarrow> RowVals vs))"

section \<open>Inserting\<close>

text \<open>
  The two inserts differ in where the slots come from and in what they undo when the id hash
  cannot grow. The result is the error class or the new id.
\<close>

definition undo_insert :: "wo_db \<Rightarrow> db_table \<Rightarrow> nat \<Rightarrow> u64 \<Rightarrow> db_table" where
  "undo_insert db t g rid =
     recycle_nogrow
       (t\<lparr>bitmap := (bitmap t)[g := False], idmap := hdel (idmap t) rid,
          count := count t - 1, next_id := next_id t - of_nat (nshards db)\<rparr>) g"

definition wo_row_insert ::
  "mem \<Rightarrow> wo_wal option \<Rightarrow> wo_db \<Rightarrow> nat \<Rightarrow> vmval list \<Rightarrow> (db_err + u64) \<times> wo_db" where
  "wo_row_insert mem wo db0 cid args =
     (case table_of mem db0 cid of
        (False, db) \<Rightarrow> (Inl DB_ERR_MISC, db)
      | (True, db) \<Rightarrow>
          let c = class_of db cid in
          (case slot_alloc mem (tables db ! cid) of
             (None, t) \<Rightarrow> (Inl DB_ERR_MISC, set_table db cid t)
           | (Some g, t) \<Rightarrow>
               (case encode_all mem (classes db) (kinds c) args of
                  Inl e \<Rightarrow> (Inl DB_ERR_BADKIND, set_table db cid (recycle mem t g))
                | Inr ds \<Rightarrow>
                    let rid = next_id t;
                        r = \<lparr>row_id = rid, row_class = cid, slots = ds\<rparr>;
                        t1 = t\<lparr>rows := (rows t)[g := r], next_id := next_id t + of_nat (nshards db)\<rparr> in
                    (case hput mem (idmap t1) rid (of_nat g + 1) of
                       None \<Rightarrow> (Inl DB_ERR_OOM, set_table db cid t1)
                     | Some h \<Rightarrow>
                         let t2 = t1\<lparr>idmap := h, bitmap := (bitmap t1)[g := True], count := count t1 + 1\<rparr>;
                             db2 = set_table db cid t2 in
                         (case idx_add_row mem c (peek_row mem wo db2 cid) (indexes t2) r of
                            (ixs, e) \<Rightarrow>
                              let t3 = t2\<lparr>indexes := ixs\<rparr> in
                              if e \<noteq> DB_ERR_NONE
                              then (Inl e, set_table db cid (undo_insert db t3 g rid))
                              else (Inr rid, set_table db cid t3))))))"

definition wo_row_insert_slots ::
  "mem \<Rightarrow> wo_wal option \<Rightarrow> wo_db \<Rightarrow> nat \<Rightarrow> dbval list \<Rightarrow> (db_err + u64) \<times> wo_db" where
  "wo_row_insert_slots mem wo db0 cid ds =
     (case table_of mem db0 cid of
        (False, db) \<Rightarrow> (Inl DB_ERR_MISC, db)
      | (True, db) \<Rightarrow>
          let c = class_of db cid in
          (case slot_alloc mem (tables db ! cid) of
             (None, t) \<Rightarrow> (Inl DB_ERR_OOM, set_table db cid t)
           | (Some g, t) \<Rightarrow>
               let rid = next_id t;
                   r = \<lparr>row_id = rid, row_class = cid, slots = ds\<rparr>;
                   t1 = t\<lparr>rows := (rows t)[g := r], next_id := next_id t + of_nat (nshards db)\<rparr> in
               (case hput mem (idmap t1) rid (of_nat g + 1) of
                  None \<Rightarrow>
                    (Inl DB_ERR_OOM,
                     set_table db cid
                       (recycle_nogrow (t1\<lparr>next_id := next_id t1 - of_nat (nshards db)\<rparr>) g))
                | Some h \<Rightarrow>
                    let t2 = t1\<lparr>idmap := h, bitmap := (bitmap t1)[g := True], count := count t1 + 1\<rparr>;
                        db2 = set_table db cid t2 in
                    (case idx_add_row mem c (peek_row mem wo db2 cid) (indexes t2) r of
                       (ixs, e) \<Rightarrow>
                         let t3 = t2\<lparr>indexes := ixs\<rparr> in
                         if e \<noteq> DB_ERR_NONE
                         then (Inl e, set_table db cid (undo_insert db t3 g rid))
                         else (Inr rid, set_table db cid t3)))))"

text \<open>Replay creates a row under its logged id, with zeroed slots, and indexes it once filled.\<close>

definition wo_row_create_raw :: "mem \<Rightarrow> wo_db \<Rightarrow> nat \<Rightarrow> u64 \<Rightarrow> nat option \<times> wo_db" where
  "wo_row_create_raw mem db0 cid rid =
     (case table_of mem db0 cid of
        (False, db) \<Rightarrow> (None, db)
      | (True, db) \<Rightarrow>
          if rid = 0 then (None, db)
          else if hget (idmap (tables db ! cid)) rid \<noteq> 0 then (None, db)
          else
            (case slot_alloc mem (tables db ! cid) of
               (None, t) \<Rightarrow> (None, set_table db cid t)
             | (Some g, t) \<Rightarrow>
                 let r = \<lparr>row_id = rid, row_class = cid,
                          slots = map zero_slot (kinds (class_of db cid))\<rparr>;
                     t1 = t\<lparr>rows := (rows t)[g := r]\<rparr> in
                 (case hput mem (idmap t1) rid (of_nat g + 1) of
                    None \<Rightarrow> (None, set_table db cid t1)
                  | Some h \<Rightarrow>
                      let t2 = t1\<lparr>idmap := h, bitmap := (bitmap t1)[g := True], count := count t1 + 1\<rparr> in
                      (Some g,
                       set_table db cid
                         (if (unat rid - 1) mod nshards db = shard db \<and> next_id t2 \<le> rid
                          then t2\<lparr>next_id := rid + of_nat (nshards db)\<rparr> else t2)))))"

definition set_slots :: "wo_db \<Rightarrow> nat \<Rightarrow> nat \<Rightarrow> dbval list \<Rightarrow> wo_db" where
  "set_slots db cid g vs =
     (let t = tables db ! cid in
      set_table db cid (t\<lparr>rows := (rows t)[g := (rows t ! g)\<lparr>slots := vs\<rparr>]\<rparr>))"

definition wo_row_raw_commit :: "mem \<Rightarrow> wo_wal option \<Rightarrow> wo_db \<Rightarrow> nat \<Rightarrow> nat \<Rightarrow> bool \<times> wo_db" where
  "wo_row_raw_commit mem wo db cid g =
     (let t = tables db ! cid in
      (case idx_add_row mem (class_of db cid) (peek_row mem wo db cid) (indexes t) (rows t ! g) of
         (ixs, e) \<Rightarrow> (e = DB_ERR_NONE, set_table db cid (t\<lparr>indexes := ixs\<rparr>))))"

section \<open>Removing\<close>

definition wo_row_remove :: "mem \<Rightarrow> wo_wal option \<Rightarrow> wo_db \<Rightarrow> nat \<Rightarrow> u64 \<Rightarrow> bool \<times> wo_db" where
  "wo_row_remove mem wo db cid rid =
     (if length (tables db) \<le> cid then (False, db)
      else
        let t = tables db ! cid; c = class_of db cid; s1 = hget (idmap t) rid in
        if row_size t = 0 then (False, db)
        else if s1 = 0 then (False, db)
        else if wo_table_is_keys_resident db cid then
          (case wo_row_borrow mem wo db cid rid of
             (None, db') \<Rightarrow> (False, db')
           | (Some (r, hops), db1) \<Rightarrow>
               let t1 = tables db1 ! cid;
                   db2 = wo_row_release
                     (set_table db1 cid (t1\<lparr>indexes := idx_remove_row c (indexes t1) r\<rparr>)) cid;
                   t2 = tables db2 ! cid in
               (True, set_table db2 cid (t2\<lparr>idmap := hdel (idmap t2) rid, count := count t2 - 1\<rparr>)))
        else
          let g = unat (s1 - 1);
              t1 = t\<lparr>indexes := idx_remove_row c (indexes t) (rows t ! g),
                     bitmap := (bitmap t)[g := False],
                     idmap := hdel (idmap t) rid, count := count t - 1\<rparr> in
          (True, set_table db cid (recycle mem t1 g)))"

section \<open>Updating\<close>

definition touches :: "db_index \<Rightarrow> nat \<Rightarrow> bool" where
  "touches ix field = list_ex (\<lambda>col. col = field) (cols ix)"

text \<open>The unique check of an update: another row of the bucket with the new columns.\<close>

definition shadow_clash ::
  "wo_classdesc \<Rightarrow> (u64 \<Rightarrow> db_row option) \<Rightarrow> nat \<Rightarrow> u64 \<Rightarrow> db_row \<Rightarrow> db_index \<Rightarrow> bool" where
  "shadow_clash c borrow field rid r ix =
     (ix_unique ix \<and> touches ix field \<and>
      (case idx_find ix (idx_hash c ix r) of
         None \<Rightarrow> False
       | Some j \<Rightarrow>
           list_ex (\<lambda>i. i \<noteq> rid \<and>
               (case borrow i of None \<Rightarrow> False | Some other \<Rightarrow> idx_cols_equal c ix r other))
             (fst (bids ix ! j))))"

text \<open>Out under the old value, in under the new one; an id that cannot be added is dropped.\<close>

fun reindex_field ::
  "mem \<Rightarrow> nat \<Rightarrow> wo_classdesc \<Rightarrow> nat \<Rightarrow> db_row \<Rightarrow> db_row \<Rightarrow> db_index list \<Rightarrow> db_index list" where
  "reindex_field mem x c field r_old r_new [] = []"
| "reindex_field mem x c field r_old r_new (ix # ixs) =
     (if touches ix field then fst (idx_add_one mem x c (idx_remove_one c r_old ix) r_new) else ix) #
     reindex_field mem (x + 1) c field r_old r_new ixs"

definition row_apply_field_slot ::
  "mem \<Rightarrow> wo_wal option \<Rightarrow> wo_db \<Rightarrow> nat \<Rightarrow> nat \<Rightarrow> u64 \<Rightarrow> nat \<Rightarrow> dbval \<Rightarrow> db_err \<times> wo_db" where
  "row_apply_field_slot mem wo db cid g rid field nv =
     (let t = tables db ! cid; c = class_of db cid; r_old = rows t ! g;
          r_new = r_old\<lparr>slots := (slots r_old)[field := nv]\<rparr>;
          shadow = set_slots db cid g (slots r_new) in
      if list_ex (shadow_clash c (peek_row mem wo shadow cid) field rid r_new) (indexes t)
      then (DB_ERR_UNIQUE, db)
      else (DB_ERR_NONE,
            set_table db cid
              (t\<lparr>rows := (rows t)[g := r_new],
                 indexes := reindex_field mem 0 c field r_old r_new (indexes t)\<rparr>)))"

definition WO_DELTA_MAX_HOPS :: nat where "WO_DELTA_MAX_HOPS = 16"

text \<open>
  A row that lives in the log: its new value is appended, as a delta to its newest record or, past
  the bound, as a full row. Nothing moves the id hash here; the caller notes the offset. A record
  that cannot be staged ends the process. \<open>peek\<close> looks at the other rows of the table without
  the borrow's buffer, at their pending offset if they have one.
\<close>

definition cand_row :: "mem \<Rightarrow> wo_wal \<Rightarrow> wo_db \<Rightarrow> nat \<Rightarrow> u64 \<Rightarrow> db_row option" where
  "cand_row mem w db cid i =
     (let o0 = wo_wal_repoint_offset1 w cid i;
          o1 = (if o0 \<noteq> 0 then o0 else unat (hget (idmap (tables db ! cid)) i)) in
      if o1 = 0 then None else map_option fst (keys_fold_into mem w db cid i (o1 - 1)))"

definition row_apply_field_keys ::
  "mem \<Rightarrow> wo_wal option \<Rightarrow> wo_db \<Rightarrow> nat \<Rightarrow> u64 \<Rightarrow> nat \<Rightarrow> dbval \<Rightarrow>
   (db_err \<times> wo_db \<times> wo_wal option) outcome" where
  "row_apply_field_keys mem wo db cid rid field nv =
     (case wo_row_borrow mem wo db cid rid of
        (None, db') \<Rightarrow> Lives (DB_ERR_MISC, db', wo)
      | (Some (r_old, hops), db1) \<Rightarrow>
          (case wo of
             None \<Rightarrow> Lives (DB_ERR_MISC, db, wo)
           | Some w \<Rightarrow>
               let t = tables db1 ! cid; c = class_of db1 cid;
                   pending1 = wo_wal_repoint_offset1 w cid rid;
                   back_off = (if pending1 \<noteq> 0 then pending1 else unat (hget (idmap t) rid)) - 1;
                   r_new = r_old\<lparr>slots := (slots r_old)[field := nv]\<rparr>;
                   probed = list_ex (\<lambda>ix. ix_unique ix \<and> touches ix field \<and>
                              idx_find ix (idx_hash c ix r_new) \<noteq> None) (indexes t) in
               if probed \<and> \<not> mem ACand then Lives (DB_ERR_OOM, wo_row_release db1 cid, wo)
               else if list_ex (shadow_clash c (cand_row mem w db1 cid) field rid r_new) (indexes t)
               then Lives (DB_ERR_UNIQUE, wo_row_release db1 cid, wo)
               else
                 let t1 = t\<lparr>indexes := idx_remove_row c (indexes t) r_old\<rparr>;
                     db2 = set_table db1 cid t1;
                     t2 = t1\<lparr>indexes := fst (idx_add_row mem c (peek_row mem wo db2 cid) (indexes t1) r_new)\<rparr>;
                     db3 = set_table db1 cid t2 in
                 (case (if WO_DELTA_MAX_HOPS \<le> hops
                        then wo_wal_append_row_image mem w (classes db) cid rid (slots r_new)
                        else wo_wal_append_delta mem w (classes db) cid rid field back_off nv) of
                    (False, w') \<Rightarrow> Dies (fbytes w')
                  | (True, w') \<Rightarrow> Lives (DB_ERR_NONE, wo_row_release db3 cid, Some w'))))"

definition wo_row_offset1 :: "wo_db \<Rightarrow> nat \<Rightarrow> u64 \<Rightarrow> u64" where
  "wo_row_offset1 db cid rid =
     (if length (tables db) \<le> cid then 0 else hget (idmap (tables db ! cid)) rid)"

definition wo_row_update_field_slot ::
  "mem \<Rightarrow> wo_wal option \<Rightarrow> wo_db \<Rightarrow> nat \<Rightarrow> u64 \<Rightarrow> nat \<Rightarrow> dbval \<Rightarrow>
   (db_err \<times> wo_db \<times> wo_wal option) outcome" where
  "wo_row_update_field_slot mem wo db cid rid field nv =
     (if length (tables db) \<le> cid then Lives (DB_ERR_MISC, db, wo)
      else if field_cnt (class_of db cid) \<le> field then Lives (DB_ERR_MISC, db, wo)
      else if wo_table_is_keys_resident db cid then row_apply_field_keys mem wo db cid rid field nv
      else
        (case wo_row_ptr db cid rid of
           None \<Rightarrow> Lives (DB_ERR_MISC, db, wo)
         | Some g \<Rightarrow>
             (case row_apply_field_slot mem wo db cid g rid field nv of
                (e, db') \<Rightarrow> Lives (e, db', wo))))"

definition wo_row_update_field ::
  "mem \<Rightarrow> wo_wal option \<Rightarrow> wo_db \<Rightarrow> nat \<Rightarrow> u64 \<Rightarrow> nat \<Rightarrow> vmval \<Rightarrow>
   (db_err \<times> wo_db \<times> wo_wal option) outcome" where
  "wo_row_update_field mem wo db cid rid field v =
     (if wo_table_is_keys_resident db cid then
        (if wo_row_offset1 db cid rid = 0 then Lives (DB_ERR_MISC, db, wo)
         else if field_cnt (class_of db cid) \<le> field then Lives (DB_ERR_MISC, db, wo)
         else
           (case db_val_encode mem (classes db) (kinds (class_of db cid) ! field) v of
              Inl e \<Rightarrow> Lives (DB_ERR_BADKIND, db, wo)
            | Inr nv \<Rightarrow> row_apply_field_keys mem wo db cid rid field nv))
      else
        (case wo_row_ptr db cid rid of
           None \<Rightarrow> Lives (DB_ERR_MISC, db, wo)
         | Some g \<Rightarrow>
             if field_cnt (class_of db cid) \<le> field then Lives (DB_ERR_MISC, db, wo)
             else
               (case db_val_encode mem (classes db) (kinds (class_of db cid) ! field) v of
                  Inl e \<Rightarrow> Lives (DB_ERR_BADKIND, db, wo)
                | Inr nv \<Rightarrow>
                    (case row_apply_field_slot mem wo db cid g rid field nv of
                       (e, db') \<Rightarrow> Lives (e, db', wo)))))"

section \<open>References, iteration, and moving a row to the log\<close>

definition wo_row_has_referrers :: "wo_db \<Rightarrow> nat \<Rightarrow> u64 \<Rightarrow> bool" where
  "wo_row_has_referrers db cid rid =
     (rid \<noteq> 0 \<and>
      list_ex (\<lambda>c.
        let cd = class_of db c; t = tables db ! c in
        row_size t \<noteq> 0 \<and>
        (case field_class cd of
           None \<Rightarrow> False
         | Some fc \<Rightarrow>
             list_ex (\<lambda>fld.
               kinds cd ! fld = KScalar \<and> fc ! fld = of_nat cid \<and>
               list_ex (\<lambda>g. bitmap t ! g \<and> slot_word (slots (rows t ! g) ! fld) = rid)
                 [0..<length (rows t)])
               [0..<field_cnt cd]))
        [0..<length (tables db)])"

text \<open>The iterator: the next id at or behind the cursor, and the new cursor.\<close>

definition wo_row_next_id :: "wo_db \<Rightarrow> nat \<Rightarrow> nat \<Rightarrow> (u64 \<times> nat) option" where
  "wo_row_next_id db cid cursor =
     (if length (tables db) \<le> cid then None
      else
        let t = tables db ! cid in
        if row_size t = 0 then None
        else if wo_table_is_keys_resident db cid then
          map_option (\<lambda>j. (hkeys (idmap t) ! j, j + 1))
            (List.find (\<lambda>j. hkeys (idmap t) ! j \<noteq> 0 \<and> hvals (idmap t) ! j \<noteq> 0)
              [cursor..<length (hkeys (idmap t))])
        else
          map_option (\<lambda>g. (row_id (rows t ! g), g + 1))
            (List.find (\<lambda>g. bitmap t ! g) [cursor..<length (rows t)]))"

definition wo_row_drop_payload :: "mem \<Rightarrow> wo_db \<Rightarrow> nat \<Rightarrow> u64 \<Rightarrow> nat \<Rightarrow> bool \<times> wo_db" where
  "wo_row_drop_payload mem db cid rid wal_off =
     (if length (tables db) \<le> cid then (False, db)
      else
        let t = tables db ! cid; s1 = hget (idmap t) rid in
        if row_size t = 0 then (False, db)
        else if s1 = 0 then (False, db)
        else
          let g = unat (s1 - 1); t1 = t\<lparr>bitmap := (bitmap t)[g := False]\<rparr> in
          (case hput mem (idmap t1) rid (of_nat wal_off + 1) of
             None \<Rightarrow> (False, set_table db cid t1)
           | Some h \<Rightarrow> (True, set_table db cid (recycle mem (t1\<lparr>idmap := h\<rparr>) g))))"

definition wo_row_set_offset :: "wo_db \<Rightarrow> nat \<Rightarrow> u64 \<Rightarrow> nat \<Rightarrow> bool \<times> wo_db" where
  "wo_row_set_offset db cid rid wal_off =
     (if length (tables db) \<le> cid then (False, db)
      else
        (case hset (idmap (tables db ! cid)) rid (of_nat wal_off + 1) of
           None \<Rightarrow> (False, db)
         | Some h \<Rightarrow> (True, set_table db cid ((tables db ! cid)\<lparr>idmap := h\<rparr>))))"

definition wo_idx_probe ::
  "mem \<Rightarrow> wo_wal option \<Rightarrow> wo_db \<Rightarrow> nat \<Rightarrow> nat \<Rightarrow> u64 \<Rightarrow> bytes option \<Rightarrow> probe_res" where
  "wo_idx_probe mem wo db cid index key_scalar key_bytes =
     (if length (tables db) \<le> cid then CannotProbe
      else
        let t = tables db ! cid in
        if row_size t = 0 \<or> length (indexes t) \<le> index then CannotProbe
        else idx_probe mem (class_of db cid) (peek_row mem wo db cid) (indexes t ! index)
               key_scalar key_bytes)"

end
