(* ===== verification/TableInv.thy ===== *)
theory TableInv
  imports Table
begin

text \<open>
  The invariant of a table whose rows are in memory, and what the row operations do to its
  contents. \<open>live_rows db cid\<close> is the table as a map from ids to rows. Shown: the slot of every
  live row is its own, free slots are free, the ids are fresh and belong to the shard, the indexes
  hold exactly the live rows and the unique ones have no duplicates; insert, remove, update and
  replay's creation change the map at one id and keep all of this, and a refused statement
  changes nothing of it.
\<close>

section \<open>The table as a map\<close>

definition row_at :: "db_table \<Rightarrow> u64 \<Rightarrow> db_row option" where
  "row_at t i =
     (if h_live i \<and> hget (idmap t) i \<noteq> 0 then Some (rows t ! unat (hget (idmap t) i - 1)) else None)"

definition live_rows :: "wo_db \<Rightarrow> nat \<Rightarrow> u64 \<Rightarrow> db_row option" where
  "live_rows db cid i =
     (if length (tables db) \<le> cid \<or> wo_table_is_keys_resident db cid \<or> row_size (tables db ! cid) = 0
      then None
      else
        (case row_at (tables db ! cid) i of
           None \<Rightarrow> None
         | Some r \<Rightarrow> if row_id r = i then Some r else None))"

lemma peek_row_at:
  assumes "cid < length (tables db)" and "\<not> wo_table_is_keys_resident db cid"
    and "row_size (tables db ! cid) \<noteq> 0" and "row_at (tables db ! cid) i = Some r"
  shows "peek_row mem wo db cid i = Some r"
  using assms
  by (auto simp: peek_row_def wo_row_borrow_def borrow_row_def wo_row_ptr_def row_at_def Let_def
      split: if_splits)

text \<open>The table provides what its indexes rely on.\<close>

interpretation tr: row_source "peek_row mem wo db cid" "live_rows db cid" for mem wo db cid
proof
  fix i r assume "live_rows db cid i = Some r"
  then have *: "cid < length (tables db)" "\<not> wo_table_is_keys_resident db cid"
    "row_size (tables db ! cid) \<noteq> 0" "row_at (tables db ! cid) i = Some r" "row_id r = i"
    by (auto simp: live_rows_def not_le split: if_splits option.splits)
  show "peek_row mem wo db cid i = Some r" by (rule peek_row_at [OF *(1-4)])
  show "row_id r = i" by fact
qed

section \<open>The slots\<close>

definition slots_inv :: "classes \<Rightarrow> wo_classdesc \<Rightarrow> nat \<Rightarrow> db_table \<Rightarrow> bool" where
  "slots_inv cs c cid t \<longleftrightarrow>
     length (bitmap t) = length (rows t) \<and> length (rows t) < 2 ^ 32 \<and> hash_inv (idmap t) \<and>
     (\<forall>g<length (rows t). bitmap t ! g \<longrightarrow>
        h_live (row_id (rows t ! g)) \<and> hget (idmap t) (row_id (rows t ! g)) = of_nat g + 1 \<and>
        row_class (rows t ! g) = cid \<and> vals_ok cs (kinds c) (slots (rows t ! g))) \<and>
     (\<forall>i. h_live i \<longrightarrow> hget (idmap t) i \<noteq> 0 \<longrightarrow>
        (\<exists>g<length (rows t). bitmap t ! g \<and> row_id (rows t ! g) = i)) \<and>
     distinct (free_slots t) \<and> (\<forall>g\<in>set (free_slots t). g < length (rows t) \<and> \<not> bitmap t ! g)"

lemma of_nat_slot:
  assumes "g < 2 ^ 32"
  shows "unat ((of_nat g + 1 :: u64) - 1) = g" and "(of_nat g + 1 :: u64) \<noteq> 0"
    and "g' < 2 ^ 32 \<Longrightarrow> (of_nat g + 1 :: u64) = of_nat g' + 1 \<Longrightarrow> g = g'"
proof -
  have u: "unat (of_nat n :: u64) = n" if "n < 2 ^ 33" for n :: nat
    using that by (simp add: unat_of_nat)
  show "unat ((of_nat g + 1 :: u64) - 1) = g" using u [of g] assms by simp
  have "unat (of_nat (g + 1) :: u64) = g + 1" using u [of "g + 1"] assms by simp
  then show "(of_nat g + 1 :: u64) \<noteq> 0" by (metis add_is_0 of_nat_1 of_nat_add one_neq_zero unsigned_0)
  assume g': "g' < 2 ^ 32" and "(of_nat g + 1 :: u64) = of_nat g' + 1"
  then have "unat (of_nat g :: u64) = unat (of_nat g' :: u64)" by simp
  then show "g = g'" using u [of g] u [of g'] assms g' by simp
qed

lemma row_at_slot:
  assumes inv: "slots_inv cs c cid t" and g: "g < length (rows t)" "bitmap t ! g"
  shows "row_at t (row_id (rows t ! g)) = Some (rows t ! g)"
  using assms of_nat_slot [of g] by (simp add: slots_inv_def row_at_def)

lemma row_at_Some:
  assumes inv: "slots_inv cs c cid t" and r: "row_at t i = Some r"
  obtains g where "g < length (rows t)" and "bitmap t ! g" and "rows t ! g = r" and "row_id r = i"
    and "hget (idmap t) i = of_nat g + 1" and "h_live i"
proof -
  from r have i: "h_live i" "hget (idmap t) i \<noteq> 0" by (auto simp: row_at_def split: if_splits)
  then obtain g where g: "g < length (rows t)" "bitmap t ! g" "row_id (rows t ! g) = i"
    using inv by (auto simp: slots_inv_def)
  have "hget (idmap t) i = of_nat g + 1" using inv g by (auto simp: slots_inv_def)
  with row_at_slot [OF inv g(1,2)] g r i that show thesis by simp
qed

lemma row_at_id: "slots_inv cs c cid t \<Longrightarrow> row_at t i = Some r \<Longrightarrow> row_id r = i"
  by (erule (1) row_at_Some) simp

lemma row_at_vals:
  "slots_inv cs c cid t \<Longrightarrow> row_at t i = Some r \<Longrightarrow> vals_ok cs (kinds c) (slots r) \<and> row_class r = cid"
proof -
  assume inv: "slots_inv cs c cid t" and r: "row_at t i = Some r"
  from inv r obtain g where "g < length (rows t)" "bitmap t ! g" "rows t ! g = r" by (rule row_at_Some)
  then show ?thesis using inv by (auto simp: slots_inv_def)
qed

text \<open>Two rows never share a slot.\<close>

lemma slots_distinct:
  "slots_inv cs c cid t \<Longrightarrow> g < length (rows t) \<Longrightarrow> bitmap t ! g \<Longrightarrow> g' < length (rows t) \<Longrightarrow>
     bitmap t ! g' \<Longrightarrow> row_id (rows t ! g) = row_id (rows t ! g') \<Longrightarrow> g = g'"
proof -
  assume inv: "slots_inv cs c cid t" and g: "g < length (rows t)" "bitmap t ! g"
    "g' < length (rows t)" "bitmap t ! g'" "row_id (rows t ! g) = row_id (rows t ! g')"
  have "hget (idmap t) (row_id (rows t ! g)) = of_nat g + 1" using inv g(1,2) by (simp add: slots_inv_def)
  moreover have "hget (idmap t) (row_id (rows t ! g')) = of_nat g' + 1"
    using inv g(3,4) by (simp add: slots_inv_def)
  ultimately have "(of_nat g + 1 :: u64) = of_nat g' + 1" using g(5) by simp
  moreover have "g < 2 ^ 32" "g' < 2 ^ 32" using inv g by (simp_all add: slots_inv_def)
  ultimately show ?thesis by (intro of_nat_slot(3))
qed

text \<open>An operation that leaves the slots, the bitmap and the id hash leaves the map.\<close>

lemma slots_inv_cong:
  assumes "slots_inv cs c cid t" and "rows t' = rows t" and "bitmap t' = bitmap t"
    and "idmap t' = idmap t" and "free_slots t' = free_slots t"
  shows "slots_inv cs c cid t'" and "row_at t' = row_at t"
  using assms by (auto simp: slots_inv_def row_at_def)

section \<open>Allocating and recycling\<close>

lemma first_clear_Some: "first_clear bs = Some g \<Longrightarrow> g < length bs \<and> \<not> bs ! g"
  by (induction bs arbitrary: g) (auto split: if_splits)

lemma row_at_append:
  assumes inv: "slots_inv cs c cid t" and t': "rows t' = rows t @ xs" "idmap t' = idmap t"
  shows "row_at t' = row_at t"
proof
  fix i show "row_at t' i = row_at t i"
  proof (cases "row_at t i")
    case None
    then show ?thesis using t' by (simp add: row_at_def split: if_splits)
  next
    case (Some r)
    from inv Some obtain g where g: "g < length (rows t)" "rows t ! g = r"
      "hget (idmap t) i = of_nat g + 1" "h_live i"
      by (rule row_at_Some)
    then have "unat (hget (idmap t) i - 1) = g" using inv of_nat_slot(1) [of g] by (simp add: slots_inv_def)
    then show ?thesis using Some t' g by (simp add: row_at_def nth_append split: if_splits)
  qed
qed

lemma slot_alloc_ok:
  assumes inv: "slots_inv cs c cid t" and room: "length (rows t) + DB_SLAB_ROWS < 2 ^ 32"
    and al: "slot_alloc mem t = (Some g, t')"
  shows "slots_inv cs c cid t' \<and> row_at t' = row_at t \<and> g < length (rows t') \<and> \<not> bitmap t' ! g \<and>
    g \<notin> set (free_slots t') \<and> idmap t' = idmap t \<and> next_id t' = next_id t \<and>
    indexes t' = indexes t \<and> row_size t' = row_size t \<and> scratch_busy t' = scratch_busy t"
proof (cases "free_slots t = []")
  case False
  then obtain fs l where fs: "free_slots t = fs @ [l]" by (metis rev_exhaust)
  have t': "g = l" "t' = t\<lparr>free_slots := fs\<rparr>" using al fs by (auto simp: slot_alloc_def)
  show ?thesis using inv fs by (auto simp: t' slots_inv_def row_at_def fun_eq_iff)
next
  case True
  show ?thesis
  proof (cases "first_clear (bitmap t)")
    case (Some g')
    then have "g' = g" "t' = t" using al True by (auto simp: slot_alloc_def)
    then show ?thesis using inv True first_clear_Some [OF Some] by (auto simp: slots_inv_def)
  next
    case None
    have t': "g = length (rows t)" "rows t' = rows t @ replicate DB_SLAB_ROWS junk_row"
      "bitmap t' = bitmap t @ replicate DB_SLAB_ROWS False" "idmap t' = idmap t"
      "next_id t' = next_id t" "indexes t' = indexes t" "row_size t' = row_size t"
      "free_slots t' = []" "scratch_busy t' = scratch_busy t"
      using al True None by (auto simp: slot_alloc_def Let_def split: if_splits)
    have ra: "row_at t' = row_at t" by (rule row_at_append [OF inv t'(2,4)])
    have len: "length (bitmap t) = length (rows t)" using inv by (simp add: slots_inv_def)
    have "slots_inv cs c cid t'"
      unfolding slots_inv_def
    proof (intro conjI allI impI ballI)
      fix g assume "g < length (rows t')" and "bitmap t' ! g"
      then have "g < length (rows t) \<and> bitmap t ! g \<and> rows t' ! g = rows t ! g"
        using len by (auto simp: t' nth_append split: if_splits)
      then show "h_live (row_id (rows t' ! g))" and "hget (idmap t') (row_id (rows t' ! g)) = of_nat g + 1"
        and "row_class (rows t' ! g) = cid" and "vals_ok cs (kinds c) (slots (rows t' ! g))"
        using inv by (auto simp: slots_inv_def t'(4))
    next
      fix i assume "h_live i" and "hget (idmap t') i \<noteq> 0"
      then obtain g where "g < length (rows t)" "bitmap t ! g" "row_id (rows t ! g) = i"
        using inv by (auto simp: slots_inv_def t'(4))
      then show "\<exists>g<length (rows t'). bitmap t' ! g \<and> row_id (rows t' ! g) = i"
        using len by (intro exI [of _ g]) (simp add: t' nth_append)
    qed (use inv room len in \<open>auto simp: t' slots_inv_def\<close>)
    with ra t' len show ?thesis by (simp add: nth_append DB_SLAB_ROWS_def)
  qed
qed

lemma slot_alloc_fail:
  "slot_alloc mem t = (None, t') \<Longrightarrow> \<exists>n. t' = t\<lparr>slab_cap := n\<rparr>"
  by (auto simp: slot_alloc_def Let_def split: if_splits option.splits)
    (metis db_table.surjective db_table.update_convs(3))+

lemma slot_alloc_total: "\<forall>s. mem s \<Longrightarrow> fst (slot_alloc mem t) \<noteq> None"
  by (auto simp: slot_alloc_def Let_def split: option.splits)

lemma recycle_ok:
  assumes "slots_inv cs c cid t" and "g < length (rows t)" and "\<not> bitmap t ! g" and "g \<notin> set (free_slots t)"
  shows "slots_inv cs c cid (recycle mem t g)" and "row_at (recycle mem t g) = row_at t"
    and "slots_inv cs c cid (recycle_nogrow t g)" and "row_at (recycle_nogrow t g) = row_at t"
  using assms by (auto simp: recycle_def recycle_nogrow_def Let_def slots_inv_def row_at_def fun_eq_iff)

lemma recycle_frame [simp, frame_simps]:
  "idmap (recycle mem t g) = idmap t" "next_id (recycle mem t g) = next_id t"
  "indexes (recycle mem t g) = indexes t" "row_size (recycle mem t g) = row_size t"
  "rows (recycle mem t g) = rows t" "scratch_busy (recycle mem t g) = scratch_busy t"
  "bitmap (recycle mem t g) = bitmap t"
  "idmap (recycle_nogrow t g) = idmap t" "next_id (recycle_nogrow t g) = next_id t"
  "indexes (recycle_nogrow t g) = indexes t" "row_size (recycle_nogrow t g) = row_size t"
  "rows (recycle_nogrow t g) = rows t" "scratch_busy (recycle_nogrow t g) = scratch_busy t"
  "bitmap (recycle_nogrow t g) = bitmap t"
  by (simp_all add: recycle_def recycle_nogrow_def Let_def)

section \<open>Placing a row, clearing a slot\<close>

lemma place_ok:
  assumes inv: "slots_inv cs c cid t" and g: "g < length (rows t)" "\<not> bitmap t ! g" "g \<notin> set (free_slots t)"
    and rid: "h_live (row_id r)" and new: "row_at t (row_id r) = None"
    and put: "hput mem (idmap t) (row_id r) (of_nat g + 1) = Some h"
    and r: "row_class r = cid" "vals_ok cs (kinds c) (slots r)"
    and t': "rows t' = (rows t)[g := r]" "bitmap t' = (bitmap t)[g := True]" "idmap t' = h"
      "free_slots t' = free_slots t"
  shows "slots_inv cs c cid t'" and "row_at t' = (row_at t)(row_id r \<mapsto> r)"
proof -
  have hi: "hash_inv (idmap t)" and len: "length (bitmap t) = length (rows t)"
    and small: "length (rows t) < 2 ^ 32"
    using inv by (auto simp: slots_inv_def)
  have hg: "hget h k = (if k = row_id r then of_nat g + 1 else hget (idmap t) k)" if "h_live k" for k
    by (rule hget_hput [OF hi rid that put])
  have h': "hash_inv h" by (rule hput_inv [OF hi rid put])
  have other: "row_id (rows t ! q) \<noteq> row_id r" if "q < length (rows t)" "bitmap t ! q" for q
    using row_at_slot [OF inv that] new by auto
  show inv': "slots_inv cs c cid t'"
    unfolding slots_inv_def
  proof (intro conjI allI impI ballI)
    fix q assume "q < length (rows t')" and "bitmap t' ! q"
    then have q: "q = g \<or> q \<noteq> g \<and> q < length (rows t) \<and> bitmap t ! q" using g len by (auto simp: t')
    then show "h_live (row_id (rows t' ! q))" and "row_class (rows t' ! q) = cid"
      and "vals_ok cs (kinds c) (slots (rows t' ! q))"
      using g rid r inv by (auto simp: t' slots_inv_def)
    show "hget (idmap t') (row_id (rows t' ! q)) = of_nat q + 1"
    proof (cases "q = g")
      case True
      then show ?thesis using g rid by (simp add: t' hg)
    next
      case False
      then have "h_live (row_id (rows t ! q))" "hget (idmap t) (row_id (rows t ! q)) = of_nat q + 1"
        using q inv by (auto simp: slots_inv_def)
      then show ?thesis using False q other by (simp add: t' hg)
    qed
  next
    fix i assume i: "h_live i" "hget (idmap t') i \<noteq> 0"
    show "\<exists>q<length (rows t'). bitmap t' ! q \<and> row_id (rows t' ! q) = i"
    proof (cases "i = row_id r")
      case True
      then show ?thesis using g len by (intro exI [of _ g]) (simp add: t')
    next
      case False
      then obtain q where "q < length (rows t)" "bitmap t ! q" "row_id (rows t ! q) = i"
        using i inv by (auto simp: slots_inv_def t' hg)
      then show ?thesis using g by (intro exI [of _ q]) (auto simp: t' nth_list_update)
    qed
  qed (use inv g h' len in \<open>auto simp: t' slots_inv_def nth_list_update\<close>)
  show "row_at t' = (row_at t)(row_id r \<mapsto> r)"
  proof
    fix i show "row_at t' i = ((row_at t)(row_id r \<mapsto> r)) i"
    proof (cases "i = row_id r")
      case True
      have "g < 2 ^ 32" using g small by simp
      note s = of_nat_slot(1,2) [OF this]
      show ?thesis using True rid g s by (simp add: row_at_def t' hg)
    next
      case False
      show ?thesis
      proof (cases "row_at t i")
        case None
        then show ?thesis using False by (auto simp: row_at_def t' hg split: if_splits)
      next
        case (Some x)
        from inv Some obtain q where q: "q < length (rows t)" "bitmap t ! q" "rows t ! q = x"
          "hget (idmap t) i = of_nat q + 1" "h_live i" by (rule row_at_Some)
        have "unat (hget (idmap t) i - 1) = q" using q small of_nat_slot(1) [of q] by simp
        moreover have "q \<noteq> g" using q g by auto
        ultimately show ?thesis using False q Some by (simp add: row_at_def t' hg split: if_splits)
      qed
    qed
  qed
qed

lemma clear_ok:
  assumes inv: "slots_inv cs c cid t" and g: "g < length (rows t)" "bitmap t ! g" "row_id (rows t ! g) = i"
    and t': "rows t' = rows t" "bitmap t' = (bitmap t)[g := False]" "idmap t' = hdel (idmap t) i"
      "free_slots t' = free_slots t"
  shows "slots_inv cs c cid t'" and "row_at t' = (row_at t)(i := None)" and "g \<notin> set (free_slots t')"
proof -
  have hi: "hash_inv (idmap t)" and len: "length (bitmap t) = length (rows t)"
    and live: "h_live i" using inv g by (auto simp: slots_inv_def)
  have hg: "hget (hdel (idmap t) i) k = (if k = i then 0 else hget (idmap t) k)" if "h_live k" for k
    by (rule hget_hdel [OF hi live that])
  have h': "hash_inv (hdel (idmap t) i)" by (rule hdel_inv [OF hi live])
  have other: "row_id (rows t ! q) \<noteq> i" if "q < length (rows t)" "bitmap t ! q" "q \<noteq> g" for q
    using slots_distinct [OF inv that(1,2) g(1,2)] g(3) that(3) by auto
  show "slots_inv cs c cid t'"
    unfolding slots_inv_def
  proof (intro conjI allI impI ballI)
    fix q assume "q < length (rows t')" and "bitmap t' ! q"
    then have q: "q \<noteq> g" "q < length (rows t)" "bitmap t ! q" using g len by (auto simp: t' nth_list_update split: if_splits)
    then show "h_live (row_id (rows t' ! q))" and "row_class (rows t' ! q) = cid"
      and "vals_ok cs (kinds c) (slots (rows t' ! q))" using inv by (auto simp: t' slots_inv_def)
    have "h_live (row_id (rows t ! q))" "hget (idmap t) (row_id (rows t ! q)) = of_nat q + 1"
      using q inv by (auto simp: slots_inv_def)
    then show "hget (idmap t') (row_id (rows t' ! q)) = of_nat q + 1"
      using other [OF q(2,3,1)] by (simp add: t' hg)
  next
    fix k assume k: "h_live k" "hget (idmap t') k \<noteq> 0"
    then have ki: "k \<noteq> i" "hget (idmap t) k \<noteq> 0" by (auto simp: t' hg split: if_splits)
    then obtain q where "q < length (rows t)" "bitmap t ! q" "row_id (rows t ! q) = k"
      using k inv by (auto simp: slots_inv_def)
    then show "\<exists>q<length (rows t'). bitmap t' ! q \<and> row_id (rows t' ! q) = k"
      using ki g len by (intro exI [of _ q]) (auto simp: t' nth_list_update)
  qed (use inv g h' len in \<open>auto simp: t' slots_inv_def nth_list_update\<close>)
  show "row_at t' = (row_at t)(i := None)"
    by (rule ext) (auto simp: row_at_def t' hg)
  show "g \<notin> set (free_slots t')" using inv g by (auto simp: slots_inv_def t')
qed

text \<open>Changing the values of an occupied slot.\<close>

lemma rewrite_ok:
  assumes inv: "slots_inv cs c cid t" and g: "g < length (rows t)" "bitmap t ! g"
    and vs: "vals_ok cs (kinds c) vs"
    and t': "rows t' = (rows t)[g := (rows t ! g)\<lparr>slots := vs\<rparr>]" "bitmap t' = bitmap t"
      "idmap t' = idmap t" "free_slots t' = free_slots t"
  shows "slots_inv cs c cid t'"
    and "row_at t' = (row_at t)(row_id (rows t ! g) \<mapsto> (rows t ! g)\<lparr>slots := vs\<rparr>)"
proof -
  have ids: "row_id (rows t' ! q) = row_id (rows t ! q)" "row_class (rows t' ! q) = row_class (rows t ! q)"
    if "q < length (rows t)" for q
    using that by (cases "q = g"; simp add: t')+
  show inv': "slots_inv cs c cid t'"
    using inv vs g unfolding slots_inv_def
    by (auto simp: ids t' nth_list_update)
  show "row_at t' = (row_at t)(row_id (rows t ! g) \<mapsto> (rows t ! g)\<lparr>slots := vs\<rparr>)"
  proof
    fix i show "row_at t' i = ((row_at t)(row_id (rows t ! g) \<mapsto> (rows t ! g)\<lparr>slots := vs\<rparr>)) i"
    proof (cases "i = row_id (rows t ! g)")
      case True
      have gl: "g < length (rows t')" "bitmap t' ! g" using g by (simp_all add: t')
      have "rows t' ! g = (rows t ! g)\<lparr>slots := vs\<rparr>" using g by (simp add: t')
      then show ?thesis using row_at_slot [OF inv' gl] True by simp
    next
      case False
      show ?thesis
      proof (cases "row_at t i")
        case None
        then show ?thesis using False by (auto simp: row_at_def t' split: if_splits)
      next
        case (Some x)
        from inv Some obtain q where q: "q < length (rows t)" "bitmap t ! q" "rows t ! q = x" "row_id x = i"
          by (rule row_at_Some)
        have "q \<noteq> g" using q False by auto
        have ql: "q < length (rows t')" "bitmap t' ! q" using q by (simp_all add: t')
        have "rows t' ! q = x" using q \<open>q \<noteq> g\<close> by (simp add: t')
        then show ?thesis using row_at_slot [OF inv' ql] q False Some by simp
      qed
    qed
  qed
qed

end
