(* ===== verification/TableOps.thy ===== *)
theory TableOps
  imports TableInv
begin

text \<open>
  The row statements on a table whose rows are in memory, against the table as a map: what insert,
  remove, update, replay's creation and the reads do to \<open>live_rows\<close>, on every branch, and that
  each keeps \<open>table_inv\<close>: slots and id hash agree, ids are fresh and belong to the shard, the
  indexes hold exactly the live rows and no unique index has a duplicate.
\<close>

section \<open>The invariant\<close>

text \<open>\<open>violates\<close>: another row has the new row's columns under some unique index.\<close>

definition cols_equal :: "wo_classdesc \<Rightarrow> nat list \<Rightarrow> db_row \<Rightarrow> db_row \<Rightarrow> bool" where
  "cols_equal c cl a b = list_all (\<lambda>col. col_eq (kinds c ! col) (slots a ! col) (slots b ! col)) cl"

definition violates :: "wo_classdesc \<Rightarrow> (u64 \<Rightarrow> db_row option) \<Rightarrow> db_row \<Rightarrow> bool" where
  "violates c live r \<longleftrightarrow>
     (\<exists>(fl, cl)\<in>set (idx_meta c). fl AND 1 \<noteq> 0 \<and> (\<exists>i r'. live i = Some r' \<and> cols_equal c cl r r'))"

definition ids_inv :: "nat \<Rightarrow> nat \<Rightarrow> db_table \<Rightarrow> bool" where
  "ids_inv n sh t \<longleftrightarrow> next_id t \<noteq> 0 \<and> (unat (next_id t) - 1) mod n = sh \<and>
     (\<forall>i r. row_at t i = Some r \<longrightarrow> (unat i - 1) mod n = sh \<longrightarrow> i < next_id t)"

definition tab_inv :: "wo_db \<Rightarrow> nat \<Rightarrow> db_table \<Rightarrow> bool" where
  "tab_inv db cid t \<longleftrightarrow>
     row_size t \<noteq> 0 \<and> slots_inv (classes db) (class_of db cid) cid t \<and> ids_inv (nshards db) (shard db) t \<and>
     ix_meta (indexes t) = idx_meta (class_of db cid) \<and>
     all_indexed (class_of db cid) (indexes t) (row_at t) \<and>
     all_unique (class_of db cid) (indexes t) (row_at t)"

definition table_fits :: "wo_db \<Rightarrow> nat \<Rightarrow> bool" where
  "table_fits db cid \<longleftrightarrow>
     cid < length (tables db) \<and> length (tables db) = length (classes db) \<and>
     \<not> wo_table_is_keys_resident db cid \<and> shard db < nshards db \<and> nshards db < 2 ^ 32"

definition table_inv :: "wo_db \<Rightarrow> nat \<Rightarrow> bool" where
  "table_inv db cid \<longleftrightarrow> table_fits db cid \<and>
     (if row_size (tables db ! cid) = 0 then tables db ! cid = empty_table
      else tab_inv db cid (tables db ! cid))"

text \<open>Nothing but the table \<open>cid\<close> differs.\<close>

definition only_table :: "nat \<Rightarrow> wo_db \<Rightarrow> wo_db \<Rightarrow> bool" where
  "only_table cid db db' \<longleftrightarrow> (\<exists>t. db' = set_table db cid t)"

lemma set_table_simps [simp, frame_simps]:
  "classes (set_table db cid t) = classes db" "shard (set_table db cid t) = shard db"
  "nshards (set_table db cid t) = nshards db"
  "length (tables (set_table db cid t)) = length (tables db)"
  "class_of (set_table db cid t) = class_of db"
  "wo_table_is_keys_resident (set_table db cid t) = wo_table_is_keys_resident db"
  "cid < length (tables db) \<Longrightarrow> tables (set_table db cid t) ! cid = t"
  "cid \<noteq> c \<Longrightarrow> tables (set_table db cid t) ! c = tables db ! c"
  "set_table (set_table db cid t) cid t' = set_table db cid t'"
  by (simp_all add: set_table_def class_of_def wo_table_is_keys_resident_def fun_eq_iff)

lemma set_table_same [simp]: "set_table db cid (tables db ! cid) = db"
  by (simp add: set_table_def)

lemma only_table_refl [simp]: "only_table cid db db"
  unfolding only_table_def by (metis set_table_same)

lemma only_table_set [simp]: "only_table cid db (set_table db cid t)"
  by (auto simp: only_table_def)

lemma only_table_trans: "only_table cid db db' \<Longrightarrow> only_table cid db' db'' \<Longrightarrow> only_table cid db db''"
  by (auto simp: only_table_def)

lemma only_table_other:
  "only_table cid db db' \<Longrightarrow> c \<noteq> cid \<Longrightarrow> live_rows db' c = live_rows db c"
  by (auto simp: only_table_def live_rows_def fun_eq_iff)

lemma only_table_classes:
  "only_table cid db db' \<Longrightarrow> classes db' = classes db \<and> shard db' = shard db \<and> nshards db' = nshards db \<and>
     class_of db' = class_of db"
  by (auto simp: only_table_def)

lemma table_fits_set [simp]: "table_fits (set_table db cid t) cid = table_fits db cid"
  by (simp add: table_fits_def)

lemma tab_inv_set [simp]: "tab_inv (set_table db cid t) cid t' = tab_inv db cid t'"
  by (simp add: tab_inv_def)

lemma live_row_at:
  assumes "table_fits db cid" and "tab_inv db cid (tables db ! cid)"
  shows "live_rows db cid = row_at (tables db ! cid)"
  using assms by (auto simp: fun_eq_iff live_rows_def table_fits_def tab_inv_def
      dest: row_at_id split: option.splits)

lemma table_inv_set:
  assumes "table_fits db cid" and "tab_inv db cid t"
  shows "table_inv (set_table db cid t) cid" and "live_rows (set_table db cid t) cid = row_at t"
proof -
  have c: "cid < length (tables db)" using assms by (simp add: table_fits_def)
  show "live_rows (set_table db cid t) cid = row_at t"
    using live_row_at [of "set_table db cid t" cid] assms c by simp
  show "table_inv (set_table db cid t) cid"
    using assms c by (simp add: table_inv_def tab_inv_def)
qed

lemma empty_row_at [simp]: "row_at empty_table = Map.empty"
  by (auto simp: row_at_def empty_table_def empty_hash_def hget_def fun_eq_iff)

lemma table_inv_init:
  assumes "wo_db_init mem cs sh n = Some db" and "n < 2 ^ 32" and "cid < length cs"
    and "cls_flags (cs ! cid) AND WO_CLASSF_RESIDENT_KEYS = 0"
  shows "table_inv db cid" and "live_rows db cid = Map.empty"
  using assms
  by (auto simp: wo_db_init_def table_inv_def table_fits_def wo_table_is_keys_resident_def
      class_of_def live_rows_def fun_eq_iff empty_table_def split: if_splits)

lemma violates_indexes:
  assumes "ix_meta ixs = idx_meta c"
  shows "violates c live r \<longleftrightarrow>
    (\<exists>ix\<in>set ixs. ix_unique ix \<and> (\<exists>i r'. live i = Some r' \<and> idx_cols_equal c ix r r'))"
  unfolding violates_def assms [symmetric]
  by (auto simp: ix_meta_def idx_cols_equal_def cols_equal_def)

section \<open>The first touch\<close>

lemma indexed_fresh:
  "indexed c \<lparr>ix_flags = fl, cols = cl, bkeys = [], bids = [], blen = 0\<rparr> Map.empty"
  by (auto simp: indexed_def bucket_inv_def ix_ids_def idx_find_def used_def)

lemma fresh_tab_inv:
  assumes "table_fits db cid" and "tables db ! cid = empty_table"
  shows "tab_inv db cid (empty_table\<lparr>row_size := 16 + n, next_id := of_nat (shard db + 1),
      indexes := map (\<lambda>(fl, cl). \<lparr>ix_flags = fl, cols = cl, bkeys = [], bids = [], blen = 0\<rparr>)
        (idx_meta (class_of db cid))\<rparr>)" (is "tab_inv db cid ?t")
proof -
  have ra: "row_at ?t = Map.empty"
    by (auto simp: row_at_def empty_table_def empty_hash_def hget_def fun_eq_iff)
  have sh: "shard db < 2 ^ 32" "shard db < nshards db" using assms by (auto simp: table_fits_def)
  then have "unat (of_nat (shard db + 1) :: u64) = shard db + 1"
    by (simp add: unat_of_nat del: of_nat_Suc of_nat_add)
  then have u: "unat (1 + of_nat (shard db) :: u64) = shard db + 1" by (simp add: ac_simps)
  have nz: "(1 + of_nat (shard db) :: u64) \<noteq> 0"
  proof
    assume "(1 + of_nat (shard db) :: u64) = 0"
    with u show False by simp
  qed
  have "slots_inv (classes db) (class_of db cid) cid ?t"
    by (simp add: slots_inv_def empty_table_def) (simp add: empty_hash_def hget_def)
  moreover have "ids_inv (nshards db) (shard db) ?t"
    unfolding ids_inv_def ra using u nz sh by simp
  moreover have "ix_meta (indexes ?t) = idx_meta (class_of db cid)"
    by (simp add: ix_meta_def case_prod_beta comp_def)
  moreover have "all_indexed (class_of db cid) (indexes ?t) (row_at ?t)"
    unfolding ra all_indexed_def by (auto simp: indexed_fresh)
  moreover have "all_unique (class_of db cid) (indexes ?t) (row_at ?t)"
    unfolding ra all_unique_def unique_in_def by simp
  ultimately show ?thesis
    by (simp add: tab_inv_def)
qed

lemma table_of_ok:
  assumes inv: "table_inv db cid" and t: "table_of mem db cid = (True, db')"
  shows "table_fits db' cid \<and> tab_inv db' cid (tables db' ! cid) \<and> only_table cid db db' \<and>
    live_rows db cid = row_at (tables db' ! cid)"
proof (cases "row_size (tables db ! cid) = 0")
  case False
  then have "db' = db" using t by (auto simp: table_of_def Let_def split: if_splits)
  then show ?thesis using inv False live_row_at by (auto simp: table_inv_def)
next
  case True
  then have e: "tables db ! cid = empty_table" and fits: "table_fits db cid"
    using inv by (auto simp: table_inv_def)
  then have c: "cid < length (tables db)" by (simp add: table_fits_def)
  let ?t = "empty_table\<lparr>row_size := 16 + field_cnt (class_of db cid) * 8, next_id := of_nat (shard db + 1),
      indexes := map (\<lambda>(fl, cl). \<lparr>ix_flags = fl, cols = cl, bkeys = [], bids = [], blen = 0\<rparr>)
        (idx_meta (class_of db cid))\<rparr>"
  have db': "db' = set_table db cid ?t"
    using t True c e by (auto simp: table_of_def Let_def empty_table_def split: if_splits)
  have ti: "tab_inv db cid ?t" by (rule fresh_tab_inv [OF fits e])
  have "row_at ?t = Map.empty"
    by (auto simp: row_at_def empty_table_def empty_hash_def hget_def fun_eq_iff)
  moreover have "live_rows db cid = Map.empty" using True by (auto simp: live_rows_def)
  ultimately show ?thesis using ti fits c by (simp add: db')
qed

lemma table_of_total: "mem ATabIndexes \<Longrightarrow> cid < length (tables db) \<Longrightarrow> fst (table_of mem db cid)"
  by (simp add: table_of_def Let_def)

section \<open>Inserting\<close>

lemma mod_stride:
  assumes "0 < a" and "a + n < 2 ^ 64"
  shows "(a + n - 1) mod n = (a - 1) mod (n :: nat)"
proof -
  have "a + n - 1 = (a - 1) + n" using assms by simp
  then show ?thesis by simp
qed

lemma next_id_step:
  fixes x :: u64
  assumes "unat x + n < 2 ^ 64 - 1" and "x \<noteq> 0" and "0 < n"
  shows "unat (x + of_nat n) = unat x + n" and "x < x + of_nat n" and "x + of_nat n \<noteq> 0"
    and "(unat (x + of_nat n) - 1) mod n = (unat x - 1) mod n" and "h_live x"
proof -
  have "unat (of_nat n :: u64) = n" using assms by (simp add: unat_of_nat)
  then show u: "unat (x + of_nat n) = unat x + n"
    using assms unat_add_lem [of x "of_nat n"] by simp
  show "x < x + of_nat n" using u assms by (simp add: word_less_nat_alt)
  show "x + of_nat n \<noteq> 0"
  proof
    assume "x + of_nat n = 0"
    then show False using u assms by simp
  qed
  have "0 < unat x" using assms by (simp add: unat_gt_0)
  then show "(unat (x + of_nat n) - 1) mod n = (unat x - 1) mod n"
    unfolding u using mod_stride [of "unat x" n] assms by simp
  have "x \<noteq> - 1"
  proof
    assume "x = - 1"
    then have "unat x = 2 ^ 64 - 1" by (simp add: unsigned_minus_1_eq_mask mask_eq_exp_minus_1)
    then show False using assms by simp
  qed
  then show "h_live x" using assms by (simp add: h_live_def H_DELETED_def)
qed

lemma ids_inv_new:
  assumes "ids_inv n sh t" and "unat (next_id t) + n < 2 ^ 64 - 1" and "0 < n"
    and "row_at t' = (row_at t)(next_id t \<mapsto> r)" and "next_id t' = next_id t + of_nat n"
  shows "ids_inv n sh t'"
proof -
  note st = next_id_step [OF assms(2) _ assms(3)]
  have nz: "next_id t \<noteq> 0" using assms by (simp add: ids_inv_def)
  show ?thesis
    unfolding ids_inv_def assms(4,5)
  proof (intro conjI allI impI)
    show "next_id t + of_nat n \<noteq> 0" "(unat (next_id t + of_nat n) - 1) mod n = sh"
      using st [OF nz] assms by (auto simp: ids_inv_def)
    fix i q assume "((row_at t)(next_id t \<mapsto> r)) i = Some q" and "(unat i - 1) mod n = sh"
    then have "i = next_id t \<or> i < next_id t" using assms(1) by (auto simp: ids_inv_def split: if_splits)
    then show "i < next_id t + of_nat n" using st(2) [OF nz] by auto
  qed
qed

text \<open>
  The part the inserts and replay's creation share. \<open>t\<close> is the table with the slot \<open>g\<close> taken,
  \<open>t2\<close> the one with the row placed and its id in the hash; then the row goes into the indexes.
\<close>

lemma index_placed:
  assumes fits: "table_fits db cid" and inv: "tab_inv db cid t"
    and g: "g < length (rows t)" "\<not> bitmap t ! g" "g \<notin> set (free_slots t)"
    and live: "h_live (row_id r)" and new: "row_at t (row_id r) = None"
    and r: "row_class r = cid" "vals_ok (classes db) (kinds (class_of db cid)) (slots r)"
    and put: "hput mem (idmap t) (row_id r) (of_nat g + 1) = Some h"
    and t2: "rows t2 = (rows t)[g := r]" "bitmap t2 = (bitmap t)[g := True]" "idmap t2 = h"
      "free_slots t2 = free_slots t" "indexes t2 = indexes t" "row_size t2 = row_size t"
    and add: "idx_add_row mem (class_of db cid) (peek_row mem wo (set_table db cid t2) cid) (indexes t2) r =
      (ixs, e)"
  shows "slots_inv (classes db) (class_of db cid) cid t2" and "row_at t2 = (row_at t)(row_id r \<mapsto> r)"
    and "e = DB_ERR_UNIQUE \<longleftrightarrow> violates (class_of db cid) (row_at t) r"
    and "e = DB_ERR_NONE \<Longrightarrow> ids_inv (nshards db) (shard db) t2 \<Longrightarrow> tab_inv db cid (t2\<lparr>indexes := ixs\<rparr>) \<and>
      row_at (t2\<lparr>indexes := ixs\<rparr>) = (row_at t)(row_id r \<mapsto> r)"
    and "e = DB_ERR_UNIQUE \<Longrightarrow> ixs = indexes t"
    and "\<forall>s. mem s \<Longrightarrow> e \<in> {DB_ERR_NONE, DB_ERR_UNIQUE}"
proof -
  let ?c = "class_of db cid" and ?cs = "classes db"
  have cl: "cid < length (tables db)" using fits by (auto simp: table_fits_def)
  have sl: "slots_inv ?cs ?c cid t"
    and im: "ix_meta (indexes t) = idx_meta ?c" and ai: "all_indexed ?c (indexes t) (row_at t)"
    and au: "all_unique ?c (indexes t) (row_at t)" and rs: "row_size t \<noteq> 0"
    using inv by (auto simp: tab_inv_def)
  note pl = place_ok [OF sl g live new put r t2(1-4)]
  show s2: "slots_inv ?cs ?c cid t2" and r2: "row_at t2 = (row_at t)(row_id r \<mapsto> r)" by (rule pl)+
  have src: "row_source (peek_row mem wo (set_table db cid t2) cid) (row_at t)"
  proof
    fix i q assume q: "row_at t i = Some q"
    show "row_id q = i" by (rule row_at_id [OF sl q])
    have "row_at t2 i = Some q" using r2 q new by auto
    then show "peek_row mem wo (set_table db cid t2) cid i = Some q"
      using cl rs t2(6) fits by (intro peek_row_at) (auto simp: table_fits_def)
  qed
  note add' = add [unfolded t2(5)]
  show "e = DB_ERR_UNIQUE \<longleftrightarrow> violates ?c (row_at t) r"
    using row_source.idx_add_row_unique [OF src ai, where mem = mem and r = r]
    by (simp add: add' violates_indexes [OF im])
  show "e = DB_ERR_UNIQUE \<Longrightarrow> ixs = indexes t" using add' idx_add_row_unchanged by blast
  {
    assume "e = DB_ERR_NONE" and ii: "ids_inv (nshards db) (shard db) t2"
    then have "all_indexed ?c ixs (row_at t2) \<and> all_unique ?c ixs (row_at t2) \<and>
        ix_meta ixs = ix_meta (indexes t)"
      using row_source.idx_add_row_ok [OF src ai au new, where mem = mem] add' by (simp add: r2)
    moreover have "row_at (t2\<lparr>indexes := ixs\<rparr>) = row_at t2"
      and "slots_inv ?cs ?c cid (t2\<lparr>indexes := ixs\<rparr>)"
      using slots_inv_cong [OF s2, of "t2\<lparr>indexes := ixs\<rparr>"] by simp_all
    moreover have "ids_inv (nshards db) (shard db) (t2\<lparr>indexes := ixs\<rparr>)"
      using ii calculation(2) by (simp add: ids_inv_def)
    ultimately show "tab_inv db cid (t2\<lparr>indexes := ixs\<rparr>) \<and>
        row_at (t2\<lparr>indexes := ixs\<rparr>) = (row_at t)(row_id r \<mapsto> r)"
      using rs im t2 r2 by (simp add: tab_inv_def)
  }
  have "e \<in> {DB_ERR_NONE, DB_ERR_UNIQUE, DB_ERR_OOM}"
    using add' by (auto simp: idx_add_row_def split: if_splits prod.splits)
  moreover assume m: "\<forall>s. mem s"
  have "e \<noteq> DB_ERR_OOM"
    using idx_add_row_total [OF m ai, where r = r and borrow = "peek_row mem wo (set_table db cid t2) cid"]
    by (simp add: add')
  ultimately show "e \<in> {DB_ERR_NONE, DB_ERR_UNIQUE}" by simp
qed

lemma next_id_fresh:
  assumes "table_fits db cid" and "tab_inv db cid t" and "unat (next_id t) + nshards db < 2 ^ 64 - 1"
  shows "row_at t (next_id t) = None" and "h_live (next_id t)"
proof -
  have ii: "ids_inv (nshards db) (shard db) t" using assms by (simp add: tab_inv_def)
  then show "row_at t (next_id t) = None"
    unfolding ids_inv_def by (metis not_None_eq order_less_irrefl)
  show "h_live (next_id t)"
    using next_id_step(5) [OF assms(3)] ii assms(1) by (simp add: ids_inv_def table_fits_def)
qed

lemma undo_insert_ok:
  assumes inv: "tab_inv db cid t" and g: "g < length (rows t)"
    and s2: "slots_inv (classes db) (class_of db cid) cid t2" and r2: "row_at t2 = (row_at t)(next_id t \<mapsto> r)"
    and new: "row_at t (next_id t) = None" and r: "row_id r = next_id t"
    and t2: "rows t2 = (rows t)[g := r]" "bitmap t2 = (bitmap t)[g := True]"
      "free_slots t2 = free_slots t" "indexes t2 = indexes t" "row_size t2 = row_size t"
      "next_id t2 = next_id t + of_nat (nshards db)"
  shows "tab_inv db cid (undo_insert db t2 g (next_id t)) \<and>
      row_at (undo_insert db t2 g (next_id t)) = row_at t"
proof -
  let ?m = "t2\<lparr>bitmap := (bitmap t2)[g := False], idmap := hdel (idmap t2) (next_id t),
      count := count t2 - 1, next_id := next_id t2 - of_nat (nshards db)\<rparr>"
  have len: "length (bitmap t) = length (rows t)" using inv by (simp add: tab_inv_def slots_inv_def)
  have g2: "g < length (rows t2)" "bitmap t2 ! g" "row_id (rows t2 ! g) = next_id t"
    using g len by (auto simp: t2 r)
  note cl = clear_ok [OF s2 g2, of ?m]
  have m: "slots_inv (classes db) (class_of db cid) cid ?m" "row_at ?m = row_at t" "g \<notin> set (free_slots ?m)"
    using cl r2 new by (simp_all add: fun_upd_idem)
  have gm: "g < length (rows ?m)" "\<not> bitmap ?m ! g" using g len by (auto simp: t2)
  note rc = recycle_ok(3,4) [OF m(1) gm m(3)]
  have u: "undo_insert db t2 g (next_id t) = recycle_nogrow ?m g" by (simp add: undo_insert_def)
  have "row_at (recycle_nogrow ?m g) = row_at t" using rc(2) m(2) by simp
  then show ?thesis
    unfolding u using rc(1) inv by (simp add: tab_inv_def ids_inv_def t2)
qed

text \<open>The id the next insert gives, and the room it needs: slot numbers are 32 bits, ids 64.\<close>

definition fresh_id :: "wo_db \<Rightarrow> nat \<Rightarrow> u64" where
  "fresh_id db cid =
     (if row_size (tables db ! cid) = 0 then of_nat (shard db + 1) else next_id (tables db ! cid))"

definition has_room :: "wo_db \<Rightarrow> nat \<Rightarrow> bool" where
  "has_room db cid \<longleftrightarrow> length (rows (tables db ! cid)) + DB_SLAB_ROWS < 2 ^ 32 \<and>
     unat (fresh_id db cid) + nshards db < 2 ^ 64 - 1"

lemma table_of_frame:
  assumes inv: "table_inv db cid" and t: "table_of mem db cid = (True, db')"
  shows "rows (tables db' ! cid) = rows (tables db ! cid)"
    and "next_id (tables db' ! cid) = fresh_id db cid" and "only_table cid db db'"
proof -
  have c: "cid < length (tables db)" using inv by (simp add: table_inv_def table_fits_def)
  show "rows (tables db' ! cid) = rows (tables db ! cid)" "next_id (tables db' ! cid) = fresh_id db cid"
    using t c by (auto simp: table_of_def fresh_id_def Let_def split: if_splits)
  show "only_table cid db db'" using table_of_ok [OF inv t] by simp
qed

lemma fresh_id_set:
  "cid < length (tables db) \<Longrightarrow> row_size t \<noteq> 0 \<Longrightarrow> fresh_id (set_table db cid t) cid = next_id t"
  by (simp add: fresh_id_def)

text \<open>A table ready for a statement, with a slot taken.\<close>

lemma slot_ready:
  assumes mem: "\<forall>s. mem s" and inv: "table_inv db cid"
    and room: "length (rows (tables db ! cid)) + DB_SLAB_ROWS < 2 ^ 32"
  obtains db1 g t where "table_of mem db cid = (True, db1)" and "slot_alloc mem (tables db1 ! cid) = (Some g, t)"
    and "table_fits db1 cid" and "only_table cid db db1" and "tab_inv db1 cid t" and "row_at t = live_rows db cid"
    and "g < length (rows t)" and "\<not> bitmap t ! g" and "g \<notin> set (free_slots t)"
    and "next_id t = fresh_id db cid" and "length (rows t) \<le> length (rows (tables db ! cid)) + DB_SLAB_ROWS"
proof -
  have c: "cid < length (tables db)" using inv by (simp add: table_inv_def table_fits_def)
  obtain db1 where to: "table_of mem db cid = (True, db1)"
    using table_of_total [of mem cid db] mem c by (cases "table_of mem db cid") auto
  note t1 = table_of_ok [OF inv to] and fr = table_of_frame [OF inv to]
  obtain g t where sa: "slot_alloc mem (tables db1 ! cid) = (Some g, t)"
    using slot_alloc_total [OF mem, of "tables db1 ! cid"] by (cases "slot_alloc mem (tables db1 ! cid)") auto
  have sl: "slots_inv (classes db1) (class_of db1 cid) cid (tables db1 ! cid)" using t1 by (simp add: tab_inv_def)
  have rm: "length (rows (tables db1 ! cid)) + DB_SLAB_ROWS < 2 ^ 32" using room fr by simp
  note so = slot_alloc_ok [OF sl rm sa]
  have "tab_inv db1 cid t" using so t1 by (simp add: tab_inv_def ids_inv_def)
  moreover have "length (rows t) \<le> length (rows (tables db ! cid)) + DB_SLAB_ROWS"
    using sa fr(1) by (auto simp: slot_alloc_def Let_def split: if_splits option.splits)
  ultimately show thesis using to sa t1 so fr that by simp
qed

text \<open>What both inserts do once the id is in the hash.\<close>

lemma place_new:
  assumes mem: "\<forall>s. mem s" and fits: "table_fits db cid" and ti: "tab_inv db cid t"
    and g: "g < length (rows t)" "\<not> bitmap t ! g" "g \<notin> set (free_slots t)"
    and small: "unat (next_id t) + nshards db < 2 ^ 64 - 1"
    and ok: "vals_ok (classes db) (kinds (class_of db cid)) ds"
    and put: "hput mem (idmap t) (next_id t) (of_nat g + 1) = Some h"
    and r: "r = \<lparr>row_id = next_id t, row_class = cid, slots = ds\<rparr>"
    and t2: "t2 = t\<lparr>rows := (rows t)[g := r], next_id := next_id t + of_nat (nshards db), idmap := h,
      bitmap := (bitmap t)[g := True], count := count t + 1\<rparr>"
    and res: "(case idx_add_row mem (class_of db cid) (peek_row mem wo (set_table db cid t2) cid) (indexes t) r of
        (ixs, e) \<Rightarrow>
          if e \<noteq> DB_ERR_NONE
          then (Inl e, set_table db cid (undo_insert db (t2\<lparr>indexes := ixs\<rparr>) g (next_id t)))
          else (Inr (next_id t), set_table db cid (t2\<lparr>indexes := ixs\<rparr>))) = (x, db')"
  shows "table_inv db' cid \<and> only_table cid db db' \<and> row_at t (next_id t) = None \<and>
    (if violates (class_of db cid) (row_at t) r
     then x = Inl DB_ERR_UNIQUE \<and> live_rows db' cid = row_at t \<and> fresh_id db' cid = next_id t
     else x = Inr (next_id t) \<and> live_rows db' cid = (row_at t)(next_id t \<mapsto> r) \<and>
       fresh_id db' cid = next_id t + of_nat (nshards db))"
proof -
  obtain ixs e where add: "idx_add_row mem (class_of db cid) (peek_row mem wo (set_table db cid t2) cid)
      (indexes t2) r = (ixs, e)" by force
  note fr = next_id_fresh [OF fits ti small]
  have t2': "rows t2 = (rows t)[g := r]" "bitmap t2 = (bitmap t)[g := True]" "idmap t2 = h"
      "free_slots t2 = free_slots t" "indexes t2 = indexes t" "row_size t2 = row_size t"
      "next_id t2 = next_id t + of_nat (nshards db)" by (simp_all add: t2)
  have r': "row_id r = next_id t" "row_class r = cid" "vals_ok (classes db) (kinds (class_of db cid)) (slots r)"
    using ok by (simp_all add: r)
  have c: "cid < length (tables db)" "0 < nshards db" using fits by (auto simp: table_fits_def)
  have rs: "row_size t2 \<noteq> 0" and ii: "ids_inv (nshards db) (shard db) t"
    using ti by (simp_all add: t2 tab_inv_def)
  note core = index_placed [OF fits ti g fr(2) [folded r'(1)] fr(1) [folded r'(1)] r'(2,3)
      put [folded r'(1)] t2'(1-6) add]
  show ?thesis
  proof (cases "violates (class_of db cid) (row_at t) r")
    case True
    have e: "e = DB_ERR_UNIQUE" using core(3) True by simp
    have ixs: "t2\<lparr>indexes := ixs\<rparr> = t2" using core(5) [OF e] t2 by simp
    let ?u = "undo_insert db t2 g (next_id t)"
    have x: "x = Inl DB_ERR_UNIQUE" "db' = set_table db cid ?u"
      using res add e t2' ixs by auto
    have "next_id ?u = next_id t" "row_size ?u \<noteq> 0" using rs by (simp_all add: undo_insert_def t2')
    then show ?thesis
      using x True fr(1) table_inv_set [OF fits, of ?u] fresh_id_set [OF c(1), of ?u]
        undo_insert_ok [OF ti g(1) core(1) core(2) [unfolded r'(1)] fr(1) r'(1) t2'(1,2,4-7)] by simp
  next
    case False
    then have e: "e = DB_ERR_NONE" using core(3,6) mem by auto
    have x: "x = Inr (next_id t)" "db' = set_table db cid (t2\<lparr>indexes := ixs\<rparr>)"
      using res add e t2' by auto
    have "ids_inv (nshards db) (shard db) t2"
      by (rule ids_inv_new [OF ii small c(2) core(2) [unfolded r'(1)] t2'(7)])
    from core(4) [OF e this] show ?thesis
      using x False fr(1) table_inv_set [OF fits, of "t2\<lparr>indexes := ixs\<rparr>"]
        fresh_id_set [OF c(1), of "t2\<lparr>indexes := ixs\<rparr>"] rs t2' r' by simp
  qed
qed

lemma tab_inv_put:
  assumes mem: "\<forall>s. mem s" and fits: "table_fits db cid" and ti: "tab_inv db cid t"
    and small: "unat (next_id t) + nshards db < 2 ^ 64 - 1"
  obtains h where "hput mem (idmap t) (next_id t) v = Some h"
proof -
  have "h_live (next_id t)" by (rule next_id_fresh(2) [OF fits ti small])
  moreover have "hash_inv (idmap t)" using ti by (simp add: tab_inv_def slots_inv_def)
  ultimately show thesis using hput_ok [of "idmap t" "next_id t" mem v] mem that by auto
qed

text \<open>The outcome of an insert, from the map before it.\<close>

definition inserted ::
  "wo_db \<Rightarrow> nat \<Rightarrow> dbval list \<Rightarrow> db_err + u64 \<Rightarrow> wo_db \<Rightarrow> bool" where
  "inserted db cid ds x db' \<longleftrightarrow>
     (let i = fresh_id db cid; r = \<lparr>row_id = i, row_class = cid, slots = ds\<rparr>; live = live_rows db cid in
      live i = None \<and>
      (if violates (class_of db cid) live r
       then x = Inl DB_ERR_UNIQUE \<and> live_rows db' cid = live \<and> fresh_id db' cid = i
       else x = Inr i \<and> live_rows db' cid = live(i \<mapsto> r) \<and> fresh_id db' cid = i + of_nat (nshards db)))"

lemma insert_slots_spec:
  assumes mem: "\<forall>s. mem s" and inv: "table_inv db cid" and room: "has_room db cid"
    and ok: "vals_ok (classes db) (kinds (class_of db cid)) ds"
    and ins: "wo_row_insert_slots mem wo db cid ds = (x, db')"
  shows "table_inv db' cid \<and> only_table cid db db' \<and> inserted db cid ds x db'"
proof -
  have room': "length (rows (tables db ! cid)) + DB_SLAB_ROWS < 2 ^ 32" using room by (simp add: has_room_def)
  from mem inv room' obtain db1 g t where to: "table_of mem db cid = (True, db1)"
    and sa: "slot_alloc mem (tables db1 ! cid) = (Some g, t)" and fits: "table_fits db1 cid"
    and ot: "only_table cid db db1" and ti: "tab_inv db1 cid t" and ra: "row_at t = live_rows db cid"
    and g: "g < length (rows t)" "\<not> bitmap t ! g" "g \<notin> set (free_slots t)" and ni: "next_id t = fresh_id db cid"
    by (rule slot_ready)
  note oc = only_table_classes [OF ot]
  have small: "unat (next_id t) + nshards db1 < 2 ^ 64 - 1" using room ni oc by (simp add: has_room_def)
  obtain h where h: "hput mem (idmap t) (next_id t) (of_nat g + 1) = Some h"
    by (rule tab_inv_put [OF mem fits ti small])
  have ok1: "vals_ok (classes db1) (kinds (class_of db1 cid)) ds" using ok oc by simp
  have "table_inv db' cid \<and> only_table cid db1 db' \<and> row_at t (next_id t) = None \<and>
    (if violates (class_of db1 cid) (row_at t) \<lparr>row_id = next_id t, row_class = cid, slots = ds\<rparr>
     then x = Inl DB_ERR_UNIQUE \<and> live_rows db' cid = row_at t \<and> fresh_id db' cid = next_id t
     else x = Inr (next_id t) \<and>
       live_rows db' cid = (row_at t)(next_id t \<mapsto> \<lparr>row_id = next_id t, row_class = cid, slots = ds\<rparr>) \<and>
       fresh_id db' cid = next_id t + of_nat (nshards db1))"
    by (rule place_new [OF mem fits ti g small ok1 h refl refl, of wo])
      (use ins to sa h in \<open>simp add: wo_row_insert_slots_def Let_def cong: if_cong\<close>)
  then show ?thesis
    using only_table_trans [OF ot] oc by (simp add: inserted_def ra ni Let_def)
qed

section \<open>Removing\<close>

lemma ids_inv_sub:
  assumes "ids_inv n sh t" and "next_id t' = next_id t" and "\<And>i. row_at t' i \<noteq> None \<Longrightarrow> row_at t i \<noteq> None"
  shows "ids_inv n sh t'"
  using assms unfolding ids_inv_def by (metis not_None_eq)

lemma live_slot:
  assumes inv: "table_inv db cid" and r: "live_rows db cid rid = Some r"
  obtains g where "table_fits db cid" and "tab_inv db cid (tables db ! cid)"
    and "g < length (rows (tables db ! cid))" and "bitmap (tables db ! cid) ! g"
    and "rows (tables db ! cid) ! g = r" and "row_id r = rid" and "unat (hget (idmap (tables db ! cid)) rid - 1) = g"
    and "hget (idmap (tables db ! cid)) rid \<noteq> 0" and "live_rows db cid = row_at (tables db ! cid)"
    and "wo_row_ptr db cid rid = Some g"
proof -
  have rs: "row_size (tables db ! cid) \<noteq> 0" using r by (auto simp: live_rows_def split: if_splits)
  then have f: "table_fits db cid" "tab_inv db cid (tables db ! cid)"
    using inv by (auto simp: table_inv_def)
  have la: "live_rows db cid = row_at (tables db ! cid)" by (rule live_row_at [OF f])
  have sl: "slots_inv (classes db) (class_of db cid) cid (tables db ! cid)" using f by (simp add: tab_inv_def)
  have "row_at (tables db ! cid) rid = Some r" using r la by simp
  with sl obtain g where g: "g < length (rows (tables db ! cid))" "bitmap (tables db ! cid) ! g"
      "rows (tables db ! cid) ! g = r" "row_id r = rid" "hget (idmap (tables db ! cid)) rid = of_nat g + 1"
    by (rule row_at_Some)
  have gs: "g < 2 ^ 32" using g sl by (simp add: slots_inv_def)
  note s = of_nat_slot(1,2) [OF gs]
  have "wo_row_ptr db cid rid = Some g"
    using f rs g s by (simp add: wo_row_ptr_def Let_def table_fits_def)
  with f g s la that show thesis by simp
qed

lemma remove_spec:
  assumes inv: "table_inv db cid" and live: "h_live rid" and rm: "wo_row_remove mem wo db cid rid = (ok, db')"
  shows "table_inv db' cid \<and> only_table cid db db' \<and> (ok \<longleftrightarrow> live_rows db cid rid \<noteq> None) \<and>
    live_rows db' cid = (live_rows db cid)(rid := None) \<and> fresh_id db' cid = fresh_id db cid"
proof (cases "live_rows db cid rid")
  case None
  have f: "table_fits db cid" using inv by (simp add: table_inv_def)
  then have c: "cid < length (tables db)" "\<not> wo_table_is_keys_resident db cid" by (simp_all add: table_fits_def)
  have "ok = False \<and> db' = db"
  proof (cases "row_size (tables db ! cid) = 0")
    case True
    then show ?thesis using rm c by (simp add: wo_row_remove_def Let_def)
  next
    case False
    then have "tab_inv db cid (tables db ! cid)" using inv by (simp add: table_inv_def)
    then have "row_at (tables db ! cid) rid = None" using live_row_at [OF f] None by simp
    then have "hget (idmap (tables db ! cid)) rid = 0" using live by (auto simp: row_at_def split: if_splits)
    then show ?thesis using rm c False by (simp add: wo_row_remove_def Let_def)
  qed
  then show ?thesis using inv None by (simp add: fun_upd_idem)
next
  case (Some r)
  let ?t = "tables db ! cid" and ?c = "class_of db cid"
  from inv Some obtain g where f: "table_fits db cid" and ti: "tab_inv db cid ?t"
    and g: "g < length (rows ?t)" "bitmap ?t ! g" "rows ?t ! g = r" "row_id r = rid"
    and u: "unat (hget (idmap ?t) rid - 1) = g" "hget (idmap ?t) rid \<noteq> 0" and la: "live_rows db cid = row_at ?t"
    by (rule live_slot)
  have c: "cid < length (tables db)" "\<not> wo_table_is_keys_resident db cid" "row_size ?t \<noteq> 0"
    using f ti by (simp_all add: table_fits_def tab_inv_def)
  have sl: "slots_inv (classes db) ?c cid ?t" and ii: "ids_inv (nshards db) (shard db) ?t"
    and im: "ix_meta (indexes ?t) = idx_meta ?c" and ai: "all_indexed ?c (indexes ?t) (row_at ?t)"
    and au: "all_unique ?c (indexes ?t) (row_at ?t)"
    using ti by (auto simp: tab_inv_def)
  let ?t1 = "?t\<lparr>indexes := idx_remove_row ?c (indexes ?t) r, bitmap := (bitmap ?t)[g := False],
      idmap := hdel (idmap ?t) rid, count := count ?t - 1\<rparr>"
  have res: "ok" "db' = set_table db cid (recycle mem ?t1 g)"
    using rm c u g by (auto simp: wo_row_remove_def Let_def)
  have gi: "row_id (rows ?t ! g) = rid" using g by simp
  note cl = clear_ok [OF sl g(1,2) gi, of ?t1]
  have t1: "slots_inv (classes db) ?c cid ?t1" "row_at ?t1 = (row_at ?t)(rid := None)" "g \<notin> set (free_slots ?t1)"
    using cl by simp_all
  have g1: "g < length (rows ?t1)" "\<not> bitmap ?t1 ! g" using g sl by (auto simp: slots_inv_def)
  note rc = recycle_ok(1,2) [OF t1(1) g1 t1(3), where mem = mem]
  have rr: "row_at ?t (row_id r) = Some r" using Some la g by simp
  note ir = idx_remove_row_ok [OF ai rr, unfolded g(4)]
  have ra: "row_at (recycle mem ?t1 g) = (row_at ?t)(rid := None)" using rc t1 by simp
  have au': "all_unique ?c (idx_remove_row ?c (indexes ?t) r) ((row_at ?t)(rid := None))"
    by (rule all_unique_meta [OF ir(2) [symmetric] unique_remove [OF au]])
  have ii': "ids_inv (nshards db) (shard db) (recycle mem ?t1 g)"
    by (rule ids_inv_sub [OF ii]) (simp_all only: ra, simp_all split: if_splits)
  have ti': "tab_inv db cid (recycle mem ?t1 g)"
    unfolding tab_inv_def ra
    using rc(1) ii' im ir au' c by simp
  have "fresh_id db' cid = fresh_id db cid" using res c by (simp add: fresh_id_def)
  then show ?thesis using res table_inv_set [OF f ti'] Some ra la by simp
qed

section \<open>Reading\<close>

lemma read_spec:
  assumes inv: "table_inv db cid" and live: "h_live rid"
  shows "wo_row_read mem wo db cid rid =
    (case live_rows db cid rid of
       None \<Rightarrow> NoSuchRow
     | Some r \<Rightarrow>
         (case decode_all mem (classes db) (kinds (class_of db cid)) (slots r) of
            Inl e \<Rightarrow> DecodeOom | Inr vs \<Rightarrow> RowVals vs))"
proof (cases "live_rows db cid rid")
  case (Some r)
  then show ?thesis using tr.borrow_live [OF Some, where mem = mem and wo = wo] by (simp add: wo_row_read_def)
next
  case None
  have f: "table_fits db cid" using inv by (simp add: table_inv_def)
  have "wo_row_ptr db cid rid = None"
  proof (cases "row_size (tables db ! cid) = 0")
    case False
    then have "tab_inv db cid (tables db ! cid)" using inv by (simp add: table_inv_def)
    then have "row_at (tables db ! cid) rid = None" using live_row_at [OF f] None by simp
    then have "hget (idmap (tables db ! cid)) rid = 0" using live by (auto simp: row_at_def split: if_splits)
    then show ?thesis by (simp add: wo_row_ptr_def Let_def)
  qed (simp add: wo_row_ptr_def Let_def)
  then show ?thesis
    using f None by (simp add: wo_row_read_def peek_row_def wo_row_borrow_def borrow_row_def table_fits_def)
qed

section \<open>Updating one field\<close>

lemma touches_iff: "touches ix field \<longleftrightarrow> field \<in> set (cols ix)"
  by (auto simp: touches_def list_ex_iff)

lemma idx_hash_untouched:
  assumes "\<not> touches ix field"
  shows "idx_hash c ix (r\<lparr>slots := (slots r)[field := nv]\<rparr>) = idx_hash c ix r"
proof -
  have "idx_hash_from c (r\<lparr>slots := (slots r)[field := nv]\<rparr>) cl i h = idx_hash_from c r cl i h"
    if "field \<notin> set cl" for cl i h
    using that by (induction cl arbitrary: i h) auto
  then show ?thesis using assms by (simp add: idx_hash_def touches_iff)
qed

lemma cols_equal_untouched:
  "field \<notin> set cl \<Longrightarrow> cols_equal c cl (r\<lparr>slots := (slots r)[field := nv]\<rparr>) r' = cols_equal c cl r r'"
  unfolding cols_equal_def by (induction cl) auto

lemma indexed_untouched:
  assumes ix: "indexed c ix live" and old: "live (row_id r) = Some r" and nt: "\<not> touches ix field"
  shows "indexed c ix (live(row_id r \<mapsto> r\<lparr>slots := (slots r)[field := nv]\<rparr>))"
proof -
  have "{i. \<exists>q. (live(row_id r \<mapsto> r\<lparr>slots := (slots r)[field := nv]\<rparr>)) i = Some q \<and> idx_hash c ix q = h} =
      {i. \<exists>q. live i = Some q \<and> idx_hash c ix q = h}" for h
    using old idx_hash_untouched [OF nt, of c r nv] by (auto split: if_splits)
  then show ?thesis using ix by (simp add: indexed_def)
qed

lemma reindex_field_ok:
  assumes mem: "\<forall>s. mem s" and ai: "all_indexed c ixs live" and old: "live (row_id r) = Some r"
  shows "all_indexed c (reindex_field mem x c field r (r\<lparr>slots := (slots r)[field := nv]\<rparr>) ixs)
      (live(row_id r \<mapsto> r\<lparr>slots := (slots r)[field := nv]\<rparr>)) \<and>
    ix_meta (reindex_field mem x c field r (r\<lparr>slots := (slots r)[field := nv]\<rparr>) ixs) = ix_meta ixs"
  using ai
proof (induction ixs arbitrary: x)
  case Nil
  then show ?case by (simp add: all_indexed_def)
next
  case (Cons ix ixs)
  let ?n = "r\<lparr>slots := (slots r)[field := nv]\<rparr>"
  have ix: "indexed c ix live" using Cons.prems by (simp add: all_indexed_def)
  have rest: "all_indexed c (reindex_field mem (x + 1) c field r ?n ixs) (live(row_id r \<mapsto> ?n)) \<and>
      ix_meta (reindex_field mem (x + 1) c field r ?n ixs) = ix_meta ixs"
  proof (rule Cons.IH)
    show "all_indexed c ixs live" using Cons.prems by (simp add: all_indexed_def)
  qed
  let ?one = "if touches ix field then fst (idx_add_one mem x c (idx_remove_one c r ix) ?n) else ix"
  have "indexed c ?one (live(row_id r \<mapsto> ?n)) \<and> cols ?one = cols ix \<and> ix_flags ?one = ix_flags ix"
  proof (cases "touches ix field")
    case False
    then show ?thesis using indexed_untouched [OF ix old False] by simp
  next
    case True
    have rm: "indexed c (idx_remove_one c r ix) (live(row_id r := None))" by (rule indexed_remove [OF ix old])
    then have bi: "bucket_inv (idx_remove_one c r ix)" by (simp add: indexed_def)
    have meta: "cols (idx_remove_one c r ix) = cols ix" "ix_flags (idx_remove_one c r ix) = ix_flags ix"
      by (auto simp: idx_remove_one_def split: option.splits)
    obtain ix' ok where add: "idx_add_one mem x c (idx_remove_one c r ix) ?n = (ix', ok)" by force
    have ok: "ok" using idx_add_one_total [OF bi, of mem x c ?n] mem add by simp
    have new: "(live(row_id r := None)) (row_id ?n) = None" by simp
    show ?thesis
      using indexed_add [OF rm new add] idx_add_one_ids [OF bi add] ok meta True add by simp
  qed
  with rest show ?case
    by (cases "touches ix field") (simp_all add: all_indexed_def ix_meta_def del: fun_upd_apply)
qed

text \<open>The unique check of an update finds exactly what the map's other rows say.\<close>

lemma shadow_clash_iff:
  assumes ix: "indexed c ix live" and u: "unique_in c ix live" and old: "live rid = Some r"
    and r': "r' = r\<lparr>slots := (slots r)[field := nv]\<rparr>"
    and br: "\<And>i q. i \<noteq> rid \<Longrightarrow> live i = Some q \<Longrightarrow> borrow i = Some q"
  shows "shadow_clash c borrow field rid r' ix \<longleftrightarrow>
    ix_unique ix \<and> (\<exists>i q. i \<noteq> rid \<and> live i = Some q \<and> cols_equal c (cols ix) r' q)"
proof (cases "touches ix field")
  case False
  have "\<not> cols_equal c (cols ix) r' q" if "ix_unique ix" "i \<noteq> rid" "live i = Some q" for i q
  proof -
    have "\<not> idx_cols_equal c ix r q" using u old that unfolding unique_in_def by metis
    then show ?thesis
      using False cols_equal_untouched [of field "cols ix"] unfolding r' touches_iff
      by (simp add: idx_cols_equal_def cols_equal_def)
  qed
  with False show ?thesis by (auto simp: shadow_clash_def)
next
  case True
  let ?h = "idx_hash c ix r'"
  have s: "set (ix_ids ix ?h) = {i. \<exists>q. live i = Some q \<and> idx_hash c ix q = ?h}"
    using ix by (simp add: indexed_def)
  have "shadow_clash c borrow field rid r' ix \<longleftrightarrow>
      ix_unique ix \<and> (\<exists>i\<in>set (ix_ids ix ?h). i \<noteq> rid \<and> (\<exists>q. borrow i = Some q \<and> idx_cols_equal c ix r' q))"
    using True by (auto simp: shadow_clash_def ix_ids_def list_ex_iff split: option.splits)
  also have "\<dots> \<longleftrightarrow> ix_unique ix \<and> (\<exists>i q. i \<noteq> rid \<and> live i = Some q \<and> idx_cols_equal c ix r' q)"
    using s br idx_cols_equal_hash by fastforce
  finally show ?thesis by (simp add: idx_cols_equal_def cols_equal_def)
qed

lemma unique_update:
  assumes u: "all_unique c ixs live" and old: "live (row_id r) = Some r" and im: "ix_meta ixs = idx_meta c"
    and nv: "\<not> violates c (live(row_id r := None)) r'" and id: "row_id r' = row_id r"
  shows "all_unique c ixs (live(row_id r \<mapsto> r'))"
proof -
  have "all_unique c ixs ((live(row_id r := None))(row_id r' \<mapsto> r'))"
  proof (rule unique_add)
    show "all_unique c ixs (live(row_id r := None))" by (rule unique_remove [OF u])
    show "(live(row_id r := None)) (row_id r') = None" by (simp add: id)
    fix ix i q assume "ix \<in> set ixs" "ix_unique ix" "(live(row_id r := None)) i = Some q"
    then show "\<not> idx_cols_equal c ix r' q" using nv unfolding violates_indexes [OF im] by blast
  qed
  then show ?thesis by (simp add: id)
qed

text \<open>The outcome of an update.\<close>

definition updated :: "wo_db \<Rightarrow> nat \<Rightarrow> db_row \<Rightarrow> nat \<Rightarrow> dbval \<Rightarrow> db_err \<Rightarrow> wo_db \<Rightarrow> bool" where
  "updated db cid r field nv e db' \<longleftrightarrow>
     (let r' = r\<lparr>slots := (slots r)[field := nv]\<rparr>; live = live_rows db cid in
      if violates (class_of db cid) (live(row_id r := None)) r' then e = DB_ERR_UNIQUE \<and> db' = db
      else e = DB_ERR_NONE \<and> live_rows db' cid = live(row_id r \<mapsto> r') \<and> fresh_id db' cid = fresh_id db cid)"

lemma apply_field_spec:
  assumes mem: "\<forall>s. mem s" and inv: "table_inv db cid" and r: "live_rows db cid rid = Some r"
    and p: "wo_row_ptr db cid rid = Some g"
    and f: "field < field_cnt (class_of db cid)" and v: "val_ok (classes db) (kinds (class_of db cid) ! field) nv"
    and up: "row_apply_field_slot mem wo db cid g rid field nv = (e, db')"
  shows "table_inv db' cid \<and> only_table cid db db' \<and> updated db cid r field nv e db'"
proof -
  let ?t = "tables db ! cid" and ?c = "class_of db cid" and ?n = "r\<lparr>slots := (slots r)[field := nv]\<rparr>"
  from inv r obtain g' where fits: "table_fits db cid" and ti: "tab_inv db cid ?t"
    and g': "g' < length (rows ?t)" "bitmap ?t ! g'" "rows ?t ! g' = r" "row_id r = rid"
    and la: "live_rows db cid = row_at ?t" and p': "wo_row_ptr db cid rid = Some g'"
    by (rule live_slot)
  have g: "g < length (rows ?t)" "bitmap ?t ! g" "rows ?t ! g = r" using g' p p' by auto
  have sl: "slots_inv (classes db) ?c cid ?t" and ii: "ids_inv (nshards db) (shard db) ?t"
    and im: "ix_meta (indexes ?t) = idx_meta ?c" and ai: "all_indexed ?c (indexes ?t) (row_at ?t)"
    and au: "all_unique ?c (indexes ?t) (row_at ?t)" and rs: "row_size ?t \<noteq> 0"
    using ti by (auto simp: tab_inv_def)
  have c: "cid < length (tables db)" "\<not> wo_table_is_keys_resident db cid"
    using fits by (auto simp: table_fits_def)
  have old: "row_at ?t (row_id r) = Some r" using r la g' by simp
  have vs: "vals_ok (classes db) (kinds ?c) (slots ?n)"
    using sl g v f by (auto simp: slots_inv_def intro!: vals_ok_update)
  let ?shadow = "set_slots db cid g (slots ?n)"
  have br: "peek_row mem wo ?shadow cid i = Some q" if i: "i \<noteq> rid" "row_at ?t i = Some q" for i q
  proof -
    let ?s = "?t\<lparr>rows := (rows ?t)[g := (rows ?t ! g)\<lparr>slots := slots ?n\<rparr>]\<rparr>"
    have "row_at ?s = (row_at ?t)(row_id (rows ?t ! g) \<mapsto> (rows ?t ! g)\<lparr>slots := slots ?n\<rparr>)"
      by (rule rewrite_ok(2) [OF sl g(1,2) vs]) simp_all
    then have "row_at ?s i = Some q" using i g g' by simp
    then show ?thesis
      using c rs by (intro peek_row_at) (simp_all add: set_slots_def Let_def)
  qed
  have clash: "shadow_clash ?c (peek_row mem wo ?shadow cid) field rid ?n ix \<longleftrightarrow>
      ix_unique ix \<and> (\<exists>i q. i \<noteq> rid \<and> row_at ?t i = Some q \<and> cols_equal ?c (cols ix) ?n q)"
    if "ix \<in> set (indexes ?t)" for ix
    using ai au that old g' by (intro shadow_clash_iff [OF _ _ _ refl br]) (auto simp: all_indexed_def all_unique_def)
  have viol: "list_ex (shadow_clash ?c (peek_row mem wo ?shadow cid) field rid ?n) (indexes ?t) \<longleftrightarrow>
      violates ?c ((row_at ?t)(row_id r := None)) ?n"
    unfolding violates_indexes [OF im] list_ex_iff
    using clash g' by (auto simp: idx_cols_equal_def cols_equal_def split: if_splits)
  show ?thesis
  proof (cases "violates ?c ((row_at ?t)(row_id r := None)) ?n")
    case True
    then have "e = DB_ERR_UNIQUE" "db' = db"
      using up viol g by (simp_all add: row_apply_field_slot_def Let_def)
    then show ?thesis using inv True la by (simp add: updated_def Let_def)
  next
    case False
    let ?ixs = "reindex_field mem 0 ?c field r ?n (indexes ?t)"
    let ?t1 = "?t\<lparr>rows := (rows ?t)[g := ?n], indexes := ?ixs\<rparr>"
    have res: "e = DB_ERR_NONE" "db' = set_table db cid ?t1"
      using up viol g False by (simp_all add: row_apply_field_slot_def Let_def)
    have rw: "slots_inv (classes db) ?c cid ?t1"
      "row_at ?t1 = (row_at ?t)(row_id (rows ?t ! g) \<mapsto> (rows ?t ! g)\<lparr>slots := slots ?n\<rparr>)"
      using rewrite_ok [OF sl g(1,2) vs, of ?t1] g by simp_all
    then have ra: "row_at ?t1 = (row_at ?t)(row_id r \<mapsto> ?n)" using g by simp
    have ii': "ids_inv (nshards db) (shard db) ?t1"
      by (rule ids_inv_sub [OF ii]) (use old in \<open>simp_all only: ra, simp_all split: if_splits\<close>)
    note ri = reindex_field_ok [OF mem ai old, of 0 field nv]
    have "all_unique ?c (indexes ?t) ((row_at ?t)(row_id r \<mapsto> ?n))"
      by (rule unique_update [OF au old im False]) simp
    then have au': "all_unique ?c ?ixs ((row_at ?t)(row_id r \<mapsto> ?n))"
      by (rule all_unique_meta [rotated]) (simp add: ri)
    have ti': "tab_inv db cid ?t1"
      unfolding tab_inv_def ra using rw(1) ii' ri im au' rs by simp
    have "fresh_id db' cid = fresh_id db cid" using res c by (simp add: fresh_id_def)
    then show ?thesis
      using res table_inv_set [OF fits ti'] False ra la by (simp add: updated_def Let_def)
  qed
qed

section \<open>Replay's creation\<close>

text \<open>\<open>create_raw\<close>, the slots filled, \<open>raw_commit\<close>: a row under its logged id.\<close>

definition id_after :: "wo_db \<Rightarrow> nat \<Rightarrow> u64 \<Rightarrow> u64" where
  "id_after db cid rid =
     (if (unat rid - 1) mod nshards db = shard db \<and> fresh_id db cid \<le> rid
      then rid + of_nat (nshards db) else fresh_id db cid)"

lemma id_after_ids_inv:
  assumes ii: "ids_inv n sh t" and small: "unat rid + n < 2 ^ 64 - 1" and rid: "rid \<noteq> 0" and n: "0 < n"
    and ra: "row_at t' = (row_at t)(rid \<mapsto> r)"
    and ni: "next_id t' = (if (unat rid - 1) mod n = sh \<and> next_id t \<le> rid then rid + of_nat n else next_id t)"
  shows "ids_inv n sh t'"
proof (cases "(unat rid - 1) mod n = sh \<and> next_id t \<le> rid")
  case False
  then have "next_id t' = next_id t" using ni by auto
  then show ?thesis using ii False unfolding ids_inv_def ra by (auto simp: not_le)
next
  case True
  then have ni': "next_id t' = rid + of_nat n" using ni by simp
  note st = next_id_step [OF small rid n]
  show ?thesis
    unfolding ids_inv_def ra ni'
  proof (intro conjI allI impI)
    show "rid + of_nat n \<noteq> 0" "(unat (rid + of_nat n) - 1) mod n = sh" using st True by auto
    fix i q assume "((row_at t)(rid \<mapsto> r)) i = Some q" and "(unat i - 1) mod n = sh"
    then have "i = rid \<or> i < next_id t" using ii by (auto simp: ids_inv_def split: if_splits)
    then show "i < rid + of_nat n" using st(2) True by auto
  qed
qed

lemma recreate_spec:
  assumes mem: "\<forall>s. mem s" and inv: "table_inv db cid"
    and room: "length (rows (tables db ! cid)) + DB_SLAB_ROWS < 2 ^ 32"
    and live: "h_live rid" and new: "live_rows db cid rid = None"
    and small: "unat rid + nshards db < 2 ^ 64 - 1"
    and ok: "vals_ok (classes db) (kinds (class_of db cid)) vs"
    and r: "r = \<lparr>row_id = rid, row_class = cid, slots = vs\<rparr>"
    and nv: "\<not> violates (class_of db cid) (live_rows db cid) r"
  obtains g db1 db2 where "wo_row_create_raw mem db cid rid = (Some g, db1)"
    and "wo_row_raw_commit mem wo (set_slots db1 cid g vs) cid g = (True, db2)"
    and "table_inv db2 cid" and "only_table cid db db2" and "live_rows db2 cid = (live_rows db cid)(rid \<mapsto> r)"
    and "fresh_id db2 cid = id_after db cid rid"
    and "length (rows (tables db2 ! cid)) \<le> length (rows (tables db ! cid)) + DB_SLAB_ROWS"
    and "only_table cid db db1"
proof -
  from mem inv room obtain db1 g t where to: "table_of mem db cid = (True, db1)"
    and sa: "slot_alloc mem (tables db1 ! cid) = (Some g, t)" and fits: "table_fits db1 cid"
    and ot: "only_table cid db db1" and ti: "tab_inv db1 cid t" and ra: "row_at t = live_rows db cid"
    and g: "g < length (rows t)" "\<not> bitmap t ! g" "g \<notin> set (free_slots t)" and ni: "next_id t = fresh_id db cid"
    and len: "length (rows t) \<le> length (rows (tables db ! cid)) + DB_SLAB_ROWS"
    by (rule slot_ready)
  note oc = only_table_classes [OF ot]
  have c1: "cid < length (tables db1)" "0 < nshards db1" using fits by (auto simp: table_fits_def)
  have sl: "slots_inv (classes db1) (class_of db1 cid) cid t" and ii: "ids_inv (nshards db1) (shard db1) t"
    and rs: "row_size t \<noteq> 0" using ti by (simp_all add: tab_inv_def)
  obtain h where h: "hput mem (idmap t) rid (of_nat g + 1) = Some h"
  proof -
    have "hash_inv (idmap t)" using sl by (simp add: slots_inv_def)
    from hput_ok [OF this live, of mem "of_nat g + 1"] show thesis using mem that by auto
  qed
  have r': "row_id r = rid" "row_class r = cid" "vals_ok (classes db1) (kinds (class_of db1 cid)) (slots r)"
    using ok oc by (simp_all add: r)
  let ?r0 = "\<lparr>row_id = rid, row_class = cid, slots = map zero_slot (kinds (class_of db1 cid))\<rparr>"
  let ?n = "if (unat rid - 1) mod nshards db1 = shard db1 \<and> next_id t \<le> rid then rid + of_nat (nshards db1) else next_id t"
  let ?t1 = "t\<lparr>rows := (rows t)[g := ?r0], idmap := h, bitmap := (bitmap t)[g := True], count := count t + 1,
      next_id := ?n\<rparr>"
  let ?t2 = "t\<lparr>rows := (rows t)[g := r], idmap := h, bitmap := (bitmap t)[g := True], count := count t + 1,
      next_id := ?n\<rparr>"
  have "idmap (tables db1 ! cid) = idmap t"
    using sa by (auto simp: slot_alloc_def Let_def split: if_splits option.splits)
  then have "hget (idmap (tables db1 ! cid)) rid = 0"
  proof -
    have "row_at t rid = None" using new ra by simp
    then show ?thesis using live \<open>idmap (tables db1 ! cid) = idmap t\<close> by (simp add: row_at_def split: if_splits)
  qed
  then have cr: "wo_row_create_raw mem db cid rid = (Some g, set_table db1 cid ?t1)"
    using to sa h live c1 by (simp add: wo_row_create_raw_def Let_def h_live_key)
  have ss: "set_slots (set_table db1 cid ?t1) cid g vs = set_table db1 cid ?t2"
  proof -
    have "?t1\<lparr>rows := (rows ?t1)[g := (rows ?t1 ! g)\<lparr>slots := vs\<rparr>]\<rparr> = ?t2"
      by (rule db_table.equality) (use g in \<open>simp_all add: r\<close>)
    then show ?thesis
      by (simp only: set_slots_def Let_def set_table_simps(7) [OF c1(1)] set_table_simps(9))
  qed
  define t2 where "t2 = ?t2"
  have t2': "rows t2 = (rows t)[g := r]" "bitmap t2 = (bitmap t)[g := True]" "idmap t2 = h"
      "free_slots t2 = free_slots t" "indexes t2 = indexes t" "row_size t2 = row_size t" "next_id t2 = ?n"
    by (simp_all add: t2_def)
  obtain ixs e where add: "idx_add_row mem (class_of db1 cid) (peek_row mem wo (set_table db1 cid t2) cid)
      (indexes t2) r = (ixs, e)" by force
  have new': "row_at t (row_id r) = None" using new ra r' by simp
  note core = index_placed [OF fits ti g live [folded r'(1)] new' r'(2,3) h [folded r'(1)] t2'(1-6) add]
  have e: "e = DB_ERR_NONE" using core(3,6) mem nv ra oc by auto
  have ii2: "ids_inv (nshards db1) (shard db1) t2"
    by (rule id_after_ids_inv [OF ii _ _ c1(2) core(2) [unfolded r'(1)] t2'(7)])
      (use small oc live in \<open>simp_all add: h_live_key\<close>)
  note fin = core(4) [OF e ii2]
  let ?db2 = "set_table db1 cid (t2\<lparr>indexes := ixs\<rparr>)"
  have "rows t2 ! g = r" using g by (simp add: t2')
  then have cm: "wo_row_raw_commit mem wo (set_slots (set_table db1 cid ?t1) cid g vs) cid g = (True, ?db2)"
    unfolding ss t2_def [symmetric] using add e c1 by (simp add: wo_row_raw_commit_def Let_def)
  have "fresh_id ?db2 cid = id_after db cid rid"
    using c1 rs ni oc by (simp add: fresh_id_def id_after_def t2')
  moreover have "length (rows (tables ?db2 ! cid)) \<le> length (rows (tables db ! cid)) + DB_SLAB_ROWS"
    using c1 len by (simp add: t2')
  moreover note table_inv_set [OF fits, of "t2\<lparr>indexes := ixs\<rparr>"]
  moreover have "only_table cid db ?db2" "only_table cid db (set_table db1 cid ?t1)"
    using only_table_trans [OF ot] by simp_all
  ultimately show thesis
    using that [OF cr cm] fin ra r'(1) by simp
qed

section \<open>The two update statements\<close>

lemma ptr_none:
  assumes inv: "table_inv db cid" and live: "h_live rid" and none: "live_rows db cid rid = None"
  shows "wo_row_ptr db cid rid = None"
proof (cases "row_size (tables db ! cid) = 0")
  case False
  have f: "table_fits db cid" using inv by (simp add: table_inv_def)
  have "tab_inv db cid (tables db ! cid)" using False inv by (simp add: table_inv_def)
  then have "row_at (tables db ! cid) rid = None" using live_row_at [OF f] none by simp
  then have "hget (idmap (tables db ! cid)) rid = 0" using live by (auto simp: row_at_def split: if_splits)
  then show ?thesis by (simp add: wo_row_ptr_def Let_def)
qed (simp add: wo_row_ptr_def Let_def)

lemma update_field_slot_spec:
  assumes mem: "\<forall>s. mem s" and inv: "table_inv db cid" and live: "h_live rid"
    and v: "field < field_cnt (class_of db cid) \<Longrightarrow> val_ok (classes db) (kinds (class_of db cid) ! field) nv"
  obtains e db' where "wo_row_update_field_slot mem wo db cid rid field nv = Lives (e, db', wo)"
    and "table_inv db' cid" and "only_table cid db db'"
    and "if field < field_cnt (class_of db cid) \<and> live_rows db cid rid \<noteq> None
         then updated db cid (the (live_rows db cid rid)) field nv e db'
         else e = DB_ERR_MISC \<and> db' = db"
proof -
  have f: "cid < length (tables db)" "\<not> wo_table_is_keys_resident db cid"
    using inv by (auto simp: table_inv_def table_fits_def)
  show thesis
  proof (cases "field < field_cnt (class_of db cid) \<and> live_rows db cid rid \<noteq> None")
    case False
    then have "wo_row_update_field_slot mem wo db cid rid field nv = Lives (DB_ERR_MISC, db, wo)"
      using f ptr_none [OF inv live] by (auto simp: wo_row_update_field_slot_def)
    then show thesis
      by (rule that [of DB_ERR_MISC db, OF _ inv only_table_refl]) (subst if_not_P [OF False], simp)
  next
    case True
    then obtain r where r: "live_rows db cid rid = Some r" by auto
    obtain g where p: "wo_row_ptr db cid rid = Some g"
      by (rule live_slot [OF inv r]; rule that; assumption)
    obtain e db' where up: "row_apply_field_slot mem wo db cid g rid field nv = (e, db')" by force
    have "wo_row_update_field_slot mem wo db cid rid field nv = Lives (e, db', wo)"
      using f True p up by (simp add: wo_row_update_field_slot_def)
    moreover have "table_inv db' cid \<and> only_table cid db db' \<and> updated db cid r field nv e db'"
      by (rule apply_field_spec [OF mem inv r p _ _ up]) (use True v in simp_all)
    ultimately show thesis using that [of e db'] True r by simp
  qed
qed

lemma update_field_spec:
  assumes mem: "\<forall>s. mem s" and inv: "table_inv db cid" and live: "h_live rid"
    and ok: "\<And>nv. field < field_cnt (class_of db cid) \<Longrightarrow>
      db_val_encode mem (classes db) (kinds (class_of db cid) ! field) v = Inr nv \<Longrightarrow>
      val_ok (classes db) (kinds (class_of db cid) ! field) nv"
  obtains e db' where "wo_row_update_field mem wo db cid rid field v = Lives (e, db', wo)"
    and "table_inv db' cid" and "only_table cid db db'"
    and "if field < field_cnt (class_of db cid) \<and> live_rows db cid rid \<noteq> None
         then (case db_val_encode mem (classes db) (kinds (class_of db cid) ! field) v of
                 Inl x \<Rightarrow> e = DB_ERR_BADKIND \<and> db' = db
               | Inr nv \<Rightarrow> updated db cid (the (live_rows db cid rid)) field nv e db')
         else e = DB_ERR_MISC \<and> db' = db"
proof -
  have f: "cid < length (tables db)" "\<not> wo_table_is_keys_resident db cid"
    using inv by (auto simp: table_inv_def table_fits_def)
  show thesis
  proof (cases "field < field_cnt (class_of db cid) \<and> live_rows db cid rid \<noteq> None")
    case False
    then have "wo_row_update_field mem wo db cid rid field v = Lives (DB_ERR_MISC, db, wo)"
      using f ptr_none [OF inv live] by (auto simp: wo_row_update_field_def split: option.splits)
    then show thesis
      by (rule that [of DB_ERR_MISC db, OF _ inv only_table_refl]) (subst if_not_P [OF False], simp)
  next
    case True
    then obtain r where r: "live_rows db cid rid = Some r" by auto
    obtain g where p: "wo_row_ptr db cid rid = Some g"
      by (rule live_slot [OF inv r]; rule that; assumption)
    show thesis
    proof (cases "db_val_encode mem (classes db) (kinds (class_of db cid) ! field) v")
      case (Inl x)
      then have "wo_row_update_field mem wo db cid rid field v = Lives (DB_ERR_BADKIND, db, wo)"
        using f True p by (simp add: wo_row_update_field_def)
      then show thesis
        by (rule that [of DB_ERR_BADKIND db, OF _ inv only_table_refl]) (use True Inl in simp)
    next
      case (Inr nv)
      obtain e db' where up: "row_apply_field_slot mem wo db cid g rid field nv = (e, db')" by force
      have "wo_row_update_field mem wo db cid rid field v = Lives (e, db', wo)"
        using f True p up Inr by (simp add: wo_row_update_field_def)
      moreover have "table_inv db' cid \<and> only_table cid db db' \<and> updated db cid r field nv e db'"
        by (rule apply_field_spec [OF mem inv r p _ _ up]) (use True ok Inr in simp_all)
      ultimately show thesis using that [of e db'] True r Inr by simp
    qed
  qed
qed

section \<open>Iterating over the rows\<close>

lemma find_upt: "List.find P [a..<n] = Some j \<Longrightarrow> a \<le> j \<and> j < n \<and> P j"
  by (auto simp: find_Some_iff)

lemma filter_upt_find:
  "filter P [a..<n] = (case List.find P [a..<n] of None \<Rightarrow> [] | Some j \<Rightarrow> j # filter P [j + 1..<n])"
proof (induction "n - a" arbitrary: a)
  case 0
  then show ?case by simp
next
  case (Suc k)
  then have "[a..<n] = a # [Suc a..<n]" by (intro upt_conv_Cons) simp
  then show ?case using Suc.hyps(1) [of "Suc a"] Suc.hyps(2) by simp
qed

lemma next_id_progress:
  "wo_row_next_id db cid cur = Some (rid, cur') \<Longrightarrow>
     cur < cur' \<and> cur' \<le> max (length (rows (tables db ! cid))) (length (hkeys (idmap (tables db ! cid))))"
  by (auto simp: wo_row_next_id_def Let_def split: if_splits dest!: find_upt)

text \<open>What the loops over \<open>wo_row_next_id\<close> visit, from a cursor on. Each call moves the cursor
  on, which bounds the loop by the number of slots.\<close>

function row_ids_from :: "wo_db \<Rightarrow> nat \<Rightarrow> nat \<Rightarrow> u64 list" where
  "row_ids_from db cid cur =
     (case wo_row_next_id db cid cur of
        None \<Rightarrow> []
      | Some (rid, cur') \<Rightarrow> rid # row_ids_from db cid cur')"
  by pat_completeness auto

termination
  by (relation "measure (\<lambda>(db, cid, cur). max (length (rows (tables db ! cid)))
        (length (hkeys (idmap (tables db ! cid)))) - cur)")
    (auto dest!: next_id_progress)

declare row_ids_from.simps [simp del]

lemma row_ids_slots:
  assumes "cid < length (tables db)" and "\<not> wo_table_is_keys_resident db cid"
    and "row_size (tables db ! cid) \<noteq> 0"
  shows "row_ids_from db cid cur =
    map (\<lambda>g. row_id (rows (tables db ! cid) ! g))
      (filter (\<lambda>g. bitmap (tables db ! cid) ! g) [cur..<length (rows (tables db ! cid))])"
  using assms
proof (induction db cid cur rule: row_ids_from.induct)
  case (1 db cid cur)
  let ?t = "tables db ! cid"
  let ?f = "List.find (\<lambda>g. bitmap ?t ! g) [cur..<length (rows ?t)]"
  have n: "wo_row_next_id db cid cur = map_option (\<lambda>g. (row_id (rows ?t ! g), g + 1)) ?f"
    using 1(2-4) by (simp add: wo_row_next_id_def Let_def)
  show ?case
  proof (cases ?f)
    case None
    then show ?thesis
      using n filter_upt_find [of "\<lambda>g. bitmap ?t ! g" cur "length (rows ?t)"]
      by (simp add: row_ids_from.simps)
  next
    case (Some g)
    then have "wo_row_next_id db cid cur = Some (row_id (rows ?t ! g), g + 1)" using n by simp
    then show ?thesis
      using 1(1) [OF _ refl, of "row_id (rows ?t ! g)" "g + 1"] 1(2-4) Some
        filter_upt_find [of "\<lambda>g. bitmap ?t ! g" cur "length (rows ?t)"]
      by (simp add: row_ids_from.simps [of db cid cur])
  qed
qed

text \<open>A whole iteration visits every live row once.\<close>

lemma row_ids_live:
  assumes inv: "table_inv db cid"
  shows "distinct (row_ids_from db cid 0)" and "set (row_ids_from db cid 0) = dom (live_rows db cid)"
proof -
  let ?t = "tables db ! cid"
  have fits: "table_fits db cid" using inv by (simp add: table_inv_def)
  then have c: "cid < length (tables db)" "\<not> wo_table_is_keys_resident db cid" by (simp_all add: table_fits_def)
  have "distinct (row_ids_from db cid 0) \<and> set (row_ids_from db cid 0) = dom (live_rows db cid)"
  proof (cases "row_size ?t = 0")
    case True
    have "wo_row_next_id db cid 0 = None" using True by (simp add: wo_row_next_id_def Let_def)
    moreover have "live_rows db cid = Map.empty" using True by (auto simp: live_rows_def)
    ultimately show ?thesis by (simp add: row_ids_from.simps)
  next
    case False
    then have ti: "tab_inv db cid ?t" using inv by (simp add: table_inv_def)
    then have sl: "slots_inv (classes db) (class_of db cid) cid ?t" by (simp add: tab_inv_def)
    note ids = row_ids_slots [OF c False, of 0] and la = live_row_at [OF fits ti]
    have "distinct (row_ids_from db cid 0)"
      unfolding ids using slots_distinct [OF sl] by (auto simp: distinct_map inj_on_def)
    moreover have "i \<in> set (row_ids_from db cid 0) \<longleftrightarrow> i \<in> dom (live_rows db cid)" for i
    proof
      assume "i \<in> set (row_ids_from db cid 0)"
      then obtain g where "g < length (rows ?t)" "bitmap ?t ! g" "i = row_id (rows ?t ! g)"
        unfolding ids by auto
      then show "i \<in> dom (live_rows db cid)" using row_at_slot [OF sl] la by auto
    next
      assume "i \<in> dom (live_rows db cid)"
      then obtain r where "row_at ?t i = Some r" using la by auto
      with sl obtain g where "g < length (rows ?t)" "bitmap ?t ! g" "rows ?t ! g = r" "row_id r = i"
        by (rule row_at_Some)
      then show "i \<in> set (row_ids_from db cid 0)" unfolding ids by force
    qed
    ultimately show ?thesis by blast
  qed
  then show "distinct (row_ids_from db cid 0)" and "set (row_ids_from db cid 0) = dom (live_rows db cid)"
    by simp_all
qed

end
