(* ===== verification/Replay.thy ===== *)
theory Replay
  imports TableOps
begin

text \<open>
  Rebuilding the store from the log at start-up (\<open>wo_wal_append_insert\<close>, \<open>wo_wal_append_update\<close>,
  \<open>wo_db_flush_drops\<close>, \<open>apply_delta\<close>, \<open>apply_record\<close>, \<open>wo_wal_replay_ex\<close> of
  \<open>database/src/wal.c\<close>). The specification is a run of statements over the store as a map from
  classes and ids to rows. Shown: replaying the records of a run of statements on tables whose
  rows are in memory succeeds and gives exactly the store the statements made, invariants
  included; the number of records is counted; a record of a \<open>durable: false\<close> class is reported
  as such and a malformed one as corruption.
\<close>

section \<open>Logging a row of the table\<close>

definition wo_wal_append_insert :: "mem \<Rightarrow> wo_wal \<Rightarrow> wo_db \<Rightarrow> nat \<Rightarrow> u64 \<Rightarrow> bool \<times> wo_wal" where
  "wo_wal_append_insert mem w db cid rid =
     (case wo_row_ptr db cid rid of
        None \<Rightarrow> (False, w)
      | Some g \<Rightarrow>
          stage mem w (build mem (row_payload (classes db) RInsert cid rid (slots (rows (tables db ! cid) ! g)))))"

definition wo_wal_append_update :: "mem \<Rightarrow> wo_wal \<Rightarrow> wo_db \<Rightarrow> nat \<Rightarrow> u64 \<Rightarrow> bool \<times> wo_wal" where
  "wo_wal_append_update mem w db cid rid =
     (case wo_row_ptr db cid rid of
        None \<Rightarrow> (False, w)
      | Some g \<Rightarrow>
          stage mem w (build mem (row_payload (classes db) RUpdate cid rid (slots (rows (tables db ! cid) ! g)))))"

text \<open>After the barrier the rows of keys-resident tables move to the log.\<close>

definition wo_db_flush_drops :: "mem \<Rightarrow> wo_db \<Rightarrow> wo_wal \<Rightarrow> wo_db \<times> wo_wal" where
  "wo_db_flush_drops mem db w =
     (let db1 = foldl (\<lambda>db (cid, rid, off). snd (wo_row_drop_payload mem db cid rid off)) db (pend w);
          db2 = foldl (\<lambda>db (cid, rid, off). snd (wo_row_set_offset db cid rid off)) db1 (repoint w)
      in (db2, w\<lparr>pend := [], repoint := []\<rparr>))"

section \<open>Applying a record\<close>

datatype app_res = AppOk | AppCorrupt | AppVolatile

text \<open>The decode loop: the fields read before one fails, and the rest if none does.\<close>

primrec dec_fields :: "mem \<Rightarrow> classes \<Rightarrow> kind list \<Rightarrow> bytes \<Rightarrow> dbval list \<times> bytes option" where
  "dec_fields mem cs [] bs = ([], Some bs)"
| "dec_fields mem cs (k # ks) bs =
     (case dec_val mem cs k bs of
        None \<Rightarrow> ([], None)
      | Some (v, r) \<Rightarrow> (case dec_fields mem cs ks r of (vs, rest) \<Rightarrow> (v # vs, rest)))"

definition apply_row :: "mem \<Rightarrow> wo_wal option \<Rightarrow> wo_db \<Rightarrow> nat \<Rightarrow> u64 \<Rightarrow> bytes \<Rightarrow> app_res \<times> wo_db" where
  "apply_row mem wo db cid rid body =
     (case wo_row_create_raw mem db cid rid of
        (None, db1) \<Rightarrow> (AppCorrupt, db1)
      | (Some g, db1) \<Rightarrow>
          (case dec_fields mem (classes db) (kinds (class_of db cid)) body of
             (vs, rest) \<Rightarrow>
               let db2 = set_slots db1 cid g
                           (vs @ drop (length vs) (map zero_slot (kinds (class_of db cid)))) in
               if rest \<noteq> Some [] then (AppCorrupt, snd (wo_row_remove mem wo db2 cid rid))
               else
                 (case wo_row_raw_commit mem wo db2 cid g of
                    (True, db3) \<Rightarrow> (AppOk, db3)
                  | (False, db3) \<Rightarrow> (AppCorrupt, snd (wo_row_remove mem wo db3 cid rid)))))"

text \<open>A delta replays as fold, remove and create. \<open>None\<close> for the log is a store without a runtime.\<close>

definition apply_delta :: "mem \<Rightarrow> wo_wal option \<Rightarrow> wo_db \<Rightarrow> nat \<Rightarrow> u64 \<Rightarrow> bytes \<Rightarrow> app_res \<times> wo_db" where
  "apply_delta mem wo db cid rid r0 =
     (case do { (field, r) \<leftarrow> rd_u32 r0; (back_off, r) \<leftarrow> rd_u64 r; Some (field, back_off, r) } of
        None \<Rightarrow> (AppCorrupt, db)
      | Some (field, back_off, r) \<Rightarrow>
          if field_cnt (class_of db cid) \<le> field then (AppCorrupt, db)
          else
            (case wo of
               None \<Rightarrow> (AppCorrupt, db)
             | Some w \<Rightarrow>
            (case dec_val mem (classes db) (kinds (class_of db cid) ! field) r of
               None \<Rightarrow> (AppCorrupt, db)
             | Some (nv, rest) \<Rightarrow>
               if rest \<noteq> [] then (AppCorrupt, db)
               else if \<not> mem AFold then (AppCorrupt, db)
               else
            (case wo_wal_fold_row_at mem w (classes db) (unat back_off) of
               Inl e \<Rightarrow> (AppCorrupt, db)
             | Inr (got_cid, got_id, vs, hops) \<Rightarrow>
               if got_cid \<noteq> cid \<or> got_id \<noteq> rid then (AppCorrupt, db)
               else
            (case wo_row_remove mem wo db cid rid of
               (False, db1) \<Rightarrow> (AppCorrupt, db1)
             | (True, db1) \<Rightarrow>
            (case wo_row_create_raw mem db1 cid rid of
               (None, db2) \<Rightarrow> (AppCorrupt, db2)
             | (Some g, db2) \<Rightarrow>
            (case wo_row_raw_commit mem wo (set_slots db2 cid g (vs[field := nv])) cid g of
               (True, db3) \<Rightarrow> (AppOk, db3)
             | (False, db3) \<Rightarrow> (AppCorrupt, snd (wo_row_remove mem wo db3 cid rid)))))))))"

definition apply_record :: "mem \<Rightarrow> wo_wal option \<Rightarrow> wo_db \<Rightarrow> bytes \<Rightarrow> app_res \<times> wo_db" where
  "apply_record mem wo db payload =
     (if payload \<noteq> [] \<and> hd payload = rec_byte RSchema then (AppOk, db)
      else
        (case parse_head payload of
           None \<Rightarrow> (AppCorrupt, db)
         | Some ((kind, cid, rid), r) \<Rightarrow>
             if length (classes db) \<le> cid then (AppCorrupt, db)
             else if cls_flags (class_of db cid) AND WO_CLASSF_VOLATILE \<noteq> 0 then (AppVolatile, db)
             else if kind = rec_byte RRemove then
               (case wo_row_remove mem wo db cid rid of (ok, db1) \<Rightarrow> (if ok then AppOk else AppCorrupt, db1))
             else if kind = rec_byte RDelta then apply_delta mem wo db cid rid r
             else if kind \<noteq> rec_byte RInsert \<and> kind \<noteq> rec_byte RUpdate then (AppCorrupt, db)
             else if kind = rec_byte RUpdate then
               (case wo_row_remove mem wo db cid rid of
                  (False, db1) \<Rightarrow> (AppCorrupt, db1)
                | (True, db1) \<Rightarrow> apply_row mem wo db1 cid rid r)
             else apply_row mem wo db cid rid r))"

section \<open>The replay loop\<close>

definition peek_kind :: "bytes \<Rightarrow> u8" where
  "peek_kind p = (if 1 \<le> length p then hd p else 0)"

definition peek_cid :: "bytes \<Rightarrow> nat" where
  "peek_cid p = (if 5 \<le> length p then of_le (take 4 (drop 1 p)) else 0)"

definition peek_id :: "bytes \<Rightarrow> u64" where
  "peek_id p = (if 13 \<le> length p then of_nat (of_le (take 8 (drop 5 p))) else 0)"

datatype replay_res = Replayed nat | ReplayCorrupt | ReplayVolatile nat

definition after_record :: "mem \<Rightarrow> wo_db \<Rightarrow> nat \<Rightarrow> bytes \<Rightarrow> wo_db" where
  "after_record mem db off p =
     (if peek_kind p \<in> {rec_byte RInsert, rec_byte RUpdate, rec_byte RDelta} \<and> peek_id p \<noteq> 0 \<and>
         wo_table_is_keys_resident db (peek_cid p)
      then snd (wo_row_drop_payload mem db (peek_cid p) (peek_id p) off) else db)"

function replay_loop ::
  "mem \<Rightarrow> wo_wal option \<Rightarrow> bytes \<Rightarrow> wo_db \<Rightarrow> nat \<Rightarrow> nat \<Rightarrow> replay_res \<times> wo_db" where
  "replay_loop mem wo f db off applied =
     (case scan_record mem f off of
        None \<Rightarrow> (Replayed applied, db)
      | Some p \<Rightarrow>
          (case apply_record mem wo db p of
             (AppVolatile, db') \<Rightarrow> (ReplayVolatile (peek_cid p), db')
           | (AppCorrupt, db') \<Rightarrow> (ReplayCorrupt, db')
           | (AppOk, db') \<Rightarrow>
               replay_loop mem wo f (after_record mem db' off p) (off + 8 + length p + 4)
                 (if peek_kind p \<noteq> rec_byte RSchema then applied + 1 else applied)))"
  by pat_completeness auto

termination
  by (relation "measure (\<lambda>(mem, wo, f, db, off, applied). length f - off)")
    (auto dest: scan_record_length)

declare replay_loop.simps [simp del]

text \<open>The read-only view of the file that replay lends the runtime; \<open>rt\<close>: is there a runtime.
  A log that does not exist is a fresh start.\<close>

definition replay_view :: "bytes \<Rightarrow> wo_wal" where
  "replay_view f =
     \<lparr>fbytes = f, woff = 0, wbytes = [], wcap = 0, stat_batches = 0, stat_records = 0,
      stat_peak_batch = 0, stat_peak_staged = 0, compacted_bytes = 0, prealloc = 0, pend = [],
      pend_cap = 0, repoint = [], repoint_cap = 0, schema = None, schema_written = False\<rparr>"

definition wo_wal_replay_ex :: "mem \<Rightarrow> bool \<Rightarrow> bytes option \<Rightarrow> wo_db \<Rightarrow> replay_res \<times> wo_db" where
  "wo_wal_replay_ex mem rt file db =
     (case file of
        None \<Rightarrow> (Replayed 0, db)
      | Some f \<Rightarrow> replay_loop mem (if rt then Some (replay_view f) else None) f db 0 0)"

text \<open>The loop goes through the records one by one.\<close>

fun replay_list ::
  "mem \<Rightarrow> wo_wal option \<Rightarrow> wo_db \<Rightarrow> (nat \<times> bytes) list \<Rightarrow> nat \<Rightarrow> replay_res \<times> wo_db" where
  "replay_list mem wo db [] applied = (Replayed applied, db)"
| "replay_list mem wo db ((off, p) # rs) applied =
     (case apply_record mem wo db p of
        (AppVolatile, db') \<Rightarrow> (ReplayVolatile (peek_cid p), db')
      | (AppCorrupt, db') \<Rightarrow> (ReplayCorrupt, db')
      | (AppOk, db') \<Rightarrow>
          replay_list mem wo (after_record mem db' off p) rs
            (if peek_kind p \<noteq> rec_byte RSchema then applied + 1 else applied))"

lemma replay_loop_list:
  "replay_loop mem wo f db off applied = replay_list mem wo db (wal_records mem f off) applied"
proof (induction mem wo f db off applied rule: replay_loop.induct)
  case (1 mem wo f db off applied)
  show ?case
  proof (cases "scan_record mem f off")
    case None
    then show ?thesis by (simp add: replay_loop.simps wal_records.simps)
  next
    case (Some p)
    obtain a db' where a: "apply_record mem wo db p = (a, db')" by force
    note ih = 1 [OF Some a [symmetric]]
    show ?thesis
      using Some a ih by (cases a) (simp_all add: replay_loop.simps [of mem wo f db] wal_records.simps [of mem f off])
  qed
qed

section \<open>Statements over the store\<close>

text \<open>
  The specification. A logged statement is an insert or a whole-row update with the values, a
  remove, or the schema head, which changes nothing. \<open>None\<close>: the statement is not possible.
\<close>

type_synonym store = "nat \<Rightarrow> u64 \<Rightarrow> db_row option"

datatype stmt =
    SInsert nat u64 "dbval list"
  | SUpdate nat u64 "dbval list"
  | SRemove nat u64
  | SHead bytes

definition row_of :: "nat \<Rightarrow> u64 \<Rightarrow> dbval list \<Rightarrow> db_row" where
  "row_of cid rid vs = \<lparr>row_id = rid, row_class = cid, slots = vs\<rparr>"

fun stmt_payload :: "classes \<Rightarrow> stmt \<Rightarrow> bytes" where
  "stmt_payload cs (SInsert cid rid vs) = row_payload cs RInsert cid rid vs"
| "stmt_payload cs (SUpdate cid rid vs) = row_payload cs RUpdate cid rid vs"
| "stmt_payload cs (SRemove cid rid) = rec_head RRemove cid rid"
| "stmt_payload cs (SHead s) = rec_byte RSchema # s"

fun run_stmt :: "classes \<Rightarrow> stmt \<Rightarrow> store \<Rightarrow> store option" where
  "run_stmt cs (SInsert cid rid vs) S =
     (if S cid rid = None \<and> \<not> violates (cs ! cid) (S cid) (row_of cid rid vs)
      then Some (S(cid := (S cid)(rid \<mapsto> row_of cid rid vs))) else None)"
| "run_stmt cs (SUpdate cid rid vs) S =
     (if S cid rid \<noteq> None \<and> \<not> violates (cs ! cid) ((S cid)(rid := None)) (row_of cid rid vs)
      then Some (S(cid := (S cid)(rid \<mapsto> row_of cid rid vs))) else None)"
| "run_stmt cs (SRemove cid rid) S =
     (if S cid rid \<noteq> None then Some (S(cid := (S cid)(rid := None))) else None)"
| "run_stmt cs (SHead s) S = Some S"

primrec run_stmts :: "classes \<Rightarrow> stmt list \<Rightarrow> store \<Rightarrow> store option" where
  "run_stmts cs [] S = Some S"
| "run_stmts cs (s # ss) S = (case run_stmt cs s S of None \<Rightarrow> None | Some S' \<Rightarrow> run_stmts cs ss S')"

text \<open>What the log's format and the engine's bounds ask of a statement: a class whose rows are in
  memory and durable, an id in range, values of the class's kinds.\<close>

definition class_ok :: "wo_db \<Rightarrow> nat \<Rightarrow> bool" where
  "class_ok db cid \<longleftrightarrow> cid < length (classes db) \<and> \<not> wo_table_is_keys_resident db cid \<and>
     cls_flags (class_of db cid) AND WO_CLASSF_VOLATILE = 0"

definition id_ok :: "wo_db \<Rightarrow> u64 \<Rightarrow> bool" where
  "id_ok db rid \<longleftrightarrow> h_live rid \<and> unat rid + nshards db < 2 ^ 64 - 1"

fun stmt_ok :: "wo_db \<Rightarrow> stmt \<Rightarrow> bool" where
  "stmt_ok db (SInsert cid rid vs) =
     (class_ok db cid \<and> id_ok db rid \<and> vals_ok (classes db) (kinds (class_of db cid)) vs)"
| "stmt_ok db (SUpdate cid rid vs) =
     (class_ok db cid \<and> id_ok db rid \<and> vals_ok (classes db) (kinds (class_of db cid)) vs)"
| "stmt_ok db (SRemove cid rid) = (class_ok db cid \<and> id_ok db rid)"
| "stmt_ok db (SHead s) = True"

definition db_inv :: "wo_db \<Rightarrow> bool" where
  "db_inv db \<longleftrightarrow> length (tables db) = length (classes db) \<and>
     (\<forall>cid<length (classes db). \<not> wo_table_is_keys_resident db cid \<longrightarrow> table_inv db cid)"

text \<open>Room for \<open>n\<close> more statements: each may need a slab.\<close>

definition room_for :: "nat \<Rightarrow> wo_db \<Rightarrow> bool" where
  "room_for n db \<longleftrightarrow> (\<forall>t\<in>set (tables db). length (rows t) + n * DB_SLAB_ROWS < 2 ^ 32)"

definition same_shape :: "wo_db \<Rightarrow> wo_db \<Rightarrow> bool" where
  "same_shape db db' \<longleftrightarrow> classes db' = classes db \<and> nshards db' = nshards db \<and> shard db' = shard db \<and>
     length (tables db') = length (tables db)"

lemma same_shape_simps:
  assumes "same_shape db db'"
  shows "classes db' = classes db" "nshards db' = nshards db" "class_of db' = class_of db"
    "wo_table_is_keys_resident db' = wo_table_is_keys_resident db" "class_ok db' = class_ok db"
    "id_ok db' = id_ok db"
  using assms
  by (auto simp: same_shape_def class_of_def wo_table_is_keys_resident_def class_ok_def id_ok_def fun_eq_iff)

lemma same_shape_stmt_ok: "same_shape db db' \<Longrightarrow> stmt_ok db' s = stmt_ok db s"
  by (cases s) (simp_all add: same_shape_simps)

lemma only_table_shape: "only_table cid db db' \<Longrightarrow> same_shape db db'"
  by (auto simp: only_table_def same_shape_def)

lemma same_shape_trans: "same_shape a b \<Longrightarrow> same_shape b c \<Longrightarrow> same_shape a c"
  by (simp add: same_shape_def)

lemma table_inv_other:
  "only_table cid db db' \<Longrightarrow> c \<noteq> cid \<Longrightarrow> table_inv db' c = table_inv db c"
  by (auto simp: only_table_def table_inv_def table_fits_def tab_inv_def)

text \<open>A change of one table that keeps its invariant keeps the store's.\<close>

lemma db_inv_one:
  assumes inv: "db_inv db" and o: "only_table cid db db'" and t: "table_inv db' cid"
  shows "db_inv db'"
proof -
  note sh = same_shape_simps [OF only_table_shape [OF o]]
  have "length (tables db') = length (tables db)" using only_table_shape [OF o] by (simp add: same_shape_def)
  then show ?thesis
    using inv t table_inv_other [OF o] unfolding db_inv_def sh by metis
qed

lemma live_rows_one:
  "only_table cid db db' \<Longrightarrow> live_rows db' = (live_rows db)(cid := live_rows db' cid)"
  by (rule ext) (simp add: only_table_other)

lemma room_one:
  assumes o: "only_table cid db db'" and c: "cid < length (tables db)" and r: "room_for (Suc n) db"
    and l: "length (rows (tables db' ! cid)) \<le> length (rows (tables db ! cid)) + DB_SLAB_ROWS"
  shows "room_for n db'"
  unfolding room_for_def
proof
  fix t assume "t \<in> set (tables db')"
  moreover have len: "length (tables db') = length (tables db)" using only_table_shape [OF o] by (simp add: same_shape_def)
  ultimately obtain j where j: "j < length (tables db)" "tables db' ! j = t" by (metis in_set_conv_nth)
  have rj: "length (rows (tables db ! j)) + Suc n * DB_SLAB_ROWS < 2 ^ 32"
    using r j by (simp add: room_for_def)
  show "length (rows t) + n * DB_SLAB_ROWS < 2 ^ 32"
  proof (cases "j = cid")
    case True
    then show ?thesis using rj l j by simp
  next
    case False
    then have "t = tables db ! j" using j o by (auto simp: only_table_def)
    then show ?thesis using rj by simp
  qed
qed

lemma remove_rows:
  assumes "table_inv db cid" and "wo_row_remove mem wo db cid rid = (ok, db')"
  shows "rows (tables db' ! cid) = rows (tables db ! cid)"
  using assms
  by (auto simp: wo_row_remove_def Let_def table_inv_def table_fits_def split: if_splits)

lemma dec_fields_enc:
  assumes "mem ADec" and "vals_ok cs ks vs"
  shows "dec_fields mem cs ks (enc_vals cs ks vs @ rest) = (vs, Some rest)"
proof -
  have "map_parse (dec_val mem cs) ks bs = Some (vs, r) \<Longrightarrow> dec_fields mem cs ks bs = (vs, Some r)" for bs r
    by (induction ks arbitrary: bs vs) (auto split: option.splits prod.splits)
  then show ?thesis using dec_enc_vals [where mem = mem, OF assms] by blast
qed

section \<open>Replay does what the statements did\<close>

lemma class_ok_inv:
  assumes "db_inv db" and "class_ok db cid"
  shows "table_inv db cid" and "cid < length (tables db)" and "cid < length (classes db)"
    and "cls_flags (class_of db cid) AND WO_CLASSF_VOLATILE = 0"
  using assms by (auto simp: db_inv_def class_ok_def)

lemma apply_row_ok:
  assumes mem: "\<forall>s. mem s" and inv: "db_inv db" and c: "class_ok db cid" and i: "id_ok db rid"
    and vs: "vals_ok (classes db) (kinds (class_of db cid)) vs" and room: "room_for (Suc n) db"
    and new: "live_rows db cid rid = None" and nv: "\<not> violates (class_of db cid) (live_rows db cid) (row_of cid rid vs)"
  shows "\<exists>db'. apply_row mem wo db cid rid (enc_vals (classes db) (kinds (class_of db cid)) vs) = (AppOk, db') \<and>
    only_table cid db db' \<and> db_inv db' \<and> room_for n db' \<and>
    live_rows db' cid = (live_rows db cid)(rid \<mapsto> row_of cid rid vs)"
proof -
  note ci = class_ok_inv [OF inv c]
  have "length (rows (tables db ! cid)) + Suc n * DB_SLAB_ROWS < 2 ^ 32"
    using room ci(2) by (simp add: room_for_def)
  then have rm: "length (rows (tables db ! cid)) + DB_SLAB_ROWS < 2 ^ 32" by simp
  have live: "h_live rid" "unat rid + nshards db < 2 ^ 64 - 1" using i by (auto simp: id_ok_def)
  obtain g db1 db2 where cr: "wo_row_create_raw mem db cid rid = (Some g, db1)"
    and cm: "wo_row_raw_commit mem wo (set_slots db1 cid g vs) cid g = (True, db2)"
    and t2: "table_inv db2 cid" and o2: "only_table cid db db2"
    and l2: "live_rows db2 cid = (live_rows db cid)(rid \<mapsto> row_of cid rid vs)"
    and len: "length (rows (tables db2 ! cid)) \<le> length (rows (tables db ! cid)) + DB_SLAB_ROWS"
    by (rule recreate_spec [OF mem ci(1) rm live(1) new live(2) vs row_of_def nv])
  have dec: "dec_fields mem (classes db) (kinds (class_of db cid))
      (enc_vals (classes db) (kinds (class_of db cid)) vs) = (vs, Some [])"
    using dec_fields_enc [OF _ vs, of mem "[]"] mem by simp
  have "apply_row mem wo db cid rid (enc_vals (classes db) (kinds (class_of db cid)) vs) = (AppOk, db2)"
    using cr cm dec vals_ok_length [OF vs] by (simp add: apply_row_def Let_def)
  then show ?thesis
    using db_inv_one [OF inv o2 t2] room_one [OF o2 ci(2) room len] o2 l2 by blast
qed

lemma removed_ok:
  assumes inv: "db_inv db" and c: "class_ok db cid" and i: "id_ok db rid" and there: "live_rows db cid rid \<noteq> None"
    and room: "room_for n db"
  shows "\<exists>db'. wo_row_remove mem wo db cid rid = (True, db') \<and> only_table cid db db' \<and> db_inv db' \<and>
    room_for n db' \<and> live_rows db' cid = (live_rows db cid)(rid := None)"
proof -
  note ci = class_ok_inv [OF inv c]
  obtain ok db' where rm: "wo_row_remove mem wo db cid rid = (ok, db')" by force
  have live: "h_live rid" using i by (simp add: id_ok_def)
  note r = remove_spec [OF ci(1) live rm] and rr = remove_rows [OF ci(1) rm]
  have "room_for n db'"
    unfolding room_for_def
  proof
    fix t assume "t \<in> set (tables db')"
    moreover have "length (tables db') = length (tables db)"
      using only_table_shape [of cid db db'] r by (simp add: same_shape_def)
    ultimately obtain j where j: "j < length (tables db)" "tables db' ! j = t" by (metis in_set_conv_nth)
    then have "rows t = rows (tables db ! j)" using rr r by (cases "j = cid") (auto simp: only_table_def)
    then show "length (rows t) + n * DB_SLAB_ROWS < 2 ^ 32" using room j by (simp add: room_for_def)
  qed
  then show ?thesis using rm r there db_inv_one [OF inv, of cid db'] by auto
qed

lemma payload_head:
  assumes "cid < length (classes db)" and "classes_fit (classes db)"
  shows "parse_head (row_payload (classes db) k cid rid vs) =
      Some ((rec_byte k, cid, rid), enc_vals (classes db) (kinds (class_of db cid)) vs)"
    and "parse_head (rec_head k cid rid) = Some ((rec_byte k, cid, rid), [])"
    and "hd (row_payload (classes db) k cid rid vs) = rec_byte k" and "hd (rec_head k cid rid) = rec_byte k"
    and "row_payload (classes db) k cid rid vs \<noteq> []" and "rec_head k cid rid \<noteq> []"
proof -
  have c: "cid < 2 ^ 32" using assms by (simp add: classes_fit_def)
  show "parse_head (row_payload (classes db) k cid rid vs) =
      Some ((rec_byte k, cid, rid), enc_vals (classes db) (kinds (class_of db cid)) vs)"
    using parse_head_rec [OF c] by (simp add: row_payload_def class_of_def)
  show "parse_head (rec_head k cid rid) = Some ((rec_byte k, cid, rid), [])"
    using parse_head_rec [OF c, of k rid "[]"] by simp
qed (simp_all add: row_payload_def rec_head_def wput_u8_def)

lemma apply_stmt_ok:
  assumes mem: "\<forall>s. mem s" and fit: "classes_fit (classes db)" and inv: "db_inv db" and ok: "stmt_ok db s"
    and room: "room_for (Suc n) db" and run: "run_stmt (classes db) s (live_rows db) = Some S'"
  shows "\<exists>db'. apply_record mem wo db (stmt_payload (classes db) s) = (AppOk, db') \<and> same_shape db db' \<and>
    db_inv db' \<and> room_for n db' \<and> live_rows db' = S'"
proof (cases s)
  case (SHead x)
  have "room_for n db" using room by (auto simp: room_for_def)
  then show ?thesis using SHead run inv by (auto simp: apply_record_def same_shape_def)
next
  case (SRemove cid rid)
  have "room_for n db" using room by (auto simp: room_for_def)
  have c: "class_ok db cid" "id_ok db rid" using ok SRemove by auto
  note ci = class_ok_inv [OF inv c(1)] 
  have there: "live_rows db cid rid \<noteq> None" and S': "S' = (live_rows db)(cid := (live_rows db cid)(rid := None))"
    using run SRemove by (auto split: if_splits)
  from removed_ok [OF inv c there \<open>room_for n db\<close>] obtain db' where
    r: "wo_row_remove mem wo db cid rid = (True, db')" "only_table cid db db'" "db_inv db'" "room_for n db'"
      "live_rows db' cid = (live_rows db cid)(rid := None)" by blast
  have "apply_record mem wo db (stmt_payload (classes db) s) = (AppOk, db')"
    using payload_head [OF ci(3) fit] ci r(1) SRemove by (simp add: apply_record_def)
  moreover have "live_rows db' = S'" using live_rows_one [OF r(2)] r(5) S' by simp
  ultimately show ?thesis using r only_table_shape by blast
next
  case (SInsert cid rid vs)
  have c: "class_ok db cid" "id_ok db rid" "vals_ok (classes db) (kinds (class_of db cid)) vs"
    using ok SInsert by auto
  note ci = class_ok_inv [OF inv c(1)]
  have new: "live_rows db cid rid = None" "\<not> violates (class_of db cid) (live_rows db cid) (row_of cid rid vs)"
    and S': "S' = (live_rows db)(cid := (live_rows db cid)(rid \<mapsto> row_of cid rid vs))"
    using run SInsert by (auto simp: class_of_def split: if_splits)
  from apply_row_ok [OF mem inv c room new] obtain db' where
    r: "apply_row mem wo db cid rid (enc_vals (classes db) (kinds (class_of db cid)) vs) = (AppOk, db')"
      "only_table cid db db'" "db_inv db'" "room_for n db'"
      "live_rows db' cid = (live_rows db cid)(rid \<mapsto> row_of cid rid vs)" by blast
  have "apply_record mem wo db (stmt_payload (classes db) s) = (AppOk, db')"
    using payload_head [OF ci(3) fit] ci r(1) SInsert by (simp add: apply_record_def)
  moreover have "live_rows db' = S'" using live_rows_one [OF r(2)] r(5) S' by simp
  ultimately show ?thesis using r only_table_shape by blast
next
  case (SUpdate cid rid vs)
  have c: "class_ok db cid" "id_ok db rid" "vals_ok (classes db) (kinds (class_of db cid)) vs"
    using ok SUpdate by auto
  note ci = class_ok_inv [OF inv c(1)]
  have there: "live_rows db cid rid \<noteq> None"
    and nv: "\<not> violates (class_of db cid) ((live_rows db cid)(rid := None)) (row_of cid rid vs)"
    and S': "S' = (live_rows db)(cid := (live_rows db cid)(rid \<mapsto> row_of cid rid vs))"
    using run SUpdate by (auto simp: class_of_def split: if_splits)
  from removed_ok [OF inv c(1,2) there room] obtain db1 where
    q: "wo_row_remove mem wo db cid rid = (True, db1)" "only_table cid db db1" "db_inv db1" "room_for (Suc n) db1"
      "live_rows db1 cid = (live_rows db cid)(rid := None)" by blast
  note sh = same_shape_simps [OF only_table_shape [OF q(2)]]
  have c1: "class_ok db1 cid" "id_ok db1 rid" "vals_ok (classes db1) (kinds (class_of db1 cid)) vs"
    using c by (simp_all add: sh)
  have new: "live_rows db1 cid rid = None" "\<not> violates (class_of db1 cid) (live_rows db1 cid) (row_of cid rid vs)"
    using nv by (simp_all add: q(5) sh)
  from apply_row_ok [OF mem q(3) c1 q(4) new] obtain db' where
    r: "apply_row mem wo db1 cid rid (enc_vals (classes db) (kinds (class_of db cid)) vs) = (AppOk, db')"
      "only_table cid db1 db'" "db_inv db'" "room_for n db'"
      "live_rows db' cid = (live_rows db1 cid)(rid \<mapsto> row_of cid rid vs)" unfolding sh by blast
  have "apply_record mem wo db (stmt_payload (classes db) s) = (AppOk, db')"
    using payload_head [OF ci(3) fit] ci r(1) q(1) SUpdate by (simp add: apply_record_def)
  moreover have o: "only_table cid db db'" by (rule only_table_trans [OF q(2) r(2)])
  moreover have "live_rows db' = S'" using live_rows_one [OF o] r(5) q(5) S' by simp
  ultimately show ?thesis using r only_table_shape by blast
qed

lemma peek_resident:
  assumes "classes_fit (classes db)" and "stmt_ok db s"
  shows "after_record mem db off (stmt_payload (classes db) s) = db"
    and "peek_kind (stmt_payload (classes db) s) = rec_byte RSchema \<longleftrightarrow> (\<exists>x. s = SHead x)"
proof -
  have pc: "peek_cid (rec_head k cid rid @ x) = cid" if "cid < length (classes db)" for k cid rid x
  proof -
    have "cid < 256 ^ 4" using that assms(1) by (simp add: classes_fit_def)
    then show ?thesis
      by (simp add: peek_cid_def rec_head_def wput_u8_def wput_u32_def of_le_le_id)
  qed
  have pk: "peek_kind (rec_head k cid rid @ x) = rec_byte k" for k cid rid x
    by (simp add: peek_kind_def rec_head_def wput_u8_def)
  show "after_record mem db off (stmt_payload (classes db) s) = db"
    using assms(2) pc pk pc [where x = "[]"] pk [where x = "[]"]
    by (cases s) (auto simp: after_record_def class_ok_def row_payload_def peek_kind_def)
  show "peek_kind (stmt_payload (classes db) s) = rec_byte RSchema \<longleftrightarrow> (\<exists>x. s = SHead x)"
    using pk pk [where x = "[]"] by (cases s) (simp_all add: row_payload_def peek_kind_def)
qed

definition row_records :: "stmt list \<Rightarrow> nat" where
  "row_records ss = length (filter (\<lambda>s. case s of SHead x \<Rightarrow> False | _ \<Rightarrow> True) ss)"

lemma replay_list_stmts:
  assumes mem: "\<forall>s. mem s" and fit: "classes_fit (classes db)"
  shows "db_inv db \<Longrightarrow> \<forall>s\<in>set ss. stmt_ok db s \<Longrightarrow> room_for (length ss) db \<Longrightarrow>
    run_stmts (classes db) ss (live_rows db) = Some S \<Longrightarrow>
    \<exists>db'. replay_list mem wo db (with_offsets off (map (stmt_payload (classes db)) ss)) n =
        (Replayed (n + row_records ss), db') \<and> same_shape db db' \<and> db_inv db' \<and> live_rows db' = S"
  using fit
proof (induction ss arbitrary: db off n)
  case Nil
  then show ?case by (simp add: row_records_def same_shape_def)
next
  case (Cons s ss)
  obtain S1 where S1: "run_stmt (classes db) s (live_rows db) = Some S1" "run_stmts (classes db) ss S1 = Some S"
    using Cons.prems by (auto split: option.splits)
  have ok: "stmt_ok db s" and room: "room_for (Suc (length ss)) db" using Cons.prems by simp_all
  from apply_stmt_ok [OF mem Cons.prems(5,1) ok room S1(1)] obtain db1 where
    a: "apply_record mem wo db (stmt_payload (classes db) s) = (AppOk, db1)" and sh: "same_shape db db1"
    and i1: "db_inv db1" and r1: "room_for (length ss) db1" and l1: "live_rows db1 = S1" by blast
  note shs = same_shape_simps [OF sh]
  have oks: "\<forall>s\<in>set ss. stmt_ok db1 s" and ok1: "stmt_ok db1 s"
    using Cons.prems(2) by (simp_all add: same_shape_stmt_ok [OF sh])
  have fit1: "classes_fit (classes db1)" using Cons.prems(5) by (simp add: shs)
  note pk = peek_resident [OF fit1 ok1]
  let ?off = "off + 8 + length (stmt_payload (classes db) s) + 4"
  let ?n = "if \<exists>x. s = SHead x then n else n + 1"
  from Cons.IH [OF i1 oks r1 _ fit1, of ?off ?n] S1(2) l1 obtain db' where
    r: "replay_list mem wo db1 (with_offsets ?off (map (stmt_payload (classes db1)) ss)) ?n =
        (Replayed (?n + row_records ss), db')" and s': "same_shape db1 db'" "db_inv db'" "live_rows db' = S"
    by (auto simp: shs)
  have "replay_list mem wo db (with_offsets off (map (stmt_payload (classes db)) (s # ss))) n =
      (Replayed (?n + row_records ss), db')"
    using a r pk by (cases "\<exists>x. s = SHead x") (simp_all add: shs)
  moreover have "?n + row_records ss = n + row_records (s # ss)"
    by (cases s) (simp_all add: row_records_def)
  ultimately show ?case using s' same_shape_trans [OF sh s'(1)] by auto
qed

lemma row_records_SHead [simp]: "row_records (SHead x # ss) = row_records ss"
  by (simp add: row_records_def)

section \<open>The log and the store agree\<close>

text \<open>
  The store \<open>db\<close>, the written part of the log (the statements \<open>done\<close>) and the staged batch
  (\<open>todo\<close>): running both from the empty store gives the rows of the store's durable tables.
\<close>

definition durable_rows :: "wo_db \<Rightarrow> store" where
  "durable_rows db cid =
     (if cls_flags (class_of db cid) AND WO_CLASSF_VOLATILE = 0 then live_rows db cid else Map.empty)"

definition log_agrees :: "wo_db \<Rightarrow> wo_wal \<Rightarrow> stmt list \<Rightarrow> stmt list \<Rightarrow> bool" where
  "log_agrees db w done todo \<longleftrightarrow>
     db_inv db \<and> classes_fit (classes db) \<and>
     log_is w (map (stmt_payload (classes db)) done) (map (stmt_payload (classes db)) todo) \<and>
     (\<forall>s\<in>set (done @ todo). stmt_ok db s) \<and>
     run_stmts (classes db) (done @ todo) (\<lambda>cid. Map.empty) = Some (durable_rows db)"

text \<open>A store as it is when a process starts: the shape of \<open>db\<close>, no rows.\<close>

definition fresh_db :: "wo_db \<Rightarrow> wo_db" where
  "fresh_db db = db\<lparr>tables := replicate (length (classes db)) empty_table\<rparr>"

lemma run_stmts_append:
  "run_stmts cs (xs @ ys) S = (case run_stmts cs xs S of None \<Rightarrow> None | Some S' \<Rightarrow> run_stmts cs ys S')"
  by (induction xs arbitrary: S) (auto split: option.split)

lemma fresh_db_ok:
  assumes "db_inv db" and "0 < length (classes db) \<longrightarrow> shard db < nshards db \<and> nshards db < 2 ^ 32"
  shows "db_inv (fresh_db db)" and "same_shape db (fresh_db db)" and "live_rows (fresh_db db) = (\<lambda>cid. Map.empty)"
    and "n * DB_SLAB_ROWS < 2 ^ 32 \<Longrightarrow> room_for n (fresh_db db)"
proof -
  show sh: "same_shape db (fresh_db db)" using assms by (simp add: same_shape_def fresh_db_def db_inv_def)
  show "db_inv (fresh_db db)"
    using assms same_shape_simps(4) [OF sh]
    by (auto simp: db_inv_def table_inv_def table_fits_def fresh_db_def empty_table_def)
  show "live_rows (fresh_db db) = (\<lambda>cid. Map.empty)"
    by (auto simp: fun_eq_iff live_rows_def fresh_db_def empty_table_def)
  show "n * DB_SLAB_ROWS < 2 ^ 32 \<Longrightarrow> room_for n (fresh_db db)"
    by (auto simp: room_for_def fresh_db_def empty_table_def)
qed

lemma recover_prefix:
  assumes mem: "\<forall>s. mem s" and l: "log_agrees db w done todo"
    and f: "wal_records mem f 0 = with_offsets 0 (map (stmt_payload (classes db)) (take k (done @ todo)))"
    and sh: "shard db < nshards db" "nshards db < 2 ^ 32"
    and room: "length (done @ todo) * DB_SLAB_ROWS < 2 ^ 32"
  shows "\<exists>S db'. run_stmts (classes db) (take k (done @ todo)) (\<lambda>cid. Map.empty) = Some S \<and>
    wo_wal_replay_ex mem rt (Some f) (fresh_db db) = (Replayed (row_records (take k (done @ todo))), db') \<and>
    db_inv db' \<and> live_rows db' = S"
proof -
  let ?ss = "take k (done @ todo)"
  have inv: "db_inv db" and fit: "classes_fit (classes db)" and ok: "\<forall>s\<in>set (done @ todo). stmt_ok db s"
    and run: "run_stmts (classes db) (done @ todo) (\<lambda>cid. Map.empty) = Some (durable_rows db)"
    using l by (auto simp: log_agrees_def)
  have "0 < length (classes db) \<longrightarrow> shard db < nshards db \<and> nshards db < 2 ^ 32" using sh by simp
  note fr = fresh_db_ok [OF inv this]
  note shs = same_shape_simps [OF fr(2)]
  obtain S where S: "run_stmts (classes db) ?ss (\<lambda>cid. Map.empty) = Some S"
  proof -
    have "run_stmts cs (take k xs) E \<noteq> None" if "run_stmts cs xs E = Some x" for xs E cs and x :: store
      using that run_stmts_append [of cs "take k xs" "drop k xs" E] by (auto split: option.splits)
    from this [OF run] show thesis using that by auto
  qed
  have fit': "classes_fit (classes (fresh_db db))" and run': "run_stmts (classes (fresh_db db)) ?ss (live_rows (fresh_db db)) = Some S"
    using fit S fr(3) by (simp_all add: shs)
  have oks: "\<forall>s\<in>set ?ss. stmt_ok (fresh_db db) s"
    using ok by (auto simp: same_shape_stmt_ok [OF fr(2)] dest: in_set_takeD)
  have "length ?ss \<le> length (done @ todo)" by (simp only: length_take min.cobounded1)
  then have "length ?ss * DB_SLAB_ROWS \<le> length (done @ todo) * DB_SLAB_ROWS" by (rule mult_le_mono1)
  then have rm: "room_for (length ?ss) (fresh_db db)" by (intro fr(4) le_less_trans [OF _ room])
  obtain db' where "replay_list mem (if rt then Some (replay_view f) else None) (fresh_db db)
      (with_offsets 0 (map (stmt_payload (classes (fresh_db db))) ?ss)) 0 = (Replayed (0 + row_records ?ss), db')"
    "db_inv db'" "live_rows db' = S"
    using replay_list_stmts [OF mem fit' fr(1) oks rm run'] by blast
  then show ?thesis using S f by (simp add: wo_wal_replay_ex_def replay_loop_list shs)
qed

text \<open>Every row that statements made has a class and an id the log can carry, and its own identity.\<close>

lemma run_stmt_rows:
  assumes "stmt_ok db s" and "run_stmt cs s S = Some S'"
    and "\<forall>cid rid r. S cid rid = Some r \<longrightarrow> class_ok db cid \<and> id_ok db rid \<and>
      vals_ok (classes db) (kinds (class_of db cid)) (slots r) \<and> r = row_of cid rid (slots r)"
  shows "\<forall>cid rid r. S' cid rid = Some r \<longrightarrow> class_ok db cid \<and> id_ok db rid \<and>
      vals_ok (classes db) (kinds (class_of db cid)) (slots r) \<and> r = row_of cid rid (slots r)"
  using assms by (cases s) (auto simp: row_of_def split: if_splits)

lemma run_stmts_rows:
  "\<forall>s\<in>set ss. stmt_ok db s \<Longrightarrow> run_stmts cs ss S = Some S' \<Longrightarrow>
   \<forall>cid rid r. S cid rid = Some r \<longrightarrow> class_ok db cid \<and> id_ok db rid \<and>
      vals_ok (classes db) (kinds (class_of db cid)) (slots r) \<and> r = row_of cid rid (slots r) \<Longrightarrow>
   S' cid rid = Some r \<Longrightarrow> class_ok db cid \<and> id_ok db rid \<and>
      vals_ok (classes db) (kinds (class_of db cid)) (slots r) \<and> r = row_of cid rid (slots r)"
proof (induction ss arbitrary: S)
  case Nil
  then show ?case by auto
next
  case (Cons s ss)
  then obtain S1 where S1: "run_stmt cs s S = Some S1" "run_stmts cs ss S1 = Some S'" by (auto split: option.splits)
  have s: "stmt_ok db s" and ss: "\<forall>s\<in>set ss. stmt_ok db s" using Cons.prems(1) by simp_all
  show ?case by (rule Cons.IH [OF ss S1(2) run_stmt_rows [OF s S1(1) Cons.prems(3)] Cons.prems(4)])
qed

lemma log_agrees_rows:
  assumes "log_agrees db w done todo" and "durable_rows db cid rid = Some r"
  shows "class_ok db cid" and "id_ok db rid" and "vals_ok (classes db) (kinds (class_of db cid)) (slots r)"
    and "r = row_of cid rid (slots r)"
  using assms run_stmts_rows [of "done @ todo" db "classes db" "\<lambda>cid. Map.empty" "durable_rows db" cid rid r]
  by (auto simp: log_agrees_def)

end
