(* ===== verification/Compact.thy ===== *)
theory Compact
  imports Replay
begin

text \<open>
  Compaction (\<open>copy_record\<close>, \<open>stage_flattened_row\<close>, \<open>wo_wal_compact\<close> of
  \<open>database/src/wal.c\<close>): the log is rewritten with one insert per live row and swapped in.
  Shown: for a store whose rows are in memory and durable, the new log replays to the very store,
  headed by the schema; the old log and the store are untouched when it fails; and a store with a
  row of a \<open>durable: false\<close> table is compacted into a log that replay refuses.

  The path, the clock and the directory sync are left out, and the reopening of the file just
  renamed is taken to succeed.
\<close>

section \<open>Moving one row\<close>

definition copy_record :: "mem \<Rightarrow> wo_wal \<Rightarrow> bytes \<Rightarrow> nat \<Rightarrow> nat \<Rightarrow> u64 \<Rightarrow> bool \<times> wo_wal" where
  "copy_record mem nw old_file off want_cid want_id =
     (case scan_record mem old_file off of
        None \<Rightarrow> (False, nw)
      | Some payload \<Rightarrow>
          (case parse_head payload of
             None \<Rightarrow> (False, nw)
           | Some ((kind, cid, rid), r) \<Rightarrow>
               if cid \<noteq> want_cid \<or> rid \<noteq> want_id \<or> (kind \<noteq> rec_byte RInsert \<and> kind \<noteq> rec_byte RUpdate)
               then (False, nw)
               else stage mem nw (build mem (payload[0 := rec_byte RInsert]))))"

definition stage_flattened_row ::
  "mem \<Rightarrow> wo_wal \<Rightarrow> wo_wal \<Rightarrow> classes \<Rightarrow> nat \<Rightarrow> nat \<Rightarrow> u64 \<Rightarrow> bool \<times> wo_wal" where
  "stage_flattened_row mem nw ow cs off cid rid =
     (if field_cnt (cs ! cid) \<noteq> 0 \<and> \<not> mem AFold then (False, nw)
      else
        (case wo_wal_fold_row_at mem ow cs off of
           Inl e \<Rightarrow> (False, nw)
         | Inr (got_cid, got_id, vs, hops) \<Rightarrow>
             if got_cid \<noteq> cid \<or> got_id \<noteq> rid then (False, nw)
             else stage mem nw (build mem (row_payload cs RInsert cid rid vs))))"

section \<open>The rewrite\<close>

text \<open>What the device does: opening the temporary file, the intermediate writes and the tail write,
  the sync before the switch, the rename.\<close>

record cio =
  c_open :: bool
  c_wr :: io
  c_tail :: io
  c_sync :: bool
  c_rename :: bool

definition WO_WAL_COMPACT_FLUSH :: nat where "WO_WAL_COMPACT_FLUSH = 256"

text \<open>One row: the new log and the store with its offset moved, or a failure.\<close>

definition compact_row ::
  "mem \<Rightarrow> wo_wal \<Rightarrow> nat \<Rightarrow> u64 \<Rightarrow> wo_db \<Rightarrow> wo_wal \<Rightarrow> (wo_db \<times> wo_wal) option" where
  "compact_row mem w cid rid db nw =
     (if \<not> wo_table_is_keys_resident db cid then
        (case wo_wal_append_insert mem nw db cid rid of
           (False, nw') \<Rightarrow> None
         | (True, nw') \<Rightarrow> Some (db, nw'))
      else
        let o1 = unat (wo_row_offset1 db cid rid); at = woff nw + length (wbytes nw);
            kb = pread (fbytes w) 1 (o1 - 1 + 8) in
        if o1 = 0 then None
        else if length kb \<noteq> 1 then None
        else
          (case (if hd kb = rec_byte RDelta
                 then stage_flattened_row mem nw w (classes db) (o1 - 1) cid rid
                 else copy_record mem nw (fbytes w) (o1 - 1) cid rid) of
             (False, nw') \<Rightarrow> None
           | (True, nw') \<Rightarrow>
               (case wo_row_set_offset db cid rid at of
                  (False, db') \<Rightarrow> None
                | (True, db') \<Rightarrow> Some (db', nw'))))"

text \<open>The state of the walk: the store, the new log, the rows staged since the last write, and
  whether an offset has moved. A failure keeps only the latter.\<close>

type_synonym cstate = "wo_db \<times> wo_wal \<times> nat \<times> bool"

definition compact_step :: "mem \<Rightarrow> cio \<Rightarrow> wo_wal \<Rightarrow> nat \<Rightarrow> u64 \<Rightarrow> cstate \<Rightarrow> bool + cstate" where
  "compact_step mem c w cid rid st =
     (case st of (db, nw, pending, repointed) \<Rightarrow>
        (case compact_row mem w cid rid db nw of
           None \<Rightarrow> Inl repointed
         | Some (db', nw') \<Rightarrow>
             let rp = (repointed \<or> wo_table_is_keys_resident db cid) in
             if WO_WAL_COMPACT_FLUSH \<le> pending + 1 then
               (case wal_write_nosync (c_wr c) nw' of
                  (False, nw'') \<Rightarrow> Inl rp
                | (True, nw'') \<Rightarrow> Inr (db', nw'', 0, rp))
             else Inr (db', nw', pending + 1, rp)))"

text \<open>The offset is only overwritten, so the walk keeps its place.\<close>

lemma hset_keys: "hset h rid v = Some h' \<Longrightarrow> hkeys h' = hkeys h"
  by (auto simp: hset_def Let_def split: if_splits option.splits)

lemma set_offset_keeps:
  assumes "wo_row_set_offset db cid rid off = (b, db')"
  shows "rows (tables db' ! c) = rows (tables db ! c)" and "hkeys (idmap (tables db' ! c)) = hkeys (idmap (tables db ! c))"
proof -
  have "rows (tables db' ! c) = rows (tables db ! c) \<and> hkeys (idmap (tables db' ! c)) = hkeys (idmap (tables db ! c))"
  proof (cases "c = cid \<and> cid < length (tables db)")
    case True
    then show ?thesis
      using assms hset_keys by (auto simp: wo_row_set_offset_def split: if_splits option.splits)
  next
    case False
    then show ?thesis
      using assms
      by (cases "c = cid") (auto simp: wo_row_set_offset_def set_table_def split: if_splits option.splits)
  qed
  then show "rows (tables db' ! c) = rows (tables db ! c)"
    and "hkeys (idmap (tables db' ! c)) = hkeys (idmap (tables db ! c))" by auto
qed

lemma compact_step_keeps:
  assumes "compact_step mem c w cid rid (db, nw, p, rp) = Inr (db', nw', p', rp')"
  shows "rows (tables db' ! k) = rows (tables db ! k)" and "hkeys (idmap (tables db' ! k)) = hkeys (idmap (tables db ! k))"
proof -
  obtain nw1 where "compact_row mem w cid rid db nw = Some (db', nw1)"
    using assms by (auto simp: compact_step_def Let_def split: option.splits if_splits prod.splits bool.splits)
  then have "db' = db \<or> (\<exists>off. wo_row_set_offset db cid rid off = (True, db'))"
    by (auto simp: compact_row_def Let_def split: if_splits prod.splits bool.splits option.splits)
  then show "rows (tables db' ! k) = rows (tables db ! k)"
    and "hkeys (idmap (tables db' ! k)) = hkeys (idmap (tables db ! k))"
    using set_offset_keeps by blast+
qed

function compact_rows :: "mem \<Rightarrow> cio \<Rightarrow> wo_wal \<Rightarrow> nat \<Rightarrow> cstate \<Rightarrow> nat \<Rightarrow> bool + cstate" where
  "compact_rows mem c w cid (db, nw, pending, repointed) cur =
     (case wo_row_next_id db cid cur of
        None \<Rightarrow> Inr (db, nw, pending, repointed)
      | Some (rid, cur') \<Rightarrow>
          (case compact_step mem c w cid rid (db, nw, pending, repointed) of
             Inl rp \<Rightarrow> Inl rp
           | Inr (db', nw', pending', repointed') \<Rightarrow>
               compact_rows mem c w cid (db', nw', pending', repointed') cur'))"
  by pat_completeness auto

termination
  by (relation "measure (\<lambda>(mem, c, w, cid, (db, nw, p, rp), cur).
        max (length (rows (tables db ! cid))) (length (hkeys (idmap (tables db ! cid)))) - cur)")
    (auto dest!: next_id_progress simp: compact_step_keeps)

declare compact_rows.simps [simp del]

fun compact_tables :: "mem \<Rightarrow> cio \<Rightarrow> wo_wal \<Rightarrow> nat list \<Rightarrow> cstate \<Rightarrow> bool + cstate" where
  "compact_tables mem c w [] st = Inr st"
| "compact_tables mem c w (cid # cids) (db, nw, pending, repointed) =
     (if row_size (tables db ! cid) = 0 then compact_tables mem c w cids (db, nw, pending, repointed)
      else
        (case compact_rows mem c w cid (db, nw, pending, repointed) 0 of
           Inl rp \<Rightarrow> Inl rp
         | Inr st' \<Rightarrow> compact_tables mem c w cids st'))"

text \<open>
  Staged records refuse it. A failure after an offset has moved ends the process; but when it is
  the rename that fails, the call returns with the offsets moved and the old log in place.
\<close>

definition wo_wal_compact :: "mem \<Rightarrow> cio \<Rightarrow> wo_wal \<Rightarrow> wo_db \<Rightarrow> (bool \<times> wo_db \<times> wo_wal) outcome" where
  "wo_wal_compact mem c w db =
     (if wbytes w \<noteq> [] then Lives (False, db, w)
      else if \<not> c_open c then Lives (False, db, w)
      else
        let fail = (\<lambda>rp. if rp then Dies (fbytes w) else Lives (False, db, w));
            nw0 = wo_wal_open mem [] (prealloc w) in
        (case (case schema w of None \<Rightarrow> (True, nw0) | Some s \<Rightarrow> stage mem nw0 (build mem s)) of
           (False, nw1) \<Rightarrow> fail False
         | (True, nw1) \<Rightarrow>
        (case compact_tables mem c w [0..<length (tables db)] (db, nw1, 0, False) of
           Inl rp \<Rightarrow> fail rp
         | Inr (db', nw2, pending, rp) \<Rightarrow>
        (case wal_write_nosync (c_tail c) nw2 of
           (False, nw3) \<Rightarrow> fail rp
         | (True, nw3) \<Rightarrow>
             if \<not> c_sync c then fail rp
             else if \<not> c_rename c then Lives (False, db', w)
             else Lives (True, db', w\<lparr>fbytes := fbytes nw3, woff := woff nw3, wbytes := [],
                                      compacted_bytes := woff nw3\<rparr>)))))"

section \<open>The new log of a store in memory\<close>

lemma stage_total': "\<forall>s. mem s \<Longrightarrow> \<exists>w'. stage mem w (build mem p) = (True, w')"
  using stage_total [of mem w p] by (cases "stage mem w (Some p)") (auto simp: build_def)

lemma nosync_ok:
  assumes l: "log_is w ps qs" and io: "wr io = None"
  shows "\<exists>w'. wal_write_nosync io w = (True, w') \<and> log_is w' (ps @ qs) [] \<and> schema w' = schema w"
proof -
  obtain m where f: "fbytes w = frames ps @ replicate m 0" using l by (auto simp: log_is_def)
  obtain m' where "write_at (frames ps @ replicate m 0) (length (frames ps)) (frames qs) =
      frames ps @ frames qs @ replicate m' 0"
    using write_at_zeros by blast
  then show ?thesis using l io f by (auto simp: wal_write_nosync_def log_is_def)
qed

text \<open>The insert that stands for a live row.\<close>

definition row_insert :: "wo_db \<Rightarrow> nat \<Rightarrow> u64 \<Rightarrow> stmt" where
  "row_insert db cid rid = SInsert cid rid (slots (the (live_rows db cid rid)))"

lemma append_insert_live:
  assumes mem: "\<forall>s. mem s" and inv: "table_inv db cid" and r: "live_rows db cid rid = Some r"
    and l: "log_is nw ps qs" and s: "schema nw = None"
    and p: "payload_ok (stmt_payload (classes db) (row_insert db cid rid))"
  shows "\<exists>nw'. wo_wal_append_insert mem nw db cid rid = (True, nw') \<and> schema nw' = None \<and>
    log_is nw' ps (qs @ [stmt_payload (classes db) (row_insert db cid rid)])"
proof -
  from inv r obtain g where g: "rows (tables db ! cid) ! g = r" and gp: "wo_row_ptr db cid rid = Some g"
    by (rule live_slot)
  let ?p = "row_payload (classes db) RInsert cid rid (slots r)"
  obtain nw' where st: "stage mem nw (build mem ?p) = (True, nw')" using stage_total' [OF mem] by blast
  then have st': "stage mem nw (Some ?p) = (True, nw')" using mem by (simp add: build_def)
  have pe: "stmt_payload (classes db) (row_insert db cid rid) = ?p" using r by (simp add: row_insert_def)
  have "head_payload nw = []" using s by (simp add: head_payload_def)
  then have "log_is nw' ps (qs @ [?p])" using log_is_stage [OF l st'] p pe by simp
  moreover have "schema nw' = None" using stage_ok(7) [OF st'] s by simp
  ultimately show ?thesis using st g gp pe by (simp add: wo_wal_append_insert_def)
qed

lemma compact_step_live:
  assumes mem: "\<forall>s. mem s" and inv: "table_inv db cid" and r: "live_rows db cid rid = Some r"
    and l: "log_is nw ps qs" and s: "schema nw = None" and io: "wr (c_wr c) = None"
    and p: "payload_ok (stmt_payload (classes db) (row_insert db cid rid))"
  shows "\<exists>nw' pn' ps' qs'. compact_step mem c w cid rid (db, nw, pn, rp) = Inr (db, nw', pn', rp) \<and>
    schema nw' = None \<and> log_is nw' ps' qs' \<and>
    ps' @ qs' = ps @ qs @ [stmt_payload (classes db) (row_insert db cid rid)]"
proof -
  have nk: "\<not> wo_table_is_keys_resident db cid" using inv by (simp add: table_inv_def table_fits_def)
  obtain nw1 where a: "wo_wal_append_insert mem nw db cid rid = (True, nw1)" "schema nw1 = None"
      "log_is nw1 ps (qs @ [stmt_payload (classes db) (row_insert db cid rid)])"
    using append_insert_live [OF mem inv r l s p] by blast
  have row: "compact_row mem w cid rid db nw = Some (db, nw1)" using nk a by (simp add: compact_row_def)
  obtain nw2 where f: "wal_write_nosync (c_wr c) nw1 = (True, nw2)" "schema nw2 = None"
      "log_is nw2 (ps @ qs @ [stmt_payload (classes db) (row_insert db cid rid)]) []"
    using nosync_ok [OF a(3) io] a(2) by auto
  show ?thesis
  proof (cases "WO_WAL_COMPACT_FLUSH \<le> pn + 1")
    case True
    then have "compact_step mem c w cid rid (db, nw, pn, rp) = Inr (db, nw2, 0, rp)"
      using row f nk by (simp add: compact_step_def Let_def)
    then show ?thesis using f by blast
  next
    case False
    then have "compact_step mem c w cid rid (db, nw, pn, rp) = Inr (db, nw1, pn + 1, rp)"
      using row nk by (simp add: compact_step_def Let_def)
    then show ?thesis using a by blast
  qed
qed

lemma compact_rows_live:
  assumes mem: "\<forall>s. mem s" and io: "wr (c_wr c) = None"
  shows "table_inv db cid \<Longrightarrow> set (row_ids_from db cid cur) \<subseteq> dom (live_rows db cid) \<Longrightarrow>
    \<forall>i\<in>set (row_ids_from db cid cur). payload_ok (stmt_payload (classes db) (row_insert db cid i)) \<Longrightarrow>
    log_is nw ps qs \<Longrightarrow> schema nw = None \<Longrightarrow>
    \<exists>nw' pn' ps' qs'. compact_rows mem c w cid (db, nw, pn, rp) cur = Inr (db, nw', pn', rp) \<and>
      schema nw' = None \<and> log_is nw' ps' qs' \<and>
      ps' @ qs' = ps @ qs @ map (\<lambda>i. stmt_payload (classes db) (row_insert db cid i)) (row_ids_from db cid cur)"
proof (induction db cid cur arbitrary: nw pn ps qs rule: row_ids_from.induct)
  case (1 db cid cur)
  show ?case
  proof (cases "wo_row_next_id db cid cur")
    case None
    then have "compact_rows mem c w cid (db, nw, pn, rp) cur = Inr (db, nw, pn, rp)"
      by (simp add: compact_rows.simps)
    then show ?thesis using 1(5,6) None by (auto simp: row_ids_from.simps [of db cid cur])
  next
    case (Some x)
    then obtain rid cur' where n: "wo_row_next_id db cid cur = Some (rid, cur')" by (cases x) simp
    have ids: "row_ids_from db cid cur = rid # row_ids_from db cid cur'"
      using n by (simp add: row_ids_from.simps [of db cid cur])
    obtain r where r: "live_rows db cid rid = Some r" using 1(3) ids by auto
    have p: "payload_ok (stmt_payload (classes db) (row_insert db cid rid))" using 1(4) ids by simp
    from compact_step_live [OF mem 1(2) r 1(5,6) io p] obtain nw1 pn1 ps1 qs1 where
      s: "compact_step mem c w cid rid (db, nw, pn, rp) = Inr (db, nw1, pn1, rp)" "schema nw1 = None"
        "log_is nw1 ps1 qs1" "ps1 @ qs1 = ps @ qs @ [stmt_payload (classes db) (row_insert db cid rid)]"
      by blast
    have "set (row_ids_from db cid cur') \<subseteq> dom (live_rows db cid)"
      "\<forall>i\<in>set (row_ids_from db cid cur'). payload_ok (stmt_payload (classes db) (row_insert db cid i))"
      using 1(3,4) ids by auto
    from 1(1) [OF n refl 1(2) this s(3,2)] obtain nw' pn' ps' qs' where
      t: "compact_rows mem c w cid (db, nw1, pn1, rp) cur' = Inr (db, nw', pn', rp)" "schema nw' = None"
        "log_is nw' ps' qs'"
        "ps' @ qs' = ps1 @ qs1 @ map (\<lambda>i. stmt_payload (classes db) (row_insert db cid i)) (row_ids_from db cid cur')"
      by blast
    have "compact_rows mem c w cid (db, nw, pn, rp) cur = Inr (db, nw', pn', rp)"
      using n s t by (simp add: compact_rows.simps [of mem c w cid db nw])
    moreover have "ps' @ qs' = ps @ qs @ map (\<lambda>i. stmt_payload (classes db) (row_insert db cid i)) (row_ids_from db cid cur)"
      using t(4) [folded append.assoc, unfolded s(4)] by (simp add: ids)
    ultimately show ?thesis using t by blast
  qed
qed

text \<open>All live rows, table by table.\<close>

definition dump :: "wo_db \<Rightarrow> nat list \<Rightarrow> stmt list" where
  "dump db cids = concat (map (\<lambda>cid. map (row_insert db cid) (row_ids_from db cid 0)) cids)"

lemma dump_simps [simp]:
  "dump db [] = []" "dump db (cid # cids) = map (row_insert db cid) (row_ids_from db cid 0) @ dump db cids"
  by (simp_all add: dump_def)

text \<open>The tables that hold rows are in memory.\<close>

definition rows_in_memory :: "wo_db \<Rightarrow> bool" where
  "rows_in_memory db \<longleftrightarrow> (\<forall>cid<length (tables db). row_size (tables db ! cid) \<noteq> 0 \<longrightarrow> \<not> wo_table_is_keys_resident db cid)"

lemma compact_tables_live:
  assumes mem: "\<forall>s. mem s" and io: "wr (c_wr c) = None" and inv: "db_inv db" and res: "rows_in_memory db"
  shows "set cids \<subseteq> {..<length (tables db)} \<Longrightarrow>
    \<forall>s\<in>set (dump db cids). payload_ok (stmt_payload (classes db) s) \<Longrightarrow> log_is nw ps qs \<Longrightarrow> schema nw = None \<Longrightarrow>
    \<exists>nw' pn' ps' qs'. compact_tables mem c w cids (db, nw, pn, rp) = Inr (db, nw', pn', rp) \<and>
      schema nw' = None \<and> log_is nw' ps' qs' \<and> ps' @ qs' = ps @ qs @ map (stmt_payload (classes db)) (dump db cids)"
proof (induction cids arbitrary: nw pn ps qs)
  case Nil
  then show ?case by auto
next
  case (Cons cid cids)
  have c: "cid < length (tables db)" using Cons.prems by simp
  have rest: "set cids \<subseteq> {..<length (tables db)}" "\<forall>s\<in>set (dump db cids). payload_ok (stmt_payload (classes db) s)"
    using Cons.prems by auto
  show ?case
  proof (cases "row_size (tables db ! cid) = 0")
    case True
    have "wo_row_next_id db cid 0 = None" using True by (simp add: wo_row_next_id_def Let_def)
    then have "row_ids_from db cid 0 = []" by (simp add: row_ids_from.simps)
    then show ?thesis using Cons.IH [OF rest Cons.prems(3,4), of pn] True by simp
  next
    case False
    then have ti: "table_inv db cid" using inv res c by (auto simp: db_inv_def rows_in_memory_def)
    have sub: "set (row_ids_from db cid 0) \<subseteq> dom (live_rows db cid)" using row_ids_live(2) [OF ti] by simp
    have p: "\<forall>i\<in>set (row_ids_from db cid 0). payload_ok (stmt_payload (classes db) (row_insert db cid i))"
      using Cons.prems(2) by auto
    from compact_rows_live [OF mem io ti sub p Cons.prems(3,4), of w pn rp] obtain nw1 pn1 ps1 qs1 where
      s: "compact_rows mem c w cid (db, nw, pn, rp) 0 = Inr (db, nw1, pn1, rp)" "schema nw1 = None"
        "log_is nw1 ps1 qs1"
        "ps1 @ qs1 = ps @ qs @ map (\<lambda>i. stmt_payload (classes db) (row_insert db cid i)) (row_ids_from db cid 0)"
      by blast
    from Cons.IH [OF rest s(3,2), of pn1] obtain nw' pn' ps' qs' where
      t: "compact_tables mem c w cids (db, nw1, pn1, rp) = Inr (db, nw', pn', rp)" "schema nw' = None"
        "log_is nw' ps' qs'" "ps' @ qs' = ps1 @ qs1 @ map (stmt_payload (classes db)) (dump db cids)" by blast
    have "compact_tables mem c w (cid # cids) (db, nw, pn, rp) = Inr (db, nw', pn', rp)"
      using False s t by simp
    moreover have "ps' @ qs' = ps @ qs @ map (stmt_payload (classes db)) (dump db (cid # cids))"
      using t(4) [folded append.assoc, unfolded s(4)] by (simp add: comp_def)
    ultimately show ?thesis using t by blast
  qed
qed

section \<open>Running the dump\<close>

lemma no_violation:
  assumes ti: "tab_inv db cid t" and r: "row_at t rid = Some r" and M: "M \<subseteq>\<^sub>m row_at t" "M rid = None"
  shows "\<not> violates (class_of db cid) M r"
proof -
  have im: "ix_meta (indexes t) = idx_meta (class_of db cid)"
    and au: "all_unique (class_of db cid) (indexes t) (row_at t)" using ti by (simp_all add: tab_inv_def)
  show ?thesis
    unfolding violates_indexes [OF im]
  proof (rule notI, elim bexE conjE exE)
    fix ix i r' assume ix: "ix \<in> set (indexes t)" "ix_unique ix" and m: "M i = Some r'"
      and eq: "idx_cols_equal (class_of db cid) ix r r'"
    have "row_at t i = Some r'" "i \<noteq> rid" using M m by (auto simp: map_le_def dom_def)
    then show False using au ix r eq unfolding all_unique_def unique_in_def by metis
  qed
qed

lemma run_rows:
  assumes fits: "table_fits db cid" and ti: "tab_inv db cid (tables db ! cid)"
    and self: "\<And>i r. live_rows db cid i = Some r \<Longrightarrow> r = row_of cid i (slots r)"
  shows "distinct ids \<Longrightarrow> set ids \<subseteq> dom (live_rows db cid) \<Longrightarrow> S cid \<subseteq>\<^sub>m live_rows db cid \<Longrightarrow>
    set ids \<inter> dom (S cid) = {} \<Longrightarrow>
    run_stmts (classes db) (map (row_insert db cid) ids) S =
      Some (S(cid := \<lambda>i. if i \<in> set ids then live_rows db cid i else S cid i))"
proof (induction ids arbitrary: S)
  case Nil
  then show ?case by simp
next
  case (Cons i ids)
  have la: "live_rows db cid = row_at (tables db ! cid)" by (rule live_row_at [OF fits ti])
  obtain r where r: "live_rows db cid i = Some r" using Cons.prems(2) by auto
  have new: "S cid i = None" using Cons.prems(4) by auto
  have rr: "row_of cid i (slots r) = r" using self [OF r] by simp
  have nv: "\<not> violates (class_of db cid) (S cid) r"
    by (rule no_violation [OF ti]) (use r la Cons.prems(3) new in simp_all)
  let ?S1 = "S(cid := (S cid)(i \<mapsto> r))"
  have step: "run_stmt (classes db) (row_insert db cid i) S = Some ?S1"
    using new nv rr r by (simp add: row_insert_def class_of_def)
  have "run_stmts (classes db) (map (row_insert db cid) ids) ?S1 =
      Some (?S1(cid := \<lambda>j. if j \<in> set ids then live_rows db cid j else ?S1 cid j))"
  proof (rule Cons.IH)
    show "distinct ids" "set ids \<subseteq> dom (live_rows db cid)" using Cons.prems by auto
    show "?S1 cid \<subseteq>\<^sub>m live_rows db cid" using Cons.prems(3) r by (auto simp: map_le_def)
    show "set ids \<inter> dom (?S1 cid) = {}" using Cons.prems(1,4) by auto
  qed
  then show ?case using step r by (auto simp: fun_eq_iff)
qed

lemma run_dump:
  assumes inv: "db_inv db" and self: "\<And>cid i r. live_rows db cid i = Some r \<Longrightarrow> r = row_of cid i (slots r)"
  shows "distinct cids \<Longrightarrow> \<forall>cid\<in>set cids. cid < length (classes db) \<Longrightarrow>
    \<forall>cid\<in>set cids. row_size (tables db ! cid) \<noteq> 0 \<longrightarrow> \<not> wo_table_is_keys_resident db cid \<Longrightarrow>
    \<forall>cid\<in>set cids. S cid = Map.empty \<Longrightarrow>
    run_stmts (classes db) (dump db cids) S = Some (\<lambda>cid. if cid \<in> set cids then live_rows db cid else S cid)"
proof (induction cids arbitrary: S)
  case Nil
  then show ?case by simp
next
  case (Cons cid cids)
  have S0: "S cid = Map.empty" using Cons.prems by simp
  let ?S1 = "S(cid := live_rows db cid)"
  have step: "run_stmts (classes db) (map (row_insert db cid) (row_ids_from db cid 0)) S = Some ?S1"
  proof (cases "row_size (tables db ! cid) = 0")
    case True
    have "wo_row_next_id db cid 0 = None" using True by (simp add: wo_row_next_id_def Let_def)
    then have "row_ids_from db cid 0 = []" by (simp add: row_ids_from.simps)
    moreover have "live_rows db cid = Map.empty" using True by (auto simp: live_rows_def)
    ultimately show ?thesis using S0 by (auto simp: fun_eq_iff)
  next
    case False
    then have t: "table_inv db cid" using inv Cons.prems by (auto simp: db_inv_def)
    then have ti: "table_fits db cid" "tab_inv db cid (tables db ! cid)" using False by (auto simp: table_inv_def)
    note ids = row_ids_live [OF t]
    have "run_stmts (classes db) (map (row_insert db cid) (row_ids_from db cid 0)) S =
        Some (S(cid := \<lambda>i. if i \<in> set (row_ids_from db cid 0) then live_rows db cid i else S cid i))"
      by (rule run_rows [OF ti self ids(1)]) (use S0 ids in auto)
    moreover have "(\<lambda>i. if i \<in> set (row_ids_from db cid 0) then live_rows db cid i else S cid i) = live_rows db cid"
      using ids(2) S0 by (auto simp: fun_eq_iff)
    ultimately show ?thesis by simp
  qed
  have "run_stmts (classes db) (dump db cids) ?S1 =
      Some (\<lambda>c. if c \<in> set cids then live_rows db c else ?S1 c)"
    by (rule Cons.IH) (use Cons.prems in auto)
  then show ?case using step Cons.prems(1) by (auto simp: run_stmts_append fun_eq_iff)
qed

section \<open>Compaction keeps the store\<close>

definition device_ok :: "cio \<Rightarrow> bool" where
  "device_ok c \<longleftrightarrow> c_open c \<and> wr (c_wr c) = None \<and> wr (c_tail c) = None \<and> c_sync c \<and> c_rename c"

definition head_stmts :: "bytes option \<Rightarrow> stmt list" where
  "head_stmts s = (case s of None \<Rightarrow> [] | Some b \<Rightarrow> [SHead (tl b)])"

definition schema_head_ok :: "wo_wal \<Rightarrow> bool" where
  "schema_head_ok w \<longleftrightarrow> (\<forall>s. schema w = Some s \<longrightarrow> payload_ok s \<and> hd s = rec_byte RSchema)"

text \<open>The new log holds the schema and the dump, whatever the tables' durability.\<close>

lemma compact_log:
  assumes mem: "\<forall>s. mem s" and dev: "device_ok c" and l: "wbytes w = []"
    and inv: "db_inv db" and res: "rows_in_memory db" and sch: "schema_head_ok w"
    and p: "\<forall>s\<in>set (dump db [0..<length (tables db)]). payload_ok (stmt_payload (classes db) s)"
  shows "\<exists>w'. wo_wal_compact mem c w db = Lives (True, db, w') \<and> compacted_bytes w' = woff w' \<and>
    log_is w' (map (stmt_payload (classes db)) (head_stmts (schema w) @ dump db [0..<length (tables db)])) []"
proof -
  let ?cs = "classes db" and ?d = "dump db [0..<length (tables db)]"
  have io: "wr (c_wr c) = None" "wr (c_tail c) = None" using dev by (auto simp: device_ok_def)
  let ?nw0 = "wo_wal_open mem [] (prealloc w)"
  have l0: "log_is ?nw0 [] []" and s0: "schema ?nw0 = None"
  proof -
    have "intact_end mem (replicate n 0) 0 = 0" for n
      using scan_zeros [of mem n] by (simp add: intact_end.simps)
    then show "log_is ?nw0 [] []" "schema ?nw0 = None"
      by (auto simp: wo_wal_open_def Let_def log_is_def fallocate_def intact_end.simps scan_record_def pread_def)
  qed
  obtain nw1 where n1: "(case schema w of None \<Rightarrow> (True, ?nw0) | Some s \<Rightarrow> stage mem ?nw0 (build mem s)) = (True, nw1)"
    and l1: "log_is nw1 [] (map (stmt_payload ?cs) (head_stmts (schema w)))" and s1: "schema nw1 = None"
  proof (cases "schema w")
    case None
    then show thesis using that [of ?nw0] l0 s0 by (simp add: head_stmts_def)
  next
    case (Some s)
    obtain nw1 where st: "stage mem ?nw0 (build mem s) = (True, nw1)" using stage_total' [OF mem] by blast
    then have st': "stage mem ?nw0 (Some s) = (True, nw1)" using mem by (simp add: build_def)
    have s: "payload_ok s" "s = rec_byte RSchema # tl s"
    proof -
      show "payload_ok s" using sch Some by (simp add: schema_head_ok_def)
      then have "s \<noteq> []" by (auto simp: payload_ok_def)
      then show "s = rec_byte RSchema # tl s" using sch Some by (metis schema_head_ok_def list.collapse)
    qed
    have "head_payload ?nw0 = []" using s0 by (simp add: head_payload_def)
    then have "log_is nw1 [] [s]" using log_is_stage [OF l0 st' s(1)] by simp
    moreover have "schema nw1 = None" using stage_ok(7) [OF st'] s0 by simp
    ultimately show thesis using that [of nw1] Some st s(2) by (simp add: head_stmts_def)
  qed
  have sub: "set [0..<length (tables db)] \<subseteq> {..<length (tables db)}" by auto
  from compact_tables_live [OF mem io(1) inv res sub p l1 s1, of w 0 False]
  obtain nw2 pn2 ps2 qs2 where t: "compact_tables mem c w [0..<length (tables db)] (db, nw1, 0, False) =
      Inr (db, nw2, pn2, False)" and l2: "log_is nw2 ps2 qs2"
    and q2: "ps2 @ qs2 = map (stmt_payload ?cs) (head_stmts (schema w) @ ?d)"
    by auto
  obtain nw3 where n3: "wal_write_nosync (c_tail c) nw2 = (True, nw3)" and l3: "log_is nw3 (ps2 @ qs2) []"
    using nosync_ok [OF l2 io(2)] by blast
  let ?w' = "w\<lparr>fbytes := fbytes nw3, woff := woff nw3, wbytes := [], compacted_bytes := woff nw3\<rparr>"
  have "wo_wal_compact mem c w db = Lives (True, db, ?w')"
    using l dev n1 t n3 by (simp add: wo_wal_compact_def device_ok_def Let_def)
  moreover have "log_is ?w' (map (stmt_payload ?cs) (head_stmts (schema w) @ ?d)) []"
    using l3 sch unfolding q2 by (auto simp: log_is_def schema_head_ok_def)
  ultimately show ?thesis by auto
qed

text \<open>What the invariant says of a live row.\<close>

lemma live_self:
  assumes inv: "db_inv db" and r: "live_rows db cid i = Some r"
  shows "r = row_of cid i (slots r) \<and> vals_ok (classes db) (kinds (class_of db cid)) (slots r) \<and>
    cid < length (classes db) \<and> \<not> wo_table_is_keys_resident db cid"
proof -
  have c: "cid < length (tables db)" "\<not> wo_table_is_keys_resident db cid" "row_size (tables db ! cid) \<noteq> 0"
    using r by (auto simp: live_rows_def split: if_splits)
  then have t: "table_fits db cid" "tab_inv db cid (tables db ! cid)" "cid < length (classes db)"
    using inv by (auto simp: db_inv_def table_inv_def)
  have r': "row_at (tables db ! cid) i = Some r" using r live_row_at [OF t(1,2)] by simp
  have sl: "slots_inv (classes db) (class_of db cid) cid (tables db ! cid)" using t by (simp add: tab_inv_def)
  show ?thesis
    using row_at_id [OF sl r'] row_at_vals [OF sl r'] c t by (cases r) (simp add: row_of_def)
qed

text \<open>A row the dump names is live.\<close>

lemma dump_live:
  assumes inv: "db_inv db" and res: "rows_in_memory db" and s: "s \<in> set (dump db [0..<length (tables db)])"
  obtains cid i r where "s = SInsert cid i (slots r)" and "live_rows db cid i = Some r"
proof -
  obtain cid i where ci: "cid < length (tables db)" "i \<in> set (row_ids_from db cid 0)" "s = row_insert db cid i"
    using s by (auto simp: dump_def)
  have "row_size (tables db ! cid) \<noteq> 0"
  proof
    assume "row_size (tables db ! cid) = 0"
    then have "wo_row_next_id db cid 0 = None" by (simp add: wo_row_next_id_def Let_def)
    then show False using ci by (simp add: row_ids_from.simps)
  qed
  then have "table_inv db cid" using inv res ci by (auto simp: db_inv_def rows_in_memory_def)
  then obtain r where "live_rows db cid i = Some r" using row_ids_live(2) ci by blast
  then show thesis using that ci(3) by (simp add: row_insert_def)
qed

lemma live_dump:
  assumes inv: "db_inv db" and r: "live_rows db cid i = Some r"
  shows "SInsert cid i (slots r) \<in> set (dump db [0..<length (tables db)])"
proof -
  have c: "cid < length (tables db)" "\<not> wo_table_is_keys_resident db cid"
    using r by (auto simp: live_rows_def split: if_splits)
  then have "table_inv db cid" using inv by (simp add: db_inv_def)
  then have "i \<in> set (row_ids_from db cid 0)" using row_ids_live(2) [of db cid] r by auto
  moreover have "SInsert cid i (slots r) = row_insert db cid i" using r by (simp add: row_insert_def)
  ultimately show ?thesis unfolding dump_def using c by auto
qed

lemma run_whole_dump:
  assumes inv: "db_inv db" and res: "rows_in_memory db"
    and self: "\<And>cid i r. live_rows db cid i = Some r \<Longrightarrow> r = row_of cid i (slots r)"
  shows "run_stmts (classes db) (head_stmts s @ dump db [0..<length (tables db)]) (\<lambda>cid. Map.empty) = Some (live_rows db)"
proof -
  have len: "length (tables db) = length (classes db)" using inv by (simp add: db_inv_def)
  have "run_stmts (classes db) (dump db [0..<length (tables db)]) (\<lambda>cid. Map.empty) =
      Some (\<lambda>cid. if cid \<in> set [0..<length (tables db)] then live_rows db cid else Map.empty)"
    by (rule run_dump [OF inv self]) (use res len in \<open>auto simp: rows_in_memory_def\<close>)
  moreover have "(\<lambda>cid. if cid \<in> set [0..<length (tables db)] then live_rows db cid else Map.empty) = live_rows db"
    by (auto simp: fun_eq_iff live_rows_def)
  ultimately show ?thesis by (cases s) (simp_all add: head_stmts_def)
qed

lemma compact_ok:
  assumes mem: "\<forall>s. mem s" and dev: "device_ok c" and l: "log_agrees db w done []"
    and res: "rows_in_memory db" and dur: "live_rows db = durable_rows db" and sch: "schema_head_ok w"
    and p: "\<forall>s\<in>set (dump db [0..<length (tables db)]). payload_ok (stmt_payload (classes db) s)"
  shows "\<exists>w' done'. wo_wal_compact mem c w db = Lives (True, db, w') \<and> log_agrees db w' done' [] \<and>
    done' = head_stmts (schema w) @ dump db [0..<length (tables db)] \<and> compacted_bytes w' = woff w'"
proof -
  let ?ss = "head_stmts (schema w) @ dump db [0..<length (tables db)]"
  have inv: "db_inv db" and fit: "classes_fit (classes db)" and wb: "wbytes w = []"
    using l by (auto simp: log_agrees_def log_is_def)
  obtain w' where w': "wo_wal_compact mem c w db = Lives (True, db, w')" "compacted_bytes w' = woff w'"
      "log_is w' (map (stmt_payload (classes db)) ?ss) []"
    using compact_log [OF mem dev wb inv res sch p] by blast
  note rows = log_agrees_rows [OF l]
  have "stmt_ok db s" if s: "s \<in> set (dump db [0..<length (tables db)])" for s
    using s by (elim dump_live [OF inv res]) (use rows dur in auto)
  then have "\<forall>s\<in>set ?ss. stmt_ok db s" by (auto simp: head_stmts_def split: option.splits)
  moreover have "run_stmts (classes db) ?ss (\<lambda>cid. Map.empty) = Some (durable_rows db)"
    using run_whole_dump [OF inv res] rows(4) dur by simp
  ultimately have "log_agrees db w' ?ss []" using w'(3) inv fit by (simp add: log_agrees_def)
  then show ?thesis using w' by blast
qed

section \<open>A volatile row in the compacted log\<close>

text \<open>
  The dump does not look at the storage flags, so a row of a \<open>durable: false\<close> table, never logged
  before, is written into the new log; the next start refuses that log.
\<close>

lemma replay_list_append:
  "replay_list mem wo db (xs @ ys) n =
     (case replay_list mem wo db xs n of
        (Replayed m, db') \<Rightarrow> replay_list mem wo db' ys m
      | (x, db') \<Rightarrow> (x, db'))"
  by (induction mem wo db xs n rule: replay_list.induct) (auto split: prod.splits app_res.splits)

lemma with_offsets_append:
  "\<exists>off'. with_offsets off (xs @ ys) = with_offsets off xs @ with_offsets off' ys"
  by (induction xs arbitrary: off) auto

lemma volatile_refused:
  assumes "classes_fit (classes db)" and "cid < length (classes db)"
    and "cls_flags (class_of db cid) AND WO_CLASSF_VOLATILE \<noteq> 0"
  shows "apply_record mem wo db (row_payload (classes db) RInsert cid rid vs) = (AppVolatile, db)"
    and "peek_cid (row_payload (classes db) RInsert cid rid vs) = cid"
proof -
  have "cid < 256 ^ 4" using assms by (simp add: classes_fit_def)
  then show "peek_cid (row_payload (classes db) RInsert cid rid vs) = cid"
    by (simp add: peek_cid_def row_payload_def rec_head_def wput_u8_def wput_u32_def of_le_le_id)
  show "apply_record mem wo db (row_payload (classes db) RInsert cid rid vs) = (AppVolatile, db)"
    using payload_head [OF assms(2,1)] assms by (simp add: apply_record_def)
qed

lemma compact_volatile:
  assumes mem: "\<forall>s. mem s" and dev: "device_ok c" and l: "wbytes w = []"
    and inv: "db_inv db" and fit: "classes_fit (classes db)" and res: "rows_in_memory db" and sch: "schema_head_ok w"
    and p: "\<forall>s\<in>set (dump db [0..<length (tables db)]). payload_ok (stmt_payload (classes db) s)"
    and sh: "shard db < nshards db" "nshards db < 2 ^ 32"
    and ids: "\<forall>cid i. live_rows db cid i \<noteq> None \<longrightarrow> id_ok db i"
    and room: "length (head_stmts (schema w) @ dump db [0..<length (tables db)]) * DB_SLAB_ROWS < 2 ^ 32"
    and vol: "live_rows db cid i \<noteq> None" "cls_flags (class_of db cid) AND WO_CLASSF_VOLATILE \<noteq> 0"
  shows "\<exists>w' cid' db'. wo_wal_compact mem c w db = Lives (True, db, w') \<and>
    cls_flags (class_of db cid') AND WO_CLASSF_VOLATILE \<noteq> 0 \<and>
    wo_wal_replay_ex mem rt (Some (fbytes w')) (fresh_db db) = (ReplayVolatile cid', db')"
proof -
  let ?cs = "classes db" and ?d = "dump db [0..<length (tables db)]"
  let ?ss = "head_stmts (schema w) @ ?d" and ?wo = "\<lambda>f. if rt then Some (replay_view f) else None"
  obtain w' where w': "wo_wal_compact mem c w db = Lives (True, db, w')"
      "log_is w' (map (stmt_payload ?cs) ?ss) []"
    using compact_log [OF mem dev l inv res sch p] by blast
  note self = live_self [OF inv]
  let ?vol = "\<lambda>s. case s of SInsert c i v \<Rightarrow> cls_flags (class_of db c) AND WO_CLASSF_VOLATILE \<noteq> 0 | _ \<Rightarrow> False"
  obtain r0 where "live_rows db cid i = Some r0" using vol by auto
  then have "SInsert cid i (slots r0) \<in> set ?ss" using live_dump [OF inv] by simp
  then have "\<exists>s\<in>set ?ss. ?vol s" using vol(2) by (intro bexI [of _ "SInsert cid i (slots r0)"]) simp_all
  from split_list_first_prop [OF this]
  obtain xs s ys where sp: "?ss = xs @ s # ys" "?vol s" "\<forall>x\<in>set xs. \<not> ?vol x" by blast
  have ok: "stmt_ok db x" if "x \<in> set ?ss" "\<not> ?vol x" for x
  proof (cases "x \<in> set ?d")
    case True
    then obtain c j r where x: "x = SInsert c j (slots r)" "live_rows db c j = Some r" by (rule dump_live [OF inv res])
    have "id_ok db j" using ids x(2) by (metis option.distinct(1))
    then show ?thesis using self [OF x(2)] x(1) that(2) by (simp add: class_ok_def)
  next
    case False
    then show ?thesis using that(1) by (auto simp: head_stmts_def split: option.splits)
  qed
  note fr = fresh_db_ok [OF inv impI [OF conjI [OF sh]]]
  note shs = same_shape_simps [OF fr(2)]
  have run: "run_stmts ?cs ?ss (\<lambda>cid. Map.empty) = Some (live_rows db)"
    using run_whole_dump [OF inv res] self by blast
  then obtain S where S: "run_stmts ?cs xs (\<lambda>cid. Map.empty) = Some S"
    unfolding sp(1) run_stmts_append by (auto split: option.splits)
  have rm: "room_for (length xs) (fresh_db db)"
    by (rule fr(4), rule le_less_trans [OF _ room], rule mult_le_mono1, unfold sp(1)) simp
  have "\<forall>s\<in>set xs. stmt_ok (fresh_db db) s"
    using ok sp by (auto simp: same_shape_stmt_ok [OF fr(2)])
  then obtain db1 where r1: "replay_list mem (?wo (fbytes w')) (fresh_db db)
      (with_offsets 0 (map (stmt_payload ?cs) xs)) 0 = (Replayed (0 + row_records xs), db1)"
    and s1: "same_shape (fresh_db db) db1"
    using replay_list_stmts [OF mem, of "fresh_db db" xs S "?wo (fbytes w')" 0 0] fit fr(1,3) rm S by (auto simp: shs)
  have sh1: "same_shape db db1" by (rule same_shape_trans [OF fr(2) s1])
  note shs1 = same_shape_simps [OF sh1]
  obtain c0 i0 vs0 where s0: "s = SInsert c0 i0 vs0" and v0: "cls_flags (class_of db c0) AND WO_CLASSF_VOLATILE \<noteq> 0"
    using sp(2) by (cases s) auto
  have "s \<in> set ?ss" by (simp only: sp(1)) simp
  then have "s \<in> set ?d" using s0 by (auto simp: head_stmts_def split: option.splits)
  then have c0: "c0 < length ?cs" using s0 self by (elim dump_live [OF inv res]) auto
  have f1: "classes_fit (classes db1)" "c0 < length (classes db1)" "cls_flags (class_of db1 c0) AND WO_CLASSF_VOLATILE \<noteq> 0"
    using fit c0 v0 by (simp_all add: shs1)
  note vr = volatile_refused(1) [OF f1, where mem = mem and rid = i0 and vs = vs0, unfolded shs1]
    volatile_refused(2) [OF f1, where rid = i0 and vs = vs0, unfolded shs1]
  obtain off' where off': "with_offsets 0 (map (stmt_payload ?cs) ?ss) =
      with_offsets 0 (map (stmt_payload ?cs) xs) @ with_offsets off' (map (stmt_payload ?cs) (s # ys))"
    using with_offsets_append [of 0 "map (stmt_payload ?cs) xs" "map (stmt_payload ?cs) (s # ys)"] sp(1) by auto
  have rec: "wal_records mem (fbytes w') 0 = with_offsets 0 (map (stmt_payload ?cs) ?ss)"
    by (rule log_is_records(1) [OF w'(2)]) (use mem in simp)
  have "replay_list mem (?wo (fbytes w')) (fresh_db db) (wal_records mem (fbytes w') 0) 0 = (ReplayVolatile c0, db1)"
    unfolding rec off' replay_list_append r1 using vr s0 by simp
  then have "wo_wal_replay_ex mem rt (Some (fbytes w')) (fresh_db db) = (ReplayVolatile c0, db1)"
    by (simp add: wo_wal_replay_ex_def replay_loop_list)
  then show ?thesis using w'(1) v0 by blast
qed

end
