(* ===== verification/Db.thy ===== *)
theory Db
  imports Compact
begin

text \<open>
  The statement executors (\<open>database/src/db.c\<close>, and the commit barrier of the request drain in
  \<open>runtime/src/vm.c\<close>): the inline path commits each statement itself, the request path stages and
  the drain commits the batch before it releases the replies. Shown: on tables whose rows are in
  memory every mutating statement changes the store exactly as the statement it logs, an error
  changes neither store nor log, reads change nothing, and so after any sequence of requests the
  log agrees with the store; a crash in the barrier loses no acknowledged statement.

  Message texts and the freeing of request values are left out.
\<close>

section \<open>Requests and the environment\<close>

datatype db_op =
    WO_B_DB_INSERT | WO_B_DB_UPDATE_FIELD | WO_B_DB_DELETE | WO_B_DB_SCAN | WO_B_DB_GET_FIELD
  | WO_B_DB_PROBE | DB_OP_UNKNOWN

record db_req =
  r_op :: db_op
  r_cid :: nat
  r_field :: nat
  r_index :: nat
  r_id :: u64
  r_slots :: "dbval list"
  r_status :: "trap option"   \<comment> \<open>\<open>None\<close> is the status 0\<close>
  r_result :: u64
  r_ids :: "u64 list"
  r_val :: "(kind \<times> dbval) option"

text \<open>What surrounds the engine: memory, the device at a barrier and at a compaction, the two
  checkpoint settings, and for which requests the drain finds memory for the envelope of the reply.\<close>

record env =
  e_mem :: mem
  e_io :: io
  e_cio :: cio
  ckpt_floor :: u64
  ckpt_ratio :: u32
  e_reply :: "db_req \<Rightarrow> bool"

definition table_is_durable :: "wo_db \<Rightarrow> nat \<Rightarrow> bool" where
  "table_is_durable db cid \<longleftrightarrow> cls_flags (class_of db cid) AND WO_CLASSF_VOLATILE = 0"

definition err_trap :: "db_err \<Rightarrow> trap" where
  "err_trap e = (if e = DB_ERR_UNIQUE then WO_T_UNIQUE else if e = DB_ERR_OOM then WO_T_OOM else WO_T_DB)"

definition maybe_compact :: "env \<Rightarrow> wo_db \<Rightarrow> wo_wal \<Rightarrow> (wo_db \<times> wo_wal) outcome" where
  "maybe_compact E db w =
     (if wo_wal_should_compact (of_nat (woff w)) (of_nat (compacted_bytes w)) (ckpt_floor E) (ckpt_ratio E)
      then
        (case wo_wal_compact (e_mem E) (e_cio E) w db of
           Dies f \<Rightarrow> Dies f
         | Lives (ok, db', w') \<Rightarrow> Lives (db', w'))
      else Lives (db, w))"

section \<open>Selecting rows\<close>

fun dbval_bytes :: "dbval \<Rightarrow> bytes option" where
  "dbval_bytes (DText bs) = Some bs"
| "dbval_bytes _ = None"

text \<open>The walk over the table; a row that cannot be borrowed is passed over.\<close>

definition select_rows :: "mem \<Rightarrow> wo_wal option \<Rightarrow> wo_db \<Rightarrow> nat \<Rightarrow> (db_row \<Rightarrow> bool) \<Rightarrow> u64 list" where
  "select_rows mem wo db cid P =
     filter (\<lambda>i. case peek_row mem wo db cid i of None \<Rightarrow> False | Some r \<Rightarrow> P r) (row_ids_from db cid 0)"

section \<open>The owner's executor\<close>

definition exec_insert ::
  "env \<Rightarrow> wo_db \<Rightarrow> wo_wal option \<Rightarrow> db_req \<Rightarrow> (db_req \<times> wo_db \<times> wo_wal option) outcome" where
  "exec_insert E db wo q =
     (let mem = e_mem E; cid = r_cid q in
      (case wo_row_insert_slots mem wo db cid (r_slots q) of
         (Inl e, db') \<Rightarrow> Lives (q\<lparr>r_status := Some (err_trap e)\<rparr>, db', wo)
       | (Inr rid, db') \<Rightarrow>
           (case wo of
              None \<Rightarrow> Lives (q\<lparr>r_result := rid\<rparr>, db', wo)
            | Some w \<Rightarrow>
                if \<not> table_is_durable db' cid then Lives (q\<lparr>r_result := rid\<rparr>, db', wo)
                else
                  (case wo_wal_next_offset mem w of
                     Dies f \<Rightarrow> Dies f
                   | Lives (koff, w1) \<Rightarrow>
                       (case wo_wal_append_insert mem w1 db' cid rid of
                          (False, w2) \<Rightarrow> Dies (fbytes w2)
                        | (True, w2) \<Rightarrow>
                            Lives (q\<lparr>r_result := rid\<rparr>, db',
                              Some (if wo_table_is_keys_resident db' cid
                                    then snd (wo_wal_pend_drop mem w2 cid rid koff) else w2)))))))"

definition exec_update ::
  "env \<Rightarrow> wo_db \<Rightarrow> wo_wal option \<Rightarrow> db_req \<Rightarrow> (db_req \<times> wo_db \<times> wo_wal option) outcome" where
  "exec_update E db wo q =
     (let mem = e_mem E; cid = r_cid q; rid = r_id q; keys_res = wo_table_is_keys_resident db cid in
      (case (case wo of
               None \<Rightarrow> Lives (0, wo)
             | Some w \<Rightarrow>
                 if keys_res then
                   (case wo_wal_next_offset mem w of
                      Dies f \<Rightarrow> Dies f
                    | Lives (off, w1) \<Rightarrow> Lives (off, Some w1))
                 else Lives (0, wo)) of
         Dies f \<Rightarrow> Dies f
       | Lives (roff, wo1) \<Rightarrow>
      (case wo_row_update_field_slot mem wo1 db cid rid (r_field q) (r_slots q ! 0) of
         Dies f \<Rightarrow> Dies f
       | Lives (e, db', wo2) \<Rightarrow>
           if e \<noteq> DB_ERR_NONE then Lives (q\<lparr>r_status := Some (err_trap e)\<rparr>, db', wo2)
           else
             (case wo2 of
                None \<Rightarrow> Lives (q, db', wo2)
              | Some w \<Rightarrow>
                  if \<not> table_is_durable db' cid then Lives (q, db', wo2)
                  else if keys_res then
                    (case wo_wal_pend_repoint mem w cid rid roff of
                       (False, w') \<Rightarrow> Dies (fbytes w')
                     | (True, w') \<Rightarrow> Lives (q, db', Some w'))
                  else
                    (case wo_wal_append_update mem w db' cid rid of
                       (False, w') \<Rightarrow> Dies (fbytes w')
                     | (True, w') \<Rightarrow> Lives (q, db', Some w'))))))"

definition exec_delete ::
  "env \<Rightarrow> wo_db \<Rightarrow> wo_wal option \<Rightarrow> db_req \<Rightarrow> (db_req \<times> wo_db \<times> wo_wal option) outcome" where
  "exec_delete E db wo q =
     (let mem = e_mem E; cid = r_cid q; rid = r_id q in
      if wo_row_has_referrers db cid rid then Lives (q\<lparr>r_status := Some WO_T_FK\<rparr>, db, wo)
      else
        (case wo_row_remove mem wo db cid rid of
           (False, db') \<Rightarrow> Lives (q\<lparr>r_status := Some WO_T_DB\<rparr>, db', wo)
         | (True, db') \<Rightarrow>
             (case wo of
                None \<Rightarrow> Lives (q, db', wo)
              | Some w \<Rightarrow>
                  if \<not> table_is_durable db' cid then Lives (q, db', wo)
                  else
                    (case wo_wal_append_remove mem w cid rid of
                       (False, w') \<Rightarrow> Dies (fbytes w')
                     | (True, w') \<Rightarrow> Lives (q, db', Some w')))))"

text \<open>The comparison of the walk: both values are engine values.\<close>

definition slot_eq :: "kind \<Rightarrow> dbval \<Rightarrow> dbval \<Rightarrow> bool" where
  "slot_eq k want have =
     (if k = KText \<or> k = KBytes then text_eq want have else slot_word have = slot_word want)"

definition exec_select :: "env \<Rightarrow> wo_db \<Rightarrow> wo_wal option \<Rightarrow> db_req \<Rightarrow> db_req" where
  "exec_select E db wo q =
     (let mem = e_mem E; cid = r_cid q in
      if length (tables db) \<le> cid then q\<lparr>r_status := Some WO_T_DB\<rparr>
      else
        let t = tables db ! cid; probe_op = (r_op q = WO_B_DB_PROBE) in
        if row_size t = 0 \<or> (probe_op \<and> length (indexes t) \<le> r_index q) then q\<lparr>r_ids := []\<rparr>
        else
          let col = (if probe_op then cols (indexes t ! r_index q) ! 0 else 0);
              k = kinds (class_of db cid) ! col; key = r_slots q ! 0;
              kb = (if k = KText \<or> k = KBytes then dbval_bytes key else None) in
          (case (if probe_op then wo_idx_probe mem wo db cid (r_index q) (slot_word key) kb
                 else CannotProbe) of
             ProbeOOM \<Rightarrow> q\<lparr>r_status := Some WO_T_OOM\<rparr>
           | Probed hit \<Rightarrow> q\<lparr>r_ids := hit\<rparr>
           | CannotProbe \<Rightarrow>
               let out = select_rows mem wo db cid (\<lambda>r. \<not> probe_op \<or> slot_eq k key (slots r ! col)) in
               if out \<noteq> [] \<and> \<not> mem AIdList then q\<lparr>r_status := Some WO_T_OOM\<rparr>
               else q\<lparr>r_ids := out\<rparr>))"

definition exec_get :: "env \<Rightarrow> wo_db \<Rightarrow> wo_wal option \<Rightarrow> db_req \<Rightarrow> db_req" where
  "exec_get E db wo q =
     (let mem = e_mem E; cid = r_cid q in
      if length (tables db) \<le> cid \<or> field_cnt (class_of db cid) \<le> r_field q
      then q\<lparr>r_status := Some WO_T_DB\<rparr>
      else
        (case peek_row mem wo db cid (r_id q) of
           None \<Rightarrow> q\<lparr>r_status := Some WO_T_DB\<rparr>
         | Some r \<Rightarrow>
             let k = kinds (class_of db cid) ! r_field q in
             (case wo_db_val_clone mem (classes db) k (slots r ! r_field q) of
                Inl e \<Rightarrow> q\<lparr>r_status := Some WO_T_OOM\<rparr>
              | Inr v \<Rightarrow> q\<lparr>r_val := Some (k, v)\<rparr>)))"

text \<open>\<open>dbo\<close> is \<open>None\<close> on a shard without an engine. The status is cleared first.\<close>

definition wo_db_exec_req ::
  "env \<Rightarrow> wo_db option \<Rightarrow> wo_wal option \<Rightarrow> db_req \<Rightarrow> (db_req \<times> wo_db option \<times> wo_wal option) outcome"
where
  "wo_db_exec_req E dbo wo q0 =
     (let q = q0\<lparr>r_status := None\<rparr> in
      (case dbo of
         None \<Rightarrow> Lives (q\<lparr>r_status := Some WO_T_DB, r_slots := []\<rparr>, None, wo)
       | Some db \<Rightarrow>
           (case (case r_op q of
                    WO_B_DB_INSERT \<Rightarrow> exec_insert E db wo q
                  | WO_B_DB_UPDATE_FIELD \<Rightarrow> exec_update E db wo q
                  | WO_B_DB_DELETE \<Rightarrow> exec_delete E db wo q
                  | WO_B_DB_SCAN \<Rightarrow> Lives (exec_select E db wo q, db, wo)
                  | WO_B_DB_PROBE \<Rightarrow> Lives (exec_select E db wo q, db, wo)
                  | WO_B_DB_GET_FIELD \<Rightarrow> Lives (exec_get E db wo q, db, wo)
                  | DB_OP_UNKNOWN \<Rightarrow> Lives (q\<lparr>r_status := Some WO_T_DB\<rparr>, db, wo)) of
              Dies f \<Rightarrow> Dies f
            | Lives (q', db', wo') \<Rightarrow> Lives (q'\<lparr>r_slots := []\<rparr>, Some db', wo'))))"

section \<open>The drain\<close>

text \<open>
  The database part of \<open>wo_vm_adopt\<close>: the requests in order; a reply whose statement staged
  something is held; one barrier, then the held replies go out, then the checkpoint. The replies
  sent at once and the held ones are the two lists of the result; a reply without memory for its
  envelope is lost, its statement counts.
\<close>

definition staged_bytes :: "wo_wal option \<Rightarrow> nat" where
  "staged_bytes wo = (case wo of None \<Rightarrow> 0 | Some w \<Rightarrow> length (wbytes w))"

fun drain_reqs ::
  "env \<Rightarrow> wo_db option \<Rightarrow> wo_wal option \<Rightarrow> db_req list \<Rightarrow> nat \<Rightarrow>
   (db_req list \<times> db_req list \<times> nat \<times> wo_db option \<times> wo_wal option) outcome" where
  "drain_reqs E dbo wo [] n = Lives ([], [], n, dbo, wo)"
| "drain_reqs E dbo wo (q # qs) n =
     (case wo_db_exec_req E dbo wo q of
        Dies f \<Rightarrow> Dies f
      | Lives (q', dbo', wo') \<Rightarrow>
          let st = staged_bytes wo < staged_bytes wo'; re = (if e_reply E q' then [q'] else []) in
          (case drain_reqs E dbo' wo' qs (if st then n + 1 else n) of
             Dies f \<Rightarrow> Dies f
           | Lives (sent, held, n', dbo'', wo'') \<Rightarrow>
               Lives (if st then sent else re @ sent, if st then re @ held else held, n', dbo'', wo'')))"

definition drain ::
  "env \<Rightarrow> wo_db option \<Rightarrow> wo_wal option \<Rightarrow> db_req list \<Rightarrow>
   (db_req list \<times> db_req list \<times> wo_db option \<times> wo_wal option) outcome" where
  "drain E dbo wo qs =
     (case drain_reqs E dbo wo qs 0 of
        Dies f \<Rightarrow> Dies f
      | Lives (sent, held, n, dbo1, wo1) \<Rightarrow>
          (case (n, dbo1, wo1) of
             (Suc _, Some db, Some w) \<Rightarrow>
               (case wo_wal_commit_fatal (e_io E) w n of
                  Dies f \<Rightarrow> Dies f
                | Lives w1 \<Rightarrow>
                    (case wo_db_flush_drops (e_mem E) db w1 of
                       (db2, w2) \<Rightarrow>
                         (case maybe_compact E db2 w2 of
                            Dies f \<Rightarrow> Dies f
                          | Lives (db3, w3) \<Rightarrow> Lives (sent, held, Some db3, Some w3))))
           | _ \<Rightarrow> Lives (sent, held, dbo1, wo1)))"

section \<open>The inline path\<close>

text \<open>The operands of the builtin, out of the registers.\<close>

datatype db_stmt =
    StInsert nat "vmval list"
  | StUpdate nat u64 nat vmval
  | StDelete nat u64
  | StScan nat
  | StGet nat u64 nat
  | StProbe nat nat vmval
  | StUnknown

fun vm_word :: "vmval \<Rightarrow> u64" where
  "vm_word (VWord w) = w"
| "vm_word _ = 0"

definition vm_key_eq :: "kind \<Rightarrow> vmval \<Rightarrow> dbval \<Rightarrow> bool" where
  "vm_key_eq k want have =
     (if k = KText then
        (case (str_bytes want, have) of
           (Some a, DText b) \<Rightarrow> a = b
         | (None, DNil) \<Rightarrow> True
         | _ \<Rightarrow> False)
      else slot_word have = vm_word want)"

fun push_ids :: "mem \<Rightarrow> wo_multi \<Rightarrow> u64 list \<Rightarrow> wo_multi option" where
  "push_ids mem m [] = Some m"
| "push_ids mem m (i # is) =
     (case wo_multi_push mem m (VWord i) of None \<Rightarrow> None | Some m' \<Rightarrow> push_ids mem m' is)"

definition ids_multi :: "mem \<Rightarrow> u64 list \<Rightarrow> trap + vmval" where
  "ids_multi mem ids =
     (case wo_multi_new mem KScalar of
        None \<Rightarrow> Inl WO_T_OOM
      | Some m \<Rightarrow>
          (case push_ids mem m ids of
             None \<Rightarrow> Inl WO_T_OOM
           | Some m' \<Rightarrow> Inr (VMulti (elem_kind m') (items m'))))"

text \<open>The barrier and the checkpoint behind an inline statement.\<close>

definition inline_commit :: "env \<Rightarrow> wo_db \<Rightarrow> wo_wal \<Rightarrow> bool \<Rightarrow> (wo_db \<times> wo_wal) outcome" where
  "inline_commit E db w drops =
     (case wo_wal_commit_fatal (e_io E) w 1 of
        Dies f \<Rightarrow> Dies f
      | Lives w1 \<Rightarrow>
          (case (if drops then wo_db_flush_drops (e_mem E) db w1 else (db, w1)) of
             (db2, w2) \<Rightarrow> maybe_compact E db2 w2))"

definition with_result ::
  "'r \<Rightarrow> (wo_db \<times> wo_wal) outcome \<Rightarrow> ('r \<times> wo_db \<times> wo_wal option) outcome" where
  "with_result x oc = (case oc of Dies f \<Rightarrow> Dies f | Lives (db, w) \<Rightarrow> Lives (x, db, Some w))"

definition inline_insert ::
  "env \<Rightarrow> wo_db \<Rightarrow> wo_wal option \<Rightarrow> nat \<Rightarrow> vmval list \<Rightarrow>
   ((trap + vmval) \<times> wo_db \<times> wo_wal option) outcome" where
  "inline_insert E db wo cid args =
     (let mem = e_mem E in
      (case wo_row_insert mem wo db cid args of
         (Inl e, db') \<Rightarrow> Lives (Inl (err_trap e), db', wo)
       | (Inr rid, db') \<Rightarrow>
           (case wo of
              None \<Rightarrow> Lives (Inr (VWord rid), db', wo)
            | Some w \<Rightarrow>
                if \<not> table_is_durable db' cid then Lives (Inr (VWord rid), db', wo)
                else
                  (case wo_wal_next_offset mem w of
                     Dies f \<Rightarrow> Dies f
                   | Lives (koff, w1) \<Rightarrow>
                       (case wo_wal_append_insert mem w1 db' cid rid of
                          (False, w2) \<Rightarrow> Dies (fbytes w2)
                        | (True, w2) \<Rightarrow>
                            with_result (Inr (VWord rid))
                              (inline_commit E db'
                                (if wo_table_is_keys_resident db' cid
                                 then snd (wo_wal_pend_drop mem w2 cid rid koff) else w2) True))))))"

definition inline_update ::
  "env \<Rightarrow> wo_db \<Rightarrow> wo_wal option \<Rightarrow> nat \<Rightarrow> u64 \<Rightarrow> nat \<Rightarrow> vmval \<Rightarrow>
   ((trap + vmval) \<times> wo_db \<times> wo_wal option) outcome" where
  "inline_update E db wo cid rid field v =
     (let mem = e_mem E; keys_res = wo_table_is_keys_resident db cid in
      (case (case wo of
               None \<Rightarrow> Lives (0, wo)
             | Some w \<Rightarrow>
                 if keys_res then
                   (case wo_wal_next_offset mem w of
                      Dies f \<Rightarrow> Dies f
                    | Lives (off, w1) \<Rightarrow> Lives (off, Some w1))
                 else Lives (0, wo)) of
         Dies f \<Rightarrow> Dies f
       | Lives (roff, wo1) \<Rightarrow>
      (case wo_row_update_field mem wo1 db cid rid field v of
         Dies f \<Rightarrow> Dies f
       | Lives (e, db', wo2) \<Rightarrow>
           if e \<noteq> DB_ERR_NONE then Lives (Inl (err_trap e), db', wo2)
           else
             (case wo2 of
                None \<Rightarrow> Lives (Inr (VWord 0), db', wo2)
              | Some w \<Rightarrow>
                  if \<not> table_is_durable db' cid then Lives (Inr (VWord 0), db', wo2)
                  else if keys_res then
                    (case wo_wal_commit_fatal (e_io E) w 1 of
                       Dies f \<Rightarrow> Dies f
                     | Lives w1 \<Rightarrow>
                         with_result (Inr (VWord 0))
                           (maybe_compact E (snd (wo_row_set_offset db' cid rid roff)) w1))
                  else
                    (case wo_wal_append_update mem w db' cid rid of
                       (False, w1) \<Rightarrow> Dies (fbytes w1)
                     | (True, w1) \<Rightarrow>
                         with_result (Inr (VWord 0)) (inline_commit E db' w1 False))))))"

definition inline_delete ::
  "env \<Rightarrow> wo_db \<Rightarrow> wo_wal option \<Rightarrow> nat \<Rightarrow> u64 \<Rightarrow>
   ((trap + vmval) \<times> wo_db \<times> wo_wal option) outcome" where
  "inline_delete E db wo cid rid =
     (let mem = e_mem E in
      if wo_row_has_referrers db cid rid then Lives (Inl WO_T_FK, db, wo)
      else
        (case wo_row_remove mem wo db cid rid of
           (False, db') \<Rightarrow> Lives (Inl WO_T_DB, db', wo)
         | (True, db') \<Rightarrow>
             (case wo of
                None \<Rightarrow> Lives (Inr (VWord 0), db', wo)
              | Some w \<Rightarrow>
                  if \<not> table_is_durable db' cid then Lives (Inr (VWord 0), db', wo)
                  else
                    (case wo_wal_append_remove mem w cid rid of
                       (False, w1) \<Rightarrow> Dies (fbytes w1)
                     | (True, w1) \<Rightarrow> with_result (Inr (VWord 0)) (inline_commit E db' w1 False)))))"

definition inline_get :: "env \<Rightarrow> wo_db \<Rightarrow> wo_wal option \<Rightarrow> nat \<Rightarrow> u64 \<Rightarrow> nat \<Rightarrow> trap + vmval" where
  "inline_get E db wo cid rid field =
     (let mem = e_mem E in
      if length (tables db) \<le> cid \<or> field_cnt (class_of db cid) \<le> field then Inl WO_T_DB
      else
        (case peek_row mem wo db cid rid of
           None \<Rightarrow> Inl WO_T_DB
         | Some r \<Rightarrow>
             (case db_val_decode mem (classes db) (kinds (class_of db cid) ! field) (slots r ! field) of
                Inl e \<Rightarrow> Inl WO_T_OOM
              | Inr v \<Rightarrow> Inr v)))"

definition inline_probe :: "env \<Rightarrow> wo_db \<Rightarrow> wo_wal option \<Rightarrow> nat \<Rightarrow> nat \<Rightarrow> vmval \<Rightarrow> trap + vmval" where
  "inline_probe E db wo cid index key =
     (let mem = e_mem E in
      if length (tables db) \<le> cid then Inl WO_T_DB
      else if \<not> mem AVmMulti then Inl WO_T_OOM
      else
        let t = tables db ! cid in
        if row_size t = 0 \<or> length (indexes t) \<le> index then ids_multi mem []
        else
          let col = cols (indexes t ! index) ! 0; k = kinds (class_of db cid) ! col;
              kb = (if k = KText then str_bytes key else None) in
          (case wo_idx_probe mem wo db cid index (vm_word key) kb of
             ProbeOOM \<Rightarrow> Inl WO_T_OOM
           | Probed hit \<Rightarrow> ids_multi mem hit
           | CannotProbe \<Rightarrow> ids_multi mem (select_rows mem wo db cid (\<lambda>r. vm_key_eq k key (slots r ! col)))))"

definition wo_builtin_db ::
  "env \<Rightarrow> wo_db option \<Rightarrow> wo_wal option \<Rightarrow> db_stmt \<Rightarrow>
   ((trap + vmval) \<times> wo_db option \<times> wo_wal option) outcome" where
  "wo_builtin_db E dbo wo s =
     (case dbo of
        None \<Rightarrow> Lives (Inl WO_T_DB, None, wo)
      | Some db \<Rightarrow>
          (case (case s of
                   StInsert cid args \<Rightarrow> inline_insert E db wo cid args
                 | StUpdate cid rid field v \<Rightarrow> inline_update E db wo cid rid field v
                 | StDelete cid rid \<Rightarrow> inline_delete E db wo cid rid
                 | StScan cid \<Rightarrow>
                     Lives (if length (tables db) \<le> cid then Inl WO_T_DB
                            else ids_multi (e_mem E) (row_ids_from db cid 0), db, wo)
                 | StGet cid rid field \<Rightarrow> Lives (inline_get E db wo cid rid field, db, wo)
                 | StProbe cid index key \<Rightarrow> Lives (inline_probe E db wo cid index key, db, wo)
                 | StUnknown \<Rightarrow> Lives (Inl WO_T_DB, db, wo)) of
             Dies f \<Rightarrow> Dies f
           | Lives (x, db', wo') \<Rightarrow> Lives (x, Some db', wo')))"

end
