(* ===== verification/CompactFaults.thy ===== *)
theory CompactFaults
  imports Compact
begin

text \<open>
  Compaction on a device that may fail: a store whose rows are in memory comes out of it as it went in,
  with the log rewritten or with the old one; and every row of a log's store fits a record of its own.
\<close>

section \<open>Whatever the device does\<close>

text \<open>What a device with faults completes, a device without faults completes with the same result.\<close>

definition good_dev :: cio where
  "good_dev = \<lparr>c_open = True, c_wr = \<lparr>wr = None, sync_ok = True\<rparr>, c_tail = \<lparr>wr = None, sync_ok = True\<rparr>, c_sync = True, c_rename = True\<rparr>"

lemma good_device: "device_ok good_dev" "wr (c_wr good_dev) = None" "wr (c_tail good_dev) = None"
  "c_open good_dev" "c_sync good_dev" "c_rename good_dev"
  by (simp_all add: good_dev_def device_ok_def)

lemma nosync_mono: "wal_write_nosync io w = (True, w') \<Longrightarrow> wr io0 = None \<Longrightarrow> wal_write_nosync io0 w = (True, w')"
  by (auto simp: wal_write_nosync_def split: option.splits)

lemma compact_step_mono: "compact_step mem c w cid rid st = Inr st' \<Longrightarrow> compact_step mem good_dev w cid rid st = Inr st'"
  using nosync_mono [where io = "c_wr c" and ?io0.0 = "c_wr good_dev"]
  by (auto simp: compact_step_def Let_def good_device split: prod.splits option.splits if_splits bool.splits)

lemma compact_rows_mono:
  "compact_rows mem c w cid (db, nw, pn, rp) cur = Inr st' \<Longrightarrow> compact_rows mem good_dev w cid (db, nw, pn, rp) cur = Inr st'"
proof (induction mem c w cid "(db, nw, pn, rp)" cur arbitrary: db nw pn rp rule: compact_rows.induct)
  case (1 mem c w cid db nw pn rp cur)
  show ?case
  proof (cases "wo_row_next_id db cid cur")
    case None
    then show ?thesis using 1(2)
      by (auto simp: compact_rows.simps [of mem c w cid db nw] compact_rows.simps [of mem good_dev w cid db nw])
  next
    case (Some x)
    then obtain rid cur' where n: "wo_row_next_id db cid cur = Some (rid, cur')" by (cases x) simp
    obtain db1 nw1 pn1 rp1 where s: "compact_step mem c w cid rid (db, nw, pn, rp) = Inr (db1, nw1, pn1, rp1)"
      "compact_rows mem c w cid (db1, nw1, pn1, rp1) cur' = Inr st'"
      using 1(2) n by (auto simp: compact_rows.simps [of mem c w cid db nw] split: sum.splits)
    show ?thesis
      using 1(1) [OF n refl s(1) refl refl refl s(2)] compact_step_mono [OF s(1)] n
      by (simp add: compact_rows.simps [of mem good_dev w cid db nw])
  qed
qed

lemma compact_tables_mono:
  "compact_tables mem c w cids st = Inr st' \<Longrightarrow> compact_tables mem good_dev w cids st = Inr st'"
proof (induction cids arbitrary: st)
  case (Cons cid cids)
  obtain db nw pn rp where st: "st = (db, nw, pn, rp)" by (cases st)
  show ?case
  proof (cases "row_size (tables db ! cid) = 0")
    case True
    then show ?thesis using Cons by (simp add: st)
  next
    case False
    then obtain st1 where s: "compact_rows mem c w cid (db, nw, pn, rp) 0 = Inr st1" "compact_tables mem c w cids st1 = Inr st'"
      using Cons.prems by (auto simp: st split: sum.splits)
    then show ?thesis using False Cons.IH [OF s(2)] compact_rows_mono [OF s(1)] by (simp add: st)
  qed
qed simp

text \<open>A failure in a store whose rows are in memory has moved no offset.\<close>

lemma compact_step_fail: "compact_step mem c w cid rid (db, nw, pn, False) = Inl rp \<Longrightarrow> \<not> wo_table_is_keys_resident db cid \<Longrightarrow> \<not> rp"
  by (auto simp: compact_step_def Let_def split: option.splits prod.splits if_splits bool.splits)

lemma compact_step_db:
  "compact_step mem c w cid rid (db, nw, pn, False) = Inr (db', nw', pn', rp') \<Longrightarrow> \<not> wo_table_is_keys_resident db cid \<Longrightarrow> db' = db \<and> \<not> rp'"
  by (auto simp: compact_step_def compact_row_def Let_def split: option.splits prod.splits if_splits bool.splits)

lemma compact_rows_keep:
  "compact_rows mem c w cid (db, nw, pn, rp) cur = r \<Longrightarrow> \<not> wo_table_is_keys_resident db cid \<Longrightarrow> \<not> rp \<Longrightarrow>
   (case r of Inl rp' \<Rightarrow> \<not> rp' | Inr (db', nw', pn', rp') \<Rightarrow> db' = db \<and> \<not> rp')"
proof (induction mem c w cid "(db, nw, pn, rp)" cur arbitrary: nw pn rp rule: compact_rows.induct)
  case (1 mem c w cid nw pn rp cur)
  show ?case
  proof (cases "wo_row_next_id db cid cur")
    case None
    then show ?thesis using 1(2-4) by (auto simp: compact_rows.simps)
  next
    case (Some x)
    then obtain rid cur' where n: "wo_row_next_id db cid cur = Some (rid, cur')" by (cases x) simp
    show ?thesis
    proof (cases "compact_step mem c w cid rid (db, nw, pn, False)")
      case (Inl rp')
      then have "\<not> rp'" using compact_step_fail 1(3) by blast
      moreover have "r = Inl rp'" using 1(2,4) n Inl by (simp add: compact_rows.simps [of mem c w cid db nw])
      ultimately show ?thesis by simp
    next
      case (Inr st)
      obtain nw1 pn1 where s: "st = (db, nw1, pn1, False)"
        using compact_step_db [of mem c w cid rid db nw pn] Inr 1(3) by (cases st) simp
      have st': "compact_step mem c w cid rid (db, nw, pn, rp) = Inr (db, nw1, pn1, False)" using Inr s 1(4) by simp
      have "compact_rows mem c w cid (db, nw1, pn1, False) cur' = r"
        using 1(2) n st' by (simp add: compact_rows.simps [of mem c w cid db nw])
      from 1(1) [OF n refl st' refl refl refl this 1(3)] show ?thesis by simp
    qed
  qed
qed

lemma compact_tables_keep:
  "compact_tables mem c w cids (db, nw, pn, False) = r \<Longrightarrow> rows_in_memory db \<Longrightarrow> set cids \<subseteq> {..<length (tables db)} \<Longrightarrow>
   (case r of Inl rp' \<Rightarrow> \<not> rp' | Inr (db', nw', pn', rp') \<Rightarrow> db' = db \<and> \<not> rp')"
proof (induction cids arbitrary: nw pn)
  case (Cons cid cids)
  show ?case
  proof (cases "row_size (tables db ! cid) = 0")
    case True
    then show ?thesis using Cons by auto
  next
    case False
    then have nk: "\<not> wo_table_is_keys_resident db cid" using Cons.prems(2,3) by (auto simp: rows_in_memory_def)
    have k: "case compact_rows mem c w cid (db, nw, pn, False) 0 of Inl rp' \<Rightarrow> \<not> rp' | Inr (db', nw', pn', rp') \<Rightarrow> db' = db \<and> \<not> rp'"
      by (rule compact_rows_keep [OF refl nk]) simp
    show ?thesis
    proof (cases "compact_rows mem c w cid (db, nw, pn, False) 0")
      case (Inl rp')
      then have "r = Inl rp'" "\<not> rp'" using k False Cons.prems(1) by simp_all
      then show ?thesis by simp
    next
      case (Inr st)
      then obtain nw1 pn1 where "st = (db, nw1, pn1, False)" using k by (cases st) simp
      then show ?thesis using Cons False Inr by simp
    qed
  qed
qed auto

text \<open>
  So a compaction returns with the store as it was, and with the old log if it failed; and if it did not fail,
  the result is that of a device without faults.
\<close>

lemma compact_result:
  assumes res: "rows_in_memory db"
  obtains (ok) w' where "wo_wal_compact mem c w db = Lives (True, db, w')" and "wo_wal_compact mem good_dev w db = Lives (True, db, w')"
  | (failed) "wo_wal_compact mem c w db = Lives (False, db, w)"
proof (cases "wbytes w \<noteq> [] \<or> \<not> c_open c")
  case True
  then show thesis using failed by (auto simp: wo_wal_compact_def)
next
  case False
  let ?nw0 = "wo_wal_open mem [] (prealloc w)"
  obtain b nw1 where n1: "(case schema w of None \<Rightarrow> (True, ?nw0) | Some s \<Rightarrow> stage mem ?nw0 (build mem s)) = (b, nw1)" by fastforce
  show thesis
  proof (cases b)
    case b: True
    let ?r = "compact_tables mem c w [0..<length (tables db)] (db, nw1, 0, False)"
    have k: "case ?r of Inl rp' \<Rightarrow> \<not> rp' | Inr (db', nw', pn', rp') \<Rightarrow> db' = db \<and> \<not> rp'"
      by (rule compact_tables_keep [OF refl res]) auto
    show thesis
    proof (cases ?r)
      case (Inl rp)
      then show thesis using failed k False n1 b by (auto simp: wo_wal_compact_def Let_def)
    next
      case (Inr st)
      then obtain nw2 pn2 where t: "?r = Inr (db, nw2, pn2, False)" using k by (cases st) auto
      note t' = compact_tables_mono [OF t]
      show thesis
      proof (cases "wal_write_nosync (c_tail c) nw2")
        case (Pair b3 nw3)
        show thesis
        proof (cases "b3 \<and> c_sync c \<and> c_rename c")
          case True
          then have p: "wal_write_nosync (c_tail c) nw2 = (True, nw3)" using Pair by simp
          note p' = nosync_mono [OF p good_device(3)]
          show thesis
            by (rule ok [of "w\<lparr>fbytes := fbytes nw3, woff := woff nw3, wbytes := [], compacted_bytes := woff nw3\<rparr>"])
              (use False n1 b t t' p p' True good_device in \<open>simp_all add: wo_wal_compact_def Let_def\<close>)
        next
          case F: False
          then show thesis using failed False n1 b t Pair
            by (cases b3) (auto simp: wo_wal_compact_def Let_def)
        qed
      qed
    qed
  next
    case b: False
    then show thesis using failed False n1 by (simp add: wo_wal_compact_def Let_def)
  qed
qed

section \<open>The dump fits the log\<close>

lemma insert_payload_len:
  "length (stmt_payload cs (SInsert cid rid vs)) = length (stmt_payload cs (SUpdate cid rid vs))"
  by (simp add: row_payload_def rec_head_def wput_u8_def)

lemma run_stmts_payload:
  "\<forall>s\<in>set ss. payload_ok (stmt_payload cs s) \<Longrightarrow> run_stmts cs ss S = Some S' \<Longrightarrow>
   \<forall>cid rid r. S cid rid = Some r \<longrightarrow> payload_ok (stmt_payload cs (SInsert cid rid (slots r))) \<Longrightarrow>
   S' cid rid = Some r \<Longrightarrow> payload_ok (stmt_payload cs (SInsert cid rid (slots r)))"
proof (induction ss arbitrary: S)
  case Nil
  then show ?case by auto
next
  case (Cons s ss)
  then obtain S1 where S1: "run_stmt cs s S = Some S1" "run_stmts cs ss S1 = Some S'" by (auto split: option.splits)
  have p: "payload_ok (stmt_payload cs s)" and ps: "\<forall>s\<in>set ss. payload_ok (stmt_payload cs s)" using Cons.prems(1) by simp_all
  have u: "payload_ok (stmt_payload cs (SInsert c i v))" if "payload_ok (stmt_payload cs (SUpdate c i v))" for c i v
    using that insert_payload_len [of cs c i v] by (simp add: payload_ok_def)
  have "\<forall>cid rid r. S1 cid rid = Some r \<longrightarrow> payload_ok (stmt_payload cs (SInsert cid rid (slots r)))"
  proof (cases s)
    case (SInsert c i v)
    then show ?thesis using S1(1) Cons.prems(3) p by (auto simp: row_of_def split: if_splits)
  next
    case (SUpdate c i v)
    then show ?thesis using S1(1) Cons.prems(3) p u [of c i v] by (auto simp: row_of_def split: if_splits)
  next
    case (SRemove c i)
    then show ?thesis using S1(1) Cons.prems(3) by (auto split: if_splits)
  next
    case (SHead h)
    then show ?thesis using S1(1) Cons.prems(3) by auto
  qed
  from Cons.IH [OF ps S1(2) this Cons.prems(4)] show ?case .
qed

lemma log_agrees_payload:
  assumes l: "log_agrees db w done todo" and r: "durable_rows db cid rid = Some r"
  shows "payload_ok (stmt_payload (classes db) (SInsert cid rid (slots r)))"
proof -
  have "\<forall>s\<in>set (done @ todo). payload_ok (stmt_payload (classes db) s)" using l by (auto simp: log_agrees_def log_is_def)
  moreover have "run_stmts (classes db) (done @ todo) (\<lambda>cid. Map.empty) = Some (durable_rows db)" using l by (simp add: log_agrees_def)
  ultimately show ?thesis by (rule run_stmts_payload) (use r in simp_all)
qed

lemma dump_payload:
  assumes l: "log_agrees db w done todo" and res: "rows_in_memory db" and dur: "live_rows db = durable_rows db"
  shows "\<forall>s\<in>set (dump db [0..<length (tables db)]). payload_ok (stmt_payload (classes db) s)"
proof
  fix s
  assume s: "s \<in> set (dump db [0..<length (tables db)])"
  have inv: "db_inv db" using l by (simp add: log_agrees_def)
  show "payload_ok (stmt_payload (classes db) s)"
    using s by (rule dump_live [OF inv res]) (use log_agrees_payload [OF l] dur in auto)
qed

text \<open>A compaction that may fail.\<close>

lemma compact_any_device:
  assumes mem: "\<forall>s. mem s" and l: "log_agrees db w done []"
    and res: "rows_in_memory db" and sch: "schema_head_ok w"
    and p: "\<forall>s\<in>set (dump db [0..<length (tables db)]). payload_ok (stmt_payload (classes db) s)"
  shows "\<exists>ok w'. wo_wal_compact mem c w db = Lives (ok, db, w') \<and> (device_ok c \<longrightarrow> ok) \<and> (\<not> ok \<longrightarrow> w' = w) \<and>
    (ok \<longrightarrow> compacted_bytes w' = woff w' \<and> schema w' = schema w \<and>
       wal_records mem (fbytes w') 0 =
         with_offsets 0 (map (stmt_payload (classes db)) (head_stmts (schema w) @ dump db [0..<length (tables db)])) \<and>
       (live_rows db = durable_rows db \<longrightarrow> log_agrees db w' (head_stmts (schema w) @ dump db [0..<length (tables db)]) []))"
proof -
  have wb: "wbytes w = []" and inv: "db_inv db" using l by (auto simp: log_agrees_def log_is_def)
  consider (ok) w' where "wo_wal_compact mem c w db = Lives (True, db, w')" "wo_wal_compact mem good_dev w db = Lives (True, db, w')"
    | (failed) "wo_wal_compact mem c w db = Lives (False, db, w)" by (rule compact_result [OF res])
  then show ?thesis
  proof cases
    case (ok w')
    obtain w1 where w1: "wo_wal_compact mem good_dev w db = Lives (True, db, w1)" "compacted_bytes w1 = woff w1"
      "log_is w1 (map (stmt_payload (classes db)) (head_stmts (schema w) @ dump db [0..<length (tables db)])) []"
      using compact_log [OF mem good_device(1) wb inv res sch p] by blast
    have eq: "w1 = w'" using w1(1) ok(2) by simp
    have sc: "schema w' = schema w" using ok(2) by (auto simp: wo_wal_compact_def Let_def split: if_splits prod.splits sum.splits bool.splits)
    have rec: "wal_records mem (fbytes w') 0 =
         with_offsets 0 (map (stmt_payload (classes db)) (head_stmts (schema w) @ dump db [0..<length (tables db)]))"
      using log_is_records(1) [OF w1(3), of mem] mem eq by simp
    have "log_agrees db w' (head_stmts (schema w) @ dump db [0..<length (tables db)]) []" if dur: "live_rows db = durable_rows db"
      using compact_ok [OF mem good_device(1) l res dur sch p] ok(2) by auto
    then show ?thesis using ok(1) w1(2) eq rec sc by blast
  next
    case failed
    have "\<not> device_ok c"
      using compact_log [OF mem _ wb inv res sch p] failed by fastforce
    then show ?thesis using failed by blast
  qed
qed

end
