(* ===== verification/Executor.thy ===== *)
theory Executor
  imports Db CompactFaults
begin

text \<open>
  The executor against the specification of \<open>Replay\<close>: each request changes the durable rows exactly
  as the statement it stages, and a refused one changes neither. So the log agrees with the store
  through a whole drain, and what a crash in its barrier leaves replays to a store that has every
  statement acknowledged before.
\<close>

section \<open>Staging the statement that was executed\<close>

lemma durable_class_ok:
  "cid < length (classes db) \<Longrightarrow> \<not> wo_table_is_keys_resident db cid \<Longrightarrow> class_ok db cid = table_is_durable db cid"
  by (simp add: class_ok_def table_is_durable_def)

lemma durable_rows_one:
  assumes "only_table cid db db'" and "table_is_durable db cid"
  shows "durable_rows db' = (durable_rows db)(cid := live_rows db' cid)"
proof
  fix c
  note sh = same_shape_simps [OF only_table_shape [OF assms(1)]]
  show "durable_rows db' c = ((durable_rows db)(cid := live_rows db' cid)) c"
    using assms(2) only_table_other [OF assms(1), of c]
    by (cases "c = cid") (simp_all add: durable_rows_def table_is_durable_def sh)
qed

lemma durable_rows_volatile:
  assumes "only_table cid db db'" and "\<not> table_is_durable db cid"
  shows "durable_rows db' = durable_rows db"
proof
  fix c
  note sh = same_shape_simps [OF only_table_shape [OF assms(1)]]
  show "durable_rows db' c = durable_rows db c"
    using assms(2) only_table_other [OF assms(1), of c]
    by (cases "c = cid") (simp_all add: durable_rows_def table_is_durable_def sh)
qed

text \<open>The head a first record brings along.\<close>

definition heads :: "wo_wal \<Rightarrow> stmt list" where
  "heads w = map (\<lambda>p. SHead (tl p)) (head_payload w)"

lemma heads_length [simp]: "length (heads w) \<le> Suc 0"
  by (auto simp: heads_def head_payload_def split: option.splits)

lemma heads_payload: "schema_head_ok w \<Longrightarrow> map (stmt_payload cs) (heads w) = head_payload w"
proof -
  assume s: "schema_head_ok w"
  have "stmt_payload cs (SHead (tl p)) = p" if "schema w = Some p" for p
  proof -
    have "payload_ok p" "hd p = rec_byte RSchema" using s that by (auto simp: schema_head_ok_def)
    moreover have "p \<noteq> []" using \<open>payload_ok p\<close> by (auto simp: payload_ok_def)
    ultimately show ?thesis by (metis stmt_payload.simps(4) list.collapse)
  qed
  then show ?thesis by (auto simp: heads_def head_payload_def split: option.splits)
qed

lemma run_heads: "run_stmts cs (heads w @ ss) S = run_stmts cs ss S"
  by (auto simp: heads_def head_payload_def split: option.splits)

text \<open>Staging and committing leave the schema and the pending lists.\<close>

definition keeps :: "wo_wal \<Rightarrow> wo_wal \<Rightarrow> bool" where
  "keeps w w' \<longleftrightarrow> schema w' = schema w \<and> pend w' = pend w \<and> repoint w' = repoint w"

lemma keeps_refl [simp]: "keeps w w" by (simp add: keeps_def)

lemma keeps_trans: "keeps a b \<Longrightarrow> keeps b c \<Longrightarrow> keeps a c" by (simp add: keeps_def)

lemma keeps_head_ok: "keeps w w' \<Longrightarrow> schema_head_ok w' = schema_head_ok w"
  by (simp add: keeps_def schema_head_ok_def)

lemma stage_agrees:
  assumes mem: "\<forall>s. mem s" and l: "log_agrees db w done todo" and sch: "schema_head_ok w"
    and ok: "stmt_ok db s" and p: "payload_ok (stmt_payload (classes db) s)"
    and sh: "same_shape db db'" and inv: "db_inv db'"
    and run: "run_stmt (classes db) s (durable_rows db) = Some (durable_rows db')"
  shows "\<exists>w'. stage mem w (build mem (stmt_payload (classes db) s)) = (True, w') \<and>
    log_agrees db' w' done (todo @ heads w @ [s]) \<and> keeps w w' \<and>
    length (wbytes w) < length (wbytes w')"
proof -
  let ?cs = "classes db"
  obtain w' where st: "stage mem w (build mem (stmt_payload ?cs s)) = (True, w')"
    using stage_total' [OF mem] by blast
  then have st': "stage mem w (Some (stmt_payload ?cs s)) = (True, w')" using mem by (simp add: build_def)
  note shs = same_shape_simps [OF sh]
  have li: "log_is w (map (stmt_payload ?cs) done) (map (stmt_payload ?cs) todo)" using l by (simp add: log_agrees_def)
  have "log_is w' (map (stmt_payload ?cs) done) (map (stmt_payload ?cs) (todo @ heads w @ [s]))"
    using log_is_stage [OF li st' p] heads_payload [OF sch, of ?cs] by simp
  moreover have "run_stmts ?cs (done @ todo @ heads w @ [s]) (\<lambda>cid. Map.empty) = Some (durable_rows db')"
    using l run by (simp add: log_agrees_def run_stmts_append [of ?cs "done @ todo", simplified] run_heads)
  moreover have "\<forall>x\<in>set (done @ todo @ heads w @ [s]). stmt_ok db' x"
    using l ok by (auto simp: log_agrees_def same_shape_stmt_ok [OF sh] heads_def)
  ultimately have "log_agrees db' w' done (todo @ heads w @ [s])"
    using l inv by (simp add: log_agrees_def shs)
  moreover have "length (wbytes w) < length (wbytes w')" using stage_ok(1) [OF st'] by simp
  moreover have "keeps w w'" using stage_ok [OF st'] by (simp add: keeps_def)
  ultimately show ?thesis using st by blast
qed

lemma agrees_volatile:
  assumes l: "log_agrees db w done todo" and o: "only_table cid db db'" and t: "table_inv db' cid"
    and v: "\<not> table_is_durable db cid"
  shows "log_agrees db' w done todo"
proof -
  have inv: "db_inv db" using l by (simp add: log_agrees_def)
  note sh = only_table_shape [OF o]
  show ?thesis
    using l db_inv_one [OF inv o t] durable_rows_volatile [OF o v]
    by (simp add: log_agrees_def same_shape_simps [OF sh] same_shape_stmt_ok [OF sh])
qed

lemma agrees_same:
  assumes l: "log_agrees db w done todo" and o: "only_table cid db db'" and t: "table_inv db' cid"
    and v: "live_rows db' cid = live_rows db cid"
  shows "log_agrees db' w done todo" and "live_rows db' = live_rows db"
proof -
  have inv: "db_inv db" using l by (simp add: log_agrees_def)
  note sh = only_table_shape [OF o]
  show lr: "live_rows db' = live_rows db" using live_rows_one [OF o] v by simp
  then have "durable_rows db' = durable_rows db"
    by (simp add: fun_eq_iff durable_rows_def same_shape_simps [OF sh])
  then show "log_agrees db' w done todo"
    using l db_inv_one [OF inv o t]
    by (simp add: log_agrees_def same_shape_simps [OF sh] same_shape_stmt_ok [OF sh])
qed

section \<open>The mutating requests\<close>

text \<open>What the request's sender guarantees (the values are of the class's kinds), and the bounds of
  the store and of the log's record size.\<close>

definition req_ok :: "wo_db \<Rightarrow> db_req \<Rightarrow> bool" where
  "req_ok db q \<longleftrightarrow>
     (let cid = r_cid q; cs = classes db; rid = r_id q in
      r_op q \<in> {WO_B_DB_INSERT, WO_B_DB_UPDATE_FIELD, WO_B_DB_DELETE} \<longrightarrow>
      cid < length cs \<and> \<not> wo_table_is_keys_resident db cid \<and>
      (r_op q = WO_B_DB_INSERT \<longrightarrow>
         has_room db cid \<and> vals_ok cs (kinds (class_of db cid)) (r_slots q) \<and>
         payload_ok (row_payload cs RInsert cid (fresh_id db cid) (r_slots q))) \<and>
      (r_op q = WO_B_DB_UPDATE_FIELD \<longrightarrow>
         id_ok db rid \<and>
         (r_field q < field_cnt (class_of db cid) \<longrightarrow>
            val_ok cs (kinds (class_of db cid) ! r_field q) (r_slots q ! 0)) \<and>
         (\<forall>r. live_rows db cid rid = Some r \<longrightarrow>
            payload_ok (row_payload cs RUpdate cid rid ((slots r)[r_field q := r_slots q ! 0])))) \<and>
      (r_op q = WO_B_DB_DELETE \<longrightarrow> id_ok db rid))"

lemma fresh_id_ok:
  assumes "table_inv db cid" and "has_room db cid"
  shows "id_ok db (fresh_id db cid)"
proof -
  have f: "table_fits db cid" using assms by (simp add: table_inv_def)
  have "fresh_id db cid \<noteq> 0"
  proof (cases "row_size (tables db ! cid) = 0")
    case True
    have "shard db + 1 < 2 ^ 64" using f by (simp add: table_fits_def)
    then have "unat (of_nat (shard db + 1) :: u64) = shard db + 1" by (simp add: unat_of_nat del: of_nat_Suc of_nat_add)
    then show ?thesis using True by (metis fresh_id_def Suc_eq_plus1 nat.distinct(1) unsigned_0)
  next
    case False
    then show ?thesis using assms by (simp add: table_inv_def tab_inv_def ids_inv_def fresh_id_def)
  qed
  then show ?thesis
    using next_id_step(5) [of "fresh_id db cid" "nshards db"] assms(2) f
    by (simp add: id_ok_def has_room_def table_fits_def)
qed

text \<open>
  What every mutating request gives: the statements it staged, and on an error nothing.
\<close>

definition exec_result ::
  "wo_db \<Rightarrow> wo_wal \<Rightarrow> stmt list \<Rightarrow> stmt list \<Rightarrow> db_req \<Rightarrow> wo_db \<Rightarrow> wo_wal \<Rightarrow> bool" where
  "exec_result db w done todo q' db' w' \<longleftrightarrow>
     (\<exists>ss. log_agrees db' w' done (todo @ ss) \<and> keeps w w' \<and>
       (ss \<noteq> [] \<longleftrightarrow> length (wbytes w) < length (wbytes w')) \<and> (ss = [] \<longrightarrow> w' = w) \<and>
       length ss \<le> 2 \<and> (r_status q' \<noteq> None \<longrightarrow> live_rows db' = live_rows db \<and> ss = []))"

lemma exec_resultI:
  assumes "log_agrees db' w' done (todo @ ss)" and "keeps w w'"
    and "length (wbytes w) < length (wbytes w')" and "ss \<noteq> []" and "r_status q' = None"
    and "length ss \<le> 2"
  shows "exec_result db w done todo q' db' w'"
  using assms unfolding exec_result_def by blast

lemma exec_result_none:
  assumes "log_agrees db' w done todo" and "r_status q' \<noteq> None \<Longrightarrow> live_rows db' = live_rows db"
  shows "exec_result db w done todo q' db' w"
  using assms unfolding exec_result_def by (intro exI [of _ "[]"]) simp

lemma append_row:
  assumes inv: "table_inv db cid" and r: "live_rows db cid rid = Some r"
  shows "wo_wal_append_insert mem w db cid rid =
      stage mem w (build mem (row_payload (classes db) RInsert cid rid (slots r)))"
    and "wo_wal_append_update mem w db cid rid =
      stage mem w (build mem (row_payload (classes db) RUpdate cid rid (slots r)))"
proof -
  from inv r obtain g where "rows (tables db ! cid) ! g = r" and "wo_row_ptr db cid rid = Some g"
    by (rule live_slot)
  then show "wo_wal_append_insert mem w db cid rid =
      stage mem w (build mem (row_payload (classes db) RInsert cid rid (slots r)))"
    and "wo_wal_append_update mem w db cid rid =
      stage mem w (build mem (row_payload (classes db) RUpdate cid rid (slots r)))"
    by (simp_all add: wo_wal_append_insert_def wo_wal_append_update_def)
qed

lemma next_offset_agrees:
  assumes mem: "\<forall>s. mem s" and l: "log_agrees db w done todo" and sch: "schema_head_ok w"
  obtains koff w1 where "wo_wal_next_offset mem w = Lives (koff, w1)" and "log_agrees db w1 done (todo @ heads w)"
    and "keeps w w1" and "heads w1 = []" and "length (wbytes w) \<le> length (wbytes w1)"
proof -
  have "fst (stage_schema_head mem w)"
    using mem stage_frame_total [of mem "w\<lparr>schema_written := True\<rparr>"]
    by (auto simp: stage_schema_head_def Let_def split: option.splits)
  then obtain w1 where h: "stage_schema_head mem w = (True, w1)" by (metis prod.collapse)
  note h1 = stage_schema_head_ok [OF h]
  let ?cs = "classes db"
  have li: "log_is w (map (stmt_payload ?cs) done) (map (stmt_payload ?cs) todo)" using l by (simp add: log_agrees_def)
  have "log_is w1 (map (stmt_payload ?cs) done) (map (stmt_payload ?cs) (todo @ heads w))"
    using log_is_head [OF li h] heads_payload [OF sch, of ?cs] by simp
  moreover have "run_stmts ?cs (done @ todo @ heads w) (\<lambda>cid. Map.empty) = Some (durable_rows db)"
    using l run_heads [of ?cs w "[]"] by (simp add: log_agrees_def run_stmts_append [of ?cs "done @ todo", simplified])
  moreover have "\<forall>x\<in>set (done @ todo @ heads w). stmt_ok db x" using l by (auto simp: log_agrees_def heads_def)
  ultimately have a: "log_agrees db w1 done (todo @ heads w)" using l by (simp add: log_agrees_def)
  have "frames (head_payload w1) = []" using h1(4) by (simp add: head_bytes_payload)
  then have "heads w1 = []" by (cases "head_payload w1") (simp_all add: heads_def flip: length_0_conv)
  then show thesis using that [OF _ a] h h1 by (simp add: wo_wal_next_offset_def keeps_def)
qed

lemma exec_insert_agrees:
  assumes mem: "\<forall>s. e_mem E s" and l: "log_agrees db w done todo" and sch: "schema_head_ok w"
    and q: "req_ok db q" "r_op q = WO_B_DB_INSERT" "r_status q = None"
  obtains q' db' w' where "exec_insert E db (Some w) q = Lives (q', db', Some w')"
    and "exec_result db w done todo q' db' w'" and "only_table (r_cid q) db db'"
    and "table_inv db' (r_cid q)"
    and "inserted db (r_cid q) (r_slots q)
      (case r_status q' of None \<Rightarrow> Inr (r_result q') | Some e \<Rightarrow> Inl DB_ERR_UNIQUE) db'"
    and "r_status q' \<in> {None, Some WO_T_UNIQUE}"
proof -
  let ?m = "e_mem E" and ?cid = "r_cid q" and ?ds = "r_slots q"
  have c: "?cid < length (classes db)" "\<not> wo_table_is_keys_resident db ?cid" and room: "has_room db ?cid"
    and vs: "vals_ok (classes db) (kinds (class_of db ?cid)) ?ds"
    and p: "payload_ok (row_payload (classes db) RInsert ?cid (fresh_id db ?cid) ?ds)"
    using q by (auto simp: req_ok_def Let_def)
  have t: "table_inv db ?cid" using l c by (auto simp: log_agrees_def db_inv_def)
  obtain x db' where ins: "wo_row_insert_slots ?m (Some w) db ?cid ?ds = (x, db')" by force
  note sp = insert_slots_spec [OF mem t room vs ins]
  then have t': "table_inv db' ?cid" and o: "only_table ?cid db db'" and i: "inserted db ?cid ?ds x db'" by blast+
  note sh = same_shape_simps [OF only_table_shape [OF o]]
  let ?r = "\<lparr>row_id = fresh_id db ?cid, row_class = ?cid, slots = ?ds\<rparr>"
  show thesis
  proof (cases "violates (class_of db ?cid) (live_rows db ?cid) ?r")
    case True
    then have x: "x = Inl DB_ERR_UNIQUE" "live_rows db' ?cid = live_rows db ?cid"
      using i by (simp_all add: inserted_def Let_def)
    note ag = agrees_same [OF l o t' x(2)]
    show thesis
      by (rule that [of "q\<lparr>r_status := Some WO_T_UNIQUE\<rparr>" db' w])
        (use ins x i o t' exec_result_none [OF ag(1)] ag(2) in
          \<open>simp_all add: exec_insert_def Let_def err_trap_def\<close>)
  next
    case False
    then have x: "x = Inr (fresh_id db ?cid)"
      and lv: "live_rows db' ?cid = (live_rows db ?cid)(fresh_id db ?cid \<mapsto> ?r)"
      and new: "live_rows db ?cid (fresh_id db ?cid) = None"
      using i by (simp_all add: inserted_def Let_def)
    let ?q' = "q\<lparr>r_result := fresh_id db ?cid\<rparr>"
    show thesis
    proof (cases "table_is_durable db' ?cid")
      case nd: False
      then have "\<not> table_is_durable db ?cid" by (simp add: table_is_durable_def sh)
      note ag = agrees_volatile [OF l o t' this]
      show thesis
        by (rule that [of ?q' db' w])
          (use ins x i o t' nd q(3) exec_result_none [OF ag, of ?q'] in \<open>simp_all add: exec_insert_def Let_def\<close>)
    next
      case dur: True
      then have dur': "table_is_durable db ?cid" by (simp add: table_is_durable_def sh)
      obtain koff w1 where n: "wo_wal_next_offset ?m w = Lives (koff, w1)"
        and l1: "log_agrees db w1 done (todo @ heads w)" and s1: "keeps w w1" "heads w1 = []"
        and len1: "length (wbytes w) \<le> length (wbytes w1)"
        by (rule next_offset_agrees [OF mem l sch])
      let ?s = "SInsert ?cid (fresh_id db ?cid) ?ds"
      have r': "live_rows db' ?cid (fresh_id db ?cid) = Some ?r" using lv by simp
      have ok: "stmt_ok db ?s" using fresh_id_ok [OF t room] vs c dur' by (simp add: durable_class_ok)
      have row: "row_of ?cid (fresh_id db ?cid) ?ds = ?r" by (simp add: row_of_def)
      have dc: "durable_rows db ?cid = live_rows db ?cid" using dur' by (simp add: durable_rows_def table_is_durable_def)
      have run: "run_stmt (classes db) ?s (durable_rows db) = Some (durable_rows db')"
        using new False durable_rows_one [OF o dur'] lv by (simp add: dc row class_of_def)
      have inv': "db_inv db'" using l db_inv_one [OF _ o t'] by (simp add: log_agrees_def)
      have p': "payload_ok (stmt_payload (classes db) ?s)" using p by simp
      have sch1: "schema_head_ok w1" using sch s1 by (simp add: keeps_head_ok)
      from stage_agrees [OF mem l1 sch1 ok p' only_table_shape [OF o] inv' run] s1(2) obtain w2 where
        st: "stage ?m w1 (build ?m (stmt_payload (classes db) ?s)) = (True, w2)"
        and l2: "log_agrees db' w2 done (todo @ heads w @ [?s])" and s2: "keeps w1 w2"
        and len2: "length (wbytes w1) < length (wbytes w2)" by auto
      have ap: "wo_wal_append_insert ?m w1 db' ?cid (fresh_id db ?cid) = (True, w2)"
        using append_row(1) [OF t' r', of ?m w1] st by (simp add: sh)
      have "exec_insert E db (Some w) q = Lives (?q', db', Some w2)"
        using ins x dur n ap c by (simp add: exec_insert_def Let_def sh)
      moreover have "exec_result db w done todo ?q' db' w2"
        by (rule exec_resultI [OF l2]) (use keeps_trans [OF s1(1) s2] len1 len2 q(3) in simp_all)
      ultimately show thesis using that [of ?q' db' w2] o t' i x q(3) by simp
    qed
  qed
qed

text \<open>The answer to an update: an unknown field or row, another row with the new key, or none.\<close>

definition update_refusal :: "wo_db \<Rightarrow> db_req \<Rightarrow> trap option" where
  "update_refusal db q =
     (if field_cnt (class_of db (r_cid q)) \<le> r_field q then Some WO_T_DB
      else
        (case live_rows db (r_cid q) (r_id q) of
           None \<Rightarrow> Some WO_T_DB
         | Some r \<Rightarrow>
             if violates (class_of db (r_cid q)) ((live_rows db (r_cid q))(r_id q := None))
                  (r\<lparr>slots := (slots r)[r_field q := r_slots q ! 0]\<rparr>)
             then Some WO_T_UNIQUE else None))"

lemma exec_update_agrees:
  assumes mem: "\<forall>s. e_mem E s" and l: "log_agrees db w done todo" and sch: "schema_head_ok w"
    and q: "req_ok db q" "r_op q = WO_B_DB_UPDATE_FIELD" "r_status q = None"
  obtains q' db' w' where "exec_update E db (Some w) q = Lives (q', db', Some w')"
    and "exec_result db w done todo q' db' w'" and "only_table (r_cid q) db db'"
    and "r_status q' = None \<Longrightarrow> r_field q < field_cnt (class_of db (r_cid q)) \<and>
      (\<exists>r. live_rows db (r_cid q) (r_id q) = Some r \<and>
        live_rows db' (r_cid q) = (live_rows db (r_cid q))
          (r_id q \<mapsto> r\<lparr>slots := (slots r)[r_field q := r_slots q ! 0]\<rparr>))"
    and "r_status q' = update_refusal db q"
proof -
  let ?m = "e_mem E" and ?cid = "r_cid q" and ?rid = "r_id q" and ?v = "r_slots q ! 0"
  have c: "?cid < length (classes db)" "\<not> wo_table_is_keys_resident db ?cid" and id: "id_ok db ?rid"
    and v: "r_field q < field_cnt (class_of db ?cid) \<Longrightarrow>
      val_ok (classes db) (kinds (class_of db ?cid) ! r_field q) ?v"
    and p: "\<And>r. live_rows db ?cid ?rid = Some r \<Longrightarrow>
      payload_ok (row_payload (classes db) RUpdate ?cid ?rid ((slots r)[r_field q := ?v]))"
    using q by (auto simp: req_ok_def Let_def)
  have inv: "db_inv db" using l by (simp add: log_agrees_def)
  have t: "table_inv db ?cid" using inv c by (simp add: db_inv_def)
  have live: "h_live ?rid" using id by (simp add: id_ok_def)
  obtain e db' where up: "wo_row_update_field_slot ?m (Some w) db ?cid ?rid (r_field q) ?v = Lives (e, db', Some w)"
    and t': "table_inv db' ?cid" and o: "only_table ?cid db db'"
    and ef: "if r_field q < field_cnt (class_of db ?cid) \<and> live_rows db ?cid ?rid \<noteq> None
         then updated db ?cid (the (live_rows db ?cid ?rid)) (r_field q) ?v e db'
         else e = DB_ERR_MISC \<and> db' = db"
    by (rule update_field_slot_spec [OF mem t live v])
  note sh = same_shape_simps [OF only_table_shape [OF o]]
  show thesis
  proof (cases "e = DB_ERR_NONE")
    case False
    then have db': "db' = db"
      using ef by (auto simp: updated_def Let_def split: if_splits)
    have ref: "update_refusal db q = Some (err_trap e)"
    proof (cases "r_field q < field_cnt (class_of db ?cid) \<and> live_rows db ?cid ?rid \<noteq> None")
      case there: True
      then obtain r where r: "live_rows db ?cid ?rid = Some r" by auto
      have "row_id r = ?rid" using live_self [OF inv r] by (metis row_of_def db_row.select_convs(1))
      then show ?thesis
        using ef there r False by (auto simp: updated_def update_refusal_def err_trap_def Let_def split: if_splits)
    next
      case there: False
      then have "e = DB_ERR_MISC" using ef by (simp split: if_splits)
      then show ?thesis using there by (auto simp: update_refusal_def err_trap_def)
    qed
    have "exec_update E db (Some w) q = Lives (q\<lparr>r_status := Some (err_trap e)\<rparr>, db, Some w)"
      using up False c db' by (simp add: exec_update_def Let_def)
    moreover have "exec_result db w done todo (q\<lparr>r_status := Some (err_trap e)\<rparr>) db w"
      by (rule exec_result_none [OF l]) simp
    ultimately show thesis using that [of "q\<lparr>r_status := Some (err_trap e)\<rparr>" db w] ref by simp
  next
    case True
    then have f: "r_field q < field_cnt (class_of db ?cid)" and "live_rows db ?cid ?rid \<noteq> None"
      using ef by (auto split: if_splits)
    then obtain r where r: "live_rows db ?cid ?rid = Some r" by auto
    let ?n = "r\<lparr>slots := (slots r)[r_field q := ?v]\<rparr>"
    have u: "updated db ?cid r (r_field q) ?v e db'" using ef f r by simp
    note self = live_self [OF inv r]
    have rid: "row_id r = ?rid" using self by (metis row_of_def db_row.select_convs(1))
    have nv: "\<not> violates (class_of db ?cid) ((live_rows db ?cid)(?rid := None)) ?n"
      and lv: "live_rows db' ?cid = (live_rows db ?cid)(?rid \<mapsto> ?n)"
      using u True rid by (auto simp: updated_def Let_def split: if_splits)
    have eff: "r_field q < field_cnt (class_of db ?cid) \<and>
      (\<exists>r. live_rows db ?cid ?rid = Some r \<and> live_rows db' ?cid = (live_rows db ?cid)
          (?rid \<mapsto> r\<lparr>slots := (slots r)[r_field q := ?v]\<rparr>))" using f r lv by blast
    have ref: "update_refusal db q = None" using f r nv by (simp add: update_refusal_def)
    show thesis
    proof (cases "table_is_durable db' ?cid")
      case nd: False
      then have "\<not> table_is_durable db ?cid" by (simp add: table_is_durable_def sh)
      note ag = agrees_volatile [OF l o t' this]
      have "exec_update E db (Some w) q = Lives (q, db', Some w)"
        using up True c nd by (simp add: exec_update_def Let_def)
      then show thesis using that [of q db' w] exec_result_none [OF ag, of q] q(3) o eff ref by simp
    next
      case dur: True
      then have dur': "table_is_durable db ?cid" by (simp add: table_is_durable_def sh)
      let ?s = "SUpdate ?cid ?rid ((slots r)[r_field q := ?v])"
      have ok: "stmt_ok db ?s"
        using self id c dur' f v by (auto simp: durable_class_ok intro!: vals_ok_update)
      have row: "row_of ?cid ?rid ((slots r)[r_field q := ?v]) = ?n"
        using self by (cases r) (simp add: row_of_def)
      have dc: "durable_rows db ?cid = live_rows db ?cid" using dur' by (simp add: durable_rows_def table_is_durable_def)
      have run: "run_stmt (classes db) ?s (durable_rows db) = Some (durable_rows db')"
        using r nv durable_rows_one [OF o dur'] lv by (simp add: dc row class_of_def)
      have inv': "db_inv db'" by (rule db_inv_one [OF inv o t'])
      have p': "payload_ok (stmt_payload (classes db) ?s)" using p [OF r] by simp
      from stage_agrees [OF mem l sch ok p' only_table_shape [OF o] inv' run] obtain w2 where
        st: "stage ?m w (build ?m (stmt_payload (classes db) ?s)) = (True, w2)"
        and l2: "log_agrees db' w2 done (todo @ heads w @ [?s])" and s2: "keeps w w2"
        and len2: "length (wbytes w) < length (wbytes w2)" by auto
      have r': "live_rows db' ?cid ?rid = Some ?n" using lv by simp
      have ap: "wo_wal_append_update ?m w db' ?cid ?rid = (True, w2)"
        using append_row(2) [OF t' r', of ?m w] st by (simp add: sh)
      have "exec_update E db (Some w) q = Lives (q, db', Some w2)"
        using up True c dur ap by (simp add: exec_update_def Let_def)
      moreover have "exec_result db w done todo q db' w2"
        by (rule exec_resultI [OF l2]) (use s2 len2 q(3) in simp_all)
      ultimately show thesis using that [of q db' w2] o eff ref q(3) by simp
    qed
  qed
qed

section \<open>References\<close>

text \<open>
  A row is referred to when a live row of any class has its id in a column declared as a reference to the row's
  class. The walk of the code looks at slots; a \<open>resident: keys\<close> table occupies none, so its rows are never
  found.
\<close>

definition referred :: "wo_db \<Rightarrow> nat \<Rightarrow> u64 \<Rightarrow> bool" where
  "referred db cid rid \<longleftrightarrow> rid \<noteq> 0 \<and>
     (\<exists>c j r fc i. live_rows db c j = Some r \<and> field_class (class_of db c) = Some fc \<and> i < field_cnt (class_of db c) \<and>
        kinds (class_of db c) ! i = KScalar \<and> unat (fc ! i) = cid \<and> slot_word (slots r ! i) = rid)"

definition keys_unslotted :: "wo_db \<Rightarrow> bool" where
  "keys_unslotted db \<longleftrightarrow>
     (\<forall>c<length (tables db). wo_table_is_keys_resident db c \<longrightarrow> (\<forall>g<length (rows (tables db ! c)). \<not> bitmap (tables db ! c) ! g))"

lemma slot_live:
  assumes inv: "db_inv db" and c: "c < length (tables db)" "\<not> wo_table_is_keys_resident db c" "row_size (tables db ! c) \<noteq> 0"
    and g: "g < length (rows (tables db ! c))" "bitmap (tables db ! c) ! g"
  shows "live_rows db c (row_id (rows (tables db ! c) ! g)) = Some (rows (tables db ! c) ! g)"
proof -
  have t: "table_fits db c" "tab_inv db c (tables db ! c)" using inv c by (auto simp: db_inv_def table_inv_def)
  then have "slots_inv (classes db) (class_of db c) c (tables db ! c)" by (simp add: tab_inv_def)
  from row_at_slot [OF this g] show ?thesis using live_row_at [OF t] by simp
qed

lemma referrers_iff:
  assumes inv: "db_inv db" and ku: "keys_unslotted db" and cid: "cid < 2 ^ 32"
  shows "wo_row_has_referrers db cid rid \<longleftrightarrow> referred db cid rid"
proof -
  have u: "x = of_nat cid \<longleftrightarrow> unat x = cid" for x :: u32 
  proof -
    have "unat (of_nat cid :: u32) = cid" using cid by (simp add: unat_of_nat)
    then show ?thesis by (simp add: word_unat_eq_iff)
  qed
  show ?thesis
  proof
    assume "wo_row_has_referrers db cid rid"
    then obtain c fc i g where x: "rid \<noteq> 0" "c < length (tables db)" "row_size (tables db ! c) \<noteq> 0"
      "field_class (class_of db c) = Some fc" "i < field_cnt (class_of db c)" "kinds (class_of db c) ! i = KScalar" "fc ! i = of_nat cid"
      "g < length (rows (tables db ! c))" "bitmap (tables db ! c) ! g" "slot_word (slots (rows (tables db ! c) ! g) ! i) = rid"
      by (auto simp: wo_row_has_referrers_def list_ex_iff Let_def split: option.splits)
    have "\<not> wo_table_is_keys_resident db c" using ku x(2,8,9) by (auto simp: keys_unslotted_def)
    from slot_live [OF inv x(2) this x(3,8,9)] show "referred db cid rid"
      using x u unfolding referred_def by blast
  next
    assume "referred db cid rid"
    then obtain c j r fc i where x: "rid \<noteq> 0" "live_rows db c j = Some r" "field_class (class_of db c) = Some fc"
      "i < field_cnt (class_of db c)" "kinds (class_of db c) ! i = KScalar" "unat (fc ! i) = cid" "slot_word (slots r ! i) = rid"
      unfolding referred_def by blast
    have c: "c < length (tables db)" "\<not> wo_table_is_keys_resident db c" "row_size (tables db ! c) \<noteq> 0"
      using x(2) by (auto simp: live_rows_def split: if_splits)
    then have "table_inv db c" using inv by (simp add: db_inv_def)
    then obtain g where "g < length (rows (tables db ! c))" "bitmap (tables db ! c) ! g" "rows (tables db ! c) ! g = r"
      by (rule live_slot [OF _ x(2)])
    then have 1: "list_ex (\<lambda>g. bitmap (tables db ! c) ! g \<and> slot_word (slots (rows (tables db ! c) ! g) ! i) = rid)
        [0..<length (rows (tables db ! c))]" using x(7) by (auto simp: list_ex_iff)
    have 2: "list_ex (\<lambda>fld. kinds (class_of db c) ! fld = KScalar \<and> fc ! fld = of_nat cid \<and>
        list_ex (\<lambda>g. bitmap (tables db ! c) ! g \<and> slot_word (slots (rows (tables db ! c) ! g) ! fld) = rid)
          [0..<length (rows (tables db ! c))]) [0..<field_cnt (class_of db c)]"
      unfolding list_ex_iff [of _ "[0..<field_cnt (class_of db c)]"] using 1 x u by (intro bexI [of _ i]) simp_all
    show "wo_row_has_referrers db cid rid"
      unfolding wo_row_has_referrers_def Let_def list_ex_iff [of _ "[0..<length (tables db)]"]
      using 2 x c by (intro conjI bexI [of _ c]) simp_all
  qed
qed

lemma exec_delete_agrees:
  assumes mem: "\<forall>s. e_mem E s" and l: "log_agrees db w done todo" and sch: "schema_head_ok w"
    and q: "req_ok db q" "r_op q = WO_B_DB_DELETE" "r_status q = None"
  obtains q' db' w' where "exec_delete E db (Some w) q = Lives (q', db', Some w')"
    and "exec_result db w done todo q' db' w'" and "only_table (r_cid q) db db'"
    and "r_status q' = (if wo_row_has_referrers db (r_cid q) (r_id q) then Some WO_T_FK
      else if live_rows db (r_cid q) (r_id q) = None then Some WO_T_DB else None)"
    and "r_status q' = None \<Longrightarrow> live_rows db' (r_cid q) = (live_rows db (r_cid q))(r_id q := None)"
proof -
  let ?m = "e_mem E" and ?cid = "r_cid q" and ?rid = "r_id q"
  have c: "?cid < length (classes db)" "\<not> wo_table_is_keys_resident db ?cid" and id: "id_ok db ?rid"
    using q by (auto simp: req_ok_def Let_def)
  have inv: "db_inv db" using l by (simp add: log_agrees_def)
  have t: "table_inv db ?cid" using inv c by (simp add: db_inv_def)
  have live: "h_live ?rid" using id by (simp add: id_ok_def)
  obtain b db' where rm: "wo_row_remove ?m (Some w) db ?cid ?rid = (b, db')" by force
  note sp = remove_spec [OF t live rm]
  then have t': "table_inv db' ?cid" and o: "only_table ?cid db db'" and b: "b \<longleftrightarrow> live_rows db ?cid ?rid \<noteq> None"
    and lv: "live_rows db' ?cid = (live_rows db ?cid)(?rid := None)" by blast+
  note sh = same_shape_simps [OF only_table_shape [OF o]]
  show thesis
  proof (cases "wo_row_has_referrers db ?cid ?rid")
    case True
    then show thesis
      using that [of "q\<lparr>r_status := Some WO_T_FK\<rparr>" db w] exec_result_none [OF l]
      by (simp add: exec_delete_def Let_def)
  next
    case nr: False
    show thesis
    proof (cases b)
      case False
      then have none: "live_rows db ?cid ?rid = None" using b by simp
      then have same: "live_rows db' ?cid = live_rows db ?cid" using lv by (simp add: fun_upd_idem)
      note ag = agrees_same [OF l o t' same]
      have "exec_delete E db (Some w) q = Lives (q\<lparr>r_status := Some WO_T_DB\<rparr>, db', Some w)"
        using rm nr False by (simp add: exec_delete_def Let_def)
      then show thesis
        using that [of "q\<lparr>r_status := Some WO_T_DB\<rparr>" db' w] exec_result_none [OF ag(1)] ag(2) nr none o by simp
    next
      case b1: True
      then have there: "live_rows db ?cid ?rid \<noteq> None" using b by simp
      show thesis
      proof (cases "table_is_durable db' ?cid")
        case nd: False
        then have "\<not> table_is_durable db ?cid" by (simp add: table_is_durable_def sh)
        note ag = agrees_volatile [OF l o t' this]
        have "exec_delete E db (Some w) q = Lives (q, db', Some w)"
          using rm nr b1 nd by (simp add: exec_delete_def Let_def)
        then show thesis using that [of q db' w] exec_result_none [OF ag, of q] q(3) o there lv nr by simp
      next
        case dur: True
        then have dur': "table_is_durable db ?cid" by (simp add: table_is_durable_def sh)
        let ?s = "SRemove ?cid ?rid"
        have ok: "stmt_ok db ?s" using id c dur' by (simp add: durable_class_ok)
        have dc: "durable_rows db ?cid = live_rows db ?cid" using dur' by (simp add: durable_rows_def table_is_durable_def)
        have run: "run_stmt (classes db) ?s (durable_rows db) = Some (durable_rows db')"
          using there durable_rows_one [OF o dur'] lv by (simp add: dc)
        have p': "payload_ok (stmt_payload (classes db) ?s)" by (simp add: payload_ok_def WAL_MAX_PAYLOAD_def)
        from stage_agrees [OF mem l sch ok p' only_table_shape [OF o] db_inv_one [OF inv o t'] run] obtain w2 where
          st: "stage ?m w (build ?m (stmt_payload (classes db) ?s)) = (True, w2)"
          and l2: "log_agrees db' w2 done (todo @ heads w @ [?s])" and s2: "keeps w w2"
          and len2: "length (wbytes w) < length (wbytes w2)" by auto
        have "exec_delete E db (Some w) q = Lives (q, db', Some w2)"
          using rm nr b1 dur st by (simp add: exec_delete_def Let_def wo_wal_append_remove_def)
        moreover have "exec_result db w done todo q db' w2"
          by (rule exec_resultI [OF l2]) (use s2 len2 q(3) in simp_all)
        ultimately show thesis using that [of q db' w2] o there lv nr q(3) by simp
      qed
    qed
  qed
qed

section \<open>Any request\<close>

lemma exec_req_agrees:
  assumes mem: "\<forall>s. e_mem E s" and l: "log_agrees db w done todo" and sch: "schema_head_ok w"
    and q: "req_ok db q"
  obtains q' db' w' where "wo_db_exec_req E (Some db) (Some w) q = Lives (q', Some db', Some w')"
    and "exec_result db w done todo q' db' w'" and "same_shape db db'"
proof -
  note found = that
  let ?q = "q\<lparr>r_status := None\<rparr>"
  have q0: "req_ok db ?q" "r_status ?q = None" using q by (simp_all add: req_ok_def Let_def)
  have clr: "exec_result db w done todo (q'\<lparr>r_slots := []\<rparr>) db' w'"
    if "exec_result db w done todo q' db' w'" for q' db' w'
    using that by (simp add: exec_result_def)
  have read: thesis if "wo_db_exec_req E (Some db) (Some w) q = Lives (q', Some db, Some w)" for q'
  proof (rule found)
    show "wo_db_exec_req E (Some db) (Some w) q = Lives (q', Some db, Some w)" by fact
    show "exec_result db w done todo q' db w" by (rule exec_result_none [OF l]) simp
    show "same_shape db db" by (simp add: same_shape_def)
  qed
  show thesis
  proof (cases "r_op q")
    case WO_B_DB_INSERT
    have op: "r_op ?q = WO_B_DB_INSERT" using WO_B_DB_INSERT by simp
    obtain q' db' w' where x: "exec_insert E db (Some w) ?q = Lives (q', db', Some w')"
      and r: "exec_result db w done todo q' db' w'" and o: "only_table (r_cid ?q) db db'"
      by (rule exec_insert_agrees [OF mem l sch q0(1) op q0(2)])
    show thesis
      by (rule that [OF _ clr [OF r] only_table_shape [OF o]]) (simp add: wo_db_exec_req_def Let_def op [simplified] x)
  next
    case WO_B_DB_UPDATE_FIELD
    have op: "r_op ?q = WO_B_DB_UPDATE_FIELD" using WO_B_DB_UPDATE_FIELD by simp
    obtain q' db' w' where x: "exec_update E db (Some w) ?q = Lives (q', db', Some w')"
      and r: "exec_result db w done todo q' db' w'" and o: "only_table (r_cid ?q) db db'"
      by (rule exec_update_agrees [OF mem l sch q0(1) op q0(2)])
    show thesis
      by (rule that [OF _ clr [OF r] only_table_shape [OF o]]) (simp add: wo_db_exec_req_def Let_def op [simplified] x)
  next
    case WO_B_DB_DELETE
    have op: "r_op ?q = WO_B_DB_DELETE" using WO_B_DB_DELETE by simp
    obtain q' db' w' where x: "exec_delete E db (Some w) ?q = Lives (q', db', Some w')"
      and r: "exec_result db w done todo q' db' w'" and o: "only_table (r_cid ?q) db db'"
      by (rule exec_delete_agrees [OF mem l sch q0(1) op q0(2)])
    show thesis
      by (rule that [OF _ clr [OF r] only_table_shape [OF o]]) (simp add: wo_db_exec_req_def Let_def op [simplified] x)
  qed (rule read; simp add: wo_db_exec_req_def Let_def)+
qed

section \<open>A whole drain\<close>

fun reqs_ok :: "env \<Rightarrow> wo_db \<Rightarrow> wo_wal \<Rightarrow> db_req list \<Rightarrow> bool" where
  "reqs_ok E db w [] = True"
| "reqs_ok E db w (q # qs) =
     (req_ok db q \<and>
      (case wo_db_exec_req E (Some db) (Some w) q of
         Lives (q', Some db', Some w') \<Rightarrow> reqs_ok E db' w' qs
       | _ \<Rightarrow> True))"

text \<open>Memory for every reply.\<close>

definition all_replies :: "env \<Rightarrow> bool" where
  "all_replies E \<longleftrightarrow> (\<forall>q. e_reply E q)"

lemma drain_reqs_agrees:
  assumes mem: "\<forall>s. e_mem E s"
  shows "log_agrees db w done todo \<Longrightarrow> schema_head_ok w \<Longrightarrow> reqs_ok E db w qs \<Longrightarrow>
    \<exists>sent held n' db' w' ss. drain_reqs E (Some db) (Some w) qs n = Lives (sent, held, n', Some db', Some w') \<and>
      log_agrees db' w' done (todo @ ss) \<and> keeps w w' \<and> n \<le> n' \<and> (n' = n \<longleftrightarrow> ss = []) \<and>
      (ss = [] \<longrightarrow> held = [] \<and> w' = w) \<and> length ss \<le> 2 * length qs \<and> same_shape db db' \<and>
      (all_replies E \<longrightarrow> length sent + length held = length qs \<and> n' = n + length held)"
proof (induction qs arbitrary: db w todo n)
  case Nil
  then show ?case by (auto simp: same_shape_def intro!: exI [of _ "[]"])
next
  case (Cons q qs)
  have q: "req_ok db q" using Cons.prems(3) by simp
  obtain q' db1 w1 where x: "wo_db_exec_req E (Some db) (Some w) q = Lives (q', Some db1, Some w1)"
    and r: "exec_result db w done todo q' db1 w1" and sh: "same_shape db db1"
    by (rule exec_req_agrees [OF mem Cons.prems(1,2) q])
  then obtain s1 where s1: "log_agrees db1 w1 done (todo @ s1)" "keeps w w1"
    "s1 \<noteq> [] \<longleftrightarrow> length (wbytes w) < length (wbytes w1)" "s1 = [] \<longrightarrow> w1 = w" "length s1 \<le> 2"
    unfolding exec_result_def by blast
  have sch1: "schema_head_ok w1" using Cons.prems(2) s1(2) by (simp add: keeps_head_ok)
  have rest: "reqs_ok E db1 w1 qs" using Cons.prems(3) x by simp
  let ?st = "length (wbytes w) < length (wbytes w1)"
  obtain sent held n' db' w' ss where d: "drain_reqs E (Some db1) (Some w1) qs (if ?st then n + 1 else n) =
      Lives (sent, held, n', Some db', Some w')"
    and l': "log_agrees db' w' done ((todo @ s1) @ ss)" and k: "keeps w1 w'"
    and n': "(if ?st then n + 1 else n) \<le> n'" "n' = (if ?st then n + 1 else n) \<longleftrightarrow> ss = []"
    and w': "ss = [] \<longrightarrow> held = [] \<and> w' = w1" and ls: "length ss \<le> 2 * length qs" and sh': "same_shape db1 db'" 
    and len: "all_replies E \<longrightarrow> length sent + length held = length qs \<and> n' = (if ?st then n + 1 else n) + length held"
    using Cons.IH [OF s1(1) sch1 rest] by blast
  let ?re = "if e_reply E q' then [q'] else []"
  have "drain_reqs E (Some db) (Some w) (q # qs) n =
      Lives (if ?st then sent else ?re @ sent, if ?st then ?re @ held else held, n', Some db', Some w')"
    using x d by (simp add: staged_bytes_def Let_def)
  moreover have "log_agrees db' w' done (todo @ (s1 @ ss))" using l' by simp
  ultimately show ?case
  proof (intro exI conjI)
    show "keeps w w'" by (rule keeps_trans [OF s1(2) k])
    show "n \<le> n'" using n'(1) by (simp split: if_splits)
    show "(n' = n) = (s1 @ ss = [])" using s1(3) n' by (auto split: if_splits)
    show "s1 @ ss = [] \<longrightarrow> (if ?st then ?re @ held else held) = [] \<and> w' = w" using w' s1(3,4) by auto
    show "length (s1 @ ss) \<le> 2 * length (q # qs)" using ls s1(5) by simp
    show "same_shape db db'" by (rule same_shape_trans [OF sh sh'])
    show "all_replies E \<longrightarrow> length (if ?st then sent else ?re @ sent) + length (if ?st then ?re @ held else held) = length (q # qs) \<and>
        n' = n + length (if ?st then ?re @ held else held)"
      using len by (auto simp: all_replies_def)
  qed
qed

lemma commit_agrees:
  assumes l: "log_agrees db w done todo" and c: "wo_wal_commit_fatal io w n = Lives w'"
  shows "log_agrees db w' (done @ todo) []" and "keeps w w'"
proof -
  obtain w1 where c1: "wo_wal_commit io w = (CommitOk, w1)"
    and eq: "fbytes w' = fbytes w1" "woff w' = woff w1" "wbytes w' = wbytes w1" "schema w' = schema w1"
      "pend w' = pend w1" "repoint w' = repoint w1"
    using c by (auto simp: wo_wal_commit_fatal_def split: prod.splits commit_res.splits if_splits)
  have li: "log_is w (map (stmt_payload (classes db)) done) (map (stmt_payload (classes db)) todo)"
    using l by (simp add: log_agrees_def)
  note k = commit_ok [OF li c1]
  show "log_agrees db w' (done @ todo) []"
    using l k(1) eq by (simp add: log_agrees_def log_is_def)
  show "keeps w w'" using k eq by (simp add: keeps_def)
qed

lemma same_shape_fresh: "same_shape db db' \<Longrightarrow> fresh_db db' = fresh_db db"
  by (simp add: same_shape_def fresh_db_def)

lemma commit_crash:
  assumes mem: "\<forall>s. mem s" and l: "log_agrees db w done todo" and c: "wo_wal_commit_fatal io w n = Dies f"
    and sh: "shard db < nshards db" "nshards db < 2 ^ 32"
    and room: "length (done @ todo) * DB_SLAB_ROWS < 2 ^ 32"
  shows "\<exists>k S db'. length done \<le> k \<and> k \<le> length done + length todo \<and>
    run_stmts (classes db) (take k (done @ todo)) (\<lambda>cid. Map.empty) = Some S \<and>
    wo_wal_replay_ex mem rt (Some f) (fresh_db db) = (Replayed (row_records (take k (done @ todo))), db') \<and>
    db_inv db' \<and> live_rows db' = S"
proof -
  have li: "log_is w (map (stmt_payload (classes db)) done) (map (stmt_payload (classes db)) todo)"
    using l by (simp add: log_agrees_def)
  obtain k where k: "wal_records mem f 0 =
      with_offsets 0 (map (stmt_payload (classes db)) done @ take k (map (stmt_payload (classes db)) todo))"
    and kl: "k \<le> length todo"
    using commit_dies [where mem = mem, OF li c] mem by auto
  have "map (stmt_payload (classes db)) done @ take k (map (stmt_payload (classes db)) todo) =
      map (stmt_payload (classes db)) (take (length done + k) (done @ todo))"
    by (simp add: take_map)
  from recover_prefix [OF mem l k [unfolded this] sh room] show ?thesis
    using kl by (intro exI [of _ "length done + k"]) auto
qed

text \<open>
  A drain that returns: every statement it staged is in the log before any held reply leaves.
\<close>

lemma drain_agrees:
  assumes mem: "\<forall>s. e_mem E s" and l: "log_agrees db w done []" and sch: "schema_head_ok w"
    and ok: "reqs_ok E db w qs" and nop: "pend w = []" "repoint w = []"
    and d: "drain E (Some db) (Some w) qs = Lives (sent, held, dbo', wo')"
  shows "\<exists>db1 w1 ss. log_agrees db1 w1 (done @ ss) [] \<and> schema_head_ok w1 \<and> schema w1 = schema w \<and> same_shape db db1 \<and>
    (ss = [] \<longrightarrow> held = []) \<and> (all_replies E \<longrightarrow> length sent + length held = length qs \<and> (held = [] \<longrightarrow> ss = [])) \<and>
    (if ss = [] then w1 = w \<and> dbo' = Some db1 \<and> wo' = Some w1
     else \<exists>db' w'. maybe_compact E db1 w1 = Lives (db', w') \<and> dbo' = Some db' \<and> wo' = Some w')"
proof -
  obtain s1 h1 n1 db1 w1 ss where dr: "drain_reqs E (Some db) (Some w) qs 0 = Lives (s1, h1, n1, Some db1, Some w1)"
    and l1: "log_agrees db1 w1 done ([] @ ss)" and k1: "keeps w w1" and n1: "n1 = 0 \<longleftrightarrow> ss = []"
    and w1: "ss = [] \<longrightarrow> h1 = [] \<and> w1 = w" and sh: "same_shape db db1"
    and len: "all_replies E \<longrightarrow> length s1 + length h1 = length qs \<and> n1 = 0 + length h1"
    using drain_reqs_agrees [OF mem l sch ok, of 0] by blast
  have sch1: "schema_head_ok w1" using sch keeps_head_ok [OF k1] by simp
  show ?thesis
  proof (cases n1)
    case 0
    then have "h1 = []" "ss = []" "w1 = w" using n1 w1 by auto
    then show ?thesis
      using d dr 0 l1 k1 sch1 sh len by (intro exI [of _ db1] exI [of _ w1] exI [of _ "[]"]) (simp add: drain_def)
  next
    case (Suc m)
    then have ne: "ss \<noteq> []" using n1 by auto
    obtain w2 where c: "wo_wal_commit_fatal (e_io E) w1 n1 = Lives w2"
      using d dr Suc by (auto simp: drain_def split: outcome.splits)
    note cm = commit_agrees [OF l1 c]
    have p2: "pend w2 = []" "repoint w2 = []" using cm(2) k1 nop by (simp_all add: keeps_def)
    then have fl: "wo_db_flush_drops (e_mem E) db1 w2 = (db1, w2)"
      by (simp add: wo_db_flush_drops_def)
    have "\<exists>db' w'. maybe_compact E db1 w2 = Lives (db', w') \<and> dbo' = Some db' \<and> wo' = Some w' \<and>
        sent = s1 \<and> held = h1"
      using d dr Suc c fl by (auto simp: drain_def split: outcome.splits)
    moreover have "log_agrees db1 w2 (done @ ss) []" using cm(1) by simp
    ultimately show ?thesis
      using keeps_head_ok [OF cm(2)] cm(2) k1 sch1 sh len ne Suc unfolding keeps_def
      by (intro exI [of _ db1] exI [of _ w2] exI [of _ ss]) auto
  qed
qed

text \<open>
  And when all classes are durable with their rows in memory, also a checkpoint that follows keeps log and
  store in agreement, whatever its device does.
\<close>

definition all_durable :: "wo_db \<Rightarrow> bool" where
  "all_durable db \<longleftrightarrow> (\<forall>cid<length (classes db). table_is_durable db cid \<and> \<not> wo_table_is_keys_resident db cid)"

lemma all_durable_rows:
  assumes "db_inv db" "all_durable db"
  shows "rows_in_memory db" and "live_rows db = durable_rows db"
proof -
  have len: "length (tables db) = length (classes db)" using assms(1) by (simp add: db_inv_def)
  then show "rows_in_memory db" using assms(2) by (simp add: rows_in_memory_def all_durable_def)
  show "live_rows db = durable_rows db"
  proof
    fix cid
    show "live_rows db cid = durable_rows db cid"
      using assms(2) len by (auto simp: durable_rows_def all_durable_def table_is_durable_def live_rows_def fun_eq_iff)
  qed
qed

lemma checkpoint_keeps:
  assumes mem: "\<forall>s. e_mem E s" and l: "log_agrees db w done []" and sch: "schema_head_ok w" and dur: "all_durable db"
  shows "\<exists>w'. maybe_compact E db w = Lives (db, w') \<and>
    (w' = w \<or> log_agrees db w' (head_stmts (schema w) @ dump db [0..<length (tables db)]) [])"
proof (cases "wo_wal_should_compact (of_nat (woff w)) (of_nat (compacted_bytes w)) (ckpt_floor E) (ckpt_ratio E)")
  case True
  have inv: "db_inv db" using l by (simp add: log_agrees_def)
  note lv = all_durable_rows [OF inv dur]
  note pay = dump_payload [OF l lv]
  obtain k w2 where c: "wo_wal_compact (e_mem E) (e_cio E) w db = Lives (k, db, w2)" "\<not> k \<longrightarrow> w2 = w"
    "k \<longrightarrow> log_agrees db w2 (head_stmts (schema w) @ dump db [0..<length (tables db)]) []"
    using compact_any_device [OF mem l lv(1) sch pay, of "e_cio E"] lv(2) by blast
  have "maybe_compact E db w = Lives (db, w2)" using c(1) True by (simp add: maybe_compact_def)
  then show ?thesis using c(2,3) by blast
qed (simp add: maybe_compact_def)

lemma drain_lives:
  assumes mem: "\<forall>s. e_mem E s" and l: "log_agrees db w done []" and sch: "schema_head_ok w"
    and ok: "reqs_ok E db w qs" and nop: "pend w = []" "repoint w = []" and dur: "all_durable db"
    and io: "wr (e_io E) = None" "sync_ok (e_io E)"
  shows "\<exists>r. drain E (Some db) (Some w) qs = Lives r"
proof -
  obtain s1 h1 n1 db1 w1 ss where dr: "drain_reqs E (Some db) (Some w) qs 0 = Lives (s1, h1, n1, Some db1, Some w1)"
    and l1: "log_agrees db1 w1 done ([] @ ss)" and k1: "keeps w w1" and sh: "same_shape db db1"
    using drain_reqs_agrees [OF mem l sch ok, of 0] by blast
  show ?thesis
  proof (cases n1)
    case 0
    then show ?thesis using dr by (simp add: drain_def)
  next
    case (Suc m)
    have "\<exists>w2. wo_wal_commit_fatal (e_io E) w1 n1 = Lives w2"
      using io by (cases "wbytes w1 = []") (simp_all add: wo_wal_commit_fatal_def wo_wal_commit_def Let_def)
    then obtain w2 where c: "wo_wal_commit_fatal (e_io E) w1 n1 = Lives w2" by blast
    note cm = commit_agrees [OF l1 c]
    have "pend w2 = []" "repoint w2 = []" using cm(2) k1 nop by (simp_all add: keeps_def)
    then have fl: "wo_db_flush_drops (e_mem E) db1 w2 = (db1, w2)" by (simp add: wo_db_flush_drops_def)
    have "schema_head_ok w2" using sch keeps_head_ok [OF k1] keeps_head_ok [OF cm(2)] by simp
    moreover have "all_durable db1" using dur by (simp add: all_durable_def table_is_durable_def same_shape_simps [OF sh])
    ultimately obtain w3 where "maybe_compact E db1 w2 = Lives (db1, w3)"
      using checkpoint_keeps [OF mem cm(1)] by blast
    then show ?thesis using dr Suc c fl by (simp add: drain_def)
  qed
qed

lemma drain_final:
  assumes mem: "\<forall>s. e_mem E s" and l: "log_agrees db w done []" and sch: "schema_head_ok w"
    and ok: "reqs_ok E db w qs" and nop: "pend w = []" "repoint w = []" and dur: "all_durable db"
    and io: "wr (e_io E) = None" "sync_ok (e_io E)"
  shows "\<exists>sent held db' w' ss done'. drain E (Some db) (Some w) qs = Lives (sent, held, Some db', Some w') \<and> log_agrees db' w' done' [] \<and> same_shape db db' \<and>
    run_stmts (classes db) (done @ ss) (\<lambda>cid. Map.empty) = Some (live_rows db') \<and>
    (done' = done @ ss \<or> done' = head_stmts (schema w) @ dump db' [0..<length (tables db')]) \<and>
    (ss = [] \<longrightarrow> held = []) \<and> (all_replies E \<longrightarrow> length sent + length held = length qs \<and> (held = [] \<longrightarrow> ss = []))"
proof -
  obtain sent held dbo' wo' where d: "drain E (Some db) (Some w) qs = Lives (sent, held, dbo', wo')"
    using drain_lives [OF mem l sch ok nop dur io] by auto
  obtain db1 w1 ss where a: "log_agrees db1 w1 (done @ ss) []" "schema_head_ok w1" "same_shape db db1" "schema w1 = schema w"
    "(ss = [] \<longrightarrow> held = []) \<and> (all_replies E \<longrightarrow> length sent + length held = length qs \<and> (held = [] \<longrightarrow> ss = []))"
    "if ss = [] then w1 = w \<and> dbo' = Some db1 \<and> wo' = Some w1
     else \<exists>db' w'. maybe_compact E db1 w1 = Lives (db', w') \<and> dbo' = Some db' \<and> wo' = Some w'"
    using drain_agrees [OF mem l sch ok nop d] by blast
  note sh = same_shape_simps [OF a(3)]
  have dur1: "all_durable db1" using dur by (simp add: all_durable_def table_is_durable_def sh)
  have inv1: "db_inv db1" using a(1) by (simp add: log_agrees_def)
  note lv = all_durable_rows [OF inv1 dur1]
  have run: "run_stmts (classes db) (done @ ss) (\<lambda>cid. Map.empty) = Some (live_rows db1)"
    using a(1) lv(2) by (simp add: log_agrees_def sh)
  have plain: ?thesis if "dbo' = Some db1" "wo' = Some w1"
    using that d a(1,3,5) run by blast
  show ?thesis
  proof (cases "ss = []")
    case True
    then show ?thesis using plain a(6) by simp
  next
    case False
    then obtain db' w' where m: "maybe_compact E db1 w1 = Lives (db', w')" "dbo' = Some db'" "wo' = Some w'" using a(6) by auto
    obtain w2 where c: "maybe_compact E db1 w1 = Lives (db1, w2)" "w2 = w1 \<or>
        log_agrees db1 w2 (head_stmts (schema w1) @ dump db1 [0..<length (tables db1)]) []"
      using checkpoint_keeps [OF mem a(1,2) dur1] by blast
    have e: "dbo' = Some db1" "wo' = Some w2" using m c(1) by simp_all
    show ?thesis
    proof (cases "w2 = w1")
      case True
      then show ?thesis using plain e by simp
    next
      case False
      then have "log_agrees db1 w2 (head_stmts (schema w) @ dump db1 [0..<length (tables db1)]) []" using c(2) a(4) by simp
      then show ?thesis using d e a(3,5) run by blast
    qed
  qed
qed

text \<open>A drain whose barrier fails.\<close>

lemma drain_crash:
  assumes mem: "\<forall>s. e_mem E s" and l: "log_agrees db w done []" and sch: "schema_head_ok w"
    and ok: "reqs_ok E db w qs" and io: "wr (e_io E) \<noteq> None \<or> \<not> sync_ok (e_io E)"
    and d: "drain E (Some db) (Some w) qs = Dies f"
    and sh: "shard db < nshards db" "nshards db < 2 ^ 32"
    and room: "(length done + 2 * length qs) * DB_SLAB_ROWS < 2 ^ 32"
  shows "\<exists>sent held n db1 w1 ss k S db'.
    drain_reqs E (Some db) (Some w) qs 0 = Lives (sent, held, n, Some db1, Some w1) \<and>
    log_agrees db1 w1 done ss \<and> k \<le> length ss \<and>
    run_stmts (classes db) (done @ take k ss) (\<lambda>cid. Map.empty) = Some S \<and>
    wo_wal_replay_ex (e_mem E) rt (Some f) (fresh_db db) = (Replayed (row_records (done @ take k ss)), db') \<and>
    db_inv db' \<and> live_rows db' = S"
proof -
  obtain s1 h1 n1 db1 w1 ss where dr: "drain_reqs E (Some db) (Some w) qs 0 = Lives (s1, h1, n1, Some db1, Some w1)"
    and l1: "log_agrees db1 w1 done ([] @ ss)" and ls: "length ss \<le> 2 * length qs" and ss: "same_shape db db1"
    and n1: "n1 = 0 \<longleftrightarrow> ss = []"
    using drain_reqs_agrees [OF mem l sch ok, of 0] by blast
  have sh1: "shard db1 < nshards db1" "nshards db1 < 2 ^ 32" using sh ss by (simp_all add: same_shape_def)
  have "ss \<noteq> []" using d dr n1 by (auto simp: drain_def)
  then have "wbytes w1 \<noteq> []"
    using l1 by (cases ss) (auto simp: log_agrees_def log_is_def simp flip: length_0_conv)
  then have c: "wo_wal_commit_fatal (e_io E) w1 n1 = Dies f"
    using d dr io by (auto simp: drain_def wo_wal_commit_fatal_def wo_wal_commit_def Let_def
        split: nat.splits outcome.splits prod.splits if_splits option.splits)
  have "length (done @ ([] @ ss)) \<le> length done + 2 * length qs" using ls by simp
  then have "length (done @ ([] @ ss)) * DB_SLAB_ROWS < 2 ^ 32"
    by (intro le_less_trans [OF mult_le_mono1 room])
  from commit_crash [OF mem l1 c sh1 this, of rt] obtain k S db' where k: "length done \<le> k" "k \<le> length done + length ss"
    and r: "run_stmts (classes db1) (take k (done @ ss)) (\<lambda>cid. Map.empty) = Some S"
      "wo_wal_replay_ex (e_mem E) rt (Some f) (fresh_db db1) = (Replayed (row_records (take k (done @ ss))), db')"
      "db_inv db'" "live_rows db' = S" by auto
  have tk: "take k (done @ ss) = done @ take (k - length done) ss" "k \<le> length done + length ss"
    using k by simp_all
  show ?thesis
  proof (intro exI conjI)
    show "drain_reqs E (Some db) (Some w) qs 0 = Lives (s1, h1, n1, Some db1, Some w1)" by (rule dr)
    show "log_agrees db1 w1 done ss" using l1 by simp
    show "k - length done \<le> length ss" using tk(2) by simp
    show "run_stmts (classes db) (done @ take (k - length done) ss) (\<lambda>cid. Map.empty) = Some S"
      using r(1) tk(1) by (simp add: same_shape_simps [OF ss])
    show "wo_wal_replay_ex (e_mem E) rt (Some f) (fresh_db db) =
        (Replayed (row_records (done @ take (k - length done) ss)), db')"
      using r(2) tk(1) by (simp add: same_shape_fresh [OF ss])
  qed (rule r)+
qed

end
