(* ===== verification/Schema.thy ===== *)
theory Schema
  imports Wal
begin

text \<open>
  The schema record and the boot diff (\<open>wo_schema_encode\<close>, \<open>wo_schema_decode\<close>,
  \<open>wo_wal_read_schema\<close>, \<open>wo_schema_diff\<close> of \<open>database/src/wal.c\<close>). Shown: encoding and decoding
  are inverse to each other in both directions; the diff of a schema with itself is the identity;
  a class the diff passes goes to a class of the same name and storage, each of its fields to one
  of the same name and shape or to none, and none of its stored values embeds a class that was
  changed or refused. Field order is not part of the identity test.

  The numbers (class, kind words) are natural numbers, bounded by \<open>schema_ok\<close>. The text of a refusal
  is reduced to its reason.
\<close>

section \<open>The record\<close>

record wo_schema_field =
  f_name :: bytes
  f_kind :: u8
  fclass :: nat
  felem :: nat

record wo_schema_class =
  c_name :: bytes
  c_flags :: nat
  c_fields :: "wo_schema_field list"

type_synonym wo_schema = "wo_schema_class list"

definition WO_SCHEMA_NONE :: nat where "WO_SCHEMA_NONE = 0xFFFFFFFF"

definition enc_name :: "bytes \<Rightarrow> bytes" where
  "enc_name n = wput_u32 (length n) @ n"

definition enc_field :: "wo_schema_field \<Rightarrow> bytes" where
  "enc_field f = enc_name (f_name f) @ wput_u8 (f_kind f) @ wput_u32 (fclass f) @ wput_u32 (felem f)"

definition enc_class :: "wo_schema_class \<Rightarrow> bytes" where
  "enc_class k = enc_name (c_name k) @ wput_u32 (c_flags k) @ wput_u32 (length (c_fields k)) @
     concat (map enc_field (c_fields k))"

definition wo_schema_encode :: "mem \<Rightarrow> wo_schema \<Rightarrow> bytes option" where
  "wo_schema_encode mem sc =
     build mem (wput_u8 (rec_byte RSchema) @ wput_u32 (length sc) @ concat (map enc_class sc))"

definition dec_name :: "bytes parser" where
  "dec_name bs = do { (n, r) \<leftarrow> rd_u32 bs; rtake n r }"

definition dec_field :: "wo_schema_field parser" where
  "dec_field bs =
     do { (n, r) \<leftarrow> dec_name bs; (k, r) \<leftarrow> rd_u8 r; (fc, r) \<leftarrow> rd_u32 r; (fe, r) \<leftarrow> rd_u32 r;
          Some (\<lparr>f_name = n, f_kind = k, fclass = fc, felem = fe\<rparr>, r) }"

definition dec_class :: "mem \<Rightarrow> wo_schema_class parser" where
  "dec_class mem bs =
     do { (n, r) \<leftarrow> dec_name bs; (fl, r) \<leftarrow> rd_u32 r; (cnt, r) \<leftarrow> rd_u32 r;
          if 65536 < cnt then None
          else if \<not> mem AMig then None
          else do { (fs, r) \<leftarrow> map_parse (\<lambda>_. dec_field) [0..<cnt] r;
                    Some (\<lparr>c_name = n, c_flags = fl, c_fields = fs\<rparr>, r) } }"

definition wo_schema_decode :: "mem \<Rightarrow> bytes \<Rightarrow> wo_schema option" where
  "wo_schema_decode mem p =
     (if length p < 5 \<or> hd p \<noteq> rec_byte RSchema then None
      else if \<not> mem AMig then None
      else
        do { (cnt, r) \<leftarrow> rd_u32 (tl p);
             if 65536 < cnt then None
             else do { (sc, r) \<leftarrow> map_parse (\<lambda>_. dec_class mem) [0..<cnt] r;
                       if r \<noteq> [] then None else Some sc } })"

text \<open>The log's head record, if it is a schema; \<open>None\<close> is also a log without one.\<close>

definition wo_wal_read_schema :: "mem \<Rightarrow> bytes \<Rightarrow> bytes option" where
  "wo_wal_read_schema mem f =
     (case scan_record mem f 0 of
        None \<Rightarrow> None
      | Some p \<Rightarrow> if length p < 1 \<or> hd p \<noteq> rec_byte RSchema then None else Some p)"

definition schema_ok :: "wo_schema \<Rightarrow> bool" where
  "schema_ok sc \<longleftrightarrow> length sc \<le> 65536 \<and>
     (\<forall>k\<in>set sc. length (c_name k) < 2 ^ 32 \<and> c_flags k < 2 ^ 32 \<and> length (c_fields k) \<le> 65536 \<and>
        (\<forall>f\<in>set (c_fields k). length (f_name f) < 2 ^ 32 \<and> fclass f < 2 ^ 32 \<and> felem f < 2 ^ 32))"

section \<open>The diff\<close>

text \<open>Why a class is refused; the number is the old field.\<close>

datatype poison = PGone | PStorage | PRetyped nat | PRename nat | PEmbeds nat

record wo_mig_class =
  new_cid :: "nat option"
  poison :: "poison option"
  fmap :: "nat option list"
  changed :: bool

record wo_mig_plan =
  mig_classes :: "wo_mig_class list"
  identity :: bool

fun find_index :: "('a \<Rightarrow> bool) \<Rightarrow> 'a list \<Rightarrow> nat option" where
  "find_index P [] = None"
| "find_index P (x # xs) = (if P x then Some 0 else map_option Suc (find_index P xs))"

definition sc_find_class :: "wo_schema \<Rightarrow> bytes \<Rightarrow> nat option" where
  "sc_find_class sc n = find_index (\<lambda>k. c_name k = n) sc"

definition sc_find_field :: "wo_schema_class \<Rightarrow> bytes \<Rightarrow> nat option" where
  "sc_find_field k n = find_index (\<lambda>f. f_name f = n) (c_fields k)"

definition sc_ref_eq :: "wo_schema \<Rightarrow> nat \<Rightarrow> wo_schema \<Rightarrow> nat \<Rightarrow> bool" where
  "sc_ref_eq osc ofc nsc nfc =
     (if ofc = WO_SCHEMA_NONE \<or> nfc = WO_SCHEMA_NONE then ofc = nfc
      else if length osc \<le> ofc \<or> length nsc \<le> nfc then False
      else c_name (osc ! ofc) = c_name (nsc ! nfc))"

definition sc_field_shape_eq :: "wo_schema \<Rightarrow> wo_schema_field \<Rightarrow> wo_schema \<Rightarrow> wo_schema_field \<Rightarrow> bool" where
  "sc_field_shape_eq osc fo nsc fn \<longleftrightarrow>
     f_kind fo = f_kind fn \<and> felem fo = felem fn \<and> sc_ref_eq osc (fclass fo) nsc (fclass fn)"

definition poisoned :: "poison \<Rightarrow> bool \<Rightarrow> wo_mig_class" where
  "poisoned p ch = \<lparr>new_cid = None, poison = Some p, fmap = [], changed = ch\<rparr>"

text \<open>One class: name, storage flags, the fields in order, the disguised rename.\<close>

definition diff_class :: "wo_schema \<Rightarrow> wo_schema \<Rightarrow> wo_schema_class \<Rightarrow> wo_mig_class" where
  "diff_class osc nsc k =
     (case sc_find_class nsc (c_name k) of
        None \<Rightarrow> poisoned PGone False
      | Some nc \<Rightarrow>
          let nk = nsc ! nc in
          if c_flags k \<noteq> c_flags nk then poisoned PStorage False
          else
            let fm = map (\<lambda>f. sc_find_field nk (f_name f)) (c_fields k) in
            (case find_index (\<lambda>f. case sc_find_field nk (f_name f) of None \<Rightarrow> False
                       | Some nf \<Rightarrow> \<not> sc_field_shape_eq osc f nsc (c_fields nk ! nf)) (c_fields k) of
               Some f \<Rightarrow> poisoned (PRetyped f) False
             | None \<Rightarrow>
                 let added = filter (\<lambda>g. sc_find_field k (f_name g) = None) (c_fields nk);
                     ch = (None \<in> set fm \<or> added \<noteq> []) in
                 (case find_index (\<lambda>f. sc_find_field nk (f_name f) = None \<and>
                            list_ex (\<lambda>g. sc_field_shape_eq osc f nsc g) added) (c_fields k) of
                    Some f \<Rightarrow> poisoned (PRename f) ch
                  | None \<Rightarrow> \<lparr>new_cid = Some nc, poison = None, fmap = fm, changed = ch\<rparr>)))"

text \<open>The embed closure: kinds 1, 4 and 5 are \<open>owned\<close>, \<open>multi\<close> and \<open>map\<close>.\<close>

definition dirty :: "wo_mig_class \<Rightarrow> bool" where
  "dirty m \<longleftrightarrow> poison m \<noteq> None \<or> changed m"

definition embeds :: "wo_schema_field \<Rightarrow> bool" where
  "embeds f \<longleftrightarrow> f_kind f \<in> {kind_byte KOwned, kind_byte KMulti, kind_byte KMap}"

definition tainted :: "wo_mig_class list \<Rightarrow> wo_schema_field \<Rightarrow> bool" where
  "tainted ms f \<longleftrightarrow> embeds f \<and>
     (if fclass f \<noteq> WO_SCHEMA_NONE \<and> fclass f < length ms then dirty (ms ! fclass f)
      else f_kind f = kind_byte KOwned \<and> list_ex dirty ms)"

definition embed_class :: "wo_schema \<Rightarrow> wo_mig_class list \<Rightarrow> nat \<Rightarrow> wo_mig_class list" where
  "embed_class osc ms c =
     (if poison (ms ! c) \<noteq> None then ms
      else
        (case find_index (tainted ms) (c_fields (osc ! c)) of
           None \<Rightarrow> ms
         | Some f \<Rightarrow> ms[c := poisoned (PEmbeds f) (changed (ms ! c))]))"

definition embed_pass :: "wo_schema \<Rightarrow> wo_mig_class list \<Rightarrow> wo_mig_class list" where
  "embed_pass osc ms = foldl (embed_class osc) ms [0..<length osc]"

definition clean_count :: "wo_mig_class list \<Rightarrow> nat" where
  "clean_count ms = length (filter (\<lambda>m. poison m = None) ms)"

text \<open>A pass that changes something poisons a class, so the passes come to an end.\<close>

lemma find_index_Some:
  "find_index P xs = Some i \<Longrightarrow> i < length xs \<and> P (xs ! i) \<and> (\<forall>j<i. \<not> P (xs ! j))"
proof (induction xs arbitrary: i)
  case (Cons x xs)
  show ?case
  proof (cases i)
    case 0
    then show ?thesis using Cons.prems by (simp split: if_splits)
  next
    case (Suc k)
    then have k: "\<not> P x" "find_index P xs = Some k" using Cons.prems by (auto split: if_splits)
    have "\<not> P ((x # xs) ! j)" if "j < i" for j
      using that k(1) Cons.IH [OF k(2)] Suc by (cases j) auto
    then show ?thesis using Cons.IH [OF k(2)] Suc by simp
  qed
qed simp

lemma find_index_None: "find_index P xs = None \<longleftrightarrow> (\<forall>x\<in>set xs. \<not> P x)"
  by (induction xs) auto

lemma find_index_False [simp]: "find_index (\<lambda>x. False) xs = None"
  by (simp add: find_index_None)

lemma embed_class_step:
  assumes "c < length ms"
  shows "length (embed_class osc ms c) = length ms"
    and "embed_class osc ms c = ms \<or> clean_count (embed_class osc ms c) < clean_count ms"
proof -
  show "length (embed_class osc ms c) = length ms"
    by (auto simp: embed_class_def split: option.splits)
  show "embed_class osc ms c = ms \<or> clean_count (embed_class osc ms c) < clean_count ms"
  proof (cases "poison (ms ! c) = None")
    case True
    have sp: "ms = take c ms @ ms ! c # drop (Suc c) ms" using assms by (rule id_take_nth_drop)
    have "clean_count (ms[c := poisoned p b]) < clean_count ms" for p b
    proof -
      have "clean_count (ms[c := poisoned p b]) = clean_count (take c ms) + clean_count (drop (Suc c) ms)"
        using assms by (simp add: clean_count_def upd_conv_take_nth_drop poisoned_def)
      moreover have "clean_count ms = clean_count (take c ms) + 1 + clean_count (drop (Suc c) ms)"
        by (subst sp) (simp add: clean_count_def True)
      ultimately show ?thesis by simp
    qed
    then show ?thesis using True by (auto simp: embed_class_def split: option.splits)
  qed (simp add: embed_class_def)
qed

lemma embed_fold_step:
  "\<forall>c\<in>set cids. c < length ms \<Longrightarrow>
     length (foldl (embed_class osc) ms cids) = length ms \<and>
     (foldl (embed_class osc) ms cids = ms \<or> clean_count (foldl (embed_class osc) ms cids) < clean_count ms)"
proof (induction cids arbitrary: ms)
  case (Cons c cids)
  have c: "c < length ms" using Cons.prems by simp
  note s = embed_class_step [OF c, of osc]
  have "\<forall>d\<in>set cids. d < length (embed_class osc ms c)" using Cons.prems s by simp
  from Cons.IH [OF this] show ?case using s by auto
qed simp

lemma embed_pass_step:
  assumes "length osc = length ms"
  shows "length (embed_pass osc ms) = length ms"
    and "embed_pass osc ms = ms \<or> clean_count (embed_pass osc ms) < clean_count ms"
  using embed_fold_step [of "[0..<length osc]" ms osc] assms by (auto simp: embed_pass_def)

function embed_fix :: "wo_schema \<Rightarrow> wo_mig_class list \<Rightarrow> wo_mig_class list" where
  "embed_fix osc ms =
     (if length osc \<noteq> length ms then ms
      else let ms' = embed_pass osc ms in if ms' = ms then ms else embed_fix osc ms')"
  by pat_completeness auto

termination
  using embed_pass_step by (relation "measure (\<lambda>(osc, ms). clean_count ms)") auto

declare embed_fix.simps [simp del]

definition identical :: "wo_mig_class \<Rightarrow> nat \<Rightarrow> bool" where
  "identical m c \<longleftrightarrow> poison m = None \<and> new_cid m = Some c \<and> \<not> changed m"

definition wo_schema_diff :: "mem \<Rightarrow> wo_schema \<Rightarrow> wo_schema \<Rightarrow> wo_mig_plan option" where
  "wo_schema_diff mem osc nsc =
     (if \<not> mem AMig then None
      else
        let ms = embed_fix osc (map (diff_class osc nsc) osc) in
        Some \<lparr>mig_classes = ms, identity = list_all (\<lambda>c. identical (ms ! c) c) [0..<length ms]\<rparr>)"

section \<open>Encoding and decoding\<close>

text \<open>A parser that inverts an encoder in both directions.\<close>

definition inverts :: "'a parser \<Rightarrow> ('a \<Rightarrow> bytes) \<Rightarrow> ('a \<Rightarrow> bool) \<Rightarrow> bool" where
  "inverts p e ok \<longleftrightarrow>
     (\<forall>x rest. ok x \<longrightarrow> p (e x @ rest) = Some (x, rest)) \<and>
     (\<forall>bs x rest. p bs = Some (x, rest) \<longrightarrow> bs = e x @ rest \<and> ok x)"

lemma invertsD:
  assumes "inverts p e ok"
  shows "ok x \<Longrightarrow> p (e x @ rest) = Some (x, rest)"
    and "p bs = Some (x, rest) \<Longrightarrow> bs = e x @ rest \<and> ok x"
  using assms by (auto simp: inverts_def)

lemma inverts_u8: "inverts rd_u8 wput_u8 (\<lambda>b. True)"
  unfolding inverts_def
proof (intro conjI allI impI)
  fix bs x rest assume "rd_u8 bs = Some (x, rest)"
  then show "bs = wput_u8 x @ rest" by (cases bs) (simp_all add: wput_u8_def)
qed simp_all

lemma inverts_u32: "inverts rd_u32 wput_u32 (\<lambda>n. n < 2 ^ 32)"
  unfolding inverts_def
proof (intro conjI allI impI)
  fix bs n rest assume r: "rd_u32 bs = Some (n, rest)"
  show "n < 2 ^ 32" by (rule rd_u32_bound [OF r])
  have "n = of_le (take 4 bs)" "rest = drop 4 bs" "length (take 4 bs) = 4"
    using r by (auto simp: rd_u32_def rtake_def split: if_splits)
  then show "bs = wput_u32 n @ rest"
    using le_of_le [of "take 4 bs"] by (simp add: wput_u32_def)
qed (rule rd_u32_wput)

lemma inverts_name: "inverts dec_name enc_name (\<lambda>n. length n < 2 ^ 32)"
  unfolding inverts_def
proof (intro conjI allI impI)
  fix x rest assume "length (x :: bytes) < 2 ^ 32"
  then show "dec_name (enc_name x @ rest) = Some (x, rest)" by (simp add: dec_name_def enc_name_def rtake_def)
next
  fix bs x rest assume r: "dec_name bs = Some (x, rest)"
  then obtain n r1 where n: "rd_u32 bs = Some (n, r1)" and t: "rtake n r1 = Some (x, rest)"
    by (auto simp: dec_name_def split: bind_splits)
  note i = invertsD(2) [OF inverts_u32 n]
  have "length x = n" "r1 = x @ rest" using t by (auto simp: rtake_def split: if_splits)
  then show "bs = enc_name x @ rest" "length x < 2 ^ 32" using i by (simp_all add: enc_name_def)
qed

lemma inverts_many:
  assumes i: "inverts p e ok"
  shows "inverts (map_parse (\<lambda>_. p) ([0..<n] :: nat list)) (\<lambda>xs. concat (map e xs))
    (\<lambda>xs. length xs = n \<and> (\<forall>x\<in>set xs. ok x))"
proof -
  have "inverts (map_parse (\<lambda>_. p) (ks :: nat list)) (\<lambda>xs. concat (map e xs))
      (\<lambda>xs. length xs = length ks \<and> (\<forall>x\<in>set xs. ok x))" for ks
  proof (induction ks)
    case Nil
    then show ?case by (simp add: inverts_def)
  next
    case (Cons k ks)
    show ?case
      unfolding inverts_def
    proof (intro conjI allI impI)
      fix xs rest assume "length xs = length (k # ks) \<and> (\<forall>x\<in>set xs. ok x)"
      then obtain y ys where xs: "xs = y # ys" "ok y" "length ys = length ks" "\<forall>x\<in>set ys. ok x"
        by (cases xs) auto
      have "map_parse (\<lambda>_. p) ks (concat (map e ys) @ rest) = Some (ys, rest)"
        using invertsD(1) [OF Cons.IH] xs by blast
      then show "map_parse (\<lambda>_. p) (k # ks) (concat (map e xs) @ rest) = Some (xs, rest)"
        using invertsD(1) [OF i xs(2)] xs(1) by simp
    next
      fix bs xs rest assume "map_parse (\<lambda>_. p) (k # ks) bs = Some (xs, rest)"
      then obtain y r ys where y: "p bs = Some (y, r)" "map_parse (\<lambda>_. p) ks r = Some (ys, rest)" "xs = y # ys"
        by (auto split: option.splits prod.splits)
      then show "bs = concat (map e xs) @ rest" "length xs = length (k # ks)" "\<forall>x\<in>set xs. ok x"
        using invertsD(2) [OF i y(1)] invertsD(2) [OF Cons.IH y(2)] by auto
    qed
  qed
  from this [of "[0..<n]"] show ?thesis by simp
qed

definition field_ok :: "wo_schema_field \<Rightarrow> bool" where
  "field_ok f \<longleftrightarrow> length (f_name f) < 2 ^ 32 \<and> fclass f < 2 ^ 32 \<and> felem f < 2 ^ 32"

definition sclass_ok :: "wo_schema_class \<Rightarrow> bool" where
  "sclass_ok k \<longleftrightarrow> length (c_name k) < 2 ^ 32 \<and> c_flags k < 2 ^ 32 \<and> length (c_fields k) \<le> 65536 \<and>
     (\<forall>f\<in>set (c_fields k). field_ok f)"

lemma schema_ok_iff: "schema_ok sc \<longleftrightarrow> length sc \<le> 65536 \<and> (\<forall>k\<in>set sc. sclass_ok k)"
  by (auto simp: schema_ok_def sclass_ok_def field_ok_def)

lemma inverts_field: "inverts dec_field enc_field field_ok"
  unfolding inverts_def
proof (intro conjI allI impI)
  fix f rest assume "field_ok f"
  then show "dec_field (enc_field f @ rest) = Some (f, rest)"
    by (simp add: dec_field_def enc_field_def field_ok_def invertsD(1) [OF inverts_name])
next
  fix bs f rest assume "dec_field bs = Some (f, rest)"
  then obtain n r1 k r2 fc r3 fe where p: "dec_name bs = Some (n, r1)" "rd_u8 r1 = Some (k, r2)"
      "rd_u32 r2 = Some (fc, r3)" "rd_u32 r3 = Some (fe, rest)"
    and f: "f = \<lparr>f_name = n, f_kind = k, fclass = fc, felem = fe\<rparr>"
    by (auto simp: dec_field_def split: bind_splits)
  show "bs = enc_field f @ rest" "field_ok f"
    using invertsD(2) [OF inverts_name p(1)] invertsD(2) [OF inverts_u8 p(2)]
      invertsD(2) [OF inverts_u32 p(3)] invertsD(2) [OF inverts_u32 p(4)]
    by (simp_all add: f enc_field_def field_ok_def)
qed

lemma inverts_class:
  assumes "mem AMig"
  shows "inverts (dec_class mem) enc_class sclass_ok"
  unfolding inverts_def
proof (intro conjI allI impI)
  fix k rest assume k: "sclass_ok k"
  then have "map_parse (\<lambda>_. dec_field) [0..<length (c_fields k)] (concat (map enc_field (c_fields k)) @ rest) =
      Some (c_fields k, rest)"
    using invertsD(1) [OF inverts_many [OF inverts_field]] by (simp add: sclass_ok_def)
  then show "dec_class mem (enc_class k @ rest) = Some (k, rest)"
    using k assms by (simp add: dec_class_def enc_class_def sclass_ok_def invertsD(1) [OF inverts_name])
next
  fix bs k rest assume "dec_class mem bs = Some (k, rest)"
  then obtain n r1 fl r2 cnt r3 fs where p: "dec_name bs = Some (n, r1)" "rd_u32 r1 = Some (fl, r2)"
      "rd_u32 r2 = Some (cnt, r3)" "map_parse (\<lambda>_. dec_field) [0..<cnt] r3 = Some (fs, rest)" "cnt \<le> 65536"
    and k: "k = \<lparr>c_name = n, c_flags = fl, c_fields = fs\<rparr>"
    by (auto simp: dec_class_def split: bind_splits if_splits)
  show "bs = enc_class k @ rest" "sclass_ok k"
    using invertsD(2) [OF inverts_name p(1)] invertsD(2) [OF inverts_u32 p(2)]
      invertsD(2) [OF inverts_u32 p(3)] invertsD(2) [OF inverts_many [OF inverts_field] p(4)] p(5)
    by (auto simp: k enc_class_def sclass_ok_def)
qed

lemma schema_roundtrip:
  assumes mem: "mem AMig" and enc: "wo_schema_encode mem sc = Some p" and ok: "schema_ok sc"
  shows "wo_schema_decode mem p = Some sc"
proof -
  have p: "p = rec_byte RSchema # wput_u32 (length sc) @ concat (map enc_class sc)"
    using enc by (simp add: wo_schema_encode_def build_def wput_u8_def split: if_splits)
  have "map_parse (\<lambda>_. dec_class mem) [0..<length sc] (concat (map enc_class sc) @ []) = Some (sc, [])"
    using invertsD(1) [OF inverts_many [OF inverts_class [where mem = mem, OF mem]]] ok by (simp only: schema_ok_iff) blast
  then show ?thesis
    using ok mem by (simp add: p wo_schema_decode_def schema_ok_iff)
qed

lemma schema_canonical:
  assumes mem: "mem AMig" "mem AWalPayload" and dec: "wo_schema_decode mem p = Some sc"
  shows "wo_schema_encode mem sc = Some p" and "schema_ok sc"
proof -
  obtain cnt r where h: "5 \<le> length p" "hd p = rec_byte RSchema" "rd_u32 (tl p) = Some (cnt, r)" "cnt \<le> 65536"
      "map_parse (\<lambda>_. dec_class mem) [0..<cnt] r = Some (sc, [])"
    using dec by (auto simp: wo_schema_decode_def split: bind_splits if_splits)
  have p: "p = rec_byte RSchema # tl p" using h(1,2) by (cases p) auto
  show "wo_schema_encode mem sc = Some p" "schema_ok sc"
    using p mem invertsD(2) [OF inverts_u32 h(3)] invertsD(2) [OF inverts_many [OF inverts_class [where mem = mem, OF mem(1)]] h(5)] h(4)
    by (auto simp: wo_schema_encode_def build_def wput_u8_def schema_ok_iff)
qed

section \<open>What the diff promises\<close>

definition names_distinct :: "wo_schema \<Rightarrow> bool" where
  "names_distinct sc \<longleftrightarrow> distinct (map c_name sc) \<and> (\<forall>k\<in>set sc. distinct (map f_name (c_fields k)))"

definition refs_ok :: "wo_schema \<Rightarrow> bool" where
  "refs_ok sc \<longleftrightarrow> (\<forall>k\<in>set sc. \<forall>f\<in>set (c_fields k). fclass f = WO_SCHEMA_NONE \<or> fclass f < length sc)"

definition same_class :: "wo_schema \<Rightarrow> nat \<Rightarrow> wo_mig_class" where
  "same_class sc c =
     \<lparr>new_cid = Some c, poison = None, fmap = map Some [0..<length (c_fields (sc ! c))], changed = False\<rparr>"

lemma find_index_distinct:
  "distinct (map g xs) \<Longrightarrow> i < length xs \<Longrightarrow> find_index (\<lambda>x. g x = g (xs ! i)) xs = Some i"
proof (induction xs arbitrary: i)
  case (Cons x xs)
  show ?case
  proof (cases i)
    case (Suc k)
    then have "g (xs ! k) \<in> g ` set xs" using Cons.prems by simp
    then have "g x \<noteq> g (xs ! k)" using Cons.prems by auto
    then show ?thesis using Cons Suc by simp
  qed simp
qed simp

lemma sc_find_field_Some:
  assumes "sc_find_field k n = Some i"
  shows "i < length (c_fields k)" and "f_name (c_fields k ! i) = n"
  using find_index_Some [OF assms [unfolded sc_find_field_def]] by simp_all

lemma sc_find_field_None: "sc_find_field k n = None \<longleftrightarrow> (\<forall>f\<in>set (c_fields k). f_name f \<noteq> n)"
  by (simp add: sc_find_field_def find_index_None)

lemma sc_find_class_Some:
  assumes "sc_find_class sc n = Some i"
  shows "i < length sc" and "c_name (sc ! i) = n"
  using find_index_Some [OF assms [unfolded sc_find_class_def]] by simp_all

lemma sc_find_field_self:
  "distinct (map f_name (c_fields k)) \<Longrightarrow> i < length (c_fields k) \<Longrightarrow>
     sc_find_field k (f_name (c_fields k ! i)) = Some i"
  unfolding sc_find_field_def by (rule find_index_distinct)

lemma sc_find_class_self:
  "distinct (map c_name sc) \<Longrightarrow> i < length sc \<Longrightarrow> sc_find_class sc (c_name (sc ! i)) = Some i"
  unfolding sc_find_class_def by (rule find_index_distinct)

lemma shape_self:
  "fclass f = WO_SCHEMA_NONE \<or> fclass f < length sc \<Longrightarrow> sc_field_shape_eq sc f sc f"
  by (auto simp: sc_field_shape_eq_def sc_ref_eq_def)

lemma diff_class_self:
  assumes d: "names_distinct sc" and r: "refs_ok sc" and c: "c < length sc"
  shows "diff_class sc sc (sc ! c) = same_class sc c"
proof -
  let ?k = "sc ! c"
  have k: "?k \<in> set sc" using c by simp
  have dist: "distinct (map f_name (c_fields ?k))" and cls: "sc_find_class sc (c_name ?k) = Some c"
    using d k sc_find_class_self [OF _ c] by (auto simp: names_distinct_def)
  note own = sc_find_field_self [OF dist]
  have fm: "map (\<lambda>f. sc_find_field ?k (f_name f)) (c_fields ?k) = map Some [0..<length (c_fields ?k)]"
    by (rule nth_equalityI) (simp_all add: own)
  have shape: "find_index (\<lambda>f. case sc_find_field ?k (f_name f) of None \<Rightarrow> False
      | Some nf \<Rightarrow> \<not> sc_field_shape_eq sc f sc (c_fields ?k ! nf)) (c_fields ?k) = None"
  proof -
    have "case sc_find_field ?k (f_name f) of None \<Rightarrow> False
      | Some nf \<Rightarrow> \<not> sc_field_shape_eq sc f sc (c_fields ?k ! nf) \<Longrightarrow> False"
      if f: "f \<in> set (c_fields ?k)" for f
    proof -
      obtain i where i: "i < length (c_fields ?k)" "f = c_fields ?k ! i" using f by (auto simp: in_set_conv_nth)
      have "sc_field_shape_eq sc f sc f" using r k f by (auto simp: refs_ok_def intro: shape_self)
      then show "case sc_find_field ?k (f_name f) of None \<Rightarrow> False
        | Some nf \<Rightarrow> \<not> sc_field_shape_eq sc f sc (c_fields ?k ! nf) \<Longrightarrow> False"
        using own i by simp
    qed
    then show ?thesis by (auto simp: find_index_None)
  qed
  have added: "filter (\<lambda>g. sc_find_field ?k (f_name g) = None) (c_fields ?k) = []"
    by (auto simp: filter_empty_conv sc_find_field_None)
  show ?thesis
    by (simp add: diff_class_def cls fm shape added same_class_def find_index_None Let_def image_iff)
qed

lemma embed_class_clean:
  "list_all (\<lambda>m. \<not> dirty m) ms \<Longrightarrow> embed_class osc ms c = ms"
proof -
  assume c: "list_all (\<lambda>m. \<not> dirty m) ms"
  have "\<not> list_ex dirty ms" "\<And>i. i < length ms \<Longrightarrow> \<not> dirty (ms ! i)"
    using c by (auto simp: list_all_iff list_ex_iff)
  then have "find_index (tainted ms) fs = None" for fs
    by (auto simp: find_index_None tainted_def)
  then show ?thesis by (simp add: embed_class_def)
qed

lemma embed_pass_clean: "list_all (\<lambda>m. \<not> dirty m) ms \<Longrightarrow> embed_pass osc ms = ms"
proof -
  assume c: "list_all (\<lambda>m. \<not> dirty m) ms"
  have "foldl (embed_class osc) ms cids = ms" for cids
    by (induction cids) (simp_all add: embed_class_clean [OF c])
  then show ?thesis by (simp add: embed_pass_def)
qed

lemma embed_fix_clean: "list_all (\<lambda>m. \<not> dirty m) ms \<Longrightarrow> embed_fix osc ms = ms"
  by (subst embed_fix.simps) (simp add: embed_pass_clean Let_def)

lemma diff_self:
  assumes mem: "mem AMig" and d: "names_distinct sc" and r: "refs_ok sc"
  shows "wo_schema_diff mem sc sc =
    Some \<lparr>mig_classes = map (same_class sc) [0..<length sc], identity = True\<rparr>"
proof -
  have ms: "map (diff_class sc sc) sc = map (same_class sc) [0..<length sc]"
    by (rule nth_equalityI) (simp_all add: diff_class_self [OF d r])
  have "list_all (\<lambda>m. \<not> dirty m) (map (same_class sc) [0..<length sc])"
    by (auto simp: list_all_iff dirty_def same_class_def)
  from embed_fix_clean [OF this] show ?thesis
    using mem by (simp add: wo_schema_diff_def ms list_all_length identical_def same_class_def Let_def)
qed

text \<open>What it means for a class to pass.\<close>

definition passes :: "wo_schema \<Rightarrow> wo_schema \<Rightarrow> wo_schema_class \<Rightarrow> wo_mig_class \<Rightarrow> bool" where
  "passes osc nsc k m \<longleftrightarrow>
     (\<exists>nc < length nsc. new_cid m = Some nc \<and> c_name (nsc ! nc) = c_name k \<and> c_flags (nsc ! nc) = c_flags k \<and>
        length (fmap m) = length (c_fields k) \<and>
        (\<forall>f < length (c_fields k).
           (case fmap m ! f of
              None \<Rightarrow> (\<forall>g\<in>set (c_fields (nsc ! nc)). f_name g \<noteq> f_name (c_fields k ! f))
            | Some nf \<Rightarrow> nf < length (c_fields (nsc ! nc)) \<and>
                f_name (c_fields (nsc ! nc) ! nf) = f_name (c_fields k ! f) \<and>
                sc_field_shape_eq osc (c_fields k ! f) nsc (c_fields (nsc ! nc) ! nf))) \<and>
        (\<not> changed m \<longrightarrow>
           f_name ` set (c_fields k) = f_name ` set (c_fields (nsc ! nc))))"

lemma diff_class_passes:
  assumes "poison (diff_class osc nsc k) = None"
  shows "passes osc nsc k (diff_class osc nsc k)"
proof -
  obtain nc where nc: "sc_find_class nsc (c_name k) = Some nc"
    using assms by (auto simp: diff_class_def poisoned_def split: option.splits)
  let ?nk = "nsc ! nc"
  let ?look = "\<lambda>f. sc_find_field ?nk (f_name f)"
  let ?added = "filter (\<lambda>g. sc_find_field k (f_name g) = None) (c_fields ?nk)"
  let ?bad = "\<lambda>f. case ?look f of None \<Rightarrow> False
      | Some nf \<Rightarrow> \<not> sc_field_shape_eq osc f nsc (c_fields ?nk ! nf)"
  let ?ren = "\<lambda>f. ?look f = None \<and> list_ex (\<lambda>g. sc_field_shape_eq osc f nsc g) ?added"
  note dc = diff_class_def poisoned_def nc Let_def
  have fl: "c_flags k = c_flags ?nk"
    by (rule ccontr) (use assms in \<open>simp add: dc\<close>)
  have shape: "find_index ?bad (c_fields k) = None"
    by (rule ccontr) (use assms fl in \<open>auto simp only: not_None_eq, simp add: dc\<close>)
  have ren: "find_index ?ren (c_fields k) = None"
    by (rule ccontr) (use assms fl shape in \<open>auto simp only: not_None_eq, simp add: dc\<close>)
  have m: "diff_class osc nsc k = \<lparr>new_cid = Some nc, poison = None, fmap = map ?look (c_fields k),
      changed = (None \<in> set (map ?look (c_fields k)) \<or> ?added \<noteq> [])\<rparr>"
    using fl shape ren by (simp add: dc)
  have ok: "case ?look f of None \<Rightarrow> True | Some nf \<Rightarrow> sc_field_shape_eq osc f nsc (c_fields ?nk ! nf)"
    if "f \<in> set (c_fields k)" for f
    using shape that by (auto simp: find_index_None split: option.splits)
  have field: "case ?look f of
      None \<Rightarrow> (\<forall>g\<in>set (c_fields ?nk). f_name g \<noteq> f_name f)
    | Some nf \<Rightarrow> nf < length (c_fields ?nk) \<and> f_name (c_fields ?nk ! nf) = f_name f \<and>
        sc_field_shape_eq osc f nsc (c_fields ?nk ! nf)" if "f \<in> set (c_fields k)" for f
    using ok [OF that] sc_find_field_Some [of ?nk "f_name f"] sc_find_field_None [of ?nk "f_name f"]
    by (auto split: option.splits)
  have names: "f_name ` set (c_fields k) = f_name ` set (c_fields ?nk)" if u: "\<not> changed (diff_class osc nsc k)"
  proof
    have n: "None \<notin> ?look ` set (c_fields k)" using u by (simp add: m)
    show "f_name ` set (c_fields k) \<subseteq> f_name ` set (c_fields ?nk)"
    proof
      fix x assume "x \<in> f_name ` set (c_fields k)"
      then obtain f where f: "f \<in> set (c_fields k)" "x = f_name f" by auto
      then have "?look f \<noteq> None" using n by (metis imageI)
      then show "x \<in> f_name ` set (c_fields ?nk)" by (auto simp: sc_find_field_None f(2)) (metis imageI)
    qed
    have "?added = []" using u by (simp add: m)
    then show "f_name ` set (c_fields ?nk) \<subseteq> f_name ` set (c_fields k)"
      by (auto simp: filter_empty_conv sc_find_field_None image_iff) (metis)
  qed
  show ?thesis
    unfolding passes_def
    using sc_find_class_Some [OF nc] fl field names by (intro exI [of _ nc] conjI) (simp_all add: m)
qed

text \<open>The closure only ever poisons: a class still clean at the end is the one the first phase left.\<close>

definition only_poisons :: "wo_mig_class list \<Rightarrow> wo_mig_class list \<Rightarrow> bool" where
  "only_poisons ms ms' \<longleftrightarrow> length ms' = length ms \<and>
     (\<forall>c<length ms. (poison (ms' ! c) = None \<longrightarrow> ms' ! c = ms ! c))"

lemma only_poisons_refl [simp]: "only_poisons ms ms"
  by (simp add: only_poisons_def)

lemma only_poisons_trans: "only_poisons a b \<Longrightarrow> only_poisons b c \<Longrightarrow> only_poisons a c"
  by (auto simp: only_poisons_def)

lemma embed_class_only: "only_poisons ms (embed_class osc ms c)"
proof -
  have "poison (ms[c := poisoned p b] ! i) = None \<longrightarrow> ms[c := poisoned p b] ! i = ms ! i" if "i < length ms" for i p b
    using that by (cases "i = c") (simp_all add: poisoned_def)
  then show ?thesis by (auto simp: only_poisons_def embed_class_def split: option.splits)
qed

lemma embed_pass_only: "only_poisons ms (embed_pass osc ms)"
proof -
  have "only_poisons ms (foldl (embed_class osc) ms cids)" for cids
  proof (induction cids arbitrary: ms)
    case (Cons c cids)
    show ?case using only_poisons_trans [OF embed_class_only Cons.IH] by simp
  qed simp
  then show ?thesis by (simp add: embed_pass_def)
qed

lemma embed_fix_only: "only_poisons ms (embed_fix osc ms)"
proof (induction osc ms rule: embed_fix.induct)
  case (1 osc ms)
  show ?case
  proof (cases "length osc = length ms \<and> embed_pass osc ms \<noteq> ms")
    case True
    then have "embed_fix osc ms = embed_fix osc (embed_pass osc ms)"
      by (subst embed_fix.simps) (simp add: Let_def)
    moreover have "only_poisons (embed_pass osc ms) (embed_fix osc (embed_pass osc ms))"
      using 1 True by blast
    ultimately show ?thesis using only_poisons_trans [OF embed_pass_only] by metis
  next
    case False
    then have "embed_fix osc ms = ms" by (subst embed_fix.simps) (auto simp: Let_def)
    then show ?thesis by simp
  qed
qed

lemma embed_fix_fixed: "length osc = length ms \<Longrightarrow> embed_pass osc (embed_fix osc ms) = embed_fix osc ms"
proof (induction osc ms rule: embed_fix.induct)
  case (1 osc ms)
  show ?case
  proof (cases "embed_pass osc ms = ms")
    case True
    then show ?thesis by (subst (1 2) embed_fix.simps) (simp add: Let_def)
  next
    case False
    then have "embed_fix osc ms = embed_fix osc (embed_pass osc ms)"
      using 1(2) by (subst embed_fix.simps) (simp add: Let_def)
    then show ?thesis using 1 False embed_pass_step(1) [OF 1(2)] by simp
  qed
qed

lemma pass_fixed_class:
  assumes fix_: "foldl (embed_class osc) ms cids = ms" and b: "\<forall>c\<in>set cids. c < length ms" and c: "c \<in> set cids"
  shows "embed_class osc ms c = ms"
  using assms
proof (induction cids)
  case (Cons d cids)
  have d: "d < length ms" using Cons.prems by simp
  have "embed_class osc ms d = ms"
  proof (rule ccontr)
    assume "embed_class osc ms d \<noteq> ms"
    then have lt: "clean_count (embed_class osc ms d) < clean_count ms" using embed_class_step(2) [OF d] by auto
    have "\<forall>e\<in>set cids. e < length (embed_class osc ms d)" using Cons.prems embed_class_step(1) [OF d] by simp
    from embed_fold_step [OF this, of osc] show False using lt Cons.prems(1) by auto
  qed
  then show ?case using Cons by auto
qed simp

lemma closure_clean:
  assumes len: "length osc = length ms" and c: "c < length ms"
    and p: "poison (embed_fix osc ms ! c) = None" and f: "f \<in> set (c_fields (osc ! c))"
  shows "\<not> tainted (embed_fix osc ms) f"
proof -
  let ?ms = "embed_fix osc ms"
  have l: "length ?ms = length ms" using embed_fix_only [of ms osc] by (simp add: only_poisons_def)
  have "foldl (embed_class osc) ?ms [0..<length osc] = ?ms"
    using embed_fix_fixed [OF len] by (simp add: embed_pass_def)
  then have "embed_class osc ?ms c = ?ms"
    by (rule pass_fixed_class) (use len l c in auto)
  then have "find_index (tainted ?ms) (c_fields (osc ! c)) = None"
  proof -
    assume e: "embed_class osc ?ms c = ?ms"
    have "?ms[c := poisoned q b] \<noteq> ?ms" for q b
    proof
      assume "?ms[c := poisoned q b] = ?ms"
      then have "?ms[c := poisoned q b] ! c = ?ms ! c" by simp
      then have "?ms ! c = poisoned q b" using c l by simp
      then show False using p by (simp add: poisoned_def)
    qed
    then show ?thesis using e p by (auto simp: embed_class_def split: option.splits)
  qed
  then show ?thesis using f by (simp add: find_index_None)
qed

lemma diff_sound:
  assumes d: "wo_schema_diff mem osc nsc = Some plan" and c: "c < length osc"
    and p: "poison (mig_classes plan ! c) = None"
  shows "passes osc nsc (osc ! c) (mig_classes plan ! c)"
    and "f \<in> set (c_fields (osc ! c)) \<Longrightarrow> \<not> tainted (mig_classes plan) f"
proof -
  let ?ms = "map (diff_class osc nsc) osc"
  have pl: "mig_classes plan = embed_fix osc ?ms"
    using d by (auto simp: wo_schema_diff_def Let_def split: if_splits)
  have "mig_classes plan ! c = ?ms ! c"
    using embed_fix_only [of ?ms osc] c p by (simp add: only_poisons_def pl)
  then show "passes osc nsc (osc ! c) (mig_classes plan ! c)"
    using c p diff_class_passes [of osc nsc "osc ! c"] by simp
  show "\<not> tainted (mig_classes plan) f" if "f \<in> set (c_fields (osc ! c))"
    unfolding pl by (rule closure_clean) (use c p that pl in auto)
qed

text \<open>Exchanging two fields of the same shape is an identity plan whose field map is not the identity.\<close>

definition sfield :: "bytes \<Rightarrow> wo_schema_field" where
  "sfield n = \<lparr>f_name = n, f_kind = kind_byte KScalar, fclass = WO_SCHEMA_NONE, felem = 0\<rparr>"

definition two_fields :: "bytes \<Rightarrow> nat \<Rightarrow> bytes \<Rightarrow> bytes \<Rightarrow> wo_schema" where
  "two_fields n fl a b = [\<lparr>c_name = n, c_flags = fl, c_fields = [sfield a, sfield b]\<rparr>]"

lemma diff_swap:
  assumes mem: "mem AMig" and ab: "a \<noteq> b"
  shows "wo_schema_diff mem (two_fields n fl a b) (two_fields n fl b a) =
    Some \<lparr>mig_classes = [\<lparr>new_cid = Some 0, poison = None, fmap = [Some 1, Some 0], changed = False\<rparr>],
          identity = True\<rparr>"
proof -
  let ?k = "\<lparr>c_name = n, c_flags = fl, c_fields = [sfield a, sfield b]\<rparr>"
  have dc: "diff_class (two_fields n fl a b) (two_fields n fl b a) ?k =
      \<lparr>new_cid = Some 0, poison = None, fmap = [Some 1, Some 0], changed = False\<rparr>"
    using ab by (simp add: diff_class_def two_fields_def sc_find_class_def sc_find_field_def sfield_def
        sc_field_shape_eq_def sc_ref_eq_def)
  have "map (diff_class (two_fields n fl a b) (two_fields n fl b a)) (two_fields n fl a b) =
      [\<lparr>new_cid = Some 0, poison = None, fmap = [Some 1, Some 0], changed = False\<rparr>]"
    by (subst (3) two_fields_def) (simp add: dc)
  then show ?thesis
    using mem by (simp add: wo_schema_diff_def embed_fix_clean dirty_def identical_def)
qed

end
