(* ===== verification/Demo.thy ===== *)
theory Demo
  imports Executor Schema
begin

text \<open>
  A small store for the concrete instances: one durable class with a unique index on its only
  field, an empty store and an empty log for it, an environment whose device works and one whose
  device stops, and the store and log after one insert.
\<close>

section \<open>The empty store and log\<close>

definition all_mem :: mem where "all_mem = (\<lambda>_. True)"

definition demo_class :: wo_classdesc where
  "demo_class = \<lparr>cls_flags = WO_CLASSF_TABLE, kinds = [KScalar], field_class = None, field_elem = None, idx_meta = [(1, [0])]\<rparr>"

definition demo_db :: wo_db where
  "demo_db = \<lparr>classes = [demo_class], shard = 0, nshards = 1, tables = [empty_table]\<rparr>"

definition demo_wal :: wo_wal where "demo_wal = wo_wal_open all_mem [] 64"

text \<open>A device on which a rewrite of the log succeeds.\<close>

definition good_cio :: cio where
  "good_cio = \<lparr>c_open = True, c_wr = \<lparr>wr = None, sync_ok = True\<rparr>, c_tail = \<lparr>wr = None, sync_ok = True\<rparr>,
     c_sync = True, c_rename = True\<rparr>"

lemma good_cio: "device_ok good_cio"
  by (simp add: device_ok_def good_cio_def)

definition good_env :: env where
  "good_env = \<lparr>e_mem = all_mem, e_io = \<lparr>wr = None, sync_ok = True\<rparr>, e_cio = good_cio, ckpt_floor = 0, ckpt_ratio = 0,
     e_reply = (\<lambda>q. True)\<rparr>"

definition bad_env :: env where
  "bad_env = good_env\<lparr>e_io := \<lparr>wr = Some 3, sync_ok = True\<rparr>\<rparr>"

definition demo_req :: "db_op \<Rightarrow> db_req" where
  "demo_req op = \<lparr>r_op = op, r_cid = 0, r_field = 0, r_index = 0, r_id = 1, r_slots = [DWord 7],
     r_status = None, r_result = 0, r_ids = [], r_val = None\<rparr>"

lemma all_mem [simp]: "all_mem s" "e_mem good_env = all_mem" "e_mem bad_env = all_mem"
  by (simp_all add: all_mem_def good_env_def bad_env_def)

lemma demo_class_simps [simp]:
  "cls_flags demo_class = 8" "kinds demo_class = [KScalar]" "idx_meta demo_class = [(1, [0])]"
  by (simp_all add: demo_class_def WO_CLASSF_TABLE_def)

lemma demo_db_simps [simp]:
  "classes demo_db = [demo_class]" "shard demo_db = 0" "nshards demo_db = 1" "tables demo_db = [empty_table]"
  "class_of demo_db 0 = demo_class"
  by (simp_all add: demo_db_def class_of_def)

lemma demo_req_simps [simp]:
  "r_op (demo_req op) = op" "r_cid (demo_req op) = 0" "r_field (demo_req op) = 0"
  "r_id (demo_req op) = 1" "r_slots (demo_req op) = [DWord 7]" "r_status (demo_req op) = None"
  by (simp_all add: demo_req_def)

lemma demo_resident [simp]: "\<not> wo_table_is_keys_resident demo_db 0"
  by (simp add: wo_table_is_keys_resident_def WO_CLASSF_RESIDENT_KEYS_def)

lemma demo_durable [simp]: "cls_flags (class_of demo_db 0) AND WO_CLASSF_VOLATILE = 0"
  by (simp add: WO_CLASSF_VOLATILE_def)

lemma demo_empty [simp]: "live_rows demo_db = (\<lambda>cid. Map.empty)"
proof -
  have "live_rows demo_db cid i = None" for cid i
    by (cases cid) (simp_all add: live_rows_def empty_table_def)
  then show ?thesis by (simp add: fun_eq_iff)
qed

lemma demo_table_inv: "table_inv demo_db 0"
  by (simp add: table_inv_def table_fits_def empty_table_def)

lemma demo_db_inv: "db_inv demo_db"
  using demo_table_inv by (simp add: db_inv_def)

lemma demo_fit: "classes_fit [demo_class]"
  by (simp add: classes_fit_def)

lemma demo_wal_simps [simp]:
  "fbytes demo_wal = replicate 64 0" "woff demo_wal = 0" "wbytes demo_wal = []" "schema demo_wal = None"
  "pend demo_wal = []" "repoint demo_wal = []" "schema_written demo_wal = False"
  by (simp_all add: demo_wal_def wo_wal_open_def fallocate_def intact_end.simps scan_zeros)

lemma demo_log_is: "log_is demo_wal [] []"
  by (auto simp: log_is_def)

lemma demo_agrees: "log_agrees demo_db demo_wal [] []"
  by (simp add: log_agrees_def demo_db_inv demo_fit demo_log_is durable_rows_def fun_eq_iff)

lemma demo_schema: "schema_head_ok demo_wal"
  by (simp add: schema_head_ok_def)

lemma demo_room: "has_room demo_db 0"
  by (simp add: has_room_def DB_SLAB_ROWS_def empty_table_def fresh_id_def)

section \<open>One row\<close>

lemma demo_fresh_id [simp]: "fresh_id demo_db 0 = 1"
  by (simp add: fresh_id_def empty_table_def)

definition demo_row :: db_row where "demo_row = \<lparr>row_id = 1, row_class = 0, slots = [DWord 7]\<rparr>"

lemma demo_row_simps [simp]: "row_id demo_row = 1" "slots demo_row = [DWord 7]"
  by (simp_all add: demo_row_def)

lemma demo_no_clash [simp]: "\<not> violates c Map.empty r"
  by (simp add: violates_def)

definition demo_db1 :: wo_db where
  "demo_db1 = snd (wo_row_insert_slots all_mem None demo_db 0 [DWord 7])"

lemma demo_insert:
  "wo_row_insert_slots all_mem None demo_db 0 [DWord 7] = (Inr 1, demo_db1)"
  "table_inv demo_db1 0" "only_table 0 demo_db demo_db1" "live_rows demo_db1 0 = [1 \<mapsto> demo_row]"
proof -
  obtain x db' where e: "wo_row_insert_slots all_mem None demo_db 0 [DWord 7] = (x, db')"
    by (metis prod.collapse)
  then have d: "db' = demo_db1" by (simp add: demo_db1_def)
  have s: "table_inv db' 0 \<and> only_table 0 demo_db db' \<and> inserted demo_db 0 [DWord 7] x db'"
    by (rule insert_slots_spec [OF _ demo_table_inv demo_room _ e]) simp_all
  then have "x = Inr 1 \<and> live_rows db' 0 = [1 \<mapsto> demo_row]"
    by (simp add: inserted_def Let_def demo_row_def)
  then show "wo_row_insert_slots all_mem None demo_db 0 [DWord 7] = (Inr 1, demo_db1)"
    "table_inv demo_db1 0" "only_table 0 demo_db demo_db1" "live_rows demo_db1 0 = [1 \<mapsto> demo_row]"
    using e s d by simp_all
qed

lemma demo_live_1 [simp]: "h_live 1" "h_live 2"
  by (simp_all add: h_live_def H_DELETED_def)

section \<open>One request\<close>

lemma demo_payload: "payload_ok (row_payload [demo_class] RInsert 0 1 [DWord 7])"
  by (simp add: payload_ok_def row_payload_def WAL_MAX_PAYLOAD_def)

lemma demo_payload9: "payload_ok (row_payload [demo_class] RUpdate 0 1 [DWord 9])"
  by (simp add: payload_ok_def row_payload_def WAL_MAX_PAYLOAD_def)

lemma demo_req_ok: "req_ok demo_db (demo_req WO_B_DB_INSERT)"
  using demo_payload demo_room by (simp add: req_ok_def Let_def)

lemma demo_reqs_ok: "reqs_ok E demo_db demo_wal [demo_req WO_B_DB_INSERT]"
  using demo_req_ok by (simp split: outcome.splits option.splits prod.splits)

lemma demo_exec:
  assumes mem: "\<forall>s. e_mem E s"
  obtains q' db' w' ss where
    "wo_db_exec_req E (Some demo_db) (Some demo_wal) (demo_req WO_B_DB_INSERT) = Lives (q', Some db', Some w')"
    and "log_agrees db' w' [] ss" and "keeps demo_wal w'" and "wbytes w' \<noteq> []"
    and "live_rows db' 0 = [1 \<mapsto> demo_row]" and "only_table 0 demo_db db'" and "table_inv db' 0"
proof -
  obtain q' db' w' where x: "exec_insert E demo_db (Some demo_wal) (demo_req WO_B_DB_INSERT) = Lives (q', db', Some w')"
    and r: "exec_result demo_db demo_wal [] [] q' db' w'" and o: "only_table 0 demo_db db'" and t: "table_inv db' 0"
    and i: "inserted demo_db 0 [DWord 7] (case r_status q' of None \<Rightarrow> Inr (r_result q') | Some e \<Rightarrow> Inl DB_ERR_UNIQUE) db'"
    by (rule exec_insert_agrees [OF mem demo_agrees demo_schema demo_req_ok]) simp_all
  have live: "live_rows db' 0 = [1 \<mapsto> demo_row]"
    using i by (simp add: inserted_def Let_def demo_row_def split: option.splits)
  obtain ss where ss: "log_agrees db' w' [] ss" "keeps demo_wal w'" "ss \<noteq> [] \<longleftrightarrow> wbytes w' \<noteq> []"
    using r by (auto simp: exec_result_def)
  have "durable_rows db' 0 = live_rows db' 0"
    using same_shape_simps(3) [OF only_table_shape [OF o]] demo_durable by (simp only: durable_rows_def simp_thms if_True)
  then have "durable_rows db' \<noteq> (\<lambda>cid. Map.empty)" using live by (metis map_upd_nonempty)
  then have "ss \<noteq> []" using ss(1) by (auto simp: log_agrees_def)
  moreover have "wo_db_exec_req E (Some demo_db) (Some demo_wal) (demo_req WO_B_DB_INSERT) =
      Lives (q'\<lparr>r_slots := []\<rparr>, Some db', Some w')"
    using x by (simp add: wo_db_exec_req_def demo_req_def)
  ultimately show thesis using that ss live o t by blast
qed

lemma demo_drain_dies: "\<exists>f. drain bad_env (Some demo_db) (Some demo_wal) [demo_req WO_B_DB_INSERT] = Dies f"
proof -
  obtain q' db' w' ss where
    "wo_db_exec_req bad_env (Some demo_db) (Some demo_wal) (demo_req WO_B_DB_INSERT) = Lives (q', Some db', Some w')"
    "log_agrees db' w' [] ss" "keeps demo_wal w'" "wbytes w' \<noteq> []"
    by (rule demo_exec [of bad_env]) simp_all
  then show ?thesis
    by (simp add: drain_def staged_bytes_def wo_wal_commit_fatal_def wo_wal_commit_def bad_env_def Let_def)
qed

end
