(* ===== verification/LogProps.thy ===== *)
theory LogProps
  imports Demo
begin

text \<open>
  Properties of the log: what a scan finds, what a commit and a failed commit leave, recovery,
  the fold of delta chains, compaction and its policy; and two behaviours the code does not
  intend, a stale record that comes back and a dump of rows the log must not hold.
\<close>

section \<open>Recovery\<close>

text \<open>C11: Replaying a file that holds the records of a list of statements, followed by zeros,
  executes the statements: it succeeds with their number and the store is the one they give.\<close>

theorem replay_runs_statements:
  assumes "\<forall>s. mem s" and "classes_fit (classes db)" and "db_inv db" and "\<forall>s\<in>set ss. stmt_ok db s"
    and "\<forall>s\<in>set ss. payload_ok (stmt_payload (classes db) s)" and "room_for (length ss) db"
    and "run_stmts (classes db) ss (live_rows db) = Some S"
  shows "\<exists>db'. wo_wal_replay_ex mem rt (Some (frames (map (stmt_payload (classes db)) ss) @ replicate m 0)) db =
      (Replayed (row_records ss), db') \<and> same_shape db db' \<and> db_inv db' \<and> live_rows db' = S"
proof -
  let ?f = "frames (map (stmt_payload (classes db)) ss) @ replicate m 0"
  have "wal_records mem ?f 0 = with_offsets 0 (map (stmt_payload (classes db)) ss)"
    by (rule scan_frames0(1)) (use assms(1,5) scan_zeros in auto)
  then show ?thesis
    using replay_list_stmts [OF assms(1,2,3,4,6,7), of "if rt then Some (replay_view ?f) else None" 0 0]
    by (auto simp: wo_wal_replay_ex_def replay_loop_list)
qed

theorem replay_runs_statements_witness:
  "\<exists>db'. wo_wal_replay_ex all_mem True (Some (frames [row_payload [demo_class] RInsert 0 1 [DWord 7],
       row_payload [demo_class] RUpdate 0 1 [DWord 9]] @ replicate 5 0)) demo_db = (Replayed 2, db') \<and>
     live_rows db' = (\<lambda>cid. Map.empty)(0 := [1 \<mapsto> row_of 0 1 [DWord 9]])"
proof -
  let ?ss = "[SInsert 0 1 [DWord 7], SUpdate 0 1 [DWord 9]]"
  have ok: "\<forall>s\<in>set ?ss. stmt_ok demo_db s" "\<forall>s\<in>set ?ss. payload_ok (stmt_payload (classes demo_db) s)"
    using demo_payload demo_payload9 demo_durable by (auto simp: class_ok_def id_ok_def)
  have room: "room_for (length ?ss) demo_db"
    by (simp add: room_for_def empty_table_def DB_SLAB_ROWS_def)
  have run: "run_stmts (classes demo_db) ?ss (live_rows demo_db) =
      Some ((\<lambda>cid. Map.empty)(0 := [1 \<mapsto> row_of 0 1 [DWord 9]]))"
    by (simp add: violates_def)
  from replay_runs_statements [OF _ _ demo_db_inv ok room run, where mem = all_mem and rt = True and m = 5] demo_fit
  show ?thesis by (auto simp: row_records_def)
qed

text \<open>C12: A barrier that fails part way, with any number of bytes written, leaves a file whose
  intact records are those written before and a prefix of the batch.\<close>

theorem failed_barrier_prefix:
  assumes "log_is w ps qs" and "wo_wal_commit_fatal io w n = Dies f" and "mem AScan"
  shows "\<exists>k\<le>length qs. wal_records mem f 0 = with_offsets 0 (ps @ take k qs)"
  using commit_dies [where mem = mem, OF assms] .

theorem failed_barrier_prefix_witness:
  "\<exists>f k. wo_wal_commit_fatal \<lparr>wr = Some 5, sync_ok = True\<rparr> (demo_wal\<lparr>wbytes := frames [[1, 2], [3]]\<rparr>) 2 = Dies f \<and>
     wal_records all_mem f 0 = with_offsets 0 (take k [[1, 2], [3]])"
proof -
  let ?w = "demo_wal\<lparr>wbytes := frames [[1, 2], [3]]\<rparr>"
  have l: "log_is ?w [] [[1, 2], [3]]" by (auto simp: log_is_def payload_ok_def WAL_MAX_PAYLOAD_def)
  have "frames [[1, 2], [3]] \<noteq> []" by (simp flip: length_0_conv)
  then obtain f where f: "wo_wal_commit_fatal \<lparr>wr = Some 5, sync_ok = True\<rparr> ?w 2 = Dies f"
    by (simp add: wo_wal_commit_fatal_def wo_wal_commit_def Let_def)
  from failed_barrier_prefix [where mem = all_mem, OF l f] f show ?thesis by auto
qed

text \<open>The offset handed out for the next record is where that record is found after the
  commit, the lazily written schema head included.\<close>

theorem next_offset_exact:
  assumes "log_is w ps qs" and "payload_ok p" and "mem AScan" and "wo_wal_next_offset mem w = Lives (off, w1)"
    and "stage mem w1 (Some p) = (True, w2)" and "wo_wal_commit io w2 = (CommitOk, w3)"
  shows "scan_record mem (fbytes w3) off = Some p \<and>
    wal_records mem (fbytes w3) 0 = with_offsets 0 (ps @ qs @ head_payload w @ [p])"
proof -
  have h: "stage_schema_head mem w = (True, w1)"
    using assms(4) by (auto simp: wo_wal_next_offset_def split: prod.splits bool.splits)
  note n = next_offset_after [where mem = mem, OF assms(4,5)]
  have "frames (head_payload w1) = []"
    using stage_schema_head_ok(4) [OF h] by (simp add: head_bytes_payload)
  then have h1: "head_payload w1 = []" by (cases "head_payload w1") (simp_all flip: length_0_conv)
  have l1: "log_is w1 ps (qs @ head_payload w)" by (rule log_is_head [OF assms(1) h])
  have "log_is w2 ps (qs @ head_payload w @ [p])"
    using log_is_stage [OF l1 assms(5,2)] h1 by simp
  note l3 = commit_ok(1) [OF this assms(6)]
  have off: "off = length (frames (ps @ qs @ head_payload w))"
    using n(1,3) assms(1) l1 by (simp add: log_is_def)
  obtain m where f: "fbytes w3 = frames (ps @ qs @ head_payload w) @ frame p @ replicate m 0"
    using l3 by (auto simp: log_is_def)
  have "scan_record mem (frame p @ replicate m 0) 0 = Some p"
    by (rule scan_record_frame) (use assms(2,3) in \<open>simp_all add: payload_ok_def\<close>)
  then have "scan_record mem (fbytes w3) off = Some p"
    using scan_record_shift [of mem "frames (ps @ qs @ head_payload w)" "frame p @ replicate m 0" 0] f off by simp
  then show ?thesis using log_is_records(1) [where mem = mem, OF l3 assms(3)] by simp
qed

theorem next_offset_exact_witness:
  "\<exists>w1 w2 w3. wo_wal_next_offset all_mem (demo_wal\<lparr>schema := Some [9, 9]\<rparr>) = Lives (14, w1) \<and>
     stage all_mem w1 (Some [5]) = (True, w2) \<and> wo_wal_commit \<lparr>wr = None, sync_ok = True\<rparr> w2 = (CommitOk, w3) \<and>
     scan_record all_mem (fbytes w3) 14 = Some [5] \<and> wal_records all_mem (fbytes w3) 0 = [(0, [9, 9]), (14, [5])]"
proof -
  let ?w = "demo_wal\<lparr>schema := Some [9, 9]\<rparr>"
  have l: "log_is ?w [] []" by (auto simp: log_is_def payload_ok_def WAL_MAX_PAYLOAD_def)
  have hp: "head_payload ?w = [[9, 9]]" by (simp add: head_payload_def)
  obtain w1 where h: "stage_schema_head all_mem ?w = (True, w1)"
    using stage_frame_total [of all_mem "?w\<lparr>schema_written := True\<rparr>"]
    by (auto simp: stage_schema_head_def Let_def split: option.splits) (metis prod.collapse)
  note h1 = stage_schema_head_ok [OF h]
  have o: "wo_wal_next_offset all_mem ?w = Lives (14, w1)"
    using h h1 hp by (simp add: wo_wal_next_offset_def head_bytes_payload)
  obtain w2 where s: "stage all_mem w1 (Some [5]) = (True, w2)"
    using stage_total [of all_mem w1 "[5]"] by (metis all_mem(1) prod.collapse)
  have "wbytes w2 \<noteq> []" using stage_ok(1) [OF s] by (simp flip: length_0_conv)
  then have "fst (wo_wal_commit \<lparr>wr = None, sync_ok = True\<rparr> w2) = CommitOk"
    by (simp add: wo_wal_commit_def Let_def)
  then obtain w3 where c: "wo_wal_commit \<lparr>wr = None, sync_ok = True\<rparr> w2 = (CommitOk, w3)"
    by (metis prod.collapse)
  have p: "payload_ok [5]" by (simp add: payload_ok_def WAL_MAX_PAYLOAD_def)
  from next_offset_exact [where mem = all_mem, OF l p all_mem(1) o s c] o s c hp
  show ?thesis by simp
qed

section \<open>Records\<close>

text \<open>However a write of a record was cut short, the scan does not take what is there for a
  record: any proper prefix of a frame, followed by zeros, is the end of the log.\<close>

theorem torn_record_is_end:
  assumes "n < length (frame p)" and "payload_ok p"
  shows "scan_record mem (take n (frame p) @ replicate m 0) 0 = None"
  by (rule scan_torn [OF assms])

theorem torn_record_is_end_witness: "scan_record all_mem (take 5 (frame [7]) @ replicate 9 0) 0 = None"
  by (rule torn_record_is_end) (simp_all add: payload_ok_def WAL_MAX_PAYLOAD_def)

section \<open>Delta chains\<close>

text \<open>C36: Folding a chain of deltas gives the base row with the deltas applied, oldest first, and
  the number of hops, wherever the records are, in the file or in the batch.\<close>

theorem fold_applies_deltas:
  assumes "chain mem w cs cid rid off vs n" and "\<forall>s. mem s" and "classes_fit cs" and "cid < length cs"
  shows "wo_wal_fold_row_at mem w cs off = Inr (cid, rid, vs, n)"
  using fold_row_chain [where mem = mem, OF assms] .

text \<open>Whatever bytes the log holds, a fold that succeeds returns a row of a known class whose
  values are of the class's kinds.\<close>

theorem fold_returns_rows:
  assumes "wo_wal_fold_row_at mem w cs off = Inr (cid, rid, vs, h)"
  shows "cid < length cs \<and> vals_ok cs (kinds (cs ! cid)) vs"
  by (rule fold_row_ok [OF assms])

definition chain_wal :: wo_wal where
  "chain_wal = demo_wal\<lparr>fbytes := frame (row_payload [demo_class] RInsert 0 1 [DWord 7]) @
     frame (delta_payload [demo_class] 0 1 0 0 (DWord 9)), woff := 66\<rparr>"

lemma demo_delta_payload: "payload_ok (delta_payload [demo_class] 0 1 0 0 (DWord 9))"
  by (simp add: payload_ok_def delta_payload_def WAL_MAX_PAYLOAD_def)

lemma demo_chain: "chain all_mem chain_wal [demo_class] 0 1 33 ([DWord 7][0 := DWord 9]) (0 + 1)"
proof (rule chain.delta)
  let ?p = "row_payload [demo_class] RInsert 0 1 [DWord 7]" and ?d = "delta_payload [demo_class] 0 1 0 0 (DWord 9)"
  have len: "length (frame ?p) = 33" by (simp add: row_payload_def)
  have sc: "scan_record all_mem (frame p @ rest) 0 = Some p" if "payload_ok p" for p rest
    by (rule scan_record_frame) (use that in \<open>simp_all add: payload_ok_def\<close>)
  show "fold_read all_mem chain_wal 33 = Some ?d"
    using scan_record_shift [of all_mem "frame ?p" "frame ?d" 0] sc [OF demo_delta_payload, of "[]"] len
    by (simp add: fold_read_def chain_wal_def)
  show "chain all_mem chain_wal [demo_class] 0 1 0 [DWord 7] 0"
  proof (rule chain.base)
    show "fold_read all_mem chain_wal 0 = Some ?p"
      using sc [OF demo_payload] by (simp add: fold_read_def chain_wal_def)
  qed simp_all
qed simp_all

theorem fold_applies_deltas_witness:
  "wo_wal_fold_row_at all_mem chain_wal [demo_class] 33 = Inr (0, 1, [DWord 9], 1)"
  using fold_applies_deltas [where mem = all_mem, OF demo_chain _ demo_fit] by simp

theorem fold_returns_rows_witness: "vals_ok [demo_class] (kinds demo_class) ([DWord 7][0 := DWord 9])"
proof -
  have "wo_wal_fold_row_at all_mem chain_wal [demo_class] 33 = Inr (0, 1, [DWord 7][0 := DWord 9], 0 + 1)"
    using fold_row_chain [where mem = all_mem, OF demo_chain _ demo_fit] by simp
  from fold_returns_rows [OF this] show ?thesis by simp
qed

section \<open>Compaction\<close>

text \<open>C13: Compaction of a store whose rows are in memory leaves the store as it is. If it fails, it leaves
  the log as it is, and it fails only through its device; if not, the new log has exactly the schema and
  one insert for each live row, and when no class without durability has rows, log and store still agree.\<close>

theorem compaction_keeps_store:
  assumes "\<forall>s. mem s" and "log_agrees db w done []" and "rows_in_memory db" and "schema_head_ok w"
    and "\<forall>s\<in>set (dump db [0..<length (tables db)]). payload_ok (stmt_payload (classes db) s)"
  shows "\<exists>ok w'. wo_wal_compact mem c w db = Lives (ok, db, w') \<and> (device_ok c \<longrightarrow> ok) \<and> (\<not> ok \<longrightarrow> w' = w) \<and>
    (ok \<longrightarrow> compacted_bytes w' = woff w' \<and> schema w' = schema w \<and>
       wal_records mem (fbytes w') 0 =
         with_offsets 0 (map (stmt_payload (classes db)) (head_stmts (schema w) @ dump db [0..<length (tables db)])) \<and>
       (live_rows db = durable_rows db \<longrightarrow> log_agrees db w' (head_stmts (schema w) @ dump db [0..<length (tables db)]) []))"
  by (rule compact_any_device [OF assms])

theorem compaction_keeps_store_witness:
  "\<exists>db w ss w'. live_rows db 0 = [1 \<mapsto> demo_row] \<and> log_agrees db w ss [] \<and>
     wo_wal_compact all_mem good_cio w db = Lives (True, db, w') \<and> compacted_bytes w' = woff w' \<and>
     log_agrees db w' (dump db [0..<1]) []"
proof -
  obtain q1 db w0 ss where x: "log_agrees db w0 [] ss" "keeps demo_wal w0" "live_rows db 0 = [1 \<mapsto> demo_row]"
      "only_table 0 demo_db db" "wbytes w0 \<noteq> []"
    by (rule demo_exec [of good_env]) simp_all
  note sh = same_shape_simps [OF only_table_shape [OF x(4)]]
  have len: "length (tables db) = 1" using only_table_shape [OF x(4)] by (simp add: same_shape_def)
  obtain w where c: "wo_wal_commit_fatal (e_io good_env) w0 1 = Lives w"
    using x(5) by (simp add: wo_wal_commit_fatal_def wo_wal_commit_def good_env_def Let_def)
  note l = commit_agrees [OF x(1) c, simplified]
  have inv: "db_inv db" using x(1) by (simp add: log_agrees_def)
  have sw: "schema w = None" using l(2) x(2) by (simp add: keeps_def)
  have other: "live_rows db c = Map.empty" if "c \<noteq> 0" for c
    using that len by (simp add: live_rows_def fun_eq_iff)
  have res: "rows_in_memory db" by (simp add: rows_in_memory_def sh len)
  have dur: "live_rows db = durable_rows db"
  proof
    fix c show "live_rows db c = durable_rows db c"
      using other [of c] demo_durable by (cases "c = 0") (simp_all only: durable_rows_def sh simp_thms if_True if_cancel)
  qed
  have pay: "\<forall>s\<in>set (dump db [0..<length (tables db)]). payload_ok (stmt_payload (classes db) s)"
  proof
    fix s assume "s \<in> set (dump db [0..<length (tables db)])"
    then obtain cid i r where s: "s = SInsert cid i (slots r)" "live_rows db cid i = Some r"
      by (rule dump_live [OF inv res])
    then have "cid = 0" using other [of cid] by (cases "cid = 0") simp_all
    then have "i = 1 \<and> r = demo_row" using s(2) x(3) by (simp split: if_splits)
    then show "payload_ok (stmt_payload (classes db) s)" using s(1) \<open>cid = 0\<close> demo_payload by (simp add: sh)
  qed
  have hd: "schema_head_ok w" using sw by (simp add: schema_head_ok_def)
  obtain w' where "wo_wal_compact all_mem good_cio w db = Lives (True, db, w')" "compacted_bytes w' = woff w'"
    "log_agrees db w' (head_stmts (schema w) @ dump db [0..<length (tables db)]) []"
    using compaction_keeps_store [where mem = all_mem and c = good_cio, OF _ l(1) res hd pay] good_cio dur by fastforce
  then show ?thesis using l(1) x(3) by (auto simp: sw head_stmts_def len)
qed

text \<open>What the checkpoint policy decides, when the product does not wrap: nothing below the
  floor; else the first time, at 64 MiB of garbage, or past the ratio.\<close>

theorem checkpoint_policy:
  assumes "unat last_bytes * unat ratio < 2 ^ 64"
  shows "wo_wal_should_compact used_bytes last_bytes floor_bytes ratio \<longleftrightarrow>
    unat floor_bytes \<le> unat used_bytes \<and>
    (last_bytes = 0 \<or>
     ratio \<noteq> 0 \<and>
     (unat last_bytes + 64 * 2 ^ 20 \<le> unat used_bytes \<or> unat last_bytes * unat ratio < unat used_bytes))"
  by (rule should_compact_iff [OF assms])

theorem checkpoint_policy_witness:
  "wo_wal_should_compact 30 9 20 3 \<longleftrightarrow> (20 :: nat) \<le> 30 \<and> (9 + 64 * 2 ^ 20 \<le> (30 :: nat) \<or> 9 * 3 < (30 :: nat))"
  using checkpoint_policy [of 9 3 30 20] by simp

section \<open>Two unintended behaviours\<close>

text \<open>Opening a log does not clear what lies behind the intact prefix. When the torn space in
  front of a stale intact record is filled by a new record of the same size, the stale record is
  part of the log again, though the log had been opened and read without it.\<close>

theorem stale_record_returns:
  assumes "\<forall>p\<in>set ps. payload_ok p" and "payload_ok p" and "payload_ok q" and "mem AScan"
    and "scan_record mem (torn @ frame q @ replicate m 0) 0 = None" and "length torn = length (frame p)"
    and "stage mem (wo_wal_open mem (stale_file ps torn q m) 0) (Some p) = (True, w)"
    and "wo_wal_commit io w = (CommitOk, w')"
  shows "wal_records mem (stale_file ps torn q m) 0 = with_offsets 0 ps \<and>
    wal_records mem (fbytes w') 0 = with_offsets 0 (ps @ [p, q])"
  using stale_invisible(2) [where mem = mem, OF assms(1,4,5)] stale_revived [where mem = mem, OF assms] by simp

theorem stale_record_returns_witness:
  "\<exists>w w'. wal_records all_mem (stale_file [] (replicate 13 0) [8] 4) 0 = [] \<and>
     stage all_mem (wo_wal_open all_mem (stale_file [] (replicate 13 0) [8] 4) 0) (Some [7]) = (True, w) \<and>
     wo_wal_commit \<lparr>wr = None, sync_ok = True\<rparr> w = (CommitOk, w') \<and>
     wal_records all_mem (fbytes w') 0 = [(0, [7]), (13, [8])]"
proof -
  let ?f = "stale_file [] (replicate 13 0) [8] 4" and ?io = "\<lparr>wr = None, sync_ok = True\<rparr>"
  have p: "payload_ok [7]" "payload_ok [8]" by (simp_all add: payload_ok_def WAL_MAX_PAYLOAD_def)
  have t: "scan_record all_mem (replicate 13 0 @ frame [8] @ replicate 4 0) 0 = None"
    by (simp add: scan_record_def pread_def Let_def)
  obtain w where s: "stage all_mem (wo_wal_open all_mem ?f 0) (Some [7]) = (True, w)"
    using stage_total [of all_mem "wo_wal_open all_mem ?f 0" "[7]"] by (metis all_mem(1) prod.collapse)
  have "wbytes w \<noteq> []" using stage_ok(1) [OF s] by (simp flip: length_0_conv)
  then have "fst (wo_wal_commit ?io w) = CommitOk" by (simp add: wo_wal_commit_def Let_def)
  then obtain w' where c: "wo_wal_commit ?io w = (CommitOk, w')" by (metis prod.collapse)
  from stale_record_returns [where mem = all_mem, OF _ p all_mem(1) t _ s c] s c show ?thesis by simp
qed

text \<open>C14: Compaction dumps every table with rows, also one declared not durable. A store with a live
  row of such a class is compacted into a log that the next start refuses to replay.\<close>

theorem compaction_dumps_volatile:
  assumes "\<forall>s. mem s" and "device_ok c" and "wbytes w = []" and "db_inv db" and "classes_fit (classes db)"
    and "rows_in_memory db" and "schema_head_ok w"
    and "\<forall>s\<in>set (dump db [0..<length (tables db)]). payload_ok (stmt_payload (classes db) s)"
    and "shard db < nshards db" and "nshards db < 2 ^ 32"
    and "\<forall>cid i. live_rows db cid i \<noteq> None \<longrightarrow> id_ok db i"
    and "length (head_stmts (schema w) @ dump db [0..<length (tables db)]) * DB_SLAB_ROWS < 2 ^ 32"
    and "live_rows db cid i \<noteq> None" and "cls_flags (class_of db cid) AND WO_CLASSF_VOLATILE \<noteq> 0"
  shows "\<exists>w' cid' db'. wo_wal_compact mem c w db = Lives (True, db, w') \<and>
    cls_flags (class_of db cid') AND WO_CLASSF_VOLATILE \<noteq> 0 \<and>
    wo_wal_replay_ex mem rt (Some (fbytes w')) (fresh_db db) = (ReplayVolatile cid', db')"
  by (rule compact_volatile [OF assms])

definition vol_class :: wo_classdesc where
  "vol_class = \<lparr>cls_flags = WO_CLASSF_TABLE OR WO_CLASSF_VOLATILE, kinds = [KScalar], field_class = None, field_elem = None, idx_meta = []\<rparr>"

definition vol_db :: wo_db where
  "vol_db = snd (wo_row_insert_slots all_mem None (demo_db\<lparr>classes := [vol_class]\<rparr>) 0 [DWord 7])"

lemma vol_db:
  "wo_row_insert_slots all_mem None (demo_db\<lparr>classes := [vol_class]\<rparr>) 0 [DWord 7] = (Inr 1, vol_db)"
  "db_inv vol_db" "classes vol_db = [vol_class]" "class_of vol_db 0 = vol_class" "shard vol_db = 0"
  "nshards vol_db = 1" "length (tables vol_db) = 1" "rows_in_memory vol_db" "live_rows vol_db 0 = [1 \<mapsto> demo_row]"
proof -
  let ?db = "demo_db\<lparr>classes := [vol_class]\<rparr>"
  have c: "class_of ?db 0 = vol_class" by (simp add: class_of_def)
  have nr: "\<not> wo_table_is_keys_resident ?db 0"
    unfolding wo_table_is_keys_resident_def c
    by (simp add: vol_class_def WO_CLASSF_RESIDENT_KEYS_def WO_CLASSF_TABLE_def WO_CLASSF_VOLATILE_def)
  have t: "table_inv ?db 0" using nr by (simp add: table_inv_def table_fits_def empty_table_def)
  have e: "live_rows ?db 0 = Map.empty" by (simp add: fun_eq_iff live_rows_def empty_table_def)
  have f: "fresh_id ?db 0 = 1" by (simp add: fresh_id_def empty_table_def)
  have room: "has_room ?db 0" by (simp add: has_room_def f DB_SLAB_ROWS_def empty_table_def)
  obtain x where i: "wo_row_insert_slots all_mem None ?db 0 [DWord 7] = (x, vol_db)"
    by (metis vol_db_def prod.collapse)
  have s: "table_inv vol_db 0 \<and> only_table 0 ?db vol_db \<and> inserted ?db 0 [DWord 7] x vol_db"
    by (rule insert_slots_spec [OF _ t room _ i, unfolded c]) (simp_all add: vol_class_def)
  note shp = only_table_shape [of 0 ?db vol_db] and sh = same_shape_simps [OF only_table_shape [of 0 ?db vol_db]]
  have "db_inv ?db" using t by (simp add: db_inv_def)
  then show "db_inv vol_db" using s db_inv_one by blast
  show "classes vol_db = [vol_class]" "class_of vol_db 0 = vol_class" "nshards vol_db = 1" "rows_in_memory vol_db"
    "shard vol_db = 0" "length (tables vol_db) = 1"
    using s sh nr shp c by (simp_all add: rows_in_memory_def same_shape_def)
  show "wo_row_insert_slots all_mem None ?db 0 [DWord 7] = (Inr 1, vol_db)" "live_rows vol_db 0 = [1 \<mapsto> demo_row]"
    using s i by (simp_all add: inserted_def Let_def e f c demo_row_def)
qed

theorem compaction_dumps_volatile_witness:
  "\<exists>w' cid' db'. wo_wal_compact all_mem good_cio demo_wal vol_db = Lives (True, vol_db, w') \<and>
     wo_wal_replay_ex all_mem True (Some (fbytes w')) (fresh_db vol_db) = (ReplayVolatile cid', db')"
proof -
  have other: "live_rows vol_db c = Map.empty" if "c \<noteq> 0" for c
    using that vol_db(7) by (simp add: live_rows_def fun_eq_iff)
  have row: "c = 0 \<and> i = 1 \<and> r = demo_row" if "live_rows vol_db c i = Some r" for c i r
    using that other [of c] vol_db(9) by (cases "c = 0") (simp_all split: if_splits)
  have ids: "row_ids_from vol_db 0 0 = [1]"
  proof -
    have t: "table_inv vol_db 0" using vol_db(2,3,8) vol_db(7)
      by (simp add: db_inv_def wo_table_is_keys_resident_def vol_db(4) vol_class_def WO_CLASSF_RESIDENT_KEYS_def
          WO_CLASSF_TABLE_def WO_CLASSF_VOLATILE_def)
    have "distinct (row_ids_from vol_db 0 0)" "set (row_ids_from vol_db 0 0) = {1}"
      using row_ids_live [OF t] vol_db(9) by simp_all
    then have "length (row_ids_from vol_db 0 0) = 1"
      by (metis One_nat_def card.empty card_insert_disjoint distinct_card empty_iff finite.emptyI)
    then obtain x where "row_ids_from vol_db 0 0 = [x]" by (metis One_nat_def length_0_conv length_Suc_conv)
    then show ?thesis using \<open>set (row_ids_from vol_db 0 0) = {1}\<close> by simp
  qed
  have d: "dump vol_db [0..<length (tables vol_db)] = [SInsert 0 1 [DWord 7]]"
    by (simp add: dump_def vol_db ids row_insert_def)
  have pay: "\<forall>s\<in>set (dump vol_db [0..<length (tables vol_db)]). payload_ok (stmt_payload (classes vol_db) s)"
    unfolding d by (simp add: vol_db(3) payload_ok_def row_payload_def WAL_MAX_PAYLOAD_def vol_class_def)
  have idk: "\<forall>cid i. live_rows vol_db cid i \<noteq> None \<longrightarrow> id_ok vol_db i"
  proof (intro allI impI)
    fix cid i assume "live_rows vol_db cid i \<noteq> None"
    then have "i = 1" using row by blast
    then show "id_ok vol_db i" by (simp add: id_ok_def vol_db(6))
  qed
  show ?thesis
    using compaction_dumps_volatile [where mem = all_mem and db = vol_db and w = demo_wal and c = good_cio and
        rt = True and cid = 0 and i = 1, OF _ good_cio _ vol_db(2) _ vol_db(8) demo_schema pay _ _ idk]
    by (auto simp: d vol_db ids dump_def head_stmts_def DB_SLAB_ROWS_def classes_fit_def vol_class_def WO_CLASSF_TABLE_def
        WO_CLASSF_VOLATILE_def)
qed

end
