(* ===== verification/InsertFaults.thy ===== *)
theory InsertFaults
  imports TableOps
begin

text \<open>
  The insert of VM values whatever memory is found: which answers there are, what each means for the
  rows, the next id and the invariant of the table. Without memory the rows are still as they were, but
  the invariant may be lost: the index array that is not allocated is never made up for, an id may be
  skipped, and an index may keep the id of the row that was not inserted.
\<close>

lemma live_rows_set:
  assumes "cid < length (tables db)" and "row_at t = live_rows db cid" and "\<not> wo_table_is_keys_resident db cid"
    and "row_size t \<noteq> 0" and "\<And>i r. row_at t i = Some r \<Longrightarrow> row_id r = i"
  shows "live_rows (set_table db cid t) cid = live_rows db cid"
  using assms by (auto simp: fun_eq_iff live_rows_def [of "set_table db cid t"] split: option.splits)

lemma live_row_id: "live_rows db cid i = Some r \<Longrightarrow> row_id r = i"
  by (auto simp: live_rows_def split: if_splits option.splits)

lemma row_at_cong:
  "rows t = rows t' \<Longrightarrow> idmap t = idmap t' \<Longrightarrow> row_at t = row_at t'"
  by (simp add: fun_eq_iff row_at_def)

lemma table_of_fails:
  assumes inv: "table_inv db cid" and t: "table_of mem db cid = (False, db')"
  shows "only_table cid db db' \<and> live_rows db' cid = live_rows db cid \<and> (\<exists>s. \<not> mem s)"
proof -
  have c: "cid < length (tables db)" and k: "\<not> wo_table_is_keys_resident db cid"
    using inv by (auto simp: table_inv_def table_fits_def)
  define t1 where "t1 = (tables db ! cid)\<lparr>row_size := 16 + field_cnt (class_of db cid) * 8, next_id := of_nat (shard db + 1)\<rparr>"
  have e: "row_size (tables db ! cid) = 0" "db' = set_table db cid t1" "\<not> mem ATabIndexes"
    using t c by (auto simp: table_of_def Let_def t1_def split: if_splits)
  then have "tables db ! cid = empty_table" using inv by (simp add: table_inv_def)
  then have "row_at t1 = Map.empty" using empty_row_at row_at_cong [of t1 empty_table] by (simp add: t1_def)
  moreover have "live_rows db cid = Map.empty" using e(1) by (simp add: live_rows_def fun_eq_iff)
  ultimately have "live_rows db' cid = live_rows db cid"
    unfolding e(2) by (intro live_rows_set) (use c k in \<open>simp_all add: t1_def\<close>)
  then show ?thesis using e by auto
qed

text \<open>The row placed and indexed, or taken back.\<close>

lemma place_any:
  assumes fits: "table_fits db cid" and ti: "tab_inv db cid t"
    and g: "g < length (rows t)" "\<not> bitmap t ! g" "g \<notin> set (free_slots t)"
    and small: "unat (next_id t) + nshards db < 2 ^ 64 - 1"
    and ok: "vals_ok (classes db) (kinds (class_of db cid)) ds"
    and put: "hput mem (idmap t) (next_id t) (of_nat g + 1) = Some h"
    and r: "r = \<lparr>row_id = next_id t, row_class = cid, slots = ds\<rparr>"
    and t2: "t2 = t\<lparr>rows := (rows t)[g := r], next_id := next_id t + of_nat (nshards db), idmap := h,
      bitmap := (bitmap t)[g := True], count := count t + 1\<rparr>"
    and res: "(case idx_add_row mem (class_of db cid) (peek_row mem wo (set_table db cid t2) cid) (indexes t) r of
        (ixs, e) \<Rightarrow>
          if e \<noteq> DB_ERR_NONE
          then (Inl e, set_table db cid (undo_insert db (t2\<lparr>indexes := ixs\<rparr>) g (next_id t)))
          else (Inr (next_id t), set_table db cid (t2\<lparr>indexes := ixs\<rparr>))) = (x, db')"
  shows "only_table cid db db' \<and> row_at t (next_id t) = None \<and>
    (x = Inl DB_ERR_UNIQUE \<and> violates (class_of db cid) (row_at t) r \<and> table_inv db' cid \<and>
       live_rows db' cid = row_at t \<and> fresh_id db' cid = next_id t \<or>
     x = Inl DB_ERR_OOM \<and> (\<exists>s. \<not> mem s) \<and> live_rows db' cid = row_at t \<or>
     x = Inr (next_id t) \<and> \<not> violates (class_of db cid) (row_at t) r \<and> table_inv db' cid \<and>
       live_rows db' cid = (row_at t)(next_id t \<mapsto> r) \<and> fresh_id db' cid = next_id t + of_nat (nshards db))"
proof -
  obtain ixs e where add: "idx_add_row mem (class_of db cid) (peek_row mem wo (set_table db cid t2) cid)
      (indexes t2) r = (ixs, e)" by force
  note fr = next_id_fresh [OF fits ti small]
  have t2': "rows t2 = (rows t)[g := r]" "bitmap t2 = (bitmap t)[g := True]" "idmap t2 = h"
      "free_slots t2 = free_slots t" "indexes t2 = indexes t" "row_size t2 = row_size t"
      "next_id t2 = next_id t + of_nat (nshards db)" by (simp_all add: t2)
  have r': "row_id r = next_id t" "row_class r = cid" "vals_ok (classes db) (kinds (class_of db cid)) (slots r)"
    using ok by (simp_all add: r)
  have c: "cid < length (tables db)" "0 < nshards db" using fits by (auto simp: table_fits_def)
  have rs: "row_size t2 \<noteq> 0" and ii: "ids_inv (nshards db) (shard db) t"
    using ti by (simp_all add: t2 tab_inv_def)
  note core = index_placed [OF fits ti g fr(2) [folded r'(1)] fr(1) [folded r'(1)] r'(2,3)
      put [folded r'(1)] t2'(1-6) add]
  have sl: "slots_inv (classes db) (class_of db cid) cid t" using ti by (simp add: tab_inv_def)
  have e3: "e \<in> {DB_ERR_NONE, DB_ERR_UNIQUE, DB_ERR_OOM}"
    using add by (auto simp: idx_add_row_def split: if_splits prod.splits)
  let ?u = "undo_insert db t2 g (next_id t)" and ?v = "undo_insert db (t2\<lparr>indexes := ixs\<rparr>) g (next_id t)"
  note un = undo_insert_ok [OF ti g(1) core(1) core(2) [unfolded r'(1)] fr(1) r'(1) t2'(1,2,4-7)]
  have u: "row_at ?v = row_at t" "next_id ?u = next_id t" "row_size ?v \<noteq> 0" "row_size ?u \<noteq> 0"
    using un rs row_at_cong [of ?v ?u] by (simp_all add: undo_insert_def t2')
  consider "e = DB_ERR_NONE" | "e = DB_ERR_UNIQUE" | "e = DB_ERR_OOM" using e3 by blast
  then show ?thesis
  proof cases
    case 1
    have x: "x = Inr (next_id t)" "db' = set_table db cid (t2\<lparr>indexes := ixs\<rparr>)" using res add 1 t2' by auto
    have "ids_inv (nshards db) (shard db) t2"
      by (rule ids_inv_new [OF ii small c(2) core(2) [unfolded r'(1)] t2'(7)])
    from core(4) [OF 1 this] show ?thesis
      using x 1 core(3) fr(1) table_inv_set [OF fits, of "t2\<lparr>indexes := ixs\<rparr>"]
        fresh_id_set [OF c(1), of "t2\<lparr>indexes := ixs\<rparr>"] rs t2' r' by simp
  next
    case 2
    have "t2\<lparr>indexes := ixs\<rparr> = t2" using core(5) [OF 2] t2 by simp
    then have x: "x = Inl DB_ERR_UNIQUE" "db' = set_table db cid ?u" using res add 2 t2' by auto
    then show ?thesis
      using 2 core(3) fr(1) table_inv_set [OF fits, of ?u] fresh_id_set [OF c(1), of ?u] un u by simp
  next
    case 3
    have x: "x = Inl DB_ERR_OOM" "db' = set_table db cid ?v" using res add 3 t2' by auto
    have "row_id q = i" if "row_at t i = Some q" for i q by (rule row_at_id [OF sl that])
    then have "live_rows db' cid = row_at t"
      unfolding x(2) using c(1) fits u by (auto simp: fun_eq_iff live_rows_def table_fits_def split: option.splits)
    moreover have "\<exists>s. \<not> mem s" using core(6) 3 by auto
    ultimately show ?thesis using x fr(1) by simp
  qed
qed

text \<open>What an insert answers, whatever memory is found.\<close>

lemma insert_any:
  assumes inv: "table_inv db cid" and room: "has_room db cid"
    and ok: "\<And>ds. encode_all mem (classes db) (kinds (class_of db cid)) args = Inr ds \<Longrightarrow>
      vals_ok (classes db) (kinds (class_of db cid)) ds"
    and ins: "wo_row_insert mem wo db cid args = (x, db')"
  shows "only_table cid db db' \<and>
    (case x of
       Inr i \<Rightarrow> table_inv db' cid \<and>
         (\<exists>ds. encode_all mem (classes db) (kinds (class_of db cid)) args = Inr ds \<and> inserted db cid ds x db')
     | Inl e \<Rightarrow> live_rows db' cid = live_rows db cid \<and>
         (e = DB_ERR_BADKIND \<and> table_inv db' cid \<and> fresh_id db' cid = fresh_id db cid \<and>
            (\<exists>f. encode_all mem (classes db) (kinds (class_of db cid)) args = Inl f) \<or>
          e = DB_ERR_UNIQUE \<and> table_inv db' cid \<and>
            (\<exists>ds. encode_all mem (classes db) (kinds (class_of db cid)) args = Inr ds \<and> inserted db cid ds x db') \<or>
          e \<in> {DB_ERR_OOM, DB_ERR_MISC} \<and> (\<exists>s. \<not> mem s)))"
proof (cases "table_of mem db cid")
  case to: (Pair b db1)
  show ?thesis
  proof (cases b)
    case False
    then show ?thesis using table_of_fails [OF inv] to ins by (auto simp: wo_row_insert_def)
  next
    case True
    have to: "table_of mem db cid = (True, db1)" using to True by simp
    note t1 = table_of_ok [OF inv to] and fr = table_of_frame [OF inv to]
    note oc = only_table_classes [OF fr(3)]
    have c1: "cid < length (tables db1)" and k1: "\<not> wo_table_is_keys_resident db1 cid"
      using t1 by (auto simp: table_fits_def)
    have sl0: "slots_inv (classes db1) (class_of db1 cid) cid (tables db1 ! cid)" and rs0: "row_size (tables db1 ! cid) \<noteq> 0"
      using t1 by (simp_all add: tab_inv_def)
    have live1: "live_rows db1 cid = live_rows db cid" using live_row_at [of db1 cid] t1 by simp
    obtain go t where sa: "slot_alloc mem (tables db1 ! cid) = (go, t)" by force
    show ?thesis
    proof (cases go)
      case None
      obtain n where t: "t = (tables db1 ! cid)\<lparr>slab_cap := n\<rparr>" using slot_alloc_fail sa None by blast
      have x: "x = Inl DB_ERR_MISC" "db' = set_table db1 cid t"
        using ins to sa None oc by (simp_all add: wo_row_insert_def Let_def)
      have "row_at t = row_at (tables db1 ! cid)" using t by (intro row_at_cong) simp_all
      then have ra: "row_at t = live_rows db1 cid" using t1 live1 by simp
      have rst: "row_size t \<noteq> 0" using rs0 t by simp
      have "live_rows db' cid = live_rows db1 cid"
        unfolding x(2) by (rule live_rows_set [OF c1 ra k1 rst]) (use ra live_row_id in simp)
      moreover have "\<exists>s. \<not> mem s" using slot_alloc_total [of mem "tables db1 ! cid"] sa None by auto
      ultimately show ?thesis using x live1 only_table_trans [OF fr(3)] by simp
    next
      case (Some g)
      have rm: "length (rows (tables db1 ! cid)) + DB_SLAB_ROWS < 2 ^ 32" using room fr by (simp add: has_room_def)
      note so = slot_alloc_ok [OF sl0 rm sa [unfolded Some]]
      have ti: "tab_inv db1 cid t" using so t1 by (simp add: tab_inv_def ids_inv_def)
      have sl: "slots_inv (classes db1) (class_of db1 cid) cid t" using ti by (simp add: tab_inv_def)
      have g: "g < length (rows t)" "\<not> bitmap t ! g" "g \<notin> set (free_slots t)" using so by simp_all
      have ra: "row_at t = live_rows db cid" and ni: "next_id t = fresh_id db cid" using so t1 fr by simp_all
      have rst: "row_size t \<noteq> 0" and fits: "table_fits db1 cid" using so rs0 t1 by simp_all
      have small: "unat (next_id t) + nshards db1 < 2 ^ 64 - 1" using room ni oc by (simp add: has_room_def)
      show ?thesis
      proof (cases "encode_all mem (classes db) (kinds (class_of db cid)) args")
        case (Inl f)
        then have x: "x = Inl DB_ERR_BADKIND" "db' = set_table db1 cid (recycle mem t g)"
          using ins to sa Some oc by (simp_all add: wo_row_insert_def Let_def)
        note rc = recycle_ok(1,2) [OF sl g, where mem = mem]
        have ti': "tab_inv db1 cid (recycle mem t g)" using ti rc by (simp add: tab_inv_def ids_inv_def)
        then have rs: "row_size (recycle mem t g) \<noteq> 0" by (simp add: tab_inv_def)
        show ?thesis
          using x Inl table_inv_set [OF fits ti'] only_table_trans [OF fr(3)] rc ra ni fresh_id_set [OF c1 rs] by simp
      next
        case (Inr ds)
        define r where "r = \<lparr>row_id = next_id t, row_class = cid, slots = ds\<rparr>"
        show ?thesis
        proof (cases "hput mem (idmap t) (next_id t) (of_nat g + 1)")
          case None
          let ?t1 = "t\<lparr>rows := (rows t)[g := r], next_id := next_id t + of_nat (nshards db1)\<rparr>"
          have x: "x = Inl DB_ERR_OOM" "db' = set_table db1 cid ?t1"
            using ins to sa Some Inr oc None by (simp_all add: wo_row_insert_def Let_def r_def)
          have "row_at ?t1 = row_at t"
          proof
            fix i
            show "row_at ?t1 i = row_at t i"
            proof (cases "row_at t i")
              case None
              then show ?thesis by (auto simp: row_at_def split: if_splits)
            next
              case (Some q)
              from sl Some obtain p where "p < length (rows t)" "bitmap t ! p" "rows t ! p = q"
                "hget (idmap t) i = of_nat p + 1" "h_live i" by (rule row_at_Some)
              moreover have "length (rows t) < 2 ^ 32" using sl by (simp add: slots_inv_def)
              ultimately have "unat (hget (idmap t) i - 1) \<noteq> g" using g of_nat_slot(1) [of p] by auto
              then show ?thesis by (simp add: row_at_def)
            qed
          qed
          then have "live_rows db' cid = live_rows db1 cid"
            unfolding x(2) using c1 k1 rst ra live1 live_row_id [of db cid] by (intro live_rows_set) simp_all
          moreover have "\<exists>s. \<not> mem s"
          proof (rule ccontr)
            assume "\<nexists>s. \<not> mem s"
            then have "\<forall>s. mem s" by blast
            then show False using tab_inv_put [OF _ fits ti small] None by (metis option.distinct(1))
          qed
          ultimately show ?thesis using x live1 only_table_trans [OF fr(3)] by simp
        next
          case (Some h)
          note put = this
          have ok1: "vals_ok (classes db1) (kinds (class_of db1 cid)) ds" using ok [OF Inr] oc by simp
          have "only_table cid db1 db' \<and> row_at t (next_id t) = None \<and>
            (x = Inl DB_ERR_UNIQUE \<and> violates (class_of db1 cid) (row_at t) r \<and> table_inv db' cid \<and>
               live_rows db' cid = row_at t \<and> fresh_id db' cid = next_id t \<or>
             x = Inl DB_ERR_OOM \<and> (\<exists>s. \<not> mem s) \<and> live_rows db' cid = row_at t \<or>
             x = Inr (next_id t) \<and> \<not> violates (class_of db1 cid) (row_at t) r \<and> table_inv db' cid \<and>
               live_rows db' cid = (row_at t)(next_id t \<mapsto> r) \<and> fresh_id db' cid = next_id t + of_nat (nshards db1))"
            by (rule place_any [OF fits ti g small ok1 put r_def refl, of wo])
              (use ins to sa \<open>go = Some g\<close> put Inr oc in \<open>simp add: wo_row_insert_def Let_def r_def cong: if_cong\<close>)
          then show ?thesis
            using only_table_trans [OF fr(3)] oc Inr by (auto simp: inserted_def ra ni Let_def r_def)
        qed
      qed
    qed
  qed
qed

end
