(* ===== verification/StoreProps.thy ===== *)
theory StoreProps
  imports Demo InsertFaults
begin

text \<open>
  Properties of the tables and their parts: the row operations on a table whose rows are in
  memory, against the table as a map; the walk over the rows; the index probe; the id hash and
  the probe loop.
\<close>

section \<open>Row operations\<close>

text \<open>C19: What an insert of VM values answers, whatever memory is found. It adds exactly the new row, under
  the table's next id, which is advanced; or it refuses a value the class cannot hold, or a key that a
  live row has under a unique index, and then the rows, the next id and the invariant of the table are as
  they were; or an allocation failed, and then the rows are as they were, but not always the next id and
  the invariant. No other table is touched. The encoded values are assumed to fit their slots.\<close>

theorem row_insert_spec:
  assumes "table_inv db cid" and "has_room db cid"
    and "\<forall>ds. encode_all mem (classes db) (kinds (class_of db cid)) args = Inr ds \<longrightarrow>
      vals_ok (classes db) (kinds (class_of db cid)) ds"
    and "wo_row_insert mem wo db cid args = (x, db')"
  shows "only_table cid db db' \<and>
    (case x of
       Inr i \<Rightarrow> table_inv db' cid \<and>
         (\<exists>ds. encode_all mem (classes db) (kinds (class_of db cid)) args = Inr ds \<and> inserted db cid ds x db')
     | Inl e \<Rightarrow> live_rows db' cid = live_rows db cid \<and>
         (e = DB_ERR_BADKIND \<and> table_inv db' cid \<and> fresh_id db' cid = fresh_id db cid \<and>
            (\<exists>f. encode_all mem (classes db) (kinds (class_of db cid)) args = Inl f) \<or>
          e = DB_ERR_UNIQUE \<and> table_inv db' cid \<and>
            (\<exists>ds. encode_all mem (classes db) (kinds (class_of db cid)) args = Inr ds \<and> inserted db cid ds x db') \<or>
          e \<in> {DB_ERR_OOM, DB_ERR_MISC} \<and> (\<exists>s. \<not> mem s)))"
  by (rule insert_any [OF assms(1,2) _ assms(4)]) (use assms(3) in blast)

theorem row_insert_spec_witness:
  "\<exists>db'. wo_row_insert all_mem None demo_db 0 [VWord 7] = (Inr 1, db') \<and> live_rows db' 0 = [1 \<mapsto> demo_row]"
proof -
  obtain x db' where i: "wo_row_insert all_mem None demo_db 0 [VWord 7] = (x, db')" by (metis prod.collapse)
  have e: "encode_all all_mem [demo_class] [KScalar] [VWord 7] = Inr [DWord 7]" by simp
  then have ok: "\<forall>ds. encode_all all_mem (classes demo_db) (kinds (class_of demo_db 0)) [VWord 7] = Inr ds \<longrightarrow>
      vals_ok (classes demo_db) (kinds (class_of demo_db 0)) ds" by simp
  from row_insert_spec [OF demo_table_inv demo_room ok i] e i show ?thesis
    by (cases x) (auto simp: inserted_def Let_def demo_row_def)
qed

text \<open>C20: Removing an id removes exactly that row, and says whether there was one; the slot, the id
  hash and the indexes stay consistent and the next id is not taken back.\<close>

theorem row_remove_spec:
  assumes "table_inv db cid" and "h_live rid" and "wo_row_remove mem wo db cid rid = (ok, db')"
  shows "table_inv db' cid \<and> only_table cid db db' \<and> (ok \<longleftrightarrow> live_rows db cid rid \<noteq> None) \<and>
    live_rows db' cid = (live_rows db cid)(rid := None) \<and> fresh_id db' cid = fresh_id db cid"
  by (rule remove_spec [OF assms])

theorem row_remove_spec_witness:
  "\<exists>db'. wo_row_remove all_mem None demo_db1 0 1 = (True, db') \<and> live_rows db' 0 = Map.empty"
proof -
  obtain ok db' where r: "wo_row_remove all_mem None demo_db1 0 1 = (ok, db')" by (metis prod.collapse)
  from row_remove_spec [OF demo_insert(2) demo_live_1(1) r] r show ?thesis by (simp add: demo_insert(4))
qed

text \<open>An update of a field with a VM value refuses an unknown field or row, a value of the wrong
  kind and a key another row has, each without an effect, and otherwise changes that one field of
  that one row, indexes included.\<close>

theorem row_update_spec:
  assumes "\<forall>s. mem s" and "table_inv db cid" and "h_live rid"
    and "\<forall>nv. field < field_cnt (class_of db cid) \<longrightarrow>
      db_val_encode mem (classes db) (kinds (class_of db cid) ! field) v = Inr nv \<longrightarrow>
      val_ok (classes db) (kinds (class_of db cid) ! field) nv"
  shows "\<exists>e db'. wo_row_update_field mem wo db cid rid field v = Lives (e, db', wo) \<and> table_inv db' cid \<and>
    only_table cid db db' \<and>
    (if field < field_cnt (class_of db cid) \<and> live_rows db cid rid \<noteq> None
     then (case db_val_encode mem (classes db) (kinds (class_of db cid) ! field) v of
             Inl x \<Rightarrow> e = DB_ERR_BADKIND \<and> db' = db
           | Inr nv \<Rightarrow> updated db cid (the (live_rows db cid rid)) field nv e db')
     else e = DB_ERR_MISC \<and> db' = db)"
proof -
  have ok: "\<And>nv. field < field_cnt (class_of db cid) \<Longrightarrow>
      db_val_encode mem (classes db) (kinds (class_of db cid) ! field) v = Inr nv \<Longrightarrow>
      val_ok (classes db) (kinds (class_of db cid) ! field) nv" using assms(4) by blast
  show ?thesis by (rule update_field_spec [where wo = wo, OF assms(1-3) ok]) blast+
qed

theorem row_update_spec_witness:
  "\<exists>db'. wo_row_update_field all_mem None demo_db1 0 1 0 (VWord 9) = Lives (DB_ERR_NONE, db', None) \<and>
     live_rows db' 0 = [1 \<mapsto> demo_row\<lparr>slots := [DWord 9]\<rparr>]"
proof -
  note sh = same_shape_simps [OF only_table_shape [OF demo_insert(3)]]
  have enc: "db_val_encode all_mem [demo_class] KScalar (VWord 9) = Inr (DWord 9)" by simp
  then have ok: "\<forall>nv. 0 < field_cnt (class_of demo_db1 0) \<longrightarrow>
      db_val_encode all_mem (classes demo_db1) (kinds (class_of demo_db1 0) ! 0) (VWord 9) = Inr nv \<longrightarrow>
      val_ok (classes demo_db1) (kinds (class_of demo_db1 0) ! 0) nv" by (simp add: sh)
  have nv: "\<not> violates demo_class ((live_rows demo_db1 0)(1 := None)) r" for r
    by (auto simp: violates_def demo_insert(4))
  from row_update_spec [OF _ demo_insert(2) demo_live_1(1) ok, of None] enc nv show ?thesis
    by (auto simp: sh demo_insert(4) updated_def Let_def)
qed

text \<open>C21: A read gives the decoded values of the live row with that id, or says that there is none.\<close>

theorem row_read_spec:
  assumes "table_inv db cid" and "h_live rid"
  shows "wo_row_read mem wo db cid rid =
    (case live_rows db cid rid of
       None \<Rightarrow> NoSuchRow
     | Some r \<Rightarrow>
         (case decode_all mem (classes db) (kinds (class_of db cid)) (slots r) of
            Inl e \<Rightarrow> DecodeOom | Inr vs \<Rightarrow> RowVals vs))"
  by (rule read_spec [OF assms])

theorem row_read_spec_witness: "wo_row_read all_mem None demo_db1 0 1 = RowVals [VWord 7]"
proof -
  note sh = same_shape_simps [OF only_table_shape [OF demo_insert(3)]]
  show ?thesis using row_read_spec [OF demo_insert(2) demo_live_1(1), of all_mem None] by (simp add: demo_insert(4) sh)
qed

text \<open>The walk with \<open>wo_row_next_id\<close> visits every live row exactly once and nothing else.\<close>

theorem row_walk_exact:
  assumes "table_inv db cid"
  shows "distinct (row_ids_from db cid 0) \<and> set (row_ids_from db cid 0) = dom (live_rows db cid)"
  using row_ids_live [OF assms] by simp

theorem row_walk_exact_witness: "set (row_ids_from demo_db1 0 0) = {1}"
  using row_walk_exact [OF demo_insert(2)] by (simp add: demo_insert(4))

section \<open>Indexes\<close>

text \<open>C22: The probe of a single-column index is the scan: it returns, once each, the ids of exactly
  the live rows whose column compares equal to the key.\<close>

theorem probe_is_scan:
  assumes "table_inv db cid" and "cols (indexes (tables db ! cid) ! index) = [col]"
    and "wo_idx_probe mem wo db cid index w kb = Probed xs"
  shows "distinct xs \<and>
    set xs = {i. \<exists>r. live_rows db cid i = Some r \<and> probe_eq (kinds (class_of db cid) ! col) w kb (slots r ! col)}"
proof -
  have p: "row_size (tables db ! cid) \<noteq> 0" "index < length (indexes (tables db ! cid))"
      "idx_probe mem (class_of db cid) (peek_row mem wo db cid) (indexes (tables db ! cid) ! index) w kb = Probed xs"
    using assms(3) by (auto simp: wo_idx_probe_def Let_def split: if_splits)
  then have "all_indexed (class_of db cid) (indexes (tables db ! cid)) (live_rows db cid)"
    using assms(1) live_row_at by (auto simp: table_inv_def tab_inv_def)
  then have "indexed (class_of db cid) (indexes (tables db ! cid) ! index) (live_rows db cid)"
    using p(2) by (simp add: all_indexed_def)
  from tr.idx_probe_exact [where mem = mem, OF this assms(2) p(3)] show ?thesis .
qed

theorem probe_is_scan_witness:
  "\<exists>xs. wo_idx_probe all_mem None demo_db1 0 0 7 None = Probed xs \<and> set xs = {1}"
proof -
  note sh = same_shape_simps [OF only_table_shape [OF demo_insert(3)]]
  let ?t = "tables demo_db1 ! 0"
  have "live_rows demo_db1 0 1 \<noteq> None" by (simp add: demo_insert(4))
  then have rs: "row_size ?t \<noteq> 0" "0 < length (tables demo_db1)" by (auto simp: live_rows_def split: if_splits)
  then have m: "ix_meta (indexes ?t) = [(1, [0])]" using demo_insert(2) by (simp add: table_inv_def tab_inv_def sh)
  then have ix: "length (indexes ?t) = 1" "cols (indexes ?t ! 0) = [0]" by (auto simp: ix_meta_def)
  have "wo_idx_probe all_mem None demo_db1 0 0 7 None =
      idx_probe all_mem demo_class (peek_row all_mem None demo_db1 0) (indexes ?t ! 0) 7 None"
    using rs ix(1) by (auto simp: wo_idx_probe_def sh Let_def)
  moreover have "\<exists>xs. idx_probe all_mem demo_class b (indexes ?t ! 0) 7 None = Probed xs" for b
    by (simp add: idx_probe_def ix(2) Let_def split: option.split)
  ultimately obtain xs where p: "wo_idx_probe all_mem None demo_db1 0 0 7 None = Probed xs" by metis
  from probe_is_scan [where mem = all_mem, OF demo_insert(2) ix(2) p] p
  show ?thesis by (auto simp: demo_insert(4) sh probe_eq_def split: if_splits)
qed

section \<open>The id hash\<close>

text \<open>With memory a put into the id hash succeeds, keeps the hash's invariant, and afterwards
  the id has the new value and every other id the value it had.\<close>

theorem id_hash_put:
  assumes "hash_inv t" and "h_live rid" and "mem AHash"
  shows "\<exists>t'. hput mem t rid v = Some t' \<and> hash_inv t' \<and>
    (\<forall>k. h_live k \<longrightarrow> hget t' k = (if k = rid then v else hget t k))"
  using hput_ok [OF assms(1,2), of mem v] hput_inv [OF assms(1,2)] hget_hput [OF assms(1,2)] assms(3) by metis

theorem id_hash_put_witness:
  "\<exists>t' t''. hput all_mem empty_hash 1 5 = Some t' \<and> hput all_mem t' 2 6 = Some t'' \<and> hget t'' 1 = 5 \<and> hget t'' 2 = 6"
proof -
  obtain t' where t: "hput all_mem empty_hash 1 5 = Some t'" "hash_inv t'" "hget t' 1 = 5"
    using id_hash_put [of empty_hash 1 all_mem 5] by auto
  from id_hash_put [OF t(2) demo_live_1(2), of all_mem 6] t show ?thesis by (auto simp: demo_live_1)
qed

text \<open>The probe loop ends: with a power of two of places and one of them free it stops at the
  key's place or at a free one, whatever the home position.\<close>

theorem probe_loop_ends:
  assumes "pow2 (length ks)" and "0 \<in> set ks"
  shows "\<exists>i<length ks. probe ks h key = Some i \<and> (ks ! i = 0 \<or> ks ! i = key)"
  by (rule probe_ends [OF assms])

theorem probe_loop_ends_witness: "\<exists>i<4. probe [5, 6, 0, 7] 3 (9 :: u64) = Some i \<and> i = 2"
proof -
  have "pow2 (length ([5, 6, 0, 7] :: u64 list))" unfolding pow2_def by (rule exI [of _ 2]) simp
  from probe_loop_ends [OF this, of 3 9]
  obtain i where i: "i < 4" "probe [5, 6, 0, 7] 3 (9 :: u64) = Some i"
      "[5, 6, 0, 7] ! i = (0 :: u64) \<or> [5, 6, 0, 7] ! i = (9 :: u64)" by auto
  from i(1) consider "i = 0" | "i = 1" | "i = 2" | "i = 3" by linarith
  then have "i = 2" using i(3) by cases simp_all
  then show ?thesis using i by blast
qed

end
