(* ===== verification/CodecProps.thy ===== *)
theory CodecProps
  imports Demo
begin

text \<open>
  Properties of the value gates and of the log's bytes: the copies in and out of the engine, the
  clone, the containers, the checksum, the encoding of a value and its decoder.
\<close>

section \<open>Values\<close>

text \<open>C40: A VM value that fits its kind goes into the engine as a well-formed slot and comes back
  out as the same value.\<close>

theorem value_gate_roundtrip:
  assumes "\<forall>s. mem s" and "vm_ok cs k v"
  shows "\<exists>d. db_val_encode mem cs k v = Inr d \<and> val_ok cs k d \<and> db_val_decode mem cs k d = Inr v"
  using encode_decode_aux(1) [OF assms(1)] assms(2) by blast

theorem value_gate_roundtrip_witness:
  "\<exists>d. db_val_encode all_mem [] KMulti (VMulti KScalar [VWord 1, VWord 2]) = Inr d \<and>
     db_val_decode all_mem [] KMulti d = Inr (VMulti KScalar [VWord 1, VWord 2])"
  using value_gate_roundtrip [of all_mem "[]" KMulti "VMulti KScalar [VWord 1, VWord 2]"] by auto

section \<open>Bytes\<close>

text \<open>The checksum of a payload changes with any change of a single byte.\<close>

theorem crc_detects_byte:
  assumes "p \<noteq> p'"
  shows "crc32 (xs @ p # ys) \<noteq> crc32 (xs @ p' # ys)"
  by (rule crc32_detects_one_byte [OF assms])

theorem crc_detects_byte_witness: "crc32 [1, 2, 3] \<noteq> crc32 [1, 7, 3]"
  using crc_detects_byte [of 2 7 "[1]" "[3]"] by simp

text \<open>C39: A well-formed value is decoded from its encoding, whatever bytes follow, and the decoder
  leaves exactly those.\<close>

theorem value_bytes_roundtrip:
  assumes "mem ADec" and "val_ok cs k v"
  shows "dec_val mem cs k (enc_val cs k v @ rest) = Some (v, rest)"
  using dec_enc_val [where mem = mem, OF assms] .

theorem value_bytes_roundtrip_witness:
  "dec_val all_mem [] KMap (enc_val [] KMap (DMap KScalar KText [DWord 1, DText [65]]) @ [9]) =
     Some (DMap KScalar KText [DWord 1, DText [65]], [9])"
  by (rule value_bytes_roundtrip) simp_all

text \<open>Whatever the bytes, what the decoder accepts is a well-formed value of the kind asked for,
  and it consumed no more than the bytes there are.\<close>

theorem decoded_value_ok:
  assumes "dec_val mem cs k bs = Some (v, r)"
  shows "val_ok cs k v \<and> length r \<le> length bs"
  using dec_val_ok [where mem = mem, OF assms] shrinksD [OF dec_val_shrinks assms] by simp

lemma le_two: "le 4 (Suc (Suc 0)) = [2, 0, 0, 0]"
  by code_simp

theorem decoded_value_ok_witness: "val_ok [] KText (DText [65, 66])"
proof -
  have "dec_val all_mem [] KText [2, 0, 0, 0, 65, 66, 1] = Some (DText [65, 66], [1])"
    using dec_enc_val [of all_mem "[]" KText "DText [65, 66]" "[1]"] 
    by (simp add: wput_u32_def le_two)
  from decoded_value_ok [OF this] show ?thesis by simp
qed

text \<open>The recursion of the decoder is bounded by its input: with any depth bound above the
  number of bytes the result is the same.\<close>

theorem decoder_depth:
  assumes "length bs < n" and "length bs < m"
  shows "dec_val_n n mem cs k bs = dec_val_n m mem cs k bs"
  by (rule dec_fuel_enough [OF assms])

theorem decoder_depth_witness: "dec_val_n 4 all_mem [] KScalar [1, 2, 3] = dec_val_n 99 all_mem [] KScalar [1, 2, 3]"
  by (rule decoder_depth) simp_all

end
