(* ===== verification/SchemaProps.thy ===== *)
theory SchemaProps
  imports Demo
begin

text \<open>
  Properties of the schema record and of the boot diff.
\<close>

section \<open>The record\<close>

text \<open>C38: Encoding and decoding a schema are inverse: a schema within the record's widths is read
  back from its record, and a record that is read encodes to the same bytes.\<close>

theorem schema_record_roundtrip:
  assumes "mem AMig" and "mem AWalPayload"
  shows "(schema_ok sc \<longrightarrow> (\<exists>p. wo_schema_encode mem sc = Some p \<and> wo_schema_decode mem p = Some sc)) \<and>
    (\<forall>p. wo_schema_decode mem p = Some sc \<longrightarrow> wo_schema_encode mem sc = Some p \<and> schema_ok sc)"
proof -
  have "\<exists>p. wo_schema_encode mem sc = Some p \<and> wo_schema_decode mem p = Some sc" if ok: "schema_ok sc"
  proof -
    obtain p where "wo_schema_encode mem sc = Some p" using assms(2) by (simp add: wo_schema_encode_def build_def)
    then show ?thesis using schema_roundtrip [where mem = mem, OF assms(1) _ ok] by blast
  qed
  then show ?thesis using schema_canonical [where mem = mem, OF assms] by blast
qed

theorem schema_record_roundtrip_witness:
  "\<exists>p. wo_schema_encode all_mem (two_fields [65] 8 [66] [67]) = Some p \<and>
     wo_schema_decode all_mem p = Some (two_fields [65] 8 [66] [67])"
  using schema_record_roundtrip [of all_mem "two_fields [65] 8 [66] [67]"]
  by (simp add: schema_ok_def two_fields_def sfield_def WO_SCHEMA_NONE_def)

section \<open>The diff\<close>

text \<open>Two fields of the same type: of the same kind and element kinds, and of classes of the same name, or
  both of no class (the number \<open>0xFFFFFFFF\<close>).\<close>

definition same_type :: "wo_schema \<Rightarrow> wo_schema_field \<Rightarrow> wo_schema \<Rightarrow> wo_schema_field \<Rightarrow> bool" where
  "same_type osc f nsc g \<longleftrightarrow> f_kind f = f_kind g \<and> felem f = felem g \<and>
     (fclass f = 0xFFFFFFFF \<and> fclass g = 0xFFFFFFFF \<or>
      fclass f \<noteq> 0xFFFFFFFF \<and> fclass g \<noteq> 0xFFFFFFFF \<and> fclass f < length osc \<and> fclass g < length nsc \<and>
        c_name (osc ! fclass f) = c_name (nsc ! fclass g))"

text \<open>The fields whose values hold values of the field's class in place have the kinds 1 (owned), 4 (\<open>multi\<close>)
  and 5 (\<open>map\<close>).\<close>

definition inline_class :: "wo_schema_field \<Rightarrow> nat \<Rightarrow> bool" where
  "inline_class f d \<longleftrightarrow> (f_kind f = 1 \<or> f_kind f = 4 \<or> f_kind f = 5) \<and> fclass f \<noteq> 0xFFFFFFFF \<and> fclass f = d"

definition field_names :: "wo_schema_class \<Rightarrow> bytes set" where
  "field_names k = f_name ` set (c_fields k)"

lemma same_type_iff: "sc_field_shape_eq osc f nsc g = same_type osc f nsc g"
  by (auto simp: sc_field_shape_eq_def sc_ref_eq_def same_type_def WO_SCHEMA_NONE_def)

lemma diff_class_kept:
  assumes "poison (diff_class osc nsc k) = None"
  obtains nc where "nc < length nsc" and "c_name (nsc ! nc) = c_name k" and "c_flags (nsc ! nc) = c_flags k"
    and "new_cid (diff_class osc nsc k) = Some nc"
    and "fmap (diff_class osc nsc k) = map (\<lambda>f. sc_find_field (nsc ! nc) (f_name f)) (c_fields k)"
    and "changed (diff_class osc nsc k) \<longleftrightarrow> field_names k \<noteq> field_names (nsc ! nc)"
    and "\<forall>f\<in>set (c_fields k). \<forall>j. sc_find_field (nsc ! nc) (f_name f) = Some j \<longrightarrow> same_type osc f nsc (c_fields (nsc ! nc) ! j)"
    and "\<forall>f\<in>set (c_fields k). f_name f \<notin> field_names (nsc ! nc) \<longrightarrow>
      (\<forall>g\<in>set (c_fields (nsc ! nc)). f_name g \<notin> field_names k \<longrightarrow> \<not> same_type osc f nsc g)"
proof -
  obtain nc where nc: "sc_find_class nsc (c_name k) = Some nc"
    using assms by (auto simp: diff_class_def poisoned_def split: option.splits)
  let ?nk = "nsc ! nc"
  let ?look = "\<lambda>f. sc_find_field ?nk (f_name f)"
  let ?added = "filter (\<lambda>g. sc_find_field k (f_name g) = None) (c_fields ?nk)"
  let ?bad = "\<lambda>f. case ?look f of None \<Rightarrow> False
      | Some nf \<Rightarrow> \<not> sc_field_shape_eq osc f nsc (c_fields ?nk ! nf)"
  let ?ren = "\<lambda>f. ?look f = None \<and> list_ex (\<lambda>g. sc_field_shape_eq osc f nsc g) ?added"
  note dc = diff_class_def poisoned_def nc Let_def
  have gone: "sc_find_field x n = None \<longleftrightarrow> n \<notin> field_names x" for x n
    by (auto simp: sc_find_field_None field_names_def)
  have fl: "c_flags k = c_flags ?nk"
    by (rule ccontr) (use assms in \<open>simp add: dc\<close>)
  have shape: "find_index ?bad (c_fields k) = None"
    by (rule ccontr) (use assms fl in \<open>auto simp only: not_None_eq, simp add: dc\<close>)
  have ren: "find_index ?ren (c_fields k) = None"
    by (rule ccontr) (use assms fl shape in \<open>auto simp only: not_None_eq, simp add: dc\<close>)
  have m: "diff_class osc nsc k = \<lparr>new_cid = Some nc, poison = None, fmap = map ?look (c_fields k),
      changed = (None \<in> set (map ?look (c_fields k)) \<or> ?added \<noteq> [])\<rparr>"
    using fl shape ren by (simp add: dc)
  have "None \<in> set (map ?look (c_fields k)) \<longleftrightarrow> \<not> field_names k \<subseteq> field_names ?nk"
    unfolding set_map image_iff by (subst eq_commute) (simp only: gone, auto simp: field_names_def)
  moreover have "?added \<noteq> [] \<longleftrightarrow> \<not> field_names ?nk \<subseteq> field_names k"
    unfolding filter_empty_conv gone by (auto simp: field_names_def)
  ultimately have ch: "changed (diff_class osc nsc k) \<longleftrightarrow> field_names k \<noteq> field_names ?nk" unfolding m by auto
  have "same_type osc f nsc (c_fields ?nk ! j)" if "f \<in> set (c_fields k)" "?look f = Some j" for f j
    using shape that by (auto simp: find_index_None same_type_iff)
  moreover have "\<not> same_type osc f nsc g"
    if "f \<in> set (c_fields k)" "f_name f \<notin> field_names ?nk" "g \<in> set (c_fields ?nk)" "f_name g \<notin> field_names k" for f g
    using ren that by (auto simp: find_index_None gone list_ex_iff same_type_iff)
  ultimately show thesis
    using that sc_find_class_Some [OF nc] fl m ch by auto
qed

text \<open>C37: A class that the plan does not refuse goes to a class of the same name and storage flags. Each of its
  fields goes to the field of the same name, which then has the same type, or nowhere when the name is gone,
  and then no field with a new name has its type (that could be a rename). The class is marked as changed
  exactly if the sets of field names differ (the same fields in another order do not count as a change). No
  field of it holds values of a class in place that is refused or changed; an owned field of no known class
  is accepted only when no class is.\<close>

theorem diff_is_sound:
  assumes "wo_schema_diff mem osc nsc = Some plan" and "c < length osc" and "poison (mig_classes plan ! c) = None"
  shows "\<exists>nc<length nsc. c_name (nsc ! nc) = c_name (osc ! c) \<and> c_flags (nsc ! nc) = c_flags (osc ! c) \<and>
    new_cid (mig_classes plan ! c) = Some nc \<and> length (fmap (mig_classes plan ! c)) = length (c_fields (osc ! c)) \<and>
    (\<forall>i<length (c_fields (osc ! c)).
       (case fmap (mig_classes plan ! c) ! i of
          Some j \<Rightarrow> j < length (c_fields (nsc ! nc)) \<and> f_name (c_fields (nsc ! nc) ! j) = f_name (c_fields (osc ! c) ! i) \<and>
            same_type osc (c_fields (osc ! c) ! i) nsc (c_fields (nsc ! nc) ! j)
        | None \<Rightarrow> f_name (c_fields (osc ! c) ! i) \<notin> field_names (nsc ! nc) \<and>
            (\<forall>g\<in>set (c_fields (nsc ! nc)). f_name g \<notin> field_names (osc ! c) \<longrightarrow> \<not> same_type osc (c_fields (osc ! c) ! i) nsc g))) \<and>
    (changed (mig_classes plan ! c) \<longleftrightarrow> field_names (osc ! c) \<noteq> field_names (nsc ! nc)) \<and>
    (\<forall>f\<in>set (c_fields (osc ! c)).
       (\<forall>d<length osc. inline_class f d \<longrightarrow> poison (mig_classes plan ! d) = None \<and> \<not> changed (mig_classes plan ! d)) \<and>
       (f_kind f = 1 \<and> (\<forall>d<length osc. \<not> inline_class f d) \<longrightarrow>
          (\<forall>d<length osc. poison (mig_classes plan ! d) = None \<and> \<not> changed (mig_classes plan ! d))))"
proof -
  let ?ms = "mig_classes plan" and ?k = "osc ! c"
  have ms: "?ms = embed_fix osc (map (diff_class osc nsc) osc)"
    using assms(1) by (auto simp: wo_schema_diff_def Let_def split: if_splits)
  have len: "length ?ms = length osc" using embed_fix_only [of "map (diff_class osc nsc) osc" osc] by (simp add: ms only_poisons_def)
  have m: "?ms ! c = diff_class osc nsc ?k"
    using embed_fix_only [of "map (diff_class osc nsc) osc" osc] assms(2,3) by (simp add: ms only_poisons_def)
  have p: "poison (diff_class osc nsc ?k) = None" using assms(3) m by simp
  obtain nc where nc: "nc < length nsc" "c_name (nsc ! nc) = c_name ?k" "c_flags (nsc ! nc) = c_flags ?k"
      "new_cid (?ms ! c) = Some nc" "fmap (?ms ! c) = map (\<lambda>f. sc_find_field (nsc ! nc) (f_name f)) (c_fields ?k)"
      "changed (?ms ! c) \<longleftrightarrow> field_names ?k \<noteq> field_names (nsc ! nc)"
    and same: "\<forall>f\<in>set (c_fields ?k). \<forall>j. sc_find_field (nsc ! nc) (f_name f) = Some j \<longrightarrow> same_type osc f nsc (c_fields (nsc ! nc) ! j)"
    and ren: "\<forall>f\<in>set (c_fields ?k). f_name f \<notin> field_names (nsc ! nc) \<longrightarrow>
      (\<forall>g\<in>set (c_fields (nsc ! nc)). f_name g \<notin> field_names ?k \<longrightarrow> \<not> same_type osc f nsc g)"
    by (rule diff_class_kept [OF p, folded m])
  have clean: "\<not> tainted ?ms f" if "f \<in> set (c_fields ?k)" for f using diff_sound [OF assms] that by blast
  have inl: "poison (?ms ! d) = None \<and> \<not> changed (?ms ! d)"
    if "f \<in> set (c_fields ?k)" "d < length osc" "inline_class f d" for f d
    using clean [OF that(1)] that(2,3) len by (auto simp: tainted_def embeds_def inline_class_def WO_SCHEMA_NONE_def dirty_def)
  have own: "poison (?ms ! d) = None \<and> \<not> changed (?ms ! d)"
    if "f \<in> set (c_fields ?k)" "f_kind f = 1" "\<forall>d<length osc. \<not> inline_class f d" "d < length osc" for f d
  proof -
    have "\<not> (fclass f \<noteq> WO_SCHEMA_NONE \<and> fclass f < length ?ms)"
      using that(2,3) len by (auto simp: inline_class_def WO_SCHEMA_NONE_def)
    then have "\<not> list_ex dirty ?ms" using clean [OF that(1)] that(2) by (auto simp: tainted_def embeds_def)
    then show ?thesis using that(4) len by (auto simp: list_ex_iff dirty_def)
  qed
  have fields: "(case fmap (?ms ! c) ! i of
          Some j \<Rightarrow> j < length (c_fields (nsc ! nc)) \<and> f_name (c_fields (nsc ! nc) ! j) = f_name (c_fields ?k ! i) \<and>
            same_type osc (c_fields ?k ! i) nsc (c_fields (nsc ! nc) ! j)
        | None \<Rightarrow> f_name (c_fields ?k ! i) \<notin> field_names (nsc ! nc) \<and>
            (\<forall>g\<in>set (c_fields (nsc ! nc)). f_name g \<notin> field_names ?k \<longrightarrow> \<not> same_type osc (c_fields ?k ! i) nsc g))"
    if i: "i < length (c_fields ?k)" for i
  proof (cases "sc_find_field (nsc ! nc) (f_name (c_fields ?k ! i))")
    case None
    then have "f_name (c_fields ?k ! i) \<notin> field_names (nsc ! nc)" by (auto simp: sc_find_field_None field_names_def)
    then show ?thesis using None ren i nc(5) by (simp add: nth_mem)
  next
    case (Some j)
    then show ?thesis using sc_find_field_Some [OF Some] same i nc(5) by (simp add: nth_mem)
  qed
  show ?thesis using nc(1-4,6) nc(5) fields inl own by (intro exI [of _ nc] conjI ballI allI impI) simp_all
qed

theorem diff_is_sound_witness:
  "\<exists>plan. wo_schema_diff all_mem (two_fields [65] 8 [66] [67]) (two_fields [65] 8 [67] [66]) = Some plan \<and>
     new_cid (mig_classes plan ! 0) = Some 0 \<and> \<not> changed (mig_classes plan ! 0)"
proof -
  have d: "wo_schema_diff all_mem (two_fields [65] 8 [66] [67]) (two_fields [65] 8 [67] [66]) =
      Some \<lparr>mig_classes = [\<lparr>new_cid = Some 0, poison = None, fmap = [Some 1, Some 0], changed = False\<rparr>], identity = True\<rparr>"
    by (rule diff_swap) simp_all
  have "\<exists>nc<length (two_fields [65] 8 [67] [66]). new_cid (mig_classes (the (wo_schema_diff all_mem (two_fields [65] 8 [66] [67])
      (two_fields [65] 8 [67] [66]))) ! 0) = Some nc"
    using diff_is_sound [OF d, of 0] d by (auto simp: two_fields_def)
  then show ?thesis using d by (simp add: two_fields_def)
qed

text \<open>The identity test does not look at the order of the fields: exchanging two fields of the
  same shape gives an identity plan, so no migration runs, though the field map exchanges the two
  columns.\<close>

theorem diff_ignores_field_order:
  assumes "mem AMig" and "a \<noteq> b"
  shows "wo_schema_diff mem (two_fields n fl a b) (two_fields n fl b a) =
    Some \<lparr>mig_classes = [\<lparr>new_cid = Some 0, poison = None, fmap = [Some 1, Some 0], changed = False\<rparr>],
          identity = True\<rparr>"
  using diff_swap [where mem = mem, OF assms] .

theorem diff_ignores_field_order_witness:
  "map_option identity (wo_schema_diff all_mem (two_fields [65] 8 [66] [67]) (two_fields [65] 8 [67] [66])) = Some True"
  using diff_ignores_field_order [where mem = all_mem, of "[66]" "[67]" "[65]" 8] by simp

end
