(* ===== verification/MigMap.thy ===== *)
theory MigMap
  imports IdHash
begin

text \<open>
  The offset map of a migration (\<open>migmap_put\<close>, \<open>migmap_get\<close> of \<open>database/src/wal.c\<close>): where the record
  at an old offset begins in the new log. It is the probing of \<open>Probing\<close> over keys stored plus one,
  without deletion, half full at most. Shown: it is a key-value store in the sense of \<open>kv_store\<close>, and
  its loops end.
\<close>

section \<open>The map\<close>

record migmap =
  mkeys :: "u64 list"
  mvals :: "u64 list"
  mlen :: nat

definition empty_migmap :: migmap where
  "empty_migmap = \<lparr>mkeys = [], mvals = [], mlen = 0\<rparr>"

definition mig_hash :: "u64 \<Rightarrow> u64" where
  "mig_hash k = k * 0x9E3779B97F4A7C15"

text \<open>The new value array is not cleared; what it holds in an empty place does not matter, here 0.\<close>

definition migmap_grow :: "mem \<Rightarrow> migmap \<Rightarrow> migmap option" where
  "migmap_grow mem m =
     (let nc = (if mkeys m \<noteq> [] then length (mkeys m) * 2 else 1024) in
      if \<not> mem AMigMap then None
      else
        (case rehash mig_hash (\<lambda>k. k \<noteq> 0) (zip (mkeys m) (mvals m)) (replicate nc 0) (replicate nc 0) of
           None \<Rightarrow> None
         | Some (nk, nv) \<Rightarrow> Some (m\<lparr>mkeys := nk, mvals := nv\<rparr>)))"

definition migmap_put :: "mem \<Rightarrow> migmap \<Rightarrow> u64 \<Rightarrow> u64 \<Rightarrow> migmap option" where
  "migmap_put mem m0 key v =
     (case (if length (mkeys m0) \<le> mlen m0 * 2 then migmap_grow mem m0 else Some m0) of
        None \<Rightarrow> None
      | Some m \<Rightarrow>
          (case probe (mkeys m) (mig_hash (key + 1)) (key + 1) of
             None \<Rightarrow> None
           | Some j \<Rightarrow>
               Some (m\<lparr>mlen := (if mkeys m ! j = 0 then mlen m + 1 else mlen m),
                       mkeys := (mkeys m)[j := key + 1], mvals := (mvals m)[j := v]\<rparr>)))"

definition migmap_get :: "migmap \<Rightarrow> u64 \<Rightarrow> u64 option" where
  "migmap_get m key =
     (if mkeys m = [] then None
      else
        (case probe (mkeys m) (mig_hash (key + 1)) (key + 1) of
           None \<Rightarrow> None
         | Some j \<Rightarrow> if mkeys m ! j = 0 then None else Some (mvals m ! j)))"

section \<open>It is a map\<close>

text \<open>At most half of the places are in use, and one more right after a put.\<close>

definition migmap_inv :: "migmap \<Rightarrow> bool" where
  "migmap_inv m \<longleftrightarrow>
     mkeys m = [] \<and> mvals m = [] \<and> mlen m = 0 \<or>
     pow2 (length (mkeys m)) \<and> 1024 \<le> length (mkeys m) \<and> length (mvals m) = length (mkeys m) \<and>
     placed mig_hash (\<lambda>k. True) (mkeys m) \<and> mlen m = used (mkeys m) \<and> mlen m * 2 < length (mkeys m) + 2"

lemma empty_migmap_inv [simp]: "migmap_inv empty_migmap"
  by (simp add: migmap_inv_def empty_migmap_def)

lemma migmap_rehash:
  assumes inv: "migmap_inv m"
  defines "n \<equiv> if mkeys m \<noteq> [] then length (mkeys m) * 2 else 1024"
  shows "\<exists>nk nv. rehash mig_hash (\<lambda>k. k \<noteq> 0) (zip (mkeys m) (mvals m)) (replicate n 0) (replicate n 0) = Some (nk, nv) \<and>
    migmap_inv (m\<lparr>mkeys := nk, mvals := nv\<rparr>) \<and> nk \<noteq> [] \<and> mlen m * 2 < length nk \<and>
    entries nk nv = entries (mkeys m) (mvals m)"
proof -
  let ?es = "zip (mkeys m) (mvals m)"
  let ?live = "filter (\<lambda>(k, v). k \<noteq> 0) ?es"
  have len: "length (mvals m) = length (mkeys m)" and ml: "mlen m = used (mkeys m)" and n: "pow2 n" "1024 \<le> n" "mlen m * 2 < n"
    using inv pow2_double unfolding migmap_inv_def n_def
    by (auto simp: pow2_def used_def intro: exI [of _ 10])
  have d: "distinct (map fst ?live)"
    using inv placed_distinct [where h = mig_hash and live = "\<lambda>k. True" and keep = "\<lambda>k. k \<noteq> 0"] len
    by (cases "mkeys m = []") (auto simp: migmap_inv_def)
  have ll: "length ?live = used (mkeys m)" by (rule filter_nonzero_used [OF len])
  obtain nk nv where r: "rehash mig_hash (\<lambda>k. k \<noteq> 0) ?es (replicate n 0) (replicate n 0) = Some (nk, nv)"
    "length nk = n" "length nv = n" "placed mig_hash (\<lambda>k. True) nk" "used nk = used (mkeys m)"
    "entries nk nv = set ?live"
    using rehash_ok [of "replicate n 0" "replicate n 0" mig_hash "\<lambda>k. True" "\<lambda>k. k \<noteq> 0" ?es] n d ll ml
    by (auto simp: placed_empty)
  have "set ?live = entries (mkeys m) (mvals m)" by (auto simp: entries_def)
  moreover have "nk \<noteq> []" using r(2) n(2) by auto
  ultimately show ?thesis using r n ml by (simp add: migmap_inv_def)
qed

lemma migmap_grow_ok:
  assumes inv: "migmap_inv m" and g: "migmap_grow mem m = Some m'"
  shows "migmap_inv m' \<and> mkeys m' \<noteq> [] \<and> mlen m' * 2 < length (mkeys m') \<and>
    entries (mkeys m') (mvals m') = entries (mkeys m) (mvals m)"
proof -
  obtain nk nv where r: "rehash mig_hash (\<lambda>k. k \<noteq> 0) (zip (mkeys m) (mvals m))
        (replicate (if mkeys m \<noteq> [] then length (mkeys m) * 2 else 1024) 0)
        (replicate (if mkeys m \<noteq> [] then length (mkeys m) * 2 else 1024) 0) = Some (nk, nv)"
    and p: "migmap_inv (m\<lparr>mkeys := nk, mvals := nv\<rparr>)" "nk \<noteq> []" "mlen m * 2 < length nk"
      "entries nk nv = entries (mkeys m) (mvals m)"
    using migmap_rehash [OF inv] by blast
  have "m' = m\<lparr>mkeys := nk, mvals := nv\<rparr>"
    using g r by (cases "mem AMigMap") (simp_all add: migmap_grow_def Let_def)
  then show ?thesis using p by simp
qed

lemma migmap_grow_total:
  assumes "migmap_inv m" and "mem AMigMap"
  shows "\<exists>m'. migmap_grow mem m = Some m'"
proof -
  obtain nk nv where "rehash mig_hash (\<lambda>k. k \<noteq> 0) (zip (mkeys m) (mvals m))
        (replicate (if mkeys m \<noteq> [] then length (mkeys m) * 2 else 1024) 0)
        (replicate (if mkeys m \<noteq> [] then length (mkeys m) * 2 else 1024) 0) = Some (nk, nv)"
    using migmap_rehash [OF assms(1)] by blast
  then show ?thesis using assms(2) by (simp add: migmap_grow_def Let_def)
qed

lemma migmap_put_entries:
  assumes inv: "migmap_inv m0" and k: "key \<noteq> - 1" and put: "migmap_put mem m0 key v = Some m'"
  shows "migmap_inv m' \<and> mkeys m' \<noteq> [] \<and>
    (\<forall>a w. (a, w) \<in> entries (mkeys m') (mvals m') \<longleftrightarrow>
       (if a = key + 1 then w = v else (a, w) \<in> entries (mkeys m0) (mvals m0)))"
proof -
  obtain m where m: "(if length (mkeys m0) \<le> mlen m0 * 2 then migmap_grow mem m0 else Some m0) = Some m"
    using put by (auto simp: migmap_put_def split: option.splits)
  have "migmap_inv m \<and> mkeys m \<noteq> [] \<and> mlen m * 2 < length (mkeys m) \<and>
      entries (mkeys m) (mvals m) = entries (mkeys m0) (mvals m0)"
    using migmap_grow_ok [OF inv, of mem m] inv m by (auto split: if_splits)
  then have f: "pow2 (length (mkeys m))" "1024 \<le> length (mkeys m)" "length (mvals m) = length (mkeys m)"
    "placed mig_hash (\<lambda>k. True) (mkeys m)" "mlen m = used (mkeys m)" "mlen m * 2 < length (mkeys m)" "mkeys m \<noteq> []"
    and e: "entries (mkeys m) (mvals m) = entries (mkeys m0) (mvals m0)" by (auto simp: migmap_inv_def)
  have kz: "key + 1 \<noteq> 0" using k by (simp add: eq_neg_iff_add_eq_0)
  have z: "0 \<in> set (mkeys m)" unfolding used_less [symmetric] using f by linarith
  obtain j where j: "probe (mkeys m) (mig_hash (key + 1)) (key + 1) = Some j" "j < length (mkeys m)"
    using probe_ends [OF f(1) z] by blast
  have m': "mkeys m' = (mkeys m)[j := key + 1]" "mvals m' = (mvals m)[j := v]"
    "mlen m' = (if mkeys m ! j = 0 then mlen m + 1 else mlen m)"
    using put m j by (auto simp: migmap_put_def)
  have st: "mkeys m ! j = 0 \<or> mkeys m ! j = key + 1" by (rule probe_stop [OF f(1) j(1)])
  note pe = probe_entries [OF f(1,4,3) j(1) kz TrueI]
  have ne: "mkeys m' \<noteq> []" using f(7) by (simp add: m')
  show ?thesis
  proof (cases "mkeys m ! j = 0")
    case True
    have "placed mig_hash (\<lambda>k. True) (mkeys m')" unfolding m' by (rule placed_store [OF f(1,4) j(1) True kz])
    moreover have "mlen m' = used (mkeys m')"
      using used_update [OF j(2), of "key + 1"] True kz f(5) by (simp add: m')
    ultimately have "migmap_inv m'" using f True by (simp add: migmap_inv_def m')
    moreover have "entries (mkeys m') (mvals m') = insert (key + 1, v) (entries (mkeys m) (mvals m))"
      unfolding m' by (rule entries_store [OF f(3) j(2) True kz])
    moreover have "(key + 1, w) \<notin> entries (mkeys m) (mvals m)" for w using pe True kz by auto
    ultimately show ?thesis using e ne by auto
  next
    case False
    then have same: "mkeys m' = mkeys m" using st by (simp add: m' list_update_same_conv j(2))
    have "migmap_inv m'" using f False same by (simp add: migmap_inv_def) (simp add: m')
    moreover have "(a, w) \<in> entries (mkeys m') (mvals m') \<longleftrightarrow>
        (if a = key + 1 then w = v else (a, w) \<in> entries (mkeys m) (mvals m))" for a w
    proof (cases "a = key + 1")
      case True
      have p': "placed mig_hash (\<lambda>k. True) (mkeys m')" "pow2 (length (mkeys m'))" "length (mvals m') = length (mkeys m')"
        using f same by (simp_all add: m')
      have j': "probe (mkeys m') (mig_hash (key + 1)) (key + 1) = Some j" using j same by simp
      show ?thesis using probe_entries [OF p'(2,1,3) j' kz TrueI, of w] True j(2) f(3) by (auto simp: m')
    next
      case other: False
      have "mkeys m ! j = key + 1" using False st by simp
      then have "(a, w) \<in> entries (mkeys m') (mvals m') \<longleftrightarrow> (a, w) \<in> entries (mkeys m) (mvals m)"
        unfolding same using other f(3) j(2)
        by (auto simp: entries_iff m' nth_list_update)
      then show ?thesis using other by simp
    qed
    ultimately show ?thesis using e ne by auto
  qed
qed

lemma migmap_get_iff:
  assumes inv: "migmap_inv m" and k: "key \<noteq> - 1"
  shows "migmap_get m key = Some v \<longleftrightarrow> (key + 1, v) \<in> entries (mkeys m) (mvals m)"
proof (cases "mkeys m = []")
  case True
  then show ?thesis by (simp add: migmap_get_def)
next
  case False
  then have f: "pow2 (length (mkeys m))" "1024 \<le> length (mkeys m)" "length (mvals m) = length (mkeys m)"
    "placed mig_hash (\<lambda>k. True) (mkeys m)" "mlen m = used (mkeys m)" "mlen m * 2 < length (mkeys m) + 2"
    using inv by (auto simp: migmap_inv_def)
  have kz: "key + 1 \<noteq> 0" using k by (simp add: eq_neg_iff_add_eq_0)
  have "0 \<in> set (mkeys m)" unfolding used_less [symmetric] using f by linarith
  then obtain j where j: "probe (mkeys m) (mig_hash (key + 1)) (key + 1) = Some j"
    using probe_ends [OF f(1)] by blast
  show ?thesis using False j probe_stop [OF f(1) j] probe_entries [OF f(1,4,3) j kz TrueI] kz
    by (auto simp: migmap_get_def)
qed

interpretation mm: kv_store migmap_get "migmap_put mem" migmap_inv "\<lambda>k. k \<noteq> - 1" "\<lambda>v. True" for mem
proof unfold_locales
  fix s k v s' assume "migmap_inv s" "k \<noteq> - 1" "migmap_put mem s k v = Some s'"
  then show "migmap_inv s'" using migmap_put_entries by blast
next
  fix s s' :: migmap and k k' v :: u64
  assume a: "migmap_inv s" "k \<noteq> - 1" "k' \<noteq> - 1" "migmap_put mem s k v = Some s'"
  note p = migmap_put_entries [OF a(1,2,4)]
  then have i': "migmap_inv s'" by blast
  have "migmap_get s' k' = Some w \<longleftrightarrow> (if k' = k then Some v else migmap_get s k') = Some w" for w
    using p migmap_get_iff [OF i' a(3)] migmap_get_iff [OF a(1,3)] by (auto split: if_splits)
  then show "migmap_get s' k' = (if k' = k then Some v else migmap_get s k')"
    by (metis not_Some_eq)
qed

lemma migmap_put_total:
  assumes inv: "migmap_inv m0" and mem: "mem AMigMap"
  shows "migmap_put mem m0 key v \<noteq> None"
proof -
  have "\<exists>m. migmap_grow mem m0 = Some m" by (rule migmap_grow_total [where mem = mem, OF inv mem])
  then have "\<exists>m. (if length (mkeys m0) \<le> mlen m0 * 2 then migmap_grow mem m0 else Some m0) = Some m" by simp
  then obtain m where m: "(if length (mkeys m0) \<le> mlen m0 * 2 then migmap_grow mem m0 else Some m0) = Some m" ..
  have "migmap_inv m \<and> mkeys m \<noteq> [] \<and> mlen m * 2 < length (mkeys m)"
    using migmap_grow_ok [OF inv, of mem m] inv m by (auto split: if_splits)
  then have "pow2 (length (mkeys m))" "0 \<in> set (mkeys m)" unfolding used_less [symmetric] by (auto simp: migmap_inv_def)
  then obtain j where "probe (mkeys m) (mig_hash (key + 1)) (key + 1) = Some j" using probe_ends by blast
  then show ?thesis using m by (simp add: migmap_put_def)
qed

end
