(* ===== verification/Migrate.thy ===== *)
theory Migrate
  imports Schema Compact MigMap
begin

text \<open>
  The migration of a log (\<open>mig_fixup_cids\<close>, \<open>wo_wal_migrate\<close> of \<open>database/src/wal.c\<close>): every record is
  decoded with the stored shapes, translated by the plan of the boot diff and staged into a new log,
  which is headed by the compiled schema and swapped in. Shown: the log of a run of inserts, updates
  and removes becomes the log of the translated statements; they rebuild the translated rows; and
  when the migration fails or refuses, the old log is untouched.

  An embedded value is taken over with new class numbers only. That is right for a class whose kinds
  are the same in the same order (\<open>plan_ok\<close>); the diff does not look at the order.
\<close>

section \<open>Decoding with the stored shapes\<close>

text \<open>A kind byte the decoder does not know is refused by it, as \<open>KGcref\<close> is.\<close>

definition shim_kind :: "u8 \<Rightarrow> kind" where
  "shim_kind b = (case kind_of_byte b of Some k \<Rightarrow> k | None \<Rightarrow> KGcref)"

definition shim :: "wo_schema \<Rightarrow> classes" where
  "shim osc = map (\<lambda>k. \<lparr>cls_flags = of_nat (c_flags k), kinds = map (\<lambda>f. shim_kind (f_kind f)) (c_fields k),
     field_class = None, field_elem = None, idx_meta = []\<rparr>) osc"

function (sequential) mig_fixup_cids :: "wo_mig_class list \<Rightarrow> classes \<Rightarrow> kind \<Rightarrow> dbval \<Rightarrow> dbval option"
and fixup_all :: "wo_mig_class list \<Rightarrow> classes \<Rightarrow> kind list \<Rightarrow> dbval list \<Rightarrow> dbval list option" where
  "mig_fixup_cids ms cs KOwned (DRec oc vs) =
     (if length ms \<le> oc then None
      else
        (case new_cid (ms ! oc) of
           None \<Rightarrow> None
         | Some nc \<Rightarrow> map_option (DRec nc) (fixup_all ms cs (kinds (cs ! oc)) vs)))"
| "mig_fixup_cids ms cs KMulti (DMulti ek vs) =
     (if ek \<noteq> KOwned \<and> ek \<noteq> KMulti \<and> ek \<noteq> KMap then Some (DMulti ek vs)
      else map_option (DMulti ek) (fixup_all ms cs (replicate (length vs) ek) vs))"
| "mig_fixup_cids ms cs KMap (DMap kk vk kvs) =
     map_option (DMap kk vk) (fixup_all ms cs (alternate (length kvs div 2) kk vk) kvs)"
| "mig_fixup_cids ms cs k v = Some v"
| "fixup_all ms cs (k # ks) (v # vs) =
     (case mig_fixup_cids ms cs k v of
        None \<Rightarrow> None
      | Some v' \<Rightarrow> map_option ((#) v') (fixup_all ms cs ks vs))"
| "fixup_all ms cs ks vs = Some vs"
  by pat_completeness auto

termination
  by (relation "measure (\<lambda>x. case x of
        Inl (_, _, _, v) \<Rightarrow> size v | Inr (_, _, _, vs) \<Rightarrow> size_list size vs)") auto

section \<open>One record\<close>

text \<open>The fields of the new class in their order: the old field that maps to it, else the zero value.\<close>

definition new_slots :: "wo_mig_class \<Rightarrow> kind list \<Rightarrow> dbval list \<Rightarrow> dbval list" where
  "new_slots mc nks vs =
     map (\<lambda>nf. case find_index (\<lambda>x. x = Some nf) (fmap mc) of
            Some f \<Rightarrow> vs ! f
          | None \<Rightarrow> zero_slot (nks ! nf)) [0..<length nks]"

text \<open>
  What a record becomes: nothing (a schema record), a refusal, a delta that is spliced out (with the new
  offset of its predecessor), a payload to stage, or corruption.
\<close>

datatype mig_step = StSchema | StPoison "poison option" | StSplice u64 | StStage "bytes option" | StCorrupt

definition mig_row ::
  "mem \<Rightarrow> wo_mig_class list \<Rightarrow> classes \<Rightarrow> classes \<Rightarrow> u8 \<Rightarrow> nat \<Rightarrow> nat \<Rightarrow> u64 \<Rightarrow> bytes \<Rightarrow> mig_step" where
  "mig_row mem ms ocs ncs kind cid nc rid r =
     (if \<not> mem AMigVals then StCorrupt
      else
        (case map_parse (dec_val mem ocs) (kinds (ocs ! cid)) r of
           None \<Rightarrow> StCorrupt
         | Some (vs, rest) \<Rightarrow>
             if rest \<noteq> [] then StCorrupt
             else
               (case fixup_all ms ocs (kinds (ocs ! cid)) vs of
                  None \<Rightarrow> StCorrupt
                | Some vs' \<Rightarrow>
                    StStage (build mem (wput_u8 kind @ wput_u32 nc @ wput_u64 rid @
                      enc_vals ncs (kinds (ncs ! nc)) (new_slots (ms ! cid) (kinds (ncs ! nc)) vs'))))))"

definition mig_delta ::
  "mem \<Rightarrow> wo_mig_class list \<Rightarrow> classes \<Rightarrow> classes \<Rightarrow> migmap \<Rightarrow> nat \<Rightarrow> nat \<Rightarrow> u64 \<Rightarrow> bytes \<Rightarrow> mig_step" where
  "mig_delta mem ms ocs ncs mp cid nc rid r0 =
     (case do { (fidx, r) \<leftarrow> rd_u32 r0; (bk, r) \<leftarrow> rd_u64 r; Some (fidx, bk, r) } of
        None \<Rightarrow> StCorrupt
      | Some (fidx, bk, r) \<Rightarrow>
          if field_cnt (ocs ! cid) \<le> fidx then StCorrupt
          else
            (case migmap_get mp bk of
               None \<Rightarrow> StCorrupt
             | Some nback \<Rightarrow>
                 (case fmap (ms ! cid) ! fidx of
                    None \<Rightarrow> StSplice nback
                  | Some nf \<Rightarrow>
                      (case dec_val mem ocs (kinds (ocs ! cid) ! fidx) r of
                         None \<Rightarrow> StCorrupt
                       | Some (v, rest) \<Rightarrow>
                           if rest \<noteq> [] then StCorrupt
                           else
                             (case mig_fixup_cids ms ocs (kinds (ocs ! cid) ! fidx) v of
                                None \<Rightarrow> StCorrupt
                              | Some v' \<Rightarrow>
                                  StStage (build mem (rec_head RDelta nc rid @ wput_u32 nf @ wput_u64 nback @
                                    enc_val ncs (kinds (ncs ! nc) ! nf) v')))))))"

definition mig_record ::
  "mem \<Rightarrow> wo_mig_class list \<Rightarrow> classes \<Rightarrow> classes \<Rightarrow> migmap \<Rightarrow> bytes \<Rightarrow> mig_step" where
  "mig_record mem ms ocs ncs mp p =
     (if p \<noteq> [] \<and> hd p = rec_byte RSchema then StSchema
      else
        (case parse_head p of
           None \<Rightarrow> StCorrupt
         | Some ((kind, cid, rid), r) \<Rightarrow>
             if length ms \<le> cid then StCorrupt
             else
               (case new_cid (ms ! cid) of
                  None \<Rightarrow> StPoison (poison (ms ! cid))
                | Some nc \<Rightarrow>
                    if kind = rec_byte RInsert \<or> kind = rec_byte RUpdate
                    then mig_row mem ms ocs ncs kind cid nc rid r
                    else if kind = rec_byte RDelta then mig_delta mem ms ocs ncs mp cid nc rid r
                    else if kind = rec_byte RRemove then StStage (build mem (rec_head RRemove nc rid))
                    else StCorrupt)))"

section \<open>The whole log\<close>

datatype mig_res = MigOk | MigRefused "poison option" | MigFailed

text \<open>The loop: the offset map, the records staged since the last write, the new log.\<close>

function mig_loop ::
  "mem \<Rightarrow> cio \<Rightarrow> bytes \<Rightarrow> wo_mig_class list \<Rightarrow> classes \<Rightarrow> classes \<Rightarrow> nat \<Rightarrow> migmap \<Rightarrow> nat \<Rightarrow> wo_wal \<Rightarrow> mig_res + wo_wal"
where
  "mig_loop mem c f ms ocs ncs off mp pending nw =
     (case scan_record mem f off of
        None \<Rightarrow> Inr nw
      | Some p \<Rightarrow>
          let off' = off + 8 + length p + 4 in
          (case mig_record mem ms ocs ncs mp p of
             StSchema \<Rightarrow> mig_loop mem c f ms ocs ncs off' mp pending nw
           | StPoison x \<Rightarrow> Inl (MigRefused x)
           | StCorrupt \<Rightarrow> Inl MigFailed
           | StSplice nback \<Rightarrow>
               (case migmap_put mem mp (of_nat off) nback of
                  None \<Rightarrow> Inl MigFailed
                | Some mp' \<Rightarrow> mig_loop mem c f ms ocs ncs off' mp' pending nw)
           | StStage b \<Rightarrow>
               (case stage mem nw b of
                  (False, nw1) \<Rightarrow> Inl MigFailed
                | (True, nw1) \<Rightarrow>
                    (case migmap_put mem mp (of_nat off) (of_nat (woff nw + length (wbytes nw))) of
                       None \<Rightarrow> Inl MigFailed
                     | Some mp' \<Rightarrow>
                         if WO_WAL_COMPACT_FLUSH \<le> pending + 1 then
                           (case wal_write_nosync (c_wr c) nw1 of
                              (False, nw2) \<Rightarrow> Inl MigFailed
                            | (True, nw2) \<Rightarrow> mig_loop mem c f ms ocs ncs off' mp' 0 nw2)
                         else mig_loop mem c f ms ocs ncs off' mp' (pending + 1) nw1))))"
  by pat_completeness auto

termination
  by (relation "measure (\<lambda>(mem, c, f, ms, ocs, ncs, off, mp, pending, nw). length f - off)")
    (auto dest: scan_record_length)

declare mig_loop.simps [simp del]

text \<open>The result and the file at the log's path afterwards.\<close>

definition wo_wal_migrate ::
  "mem \<Rightarrow> cio \<Rightarrow> bytes \<Rightarrow> classes \<Rightarrow> wo_schema \<Rightarrow> wo_mig_plan \<Rightarrow> wo_schema \<Rightarrow> nat \<Rightarrow> mig_res \<times> bytes" where
  "wo_wal_migrate mem c f ncs osc plan nsc pre =
     (if \<not> mem AMig \<or> \<not> c_open c then (MigFailed, f)
      else
        (case wo_schema_encode mem nsc of
           None \<Rightarrow> (MigFailed, f)
         | Some sp \<Rightarrow>
        (case stage mem (wo_wal_open mem [] pre) (build mem sp) of
           (False, nw1) \<Rightarrow> (MigFailed, f)
         | (True, nw1) \<Rightarrow>
        (case mig_loop mem c f (mig_classes plan) (shim osc) ncs 0 empty_migmap 0 nw1 of
           Inl r \<Rightarrow> (r, f)
         | Inr nw2 \<Rightarrow>
        (case wal_write_nosync (c_tail c) nw2 of
           (False, nw3) \<Rightarrow> (MigFailed, f)
         | (True, nw3) \<Rightarrow>
             if \<not> c_sync c \<or> \<not> c_rename c then (MigFailed, f) else (MigOk, fbytes nw3))))))"

section \<open>What the translation is\<close>

text \<open>A value with its class numbers translated, and the values for which that is all there is to do: no
  class in them was changed or refused.\<close>

fun mig_val :: "wo_mig_class list \<Rightarrow> dbval \<Rightarrow> dbval" where
  "mig_val ms (DRec c vs) = DRec (the (new_cid (ms ! c))) (map (mig_val ms) vs)"
| "mig_val ms (DMulti ek vs) = DMulti ek (map (mig_val ms) vs)"
| "mig_val ms (DMap kk vk kvs) = DMap kk vk (map (mig_val ms) kvs)"
| "mig_val ms v = v"

fun clean_val :: "wo_mig_class list \<Rightarrow> dbval \<Rightarrow> bool" where
  "clean_val ms (DRec c vs) \<longleftrightarrow>
     c < length ms \<and> new_cid (ms ! c) \<noteq> None \<and> \<not> changed (ms ! c) \<and> list_all (clean_val ms) vs"
| "clean_val ms (DMulti ek vs) \<longleftrightarrow> list_all (clean_val ms) vs"
| "clean_val ms (DMap kk vk kvs) \<longleftrightarrow> list_all (clean_val ms) kvs"
| "clean_val ms v \<longleftrightarrow> True"

text \<open>The plan fits the compiled classes: mapped fields keep their kind, an unchanged class its kinds in
  their order, and no two classes become one.\<close>

definition plan_ok :: "wo_mig_class list \<Rightarrow> classes \<Rightarrow> classes \<Rightarrow> bool" where
  "plan_ok ms ocs ncs \<longleftrightarrow> length ms = length ocs \<and>
     (\<forall>c<length ms. \<forall>nc. new_cid (ms ! c) = Some nc \<longrightarrow>
        nc < length ncs \<and> length (fmap (ms ! c)) = length (kinds (ocs ! c)) \<and>
        (\<forall>f<length (fmap (ms ! c)). \<forall>nf. fmap (ms ! c) ! f = Some nf \<longrightarrow>
           nf < length (kinds (ncs ! nc)) \<and> kinds (ncs ! nc) ! nf = kinds (ocs ! c) ! f) \<and>
        (\<not> changed (ms ! c) \<longrightarrow> kinds (ncs ! nc) = kinds (ocs ! c)) \<and>
        (\<forall>d<length ms. new_cid (ms ! d) = Some nc \<longrightarrow> d = c))"

definition mig_slots :: "wo_mig_class list \<Rightarrow> classes \<Rightarrow> nat \<Rightarrow> dbval list \<Rightarrow> dbval list" where
  "mig_slots ms ncs c vs = new_slots (ms ! c) (kinds (ncs ! the (new_cid (ms ! c)))) (map (mig_val ms) vs)"

fun mig_stmt :: "wo_mig_class list \<Rightarrow> classes \<Rightarrow> stmt \<Rightarrow> stmt list" where
  "mig_stmt ms ncs (SInsert c rid vs) = [SInsert (the (new_cid (ms ! c))) rid (mig_slots ms ncs c vs)]"
| "mig_stmt ms ncs (SUpdate c rid vs) = [SUpdate (the (new_cid (ms ! c))) rid (mig_slots ms ncs c vs)]"
| "mig_stmt ms ncs (SRemove c rid) = [SRemove (the (new_cid (ms ! c))) rid]"
| "mig_stmt ms ncs (SHead s) = []"

definition mig_stmts :: "wo_mig_class list \<Rightarrow> classes \<Rightarrow> stmt list \<Rightarrow> stmt list" where
  "mig_stmts ms ncs ss = concat (map (mig_stmt ms ncs) ss)"

definition row_stmt_ok :: "wo_mig_class list \<Rightarrow> classes \<Rightarrow> classes \<Rightarrow> nat \<Rightarrow> dbval list \<Rightarrow> bool" where
  "row_stmt_ok ms ocs ncs c vs \<longleftrightarrow>
     vals_ok ocs (kinds (ocs ! c)) vs \<and> list_all (clean_val ms) vs \<and> KGcref \<notin> set (kinds (ncs ! the (new_cid (ms ! c))))"

fun mig_stmt_ok :: "wo_mig_class list \<Rightarrow> classes \<Rightarrow> classes \<Rightarrow> stmt \<Rightarrow> bool" where
  "mig_stmt_ok ms ocs ncs (SInsert c rid vs) \<longleftrightarrow>
     c < length ms \<and> new_cid (ms ! c) \<noteq> None \<and> row_stmt_ok ms ocs ncs c vs"
| "mig_stmt_ok ms ocs ncs (SUpdate c rid vs) \<longleftrightarrow>
     c < length ms \<and> new_cid (ms ! c) \<noteq> None \<and> row_stmt_ok ms ocs ncs c vs"
| "mig_stmt_ok ms ocs ncs (SRemove c rid) \<longleftrightarrow> c < length ms \<and> new_cid (ms ! c) \<noteq> None"
| "mig_stmt_ok ms ocs ncs (SHead s) \<longleftrightarrow> True"

lemma mig_val_leaf: "val_ok cs k v \<Longrightarrow> k \<noteq> KOwned \<Longrightarrow> k \<noteq> KMulti \<Longrightarrow> k \<noteq> KMap \<Longrightarrow> mig_val ms v = v"
  by (cases v) auto

lemma fixup_is_mig:
  "val_ok cs k v \<Longrightarrow> clean_val ms v \<Longrightarrow> mig_fixup_cids ms cs k v = Some (mig_val ms v)"
  "vals_ok cs ks vs \<Longrightarrow> list_all (clean_val ms) vs \<Longrightarrow> fixup_all ms cs ks vs = Some (map (mig_val ms) vs)"
proof (induction ms cs k v and ms cs ks vs rule: mig_fixup_cids_fixup_all.induct)
  case (1 ms cs oc vs)
  then show ?case by (auto split: option.splits)
next
  case (2 ms cs ek vs)
  show ?case
  proof (cases "ek = KOwned \<or> ek = KMulti \<or> ek = KMap")
    case True
    then show ?thesis using 2 by auto
  next
    case False
    have "mig_val ms v = v" if "v \<in> set vs" for v
      using that 2(2) False mig_val_leaf by (fastforce simp: vals_ok_list_all2 list_all2_conv_all_nth in_set_conv_nth)
    then have "map (mig_val ms) vs = vs" by (simp add: map_idI)
    then show ?thesis using False by simp
  qed
next
  case (3 ms cs kk vk kvs)
  then show ?case by auto
qed (auto simp: mig_val_leaf dest: vals_ok_length)

lemma vals_ok_map:
  assumes "vals_ok cs ks vs" and "list_all (clean_val ms) vs"
    and "\<And>k v. v \<in> set vs \<Longrightarrow> val_ok cs k v \<Longrightarrow> clean_val ms v \<Longrightarrow> val_ok ncs k (mig_val ms v)"
  shows "vals_ok ncs ks (map (mig_val ms) vs)"
  using assms by (auto simp: vals_ok_list_all2 list_all2_conv_all_nth list_all_length)

lemma mig_val_ok:
  assumes p: "plan_ok ms cs ncs" and n: "length ncs \<le> 2 ^ 32"
  shows "val_ok cs k v \<Longrightarrow> clean_val ms v \<Longrightarrow> val_ok ncs k (mig_val ms v)"
proof (induction v arbitrary: k)
  case (DRec c vs)
  obtain nc where nc: "new_cid (ms ! c) = Some nc" "c < length ms" "\<not> changed (ms ! c)" using DRec.prems by auto
  then have "nc < length ncs" "kinds (ncs ! nc) = kinds (cs ! c)" using p by (auto simp: plan_ok_def)
  moreover have "vals_ok ncs (kinds (cs ! c)) (map (mig_val ms) vs)"
    by (rule vals_ok_map) (use DRec in auto)
  ultimately show ?case using DRec.prems nc n by simp
next
  case (DMulti ek vs)
  have "vals_ok ncs (replicate (length vs) ek) (map (mig_val ms) vs)"
    by (rule vals_ok_map) (use DMulti in auto)
  then show ?case using DMulti.prems by simp
next
  case (DMap kk vk kvs)
  have "vals_ok ncs (alternate (length kvs div 2) kk vk) (map (mig_val ms) kvs)"
    by (rule vals_ok_map) (use DMap in auto)
  then show ?case using DMap.prems by simp
qed auto

lemma mig_slots_ok:
  assumes p: "plan_ok ms ocs ncs" and n: "length ncs \<le> 2 ^ 32" and c: "c < length ms" "new_cid (ms ! c) = Some nc"
    and ok: "row_stmt_ok ms ocs ncs c vs"
  shows "vals_ok ncs (kinds (ncs ! nc)) (mig_slots ms ncs c vs)"
proof -
  let ?ks = "kinds (ncs ! nc)"
  have vs: "vals_ok ocs (kinds (ocs ! c)) vs" "list_all (clean_val ms) vs" "KGcref \<notin> set ?ks"
    using ok c(2) by (simp_all add: row_stmt_ok_def)
  have pc: "length (fmap (ms ! c)) = length (kinds (ocs ! c))"
    "\<forall>f<length (fmap (ms ! c)). \<forall>nf. fmap (ms ! c) ! f = Some nf \<longrightarrow> nf < length ?ks \<and> ?ks ! nf = kinds (ocs ! c) ! f"
    using p c by (auto simp: plan_ok_def)
  have "val_ok ncs (?ks ! nf) (mig_slots ms ncs c vs ! nf)" if nf: "nf < length ?ks" for nf
  proof (cases "find_index (\<lambda>x. x = Some nf) (fmap (ms ! c))")
    case None
    have "?ks ! nf \<noteq> KGcref" using nth_mem [OF nf] vs(3) by auto
    then have "val_ok ncs (?ks ! nf) (zero_slot (?ks ! nf))" by (rule zero_slot_ok)
    moreover have "mig_slots ms ncs c vs ! nf = zero_slot (?ks ! nf)"
      using None nf c(2) by (simp add: mig_slots_def new_slots_def)
    ultimately show ?thesis by simp
  next
    case (Some f)
    then have f: "f < length (fmap (ms ! c))" "fmap (ms ! c) ! f = Some nf" by (auto dest: find_index_Some)
    then have k: "?ks ! nf = kinds (ocs ! c) ! f" "f < length vs" using pc vals_ok_length [OF vs(1)] by auto
    have "val_ok ncs (kinds (ocs ! c) ! f) (mig_val ms (vs ! f))"
      using vals_ok_nth [OF vs(1), of f] vs(2) f pc k(2) by (intro mig_val_ok [OF p n]) (auto simp: list_all_length)
    then show ?thesis using Some nf k c(2) by (simp add: mig_slots_def new_slots_def)
  qed
  moreover have "length (mig_slots ms ncs c vs) = length ?ks" using c(2) by (simp add: mig_slots_def new_slots_def)
  ultimately show ?thesis by (simp add: vals_ok_list_all2 list_all2_conv_all_nth)
qed

section \<open>The migrated log\<close>

lemma parse_head_stmt:
  assumes "c < 2 ^ 32"
  shows "parse_head (row_payload cs k c rid vs) = Some ((rec_byte k, c, rid), enc_vals cs (kinds (cs ! c)) vs)"
    and "parse_head (rec_head k c rid) = Some ((rec_byte k, c, rid), [])"
  using parse_head_rec [OF assms] parse_head_rec [OF assms, of k rid "[]"] by (simp_all add: row_payload_def)

lemma mig_row_stmt:
  assumes mem: "\<forall>s. mem s" and c: "c < length ms" "new_cid (ms ! c) = Some nc" and ok: "row_stmt_ok ms ocs ncs c vs"
  shows "mig_row mem ms ocs ncs (rec_byte k) c nc rid (enc_vals ocs (kinds (ocs ! c)) vs) =
    StStage (Some (row_payload ncs k nc rid (mig_slots ms ncs c vs)))"
proof -
  have vs: "vals_ok ocs (kinds (ocs ! c)) vs" "list_all (clean_val ms) vs" using ok by (simp_all add: row_stmt_ok_def)
  have "map_parse (dec_val mem ocs) (kinds (ocs ! c)) (enc_vals ocs (kinds (ocs ! c)) vs) = Some (vs, [])"
    using dec_enc_vals [where mem = mem, OF _ vs(1), of "[]"] mem by simp
  then show ?thesis
    using mem fixup_is_mig(2) [OF vs] c(2)
    by (simp add: mig_row_def build_def row_payload_def rec_head_def mig_slots_def)
qed

lemma mig_record_stmt:
  assumes mem: "\<forall>s. mem s" and p: "plan_ok ms ocs ncs" and n: "length ocs \<le> 2 ^ 32" and ok: "mig_stmt_ok ms ocs ncs s"
  shows "mig_record mem ms ocs ncs mp (stmt_payload ocs s) =
    (case mig_stmt ms ncs s of [] \<Rightarrow> StSchema | t # _ \<Rightarrow> StStage (Some (stmt_payload ncs t)))"
proof -
  have l: "length ms = length ocs" using p by (simp add: plan_ok_def)
  have hd: "hd (row_payload ocs k c rid vs) = rec_byte k" "hd (rec_head k c rid) = rec_byte k" for k c rid vs
    by (simp_all add: row_payload_def rec_head_def wput_u8_def)
  show ?thesis
  proof (cases s)
    case (SInsert c rid vs)
    then have c: "c < length ms" "c < 2 ^ 32" using ok l n by auto
    obtain nc where nc: "new_cid (ms ! c) = Some nc" using ok SInsert by auto
    have "row_stmt_ok ms ocs ncs c vs" using ok SInsert by simp
    note r = mig_row_stmt [where mem = mem, OF mem c(1) nc this, of RInsert rid]
    show ?thesis using c nc r parse_head_stmt(1) [OF c(2)] by (simp add: SInsert mig_record_def hd)
  next
    case (SUpdate c rid vs)
    then have c: "c < length ms" "c < 2 ^ 32" using ok l n by auto
    obtain nc where nc: "new_cid (ms ! c) = Some nc" using ok SUpdate by auto
    have "row_stmt_ok ms ocs ncs c vs" using ok SUpdate by simp
    note r = mig_row_stmt [where mem = mem, OF mem c(1) nc this, of RUpdate rid]
    show ?thesis using c nc r parse_head_stmt(1) [OF c(2)] by (simp add: SUpdate mig_record_def hd)
  next
    case (SRemove c rid)
    then have c: "c < length ms" "c < 2 ^ 32" using ok l n by auto
    obtain nc where nc: "new_cid (ms ! c) = Some nc" using ok SRemove by auto
    show ?thesis using c nc mem parse_head_stmt(2) [OF c(2)] by (simp add: SRemove mig_record_def hd build_def)
  next
    case (SHead x)
    then show ?thesis by (simp add: mig_record_def)
  qed
qed

lemma mig_loop_stmts:
  assumes mem: "\<forall>s. mem s" and p: "plan_ok ms ocs ncs" and n: "length ocs \<le> 2 ^ 32" and io: "wr (c_wr c) = None"
    and f: "length f < 2 ^ 64 - 1"
  shows "wal_records mem f off = with_offsets off (map (stmt_payload ocs) ss) \<Longrightarrow>
    \<forall>s\<in>set ss. mig_stmt_ok ms ocs ncs s \<Longrightarrow>
    \<forall>s\<in>set (mig_stmts ms ncs ss). payload_ok (stmt_payload ncs s) \<Longrightarrow> migmap_inv mp \<Longrightarrow>
    log_is nw ps qs \<Longrightarrow> schema nw = None \<Longrightarrow>
    \<exists>nw' ps' qs'. mig_loop mem c f ms ocs ncs off mp pending nw = Inr nw' \<and> log_is nw' ps' qs' \<and>
      ps' @ qs' = ps @ qs @ map (stmt_payload ncs) (mig_stmts ms ncs ss)"
proof (induction ss arbitrary: off mp pending nw ps qs)
  case Nil
  then have "scan_record mem f off = None" by (simp add: wal_records.simps [of mem f off] split: option.splits)
  then have "mig_loop mem c f ms ocs ncs off mp pending nw = Inr nw" by (simp add: mig_loop.simps [of mem c f])
  then show ?case using Nil by (auto simp: mig_stmts_def)
next
  case (Cons s ss)
  let ?p = "stmt_payload ocs s"
  let ?off = "off + 8 + length ?p + 4"
  have sc: "scan_record mem f off = Some ?p" and rest: "wal_records mem f ?off = with_offsets ?off (map (stmt_payload ocs) ss)"
    using Cons.prems(1) by (auto simp: wal_records.simps [of mem f off] split: option.splits)
  have ok: "mig_stmt_ok ms ocs ncs s" "\<forall>s\<in>set ss. mig_stmt_ok ms ocs ncs s" using Cons.prems(2) by simp_all
  have pl: "\<forall>t\<in>set (mig_stmts ms ncs ss). payload_ok (stmt_payload ncs t)" using Cons.prems(3) by (simp add: mig_stmts_def)
  note r = mig_record_stmt [where mem = mem and mp = mp, OF mem p n ok(1)]
  show ?case
  proof (cases "mig_stmt ms ncs s")
    case Nil
    then have "mig_loop mem c f ms ocs ncs off mp pending nw = mig_loop mem c f ms ocs ncs ?off mp pending nw"
      using sc r by (simp add: mig_loop.simps [of mem c f ms ocs ncs off] Let_def)
    then show ?thesis using Cons.IH [OF rest ok(2) pl Cons.prems(4-6)] Nil by (simp add: mig_stmts_def)
  next
    case (Cons t ts)
    then have ts: "mig_stmt ms ncs s = [t]" by (cases s) auto
    have pt: "payload_ok (stmt_payload ncs t)" using Cons.prems(3) ts by (simp add: mig_stmts_def)
    obtain nw1 where st: "stage mem nw (Some (stmt_payload ncs t)) = (True, nw1)"
      using stage_total [of mem nw "stmt_payload ncs t"] mem by (cases "stage mem nw (Some (stmt_payload ncs t))") auto
    have "head_payload nw = []" using Cons.prems(6) by (simp add: head_payload_def)
    then have l1: "log_is nw1 ps (qs @ [stmt_payload ncs t])" and s1: "schema nw1 = None"
      using log_is_stage [OF Cons.prems(5) st pt] stage_ok(7) [OF st] Cons.prems(6) by simp_all
    have "off < length f" using scan_record_length [OF sc] by simp
    then have o: "off < 2 ^ 64 - 1" using f by simp
    then have u: "unat (of_nat off :: u64) = off" by (simp add: unsigned_of_nat take_bit_nat_eq_self)
    have key: "(of_nat off :: u64) \<noteq> - 1"
    proof
      assume "(of_nat off :: u64) = - 1"
      then have "off = unat (- 1 :: u64)" using u by simp
      then show False using o by (simp add: unsigned_minus_1_eq_mask mask_eq_exp_minus_1)
    qed
    obtain mp' where put: "migmap_put mem mp (of_nat off) (of_nat (woff nw + length (wbytes nw))) = Some mp'"
      using migmap_put_total [where mem = mem, OF Cons.prems(4)] mem by blast
    have inv': "migmap_inv mp'" by (rule mm.put_inv [OF Cons.prems(4) key put])
    have step: "mig_loop mem c f ms ocs ncs off mp pending nw =
        (if WO_WAL_COMPACT_FLUSH \<le> pending + 1 then
           (case wal_write_nosync (c_wr c) nw1 of
              (False, nw2) \<Rightarrow> Inl MigFailed
            | (True, nw2) \<Rightarrow> mig_loop mem c f ms ocs ncs ?off mp' 0 nw2)
         else mig_loop mem c f ms ocs ncs ?off mp' (pending + 1) nw1)"
      using sc r ts st put
      by (simp add: mig_loop.simps [of mem c f ms ocs ncs off] Let_def split: prod.split bool.split)
    have e: "map (stmt_payload ncs) (mig_stmts ms ncs (s # ss)) = stmt_payload ncs t # map (stmt_payload ncs) (mig_stmts ms ncs ss)"
      using ts by (simp add: mig_stmts_def)
    show ?thesis
    proof (cases "WO_WAL_COMPACT_FLUSH \<le> pending + 1")
      case True
      obtain nw2 where n2: "wal_write_nosync (c_wr c) nw1 = (True, nw2)" "log_is nw2 (ps @ qs @ [stmt_payload ncs t]) []"
        "schema nw2 = None" using nosync_ok [OF l1 io] s1 by auto
      from Cons.IH [OF rest ok(2) pl inv' n2(2,3), of 0] show ?thesis using step True n2(1) by (simp add: e)
    next
      case False
      from Cons.IH [OF rest ok(2) pl inv' l1 s1, of "pending + 1"] show ?thesis using step False by (simp add: e)
    qed
  qed
qed

lemma open_empty: "log_is (wo_wal_open mem [] n) [] []" "schema (wo_wal_open mem [] n) = None"
proof -
  have "intact_end mem (replicate n 0) 0 = 0" for n
    using scan_zeros [of mem n] by (simp add: intact_end.simps)
  then show "log_is (wo_wal_open mem [] n) [] []" "schema (wo_wal_open mem [] n) = None"
    by (auto simp: wo_wal_open_def Let_def log_is_def fallocate_def intact_end.simps scan_record_def pread_def)
qed

lemma migrate_log:
  assumes mem: "\<forall>s. mem s" and p: "plan_ok (mig_classes plan) (shim osc) ncs" and n: "length osc \<le> 2 ^ 32"
    and dev: "device_ok c" and f: "length f < 2 ^ 64 - 1"
    and rs: "wal_records mem f 0 = with_offsets 0 (map (stmt_payload (shim osc)) ss)"
    and ok: "\<forall>s\<in>set ss. mig_stmt_ok (mig_classes plan) (shim osc) ncs s"
    and pl: "\<forall>s\<in>set (mig_stmts (mig_classes plan) ncs ss). payload_ok (stmt_payload ncs s)"
    and sp: "wo_schema_encode mem nsc = Some sp" "payload_ok sp"
  shows "\<exists>f'. wo_wal_migrate mem c f ncs osc plan nsc pre = (MigOk, f') \<and>
    wal_records mem f' 0 = with_offsets 0 (map (stmt_payload ncs) (SHead (tl sp) # mig_stmts (mig_classes plan) ncs ss))"
proof -
  let ?nw0 = "wo_wal_open mem [] pre"
  note l0 = open_empty [of mem pre]
  have hd: "sp = rec_byte RSchema # tl sp" using sp(1) by (auto simp: wo_schema_encode_def build_def wput_u8_def split: if_splits)
  obtain nw1 where st: "stage mem ?nw0 (build mem sp) = (True, nw1)" using stage_total' [OF mem] by blast
  then have st': "stage mem ?nw0 (Some sp) = (True, nw1)" using mem by (simp add: build_def)
  have "head_payload ?nw0 = []" using l0(2) by (simp add: head_payload_def)
  then have l1: "log_is nw1 [] [sp]" "schema nw1 = None"
    using log_is_stage [OF l0(1) st' sp(2)] stage_ok(7) [OF st'] l0(2) by simp_all
  have io: "wr (c_wr c) = None" "wr (c_tail c) = None" using dev by (auto simp: device_ok_def)
  have n': "length (shim osc) \<le> 2 ^ 32" using n by (simp add: shim_def)
  obtain nw2 ps qs where lp: "mig_loop mem c f (mig_classes plan) (shim osc) ncs 0 empty_migmap 0 nw1 = Inr nw2"
    "log_is nw2 ps qs" "ps @ qs = [] @ [sp] @ map (stmt_payload ncs) (mig_stmts (mig_classes plan) ncs ss)"
    using mig_loop_stmts [where mem = mem and c = c, OF mem p n' io(1) f rs ok pl empty_migmap_inv l1] by blast
  obtain nw3 where n3: "wal_write_nosync (c_tail c) nw2 = (True, nw3)" "log_is nw3 (ps @ qs) []"
    using nosync_ok [OF lp(2) io(2)] by blast
  have "wo_wal_migrate mem c f ncs osc plan nsc pre = (MigOk, fbytes nw3)"
    using mem dev sp(1) st lp(1) n3(1) by (simp add: wo_wal_migrate_def device_ok_def)
  moreover have "wal_records mem (fbytes nw3) 0 = with_offsets 0 (ps @ qs)"
    using log_is_records(1) [where mem = mem, OF n3(2)] mem by blast
  ultimately show ?thesis using lp(3) hd by simp
qed

section \<open>The migrated store\<close>

text \<open>A row of an old class as a row of the new one.\<close>

definition mig_row_of :: "wo_mig_class list \<Rightarrow> classes \<Rightarrow> nat \<Rightarrow> db_row \<Rightarrow> db_row" where
  "mig_row_of ms ncs c r = row_of (the (new_cid (ms ! c))) (row_id r) (mig_slots ms ncs c (slots r))"

definition store_migrated :: "wo_mig_class list \<Rightarrow> classes \<Rightarrow> store \<Rightarrow> store \<Rightarrow> bool" where
  "store_migrated ms ncs S S' \<longleftrightarrow>
     (\<forall>c<length ms. \<forall>nc. new_cid (ms ! c) = Some nc \<longrightarrow> S' nc = (\<lambda>rid. map_option (mig_row_of ms ncs c) (S c rid)))"

lemma mig_stmt_runs:
  assumes p: "plan_ok ms ocs ncs" and ok: "mig_stmt_ok ms ocs ncs s" and m: "store_migrated ms ncs S S'"
    and old: "run_stmt ocs s S = Some T" and new: "run_stmts ncs (mig_stmt ms ncs s) S' = Some T'"
  shows "store_migrated ms ncs T T'"
proof -
  have inj: "d = c" if "c < length ms" "d < length ms" "new_cid (ms ! c) = Some nc" "new_cid (ms ! d) = Some nc" for c d nc
    using p that unfolding plan_ok_def by blast
  have row: "mig_row_of ms ncs c (row_of c rid vs) = row_of (the (new_cid (ms ! c))) rid (mig_slots ms ncs c vs)" for c rid vs
    by (simp add: mig_row_of_def row_of_def)
  have upd: "store_migrated ms ncs (S(c := (S c)(rid := x))) (S'(nc := (S' nc)(rid := map_option (mig_row_of ms ncs c) x)))"
    if c: "c < length ms" "new_cid (ms ! c) = Some nc" for c nc rid x
    unfolding store_migrated_def
  proof (intro allI impI)
    fix d nd assume d: "d < length ms" "new_cid (ms ! d) = Some nd"
    have S': "S' nd = (\<lambda>rid. map_option (mig_row_of ms ncs d) (S d rid))" using m d by (simp add: store_migrated_def)
    show "(S'(nc := (S' nc)(rid := map_option (mig_row_of ms ncs c) x))) nd =
        (\<lambda>i. map_option (mig_row_of ms ncs d) ((S(c := (S c)(rid := x))) d i))"
    proof (cases "d = c")
      case True
      then show ?thesis using S' d c by (auto simp: fun_eq_iff)
    next
      case False
      then have "nd \<noteq> nc" using inj [OF c(1) d(1) c(2)] d(2) by auto
      then show ?thesis using S' False by simp
    qed
  qed
  show ?thesis
  proof (cases s)
    case (SInsert c rid vs)
    obtain nc where nc: "c < length ms" "new_cid (ms ! c) = Some nc" using ok SInsert by auto
    show ?thesis using old new upd [OF nc, of rid "Some (row_of c rid vs)"] nc
      by (simp add: SInsert row split: if_splits)
  next
    case (SUpdate c rid vs)
    obtain nc where nc: "c < length ms" "new_cid (ms ! c) = Some nc" using ok SUpdate by auto
    show ?thesis using old new upd [OF nc, of rid "Some (row_of c rid vs)"] nc
      by (simp add: SUpdate row split: if_splits)
  next
    case (SRemove c rid)
    obtain nc where nc: "c < length ms" "new_cid (ms ! c) = Some nc" using ok SRemove by auto
    show ?thesis using old new upd [OF nc, of rid None] nc by (simp add: SRemove split: if_splits)
  next
    case (SHead x)
    then show ?thesis using m old new by simp
  qed
qed

lemma mig_stmts_run:
  assumes p: "plan_ok ms ocs ncs"
  shows "\<forall>s\<in>set ss. mig_stmt_ok ms ocs ncs s \<Longrightarrow> store_migrated ms ncs S S' \<Longrightarrow> run_stmts ocs ss S = Some T \<Longrightarrow>
    run_stmts ncs (mig_stmts ms ncs ss) S' = Some T' \<Longrightarrow> store_migrated ms ncs T T'"
proof (induction ss arbitrary: S S')
  case Nil
  then show ?case by (simp add: mig_stmts_def)
next
  case (Cons s ss)
  obtain S1 where S1: "run_stmt ocs s S = Some S1" "run_stmts ocs ss S1 = Some T"
    using Cons.prems(3) by (auto split: option.splits)
  obtain S1' where S1': "run_stmts ncs (mig_stmt ms ncs s) S' = Some S1'" "run_stmts ncs (mig_stmts ms ncs ss) S1' = Some T'"
    using Cons.prems(4) by (auto simp: mig_stmts_def run_stmts_append split: option.splits)
  have "store_migrated ms ncs S1 S1'"
    using mig_stmt_runs [OF p _ Cons.prems(2) S1(1) S1'(1)] Cons.prems(1) by simp
  then show ?case using Cons.IH S1(2) S1'(2) Cons.prems(1) by simp
qed

text \<open>The translated statements are statements the compiled store can replay.\<close>

lemma mig_stmts_ok:
  assumes p: "plan_ok ms ocs (classes db)" and n: "length (classes db) \<le> 2 ^ 32"
    and ok: "\<forall>s\<in>set ss. mig_stmt_ok ms ocs (classes db) s"
    and d: "\<forall>c<length ms. \<forall>nc. new_cid (ms ! c) = Some nc \<longrightarrow> class_ok db nc"
    and i: "\<forall>s\<in>set ss. case s of SInsert c rid vs \<Rightarrow> id_ok db rid | SUpdate c rid vs \<Rightarrow> id_ok db rid
      | SRemove c rid \<Rightarrow> id_ok db rid | SHead x \<Rightarrow> True"
  shows "\<forall>s\<in>set (mig_stmts ms (classes db) ss). stmt_ok db s"
proof -
  have "stmt_ok db t" if "s \<in> set ss" "t \<in> set (mig_stmt ms (classes db) s)" for s t
  proof -
    have o: "mig_stmt_ok ms ocs (classes db) s"
      and i': "case s of SInsert c rid vs \<Rightarrow> id_ok db rid | SUpdate c rid vs \<Rightarrow> id_ok db rid
        | SRemove c rid \<Rightarrow> id_ok db rid | SHead x \<Rightarrow> True"
      using that(1) ok i by blast+
    show ?thesis using that(2) o i' d mig_slots_ok [OF p n] by (cases s) (auto simp: class_of_def)
  qed
  then show ?thesis by (auto simp: mig_stmts_def)
qed

section \<open>Refusals\<close>

text \<open>A record of a class the plan refuses, with the reason.\<close>

definition refused_rec :: "wo_mig_class list \<Rightarrow> bytes \<Rightarrow> poison option \<Rightarrow> bool" where
  "refused_rec ms p x \<longleftrightarrow> \<not> (p \<noteq> [] \<and> hd p = rec_byte RSchema) \<and>
     (\<exists>k cid rid r. parse_head p = Some ((k, cid, rid), r) \<and> cid < length ms \<and> new_cid (ms ! cid) = None \<and>
        poison (ms ! cid) = x)"

definition refused_in :: "wo_mig_class list \<Rightarrow> (nat \<times> bytes) list \<Rightarrow> poison option \<Rightarrow> bool" where
  "refused_in ms rs x \<longleftrightarrow> (\<exists>p\<in>snd ` set rs. refused_rec ms p x)"

lemma refused_in_simps [simp]:
  "\<not> refused_in ms [] x" "refused_in ms (r # rs) x \<longleftrightarrow> refused_rec ms (snd r) x \<or> refused_in ms rs x"
  by (simp_all add: refused_in_def)

lemma mig_record_refused:
  "mig_record mem ms ocs ncs mp p = StPoison x \<longleftrightarrow> refused_rec ms p x"
proof -
  have r: "mig_row mem ms ocs ncs k c n i b \<noteq> StPoison x" for k c n i b
    by (simp add: mig_row_def split: option.split prod.split)
  have d: "mig_delta mem ms ocs ncs mp c n i b \<noteq> StPoison x" for c n i b
    by (simp add: mig_delta_def split: option.split prod.split)
  show ?thesis
    unfolding mig_record_def refused_rec_def
    by (auto simp: r d split: option.splits prod.splits)
qed

lemma mig_loop_refused:
  "(\<forall>x. mig_loop mem c f ms ocs ncs off mp pending nw = Inl (MigRefused x) \<longrightarrow>
      refused_in ms (wal_records mem f off) x) \<and>
   (\<forall>nw'. mig_loop mem c f ms ocs ncs off mp pending nw = Inr nw' \<longrightarrow>
      (\<forall>x. \<not> refused_in ms (wal_records mem f off) x)) \<and>
   mig_loop mem c f ms ocs ncs off mp pending nw \<noteq> Inl MigOk"
proof (induction mem c f ms ocs ncs off mp pending nw rule: mig_loop.induct)
  case (1 mem c f ms ocs ncs off mp pending nw)
  show ?case
  proof (cases "scan_record mem f off")
    case None
    then show ?thesis by (simp add: mig_loop.simps [of mem c f ms ocs ncs off] wal_records.simps [of mem f off])
  next
    case (Some p)
    let ?off = "off + 8 + length p + 4"
    have w: "wal_records mem f off = (off, p) # wal_records mem f ?off"
      using Some by (simp add: wal_records.simps [of mem f off])
    note ih = 1 [OF Some refl]
    note mr = mig_record_refused [of mem ms ocs ncs mp p]
    show ?thesis
    proof (cases "mig_record mem ms ocs ncs mp p")
      case StSchema
      then have e: "mig_loop mem c f ms ocs ncs off mp pending nw = mig_loop mem c f ms ocs ncs ?off mp pending nw"
        using Some by (simp add: mig_loop.simps [of mem c f ms ocs ncs off] Let_def)
      have "\<not> refused_rec ms p x" for x using mr StSchema by simp
      then show ?thesis using ih(1) [OF StSchema] unfolding e w by simp
    next
      case (StPoison x)
      then have e: "mig_loop mem c f ms ocs ncs off mp pending nw = Inl (MigRefused x)"
        using Some by (simp add: mig_loop.simps [of mem c f ms ocs ncs off] Let_def)
      show ?thesis using mr StPoison unfolding e w by simp
    next
      case StCorrupt
      then have e: "mig_loop mem c f ms ocs ncs off mp pending nw = Inl MigFailed"
        using Some by (simp add: mig_loop.simps [of mem c f ms ocs ncs off] Let_def)
      show ?thesis unfolding e by simp
    next
      case (StSplice nback)
      have nr: "\<not> refused_rec ms p x" for x using mr StSplice by simp
      show ?thesis
      proof (cases "migmap_put mem mp (of_nat off) nback")
        case None
        then have e: "mig_loop mem c f ms ocs ncs off mp pending nw = Inl MigFailed"
          using Some StSplice by (simp add: mig_loop.simps [of mem c f ms ocs ncs off] Let_def)
        show ?thesis unfolding e by simp
      next
        case put: (Some mp')
        then have e: "mig_loop mem c f ms ocs ncs off mp pending nw = mig_loop mem c f ms ocs ncs ?off mp' pending nw"
          using Some StSplice by (simp add: mig_loop.simps [of mem c f ms ocs ncs off] Let_def)
        show ?thesis using ih(2) [OF StSplice put] nr unfolding e w by simp
      qed
    next
      case (StStage b)
      have nr: "\<not> refused_rec ms p x" for x using mr StStage by simp
      obtain ok nw1 where st: "stage mem nw b = (ok, nw1)" by force
      let ?e = "mig_loop mem c f ms ocs ncs off mp pending nw"
      consider (fail) "?e = Inl MigFailed"
        | (go) mp' nw2 pn where "?e = mig_loop mem c f ms ocs ncs ?off mp' pn nw2"
           "(\<forall>x. mig_loop mem c f ms ocs ncs ?off mp' pn nw2 = Inl (MigRefused x) \<longrightarrow>
              refused_in ms (wal_records mem f ?off) x) \<and>
            (\<forall>nw'. mig_loop mem c f ms ocs ncs ?off mp' pn nw2 = Inr nw' \<longrightarrow>
              (\<forall>x. \<not> refused_in ms (wal_records mem f ?off) x)) \<and>
            mig_loop mem c f ms ocs ncs ?off mp' pn nw2 \<noteq> Inl MigOk"
      proof (cases "ok \<and> migmap_put mem mp (of_nat off) (of_nat (woff nw + length (wbytes nw))) \<noteq> None")
        case False
        have "?e = Inl MigFailed"
          using False Some StStage st
          by (cases ok) (simp_all add: mig_loop.simps [of mem c f ms ocs ncs off] Let_def)
        then show thesis by (rule fail)
      next
        case True
        then obtain mp' where put: "ok" "migmap_put mem mp (of_nat off) (of_nat (woff nw + length (wbytes nw))) = Some mp'"
          by blast
        have st': "stage mem nw b = (True, nw1)" using st put(1) by simp
        note sym = st' [symmetric]
        show thesis
        proof (cases "WO_WAL_COMPACT_FLUSH \<le> pending + 1")
          case flush: True
          obtain ok2 nw2 where n2: "wal_write_nosync (c_wr c) nw1 = (ok2, nw2)" by force
          show thesis
          proof (cases ok2)
            case True
            then have n2': "wal_write_nosync (c_wr c) nw1 = (True, nw2)" using n2 by simp
            have e: "?e = mig_loop mem c f ms ocs ncs ?off mp' 0 nw2"
              using Some StStage st' put(2) flush n2'
              by (simp add: mig_loop.simps [of mem c f ms ocs ncs off] Let_def)
            show thesis by (rule go [OF e ih(3) [OF StStage sym refl put(2) flush n2' [symmetric] refl]])
          next
            case False
            then have "?e = Inl MigFailed"
              using Some StStage st' put(2) flush n2 by (simp add: mig_loop.simps [of mem c f ms ocs ncs off] Let_def)
            then show thesis by (rule fail)
          qed
        next
          case False
          have e: "?e = mig_loop mem c f ms ocs ncs ?off mp' (pending + 1) nw1"
            using Some StStage st' put(2) False by (simp add: mig_loop.simps [of mem c f ms ocs ncs off] Let_def)
          show thesis by (rule go [OF e ih(4) [OF StStage sym refl put(2) False]])
        qed
      qed
      then show ?thesis
      proof cases
        case fail
        then show ?thesis by simp
      next
        case go
        show ?thesis using go(2) nr unfolding go(1) w by simp
      qed
    qed
  qed
qed

lemma migrate_outcome:
  assumes m: "wo_wal_migrate mem c f ncs osc plan nsc pre = (r, f')"
  shows "r \<noteq> MigOk \<longrightarrow> f' = f"
    and "r = MigRefused x \<longrightarrow> refused_in (mig_classes plan) (wal_records mem f 0) x"
    and "r = MigOk \<longrightarrow> \<not> refused_in (mig_classes plan) (wal_records mem f 0) x"
proof -
  let ?l = "mig_loop mem c f (mig_classes plan) (shim osc) ncs 0 empty_migmap 0"
  have l: "?l nw = Inl (MigRefused x) \<Longrightarrow> refused_in (mig_classes plan) (wal_records mem f 0) x"
    "?l nw = Inr nw' \<Longrightarrow> \<not> refused_in (mig_classes plan) (wal_records mem f 0) x" "?l nw \<noteq> Inl MigOk" for nw nw' x
    using mig_loop_refused [of mem c f "mig_classes plan" "shim osc" ncs 0 empty_migmap 0 nw] by blast+
  show "r \<noteq> MigOk \<longrightarrow> f' = f" using m
    by (auto simp: wo_wal_migrate_def split: if_splits option.splits prod.splits bool.splits sum.splits)
  show "r = MigRefused x \<longrightarrow> refused_in (mig_classes plan) (wal_records mem f 0) x" using m l(1)
    by (auto simp: wo_wal_migrate_def split: if_splits option.splits prod.splits bool.splits sum.splits)
  show "r = MigOk \<longrightarrow> \<not> refused_in (mig_classes plan) (wal_records mem f 0) x" using m l(2,3)
    by (auto simp: wo_wal_migrate_def split: if_splits option.splits prod.splits bool.splits sum.splits)
qed

section \<open>The plan of the boot diff\<close>

lemma poisoned_new_cid:
  assumes "\<forall>m\<in>set ms. poison m = None \<or> new_cid m = None"
  shows "\<forall>m\<in>set (embed_fix osc ms). poison m = None \<or> new_cid m = None"
  using assms
proof (induction osc ms rule: embed_fix.induct)
  case (1 osc ms)
  have one: "\<forall>m\<in>set (embed_class osc ms c). poison m = None \<or> new_cid m = None"
    if "\<forall>m\<in>set ms. poison m = None \<or> new_cid m = None" for ms c
  proof (cases "embed_class osc ms c = ms")
    case False
    then obtain q b where "embed_class osc ms c = ms[c := poisoned q b]"
      by (auto simp: embed_class_def split: option.splits if_splits)
    then have "set (embed_class osc ms c) \<subseteq> insert (poisoned q b) (set ms)" using set_update_subset_insert by simp
    then have "m = poisoned q b \<or> m \<in> set ms" if "m \<in> set (embed_class osc ms c)" for m using that by blast
    moreover have "poison (poisoned q b) = None \<or> new_cid (poisoned q b) = None" by (simp add: poisoned_def)
    ultimately show ?thesis using that by metis
  qed (use that in simp)
  have fl: "\<forall>m\<in>set ms. poison m = None \<or> new_cid m = None \<Longrightarrow>
      \<forall>m\<in>set (foldl (embed_class osc) ms cids). poison m = None \<or> new_cid m = None" for ms cids
  proof (induction cids arbitrary: ms)
    case (Cons c cids)
    show ?case using Cons.IH [OF one [OF Cons.prems]] by (simp only: foldl_Cons)
  qed simp
  have p: "\<forall>m\<in>set (embed_pass osc ms). poison m = None \<or> new_cid m = None"
    unfolding embed_pass_def by (rule fl [OF 1(2)])
  show ?case
  proof (cases "length osc = length ms \<and> embed_pass osc ms \<noteq> ms")
    case True
    then have "embed_fix osc ms = embed_fix osc (embed_pass osc ms)" by (subst embed_fix.simps) (simp add: Let_def)
    then show ?thesis using 1(1) True p by simp
  next
    case False
    then have "embed_fix osc ms = ms" by (subst embed_fix.simps) (auto simp: Let_def)
    then show ?thesis using 1(2) by simp
  qed
qed

lemma diff_class_new_cid: "poison (diff_class osc nsc k) = None \<or> new_cid (diff_class osc nsc k) = None"
  by (auto simp: diff_class_def poisoned_def Let_def split: option.split)

text \<open>The compiled classes are those of the new schema, and classes that are unchanged list their fields in
  the same order: then the plan fits.\<close>

definition order_kept :: "wo_mig_class list \<Rightarrow> wo_schema \<Rightarrow> wo_schema \<Rightarrow> bool" where
  "order_kept ms osc nsc \<longleftrightarrow>
     (\<forall>c<length osc. \<forall>nc. new_cid (ms ! c) = Some nc \<longrightarrow> \<not> changed (ms ! c) \<longrightarrow>
        map f_name (c_fields (nsc ! nc)) = map f_name (c_fields (osc ! c)))"

lemma same_order_kinds:
  assumes p: "passes osc nsc k m" and nc: "new_cid m = Some nc"
    and same: "map f_name (c_fields (nsc ! nc)) = map f_name (c_fields k)" and d: "distinct (map f_name (c_fields k))"
  shows "map f_kind (c_fields (nsc ! nc)) = map f_kind (c_fields k)"
proof (rule nth_equalityI)
  let ?o = "c_fields k" and ?n = "c_fields (nsc ! nc)"
  have len: "length ?n = length ?o" using same map_eq_imp_length_eq by blast
  then show "length (map f_kind ?n) = length (map f_kind ?o)" by simp
  fix f assume "f < length (map f_kind ?n)"
  then have f: "f < length ?o" "f < length ?n" using len by simp_all
  have nm: "f_name (?n ! i) = f_name (?o ! i)" if "i < length ?o" for i
    using that len same by (metis nth_map)
  have pf: "case fmap m ! f of None \<Rightarrow> (\<forall>g\<in>set ?n. f_name g \<noteq> f_name (?o ! f))
      | Some nf \<Rightarrow> nf < length ?n \<and> f_name (?n ! nf) = f_name (?o ! f) \<and> sc_field_shape_eq osc (?o ! f) nsc (?n ! nf)"
    using p f(1) nc by (auto simp: passes_def)
  show "map f_kind ?n ! f = map f_kind ?o ! f"
  proof (cases "fmap m ! f")
    case None
    then show ?thesis using pf nm [OF f(1)] nth_mem [OF f(2)] by auto
  next
    case (Some nf)
    then have nf: "nf < length ?o" "f_name (?o ! nf) = f_name (?o ! f)" "f_kind (?o ! f) = f_kind (?n ! nf)"
      using pf nm len by (auto simp: sc_field_shape_eq_def)
    have "map f_name ?o ! nf = map f_name ?o ! f" using nf(1,2) f(1) by simp
    then have "nf = f" using nth_eq_iff_index_eq [OF d, of nf f] nf(1) f(1) by simp
    then show ?thesis using nf f by simp
  qed
qed

lemma diff_plan_ok:
  assumes d: "wo_schema_diff mem osc nsc = Some plan" and nd: "names_distinct osc"
    and ord: "order_kept (mig_classes plan) osc nsc"
    and ncs: "length ncs = length nsc" "\<forall>i<length nsc. kinds (ncs ! i) = kinds (shim nsc ! i)"
  shows "plan_ok (mig_classes plan) (shim osc) ncs"
proof -
  let ?ms = "mig_classes plan"
  have pl: "?ms = embed_fix osc (map (diff_class osc nsc) osc)"
    using d by (auto simp: wo_schema_diff_def Let_def split: if_splits)
  have len: "length ?ms = length osc"
    using embed_fix_only [of "map (diff_class osc nsc) osc" osc] by (simp add: pl only_poisons_def)
  have pn: "\<forall>m\<in>set ?ms. poison m = None \<or> new_cid m = None"
    unfolding pl by (rule poisoned_new_cid) (simp add: diff_class_new_cid)
  have ps: "passes osc nsc (osc ! c) (?ms ! c)" if "c < length osc" "new_cid (?ms ! c) = Some nc" for c nc
  proof -
    have "poison (?ms ! c) = None" using pn that len nth_mem [of c ?ms] by auto
    then show ?thesis using diff_sound(1) [OF d that(1)] by simp
  qed
  have kc: "kinds (shim sc ! c) = map (\<lambda>f. shim_kind (f_kind f)) (c_fields (sc ! c))" if "c < length sc" for sc c
    using that by (simp add: shim_def)
  have ls: "length (shim osc) = length osc" by (simp add: shim_def)
  show ?thesis
    unfolding plan_ok_def ls
  proof (intro conjI allI impI)
    show "length ?ms = length osc" by (rule len)
    fix c nc assume c: "c < length ?ms" and nc: "new_cid (?ms ! c) = Some nc"
    have co: "c < length osc" using c len by simp
    note p = ps [OF co nc]
    have n: "nc < length nsc" "c_name (nsc ! nc) = c_name (osc ! c)" "length (fmap (?ms ! c)) = length (c_fields (osc ! c))"
      using p nc by (auto simp: passes_def)
    show "nc < length ncs" using n(1) ncs(1) by simp
    show "length (fmap (?ms ! c)) = length (kinds (shim osc ! c))" using n(3) by (simp add: kc [OF co])
    have k: "kinds (ncs ! nc) = map (\<lambda>f. shim_kind (f_kind f)) (c_fields (nsc ! nc))" using ncs(2) n(1) kc by simp
    show "nf < length (kinds (ncs ! nc))" and "kinds (ncs ! nc) ! nf = kinds (shim osc ! c) ! f"
      if "f < length (fmap (?ms ! c))" "fmap (?ms ! c) ! f = Some nf" for f nf
    proof -
      have f: "f < length (c_fields (osc ! c))" using that(1) n(3) by simp
      have "\<forall>f<length (c_fields (osc ! c)). case fmap (?ms ! c) ! f of None \<Rightarrow> True
          | Some nf \<Rightarrow> nf < length (c_fields (nsc ! nc)) \<and> f_kind (c_fields (osc ! c) ! f) = f_kind (c_fields (nsc ! nc) ! nf)"
        using p nc by (fastforce simp: passes_def sc_field_shape_eq_def split: option.splits)
      then have "nf < length (c_fields (nsc ! nc))" "f_kind (c_fields (osc ! c) ! f) = f_kind (c_fields (nsc ! nc) ! nf)"
        using f that(2) by auto
      then show "nf < length (kinds (ncs ! nc))" "kinds (ncs ! nc) ! nf = kinds (shim osc ! c) ! f"
        using f by (simp_all add: k kc [OF co])
    qed
    show "kinds (ncs ! nc) = kinds (shim osc ! c)" if u: "\<not> changed (?ms ! c)"
    proof -
      have "distinct (map f_name (c_fields (osc ! c)))" using nd co by (simp add: names_distinct_def)
      moreover have "map f_name (c_fields (nsc ! nc)) = map f_name (c_fields (osc ! c))"
        using ord co nc u by (simp add: order_kept_def)
      ultimately have "map f_kind (c_fields (nsc ! nc)) = map f_kind (c_fields (osc ! c))"
        by (intro same_order_kinds [OF p nc])
      then have "map shim_kind (map f_kind (c_fields (nsc ! nc))) = map shim_kind (map f_kind (c_fields (osc ! c)))" by simp
      then show ?thesis by (simp add: k kc [OF co] o_def)
    qed
    show "d = c" if dl: "d < length ?ms" and dn: "new_cid (?ms ! d) = Some nc" for d
    proof -
      have do: "d < length osc" using dl len by simp
      have "c_name (nsc ! nc) = c_name (osc ! d)" using ps [OF do dn] dn by (auto simp: passes_def)
      then have "map c_name osc ! d = map c_name osc ! c" using n(2) do co by simp
      moreover have "distinct (map c_name osc)" using nd by (simp add: names_distinct_def)
      ultimately show ?thesis using nth_eq_iff_index_eq [of "map c_name osc" d c] do co by simp
    qed
  qed
qed

end
