(* ===== verification/MigProps.thy ===== *)
theory MigProps
  imports Demo Migrate
begin

text \<open>
  Properties of the migration: from the boot diff over the rewritten log to the store the next start
  rebuilds, and its refusals.
\<close>

section \<open>The migrated store\<close>

text \<open>What the log and the compiled store have to satisfy: statements over values that embed only unchanged
  classes, ids in range, records of legal length, and durable classes in memory.\<close>

definition mig_ready :: "wo_mig_class list \<Rightarrow> classes \<Rightarrow> wo_db \<Rightarrow> stmt list \<Rightarrow> bool" where
  "mig_ready ms ocs db ss \<longleftrightarrow>
     (\<forall>s\<in>set ss. mig_stmt_ok ms ocs (classes db) s \<and>
        (case s of SInsert c rid vs \<Rightarrow> id_ok db rid | SUpdate c rid vs \<Rightarrow> id_ok db rid
         | SRemove c rid \<Rightarrow> id_ok db rid | SHead x \<Rightarrow> True)) \<and>
     (\<forall>s\<in>set (mig_stmts ms (classes db) ss). payload_ok (stmt_payload (classes db) s)) \<and>
     (\<forall>c<length ms. \<forall>nc. new_cid (ms ! c) = Some nc \<longrightarrow> class_ok db nc) \<and>
     (Suc (length (mig_stmts ms (classes db) ss))) * DB_SLAB_ROWS < 2 ^ 32"

definition compiled_for :: "wo_db \<Rightarrow> wo_schema \<Rightarrow> bool" where
  "compiled_for db nsc \<longleftrightarrow> db_inv db \<and> classes_fit (classes db) \<and> shard db < nshards db \<and> nshards db < 2 ^ 32 \<and>
     length (classes db) = length nsc \<and> (\<forall>i<length nsc. kinds (classes db ! i) = kinds (shim nsc ! i))"

text \<open>C15: A migration keeps the rows of a log whose classes are not merely reordered. When the log is that of a
  run of statements, every class with the same field names as before also lists them in the same order
  (\<open>order_kept\<close>: the diff takes a reordered class for unchanged, and its records would be read back with
  the values in each other's fields), no stored value embeds a changed class, and no unique field of the
  compiled classes is violated, the migration by the plan of the boot diff succeeds, and the next start
  rebuilds from the new log the old rows translated field by field, added fields at their zero value.\<close>

theorem migration_keeps_rows:
  assumes "\<forall>s. mem s" and "device_ok c" and "length f < 2 ^ 64 - 1"
    and "wo_schema_diff mem osc nsc = Some plan" and "names_distinct osc" and "length osc \<le> 2 ^ 32"
    and "order_kept (mig_classes plan) osc nsc"
    and "wo_schema_encode mem nsc = Some sp" and "payload_ok sp" and "compiled_for db nsc"
    and "wal_records mem f 0 = with_offsets 0 (map (stmt_payload (shim osc)) ss)"
    and "mig_ready (mig_classes plan) (shim osc) db ss"
    and "run_stmts (shim osc) ss (\<lambda>cid. Map.empty) = Some S"
    and "run_stmts (classes db) (mig_stmts (mig_classes plan) (classes db) ss) (\<lambda>cid. Map.empty) = Some S'"
  shows "\<exists>f' n db'. wo_wal_migrate mem c f (classes db) osc plan nsc pre = (MigOk, f') \<and>
    wo_wal_replay_ex mem rt (Some f') (fresh_db db) = (Replayed n, db') \<and> db_inv db' \<and>
    store_migrated (mig_classes plan) (classes db) S (live_rows db')"
proof -
  let ?ms = "mig_classes plan" and ?cs = "classes db"
  let ?ts = "SHead (tl sp) # mig_stmts ?ms ?cs ss"
  have db: "db_inv db" "classes_fit ?cs" "shard db < nshards db" "nshards db < 2 ^ 32" "length ?cs = length nsc"
    "\<forall>i<length nsc. kinds (?cs ! i) = kinds (shim nsc ! i)" using assms(10) by (simp_all add: compiled_for_def)
  have rd: "\<forall>s\<in>set ss. mig_stmt_ok ?ms (shim osc) ?cs s"
    "\<forall>s\<in>set (mig_stmts ?ms ?cs ss). payload_ok (stmt_payload ?cs s)" using assms(12) by (auto simp: mig_ready_def)
  have p: "plan_ok ?ms (shim osc) ?cs" by (rule diff_plan_ok [OF assms(4,5,7) db(5,6)])
  obtain f' where f': "wo_wal_migrate mem c f ?cs osc plan nsc pre = (MigOk, f')"
    "wal_records mem f' 0 = with_offsets 0 (map (stmt_payload ?cs) ?ts)"
    using migrate_log [where mem = mem and c = c, OF assms(1) p assms(6,2,3,11) rd assms(8,9)] by blast
  have "0 < length ?cs \<longrightarrow> shard db < nshards db \<and> nshards db < 2 ^ 32" using db by simp
  note fr = fresh_db_ok [OF db(1) this]
  note sh = same_shape_simps [OF fr(2)]
  have "length ?cs \<le> 2 ^ 32" using db(2) by (simp add: classes_fit_def)
  then have "\<forall>s\<in>set (mig_stmts ?ms ?cs ss). stmt_ok db s"
    using assms(12) by (intro mig_stmts_ok [OF p _ rd(1)]) (auto simp: mig_ready_def)
  then have ok: "\<forall>s\<in>set ?ts. stmt_ok (fresh_db db) s" by (simp add: same_shape_stmt_ok [OF fr(2)])
  have room: "room_for (length ?ts) (fresh_db db)" using assms(12) by (intro fr(4)) (simp add: mig_ready_def)
  have run: "run_stmts (classes (fresh_db db)) ?ts (live_rows (fresh_db db)) = Some S'"
    using assms(14) fr(3) by (simp add: sh)
  have fit: "classes_fit (classes (fresh_db db))" using db(2) by (simp add: sh)
  obtain db' where r: "replay_list mem (if rt then Some (replay_view f') else None) (fresh_db db)
      (with_offsets 0 (map (stmt_payload (classes (fresh_db db))) ?ts)) 0 = (Replayed (0 + row_records ?ts), db')"
    "db_inv db'" "live_rows db' = S'"
    using replay_list_stmts [OF assms(1) fit fr(1) ok room run] by blast
  have "store_migrated ?ms ?cs (\<lambda>cid. Map.empty) (\<lambda>cid. Map.empty)" by (simp add: store_migrated_def)
  then have "store_migrated ?ms ?cs S S'" by (rule mig_stmts_run [OF p rd(1) _ assms(13,14)])
  then show ?thesis using f' r by (auto simp: wo_wal_replay_ex_def replay_loop_list sh)
qed

text \<open>The instance: a class of two scalar fields loses its second one.\<close>

definition wide :: wo_schema where "wide = two_fields [65] 8 [66] [67]"

definition slim :: wo_schema where "slim = [\<lparr>c_name = [65], c_flags = 8, c_fields = [sfield [66]]\<rparr>]"

definition drop_plan :: wo_mig_plan where
  "drop_plan = \<lparr>mig_classes = [\<lparr>new_cid = Some 0, poison = None, fmap = [Some 0, None], changed = True\<rparr>],
     identity = False\<rparr>"

lemma drop_diff: "mem AMig \<Longrightarrow> wo_schema_diff mem wide slim = Some drop_plan"
proof -
  assume mem: "mem AMig"
  let ?m = "\<lparr>new_cid = Some 0, poison = None, fmap = [Some 0, None], changed = True\<rparr>"
  have d: "map (diff_class wide slim) wide = [?m]"
    by (simp add: wide_def two_fields_def diff_class_def slim_def sc_find_class_def sc_find_field_def sfield_def
        sc_field_shape_eq_def sc_ref_eq_def)
  have "embed_fix wide [?m] = [?m]"
    by (subst embed_fix.simps)
      (simp add: embed_pass_def embed_class_def wide_def two_fields_def tainted_def embeds_def sfield_def)
  then show ?thesis using mem d by (simp add: wo_schema_diff_def drop_plan_def identical_def)
qed

definition wide_log :: "stmt list" where
  "wide_log = [SHead [kind_byte KScalar], SInsert 0 1 [DWord 5, DWord 6], SUpdate 0 1 [DWord 8, DWord 9]]"

lemma wide_kinds: "kinds (shim wide ! 0) = [KScalar, KScalar]" "length (shim wide) = 1"
  by (simp_all add: shim_def wide_def two_fields_def sfield_def shim_kind_def kind_of_byte_def)

lemma slim_kinds: "kinds (shim slim ! 0) = [KScalar]"
  by (simp add: shim_def slim_def sfield_def shim_kind_def kind_of_byte_def)

lemma wide_log_payload: "\<forall>p\<in>set (map (stmt_payload (shim wide)) wide_log). payload_ok p"
  by (simp add: wide_log_def payload_ok_def WAL_MAX_PAYLOAD_def row_payload_def wide_kinds flip: length_greater_0_conv)

lemma wide_mig: "mig_stmts (mig_classes drop_plan) [demo_class] wide_log =
    [SInsert 0 1 [DWord 5], SUpdate 0 1 [DWord 8]]"
  by (simp add: mig_stmts_def wide_log_def drop_plan_def mig_slots_def new_slots_def)

theorem migration_keeps_rows_witness:
  "\<exists>f' n db'. wo_wal_migrate all_mem good_cio (frames (map (stmt_payload (shim wide)) wide_log)) [demo_class]
      wide drop_plan slim 64 = (MigOk, f') \<and>
    wo_wal_replay_ex all_mem True (Some f') (fresh_db demo_db) = (Replayed n, db') \<and>
    live_rows db' 0 = [1 \<mapsto> row_of 0 1 [DWord 8]]"
proof -
  let ?f = "frames (map (stmt_payload (shim wide)) wide_log)"
  let ?S = "(\<lambda>cid. Map.empty)(0 := [1 \<mapsto> row_of 0 1 [DWord 8, DWord 9]])"
  obtain sp where sp: "wo_schema_encode all_mem slim = Some sp" "payload_ok sp"
    by (simp add: wo_schema_encode_def build_def payload_ok_def WAL_MAX_PAYLOAD_def slim_def enc_class_def
        enc_name_def enc_field_def sfield_def)
  have rs: "wal_records all_mem ?f 0 = with_offsets 0 (map (stmt_payload (shim wide)) wide_log)"
    using scan_frames0(1) [where mem = all_mem, of "map (stmt_payload (shim wide)) wide_log" "[]"] wide_log_payload
      scan_zeros [of all_mem 0] by simp
  have lf: "length ?f < 2 ^ 64 - 1"
    by (simp add: wide_log_def row_payload_def wide_kinds)
  have nd: "names_distinct wide" "length wide \<le> 2 ^ 32"
    by (simp_all add: names_distinct_def wide_def two_fields_def sfield_def)
  have ord: "order_kept (mig_classes drop_plan) wide slim"
    by (simp add: order_kept_def drop_plan_def wide_def two_fields_def)
  have cf: "compiled_for demo_db slim"
    using demo_db_inv demo_fit slim_kinds by (simp add: compiled_for_def slim_def)
  have rd: "mig_ready (mig_classes drop_plan) (shim wide) demo_db wide_log"
    unfolding mig_ready_def demo_db_simps wide_mig
    using demo_durable
    by (simp add: wide_log_def drop_plan_def row_stmt_ok_def wide_kinds id_ok_def class_ok_def payload_ok_def
        row_payload_def WAL_MAX_PAYLOAD_def DB_SLAB_ROWS_def
        flip: length_greater_0_conv)
  have old: "run_stmts (shim wide) wide_log (\<lambda>cid. Map.empty) = Some ?S"
    by (simp add: wide_log_def violates_def shim_def wide_def two_fields_def)
  have new: "run_stmts (classes demo_db) (mig_stmts (mig_classes drop_plan) (classes demo_db) wide_log) (\<lambda>cid. Map.empty) =
      Some ((\<lambda>cid. Map.empty)(0 := [1 \<mapsto> row_of 0 1 [DWord 8]]))"
    by (simp add: wide_mig violates_def)
  obtain f' n db' where r: "wo_wal_migrate all_mem good_cio ?f [demo_class] wide drop_plan slim 64 = (MigOk, f')"
    "wo_wal_replay_ex all_mem True (Some f') (fresh_db demo_db) = (Replayed n, db')"
    "store_migrated (mig_classes drop_plan) [demo_class] ?S (live_rows db')"
    using migration_keeps_rows [where mem = all_mem and pre = 64 and rt = True,
        OF _ good_cio lf drop_diff nd ord sp cf rs rd old new] by auto
  have "live_rows db' 0 = (\<lambda>rid. map_option (mig_row_of (mig_classes drop_plan) [demo_class] 0) (?S 0 rid))"
    using r(3) by (simp add: store_migrated_def drop_plan_def)
  then have "live_rows db' 0 = [1 \<mapsto> row_of 0 1 [DWord 8]]"
    by (simp add: fun_eq_iff mig_row_of_def row_of_def mig_slots_def new_slots_def drop_plan_def)
  then show ?thesis using r by blast
qed

section \<open>Refusals\<close>

text \<open>A migration that does not succeed leaves the old log as it is, whatever fails and whatever bytes
  the log holds; it is refused for a reason only if the log has a record of a class the plan refuses for
  that reason, and it succeeds only if there is none.\<close>

theorem migration_refuses:
  assumes "wo_wal_migrate mem c f ncs osc plan nsc pre = (r, f')"
  shows "(r \<noteq> MigOk \<longrightarrow> f' = f) \<and>
    (\<forall>x. r = MigRefused x \<longrightarrow> refused_in (mig_classes plan) (wal_records mem f 0) x) \<and>
    (r = MigOk \<longrightarrow> (\<forall>x. \<not> refused_in (mig_classes plan) (wal_records mem f 0) x))"
  using migrate_outcome [OF assms] by blast

text \<open>The instance: the class is gone from the compiled schema.\<close>

definition gone_plan :: wo_mig_plan where
  "gone_plan = \<lparr>mig_classes = [poisoned PGone False], identity = False\<rparr>"

theorem migration_refuses_witness:
  "\<exists>f'. wo_wal_migrate all_mem good_cio (frames [rec_head RRemove 0 1]) [] wide gone_plan [] 64 = (MigRefused (Some PGone), f') \<and>
     f' = frames [rec_head RRemove 0 1]"
proof -
  let ?f = "frames [rec_head RRemove 0 1]"
  obtain sp where sp: "wo_schema_encode all_mem [] = Some sp" by (simp add: wo_schema_encode_def build_def)
  obtain nw where st: "stage all_mem (wo_wal_open all_mem [] 64) (build all_mem sp) = (True, nw)"
    using stage_total [of all_mem "wo_wal_open all_mem [] 64" sp] by (metis all_mem(1) build_def prod.collapse)
  have ne: "rec_head RRemove 0 1 \<noteq> []" by (simp flip: length_greater_0_conv)
  have hd: "hd (rec_head RRemove 0 1) \<noteq> rec_byte RSchema" by (simp add: rec_head_def wput_u8_def)
  have ph: "parse_head (rec_head RRemove 0 1) = Some ((rec_byte RRemove, 0, 1), [])"
    using parse_head_rec [of 0 RRemove 1 "[]"] by simp
  have "scan_record all_mem ?f 0 = Some (rec_head RRemove 0 1)"
    using scan_frames0(1) [where mem = all_mem, of "[rec_head RRemove 0 1]" "[]"] scan_zeros [of all_mem 0] ne
    by (simp add: payload_ok_def WAL_MAX_PAYLOAD_def wal_records.simps [of all_mem _ 0] split: option.splits)
  then have "mig_loop all_mem good_cio ?f (mig_classes gone_plan) (shim wide) [] 0 empty_migmap 0 nw = Inl (MigRefused (Some PGone))"
    using ne hd ph by (simp add: mig_loop.simps [of all_mem good_cio] mig_record_def gone_plan_def poisoned_def Let_def)
  then have "wo_wal_migrate all_mem good_cio ?f [] wide gone_plan [] 64 = (MigRefused (Some PGone), ?f)"
    using sp st by (simp add: wo_wal_migrate_def good_cio_def)
  from migration_refuses [OF this] this show ?thesis by blast
qed

end
