(* ===== verification/Gc.thy ===== *)
theory Gc
  imports Containers
begin

text \<open>
  The tracing collector (\<open>gc.c\<close>, \<open>compute_gc_may\<close> and \<open>wo_obj_new\<close> of \<open>obj.c\<close>, the safepoint and
  the barrier of \<open>vm.c\<close>): incremental tri-color marking with a snapshot at the beginning, a
  deletion barrier, and a sweep in slices over the list of all traced objects.

  An owned value is a tree with one owner, so it is the value itself (\<open>vmval\<close>); a traced object has
  an address, and a field of kind \<open>KGcref\<close>, or a register of the gc mask, holds that address as a
  word. A value's home is this shard: the routing of foreign values (\<open>wo_route_free\<close>) and the abort
  on a header that is already free are left out. Freeing an owned value has no effect the model can
  see, but the gcrefs in it pass the barrier.
\<close>

section \<open>State\<close>

datatype color = White | Gray | Black

record gobj =
  ocls :: nat
  ofields :: "vmval list"
  ocolor :: color

datatype gc_phase = GcIdle | GcMark | GcSweep

text \<open>
  The collector's part of \<open>wo_rt\<close>. \<open>gc_traced\<close> is the list linked through the headers, \<open>gc_gray\<close> the
  worklist with its top first. The cursor of the sweep, a link slot of that list, is the number of
  objects before it. \<open>gc_may\<close> is \<open>None\<close> when its table could not be allocated.
\<close>

record gc_rt =
  heap :: "u64 \<Rightarrow> gobj option"
  gc_traced :: "u64 list"
  gc_gray :: "u64 list"
  gc_cap :: nat
  gc_oom :: bool
  phase :: gc_phase
  gc_sweep :: "nat option"
  gc_alloc_bytes :: nat
  gc_goal :: nat
  gc_budget :: nat
  gc_may :: "bool list option"
  gc_classes :: classes

definition set_color :: "u64 \<Rightarrow> color \<Rightarrow> gc_rt \<Rightarrow> gc_rt" where
  "set_color a c rt = rt\<lparr>heap := (heap rt)(a := map_option (\<lambda>o1. o1\<lparr>ocolor := c\<rparr>) (heap rt a))\<rparr>"

section \<open>Shading\<close>

text \<open>A word that is null, or the address of no traced object, is left alone. A worklist that cannot
  grow is flagged and the object is taken for live.\<close>

definition wo_gc_shade :: "mem \<Rightarrow> u64 \<Rightarrow> gc_rt \<Rightarrow> gc_rt" where
  "wo_gc_shade mem a rt =
     (case heap rt a of
        None \<Rightarrow> rt
      | Some o1 \<Rightarrow>
          if ocolor o1 \<noteq> White then rt
          else
            let rt1 = set_color a Gray rt in
            if length (gc_gray rt) = gc_cap rt
            then
              (if \<not> mem AGray then set_color a Black (rt1\<lparr>gc_oom := True\<rparr>)
               else rt1\<lparr>gc_cap := (if gc_cap rt \<noteq> 0 then gc_cap rt * 2 else 64), gc_gray := a # gc_gray rt\<rparr>)
            else rt1\<lparr>gc_gray := a # gc_gray rt\<rparr>)"

definition ptr_kind :: "kind \<Rightarrow> bool" where
  "ptr_kind k \<longleftrightarrow> k = KGcref \<or> k = KOwned \<or> k = KMulti \<or> k = KMap"

text \<open>No table, or a class that is not in it: traverse.\<close>

definition class_may_gcref :: "gc_rt \<Rightarrow> nat \<Rightarrow> bool" where
  "class_may_gcref rt cid =
     (case gc_may rt of None \<Rightarrow> True | Some m \<Rightarrow> if length (gc_classes rt) \<le> cid then True else m ! cid)"

text \<open>
  The walk over an owned value. \<open>scan_fields\<close> is the loop over a field array or the items of a
  container, \<open>scan_pairs\<close> the one over a map.
\<close>

function (sequential) wo_gc_scan_root :: "mem \<Rightarrow> vmval \<Rightarrow> gc_rt \<Rightarrow> gc_rt"
and scan_fields :: "mem \<Rightarrow> kind list \<Rightarrow> vmval list \<Rightarrow> gc_rt \<Rightarrow> gc_rt"
and scan_pairs :: "mem \<Rightarrow> kind \<Rightarrow> kind \<Rightarrow> vmval list \<Rightarrow> vmval list \<Rightarrow> gc_rt \<Rightarrow> gc_rt" where
  "wo_gc_scan_root mem (VWord a) rt = wo_gc_shade mem a rt"
| "wo_gc_scan_root mem (VMulti ek vs) rt =
     (if ptr_kind ek then scan_fields mem (replicate (length vs) ek) vs rt else rt)"
| "wo_gc_scan_root mem (VMap kk vk ks vs) rt = scan_pairs mem kk vk ks vs rt"
| "wo_gc_scan_root mem (VObj cid vs) rt =
     (if length (gc_classes rt) \<le> cid then rt
      else if \<not> class_may_gcref rt cid then rt
      else scan_fields mem (kinds (gc_classes rt ! cid)) vs rt)"
| "wo_gc_scan_root mem v rt = rt"
| "scan_fields mem (k # ks) (v # vs) rt =
     scan_fields mem ks vs (if ptr_kind k then wo_gc_scan_root mem v rt else rt)"
| "scan_fields mem ks vs rt = rt"
| "scan_pairs mem kk vk (k # ks) (v # vs) rt =
     (let rt1 = (if ptr_kind kk then wo_gc_scan_root mem k rt else rt);
          rt2 = (if ptr_kind vk then wo_gc_scan_root mem v rt1 else rt1)
      in scan_pairs mem kk vk ks vs rt2)"
| "scan_pairs mem kk vk ks vs rt = rt"
  by pat_completeness auto

termination
  by (relation "measure (\<lambda>x. case x of
        Inl (_, v, _) \<Rightarrow> size v
      | Inr (Inl (_, _, vs, _)) \<Rightarrow> size_list size vs
      | Inr (Inr (_, _, _, ks, vs, _)) \<Rightarrow> size_list size ks + size_list size vs)") auto

section \<open>Deterministic drops\<close>

text \<open>
  \<open>wo_drop_kind\<close>, \<open>wo_drop_obj\<close>, and the loops of \<open>class_free\<close>, \<open>multi_free\<close> and \<open>map_free\<close>. A
  \<open>Bytes\<close> field falls into the default arm, like a scalar.
\<close>

function (sequential) wo_drop_kind :: "mem \<Rightarrow> kind \<Rightarrow> vmval \<Rightarrow> gc_rt \<Rightarrow> gc_rt"
and wo_drop_obj :: "mem \<Rightarrow> vmval \<Rightarrow> gc_rt \<Rightarrow> gc_rt"
and class_free :: "mem \<Rightarrow> kind list \<Rightarrow> vmval list \<Rightarrow> gc_rt \<Rightarrow> gc_rt"
and map_free :: "mem \<Rightarrow> kind \<Rightarrow> kind \<Rightarrow> vmval list \<Rightarrow> vmval list \<Rightarrow> gc_rt \<Rightarrow> gc_rt" where
  "wo_drop_kind mem k VNull rt = rt"
| "wo_drop_kind mem KGcref (VWord a) rt = (if phase rt = GcMark then wo_gc_shade mem a rt else rt)"
| "wo_drop_kind mem k v rt = (if k = KOwned \<or> k = KMulti \<or> k = KMap then wo_drop_obj mem v rt else rt)"
| "wo_drop_obj mem (VMulti ek vs) rt = class_free mem (replicate (length vs) ek) vs rt"
| "wo_drop_obj mem (VMap kk vk ks vs) rt = map_free mem kk vk ks vs rt"
| "wo_drop_obj mem (VObj cid vs) rt =
     (if length (gc_classes rt) \<le> cid then rt else class_free mem (kinds (gc_classes rt ! cid)) vs rt)"
| "wo_drop_obj mem v rt = rt"
| "class_free mem (k # ks) (v # vs) rt = class_free mem ks vs (wo_drop_kind mem k v rt)"
| "class_free mem ks vs rt = rt"
| "map_free mem kk vk (k # ks) (v # vs) rt =
     map_free mem kk vk ks vs (wo_drop_kind mem vk v (wo_drop_kind mem kk k rt))"
| "map_free mem kk vk ks vs rt = rt"
  by pat_completeness auto

termination
  by (relation "measure (\<lambda>x. case x of
        Inl (Inl (_, _, v, _)) \<Rightarrow> 2 * size v + 1
      | Inl (Inr (_, v, _)) \<Rightarrow> 2 * size v
      | Inr (Inl (_, _, vs, _)) \<Rightarrow> 2 * size_list size vs + 1
      | Inr (Inr (_, _, _, ks, vs, _)) \<Rightarrow> 2 * (size_list size ks + size_list size vs) + 1)") auto

section \<open>Allocation\<close>

definition wo_obj_size :: "wo_classdesc \<Rightarrow> nat" where
  "wo_obj_size c = 16 + field_cnt c * 8"

text \<open>A push in front of the cursor, which stays at its object; a cursor at the head of the list is
  the head slot itself.\<close>

definition wo_gc_track :: "u64 \<Rightarrow> nat \<Rightarrow> gc_rt \<Rightarrow> gc_rt" where
  "wo_gc_track a sz rt =
     rt\<lparr>gc_traced := a # gc_traced rt,
        gc_sweep := (case gc_sweep rt of Some (Suc n) \<Rightarrow> Some (Suc (Suc n)) | s \<Rightarrow> s),
        gc_alloc_bytes := gc_alloc_bytes rt + sz\<rparr>"

definition zero_field :: "kind \<Rightarrow> vmval" where
  "zero_field k = (if k = KScalar \<or> k = KFloat then VWord 0 else VNull)"

text \<open>An instance of a traced class; \<open>p\<close> is what \<open>wo_arena_alloc\<close> returned. An instance of any other
  class is an owned value, \<open>new_owned\<close>.\<close>

definition wo_obj_new :: "u64 option \<Rightarrow> nat \<Rightarrow> gc_rt \<Rightarrow> (u64 \<times> gc_rt) option" where
  "wo_obj_new p cid rt =
     (case p of
        None \<Rightarrow> None
      | Some a \<Rightarrow>
          let c = gc_classes rt ! cid;
              o1 = \<lparr>ocls = cid, ofields = map zero_field (kinds c),
                    ocolor = (if phase rt \<noteq> GcIdle then Black else White)\<rparr>
          in Some (a, wo_gc_track a (wo_obj_size c) (rt\<lparr>heap := (heap rt)(a \<mapsto> o1)\<rparr>)))"

definition new_owned :: "gc_rt \<Rightarrow> nat \<Rightarrow> vmval" where
  "new_owned rt cid = VObj cid (map zero_field (kinds (gc_classes rt ! cid)))"

section \<open>The cycle\<close>

definition wo_gc_want_start :: "gc_rt \<Rightarrow> bool" where
  "wo_gc_want_start rt \<longleftrightarrow> phase rt = GcIdle \<and> gc_goal rt \<le> gc_alloc_bytes rt \<and> gc_traced rt \<noteq> []"

definition wo_gc_begin :: "gc_rt \<Rightarrow> gc_rt" where
  "wo_gc_begin rt = rt\<lparr>gc_gray := [], gc_oom := False, phase := GcMark\<rparr>"

definition scan_traced :: "mem \<Rightarrow> u64 \<Rightarrow> gc_rt \<Rightarrow> gc_rt" where
  "scan_traced mem a rt =
     (case heap rt a of
        None \<Rightarrow> rt
      | Some o1 \<Rightarrow>
          set_color a Black (scan_fields mem (kinds (gc_classes rt ! ocls o1)) (ofields o1) rt))"

fun mark_loop :: "mem \<Rightarrow> nat \<Rightarrow> gc_rt \<Rightarrow> gc_rt" where
  "mark_loop mem 0 rt = rt"
| "mark_loop mem (Suc n) rt =
     (case gc_gray rt of
        [] \<Rightarrow> rt
      | a # g \<Rightarrow> mark_loop mem n (scan_traced mem a (rt\<lparr>gc_gray := g\<rparr>)))"

definition blacken_all :: "gc_rt \<Rightarrow> gc_rt" where
  "blacken_all rt = fold (\<lambda>a. set_color a Black) (gc_traced rt) rt"

text \<open>One step of the sweep at position \<open>i\<close>, and the loop; the number of objects freed is counted.\<close>

fun sweep_loop :: "mem \<Rightarrow> nat \<Rightarrow> nat \<Rightarrow> nat \<Rightarrow> gc_rt \<Rightarrow> nat \<times> nat \<times> gc_rt" where
  "sweep_loop mem 0 i freed rt = (i, freed, rt)"
| "sweep_loop mem (Suc n) i freed rt =
     (if length (gc_traced rt) \<le> i then (i, freed, rt)
      else
        let a = gc_traced rt ! i in
        (case heap rt a of
           None \<Rightarrow> (i, freed, rt)
         | Some o1 \<Rightarrow>
             if ocolor o1 = White then
               let rt1 = rt\<lparr>gc_traced := take i (gc_traced rt) @ drop (Suc i) (gc_traced rt)\<rparr>;
                   rt2 = class_free mem (kinds (gc_classes rt ! ocls o1)) (ofields o1) rt1
               in sweep_loop mem n i (freed + 1) (rt2\<lparr>heap := (heap rt2)(a := None)\<rparr>)
             else sweep_loop mem n (Suc i) freed (set_color a White rt)))"

definition mark_part :: "mem \<Rightarrow> nat \<Rightarrow> gc_rt \<Rightarrow> gc_rt" where
  "mark_part mem n rt =
     (let rt1 = (if gc_oom rt then (blacken_all rt)\<lparr>gc_gray := []\<rparr> else rt);
          rt2 = mark_loop mem n rt1
      in if gc_gray rt2 = [] then rt2\<lparr>phase := GcSweep, gc_sweep := Some 0\<rparr> else rt2)"

definition sweep_part :: "mem \<Rightarrow> nat \<Rightarrow> gc_rt \<Rightarrow> nat \<times> gc_rt" where
  "sweep_part mem n rt =
     (case sweep_loop mem n (case gc_sweep rt of Some i \<Rightarrow> i | None \<Rightarrow> 0) 0 rt of
        (i, freed, rt1) \<Rightarrow>
          if length (gc_traced rt1) \<le> i
          then (freed, rt1\<lparr>phase := GcIdle, gc_sweep := None, gc_alloc_bytes := 0\<rparr>)
          else (freed, rt1\<lparr>gc_sweep := Some i\<rparr>))"

definition wo_gc_slice :: "mem \<Rightarrow> nat \<Rightarrow> gc_rt \<Rightarrow> nat \<times> gc_rt" where
  "wo_gc_slice mem n rt =
     (if phase rt = GcIdle then (0, rt)
      else
        let rt1 = (if phase rt = GcMark then mark_part mem n rt else rt) in
        if phase rt1 = GcSweep then sweep_part mem n rt1 else (0, rt1))"

section \<open>The virtual machine's side\<close>

text \<open>
  The roots: the registers the drop tables of all frames of all fibers name, the actors' instances
  and messages (\<open>vm_gc_roots\<close>), as a list of values.
\<close>

definition vm_gc_roots :: "mem \<Rightarrow> vmval list \<Rightarrow> gc_rt \<Rightarrow> gc_rt" where
  "vm_gc_roots mem rs rt = fold (wo_gc_scan_root mem) rs rt"

definition vm_gc_safepoint :: "mem \<Rightarrow> vmval list \<Rightarrow> gc_rt \<Rightarrow> gc_rt" where
  "vm_gc_safepoint mem rs rt =
     (let rt1 = (if wo_gc_want_start rt then vm_gc_roots mem rs (wo_gc_begin rt) else rt) in
      if phase rt1 \<noteq> GcIdle then snd (wo_gc_slice mem (gc_budget rt1) rt1) else rt1)"

text \<open>\<open>SETF\<close> on a traced object: the barrier for a gcref field, then the store. The copy of a text is
  the value \<open>v\<close>.\<close>

definition vm_setf :: "mem \<Rightarrow> u64 \<Rightarrow> nat \<Rightarrow> vmval \<Rightarrow> gc_rt \<Rightarrow> gc_rt option" where
  "vm_setf mem a i v rt =
     (case heap rt a of
        None \<Rightarrow> None
      | Some o1 \<Rightarrow>
          if length (ofields o1) \<le> i then None
          else
            let rt1 = (if phase rt = GcMark \<and> kinds (gc_classes rt ! ocls o1) ! i = KGcref
                       then (case ofields o1 ! i of VWord old \<Rightarrow> wo_gc_shade mem old rt | _ \<Rightarrow> rt)
                       else rt)
            in Some (rt1\<lparr>heap := (heap rt1)(a := map_option (\<lambda>o2. o2\<lparr>ofields := (ofields o2)[i := v]\<rparr>) (heap rt1 a))\<rparr>))"

text \<open>\<open>gc_pump\<close> of \<open>main.c\<close>: cycles without roots after the program has ended, until a cycle frees
  nothing. A step of the loop; \<open>at_begin\<close> is the length of the list when the cycle began.\<close>

definition gc_pump_step :: "mem \<Rightarrow> nat \<times> gc_rt \<Rightarrow> bool \<times> nat \<times> gc_rt" where
  "gc_pump_step mem st =
     (case st of (at_begin, rt) \<Rightarrow>
        let at1 = (if phase rt = GcIdle then length (gc_traced rt) else at_begin);
            rt1 = (if phase rt = GcIdle then wo_gc_begin rt else rt);
            rt2 = snd (wo_gc_slice mem (gc_budget rt1) rt1)
        in (phase rt2 = GcIdle \<and> length (gc_traced rt2) = at1, at1, rt2))"

section \<open>Which classes may hold a gcref\<close>

definition field_may :: "classes \<Rightarrow> bool list \<Rightarrow> wo_classdesc \<Rightarrow> nat \<Rightarrow> bool" where
  "field_may cs m cd i =
     (let k = kinds cd ! i in
      if k = KGcref then True
      else if k = KOwned \<or> k = KMulti \<or> k = KMap then
        (if k \<noteq> KOwned \<and> (case field_elem cd of None \<Rightarrow> False | Some fe \<Rightarrow> fe ! i = ucast (kind_byte KGcref)) then True
         else
           (case field_class cd of
              None \<Rightarrow> True
            | Some fc \<Rightarrow> if unat (fc ! i) < length cs then m ! unat (fc ! i) else True))
      else False)"

definition may_pass :: "classes \<Rightarrow> bool list \<Rightarrow> bool list" where
  "may_pass cs m =
     foldl (\<lambda>m c. if m ! c then m
                  else if list_ex (field_may cs m (cs ! c)) [0..<field_cnt (cs ! c)] then m[c := True] else m)
       m [0..<length cs]"

end
