(* ===== verification/GcShade.thy ===== *)
theory GcShade
  imports Gc
begin

text \<open>
  The gcrefs a value holds, and what shading does: every walk of the collector and every drop is a
  run of shadings (\<open>scan_refs\<close>, \<open>drop_refs\<close>), and a run of shadings never loses an object: what stops
  being white waits in the worklist, or the cycle is flagged (\<open>shades\<close>).
\<close>

section \<open>The gcrefs in a value\<close>

text \<open>\<open>ptr_refs may cs v\<close>: the addresses the walk over \<open>v\<close> meets, in its order, when it enters only
  the classes that \<open>may\<close> admits.\<close>

function (sequential) ptr_refs :: "(nat \<Rightarrow> bool) \<Rightarrow> classes \<Rightarrow> vmval \<Rightarrow> u64 list"
and fields_refs :: "(nat \<Rightarrow> bool) \<Rightarrow> classes \<Rightarrow> kind list \<Rightarrow> vmval list \<Rightarrow> u64 list"
and pairs_refs :: "(nat \<Rightarrow> bool) \<Rightarrow> classes \<Rightarrow> kind \<Rightarrow> kind \<Rightarrow> vmval list \<Rightarrow> vmval list \<Rightarrow> u64 list" where
  "ptr_refs may cs (VWord a) = [a]"
| "ptr_refs may cs (VMulti ek vs) = (if ptr_kind ek then fields_refs may cs (replicate (length vs) ek) vs else [])"
| "ptr_refs may cs (VMap kk vk ks vs) = pairs_refs may cs kk vk ks vs"
| "ptr_refs may cs (VObj cid vs) =
     (if length cs \<le> cid \<or> \<not> may cid then [] else fields_refs may cs (kinds (cs ! cid)) vs)"
| "ptr_refs may cs v = []"
| "fields_refs may cs (k # ks) (v # vs) = (if ptr_kind k then ptr_refs may cs v else []) @ fields_refs may cs ks vs"
| "fields_refs may cs ks vs = []"
| "pairs_refs may cs kk vk (k # ks) (v # vs) =
     (if ptr_kind kk then ptr_refs may cs k else []) @ (if ptr_kind vk then ptr_refs may cs v else []) @
     pairs_refs may cs kk vk ks vs"
| "pairs_refs may cs kk vk ks vs = []"
  by pat_completeness auto

termination
  by (relation "measure (\<lambda>x. case x of
        Inl (_, _, v) \<Rightarrow> size v
      | Inr (Inl (_, _, _, vs)) \<Rightarrow> size_list size vs
      | Inr (Inr (_, _, _, _, ks, vs)) \<Rightarrow> size_list size ks + size_list size vs)") auto

abbreviation refs :: "gc_rt \<Rightarrow> vmval \<Rightarrow> u64 list" where
  "refs rt \<equiv> ptr_refs (\<lambda>cid. True) (gc_classes rt)"

definition obj_refs :: "gc_rt \<Rightarrow> gobj \<Rightarrow> u64 list" where
  "obj_refs rt o1 = fields_refs (\<lambda>cid. True) (gc_classes rt) (kinds (gc_classes rt ! ocls o1)) (ofields o1)"

section \<open>What shading does\<close>

definition white :: "gc_rt \<Rightarrow> u64 \<Rightarrow> bool" where
  "white rt a \<longleftrightarrow> (\<exists>o1. heap rt a = Some o1 \<and> ocolor o1 = White)"

definition same_graph :: "gc_rt \<Rightarrow> gc_rt \<Rightarrow> bool" where
  "same_graph rt rt' \<longleftrightarrow>
     (\<forall>a. map_option (\<lambda>o1. (ocls o1, ofields o1)) (heap rt' a) = map_option (\<lambda>o1. (ocls o1, ofields o1)) (heap rt a)) \<and>
     gc_traced rt' = gc_traced rt \<and> phase rt' = phase rt \<and> gc_sweep rt' = gc_sweep rt \<and>
     gc_budget rt' = gc_budget rt \<and> gc_may rt' = gc_may rt \<and> gc_classes rt' = gc_classes rt"

definition capped :: "gc_rt \<Rightarrow> bool" where
  "capped rt \<longleftrightarrow> length (gc_gray rt) \<le> gc_cap rt \<and> (gc_cap rt = 0 \<or> 64 \<le> gc_cap rt)"

definition grays_ok :: "gc_rt \<Rightarrow> bool" where
  "grays_ok rt \<longleftrightarrow> (\<forall>a\<in>set (gc_gray rt). heap rt a \<noteq> None \<and> \<not> white rt a)"

text \<open>Shading any number of objects: what was white and is not any more waits in the worklist, unless
  that could not grow, and then it is long.\<close>

definition shades :: "gc_rt \<Rightarrow> gc_rt \<Rightarrow> bool" where
  "shades rt rt' \<longleftrightarrow>
     same_graph rt rt' \<and> (\<forall>a. white rt' a \<longrightarrow> white rt a) \<and> set (gc_gray rt) \<subseteq> set (gc_gray rt') \<and>
     length (gc_gray rt) \<le> length (gc_gray rt') \<and> gc_cap rt \<le> gc_cap rt' \<and> (gc_oom rt \<longrightarrow> gc_oom rt') \<and>
     (\<not> gc_oom rt' \<longrightarrow> (\<forall>a. white rt a \<longrightarrow> white rt' a \<or> a \<in> set (gc_gray rt'))) \<and>
     (grays_ok rt \<longrightarrow> grays_ok rt') \<and> (capped rt \<longrightarrow> capped rt') \<and>
     (capped rt \<and> 0 < gc_cap rt \<and> \<not> gc_oom rt \<and> gc_oom rt' \<longrightarrow> 64 \<le> length (gc_gray rt'))"

lemma same_graph_refl [simp]: "same_graph rt rt"
  by (simp add: same_graph_def)

lemma same_graph_trans: "same_graph a b \<Longrightarrow> same_graph b c \<Longrightarrow> same_graph a c"
  by (simp add: same_graph_def)

lemma same_graph_simps:
  assumes "same_graph rt rt'"
  shows "gc_traced rt' = gc_traced rt" "phase rt' = phase rt" "gc_sweep rt' = gc_sweep rt"
    "gc_budget rt' = gc_budget rt" "gc_may rt' = gc_may rt" "gc_classes rt' = gc_classes rt"
    "class_may_gcref rt' = class_may_gcref rt"
  using assms by (auto simp: same_graph_def class_may_gcref_def fun_eq_iff split: option.split)

lemma same_graph_None: "same_graph rt rt' \<Longrightarrow> heap rt' a = None \<longleftrightarrow> heap rt a = None"
  unfolding same_graph_def by (drule conjunct1, drule spec [of _ a]) (cases "heap rt a"; cases "heap rt' a"; simp)

lemma same_graph_Some:
  assumes "same_graph rt rt'" and "heap rt a = Some o1"
  shows "\<exists>o2. heap rt' a = Some o2 \<and> ocls o2 = ocls o1 \<and> ofields o2 = ofields o1"
proof -
  have "map_option (\<lambda>o1. (ocls o1, ofields o1)) (heap rt' a) = Some (ocls o1, ofields o1)"
    using assms by (simp add: same_graph_def)
  then show ?thesis by auto
qed

lemma shades_refl [simp]: "shades rt rt"
  by (simp add: shades_def)

lemma shades_trans:
  assumes "shades a b" and "shades b c"
  shows "shades a c"
proof -
  note d1 = assms(1) [unfolded shades_def] and d2 = assms(2) [unfolded shades_def]
  have "64 \<le> length (gc_gray c)" if "capped a" "0 < gc_cap a" "\<not> gc_oom a" "gc_oom c"
  proof (cases "gc_oom b")
    case True
    then have "64 \<le> length (gc_gray b)" using assms(1) that by (simp add: shades_def)
    then show ?thesis using assms(2) by (simp add: shades_def)
  next
    case False
    have "capped b" "0 < gc_cap b" using d1 that by (blast, linarith)
    then show ?thesis using assms(2) that False by (simp add: shades_def)
  qed
  moreover have "\<forall>x. white a x \<longrightarrow> white c x \<or> x \<in> set (gc_gray c)" if nc: "\<not> gc_oom c"
  proof (intro allI impI)
    fix x assume w: "white a x"
    have "\<not> gc_oom b" using d2 nc by blast
    then have "white b x \<or> x \<in> set (gc_gray b)" using d1 w by blast
    then show "white c x \<or> x \<in> set (gc_gray c)" using d2 nc by blast
  qed
  moreover have "same_graph a c" using assms same_graph_trans [of a b c] by (simp add: shades_def)
  moreover have "set (gc_gray a) \<subseteq> set (gc_gray c)" using d1 d2 by blast
  moreover have "length (gc_gray a) \<le> length (gc_gray c)" "gc_cap a \<le> gc_cap c" using d1 d2 by linarith+
  moreover have "\<forall>x. white c x \<longrightarrow> white a x" "gc_oom a \<longrightarrow> gc_oom c" "grays_ok a \<longrightarrow> grays_ok c" "capped a \<longrightarrow> capped c"
    using assms by (simp_all add: shades_def)
  ultimately show ?thesis by (simp add: shades_def)
qed

lemma white_set_color:
  "white (set_color a c rt) x \<longleftrightarrow> (if x = a then heap rt a \<noteq> None \<and> c = White else white rt x)"
  by (auto simp: white_def set_color_def)

lemma set_color_graph [simp]: "same_graph rt (set_color a c rt)"
  by (auto simp: same_graph_def set_color_def option.map_comp o_def)

lemma set_color_simps [simp]:
  "gc_traced (set_color a c rt) = gc_traced rt" "gc_gray (set_color a c rt) = gc_gray rt"
  "gc_cap (set_color a c rt) = gc_cap rt" "gc_oom (set_color a c rt) = gc_oom rt"
  "phase (set_color a c rt) = phase rt" "gc_sweep (set_color a c rt) = gc_sweep rt"
  "gc_budget (set_color a c rt) = gc_budget rt" "gc_may (set_color a c rt) = gc_may rt"
  "gc_classes (set_color a c rt) = gc_classes rt"
  "heap (set_color a c rt) x = None \<longleftrightarrow> heap rt x = None"
  by (auto simp: set_color_def)

lemma white_update [simp]:
  "white (rt\<lparr>gc_gray := g\<rparr>) = white rt" "white (rt\<lparr>gc_oom := b\<rparr>) = white rt" "white (rt\<lparr>gc_cap := n\<rparr>) = white rt"
  "white (rt\<lparr>gc_traced := t\<rparr>) = white rt" "white (rt\<lparr>phase := p\<rparr>) = white rt" "white (rt\<lparr>gc_sweep := s\<rparr>) = white rt"
  "white (rt\<lparr>gc_alloc_bytes := n\<rparr>) = white rt"
  by (simp_all add: white_def fun_eq_iff)

lemma same_graph_update [simp]:
  "same_graph rt (rt'\<lparr>gc_gray := g\<rparr>) = same_graph rt rt'" "same_graph rt (rt'\<lparr>gc_oom := b\<rparr>) = same_graph rt rt'"
  "same_graph rt (rt'\<lparr>gc_cap := n\<rparr>) = same_graph rt rt'" "same_graph (rt\<lparr>gc_gray := g\<rparr>) rt' = same_graph rt rt'"
  by (simp_all add: same_graph_def)

lemma shade_cases:
  obtains (nothing) "wo_gc_shade mem a rt = rt" "\<not> white rt a"
  | (full) "white rt a" "length (gc_gray rt) = gc_cap rt" 
      "wo_gc_shade mem a rt = set_color a Black ((set_color a Gray rt)\<lparr>gc_oom := True\<rparr>)"
  | (grow) "white rt a" "length (gc_gray rt) = gc_cap rt"
      "wo_gc_shade mem a rt = (set_color a Gray rt)\<lparr>gc_cap := (if gc_cap rt \<noteq> 0 then gc_cap rt * 2 else 64), gc_gray := a # gc_gray rt\<rparr>"
  | (push) "white rt a" "length (gc_gray rt) \<noteq> gc_cap rt"
      "wo_gc_shade mem a rt = (set_color a Gray rt)\<lparr>gc_gray := a # gc_gray rt\<rparr>"
proof (cases "white rt a")
  case False
  then have "wo_gc_shade mem a rt = rt" by (auto simp: wo_gc_shade_def white_def split: option.splits)
  then show ?thesis using False by (rule nothing)
next
  case True
  then obtain o1 where o1: "heap rt a = Some o1" "ocolor o1 = White" by (auto simp: white_def)
  show ?thesis
  proof (cases "length (gc_gray rt) = gc_cap rt")
    case eq: True
    show ?thesis
    proof (cases "mem AGray")
      case m: True
      show ?thesis by (rule grow [OF True eq]) (simp add: wo_gc_shade_def o1 eq m Let_def)
    next
      case m: False
      show ?thesis by (rule full [OF True eq]) (simp add: wo_gc_shade_def o1 eq m Let_def)
    qed
  next
    case ne: False
    show ?thesis by (rule push [OF True ne]) (simp add: wo_gc_shade_def o1 ne Let_def)
  qed
qed

lemma shade_shades: "shades rt (wo_gc_shade mem a rt)" and shade_nonwhite: "\<not> white (wo_gc_shade mem a rt) a"
proof -
  have "shades rt (wo_gc_shade mem a rt) \<and> \<not> white (wo_gc_shade mem a rt) a"
  proof (cases rule: shade_cases [of mem a rt])
    case nothing
    then show ?thesis by simp
  next
    case full
    have "same_graph rt (wo_gc_shade mem a rt)"
      unfolding full(3) by (rule same_graph_trans [OF _ set_color_graph]) simp
    then show ?thesis using full
      by (auto simp: shades_def white_set_color grays_ok_def capped_def)
  next
    case grow
    have "same_graph rt (wo_gc_shade mem a rt)" unfolding grow(3) by simp
    then show ?thesis using grow
      by (auto simp: shades_def white_set_color grays_ok_def capped_def) (auto simp: white_def)
  next
    case push
    have "same_graph rt (wo_gc_shade mem a rt)" unfolding push(3) by simp
    then show ?thesis using push
      by (auto simp: shades_def white_set_color grays_ok_def capped_def) (auto simp: white_def)
  qed
  then show "shades rt (wo_gc_shade mem a rt)" "\<not> white (wo_gc_shade mem a rt) a" by blast+
qed

lemma fold_shade:
  "shades rt (fold (wo_gc_shade mem) as rt) \<and> (\<forall>a\<in>set as. \<not> white (fold (wo_gc_shade mem) as rt) a)"
proof (induction as arbitrary: rt)
  case (Cons a as)
  note ih = Cons.IH [of "wo_gc_shade mem a rt"]
  have "\<not> white (fold (wo_gc_shade mem) as (wo_gc_shade mem a rt)) a"
    using ih shade_nonwhite [of mem a rt] by (auto simp: shades_def)
  then show ?case using ih shades_trans [OF shade_shades] by auto
qed simp

text \<open>The walks are runs of shadings.\<close>

lemma scan_refs:
  "wo_gc_scan_root mem v rt = fold (wo_gc_shade mem) (ptr_refs (class_may_gcref rt) (gc_classes rt) v) rt"
  "scan_fields mem ks vs rt = fold (wo_gc_shade mem) (fields_refs (class_may_gcref rt) (gc_classes rt) ks vs) rt"
  "scan_pairs mem kk vk as bs rt = fold (wo_gc_shade mem) (pairs_refs (class_may_gcref rt) (gc_classes rt) kk vk as bs) rt"
proof (induction mem v rt and mem ks vs rt and mem kk vk as bs rt rule: wo_gc_scan_root_scan_fields_scan_pairs.induct)
  case (6 mem k ks v vs rt)
  show ?case
  proof (cases "ptr_kind k")
    case True
    let ?rt = "fold (wo_gc_shade mem) (ptr_refs (class_may_gcref rt) (gc_classes rt) v) rt"
    have "same_graph rt ?rt" using fold_shade by (auto simp: shades_def)
    then show ?thesis using 6 True by (simp add: same_graph_simps)
  next
    case False
    then show ?thesis using 6 by simp
  qed
next
  case (8 mem kk vk k ks v vs rt)
  let ?rt1 = "if ptr_kind kk then wo_gc_scan_root mem k rt else rt"
  let ?rt2 = "if ptr_kind vk then wo_gc_scan_root mem v ?rt1 else ?rt1"
  have 1: "same_graph rt ?rt1"
    using 8(1) fold_shade [of rt mem] by (auto simp: shades_def)
  have 2: "same_graph ?rt1 ?rt2"
    using 8(2) fold_shade [of ?rt1 mem] by (simp add: shades_def)
  have 3: "?rt1 = fold (wo_gc_shade mem) (if ptr_kind kk then ptr_refs (class_may_gcref rt) (gc_classes rt) k else []) rt"
    using 8(1) by simp
  have 4: "?rt2 = fold (wo_gc_shade mem) (if ptr_kind vk then ptr_refs (class_may_gcref rt) (gc_classes rt) v else []) ?rt1"
    using 8(2) same_graph_simps [OF 1] by simp
  have 5: "scan_pairs mem kk vk ks vs ?rt2 = fold (wo_gc_shade mem) (pairs_refs (class_may_gcref rt) (gc_classes rt) kk vk ks vs) ?rt2"
    using 8(3) [OF refl refl] same_graph_simps [OF same_graph_trans [OF 1 2]] by simp
  show ?case unfolding wo_gc_scan_root.simps scan_pairs.simps Let_def 5 pairs_refs.simps fold_append o_apply
    by (subst 4, subst 3) (rule refl)
qed simp_all


section \<open>Drops\<close>

lemma drop_idle:
  "phase rt \<noteq> GcMark \<Longrightarrow> wo_drop_kind mem k v rt = rt"
  "phase rt \<noteq> GcMark \<Longrightarrow> wo_drop_obj mem v rt = rt"
  "phase rt \<noteq> GcMark \<Longrightarrow> class_free mem ks vs rt = rt"
  "phase rt \<noteq> GcMark \<Longrightarrow> map_free mem kk vk as bs rt = rt"
  by (induction mem k v rt and mem v rt and mem ks vs rt and mem kk vk as bs rt
      rule: wo_drop_kind_wo_drop_obj_class_free_map_free.induct) simp_all

text \<open>The shape a value of a kind has.\<close>

function (sequential) shaped :: "classes \<Rightarrow> kind \<Rightarrow> vmval \<Rightarrow> bool"
and shaped_all :: "classes \<Rightarrow> kind list \<Rightarrow> vmval list \<Rightarrow> bool"
and shaped_pairs :: "classes \<Rightarrow> kind \<Rightarrow> kind \<Rightarrow> vmval list \<Rightarrow> vmval list \<Rightarrow> bool" where
  "shaped cs k VNull \<longleftrightarrow> k \<noteq> KScalar \<and> k \<noteq> KFloat"
| "shaped cs k (VWord a) \<longleftrightarrow> k = KGcref \<or> k = KScalar \<or> k = KFloat"
| "shaped cs k (VStr bs) \<longleftrightarrow> k = KText"
| "shaped cs k (VBytes bs) \<longleftrightarrow> k = KBytes"
| "shaped cs k (VObj cid vs) \<longleftrightarrow> k = KOwned \<and> cid < length cs \<and> shaped_all cs (kinds (cs ! cid)) vs"
| "shaped cs k (VMulti ek vs) \<longleftrightarrow> k = KMulti \<and> shaped_all cs (replicate (length vs) ek) vs"
| "shaped cs k (VMap kk vk ks vs) \<longleftrightarrow> k = KMap \<and> shaped_pairs cs kk vk ks vs"
| "shaped_all cs (k # ks) (v # vs) \<longleftrightarrow> shaped cs k v \<and> shaped_all cs ks vs"
| "shaped_all cs [] [] \<longleftrightarrow> True"
| "shaped_all cs ks vs \<longleftrightarrow> False"
| "shaped_pairs cs kk vk (k # ks) (v # vs) \<longleftrightarrow> shaped cs kk k \<and> shaped cs vk v \<and> shaped_pairs cs kk vk ks vs"
| "shaped_pairs cs kk vk [] [] \<longleftrightarrow> True"
| "shaped_pairs cs kk vk ks vs \<longleftrightarrow> False"
  by pat_completeness auto

termination
  by (relation "measure (\<lambda>x. case x of
        Inl (_, _, v) \<Rightarrow> size v
      | Inr (Inl (_, _, vs)) \<Rightarrow> size_list size vs
      | Inr (Inr (_, _, _, ks, vs)) \<Rightarrow> size_list size ks + size_list size vs)") auto

definition kind_refs :: "classes \<Rightarrow> kind \<Rightarrow> vmval \<Rightarrow> u64 list" where
  "kind_refs cs k v = (if ptr_kind k then ptr_refs (\<lambda>cid. True) cs v else [])"

lemma fields_refs_Cons:
  "fields_refs (\<lambda>cid. True) cs (k # ks) (v # vs) = kind_refs cs k v @ fields_refs (\<lambda>cid. True) cs ks vs"
  "pairs_refs (\<lambda>cid. True) cs kk vk (a # as) (b # bs) =
     kind_refs cs kk a @ kind_refs cs vk b @ pairs_refs (\<lambda>cid. True) cs kk vk as bs"
  by (simp_all add: kind_refs_def)

lemma fold_shade_graph: "same_graph rt (fold (wo_gc_shade mem) as rt)"
  using fold_shade by (auto simp: shades_def)

text \<open>A drop while marking passes every gcref in the value through the barrier.\<close>

lemma no_ptr_refs: "\<not> ptr_kind ek \<Longrightarrow> class_free mem (replicate n ek) vs rt = rt"
proof (induction n arbitrary: vs rt)
  case (Suc n)
  show ?case
  proof (cases vs)
    case (Cons v vs')
    have "wo_drop_kind mem ek v rt = rt" using Suc.prems by (cases v; cases ek) (simp_all add: ptr_kind_def)
    then show ?thesis using Cons Suc by simp
  qed simp
qed simp

lemma drop_refs:
  "phase rt = GcMark \<Longrightarrow> shaped (gc_classes rt) k v \<Longrightarrow>
     wo_drop_kind mem k v rt = fold (wo_gc_shade mem) (kind_refs (gc_classes rt) k v) rt"
  "phase rt = GcMark \<Longrightarrow> \<forall>a. v \<noteq> VWord a \<Longrightarrow> \<exists>k. ptr_kind k \<and> shaped (gc_classes rt) k v \<Longrightarrow>
     wo_drop_obj mem v rt = fold (wo_gc_shade mem) (ptr_refs (\<lambda>cid. True) (gc_classes rt) v) rt"
  "phase rt = GcMark \<Longrightarrow> shaped_all (gc_classes rt) ks vs \<Longrightarrow>
     class_free mem ks vs rt = fold (wo_gc_shade mem) (fields_refs (\<lambda>cid. True) (gc_classes rt) ks vs) rt"
  "phase rt = GcMark \<Longrightarrow> shaped_pairs (gc_classes rt) kk vk as bs \<Longrightarrow>
     map_free mem kk vk as bs rt = fold (wo_gc_shade mem) (pairs_refs (\<lambda>cid. True) (gc_classes rt) kk vk as bs) rt"
proof (induction mem k v rt and mem v rt and mem ks vs rt and mem kk vk as bs rt
      rule: wo_drop_kind_wo_drop_obj_class_free_map_free.induct)
qed (auto simp: kind_refs_def ptr_kind_def fields_refs_Cons same_graph_simps [OF fold_shade_graph] no_ptr_refs)

end
