(* ===== verification/GcSafety.thy ===== *)
theory GcSafety
  imports GcShade
begin

section \<open>Reachability\<close>

definition edges :: "gc_rt \<Rightarrow> (u64 \<times> u64) set" where
  "edges rt = {(a, b). \<exists>o1. heap rt a = Some o1 \<and> b \<in> set (obj_refs rt o1) \<and> b \<noteq> 0}"

definition root_refs :: "gc_rt \<Rightarrow> vmval list \<Rightarrow> u64 set" where
  "root_refs rt rs = {a. a \<noteq> 0 \<and> (\<exists>v\<in>set rs. a \<in> set (refs rt v))}"

definition reach :: "gc_rt \<Rightarrow> vmval list \<Rightarrow> u64 set" where
  "reach rt rs = (edges rt)\<^sup>* `` root_refs rt rs"

text \<open>An object the marking will not lose: not white, or on a path of white objects from a gray one
  or from one of \<open>X\<close>.\<close>

definition white_edges :: "gc_rt \<Rightarrow> (u64 \<times> u64) set" where
  "white_edges rt = {(a, b) \<in> edges rt. white rt b}"

definition kept :: "gc_rt \<Rightarrow> u64 set \<Rightarrow> u64 \<Rightarrow> bool" where
  "kept rt X a \<longleftrightarrow> \<not> white rt a \<or> (\<exists>g\<in>set (gc_gray rt) \<union> X. (g, a) \<in> (white_edges rt)\<^sup>*)"

lemma reach_root: "a \<in> root_refs rt rs \<Longrightarrow> a \<in> reach rt rs"
  by (auto simp: reach_def)

lemma reach_edge: "a \<in> reach rt rs \<Longrightarrow> (a, b) \<in> edges rt \<Longrightarrow> b \<in> reach rt rs"
  by (auto simp: reach_def intro: rtrancl_into_rtrancl)

lemma reach_induct [consumes 1, case_names root edge]:
  assumes "a \<in> reach rt rs" and "\<And>a. a \<in> root_refs rt rs \<Longrightarrow> P a"
    and "\<And>a b. a \<in> reach rt rs \<Longrightarrow> P a \<Longrightarrow> (a, b) \<in> edges rt \<Longrightarrow> P b"
  shows "P a"
proof -
  obtain r where r: "r \<in> root_refs rt rs" and p: "(r, a) \<in> (edges rt)\<^sup>*" using assms(1) by (auto simp: reach_def)
  from p have "a \<in> reach rt rs \<and> P a"
    by (induction rule: rtrancl_induct) (use r assms(2,3) reach_root reach_edge in blast)+
  then show ?thesis by blast
qed

lemma reach_sub:
  assumes "\<And>a. a \<in> root_refs rt' rs' \<Longrightarrow> a \<in> R" and "\<And>a b. a \<in> R \<Longrightarrow> (a, b) \<in> edges rt' \<Longrightarrow> b \<in> R"
  shows "reach rt' rs' \<subseteq> R"
proof
  fix a assume "a \<in> reach rt' rs'"
  then show "a \<in> R" by (induction rule: reach_induct) (use assms in blast)+
qed

lemma same_graph_edges: "same_graph rt rt' \<Longrightarrow> edges rt' = edges rt"
proof -
  have "edges rt \<subseteq> edges rt'" if "same_graph rt rt'" for rt rt'
    using same_graph_Some [OF that] same_graph_simps [OF that] by (fastforce simp: edges_def obj_refs_def)
  moreover have "same_graph rt rt' \<Longrightarrow> same_graph rt' rt" by (simp add: same_graph_def)
  ultimately show "same_graph rt rt' \<Longrightarrow> edges rt' = edges rt" by blast
qed

lemma same_graph_reach:
  assumes "same_graph rt rt'"
  shows "reach rt' rs = reach rt rs"
  using same_graph_edges [OF assms] same_graph_simps [OF assms] by (simp add: reach_def root_refs_def)

text \<open>Shading keeps what is kept.\<close>

lemma shades_kept:
  assumes s: "shades rt rt'" and no: "\<not> gc_oom rt'" and k: "kept rt X a"
  shows "kept rt' X a"
proof (cases "white rt a")
  case False
  then show ?thesis using s by (auto simp: kept_def shades_def)
next
  case True
  obtain g where g: "g \<in> set (gc_gray rt) \<union> X" and p: "(g, a) \<in> (white_edges rt)\<^sup>*"
    using k True by (auto simp: kept_def)
  have sub: "set (gc_gray rt) \<subseteq> set (gc_gray rt')" using s by (simp add: shades_def)
  have e: "edges rt' = edges rt" using s same_graph_edges by (simp add: shades_def)
  from p have "\<exists>g\<in>set (gc_gray rt') \<union> X. (g, a) \<in> (white_edges rt')\<^sup>*"
  proof (induction rule: rtrancl_induct)
    case base
    then show ?case using g sub by blast
  next
    case (step y z)
    have "white rt z" using step(2) by (simp add: white_edges_def)
    then consider "white rt' z" | "z \<in> set (gc_gray rt')" using s no unfolding shades_def by blast
    then show ?case
    proof cases
      case 1
      then have "(y, z) \<in> white_edges rt'" using step(2) e by (simp add: white_edges_def)
      then show ?thesis using step(3) by (meson rtrancl_into_rtrancl)
    qed blast
  qed
  then show ?thesis by (simp add: kept_def)
qed

text \<open>Once all its children are shaded an object protects nothing any more.\<close>

lemma kept_scanned:
  assumes k: "kept rt {g} a" and g: "\<not> white rt g" and c: "\<And>b. (g, b) \<in> edges rt \<Longrightarrow> \<not> white rt b"
  shows "kept rt {} a"
proof (cases "white rt a")
  case True
  then obtain h where h: "h \<in> set (gc_gray rt) \<union> {g}" "(h, a) \<in> (white_edges rt)\<^sup>*"
    using k by (auto simp: kept_def)
  show ?thesis
  proof (cases "h = g")
    case True
    from h(2) have "a = g \<or> (\<exists>b. (g, b) \<in> white_edges rt)"
      unfolding True by (metis converse_rtranclE)
    then show ?thesis using g c \<open>white rt a\<close> by (auto simp: white_edges_def)
  qed (use h in \<open>auto simp: kept_def\<close>)
qed (simp add: kept_def)


section \<open>The invariant\<close>

text \<open>The walk enters every class that could hold a gcref of this value.\<close>

definition traceable :: "gc_rt \<Rightarrow> vmval \<Rightarrow> bool" where
  "traceable rt v \<longleftrightarrow> set (refs rt v) \<subseteq> set (ptr_refs (class_may_gcref rt) (gc_classes rt) v)"

definition obj_traceable :: "gc_rt \<Rightarrow> gobj \<Rightarrow> bool" where
  "obj_traceable rt o1 \<longleftrightarrow>
     (\<forall>(k, v)\<in>set (zip (kinds (gc_classes rt ! ocls o1)) (ofields o1)). ptr_kind k \<longrightarrow> traceable rt v)"

lemma obj_traceable_refs:
  assumes "obj_traceable rt o1"
  shows "set (obj_refs rt o1) \<subseteq>
    set (fields_refs (class_may_gcref rt) (gc_classes rt) (kinds (gc_classes rt ! ocls o1)) (ofields o1))"
proof -
  have "\<forall>(k, v)\<in>set (zip ks vs). ptr_kind k \<longrightarrow> traceable rt v \<Longrightarrow>
      set (fields_refs (\<lambda>cid. True) (gc_classes rt) ks vs) \<subseteq> set (fields_refs (class_may_gcref rt) (gc_classes rt) ks vs)" for ks vs
  proof (induction ks arbitrary: vs)
    case (Cons k ks)
    show ?case
    proof (cases vs)
      case (Cons v vs')
      then show ?thesis using Cons.IH [of vs'] Cons.prems by (auto simp: traceable_def)
    qed simp
  qed simp
  then show ?thesis using assms by (simp add: obj_traceable_def obj_refs_def)
qed

text \<open>The bound on the budget is the first size of the worklist: a cycle whose worklist could not
  grow is then not over before the next slice sees the flag.\<close>

definition gc_wf :: "gc_rt \<Rightarrow> bool" where
  "gc_wf rt \<longleftrightarrow> distinct (gc_traced rt) \<and> set (gc_traced rt) = dom (heap rt) \<and> heap rt 0 = None \<and>
     gc_budget rt \<le> 64 \<and> capped rt \<and> (\<forall>a o1. heap rt a = Some o1 \<longrightarrow> obj_traceable rt o1)"

definition swept :: "gc_rt \<Rightarrow> u64 set \<Rightarrow> nat \<Rightarrow> bool" where
  "swept rt R i \<longleftrightarrow> i \<le> length (gc_traced rt) \<and>
     (\<forall>j<length (gc_traced rt).
        if j < i then white rt (gc_traced rt ! j) else gc_traced rt ! j \<in> R \<longrightarrow> \<not> white rt (gc_traced rt ! j))"

definition all_white :: "gc_rt \<Rightarrow> bool" where
  "all_white rt \<longleftrightarrow> (\<forall>a\<in>dom (heap rt). white rt a)"

definition phase_inv :: "gc_rt \<Rightarrow> u64 set \<Rightarrow> bool" where
  "phase_inv rt R \<longleftrightarrow>
     (case phase rt of
        GcIdle \<Rightarrow> gc_sweep rt = None \<and> all_white rt
      | GcMark \<Rightarrow> gc_sweep rt = None \<and> grays_ok rt \<and> (gc_oom rt \<or> (\<forall>a\<in>R. kept rt {} a))
      | GcSweep \<Rightarrow> gc_gray rt = [] \<and> (\<exists>i. gc_sweep rt = Some i \<and> swept rt R i))"

definition gc_inv :: "gc_rt \<Rightarrow> vmval list \<Rightarrow> bool" where
  "gc_inv rt rs \<longleftrightarrow> gc_wf rt \<and> (\<forall>v\<in>set rs. traceable rt v) \<and> reach rt rs \<subseteq> dom (heap rt) \<and> phase_inv rt (reach rt rs)"

text \<open>Fields that do not matter.\<close>

lemma may_update [simp]:
  "class_may_gcref (rt\<lparr>gc_gray := g\<rparr>) = class_may_gcref rt"
  "class_may_gcref (rt\<lparr>phase := p\<rparr>) = class_may_gcref rt"
  "class_may_gcref (rt\<lparr>gc_sweep := s\<rparr>) = class_may_gcref rt"
  "class_may_gcref (rt\<lparr>gc_alloc_bytes := n\<rparr>) = class_may_gcref rt"
  "class_may_gcref (rt\<lparr>gc_traced := t\<rparr>) = class_may_gcref rt"
  "class_may_gcref (rt\<lparr>heap := h\<rparr>) = class_may_gcref rt"
  "class_may_gcref (rt\<lparr>gc_oom := b\<rparr>) = class_may_gcref rt"
  by (simp_all add: class_may_gcref_def fun_eq_iff split: option.split)

lemma refs_update [simp]:
  "obj_refs (rt\<lparr>gc_gray := g\<rparr>) = obj_refs rt"
  "obj_refs (rt\<lparr>phase := p\<rparr>) = obj_refs rt"
  "obj_refs (rt\<lparr>gc_sweep := s\<rparr>) = obj_refs rt"
  "obj_refs (rt\<lparr>gc_alloc_bytes := n\<rparr>) = obj_refs rt"
  "obj_refs (rt\<lparr>gc_traced := t\<rparr>) = obj_refs rt"
  "obj_refs (rt\<lparr>heap := h\<rparr>) = obj_refs rt"
  "obj_refs (rt\<lparr>gc_oom := b\<rparr>) = obj_refs rt"
  "traceable (rt\<lparr>gc_gray := g\<rparr>) = traceable rt"
  "traceable (rt\<lparr>phase := p\<rparr>) = traceable rt"
  "traceable (rt\<lparr>gc_sweep := s\<rparr>) = traceable rt"
  "traceable (rt\<lparr>gc_alloc_bytes := n\<rparr>) = traceable rt"
  "traceable (rt\<lparr>gc_traced := t\<rparr>) = traceable rt"
  "traceable (rt\<lparr>heap := h\<rparr>) = traceable rt"
  "traceable (rt\<lparr>gc_oom := b\<rparr>) = traceable rt"
  "obj_traceable (rt\<lparr>gc_gray := g\<rparr>) = obj_traceable rt"
  "obj_traceable (rt\<lparr>phase := p\<rparr>) = obj_traceable rt"
  "obj_traceable (rt\<lparr>gc_sweep := s\<rparr>) = obj_traceable rt"
  "obj_traceable (rt\<lparr>gc_alloc_bytes := n\<rparr>) = obj_traceable rt"
  "obj_traceable (rt\<lparr>gc_traced := t\<rparr>) = obj_traceable rt"
  "obj_traceable (rt\<lparr>heap := h\<rparr>) = obj_traceable rt"
  "obj_traceable (rt\<lparr>gc_oom := b\<rparr>) = obj_traceable rt"
  "root_refs (rt\<lparr>gc_gray := g\<rparr>) = root_refs rt"
  "root_refs (rt\<lparr>phase := p\<rparr>) = root_refs rt"
  "root_refs (rt\<lparr>gc_sweep := s\<rparr>) = root_refs rt"
  "root_refs (rt\<lparr>gc_alloc_bytes := n\<rparr>) = root_refs rt"
  "root_refs (rt\<lparr>gc_traced := t\<rparr>) = root_refs rt"
  "root_refs (rt\<lparr>heap := h\<rparr>) = root_refs rt"
  "root_refs (rt\<lparr>gc_oom := b\<rparr>) = root_refs rt"
  by (simp_all add: obj_refs_def traceable_def obj_traceable_def root_refs_def fun_eq_iff)

lemma edges_update [simp]:
  "edges (rt\<lparr>gc_gray := g\<rparr>) = edges rt"
  "edges (rt\<lparr>phase := p\<rparr>) = edges rt"
  "edges (rt\<lparr>gc_sweep := s\<rparr>) = edges rt"
  "edges (rt\<lparr>gc_alloc_bytes := n\<rparr>) = edges rt"
  "edges (rt\<lparr>gc_traced := t\<rparr>) = edges rt"
  "edges (rt\<lparr>gc_oom := b\<rparr>) = edges rt"
  by (simp_all add: edges_def)

lemma wf_update [simp]:
  "gc_wf (rt\<lparr>phase := p\<rparr>) = gc_wf rt" "gc_wf (rt\<lparr>gc_sweep := s\<rparr>) = gc_wf rt"
  "gc_wf (rt\<lparr>gc_alloc_bytes := n\<rparr>) = gc_wf rt" "gc_wf (rt\<lparr>gc_oom := b\<rparr>) = gc_wf rt"
  by (simp_all add: gc_wf_def capped_def)

lemma same_graph_dom: "same_graph rt rt' \<Longrightarrow> dom (heap rt') = dom (heap rt)"
  using same_graph_None by (simp add: dom_def set_eq_iff)

lemma same_graph_traceable: "same_graph rt rt' \<Longrightarrow> traceable rt' = traceable rt"
  by (simp add: traceable_def fun_eq_iff same_graph_simps)

lemma same_graph_wf:
  assumes "same_graph rt rt'" and "gc_wf rt" and "capped rt'"
  shows "gc_wf rt'"
proof -
  note s = same_graph_simps [OF assms(1)]
  have d: "dom (heap rt') = dom (heap rt)" by (rule same_graph_dom [OF assms(1)])
  have "obj_traceable rt' o2" if "heap rt' a = Some o2" for a o2
  proof -
    obtain o1 where o1: "heap rt a = Some o1" using same_graph_None [OF assms(1), of a] \<open>heap rt' a = Some o2\<close> by fastforce
    then have "ocls o2 = ocls o1 \<and> ofields o2 = ofields o1" using same_graph_Some [OF assms(1) o1] \<open>heap rt' a = Some o2\<close> by auto
    then show ?thesis using assms(2) o1 s same_graph_traceable [OF assms(1)] by (auto simp: gc_wf_def obj_traceable_def)
  qed
  then show ?thesis using assms(2,3) s d same_graph_None [OF assms(1), of 0] by (auto simp: gc_wf_def)
qed

section \<open>Marking\<close>

definition mark_ok :: "nat \<Rightarrow> gc_rt \<Rightarrow> u64 set \<Rightarrow> bool" where
  "mark_ok n rt R \<longleftrightarrow> gc_wf rt \<and> grays_ok rt \<and> (if gc_oom rt then n < length (gc_gray rt) else \<forall>a\<in>R. kept rt {} a)"

lemma scan_traced_ok:
  fixes mem :: mem
  assumes wf: "gc_wf rt" and gr: "grays_ok rt" and g: "gc_gray rt = a # g"
  defines "rt1 \<equiv> scan_traced mem a (rt\<lparr>gc_gray := g\<rparr>)"
  shows "same_graph rt rt1" and "grays_ok rt1" and "gc_wf rt1" and "length g \<le> length (gc_gray rt1)"
    and "gc_oom rt \<longrightarrow> gc_oom rt1" and "\<not> gc_oom rt \<Longrightarrow> gc_oom rt1 \<Longrightarrow> 64 \<le> length (gc_gray rt1)"
    and "\<not> gc_oom rt1 \<Longrightarrow> kept rt {} x \<Longrightarrow> kept rt1 {} x"
proof -
  let ?rt0 = "rt\<lparr>gc_gray := g\<rparr>"
  obtain o1 where o1: "heap rt a = Some o1" and nw: "\<not> white rt a" using gr g by (auto simp: grays_ok_def)
  let ?ks = "kinds (gc_classes rt ! ocls o1)"
  let ?rs = "fields_refs (class_may_gcref rt) (gc_classes rt) ?ks (ofields o1)"
  let ?rt' = "fold (wo_gc_shade mem) ?rs ?rt0"
  have e: "rt1 = set_color a Black ?rt'" using o1 by (simp add: rt1_def scan_traced_def scan_refs(2))
  have s: "shades ?rt0 ?rt'" and c: "\<forall>b\<in>set ?rs. \<not> white ?rt' b" using fold_shade by blast+
  have sg': "same_graph rt ?rt'" using s same_graph_update(4) by (simp add: shades_def)
  then show sg: "same_graph rt rt1" unfolding e by (rule same_graph_trans [OF _ set_color_graph])
  have nw': "\<not> white ?rt' a" using s nw by (auto simp: shades_def)
  have w: "white rt1 = white ?rt'" using nw' by (auto simp: e white_set_color fun_eq_iff)
  have cap0: "capped ?rt0" "0 < gc_cap ?rt0" using wf g by (auto simp: gc_wf_def capped_def)
  have "grays_ok ?rt0" using gr g by (auto simp: grays_ok_def)
  then have gok: "grays_ok ?rt'" "capped ?rt'" using s cap0 by (simp_all add: shades_def)
  then show "grays_ok rt1" using w by (auto simp: grays_ok_def e)
  have "capped rt1" using gok by (simp add: capped_def e)
  then show "gc_wf rt1" by (rule same_graph_wf [OF sg wf])
  show "length g \<le> length (gc_gray rt1)" and "gc_oom rt \<longrightarrow> gc_oom rt1"
    using s by (auto simp: shades_def e)
  show "64 \<le> length (gc_gray rt1)" if "\<not> gc_oom rt" "gc_oom rt1" using s cap0 that by (simp add: shades_def e)
  show "kept rt1 {} x" if no: "\<not> gc_oom rt1" and k: "kept rt {} x"
  proof -
    have "edges ?rt0 = edges rt" by (simp add: edges_def obj_refs_def)
    then have "kept ?rt0 {a} x" using k g by (auto simp: kept_def white_edges_def)
    then have k': "kept ?rt' {a} x" using no by (intro shades_kept [OF s]) (simp_all add: e)
    have "\<not> white ?rt' b" if "(a, b) \<in> edges ?rt'" for b
    proof -
      have "(a, b) \<in> edges rt" using that same_graph_edges [OF sg'] by simp
      then have "b \<in> set (obj_refs rt o1)" using o1 by (simp add: edges_def)
      moreover have "set (obj_refs rt o1) \<subseteq> set ?rs" using wf o1 obj_traceable_refs by (simp add: gc_wf_def)
      ultimately show ?thesis using c by blast
    qed
    then have "kept ?rt' {} x" by (rule kept_scanned [OF k' nw'])
    then show ?thesis using w same_graph_edges [OF sg] same_graph_edges [OF sg']
      by (auto simp: kept_def white_edges_def e)
  qed
qed

lemma mark_loop_ok:
  "mark_ok n rt R \<Longrightarrow> n \<le> 64 \<Longrightarrow>
   same_graph rt (mark_loop mem n rt) \<and>
   (\<exists>m. mark_ok m (mark_loop mem n rt) R \<and> (m = 0 \<or> gc_gray (mark_loop mem n rt) = []))"
proof (induction n arbitrary: rt)
  case 0
  then show ?case by auto
next
  case (Suc n)
  show ?case
  proof (cases "gc_gray rt")
    case Nil
    then show ?thesis using Suc.prems by auto
  next
    case (Cons a g)
    let ?rt1 = "scan_traced mem a (rt\<lparr>gc_gray := g\<rparr>)"
    have wf: "gc_wf rt" and gr: "grays_ok rt" using Suc.prems by (simp_all add: mark_ok_def)
    note s = scan_traced_ok [OF wf gr Cons, of mem]
    have "mark_ok n ?rt1 R"
    proof (cases "gc_oom ?rt1")
      case True
      have "n < length (gc_gray ?rt1)"
      proof (cases "gc_oom rt")
        case o1: True
        then have "n < length g" using Suc.prems(1) Cons by (simp add: mark_ok_def)
        then show ?thesis using s(4) by linarith
      next
        case False
        then show ?thesis using s(6) True Suc.prems(2) by fastforce
      qed
      then show ?thesis using s(2,3) True by (simp add: mark_ok_def)
    next
      case False
      then have "\<not> gc_oom rt" using s(5) by blast
      then have "\<forall>a\<in>R. kept ?rt1 {} a" using Suc.prems(1) s(7) False by (auto simp: mark_ok_def)
      then show ?thesis using s(2,3) False by (simp add: mark_ok_def)
    qed
    then have "same_graph ?rt1 (mark_loop mem n ?rt1) \<and>
      (\<exists>m. mark_ok m (mark_loop mem n ?rt1) R \<and> (m = 0 \<or> gc_gray (mark_loop mem n ?rt1) = []))"
      using Suc.IH Suc.prems(2) by simp
    then show ?thesis using Cons same_graph_trans [OF s(1)] by simp
  qed
qed

lemma blacken_all_black:
  "same_graph rt (blacken_all rt)" "a \<in> set (gc_traced rt) \<Longrightarrow> \<not> white (blacken_all rt) a"
  "gc_gray (blacken_all rt) = gc_gray rt" "gc_cap (blacken_all rt) = gc_cap rt" "gc_oom (blacken_all rt) = gc_oom rt"
proof -
  have "same_graph rt (fold (\<lambda>a. set_color a Black) as rt) \<and>
      (\<forall>x. white (fold (\<lambda>a. set_color a Black) as rt) x \<longleftrightarrow> white rt x \<and> x \<notin> set as) \<and>
      gc_gray (fold (\<lambda>a. set_color a Black) as rt) = gc_gray rt \<and> gc_cap (fold (\<lambda>a. set_color a Black) as rt) = gc_cap rt \<and>
      gc_oom (fold (\<lambda>a. set_color a Black) as rt) = gc_oom rt" for as
  proof (induction as arbitrary: rt)
    case (Cons x as)
    note ih = Cons [of "set_color x Black rt"]
    show ?case using ih same_graph_trans [OF set_color_graph conjunct1 [OF ih]] by (simp add: white_set_color)
  qed simp
  from this [of "gc_traced rt"] show "same_graph rt (blacken_all rt)"
    "a \<in> set (gc_traced rt) \<Longrightarrow> \<not> white (blacken_all rt) a"
    "gc_gray (blacken_all rt) = gc_gray rt" "gc_cap (blacken_all rt) = gc_cap rt" "gc_oom (blacken_all rt) = gc_oom rt"
    by (auto simp: blacken_all_def)
qed

text \<open>What a slice of marking leaves: the graph, the invariant of the phase it ends in.\<close>

lemma mark_part_ok:
  fixes mem :: mem
  assumes wf: "gc_wf rt" and p: "phase rt = GcMark" and inv: "phase_inv rt R" and n: "n \<le> 64"
    and R: "R \<subseteq> dom (heap rt)"
  defines "rt2 \<equiv> mark_part mem n rt"
  shows "gc_wf rt2" and "edges rt2 = edges rt" and "phase_inv rt2 R" and "phase rt2 \<noteq> GcIdle"
    and "gc_classes rt2 = gc_classes rt" and "gc_may rt2 = gc_may rt" and "dom (heap rt2) = dom (heap rt)"
proof -
  let ?rt1 = "if gc_oom rt then (blacken_all rt)\<lparr>gc_gray := []\<rparr> else rt"
  let ?rt2 = "mark_loop mem n ?rt1"
  have i: "gc_sweep rt = None" "grays_ok rt" "gc_oom rt \<or> (\<forall>a\<in>R. kept rt {} a)"
    using inv p by (simp_all add: phase_inv_def)
  have *: "same_graph rt ?rt2 \<and> gc_wf ?rt2 \<and> grays_ok ?rt2 \<and>
    (if gc_gray ?rt2 = [] then \<forall>a\<in>R. \<not> white ?rt2 a else gc_oom ?rt2 \<or> (\<forall>a\<in>R. kept ?rt2 {} a))"
  proof (cases "gc_oom rt")
    case True
    have "mark_loop mem n ?rt1 = ?rt1" using True by (cases n) simp_all
    moreover have "same_graph rt ?rt1" using True blacken_all_black(1) by simp
    moreover have "capped ?rt1" using True wf blacken_all_black(4) by (simp add: capped_def gc_wf_def)
    moreover have "\<forall>a\<in>R. \<not> white ?rt1 a"
      using R wf True blacken_all_black(2) [of _ rt] by (simp add: gc_wf_def subset_iff)
    ultimately show ?thesis using True wf same_graph_wf by (simp add: grays_ok_def)
  next
    case False
    then have "mark_ok n rt R" using i wf by (simp add: mark_ok_def)
    from mark_loop_ok [OF this n, of mem] obtain m where m: "same_graph rt (mark_loop mem n rt)"
      "mark_ok m (mark_loop mem n rt) R" by blast
    have "\<forall>a\<in>R. \<not> white (mark_loop mem n rt) a" if "gc_gray (mark_loop mem n rt) = []"
      using m(2) that by (auto simp: mark_ok_def kept_def split: if_splits)
    then show ?thesis using m False by (auto simp: mark_ok_def split: if_splits)
  qed
  have e: "rt2 = (if gc_gray ?rt2 = [] then ?rt2\<lparr>phase := GcSweep, gc_sweep := Some 0\<rparr> else ?rt2)"
    by (simp add: rt2_def mark_part_def Let_def)
  note sg = same_graph_simps [OF conjunct1 [OF *]]
  have d: "dom (heap ?rt2) = dom (heap rt)" by (rule same_graph_dom [OF conjunct1 [OF *]])
  then show "dom (heap rt2) = dom (heap rt)" by (simp add: e)
  show "gc_wf rt2" using * by (simp add: e)
  show "edges rt2 = edges rt" using same_graph_edges [OF conjunct1 [OF *]] by (simp add: e)
  show "phase rt2 \<noteq> GcIdle" "gc_classes rt2 = gc_classes rt" "gc_may rt2 = gc_may rt" using sg p by (simp_all add: e)
  show "phase_inv rt2 R"
    using * sg p i(1) by (auto simp: e phase_inv_def swept_def)
qed

section \<open>Sweeping\<close>

text \<open>The dead white object at the cursor goes; nothing that is reachable loses an edge.\<close>

definition without :: "u64 \<Rightarrow> nat \<Rightarrow> gc_rt \<Rightarrow> gc_rt" where
  "without a i rt =
     rt\<lparr>gc_traced := take i (gc_traced rt) @ drop (Suc i) (gc_traced rt), heap := (heap rt)(a := None)\<rparr>"

lemma nth_without:
  "i < length xs \<Longrightarrow> j < length xs - 1 \<Longrightarrow>
     (take i xs @ drop (Suc i) xs) ! j = (if j < i then xs ! j else xs ! Suc j)"
  by (auto simp: nth_append)

lemma without_ok:
  assumes wf: "gc_wf rt" and i: "i < length (gc_traced rt)" and a: "gc_traced rt ! i = a"
    and sw: "swept rt R i" and w: "white rt a"
  shows "gc_wf (without a i rt)" and "swept (without a i rt) R i" and "a \<notin> R"
    and "edges (without a i rt) \<subseteq> edges rt" and "dom (heap (without a i rt)) = dom (heap rt) - {a}"
    and "length (gc_traced (without a i rt)) = length (gc_traced rt) - 1"
proof -
  let ?rt = "without a i rt"
  have sp: "gc_traced rt = take i (gc_traced rt) @ a # drop (Suc i) (gc_traced rt)" using id_take_nth_drop [OF i] a by simp
  have dt: "distinct (gc_traced rt)" "set (gc_traced rt) = dom (heap rt)" using wf by (simp_all add: gc_wf_def)
  have d: "distinct (gc_traced ?rt)" "set (gc_traced ?rt) = dom (heap rt) - {a}"
  proof -
    have "distinct (take i (gc_traced rt) @ a # drop (Suc i) (gc_traced rt))" using dt(1) sp by simp
    then show "distinct (gc_traced ?rt)" by (simp add: without_def)
    have "set (gc_traced rt) = set (take i (gc_traced rt)) \<union> {a} \<union> set (drop (Suc i) (gc_traced rt))"
      by (subst sp) (simp only: set_append list.set, blast)
    then show "set (gc_traced ?rt) = dom (heap rt) - {a}"
      using \<open>distinct (take i (gc_traced rt) @ a # drop (Suc i) (gc_traced rt))\<close> dt(2) by (auto simp: without_def)
  qed
  show dom: "dom (heap ?rt) = dom (heap rt) - {a}" by (auto simp: without_def)
  show "gc_wf ?rt" using wf d dom by (auto simp: gc_wf_def without_def capped_def split: if_splits)
  show len: "length (gc_traced ?rt) = length (gc_traced rt) - 1" using i by (simp add: without_def)
  show "a \<notin> R" using sw i a w by (auto simp: swept_def)
  show "edges ?rt \<subseteq> edges rt" by (auto simp: without_def edges_def split: if_splits)
  show "swept ?rt R i"
    unfolding swept_def
  proof (intro conjI allI impI)
    show "i \<le> length (gc_traced ?rt)" using i len by simp
    fix j assume j: "j < length (gc_traced ?rt)"
    let ?k = "if j < i then j else Suc j"
    have n: "gc_traced ?rt ! j = gc_traced rt ! ?k" using j i len by (simp add: without_def nth_without)
    have k: "?k < length (gc_traced rt)" "?k \<noteq> i" using j i len by auto
    then have "gc_traced rt ! ?k \<noteq> a" using dt(1) i a nth_eq_iff_index_eq by metis
    then have "white ?rt (gc_traced rt ! ?k) = white rt (gc_traced rt ! ?k)" by (simp add: white_def without_def)
    moreover have "if ?k < i then white rt (gc_traced rt ! ?k) else gc_traced rt ! ?k \<in> R \<longrightarrow> \<not> white rt (gc_traced rt ! ?k)"
      using sw k unfolding swept_def by blast
    ultimately show "if j < i then white ?rt (gc_traced ?rt ! j) else gc_traced ?rt ! j \<in> R \<longrightarrow> \<not> white ?rt (gc_traced ?rt ! j)"
      unfolding n by (auto split: if_splits)
  qed
qed

text \<open>A survivor is painted white and passed.\<close>

lemma repaint_ok:
  assumes wf: "gc_wf rt" and i: "i < length (gc_traced rt)" and a: "gc_traced rt ! i = a" and sw: "swept rt R i"
  shows "gc_wf (set_color a White rt)" and "swept (set_color a White rt) R (Suc i)"
proof -
  have "capped (set_color a White rt)" using wf by (simp add: gc_wf_def capped_def)
  then show "gc_wf (set_color a White rt)" by (rule same_graph_wf [OF set_color_graph wf])
  have "heap rt a \<noteq> None" using wf i a nth_mem by (fastforce simp: gc_wf_def)
  moreover have "gc_traced rt ! j \<noteq> a" if "j < length (gc_traced rt)" "j \<noteq> i" for j
    using wf that i a nth_eq_iff_index_eq by (metis gc_wf_def)
  ultimately show "swept (set_color a White rt) R (Suc i)"
    using sw i a by (auto simp: swept_def white_set_color less_Suc_eq)
qed

lemma sweep_loop_ok:
  assumes "gc_wf rt" and "phase rt = GcSweep" and "gc_gray rt = []" and "swept rt R i"
    and "R \<subseteq> dom (heap rt)" and "sweep_loop mem n i freed rt = (i', freed', rt')"
  shows "gc_wf rt' \<and> phase rt' = GcSweep \<and> gc_gray rt' = [] \<and> swept rt' R i' \<and> R \<subseteq> dom (heap rt') \<and>
    edges rt' \<subseteq> edges rt \<and> gc_classes rt' = gc_classes rt \<and> gc_may rt' = gc_may rt"
  using assms
proof (induction n arbitrary: i freed rt)
  case (Suc n)
  show ?case
  proof (cases "length (gc_traced rt) \<le> i")
    case False
    let ?a = "gc_traced rt ! i"
    have i: "i < length (gc_traced rt)" using False by simp
    then obtain o1 where o1: "heap rt ?a = Some o1" using Suc.prems(1) nth_mem by (fastforce simp: gc_wf_def)
    show ?thesis
    proof (cases "ocolor o1 = White")
      case True
      then have w: "white rt ?a" using o1 by (simp add: white_def)
      note wo = without_ok [OF Suc.prems(1) i refl Suc.prems(4) w]
      have nm: "phase (rt\<lparr>gc_traced := take i (gc_traced rt) @ drop (Suc i) (gc_traced rt)\<rparr>) \<noteq> GcMark" using Suc.prems(2) by simp
      have sl: "sweep_loop mem n i (freed + 1) (without ?a i rt) = (i', freed', rt')"
        using Suc.prems(6) False o1 True by (simp add: drop_idle(3) [OF nm] without_def Let_def)
      have k: "phase (without ?a i rt) = GcSweep" "gc_gray (without ?a i rt) = []"
        "gc_classes (without ?a i rt) = gc_classes rt" "gc_may (without ?a i rt) = gc_may rt"
        using Suc.prems by (simp_all add: without_def)
      have "R \<subseteq> dom (heap (without ?a i rt))" unfolding wo(5) using wo(3) Suc.prems(5) by (simp only: subset_Diff_insert Diff_empty simp_thms)
      note ih = Suc.IH [OF wo(1) k(1,2) wo(2) this sl]
      then have "edges rt' \<subseteq> edges (without ?a i rt)" by (elim conjE)
      then have "edges rt' \<subseteq> edges rt" using wo(4) by (rule order_trans)
      then show ?thesis using ih k(3,4) by simp
    next
      case b: False
      note rp = repaint_ok [OF Suc.prems(1) i refl Suc.prems(4)]
      have sl: "sweep_loop mem n (Suc i) freed (set_color ?a White rt) = (i', freed', rt')"
        using Suc.prems(6) False o1 b by (simp add: Let_def)
      have k: "phase (set_color ?a White rt) = GcSweep" "gc_gray (set_color ?a White rt) = []" using Suc.prems by simp_all
      have "R \<subseteq> dom (heap (set_color ?a White rt))"
        using Suc.prems(5) same_graph_dom [OF set_color_graph] by simp
      note ih = Suc.IH [OF rp(1) k rp(2) this sl]
      then show ?thesis using same_graph_edges [OF set_color_graph] by simp
    qed
  next
    case True
    then show ?thesis using Suc.prems by simp
  qed
qed simp

lemma sweep_part_ok:
  assumes wf: "gc_wf rt" and p: "phase rt = GcSweep" and inv: "phase_inv rt R" and R: "R \<subseteq> dom (heap rt)"
    and s: "sweep_part mem n rt = (freed, rt2)"
  shows "gc_wf rt2 \<and> phase_inv rt2 R \<and> R \<subseteq> dom (heap rt2) \<and> edges rt2 \<subseteq> edges rt \<and>
    gc_classes rt2 = gc_classes rt \<and> gc_may rt2 = gc_may rt"
proof -
  obtain i where i: "gc_sweep rt = Some i" "swept rt R i" and g: "gc_gray rt = []" using inv p by (auto simp: phase_inv_def)
  obtain i' freed' rt' where l: "sweep_loop mem n i 0 rt = (i', freed', rt')" by (metis prod_cases3)
  note k = sweep_loop_ok [OF wf p g i(2) R l]
  show ?thesis
  proof (cases "length (gc_traced rt') \<le> i'")
    case True
    then have rt2: "rt2 = rt'\<lparr>phase := GcIdle, gc_sweep := None, gc_alloc_bytes := 0\<rparr>"
      using s l i(1) by (simp add: sweep_part_def)
    have "white rt' a" if "a \<in> dom (heap rt')" for a
    proof -
      have "a \<in> set (gc_traced rt')" using k that by (simp add: gc_wf_def)
      then obtain j where "j < length (gc_traced rt')" "gc_traced rt' ! j = a" by (meson in_set_conv_nth)
      moreover have "swept rt' R i'" using k by blast
      ultimately show ?thesis using True by (auto simp: swept_def)
    qed
    then show ?thesis using k by (simp add: rt2 phase_inv_def all_white_def)
  next
    case False
    then have rt2: "rt2 = rt'\<lparr>gc_sweep := Some i'\<rparr>" using s l i(1) by (simp add: sweep_part_def)
    have "swept rt2 R i'" using k by (simp add: rt2 swept_def)
    then show ?thesis using k by (simp add: rt2 phase_inv_def)
  qed
qed

end
