(* ===== verification/GcSteps.thy ===== *)
theory GcSteps
  imports GcSafety
begin

section \<open>Slices and the start of a cycle\<close>

lemma swept_mono:
  assumes "swept rt R i" and "R' \<subseteq> R"
  shows "swept rt R' i"
  unfolding swept_def
proof (intro conjI allI impI)
  show "i \<le> length (gc_traced rt)" using assms by (simp add: swept_def)
  fix j assume "j < length (gc_traced rt)"
  then have "if j < i then white rt (gc_traced rt ! j) else gc_traced rt ! j \<in> R \<longrightarrow> \<not> white rt (gc_traced rt ! j)"
    using assms(1) by (simp add: swept_def)
  then show "if j < i then white rt (gc_traced rt ! j) else gc_traced rt ! j \<in> R' \<longrightarrow> \<not> white rt (gc_traced rt ! j)"
    using assms(2) by (cases "j < i") auto
qed

lemma phase_inv_mono: "phase_inv rt R \<Longrightarrow> R' \<subseteq> R \<Longrightarrow> phase_inv rt R'"
  unfolding phase_inv_def by (cases "phase rt") (auto intro: swept_mono)

lemma same_tables:
  assumes "gc_classes rt' = gc_classes rt" and "gc_may rt' = gc_may rt"
  shows "traceable rt' = traceable rt" and "root_refs rt' = root_refs rt" and "obj_refs rt' = obj_refs rt"
    and "obj_traceable rt' = obj_traceable rt" and "class_may_gcref rt' = class_may_gcref rt"
proof -
  show m: "class_may_gcref rt' = class_may_gcref rt" using assms by (simp add: class_may_gcref_def fun_eq_iff split: option.split)
  show "root_refs rt' = root_refs rt" and o: "obj_refs rt' = obj_refs rt" using assms by (simp_all add: root_refs_def obj_refs_def fun_eq_iff)
  show "traceable rt' = traceable rt" "obj_traceable rt' = obj_traceable rt"
    by (rule ext, simp add: traceable_def obj_traceable_def m o assms)+
qed

text \<open>A step that keeps the roots and adds no edge.\<close>

lemma inv_shrink:
  assumes inv: "gc_inv rt rs" and t: "gc_classes rt' = gc_classes rt" "gc_may rt' = gc_may rt"
    and e: "edges rt' \<subseteq> edges rt" and wf: "gc_wf rt'" and p: "phase_inv rt' (reach rt rs)"
    and d: "reach rt rs \<subseteq> dom (heap rt')"
  shows "gc_inv rt' rs"
proof -
  have "reach rt' rs \<subseteq> reach rt rs"
    by (rule reach_sub) (use e reach_edge reach_root same_tables [OF t] in auto)
  then show ?thesis using assms same_tables [OF t] phase_inv_mono by (auto simp: gc_inv_def)
qed

lemma slice_inv:
  assumes inv: "gc_inv rt rs" and n: "n \<le> 64"
  shows "gc_inv (snd (wo_gc_slice mem n rt)) rs"
proof (cases "phase rt = GcIdle")
  case True
  then show ?thesis using inv by (simp add: wo_gc_slice_def)
next
  case False
  let ?R = "reach rt rs"
  have i: "gc_wf rt" "phase_inv rt ?R" "?R \<subseteq> dom (heap rt)" using inv by (simp_all add: gc_inv_def)
  define rt1 where "rt1 = (if phase rt = GcMark then mark_part mem n rt else rt)"
  have 1: "gc_wf rt1 \<and> edges rt1 = edges rt \<and> phase_inv rt1 ?R \<and> phase rt1 \<noteq> GcIdle \<and>
      gc_classes rt1 = gc_classes rt \<and> gc_may rt1 = gc_may rt \<and> dom (heap rt1) = dom (heap rt)"
  proof (cases "phase rt = GcMark")
    case True
    show ?thesis unfolding rt1_def using True mark_part_ok [OF i(1) True i(2) n i(3)] by simp
  qed (use i False in \<open>simp add: rt1_def\<close>)
  show ?thesis
  proof (cases "phase rt1 = GcSweep")
    case True
    obtain fr rt2 where s: "sweep_part mem n rt1 = (fr, rt2)" by force
    have "snd (wo_gc_slice mem n rt) = rt2" using False True s by (simp add: wo_gc_slice_def rt1_def)
    moreover have "gc_wf rt2 \<and> phase_inv rt2 ?R \<and> ?R \<subseteq> dom (heap rt2) \<and> edges rt2 \<subseteq> edges rt1 \<and>
        gc_classes rt2 = gc_classes rt1 \<and> gc_may rt2 = gc_may rt1"
      using 1 True i(3) by (intro sweep_part_ok [OF _ _ _ _ s]) simp_all
    ultimately show ?thesis using 1 by (intro inv_shrink [OF inv]) simp_all
  next
    case ns: False
    have "snd (wo_gc_slice mem n rt) = rt1" using False ns by (simp add: wo_gc_slice_def rt1_def)
    then show ?thesis using 1 i(3) by (intro inv_shrink [OF inv]) simp_all
  qed
qed

lemma roots_fold:
  "vm_gc_roots mem rs rt = fold (wo_gc_shade mem) (concat (map (ptr_refs (class_may_gcref rt) (gc_classes rt)) rs)) rt"
proof (induction rs arbitrary: rt)
  case (Cons v rs)
  let ?rt = "wo_gc_scan_root mem v rt"
  have "same_graph rt ?rt" unfolding scan_refs(1) by (rule fold_shade_graph)
  note s = same_graph_simps [OF this]
  have "vm_gc_roots mem (v # rs) rt = vm_gc_roots mem rs ?rt" by (simp add: vm_gc_roots_def)
  then show ?case using Cons [of ?rt] s by (simp add: scan_refs(1))
qed (simp add: vm_gc_roots_def)

lemma begin_inv:
  assumes inv: "gc_inv rt rs" and p: "phase rt = GcIdle"
  shows "gc_inv (vm_gc_roots mem rs (wo_gc_begin rt)) rs"
proof -
  let ?R = "reach rt rs"
  define rt0 where "rt0 = wo_gc_begin rt"
  define rt1 where "rt1 = vm_gc_roots mem rs rt0"
  have i: "gc_wf rt" "all_white rt" "gc_sweep rt = None" "?R \<subseteq> dom (heap rt)" "\<forall>v\<in>set rs. traceable rt v"
    using inv p by (auto simp: gc_inv_def phase_inv_def)
  have t0: "gc_classes rt0 = gc_classes rt" "gc_may rt0 = gc_may rt" "heap rt0 = heap rt" "gc_gray rt0 = []" "phase rt0 = GcMark"
    "gc_sweep rt0 = None" using i(3) by (simp_all add: rt0_def wo_gc_begin_def)
  note st = same_tables [OF t0(1,2)]
  have e0: "edges rt0 = edges rt" using t0(3) st(3) by (simp add: edges_def)
  have w0: "white rt0 = white rt" using t0(3) by (simp add: white_def fun_eq_iff)
  have wf0: "gc_wf rt0" using i(1) by (simp add: rt0_def wo_gc_begin_def) (simp add: gc_wf_def capped_def)
  have s: "shades rt0 rt1" and nw: "\<forall>a\<in>set (concat (map (ptr_refs (class_may_gcref rt0) (gc_classes rt0)) rs)). \<not> white rt1 a"
    unfolding rt1_def roots_fold using fold_shade by blast+
  have sg: "same_graph rt0 rt1" using s by (simp add: shades_def)
  have cap: "capped rt1" "grays_ok rt1" using s wf0 t0(4) by (auto simp: shades_def gc_wf_def grays_ok_def)
  have kept1: "kept rt1 {} a" if a: "a \<in> ?R" and no: "\<not> gc_oom rt1" for a
  proof -
    obtain r where r: "r \<in> root_refs rt rs" and pth: "(r, a) \<in> (edges rt)\<^sup>*" using a by (auto simp: reach_def)
    from pth have "(r, a) \<in> (white_edges rt0)\<^sup>*"
    proof (induction rule: rtrancl_induct)
      case (step y z)
      have "z \<in> ?R" using r step(1,2) unfolding reach_def by (blast intro: rtrancl_into_rtrancl)
      then have "white rt0 z" using i(2,4) w0 by (auto simp: all_white_def)
      then have "(y, z) \<in> white_edges rt0" using step(2) e0 by (simp add: white_edges_def)
      then show ?case using step(3) by (rule rtrancl_into_rtrancl [rotated])
    qed simp
    then have "kept rt0 {r} a" by (auto simp: kept_def)
    then have k: "kept rt1 {r} a" by (rule shades_kept [OF s no])
    have "\<exists>v\<in>set rs. r \<in> set (ptr_refs (class_may_gcref rt0) (gc_classes rt0) v)"
      using r i(5) st(5) t0(1) unfolding root_refs_def traceable_def by fastforce
    then have "\<not> white rt1 r" using nw by auto
    moreover have "white rt0 r" using r i(2,4) w0 reach_root [OF r] by (auto simp: all_white_def)
    ultimately have "r \<in> set (gc_gray rt1)" using s no unfolding shades_def by blast
    then show ?thesis using k by (auto simp: kept_def)
  qed
  have "gc_wf rt1" by (rule same_graph_wf [OF sg wf0 cap(1)])
  moreover have "phase_inv rt1 ?R"
    using kept1 cap(2) same_graph_simps [OF sg] t0 by (auto simp: phase_inv_def)
  ultimately have "gc_inv rt1 rs"
    using inv i(4) same_graph_edges [OF sg] e0 same_graph_simps [OF sg] t0 same_graph_dom [OF sg]
    by (intro inv_shrink [OF inv]) simp_all
  then show ?thesis by (simp add: rt1_def rt0_def)
qed

lemma safepoint_inv:
  assumes inv: "gc_inv rt rs"
  shows "gc_inv (vm_gc_safepoint mem rs rt) rs"
proof -
  define rt1 where "rt1 = (if wo_gc_want_start rt then vm_gc_roots mem rs (wo_gc_begin rt) else rt)"
  have 1: "gc_inv rt1 rs" using begin_inv [OF inv] inv by (simp add: rt1_def wo_gc_want_start_def)
  then have "gc_budget rt1 \<le> 64" by (simp add: gc_inv_def gc_wf_def)
  then show ?thesis using slice_inv [OF 1] 1 by (simp add: vm_gc_safepoint_def rt1_def [symmetric])
qed

section \<open>The program's steps\<close>

text \<open>The deletion barrier for the gcrefs \<open>ds\<close>, what a drop or a \<open>SETF\<close> does before the edges go.\<close>

definition barrier :: "mem \<Rightarrow> u64 list \<Rightarrow> gc_rt \<Rightarrow> gc_rt" where
  "barrier mem ds rt = (if phase rt = GcMark then fold (wo_gc_shade mem) ds rt else rt)"

definition put_field :: "u64 \<Rightarrow> nat \<Rightarrow> vmval \<Rightarrow> gc_rt \<Rightarrow> gc_rt" where
  "put_field a i v rt = rt\<lparr>heap := (heap rt)(a := map_option (\<lambda>o1. o1\<lparr>ofields := (ofields o1)[i := v]\<rparr>) (heap rt a))\<rparr>"

text \<open>
  The program between and at its safepoints. \<open>regs\<close>: values are loaded from what the roots hold or
  point to, copied, dropped or forgotten. \<open>put\<close>: a field of a traced object is written, also a
  container in it changed; what goes away has passed the barrier. \<open>take\<close>: \<open>POP\<close> and \<open>SHIFT\<close> move a value
  out of a container in a field to a register, without the barrier. \<open>new\<close>: an instance of a traced
  class. \<open>safepoint\<close>: the collector.

  Three of these the collector does not survive (shown in \<open>GcProps\<close>): births while the sweep is past the
  head of the list, values taken out of a container, and values in which the walk of the roots or of an
  object misses a gcref. The relation has the set of those it admits as a parameter: \<open>UNIV\<close> gives every
  step of the program.
\<close>

datatype hazard = BornBehind | TakenOut | HiddenRef

inductive gc_step :: "hazard set \<Rightarrow> gc_rt \<Rightarrow> vmval list \<Rightarrow> gc_rt \<Rightarrow> vmval list \<Rightarrow> bool" for H where
  regs: "root_refs rt rs' \<subseteq> root_refs rt rs \<union> edges rt `` root_refs rt rs \<Longrightarrow>
     HiddenRef \<in> H \<or> (\<forall>v\<in>set rs'. traceable rt v) \<Longrightarrow>
     gc_step H rt rs (barrier mem ds rt) rs'"
| put: "heap rt a = Some o1 \<Longrightarrow>
     HiddenRef \<in> H \<or> obj_traceable rt (o1\<lparr>ofields := (ofields o1)[i := v]\<rparr>) \<Longrightarrow>
     set (obj_refs rt (o1\<lparr>ofields := (ofields o1)[i := v]\<rparr>)) \<subseteq> {0} \<union> set (obj_refs rt o1) \<union> root_refs rt rs \<Longrightarrow>
     set (obj_refs rt o1) \<subseteq> set ds \<union> set (obj_refs rt (o1\<lparr>ofields := (ofields o1)[i := v]\<rparr>)) \<Longrightarrow>
     gc_step H rt rs (put_field a i v (barrier mem ds rt)) rs"
| take: "TakenOut \<in> H \<Longrightarrow> heap rt a = Some o1 \<Longrightarrow>
     HiddenRef \<in> H \<or> obj_traceable rt (o1\<lparr>ofields := (ofields o1)[i := v]\<rparr>) \<and> traceable rt w \<Longrightarrow>
     set (obj_refs rt o1) = set (obj_refs rt (o1\<lparr>ofields := (ofields o1)[i := v]\<rparr>)) \<union> set (refs rt w) \<Longrightarrow>
     gc_step H rt rs (put_field a i v rt) (w # rs)"
| new: "heap rt a = None \<Longrightarrow> a \<noteq> 0 \<Longrightarrow> BornBehind \<in> H \<or> gc_sweep rt \<in> {None, Some 0} \<Longrightarrow>
     wo_obj_new (Some a) cid rt = Some (a, rt') \<Longrightarrow>
     gc_step H rt rs rt' (VWord a # rs)"
| safepoint: "gc_step H rt rs (vm_gc_safepoint mem rs rt) rs"

inductive gc_run :: "hazard set \<Rightarrow> gc_rt \<Rightarrow> vmval list \<Rightarrow> gc_rt \<Rightarrow> vmval list \<Rightarrow> bool" for H where
  start: "gc_run H rt rs rt rs"
| step: "gc_run H rt rs rt1 rs1 \<Longrightarrow> gc_step H rt1 rs1 rt2 rs2 \<Longrightarrow> gc_run H rt rs rt2 rs2"

lemma inv_shades:
  assumes inv: "gc_inv rt rs" and s: "shades rt rt'" and p: "phase rt = GcMark"
  shows "gc_inv rt' rs"
proof -
  have sg: "same_graph rt rt'" using s by (simp add: shades_def)
  have i: "gc_wf rt" "gc_sweep rt = None" "grays_ok rt" "gc_oom rt \<or> (\<forall>a\<in>reach rt rs. kept rt {} a)"
    "reach rt rs \<subseteq> dom (heap rt)"
    using inv p by (auto simp: gc_inv_def phase_inv_def)
  have c: "capped rt'" "grays_ok rt'" using s i by (auto simp: shades_def gc_wf_def)
  have "gc_oom rt' \<or> (\<forall>a\<in>reach rt rs. kept rt' {} a)"
  proof (cases "gc_oom rt'")
    case False
    then have "\<not> gc_oom rt" using s by (simp add: shades_def)
    then show ?thesis using i(4) shades_kept [OF s False] by blast
  qed simp
  then have "phase_inv rt' (reach rt rs)" using same_graph_simps [OF sg] p i(2) c by (simp add: phase_inv_def)
  then show ?thesis
    using same_graph_simps [OF sg] same_graph_edges [OF sg] same_graph_dom [OF sg] i(5) same_graph_wf [OF sg i(1) c(1)]
    by (intro inv_shrink [OF inv]) simp_all
qed

lemma barrier_inv:
  assumes "gc_inv rt rs"
  shows "gc_inv (barrier mem ds rt) rs" and "same_graph rt (barrier mem ds rt)"
  using inv_shades [OF assms] assms fold_shade fold_shade_graph by (auto simp: barrier_def)

lemma roots_inv:
  assumes inv: "gc_inv rt rs" and r: "root_refs rt rs' \<subseteq> reach rt rs" and t: "\<forall>v\<in>set rs'. traceable rt v"
  shows "gc_inv rt rs'"
proof -
  have "reach rt rs' \<subseteq> reach rt rs" by (rule reach_sub) (use r reach_edge in auto)
  then show ?thesis using inv t phase_inv_mono by (auto simp: gc_inv_def)
qed

lemma put_inv:
  assumes inv: "gc_inv rt rs" and o1: "heap rt a = Some o1"
    and t: "obj_traceable rt (o1\<lparr>ofields := (ofields o1)[i := v]\<rparr>)"
    and new: "set (obj_refs rt (o1\<lparr>ofields := (ofields o1)[i := v]\<rparr>)) \<subseteq> {0} \<union> set (obj_refs rt o1) \<union> root_refs rt rs"
    and lost: "set (obj_refs rt o1) \<subseteq> set ds \<union> set (obj_refs rt (o1\<lparr>ofields := (ofields o1)[i := v]\<rparr>))"
  shows "gc_inv (put_field a i v (barrier mem ds rt)) rs"
proof -
  let ?n1 = "o1\<lparr>ofields := (ofields o1)[i := v]\<rparr>"
  define rt1 where "rt1 = barrier mem ds rt"
  define rt2 where "rt2 = put_field a i v rt1"
  let ?R = "reach rt rs"
  have i1: "gc_inv rt1 rs" and sg: "same_graph rt rt1" using barrier_inv [OF inv] by (simp_all add: rt1_def)
  note s = same_graph_simps [OF sg]
  have R1: "reach rt1 rs = ?R" by (rule same_graph_reach [OF sg])
  obtain o2 where o2: "heap rt1 a = Some o2" "ocls o2 = ocls o1" "ofields o2 = ofields o1"
    using same_graph_Some [OF sg o1] by blast
  let ?n2 = "o2\<lparr>ofields := (ofields o2)[i := v]\<rparr>"
  have h2: "heap rt2 = (heap rt1)(a \<mapsto> ?n2)" using o2 by (simp add: rt2_def put_field_def)
  have t2: "gc_classes rt2 = gc_classes rt" "gc_may rt2 = gc_may rt" using s by (simp_all add: rt2_def put_field_def)
  note st = same_tables [OF t2] and st1 = same_tables [OF s(6,5)]
  have r2: "obj_refs rt ?n2 = obj_refs rt ?n1" "obj_traceable rt ?n2 = obj_traceable rt ?n1"
    using o2 by (simp_all add: obj_refs_def obj_traceable_def)
  have e1: "edges rt1 = edges rt" by (rule same_graph_edges [OF sg])
  have e2: "(x, b) \<in> edges rt2 \<longleftrightarrow> (if x = a then b \<in> set (obj_refs rt ?n1) \<and> b \<noteq> 0 else (x, b) \<in> edges rt)" for x b
    unfolding e1 [symmetric] by (simp add: edges_def h2 st(3) st1(3) r2)
  have w2: "white rt2 = white rt1" using o2(1) by (auto simp: white_def h2 fun_eq_iff)
  have d2: "dom (heap rt2) = dom (heap rt1)" using o2(1) by (auto simp: h2)
  have same: "gc_traced rt2 = gc_traced rt1" "phase rt2 = phase rt1" "gc_sweep rt2 = gc_sweep rt1" "gc_gray rt2 = gc_gray rt1"
    "gc_oom rt2 = gc_oom rt1" "gc_budget rt2 = gc_budget rt1" "gc_cap rt2 = gc_cap rt1"
    by (simp_all add: rt2_def put_field_def)
  have w1: "gc_wf rt1" using i1 by (simp add: gc_inv_def)
  have wf2: "gc_wf rt2"
    using w1 same d2 o2(1) t r2 st(4) st1(4) by (auto simp: gc_wf_def capped_def h2 split: if_splits)
  have sub: "reach rt2 rs \<subseteq> ?R"
  proof (rule reach_sub)
    show "x \<in> ?R" if "x \<in> root_refs rt2 rs" for x using that reach_root st(2) by auto
    fix x b assume x: "x \<in> ?R" and e: "(x, b) \<in> edges rt2"
    have "(x, b) \<in> edges rt \<or> b \<in> root_refs rt rs"
      using e new o1 by (cases "x = a") (auto simp: e2, auto simp: edges_def)
    then show "b \<in> ?R" using x reach_edge reach_root by blast
  qed
  have W: "white_edges rt1 \<subseteq> white_edges rt2" if p: "phase rt = GcMark"
  proof clarify
    fix x b assume e: "(x, b) \<in> white_edges rt1"
    then have b: "(x, b) \<in> edges rt" "white rt1 b" using e1 by (simp_all add: white_edges_def)
    have "b \<notin> set ds" using b(2) p fold_shade [of rt mem ds] by (auto simp: rt1_def barrier_def)
    then have "(x, b) \<in> edges rt2" using b(1) lost o1 by (cases "x = a") (auto simp: e2, auto simp: edges_def)
    then show "(x, b) \<in> white_edges rt2" using b(2) w2 by (simp add: white_edges_def)
  qed
  have "phase_inv rt2 ?R"
  proof (cases "phase rt")
    case GcMark
    have "kept rt2 {} x" if "kept rt1 {} x" for x
      using that rtrancl_mono [OF W [OF GcMark]] w2 same by (auto simp: kept_def)
    then show ?thesis using i1 GcMark s same w2 d2 R1
      by (auto simp: gc_inv_def phase_inv_def grays_ok_def h2)
  next
    case GcIdle
    then show ?thesis using i1 s same w2 d2 by (simp add: gc_inv_def phase_inv_def all_white_def)
  next
    case GcSweep
    have "swept rt2 ?R j = swept rt1 ?R j" for j by (simp only: swept_def same(1) w2)
    then show ?thesis using i1 GcSweep s same R1 by (simp add: gc_inv_def phase_inv_def)
  qed
  moreover have "?R \<subseteq> dom (heap rt2)" using i1 R1 d2 by (simp add: gc_inv_def)
  ultimately have "gc_inv rt2 rs"
    using inv wf2 sub st phase_inv_mono by (auto simp: gc_inv_def)
  then show ?thesis by (simp add: rt2_def rt1_def)
qed

lemma zero_refs: "set (fields_refs (\<lambda>cid. True) cs ks (map zero_field ks)) = {}"
  by (induction ks) (auto simp: zero_field_def ptr_kind_def)

lemma new_inv:
  assumes inv: "gc_inv rt rs" and fr: "heap rt a = None" "a \<noteq> 0" and sw: "gc_sweep rt \<in> {None, Some 0}"
    and n: "wo_obj_new (Some a) cid rt = Some (a, rt')"
  shows "gc_inv rt' (VWord a # rs)"
proof -
  let ?R = "reach rt rs"
  let ?c = "if phase rt \<noteq> GcIdle then Black else White"
  let ?o = "\<lparr>ocls = cid, ofields = map zero_field (kinds (gc_classes rt ! cid)), ocolor = ?c\<rparr>"
  have h: "heap rt' = (heap rt)(a \<mapsto> ?o)" and tr: "gc_traced rt' = a # gc_traced rt" and g: "gc_gray rt' = gc_gray rt"
    and same: "phase rt' = phase rt" "gc_oom rt' = gc_oom rt" "gc_budget rt' = gc_budget rt" "gc_cap rt' = gc_cap rt"
    and sw': "gc_sweep rt' = gc_sweep rt" and t: "gc_classes rt' = gc_classes rt" "gc_may rt' = gc_may rt"
    using n sw by (auto simp: wo_obj_new_def wo_gc_track_def Let_def)
  note st = same_tables [OF t]
  have ro: "set (obj_refs rt ?o) = {}" by (simp add: obj_refs_def zero_refs)
  have "(x, b) \<in> edges rt' \<longleftrightarrow> (x, b) \<in> edges rt" for x b
    using fr(1) ro by (cases "x = a") (simp_all add: edges_def h st(3))
  then have e: "edges rt' = edges rt" by auto
  have i: "gc_wf rt" "\<forall>v\<in>set rs. traceable rt v" "?R \<subseteq> dom (heap rt)" "phase_inv rt ?R" using inv by (simp_all add: gc_inv_def)
  have d: "dom (heap rt') = insert a (dom (heap rt))" by (auto simp: h)
  have w: "white rt' x \<longleftrightarrow> (if x = a then phase rt = GcIdle else white rt x)" for x by (auto simp: white_def h)
  have "traceable rt (zero_field k)" if "ptr_kind k" for k
    using that by (auto simp: zero_field_def ptr_kind_def traceable_def)
  then have "obj_traceable rt ?o" by (auto simp: obj_traceable_def zip_map2 zip_same_conv_map)
  then have wf: "gc_wf rt'"
    using i(1) fr same tr d g st(4) by (auto simp: gc_wf_def capped_def h simp del: zip_map2)
  have sub: "reach rt' (VWord a # rs) \<subseteq> insert a ?R"
  proof (rule reach_sub)
    show "x \<in> insert a ?R" if "x \<in> root_refs rt' (VWord a # rs)" for x
      using that reach_root [of x rt rs] unfolding st(2) by (auto simp: root_refs_def)
    show "b \<in> insert a ?R" if "x \<in> insert a ?R" "(x, b) \<in> edges rt'" for x b
      using that reach_edge [of x rt rs b] fr(1) unfolding e by (auto simp: edges_def)
  qed
  have aR: "a \<notin> ?R" using i(3) fr(1) by auto
  have at: "a \<notin> set (gc_traced rt)" using i(1) fr(1) by (auto simp: gc_wf_def)
  have "phase_inv rt' (insert a ?R)"
  proof (cases "phase rt")
    case GcIdle
    then show ?thesis using i(4) same sw' d w by (auto simp: phase_inv_def all_white_def)
  next
    case GcMark
    have "white_edges rt \<subseteq> white_edges rt'" using e w fr(1) by (auto simp: white_edges_def white_def)
    then have k: "kept rt' {} x" if "kept rt {} x" for x
      using that rtrancl_mono [of "white_edges rt" "white_edges rt'"] w g GcMark by (auto simp: kept_def)
    moreover have "kept rt' {} a" using w GcMark by (simp add: kept_def)
    ultimately show ?thesis using i(4) GcMark same sw' g w fr(1) by (auto simp: phase_inv_def grays_ok_def h)
  next
    case GcSweep
    then obtain n where "gc_sweep rt = Some n" "swept rt ?R n" "gc_gray rt = []" using i(4) by (auto simp: phase_inv_def)
    then have z: "swept rt ?R 0" "gc_sweep rt = Some 0" using sw by auto
    have "swept rt' (insert a ?R) 0"
      unfolding swept_def tr
    proof (intro conjI allI impI)
      fix j assume "j < length (a # gc_traced rt)"
      then show "if j < 0 then white rt' ((a # gc_traced rt) ! j)
          else (a # gc_traced rt) ! j \<in> insert a ?R \<longrightarrow> \<not> white rt' ((a # gc_traced rt) ! j)"
        using z(1) w GcSweep at nth_mem by (cases j) (auto simp: swept_def)
    qed simp
    then show ?thesis using GcSweep same sw' z(2) g \<open>gc_gray rt = []\<close> by (simp add: phase_inv_def)
  qed
  moreover have "traceable rt' (VWord a)" by (simp add: traceable_def)
  ultimately show ?thesis using wf sub i d st(1) phase_inv_mono by (auto simp: gc_inv_def)
qed

lemma step_inv:
  assumes "gc_step {} rt rs rt' rs'" and "gc_inv rt rs"
  shows "gc_inv rt' rs'"
  using assms
proof (induction rule: gc_step.induct)
  case (regs rt rs' rs mem ds)
  have r: "root_refs rt rs' \<subseteq> reach rt rs" using regs(1) reach_root reach_edge by blast
  have sg: "same_graph rt (barrier mem ds rt)" by (rule barrier_inv(2) [OF regs(3)])
  have "root_refs (barrier mem ds rt) rs' \<subseteq> reach (barrier mem ds rt) rs"
    using r same_graph_reach [OF sg] same_graph_simps [OF sg] by (simp add: root_refs_def)
  moreover have "\<forall>v\<in>set rs'. traceable (barrier mem ds rt) v" using regs(2) same_graph_traceable [OF sg] by simp
  ultimately show ?case by (rule roots_inv [OF barrier_inv(1) [OF regs(3)]])
next
  case (put rt a o1 i v rs ds mem)
  then have t: "obj_traceable rt (o1\<lparr>ofields := (ofields o1)[i := v]\<rparr>)" by simp
  show ?case by (rule put_inv [OF put(5,1) t put(3,4)])
next
  case (new rt a cid rt' rs)
  then have b: "gc_sweep rt \<in> {None, Some 0}" by simp
  show ?case by (rule new_inv [OF new(5,1,2) b new(4)])
next
  case (safepoint rt rs mem)
  show ?case by (rule safepoint_inv [OF safepoint])
qed simp

lemma run_inv: "gc_run {} rt rs rt' rs' \<Longrightarrow> gc_inv rt rs \<Longrightarrow> gc_inv rt' rs'"
  by (induction rule: gc_run.induct) (auto intro: step_inv)

end
