(* ===== verification/GcStores.thy ===== *)
theory GcStores
  imports GcSteps
begin

text \<open>
  The stores of the interpreter are steps of the program the collector's invariant is proved for: a
  \<open>SETF\<close> of a gcref runs its own barrier (\<open>setf_drop\<close>), and a store into an owned field comes after
  the drop of the old value (\<open>drop_put_step\<close>).
\<close>

lemma fields_refs_iff:
  "length vs = length ks \<Longrightarrow>
     x \<in> set (fields_refs mc cs ks vs) \<longleftrightarrow> (\<exists>j<length ks. ptr_kind (ks ! j) \<and> x \<in> set (ptr_refs mc cs (vs ! j)))"
proof (induction ks arbitrary: vs)
  case (Cons k ks)
  then obtain v vs' where vs: "vs = v # vs'" "length vs' = length ks" by (cases vs) auto
  have "(\<exists>j<length (k # ks). ptr_kind ((k # ks) ! j) \<and> x \<in> set (ptr_refs mc cs ((v # vs') ! j))) \<longleftrightarrow>
      ptr_kind k \<and> x \<in> set (ptr_refs mc cs v) \<or> (\<exists>j<length ks. ptr_kind (ks ! j) \<and> x \<in> set (ptr_refs mc cs (vs' ! j)))"
    by (simp add: Ex_less_Suc2)
  then show ?case using Cons.IH [OF vs(2)] vs(1) by simp
qed simp

text \<open>The fields of a traced object match its class.\<close>

definition obj_shaped :: "gc_rt \<Rightarrow> gobj \<Rightarrow> bool" where
  "obj_shaped rt o1 \<longleftrightarrow> length (ofields o1) = length (kinds (gc_classes rt ! ocls o1)) \<and>
     (\<forall>j<length (ofields o1). shaped (gc_classes rt) (kinds (gc_classes rt ! ocls o1) ! j) (ofields o1 ! j))"

lemma put_refs:
  assumes o: "obj_shaped rt o1" and i: "i < length (ofields o1)"
  defines "k \<equiv> kinds (gc_classes rt ! ocls o1) ! i"
  shows "set (obj_refs rt (o1\<lparr>ofields := (ofields o1)[i := v]\<rparr>)) \<subseteq>
      set (obj_refs rt o1) \<union> set (kind_refs (gc_classes rt) k v)"
    and "set (obj_refs rt o1) \<subseteq> set (kind_refs (gc_classes rt) k (ofields o1 ! i)) \<union>
      set (obj_refs rt (o1\<lparr>ofields := (ofields o1)[i := v]\<rparr>))"
    and "obj_traceable rt o1 \<Longrightarrow> (ptr_kind k \<Longrightarrow> traceable rt v) \<Longrightarrow>
      obj_traceable rt (o1\<lparr>ofields := (ofields o1)[i := v]\<rparr>)"
proof -
  have len: "length (ofields o1) = length (kinds (gc_classes rt ! ocls o1))" using o by (simp add: obj_shaped_def)
  then have len': "length ((ofields o1)[i := v]) = length (kinds (gc_classes rt ! ocls o1))" by simp
  show "set (obj_refs rt (o1\<lparr>ofields := (ofields o1)[i := v]\<rparr>)) \<subseteq>
      set (obj_refs rt o1) \<union> set (kind_refs (gc_classes rt) k v)"
    using i len
    by (auto simp: obj_refs_def fields_refs_iff [OF len] fields_refs_iff [OF len'] kind_refs_def k_def nth_list_update split: if_splits)
  show "set (obj_refs rt o1) \<subseteq> set (kind_refs (gc_classes rt) k (ofields o1 ! i)) \<union>
      set (obj_refs rt (o1\<lparr>ofields := (ofields o1)[i := v]\<rparr>))"
    using i len
    by (auto simp: obj_refs_def fields_refs_iff [OF len] fields_refs_iff [OF len'] kind_refs_def k_def nth_list_update split: if_splits)
  assume t: "obj_traceable rt o1" and tv: "ptr_kind k \<Longrightarrow> traceable rt v"
  show "obj_traceable rt (o1\<lparr>ofields := (ofields o1)[i := v]\<rparr>)"
    using t tv i len by (auto simp: obj_traceable_def set_zip k_def nth_list_update split: if_splits)
qed

text \<open>Storing into a field after the old value was dropped: what the compiler emits for an owned
  field, and what \<open>SETF\<close> does itself for a gcref field.\<close>

lemma drop_put_step:
  assumes o1: "heap rt a = Some o1" and o: "obj_shaped rt o1" "obj_traceable rt o1" and i: "i < length (ofields o1)"
  defines "k \<equiv> kinds (gc_classes rt ! ocls o1) ! i"
  assumes v: "ptr_kind k \<Longrightarrow> traceable rt v \<and> set (refs rt v) \<subseteq> {0} \<union> root_refs rt rs"
  shows "gc_step H rt rs (put_field a i v (wo_drop_kind mem k (ofields o1 ! i) rt)) rs"
proof -
  let ?ds = "kind_refs (gc_classes rt) k (ofields o1 ! i)"
  have "shaped (gc_classes rt) k (ofields o1 ! i)" using o(1) i by (simp add: obj_shaped_def k_def)
  then have d: "wo_drop_kind mem k (ofields o1 ! i) rt = barrier mem ?ds rt"
    using drop_refs(1) drop_idle(1) by (simp add: barrier_def)
  note p = put_refs [OF o(1) i, of v]
  have "set (kind_refs (gc_classes rt) k v) \<subseteq> {0} \<union> root_refs rt rs" using v by (auto simp: kind_refs_def)
  then have new: "set (obj_refs rt (o1\<lparr>ofields := (ofields o1)[i := v]\<rparr>)) \<subseteq> {0} \<union> set (obj_refs rt o1) \<union> root_refs rt rs"
    using p(1) by (auto simp: k_def)
  have t: "obj_traceable rt (o1\<lparr>ofields := (ofields o1)[i := v]\<rparr>)" using p(3) o(2) v by (simp add: k_def)
  show ?thesis unfolding d by (rule gc_step.put [OF o1 disjI2 [OF t] new]) (use p(2) in \<open>simp add: k_def\<close>)
qed

lemma setf_drop:
  assumes o1: "heap rt a = Some o1" and o: "obj_shaped rt o1" and i: "i < length (ofields o1)"
    and k: "kinds (gc_classes rt ! ocls o1) ! i = KGcref"
  shows "vm_setf mem a i v rt = Some (put_field a i v (wo_drop_kind mem KGcref (ofields o1 ! i) rt))"
proof -
  have "shaped (gc_classes rt) KGcref (ofields o1 ! i)" using o i k unfolding obj_shaped_def by metis
  then show ?thesis using o1 i k
    by (cases "ofields o1 ! i") (auto simp: vm_setf_def put_field_def Let_def)
qed

end
