(* ===== verification/GcMay.thy ===== *)
theory GcMay
  imports GcSteps
begin

text \<open>
  The table of classes that may hold a gcref (\<open>compute_gc_may\<close> of \<open>obj.c\<close>): the loop ends, and for a
  value of its declared class, other than a map of gcrefs, the walk that the table prunes misses no gcref.
\<close>

section \<open>The fixpoint\<close>

lemma upd_True [simp]: "m ! d \<Longrightarrow> m[c := True] ! d"
  by (metis list_update_beyond not_le nth_list_update_eq nth_list_update_neq)

text \<open>A pass only sets entries; when it sets none the table is done.\<close>

lemma may_pass_step:
  assumes "length m = length cs"
  shows "length (may_pass cs m) = length m"
    and "\<forall>c<length m. m ! c \<longrightarrow> may_pass cs m ! c"
    and "may_pass cs m = m \<or> length (filter Not (may_pass cs m)) < length (filter Not m)"
proof -
  define stp where "stp m c = (if m ! c then m
     else if list_ex (field_may cs m (cs ! c)) [0..<field_cnt (cs ! c)] then m[c := True] else m)" for m c
  have one: "length (stp m c) = length m \<and> (\<forall>d<length m. m ! d \<longrightarrow> stp m c ! d) \<and>
      (stp m c = m \<or> length (filter Not (stp m c)) < length (filter Not m))" if "c < length m" for m c
  proof (cases "stp m c = m")
    case False
    then have s: "stp m c = m[c := True]" and f: "\<not> m ! c" by (auto simp: stp_def split: if_splits)
    have sp: "m = take c m @ m ! c # drop (Suc c) m" using that by (rule id_take_nth_drop)
    have "length (filter Not (m[c := True])) = length (filter Not (take c m)) + length (filter Not (drop (Suc c) m))"
      using that by (simp add: upd_conv_take_nth_drop)
    moreover have "length (filter Not m) = length (filter Not (take c m)) + Suc (length (filter Not (drop (Suc c) m)))"
      by (subst sp) (simp add: f)
    ultimately show ?thesis using s by (simp add: nth_list_update)
  qed simp
  have "\<forall>c\<in>set xs. c < length m \<Longrightarrow> length (foldl stp m xs) = length m \<and> (\<forall>d<length m. m ! d \<longrightarrow> foldl stp m xs ! d) \<and>
      (foldl stp m xs = m \<or> length (filter Not (foldl stp m xs)) < length (filter Not m))" for xs
  proof (induction xs arbitrary: m)
    case (Cons c xs)
    have c: "c < length m" using Cons.prems by simp
    note o = one [OF c]
    have "\<forall>d\<in>set xs. d < length (stp m c)" using Cons.prems o by simp
    from Cons.IH [OF this] o show ?case by auto
  qed simp
  from this [of "[0..<length cs]"] have "length (may_pass cs m) = length m \<and> (\<forall>c<length m. m ! c \<longrightarrow> may_pass cs m ! c) \<and>
      (may_pass cs m = m \<or> length (filter Not (may_pass cs m)) < length (filter Not m))"
    using assms unfolding may_pass_def stp_def by simp
  then show "length (may_pass cs m) = length m" and "\<forall>c<length m. m ! c \<longrightarrow> may_pass cs m ! c"
    and "may_pass cs m = m \<or> length (filter Not (may_pass cs m)) < length (filter Not m)" by blast+
qed

function may_fix :: "classes \<Rightarrow> bool list \<Rightarrow> bool list" where
  "may_fix cs m =
     (if length m \<noteq> length cs then m
      else let m' = may_pass cs m in if m' = m then m else may_fix cs m')"
  by pat_completeness auto

termination
  by (relation "measure (\<lambda>(cs, m). length (filter Not m))") (use may_pass_step(3) in fastforce)+

declare may_fix.simps [simp del]

definition compute_gc_may :: "mem \<Rightarrow> classes \<Rightarrow> bool list option" where
  "compute_gc_may mem cs =
     (if cs = [] \<or> \<not> mem AMay then None else Some (may_fix cs (replicate (length cs) False)))"

lemma may_fix_done: "length m = length cs \<Longrightarrow> length (may_fix cs m) = length cs \<and> may_pass cs (may_fix cs m) = may_fix cs m"
proof (induction cs m rule: may_fix.induct)
  case (1 cs m)
  show ?case
  proof (cases "may_pass cs m = m")
    case True
    then show ?thesis using 1(2) by (simp add: may_fix.simps [of cs m])
  next
    case False
    have "length (may_pass cs m) = length cs" using may_pass_step(1) 1(2) by simp
    then show ?thesis using 1 False by (simp add: may_fix.simps [of cs m] Let_def)
  qed
qed

text \<open>When a pass changes nothing, a class that may not hold a gcref has no field that may.\<close>

lemma may_pass_fixed:
  assumes l: "length m = length cs" and f: "may_pass cs m = m" and c: "c < length cs" "\<not> m ! c" and i: "i < field_cnt (cs ! c)"
  shows "\<not> field_may cs m (cs ! c) i"
proof
  assume fm: "field_may cs m (cs ! c) i"
  define stp where "stp m c = (if m ! c then m
     else if list_ex (field_may cs m (cs ! c)) [0..<field_cnt (cs ! c)] then m[c := True] else m)" for m c
  have mono: "length (stp x d) = length x \<and> (\<forall>e<length x. x ! e \<longrightarrow> stp x d ! e)" for x d
    by (auto simp: stp_def nth_list_update)
  have keep: "length (foldl stp x xs) = length x \<and> (\<forall>e<length x. x ! e \<longrightarrow> foldl stp x xs ! e)" for x xs
  proof (induction xs arbitrary: x)
    case (Cons d xs)
    then show ?case using mono [of x d] by (metis foldl_Cons)
  qed simp
  have sp: "[0..<length cs] = [0..<c] @ c # [Suc c..<length cs]" using c(1) upt_add_eq_append [of 0 c "length cs - c"] upt_conv_Cons [of c "length cs"] by simp
  let ?m1 = "foldl stp m [0..<c]"
  have m: "foldl stp (stp ?m1 c) [Suc c..<length cs] = m"
    using f unfolding may_pass_def stp_def [symmetric] sp by simp
  have l1: "length ?m1 = length m" using keep by blast
  have "?m1 = m"
  proof (rule nth_equalityI)
    show "length ?m1 = length m" by (rule l1)
    fix e assume e: "e < length ?m1"
    then have "?m1 ! e \<Longrightarrow> m ! e" using keep [of "stp ?m1 c" "[Suc c..<length cs]"] mono [of ?m1 c] unfolding m by simp
    moreover have "m ! e \<Longrightarrow> ?m1 ! e" using keep [of m "[0..<c]"] e l1 by simp
    ultimately show "?m1 ! e = m ! e" by blast
  qed
  moreover have "list_ex (field_may cs m (cs ! c)) [0..<field_cnt (cs ! c)]" using fm i by (auto simp: list_ex_iff)
  ultimately have "stp ?m1 c = m[c := True]" using c(2) by (simp add: stp_def)
  moreover have "m[c := True] ! c" using c(1) l by simp
  ultimately have "m ! c" using keep [of "m[c := True]" "[Suc c..<length cs]"] m c(1) l \<open>?m1 = m\<close> by (metis length_list_update)
  then show False using c(2) by simp
qed

section \<open>The table is right for values of their declared classes\<close>

text \<open>
  \<open>typed cs d v\<close>: a value as the compiler lets it be stored in a field of declaration \<open>d\<close>: its declared
  class, its element kinds and its kind. A container whose elements are of a declared class holds instances
  of that class or gcrefs, and a \<open>multi\<close> of gcrefs says so in its element kind. For a \<open>map\<close> of gcrefs of a
  declared class the table is wrong (\<open>hidden_lost\<close> and \<open>box_typed\<close> in \<open>GcProps\<close>): \<open>gcref_map cs d v\<close> says that there is one in the
  value.
\<close>

type_synonym decl = "nat option \<times> u32 option \<times> kind"

definition decls :: "classes \<Rightarrow> wo_classdesc \<Rightarrow> decl list" where
  "decls cs cd = map (\<lambda>i.
     (case field_class cd of None \<Rightarrow> None | Some fc \<Rightarrow> if unat (fc ! i) < length cs then Some (unat (fc ! i)) else None,
      map_option (\<lambda>fe. fe ! i) (field_elem cd), kinds cd ! i)) [0..<field_cnt cd]"

function (sequential) typed :: "classes \<Rightarrow> decl \<Rightarrow> vmval \<Rightarrow> bool"
and typed_all :: "classes \<Rightarrow> decl list \<Rightarrow> vmval list \<Rightarrow> bool" where
  "typed cs (dc, de, k) (VObj c vs) \<longleftrightarrow>
     k = KOwned \<and> c < length cs \<and> (dc = None \<or> dc = Some c) \<and> typed_all cs (decls cs (cs ! c)) vs"
| "typed cs (dc, de, k) (VMulti ek vs) \<longleftrightarrow>
     k = KMulti \<and> (dc = None \<or> ek = KOwned \<or> ek = KGcref \<and> de = Some (ucast (kind_byte KGcref))) \<and>
     typed_all cs (replicate (length vs) (dc, None, ek)) vs"
| "typed cs (dc, de, k) (VMap kk vk ks vs) \<longleftrightarrow>
     k = KMap \<and> \<not> ptr_kind kk \<and> length ks = length vs \<and>
     (dc = None \<or> vk = KOwned \<or> vk = KGcref) \<and> typed_all cs (replicate (length vs) (dc, None, vk)) vs"
| "typed cs (dc, de, k) (VWord a) \<longleftrightarrow> k = KGcref \<or> k = KScalar \<or> k = KFloat"
| "typed cs (dc, de, k) v \<longleftrightarrow> k \<noteq> KScalar \<and> k \<noteq> KFloat"
| "typed_all cs (d # ds) (v # vs) \<longleftrightarrow> typed cs d v \<and> typed_all cs ds vs"
| "typed_all cs ds vs \<longleftrightarrow> ds = [] \<and> vs = []"
  by pat_completeness auto

termination
  by (relation "measure (\<lambda>x. case x of Inl (_, _, v) \<Rightarrow> size v | Inr (_, _, vs) \<Rightarrow> size_list size vs)") auto

function (sequential) gcref_map :: "classes \<Rightarrow> decl \<Rightarrow> vmval \<Rightarrow> bool"
and gcref_map_in :: "classes \<Rightarrow> decl list \<Rightarrow> vmval list \<Rightarrow> bool" where
  "gcref_map cs (dc, de, k) (VObj c vs) \<longleftrightarrow> gcref_map_in cs (decls cs (cs ! c)) vs"
| "gcref_map cs (dc, de, k) (VMulti ek vs) \<longleftrightarrow> gcref_map_in cs (replicate (length vs) (dc, None, ek)) vs"
| "gcref_map cs (dc, de, k) (VMap kk vk ks vs) \<longleftrightarrow>
     dc \<noteq> None \<and> vk = KGcref \<or> gcref_map_in cs (replicate (length vs) (dc, None, vk)) vs"
| "gcref_map cs d v \<longleftrightarrow> False"
| "gcref_map_in cs (d # ds) (v # vs) \<longleftrightarrow> gcref_map cs d v \<or> gcref_map_in cs ds vs"
| "gcref_map_in cs ds vs \<longleftrightarrow> False"
  by pat_completeness auto

termination
  by (relation "measure (\<lambda>x. case x of Inl (_, _, v) \<Rightarrow> size v | Inr (_, _, vs) \<Rightarrow> size_list size vs)") auto

text \<open>The values for which the table is shown right.\<close>

function (sequential) ref_typed :: "classes \<Rightarrow> decl \<Rightarrow> vmval \<Rightarrow> bool"
and ref_typed_all :: "classes \<Rightarrow> decl list \<Rightarrow> vmval list \<Rightarrow> bool" where
  "ref_typed cs (dc, de, k) (VObj c vs) \<longleftrightarrow>
     k = KOwned \<and> c < length cs \<and> (dc = None \<or> dc = Some c) \<and> ref_typed_all cs (decls cs (cs ! c)) vs"
| "ref_typed cs (dc, de, k) (VMulti ek vs) \<longleftrightarrow>
     k = KMulti \<and> (dc = None \<or> ek = KOwned \<or> ek = KGcref \<and> de = Some (ucast (kind_byte KGcref))) \<and>
     ref_typed_all cs (replicate (length vs) (dc, None, ek)) vs"
| "ref_typed cs (dc, de, k) (VMap kk vk ks vs) \<longleftrightarrow>
     k = KMap \<and> \<not> ptr_kind kk \<and> length ks = length vs \<and>
     (dc = None \<or> vk = KOwned) \<and> ref_typed_all cs (replicate (length vs) (dc, None, vk)) vs"
| "ref_typed cs (dc, de, k) (VWord a) \<longleftrightarrow> k = KGcref \<or> k = KScalar \<or> k = KFloat"
| "ref_typed cs (dc, de, k) v \<longleftrightarrow> k \<noteq> KScalar \<and> k \<noteq> KFloat"
| "ref_typed_all cs (d # ds) (v # vs) \<longleftrightarrow> ref_typed cs d v \<and> ref_typed_all cs ds vs"
| "ref_typed_all cs ds vs \<longleftrightarrow> ds = [] \<and> vs = []"
  by pat_completeness auto

termination
  by (relation "measure (\<lambda>x. case x of Inl (_, _, v) \<Rightarrow> size v | Inr (_, _, vs) \<Rightarrow> size_list size vs)") auto

lemma typed_ref_typed:
  "typed cs d v \<Longrightarrow> \<not> gcref_map cs d v \<Longrightarrow> ref_typed cs d v"
  "typed_all cs ds vs \<Longrightarrow> \<not> gcref_map_in cs ds vs \<Longrightarrow> ref_typed_all cs ds vs"
  by (induction cs d v and cs ds vs rule: typed_typed_all.induct) auto

definition decl_may :: "bool list \<Rightarrow> decl \<Rightarrow> bool" where
  "decl_may m d \<longleftrightarrow>
     (case d of (dc, de, k) \<Rightarrow>
        k = KGcref \<or>
        (k = KOwned \<or> k = KMulti \<or> k = KMap) \<and>
        (k \<noteq> KOwned \<and> de = Some (ucast (kind_byte KGcref)) \<or> (case dc of None \<Rightarrow> True | Some c \<Rightarrow> m ! c)))"

lemma field_may_decl: "i < field_cnt cd \<Longrightarrow> field_may cs m cd i = decl_may m (decls cs cd ! i)"
  by (auto simp: field_may_def decl_may_def decls_def Let_def split: option.split)

lemma ref_typed_all_iff: "ref_typed_all cs ds vs = list_all2 (ref_typed cs) ds vs"
proof (induction ds arbitrary: vs)
  case Nil
  then show ?case by (cases vs) auto
next
  case (Cons d ds)
  then show ?case by (cases vs) auto
qed

lemma map_snd_decls [simp]: "map (\<lambda>d. snd (snd d)) (decls cs cd) = kinds cd"
  by (simp add: decls_def o_def map_nth)

lemma quiet_decls:
  assumes "length m = length cs" and "may_pass cs m = m" and "c < length cs" "\<not> m ! c"
  shows "\<forall>d\<in>set (decls cs (cs ! c)). \<not> decl_may m d"
proof
  fix d assume "d \<in> set (decls cs (cs ! c))"
  then obtain i where i: "i < length (decls cs (cs ! c))" "decls cs (cs ! c) ! i = d" by (meson in_set_conv_nth)
  then have l: "i < field_cnt (cs ! c)" by (simp add: decls_def)
  then have "\<not> field_may cs m (cs ! c) i" by (rule may_pass_fixed [OF assms])
  then show "\<not> decl_may m d" using field_may_decl [OF l] i(2) by simp
qed

lemma pairs_refs_vals:
  "\<not> ptr_kind kk \<Longrightarrow> length as = length vs \<Longrightarrow>
     pairs_refs mc cs kk vk as vs = fields_refs mc cs (replicate (length vs) vk) vs"
proof (induction as arbitrary: vs)
  case (Cons a as)
  then show ?case by (cases vs) auto
qed simp

lemma no_refs:
  "ref_typed cs d v \<Longrightarrow> length m = length cs \<Longrightarrow> may_pass cs m = m \<Longrightarrow> \<not> decl_may m d \<Longrightarrow> kind_refs cs (snd (snd d)) v = []"
  "ref_typed_all cs ds vs \<Longrightarrow> length m = length cs \<Longrightarrow> may_pass cs m = m \<Longrightarrow> \<forall>d\<in>set ds. \<not> decl_may m d \<Longrightarrow>
     fields_refs (\<lambda>c. True) cs (map (\<lambda>d. snd (snd d)) ds) vs = []"
proof (induction cs d v and cs ds vs rule: ref_typed_ref_typed_all.induct)
  case (1 cs dc de k c vs)
  obtain d where d: "dc = Some d" "\<not> m ! d" using 1(2,5) by (auto simp: decl_may_def split: option.splits)
  then have c: "c < length cs" "\<not> m ! c" "ref_typed_all cs (decls cs (cs ! c)) vs" using 1(2) by auto
  show ?case using 1(1) [OF c(3) 1(3,4) quiet_decls [OF 1(3,4) c(1,2)]] by (simp add: kind_refs_def)
next
  case (2 cs dc de k ek vs)
  obtain d where d: "dc = Some d" "\<not> m ! d" "de \<noteq> Some (ucast (kind_byte KGcref))"
    using 2(2,5) by (auto simp: decl_may_def split: option.splits)
  then have ek: "ek = KOwned" "ref_typed_all cs (replicate (length vs) (dc, None, ek)) vs" using 2(2) by auto
  have "\<forall>d\<in>set (replicate (length vs) (dc, None, ek)). \<not> decl_may m d" using d ek(1) by (simp add: decl_may_def)
  from 2(1) [OF ek(2) 2(3,4) this] show ?case by (simp add: kind_refs_def)
next
  case (3 cs dc de k kk vk ks vs)
  obtain d where d: "dc = Some d" "\<not> m ! d" using 3(2,5) by (auto simp: decl_may_def split: option.splits)
  then have vk: "vk = KOwned" "ref_typed_all cs (replicate (length vs) (dc, None, vk)) vs" "\<not> ptr_kind kk" "length ks = length vs"
    using 3(2) by auto
  have "\<forall>d\<in>set (replicate (length vs) (dc, None, vk)). \<not> decl_may m d" using d vk(1) by (simp add: decl_may_def)
  from 3(1) [OF vk(2) 3(3,4) this] show ?case by (simp add: kind_refs_def pairs_refs_vals [OF vk(3,4)])
next
  case (4 cs dc de k a)
  then show ?case by (auto simp: kind_refs_def ptr_kind_def decl_may_def)
next
  case (6 cs d ds v vs)
  then show ?case by (simp add: kind_refs_def)
qed (simp_all add: kind_refs_def)

text \<open>With the table, the walk misses no gcref of a typed value.\<close>

lemma typed_refs:
  "ref_typed cs d v \<Longrightarrow> length m = length cs \<Longrightarrow> may_pass cs m = m \<Longrightarrow> ptr_kind (snd (snd d)) \<Longrightarrow>
     ptr_refs (\<lambda>c. if length cs \<le> c then True else m ! c) cs v = ptr_refs (\<lambda>c. True) cs v"
  "ref_typed_all cs ds vs \<Longrightarrow> length m = length cs \<Longrightarrow> may_pass cs m = m \<Longrightarrow>
     fields_refs (\<lambda>c. if length cs \<le> c then True else m ! c) cs (map (\<lambda>d. snd (snd d)) ds) vs =
     fields_refs (\<lambda>c. True) cs (map (\<lambda>d. snd (snd d)) ds) vs"
proof (induction cs d v and cs ds vs rule: ref_typed_ref_typed_all.induct)
  case (1 cs dc de k c vs)
  then have c: "c < length cs" "ref_typed_all cs (decls cs (cs ! c)) vs" by auto
  show ?case
  proof (cases "m ! c")
    case True
    then show ?thesis using 1(1) [OF c(2) 1(3,4)] c(1) by simp
  next
    case False
    then show ?thesis using no_refs(2) [OF c(2) 1(3,4) quiet_decls [OF 1(3,4) c(1) False]] c(1) by simp
  qed
next
  case (2 cs dc de k ek vs)
  then show ?case by simp
next
  case (3 cs dc de k kk vk ks vs)
  then show ?case by (simp add: pairs_refs_vals)
qed simp_all

lemma table_traceable:
  assumes "compute_gc_may mem cs = Some m" and "gc_may rt = Some m" and "gc_classes rt = cs"
    and "typed cs d v" and "ptr_kind (snd (snd d))" and "\<not> gcref_map cs d v"
  shows "traceable rt v"
proof -
  have "m = may_fix cs (replicate (length cs) False)" using assms(1) by (simp add: compute_gc_may_def split: if_splits)
  then have m: "length m = length cs" "may_pass cs m = m" using may_fix_done [of "replicate (length cs) False" cs] by simp_all
  have "class_may_gcref rt = (\<lambda>c. if length cs \<le> c then True else m ! c)"
    using assms(2,3) by (simp add: class_may_gcref_def fun_eq_iff)
  then show ?thesis using typed_refs(1) [OF typed_ref_typed(1) [OF assms(4,6)] m assms(5)] assms(3) by (simp add: traceable_def)
qed

section \<open>The collector at boot\<close>

text \<open>The collector's part of \<open>wo_rt_init\<close>; the arguments are the values of \<open>WO_GC_BUDGET\<close> and
  \<open>WO_GC_GOAL\<close> when they are numbers.\<close>

definition wo_rt_init :: "mem \<Rightarrow> nat option \<Rightarrow> nat option \<Rightarrow> classes \<Rightarrow> gc_rt" where
  "wo_rt_init mem eb eg cs =
     \<lparr>heap = Map.empty, gc_traced = [], gc_gray = [], gc_cap = 0, gc_oom = False, phase = GcIdle, gc_sweep = None,
      gc_alloc_bytes = 0,
      gc_goal = (case eg of Some v \<Rightarrow> if 1 \<le> v then v else 256 * 1024 | None \<Rightarrow> 256 * 1024),
      gc_budget = (case eb of Some v \<Rightarrow> if 1 \<le> v \<and> v \<le> 1000000 then v else 64 | None \<Rightarrow> 64),
      gc_may = compute_gc_may mem cs, gc_classes = cs\<rparr>"

lemma init_inv: "gc_budget (wo_rt_init mem eb eg cs) \<le> 64 \<Longrightarrow> gc_inv (wo_rt_init mem eb eg cs) []"
  by (simp add: gc_inv_def gc_wf_def capped_def phase_inv_def reach_def root_refs_def)
    (simp add: wo_rt_init_def all_white_def)

lemma init_budget: "0 < gc_budget (wo_rt_init mem eb eg cs)"
  by (simp add: wo_rt_init_def split: option.split)

end
