(* ===== verification/GcCycle.thy ===== *)
theory GcCycle
  imports GcSteps
begin

text \<open>
  A cycle ends and frees the garbage: with memory for the worklist each slice of a positive budget
  makes progress (\<open>slice_cycle\<close>), and between the start of a cycle and its end, with no step of the
  program in between, exactly the reachable objects stay (\<open>slices_end\<close>, \<open>begin_cycle\<close>). The pump after
  the program's end therefore empties the list (\<open>pump_empties\<close>).
\<close>

section \<open>What is marked is reachable\<close>

text \<open>What is not white is in \<open>R\<close>; in the sweep what was passed is in \<open>R\<close>.\<close>

definition tight :: "gc_rt \<Rightarrow> u64 set \<Rightarrow> bool" where
  "tight rt R \<longleftrightarrow> (\<forall>a\<in>dom (heap rt). \<not> white rt a \<longrightarrow> a \<in> R)"

definition closed :: "gc_rt \<Rightarrow> u64 set \<Rightarrow> bool" where
  "closed rt R \<longleftrightarrow> (\<forall>(x, b)\<in>edges rt. x \<in> R \<longrightarrow> b \<in> R)"

definition passed :: "gc_rt \<Rightarrow> u64 set \<Rightarrow> nat \<Rightarrow> bool" where
  "passed rt R i \<longleftrightarrow> (\<forall>j<length (gc_traced rt). if j < i then gc_traced rt ! j \<in> R
     else \<not> white rt (gc_traced rt ! j) \<longrightarrow> gc_traced rt ! j \<in> R)"

definition whites :: "gc_rt \<Rightarrow> nat" where
  "whites rt = length (filter (white rt) (gc_traced rt))"

definition mark_todo :: "gc_rt \<Rightarrow> nat" where
  "mark_todo rt = 2 * whites rt + length (gc_gray rt)"

lemma ptr_refs_sub:
  "set (ptr_refs mc cs v) \<subseteq> set (ptr_refs (\<lambda>c. True) cs v)"
  "set (fields_refs mc cs ks vs) \<subseteq> set (fields_refs (\<lambda>c. True) cs ks vs)"
  "set (pairs_refs mc cs kk vk as bs) \<subseteq> set (pairs_refs (\<lambda>c. True) cs kk vk as bs)"
  by (induction mc cs v and mc cs ks vs and mc cs kk vk as bs rule: ptr_refs_fields_refs_pairs_refs.induct) auto

lemma filter_less:
  assumes "x \<in> set xs" and "P x" and "\<not> Q x" and "\<And>y. Q y \<Longrightarrow> P y"
  shows "length (filter Q xs) < length (filter P xs)"
proof -
  have le: "length (filter Q ys) \<le> length (filter P ys)" for ys by (induction ys) (use assms(4) in auto)
  obtain us vs where xs: "xs = us @ x # vs" using split_list [OF assms(1)] by blast
  show ?thesis using le [of us] le [of vs] assms(2,3) by (simp add: xs)
qed

lemma shade_todo:
  assumes tr: "set (gc_traced rt) = dom (heap rt)" and m: "mem AGray"
  shows "mark_todo (wo_gc_shade mem a rt) \<le> mark_todo rt" and "gc_oom (wo_gc_shade mem a rt) = gc_oom rt"
proof -
  have "mark_todo (wo_gc_shade mem a rt) \<le> mark_todo rt \<and> gc_oom (wo_gc_shade mem a rt) = gc_oom rt"
  proof (cases rule: shade_cases [of mem a rt])
    case full
    from full(1) obtain o1 where "heap rt a = Some o1" "ocolor o1 = White" by (auto simp: white_def)
    then have "gc_gray (wo_gc_shade mem a rt) = a # gc_gray rt" using full(2) m by (simp add: wo_gc_shade_def Let_def)
    then show ?thesis unfolding full(3) by simp
  next
    case grow
    have "a \<in> set (gc_traced rt)" using tr grow(1) by (auto simp: white_def)
    then have "whites (wo_gc_shade mem a rt) < whites rt"
      unfolding whites_def grow(3) by simp (rule filter_less [of a], use grow(1) in \<open>auto simp: white_set_color split: if_splits\<close>)
    then show ?thesis by (simp add: mark_todo_def grow(3))
  next
    case push
    have "a \<in> set (gc_traced rt)" using tr push(1) by (auto simp: white_def)
    then have "whites (wo_gc_shade mem a rt) < whites rt"
      unfolding whites_def push(3) by simp (rule filter_less [of a], use push(1) in \<open>auto simp: white_set_color split: if_splits\<close>)
    then show ?thesis by (simp add: mark_todo_def push(3))
  qed simp
  then show "mark_todo (wo_gc_shade mem a rt) \<le> mark_todo rt" and "gc_oom (wo_gc_shade mem a rt) = gc_oom rt" by blast+
qed

lemma fold_shade_todo:
  "set (gc_traced rt) = dom (heap rt) \<Longrightarrow> mem AGray \<Longrightarrow>
     mark_todo (fold (wo_gc_shade mem) as rt) \<le> mark_todo rt \<and> gc_oom (fold (wo_gc_shade mem) as rt) = gc_oom rt"
proof (induction as arbitrary: rt)
  case (Cons a as)
  have sg: "same_graph rt (wo_gc_shade mem a rt)" using shade_shades by (auto simp: shades_def)
  then have "set (gc_traced (wo_gc_shade mem a rt)) = dom (heap (wo_gc_shade mem a rt))"
    using Cons.prems(1) same_graph_dom same_graph_simps(1) by metis
  from Cons.IH [OF this Cons.prems(2)] show ?case using shade_todo [where mem = mem and a = a, OF Cons.prems] by simp
qed simp

lemma fold_shade_tight:
  assumes "tight rt R" and "set as \<subseteq> insert 0 R" and "heap rt 0 = None"
  shows "tight (fold (wo_gc_shade mem) as rt) R"
  using assms
proof (induction as arbitrary: rt)
  case (Cons a as)
  have sg: "same_graph rt (wo_gc_shade mem a rt)" using shade_shades by (auto simp: shades_def)
  have "white (wo_gc_shade mem a rt) x" if "white rt x" "x \<noteq> a" for x
    using that by (cases rule: shade_cases [of mem a rt]) (auto simp: white_set_color)
  moreover have "a \<in> dom (heap rt) \<Longrightarrow> a \<in> R" using Cons.prems(2,3) by auto
  ultimately have "tight (wo_gc_shade mem a rt) R"
    using Cons.prems(1) same_graph_dom [OF sg] by (auto simp: tight_def)
  moreover have "heap (wo_gc_shade mem a rt) 0 = None" using same_graph_None [OF sg] Cons.prems(3) by simp
  ultimately show ?case using Cons.IH Cons.prems(2) by simp
qed simp

lemma scan_traced_tight:
  assumes wf: "gc_wf rt" and gr: "grays_ok rt" and g: "gc_gray rt = a # g" and t: "tight rt R" and m: "mem AGray"
    and cl: "closed rt R"
  defines "rt1 \<equiv> scan_traced mem a (rt\<lparr>gc_gray := g\<rparr>)"
  shows "tight rt1 R" and "mark_todo rt1 < mark_todo rt" and "gc_oom rt1 = gc_oom rt"
proof -
  let ?rt0 = "rt\<lparr>gc_gray := g\<rparr>"
  obtain o1 where o1: "heap rt a = Some o1" and nw: "\<not> white rt a" using gr g by (auto simp: grays_ok_def)
  let ?rs = "fields_refs (class_may_gcref rt) (gc_classes rt) (kinds (gc_classes rt ! ocls o1)) (ofields o1)"
  let ?rt' = "fold (wo_gc_shade mem) ?rs ?rt0"
  have e: "rt1 = set_color a Black ?rt'" using o1 by (simp add: rt1_def scan_traced_def scan_refs(2))
  have aR: "a \<in> R" using t o1 nw by (auto simp: tight_def)
  have rs: "set ?rs \<subseteq> insert 0 R"
  proof
    fix b assume "b \<in> set ?rs"
    then have "b \<in> set (obj_refs rt o1)" using ptr_refs_sub(2) by (fastforce simp: obj_refs_def)
    then show "b \<in> insert 0 R" using cl aR o1 by (auto simp: edges_def closed_def)
  qed
  have t0: "tight ?rt0 R" using t by (simp add: tight_def)
  have tr: "set (gc_traced ?rt0) = dom (heap ?rt0)" "heap ?rt0 0 = None" using wf by (simp_all add: gc_wf_def)
  have t': "tight ?rt' R" by (rule fold_shade_tight [OF t0 rs tr(2)])
  have sg: "same_graph ?rt0 ?rt'" by (rule fold_shade_graph)
  have "dom (heap rt1) = dom (heap ?rt')" unfolding e by (rule same_graph_dom [OF set_color_graph])
  then show "tight rt1 R" using t' aR unfolding tight_def by (auto simp: e white_set_color)
  note td = fold_shade_todo [where mem = mem and as = ?rs, OF tr(1) m]
  have "shades ?rt0 ?rt'" using fold_shade by blast
  then have "\<not> white ?rt' a" using nw by (auto simp: shades_def)
  then have "white rt1 = white ?rt'" by (auto simp: e white_set_color fun_eq_iff)
  then have "mark_todo rt1 = mark_todo ?rt'" by (simp add: mark_todo_def whites_def e)
  moreover have "mark_todo ?rt0 < mark_todo rt" using g by (simp add: mark_todo_def whites_def)
  ultimately show "mark_todo rt1 < mark_todo rt" using td by linarith
  show "gc_oom rt1 = gc_oom rt" using td by (simp add: e)
qed

lemma mark_loop_tight:
  assumes m: "mem AGray"
  shows "gc_wf rt \<Longrightarrow> grays_ok rt \<Longrightarrow> tight rt R \<Longrightarrow> closed rt R \<Longrightarrow>
    tight (mark_loop mem n rt) R \<and> mark_todo (mark_loop mem n rt) \<le> mark_todo rt \<and> gc_oom (mark_loop mem n rt) = gc_oom rt \<and>
    (gc_gray rt \<noteq> [] \<and> 0 < n \<longrightarrow> mark_todo (mark_loop mem n rt) < mark_todo rt)"
proof (induction n arbitrary: rt)
  case (Suc n)
  show ?case
  proof (cases "gc_gray rt")
    case (Cons a g)
    let ?rt1 = "scan_traced mem a (rt\<lparr>gc_gray := g\<rparr>)"
    note s = scan_traced_ok [OF Suc.prems(1,2) Cons, of mem]
    note t = scan_traced_tight [where mem = mem, OF Suc.prems(1,2) Cons Suc.prems(3) m Suc.prems(4)]
    have cl: "closed ?rt1 R" using Suc.prems(4) same_graph_edges [OF s(1)] by (simp add: closed_def)
    note ih = Suc.IH [OF s(3,2) t(1) cl]
    have l: "mark_loop mem (Suc n) rt = mark_loop mem n ?rt1" using Cons by simp
    show ?thesis unfolding l using ih t by linarith
  qed (use Suc.prems in simp)
qed simp


lemma mark_part_tight:
  assumes wf: "gc_wf rt" and gr: "grays_ok rt" and t: "tight rt R" and cl: "closed rt R" and no: "\<not> gc_oom rt"
    and m: "mem AGray" and n: "0 < n" and p: "phase rt = GcMark"
  defines "rt2 \<equiv> mark_part mem n rt"
  shows "tight rt2 R" and "phase rt2 = GcMark \<longrightarrow> mark_todo rt2 < mark_todo rt \<and> \<not> gc_oom rt2"
    and "phase rt2 = GcSweep \<longrightarrow> gc_sweep rt2 = Some 0" and "phase rt2 \<in> {GcMark, GcSweep}"
    and "gc_traced rt2 = gc_traced rt"
proof -
  let ?l = "mark_loop mem n rt"
  have e: "rt2 = (if gc_gray ?l = [] then ?l\<lparr>phase := GcSweep, gc_sweep := Some 0\<rparr> else ?l)"
    using no by (simp add: rt2_def mark_part_def)
  note ml = mark_loop_tight [where mem = mem, OF m wf gr t cl, of n]
  have sg: "same_graph rt ?l"
  proof -
    have "same_graph rt (mark_loop mem n rt) \<and> gc_wf (mark_loop mem n rt) \<and> grays_ok (mark_loop mem n rt)"
      using wf gr
    proof (induction n arbitrary: rt)
      case (Suc n)
      show ?case
      proof (cases "gc_gray rt")
        case (Cons a g)
        note s = scan_traced_ok [OF Suc.prems Cons, of mem]
        show ?thesis using Suc.IH [OF s(3,2)] same_graph_trans [OF s(1)] Cons by simp
      qed (use Suc.prems in simp)
    qed simp
    then show ?thesis by blast
  qed
  note s = same_graph_simps [OF sg]
  show "tight rt2 R" using ml by (simp add: e tight_def)
  show "phase rt2 \<in> {GcMark, GcSweep}" "gc_traced rt2 = gc_traced rt" using s p by (simp_all add: e)
  show "phase rt2 = GcSweep \<longrightarrow> gc_sweep rt2 = Some 0" using s p by (simp add: e)
  show "phase rt2 = GcMark \<longrightarrow> mark_todo rt2 < mark_todo rt \<and> \<not> gc_oom rt2"
  proof
    assume "phase rt2 = GcMark"
    then have ne: "gc_gray ?l \<noteq> []" and r: "rt2 = ?l" by (auto simp: e split: if_splits)
    have "gc_gray rt \<noteq> []"
    proof
      assume "gc_gray rt = []"
      then have "?l = rt" by (cases n) simp_all
      then show False using ne \<open>gc_gray rt = []\<close> by simp
    qed
    then show "mark_todo rt2 < mark_todo rt \<and> \<not> gc_oom rt2" using ml no n r by simp
  qed
qed

lemma without_passed:
  assumes wf: "gc_wf rt" and i: "i < length (gc_traced rt)" and a: "gc_traced rt ! i = a" and ps: "passed rt R i"
  shows "passed (without a i rt) R i"
  unfolding passed_def
proof (intro allI impI)
  let ?rt = "without a i rt"
  fix j assume j: "j < length (gc_traced ?rt)"
  let ?k = "if j < i then j else Suc j"
  have len: "length (gc_traced ?rt) = length (gc_traced rt) - 1" using i by (simp add: without_def)
  have n: "gc_traced ?rt ! j = gc_traced rt ! ?k" using j i len by (simp add: without_def nth_without)
  have k: "?k < length (gc_traced rt)" "?k \<noteq> i" using j i len by auto
  have "distinct (gc_traced rt)" using wf by (simp add: gc_wf_def)
  then have "gc_traced rt ! ?k \<noteq> a" using k i a nth_eq_iff_index_eq by metis
  then have "white ?rt (gc_traced rt ! ?k) = white rt (gc_traced rt ! ?k)" by (simp add: white_def without_def)
  moreover have "if ?k < i then gc_traced rt ! ?k \<in> R else \<not> white rt (gc_traced rt ! ?k) \<longrightarrow> gc_traced rt ! ?k \<in> R"
    using ps k unfolding passed_def by blast
  ultimately show "if j < i then gc_traced ?rt ! j \<in> R else \<not> white ?rt (gc_traced ?rt ! j) \<longrightarrow> gc_traced ?rt ! j \<in> R"
    unfolding n by (auto split: if_splits)
qed

lemma repaint_passed:
  assumes wf: "gc_wf rt" and i: "i < length (gc_traced rt)" and a: "gc_traced rt ! i = a" and ps: "passed rt R i"
    and nw: "\<not> white rt a"
  shows "passed (set_color a White rt) R (Suc i)"
proof -
  have "a \<in> R" using ps i a nw by (auto simp: passed_def)
  moreover have "gc_traced rt ! j \<noteq> a" if "j < length (gc_traced rt)" "j \<noteq> i" for j
    using wf that i a nth_eq_iff_index_eq by (metis gc_wf_def)
  ultimately show ?thesis using ps i a by (auto simp: passed_def white_set_color less_Suc_eq)
qed

lemma sweep_loop_passed:
  assumes "gc_wf rt" and "phase rt = GcSweep" and "swept rt R i" and "passed rt R i"
    and "sweep_loop mem n i freed rt = (i', freed', rt')"
  shows "passed rt' R i' \<and> length (gc_traced rt') - i' \<le> length (gc_traced rt) - i \<and>
    (0 < n \<and> i < length (gc_traced rt) \<longrightarrow> length (gc_traced rt') - i' < length (gc_traced rt) - i)"
  using assms
proof (induction n arbitrary: i freed rt)
  case (Suc n)
  show ?case
  proof (cases "length (gc_traced rt) \<le> i")
    case False
    let ?a = "gc_traced rt ! i"
    have i: "i < length (gc_traced rt)" using False by simp
    then obtain o1 where o1: "heap rt ?a = Some o1" using Suc.prems(1) nth_mem by (fastforce simp: gc_wf_def)
    show ?thesis
    proof (cases "ocolor o1 = White")
      case True
      then have w: "white rt ?a" using o1 by (simp add: white_def)
      note wo = without_ok [OF Suc.prems(1) i refl Suc.prems(3) w]
      have nm: "phase (rt\<lparr>gc_traced := take i (gc_traced rt) @ drop (Suc i) (gc_traced rt)\<rparr>) \<noteq> GcMark" using Suc.prems(2) by simp
      have sl: "sweep_loop mem n i (freed + 1) (without ?a i rt) = (i', freed', rt')"
        using Suc.prems(5) False o1 True by (simp add: drop_idle(3) [OF nm] without_def Let_def)
      have k: "phase (without ?a i rt) = GcSweep" using Suc.prems by (simp add: without_def)
      note ih = Suc.IH [OF wo(1) k wo(2) without_passed [OF Suc.prems(1) i refl Suc.prems(4)] sl]
      show ?thesis using ih wo(6) i by linarith
    next
      case b: False
      then have nw: "\<not> white rt ?a" using o1 by (simp add: white_def)
      note rp = repaint_ok [OF Suc.prems(1) i refl Suc.prems(3)]
      have sl: "sweep_loop mem n (Suc i) freed (set_color ?a White rt) = (i', freed', rt')"
        using Suc.prems(5) False o1 b by (simp add: Let_def)
      have k: "phase (set_color ?a White rt) = GcSweep" using Suc.prems by simp
      note ih = Suc.IH [OF rp(1) k rp(2) repaint_passed [OF Suc.prems(1) i refl Suc.prems(4) nw] sl]
      have "length (gc_traced (set_color ?a White rt)) = length (gc_traced rt)" by simp
      then show ?thesis using ih i by linarith
    qed
  next
    case True
    then show ?thesis using Suc.prems by simp
  qed
qed simp

section \<open>Slices until the cycle is over\<close>

definition cycle_inv :: "gc_rt \<Rightarrow> u64 set \<Rightarrow> bool" where
  "cycle_inv rt R \<longleftrightarrow> gc_wf rt \<and> phase_inv rt R \<and> R \<subseteq> dom (heap rt) \<and> closed rt R \<and>
     (case phase rt of
        GcIdle \<Rightarrow> dom (heap rt) \<subseteq> R
      | GcMark \<Rightarrow> \<not> gc_oom rt \<and> tight rt R
      | GcSweep \<Rightarrow> (\<exists>i. gc_sweep rt = Some i \<and> passed rt R i))"

definition cycle_left :: "gc_rt \<Rightarrow> nat" where
  "cycle_left rt =
     (case phase rt of
        GcIdle \<Rightarrow> 0
      | GcMark \<Rightarrow> length (gc_traced rt) + mark_todo rt + 2
      | GcSweep \<Rightarrow> length (gc_traced rt) - (case gc_sweep rt of Some i \<Rightarrow> i | None \<Rightarrow> 0) + 1)"

lemma sweep_part_cycle:
  assumes inv: "cycle_inv rt R" and p: "phase rt = GcSweep" and n: "0 < n" and s: "sweep_part mem n rt = (freed, rt2)"
  shows "cycle_inv rt2 R \<and> cycle_left rt2 < cycle_left rt"
proof -
  have c: "gc_wf rt" "phase_inv rt R" "R \<subseteq> dom (heap rt)" "closed rt R" using inv by (simp_all add: cycle_inv_def)
  obtain i where i: "gc_sweep rt = Some i" "swept rt R i" and g: "gc_gray rt = []" using c(2) p by (auto simp: phase_inv_def)
  have ps: "passed rt R i" using inv p i(1) by (simp add: cycle_inv_def)
  obtain i' freed' rt' where l: "sweep_loop mem n i 0 rt = (i', freed', rt')" by (metis prod_cases3)
  note k = sweep_part_ok [OF c(1) p c(2,3) s] and sl = sweep_loop_ok [OF c(1) p g i(2) c(3) l]
  note pl = sweep_loop_passed [OF c(1) p i(2) ps l]
  have cl: "closed rt2 R" using c(4) k by (auto simp: closed_def)
  have i'l: "i' \<le> length (gc_traced rt')" using sl by (simp add: swept_def)
  show ?thesis
  proof (cases "length (gc_traced rt') \<le> i'")
    case True
    then have rt2: "rt2 = rt'\<lparr>phase := GcIdle, gc_sweep := None, gc_alloc_bytes := 0\<rparr>"
      using s l i(1) by (simp add: sweep_part_def)
    have "set (gc_traced rt') \<subseteq> R" using pl True by (auto simp: passed_def in_set_conv_nth)
    moreover have "set (gc_traced rt') = dom (heap rt')" using sl by (simp add: gc_wf_def)
    ultimately have "dom (heap rt2) \<subseteq> R" by (simp add: rt2)
    moreover have "phase rt2 = GcIdle" by (simp add: rt2)
    ultimately have "cycle_inv rt2 R" unfolding cycle_inv_def using k cl by (simp only: gc_phase.case simp_thms)
    then show ?thesis using \<open>phase rt2 = GcIdle\<close> p i(1) by (simp add: cycle_left_def rt2)
  next
    case False
    then have rt2: "rt2 = rt'\<lparr>gc_sweep := Some i'\<rparr>" using s l i(1) by (simp add: sweep_part_def)
    have ph: "phase rt2 = GcSweep" using sl by (simp add: rt2)
    have "passed rt2 R i'" using pl by (simp add: rt2 passed_def)
    then have "cycle_inv rt2 R" using k cl ph by (simp add: cycle_inv_def rt2)
    moreover have "i < length (gc_traced rt)"
    proof (rule ccontr)
      assume "\<not> i < length (gc_traced rt)"
      then have "length (gc_traced rt') - i' \<le> 0" using pl by simp
      then show False using False by simp
    qed
    then have "length (gc_traced rt') - i' < length (gc_traced rt) - i" using pl n by blast
    then have "cycle_left rt2 < cycle_left rt" using ph p i(1) by (simp add: cycle_left_def rt2)
    ultimately show ?thesis by blast
  qed
qed

lemma slice_cycle:
  assumes inv: "cycle_inv rt R" and p: "phase rt \<noteq> GcIdle" and n: "0 < n" "n \<le> 64" and m: "mem AGray"
  shows "cycle_inv (snd (wo_gc_slice mem n rt)) R \<and> cycle_left (snd (wo_gc_slice mem n rt)) < cycle_left rt"
proof (cases "phase rt = GcSweep")
  case True
  obtain fr rt2 where s: "sweep_part mem n rt = (fr, rt2)" by force
  have "snd (wo_gc_slice mem n rt) = rt2" using True s by (simp add: wo_gc_slice_def)
  then show ?thesis using sweep_part_cycle [OF inv True n(1) s] by simp
next
  case False
  then have pm: "phase rt = GcMark" using p by (cases "phase rt") auto
  have c: "gc_wf rt" "phase_inv rt R" "R \<subseteq> dom (heap rt)" "closed rt R" "\<not> gc_oom rt" "tight rt R"
    using inv pm by (simp_all add: cycle_inv_def)
  have gr: "grays_ok rt" using c(2) pm by (simp add: phase_inv_def)
  define rt1 where "rt1 = mark_part mem n rt"
  note mo = mark_part_ok [OF c(1) pm c(2) n(2) c(3), of mem, folded rt1_def]
  note mt = mark_part_tight [where mem = mem, OF c(1) gr c(6) c(4) c(5) m n(1) pm, folded rt1_def]
  have cl: "closed rt1 R" using c(4) mo(2) by (simp add: closed_def)
  show ?thesis
  proof (cases "phase rt1 = GcSweep")
    case True
    have sw: "gc_sweep rt1 = Some 0" using mt(3) True by blast
    have "\<forall>x\<in>set (gc_traced rt1). \<not> white rt1 x \<longrightarrow> x \<in> R" using mt(1) mo(1) by (auto simp: tight_def gc_wf_def)
    then have "passed rt1 R 0" by (simp add: passed_def)
    then have i1: "cycle_inv rt1 R" using mo c(3) cl True sw by (simp add: cycle_inv_def)
    obtain fr rt2 where s: "sweep_part mem n rt1 = (fr, rt2)" by force
    have "snd (wo_gc_slice mem n rt) = rt2" using pm True s by (simp add: wo_gc_slice_def rt1_def)
    moreover have "cycle_left rt1 < cycle_left rt" using pm True sw mt(5) by (simp add: cycle_left_def)
    ultimately show ?thesis using sweep_part_cycle [OF i1 True n(1) s] by simp
  next
    case ns: False
    then have p1: "phase rt1 = GcMark" using mt(4) by blast
    have "snd (wo_gc_slice mem n rt) = rt1" using pm ns by (simp add: wo_gc_slice_def rt1_def)
    moreover have "cycle_inv rt1 R" using mo c(3) cl p1 mt by (simp add: cycle_inv_def)
    moreover have "cycle_left rt1 < cycle_left rt" using pm p1 mt by (simp add: cycle_left_def)
    ultimately show ?thesis by simp
  qed
qed

abbreviation slices :: "mem \<Rightarrow> nat \<Rightarrow> nat \<Rightarrow> gc_rt \<Rightarrow> gc_rt" where
  "slices mem n k rt \<equiv> ((\<lambda>rt. snd (wo_gc_slice mem n rt)) ^^ k) rt"

lemma slices_end:
  assumes "0 < n" "n \<le> 64" and "mem AGray"
  shows "cycle_inv rt R \<Longrightarrow> \<exists>k\<le>cycle_left rt. phase (slices mem n k rt) = GcIdle \<and> dom (heap (slices mem n k rt)) = R"
proof (induction "cycle_left rt" arbitrary: rt rule: less_induct)
  case less
  show ?case
  proof (cases "phase rt = GcIdle")
    case True
    then have "dom (heap rt) = R" using less.prems by (auto simp: cycle_inv_def)
    then show ?thesis using True by (intro exI [of _ 0]) simp
  next
    case False
    let ?rt = "snd (wo_gc_slice mem n rt)"
    note s = slice_cycle [where mem = mem, OF less.prems False assms]
    obtain k where k: "k \<le> cycle_left ?rt" "phase (slices mem n k ?rt) = GcIdle" "dom (heap (slices mem n k ?rt)) = R"
      using less.hyps [OF conjunct2 [OF s] conjunct1 [OF s]] by blast
    have "slices mem n (Suc k) rt = slices mem n k ?rt" by (simp only: funpow_Suc_right o_apply)
    then show ?thesis using k s by (intro exI [of _ "Suc k"]) auto
  qed
qed


lemma begin_cycle:
  assumes inv: "gc_inv rt rs" and p: "phase rt = GcIdle" and m: "mem AGray"
  defines "rt1 \<equiv> vm_gc_roots mem rs (wo_gc_begin rt)"
  shows "cycle_inv rt1 (reach rt rs)" and "phase rt1 = GcMark" and "cycle_left rt1 \<le> 3 * length (gc_traced rt) + 2"
    and "gc_budget rt1 = gc_budget rt"
proof -
  let ?R = "reach rt rs"
  let ?rt0 = "wo_gc_begin rt"
  let ?rs = "concat (map (ptr_refs (class_may_gcref ?rt0) (gc_classes ?rt0)) rs)"
  have i: "gc_wf rt" "all_white rt" "?R \<subseteq> dom (heap rt)" using inv p by (simp_all add: gc_inv_def phase_inv_def)
  have t0: "gc_classes ?rt0 = gc_classes rt" "heap ?rt0 = heap rt" "gc_traced ?rt0 = gc_traced rt" "phase ?rt0 = GcMark"
    "gc_oom ?rt0 = False" "gc_gray ?rt0 = []" "gc_budget ?rt0 = gc_budget rt" by (simp_all add: wo_gc_begin_def)
  have e0: "edges ?rt0 = edges rt" by (simp add: edges_def obj_refs_def wo_gc_begin_def)
  have e: "rt1 = fold (wo_gc_shade mem) ?rs ?rt0" unfolding rt1_def by (rule roots_fold)
  have sg: "same_graph ?rt0 rt1" unfolding e by (rule fold_shade_graph)
  note s = same_graph_simps [OF sg]
  have white: "white ?rt0 a" if "a \<in> dom (heap rt)" for a using i(2) that t0(2) by (simp add: all_white_def white_def)
  have tr: "set (gc_traced ?rt0) = dom (heap ?rt0)" "heap ?rt0 0 = None" using i(1) t0 by (simp_all add: gc_wf_def)
  have "set ?rs \<subseteq> insert 0 ?R"
    using ptr_refs_sub(1) reach_root [of _ rt rs] t0(1) by (fastforce simp: root_refs_def)
  moreover have "tight ?rt0 ?R" using white t0(2) by (simp add: tight_def)
  ultimately have t: "tight rt1 ?R" unfolding e using tr(2) by (intro fold_shade_tight)
  note td = fold_shade_todo [where mem = mem and as = ?rs, OF tr(1) m]
  have no: "\<not> gc_oom rt1" using td t0(5) by (simp add: e)
  show ph: "phase rt1 = GcMark" using s(2) t0(4) by simp
  have g1: "gc_inv rt1 rs" unfolding rt1_def by (rule begin_inv [OF inv p])
  have "edges rt1 = edges rt" using same_graph_edges [OF sg] e0 by simp
  then have R1: "reach rt1 rs = ?R" and c1: "closed rt1 ?R"
    using s(6) t0(1) reach_edge [of _ rt rs] by (simp add: reach_def root_refs_def, auto simp: closed_def)
  show "cycle_inv rt1 ?R" using g1 R1 c1 t no ph by (simp add: cycle_inv_def gc_inv_def)
  have "mark_todo ?rt0 \<le> 2 * length (gc_traced rt)" using t0(3,6) by (simp add: mark_todo_def whites_def)
  then show "cycle_left rt1 \<le> 3 * length (gc_traced rt) + 2" using td ph s(1) t0(3) by (simp add: cycle_left_def e)
  show "gc_budget rt1 = gc_budget rt" using s(4) t0(7) by simp
qed

section \<open>The pump at exit\<close>

text \<open>The loop of \<open>gc_pump\<close>, its iterations bounded by the first number.\<close>

fun gc_pump :: "mem \<Rightarrow> nat \<Rightarrow> nat \<Rightarrow> gc_rt \<Rightarrow> gc_rt option" where
  "gc_pump mem 0 at_begin rt = None"
| "gc_pump mem (Suc n) at_begin rt =
     (if gc_traced rt = [] then Some rt
      else
        (case gc_pump_step mem (at_begin, rt) of
           (stop, at_begin', rt') \<Rightarrow> if stop then Some rt' else gc_pump mem n at_begin' rt'))"

lemma drop_budget:
  "gc_budget (wo_drop_kind mem k v rt) = gc_budget rt"
  "gc_budget (wo_drop_obj mem v rt) = gc_budget rt"
  "gc_budget (class_free mem ks vs rt) = gc_budget rt"
  "gc_budget (map_free mem kk vk as bs rt) = gc_budget rt"
proof -
  have sh: "gc_budget (wo_gc_shade mem a rt) = gc_budget rt" for mem a rt
    using shade_shades [of rt mem a] by (simp add: shades_def same_graph_def)
  show "gc_budget (wo_drop_kind mem k v rt) = gc_budget rt" "gc_budget (wo_drop_obj mem v rt) = gc_budget rt"
    "gc_budget (class_free mem ks vs rt) = gc_budget rt" "gc_budget (map_free mem kk vk as bs rt) = gc_budget rt"
    by (induction mem k v rt and mem v rt and mem ks vs rt and mem kk vk as bs rt
        rule: wo_drop_kind_wo_drop_obj_class_free_map_free.induct) (simp_all add: sh)
qed

lemma slice_budget: "gc_budget (snd (wo_gc_slice mem n rt)) = gc_budget rt"
proof -
  have sc: "gc_budget (scan_traced mem a rt) = gc_budget rt" for a rt
    by (simp add: scan_traced_def scan_refs(2) same_graph_simps(4) [OF fold_shade_graph] split: option.split)
  have ml: "gc_budget (mark_loop mem n rt) = gc_budget rt" for rt
    by (induction n arbitrary: rt) (simp_all add: sc split: list.split)
  have bl: "gc_budget (blacken_all rt) = gc_budget rt" for rt using blacken_all_black(1) [of rt] by (simp add: same_graph_def)
  have sl: "gc_budget (snd (snd (sweep_loop mem n i freed rt))) = gc_budget rt" for i freed rt
    by (induction n arbitrary: i freed rt) (simp_all add: drop_budget Let_def split: option.split)
  have mp: "gc_budget (mark_part mem n rt) = gc_budget rt" for rt by (simp add: mark_part_def Let_def ml bl)
  have sp: "gc_budget (snd (sweep_part mem n rt)) = gc_budget rt" for rt
    using sl [of _ 0 rt] by (auto simp: sweep_part_def split: prod.split) (metis snd_conv)+
  show ?thesis by (simp add: wo_gc_slice_def Let_def mp sp)
qed

lemma pump_cycle:
  assumes "mem AGray" and "0 < gc_budget rt" "gc_budget rt \<le> 64" and "cycle_inv rt {}" and "phase rt \<noteq> GcIdle"
    and "0 < at_begin" and "cycle_left rt < fuel"
  shows "\<exists>rt'. gc_pump mem fuel at_begin rt = Some rt' \<and> gc_traced rt' = [] \<and> heap rt' = Map.empty"
  using assms
proof (induction fuel arbitrary: rt)
  case (Suc n)
  have none: "gc_traced rt = [] \<longleftrightarrow> heap rt = Map.empty" if "gc_wf rt" for rt
  proof -
    have "set (gc_traced rt) = dom (heap rt)" using that by (simp add: gc_wf_def)
    then show ?thesis by (metis dom_eq_empty_conv set_empty)
  qed
  show ?case
  proof (cases "gc_traced rt = []")
    case True
    then show ?thesis using none Suc.prems(4) by (simp add: cycle_inv_def)
  next
    case False
    let ?rt = "snd (wo_gc_slice mem (gc_budget rt) rt)"
    note s = slice_cycle [where mem = mem, OF Suc.prems(4,5,2,3,1)]
    have st: "gc_pump_step mem (at_begin, rt) = (phase ?rt = GcIdle \<and> length (gc_traced ?rt) = at_begin, at_begin, ?rt)"
      using Suc.prems(5) by (simp add: gc_pump_step_def Let_def)
    show ?thesis
    proof (cases "phase ?rt = GcIdle")
      case idle: True
      then have "heap ?rt = Map.empty" using s by (simp add: cycle_inv_def)
      moreover from this have "gc_traced ?rt = []" using s none by (simp add: cycle_inv_def)
      moreover have "n \<noteq> 0" using Suc.prems(5,7) by (cases "phase rt") (simp_all add: cycle_left_def)
      ultimately show ?thesis using False st Suc.prems(6) by (cases n) simp_all
    next
      case ni: False
      have "\<exists>rt'. gc_pump mem n at_begin ?rt = Some rt' \<and> gc_traced rt' = [] \<and> heap rt' = Map.empty"
        using Suc.prems(1-3,6,7) s ni by (intro Suc.IH) (simp_all add: slice_budget)
      then show ?thesis using False st ni by simp
    qed
  qed
qed simp

lemma pump_empties:
  assumes inv: "gc_inv rt []" and p: "phase rt = GcIdle" and m: "mem AGray" and b: "0 < gc_budget rt"
  shows "\<exists>rt'. gc_pump mem (3 * length (gc_traced rt) + 4) at_begin rt = Some rt' \<and> gc_traced rt' = [] \<and> heap rt' = Map.empty"
proof (cases "gc_traced rt = []")
  case True
  then have "dom (heap rt) = {}" using inv by (simp add: gc_inv_def gc_wf_def)
  then have "heap rt = Map.empty" by simp
  then show ?thesis using True by (simp add: numeral_eq_Suc)
next
  case False
  let ?rt1 = "wo_gc_begin rt"
  note bc = begin_cycle [where mem = mem, OF inv p m]
  have e: "vm_gc_roots mem [] (wo_gc_begin rt) = ?rt1" by (simp add: vm_gc_roots_def)
  have R: "reach rt [] = {}" by (simp add: reach_def root_refs_def)
  have t1: "gc_traced ?rt1 = gc_traced rt" by (simp add: wo_gc_begin_def)
  have b64: "gc_budget rt \<le> 64" using inv by (simp add: gc_inv_def gc_wf_def)
  have "\<exists>rt'. gc_pump mem (Suc (3 * length (gc_traced rt) + 3)) (length (gc_traced rt)) ?rt1 = Some rt' \<and>
      gc_traced rt' = [] \<and> heap rt' = Map.empty"
    using bc b b64 m False unfolding e R by (intro pump_cycle) simp_all
  moreover have "gc_pump_step mem (at_begin, rt) = gc_pump_step mem (length (gc_traced rt), ?rt1)"
    using p bc(2) unfolding e by (simp add: gc_pump_step_def Let_def)
  ultimately show ?thesis using False t1 by (simp add: numeral_eq_Suc)
qed

end
