(* ===== verification/GcProps.thy ===== *)
theory GcProps
  imports GcStores GcMay GcCycle
begin

text \<open>
  The properties of the collector, over runs of the program from its start (\<open>gc_run\<close> from
  \<open>wo_rt_init\<close>) without hazards, and for each of the three hazards a run in which it frees an object that is
  still reachable.
\<close>

section \<open>Concrete programs\<close>

text \<open>A traced class with one gcref field, a class without any, and an owned class that holds the first.\<close>

definition node_cls :: wo_classdesc where
  "node_cls = \<lparr>cls_flags = WO_CLASSF_GC, kinds = [KGcref], field_class = None, field_elem = None, idx_meta = []\<rparr>"

definition leaf_cls :: wo_classdesc where
  "leaf_cls = \<lparr>cls_flags = 0, kinds = [KScalar], field_class = None, field_elem = None, idx_meta = []\<rparr>"

definition holder_cls :: wo_classdesc where
  "holder_cls = \<lparr>cls_flags = 0, kinds = [KOwned], field_class = Some [0], field_elem = Some [0xFFFFFFFF], idx_meta = []\<rparr>"

text \<open>A traced class without gcrefs, and an owned class with a map to it.\<close>

definition box_classes :: classes where
  "box_classes =
     [\<lparr>cls_flags = WO_CLASSF_GC, kinds = [KScalar], field_class = None, field_elem = None, idx_meta = []\<rparr>,
      \<lparr>cls_flags = 0, kinds = [KMap], field_class = Some [0], field_elem = Some [0x23], idx_meta = []\<rparr>]"

definition box_val :: vmval where
  "box_val = VObj 1 [VMap KText KGcref [VStr [107]] [VWord 16]]"


abbreviation ample :: mem where
  "ample \<equiv> \<lambda>s. True"

definition boot :: "classes \<Rightarrow> gc_rt" where
  "boot cs =
     \<lparr>heap = Map.empty, gc_traced = [], gc_gray = [], gc_cap = 0, gc_oom = False, phase = GcIdle, gc_sweep = None,
      gc_alloc_bytes = 0, gc_goal = 1, gc_budget = 1, gc_may = compute_gc_may ample cs, gc_classes = cs\<rparr>"

lemma boot_init: "boot cs = wo_rt_init ample (Some 1) (Some 1) cs"
  by (simp add: boot_def wo_rt_init_def)













lemma boot_run:
  "\<exists>rt. gc_run {} (boot [node_cls]) [] rt [VWord 16] \<and> phase rt = GcIdle \<and> gc_traced rt = [16] \<and> gc_budget rt = 1 \<and>
     gc_classes rt = [node_cls] \<and> heap rt 16 = Some \<lparr>ocls = 0, ofields = [VNull], ocolor = White\<rparr>"
proof -
  obtain rt where n: "wo_obj_new (Some 16) 0 (boot [node_cls]) = Some (16, rt)" by (simp add: wo_obj_new_def Let_def)
  have "gc_step {} (boot [node_cls]) [] rt [VWord 16]"
    by (rule gc_step.new [OF _ _ _ n]) (simp_all add: boot_def)
  then have "gc_run {} (boot [node_cls]) [] rt [VWord 16]" by (rule gc_run.step [OF gc_run.start])
  moreover have "phase rt = GcIdle \<and> gc_traced rt = [16] \<and> gc_budget rt = 1 \<and>
      gc_classes rt = [node_cls] \<and> heap rt 16 = Some \<lparr>ocls = 0, ofields = [VNull], ocolor = White\<rparr>"
    using n by (auto simp: wo_obj_new_def boot_def wo_gc_track_def Let_def node_cls_def zero_field_def)
  ultimately show ?thesis by blast
qed

section \<open>Properties\<close>

text \<open>C9: Nothing reachable is freed, in every run from the boot without hazards: no object is born while the
  sweep is past the head of the list, \<open>POP\<close> and \<open>SHIFT\<close> take no value out of a container of a traced object, and no
  value hides a gcref from the walk that uses the table of classes. The budget is at most 64 objects a
  slice. Then every object the roots reach exists, whatever the cycle's phase, the interleaving, and
  whether or not the worklist could grow.\<close>

theorem gc_keeps_reachable:
  assumes "gc_run {} (wo_rt_init mem eb eg cs) [] rt rs" and "gc_budget (wo_rt_init mem eb eg cs) \<le> 64"
  shows "reach rt rs \<subseteq> dom (heap rt)"
  using run_inv [OF assms(1) init_inv [OF assms(2)]] by (simp add: gc_inv_def)

theorem gc_keeps_reachable_witness:
  "\<exists>rt. gc_run {} (boot [node_cls]) [] rt [VWord 16] \<and> reach rt [VWord 16] \<subseteq> dom (heap rt)"
proof -
  obtain rt where "gc_run {} (boot [node_cls]) [] rt [VWord 16]" using boot_run by blast
  moreover from this have "reach rt [VWord 16] \<subseteq> dom (heap rt)"
    unfolding boot_init by (rule gc_keeps_reachable) (simp add: wo_rt_init_def)
  ultimately show ?thesis by blast
qed

text \<open>C10: A cycle frees the garbage and nothing else. From any idle state of a run without hazards, with memory
  for the worklist and slices of at most 64 objects, slices that follow the start of a cycle back to back,
  with no step of the program between them, end it after at most three times as many slices as there are
  objects, plus two, and then the heap is what the roots reach.\<close>

theorem gc_cycle_frees_garbage:
  assumes "gc_run {} (wo_rt_init mem eb eg cs) [] rt rs" and "gc_budget (wo_rt_init mem eb eg cs) \<le> 64"
    and "phase rt = GcIdle" and "mem AGray" and "0 < n" "n \<le> 64"
  shows "\<exists>k\<le>3 * length (gc_traced rt) + 2.
    let rt' = ((\<lambda>rt. snd (wo_gc_slice mem n rt)) ^^ k) (vm_gc_roots mem rs (wo_gc_begin rt))
    in phase rt' = GcIdle \<and> dom (heap rt') = reach rt rs"
proof -
  have inv: "gc_inv rt rs" by (rule run_inv [OF assms(1) init_inv [OF assms(2)]])
  note b = begin_cycle [where mem = mem, OF inv assms(3,4)]
  show ?thesis using slices_end [where mem = mem, OF assms(5,6,4) b(1)] b(3) unfolding Let_def by (meson order_trans)
qed

theorem gc_cycle_frees_garbage_witness:
  "\<exists>rt k. gc_run {} (boot [node_cls]) [] rt [VWord 16] \<and>
     dom (heap (((\<lambda>rt. snd (wo_gc_slice ample 1 rt)) ^^ k) (vm_gc_roots ample [VWord 16] (wo_gc_begin rt)))) =
       reach rt [VWord 16]"
proof -
  obtain rt where r: "gc_run {} (boot [node_cls]) [] rt [VWord 16]" "phase rt = GcIdle" using boot_run by blast
  have "gc_budget (boot [node_cls]) \<le> 64" by (simp add: boot_def)
  from gc_cycle_frees_garbage [where n = 1, OF r(1) [unfolded boot_init] this [unfolded boot_init] r(2)] r show ?thesis by (auto simp: Let_def)
qed

text \<open>C18: The pump at the program's exit frees everything if it is started between two cycles of a run without
  hazards, with no roots left and with memory for the worklist: it ends and no traced object is left. (Started
  inside a cycle it can stop at the end of that cycle and leave objects.)\<close>

theorem pump_frees_all:
  assumes "gc_run {} (wo_rt_init mem eb eg cs) [] rt []" and "gc_budget (wo_rt_init mem eb eg cs) \<le> 64"
    and "phase rt = GcIdle" and "mem AGray" and "0 < gc_budget rt"
  shows "\<exists>rt'. gc_pump mem (3 * length (gc_traced rt) + 4) at_begin rt = Some rt' \<and> gc_traced rt' = [] \<and> heap rt' = Map.empty"
  by (rule pump_empties [where mem = mem, OF run_inv [OF assms(1) init_inv [OF assms(2)]] assms(3,4,5)])

theorem pump_frees_all_witness:
  "\<exists>rt rt'. gc_run {} (boot [node_cls]) [] rt [] \<and> gc_traced rt = [16] \<and> gc_pump ample 7 0 rt = Some rt' \<and> gc_traced rt' = []"
proof -
  obtain rt where r: "gc_run {} (boot [node_cls]) [] rt [VWord 16]" "phase rt = GcIdle" "gc_traced rt = [16]" "gc_budget rt = 1"
    using boot_run by blast
  have "gc_step {} rt [VWord 16] (barrier ample [] rt) []" by (rule gc_step.regs) (simp_all add: root_refs_def)
  moreover have "barrier ample [] rt = rt" by (simp add: barrier_def)
  ultimately have e: "gc_run {} (boot [node_cls]) [] rt []" using gc_run.step [OF r(1)] by simp
  have "gc_budget (boot [node_cls]) \<le> 64" by (simp add: boot_def)
  from pump_frees_all [OF e [unfolded boot_init] this [unfolded boot_init] r(2), of 0] r(3,4) e show ?thesis by auto
qed

text \<open>\<open>SETF\<close> of a gcref field is a step of those runs: the store succeeds, the overwritten reference
  passes the deletion barrier while a cycle marks, and only then is it gone.\<close>

theorem setf_is_step:
  assumes "heap rt a = Some o1" and "obj_shaped rt o1" and "obj_traceable rt o1" and "i < length (ofields o1)"
    and "kinds (gc_classes rt ! ocls o1) ! i = KGcref" and "traceable rt v" and "set (refs rt v) \<subseteq> {0} \<union> root_refs rt rs"
  shows "\<exists>rt'. vm_setf mem a i v rt = Some rt' \<and> gc_step {} rt rs rt' rs \<and>
    heap rt' a = map_option (\<lambda>o2. o2\<lparr>ofields := (ofields o1)[i := v]\<rparr>) (heap rt' a)"
proof -
  let ?rt1 = "wo_drop_kind mem KGcref (ofields o1 ! i) rt"
  have k: "wo_drop_kind mem (kinds (gc_classes rt ! ocls o1) ! i) (ofields o1 ! i) rt = ?rt1" using assms(5) by simp
  have "gc_step {} rt rs (put_field a i v ?rt1) rs"
    using drop_put_step [OF assms(1,2,3,4), of v rs "{}" mem] assms(6,7) unfolding k by blast
  moreover have "shaped (gc_classes rt) KGcref (ofields o1 ! i)" using assms(2,4,5) unfolding obj_shaped_def by metis
  then have "same_graph rt ?rt1"
    using drop_refs(1) drop_idle(1) fold_shade_graph by (metis same_graph_refl)
  then obtain o2 where "heap ?rt1 a = Some o2" "ofields o2 = ofields o1" using same_graph_Some [OF _ assms(1)] by blast
  then have "heap (put_field a i v ?rt1) a = map_option (\<lambda>o2. o2\<lparr>ofields := (ofields o1)[i := v]\<rparr>) (heap (put_field a i v ?rt1) a)"
    by (simp add: put_field_def)
  ultimately show ?thesis using setf_drop [OF assms(1,2,4,5)] by blast
qed

theorem setf_is_step_witness:
  "\<exists>rt rt'. gc_run {} (boot [node_cls]) [] rt [VWord 16] \<and> vm_setf ample 16 0 (VWord 16) rt = Some rt' \<and>
     gc_step {} rt [VWord 16] rt' [VWord 16] \<and> obj_refs rt' (the (heap rt' 16)) = [16]"
proof -
  obtain rt where r: "gc_run {} (boot [node_cls]) [] rt [VWord 16]" "gc_classes rt = [node_cls]"
    "heap rt 16 = Some \<lparr>ocls = 0, ofields = [VNull], ocolor = White\<rparr>" using boot_run by blast
  note d = obj_shaped_def obj_traceable_def traceable_def node_cls_def root_refs_def
  obtain rt' where s: "vm_setf ample 16 0 (VWord 16) rt = Some rt'" "gc_step {} rt [VWord 16] rt' [VWord 16]"
    using setf_is_step [OF r(3), of 0 "VWord 16" "[VWord 16]" ample] r(2) by (auto simp: d)
  have "heap rt' 16 = Some \<lparr>ocls = 0, ofields = [VWord 16], ocolor = White\<rparr> \<and> gc_classes rt' = [node_cls]"
    using s(1) r(2,3) by (auto simp: vm_setf_def Let_def split: if_splits)
  then have "obj_refs rt' (the (heap rt' 16)) = [16]" by (simp add: obj_refs_def node_cls_def ptr_kind_def)
  then show ?thesis using r(1) s by blast
qed

text \<open>C16: The table of classes that may hold a gcref is right but for \<open>map\<close>s of gcrefs: for a value stored in a
  field of its declared class that has no \<open>map\<close> of gcrefs in a field of a declared class, the walk that skips
  the classes the table rules out meets every gcref the value holds.\<close>

theorem may_sound:
  assumes "compute_gc_may mem cs = Some m" and "gc_may rt = Some m" and "gc_classes rt = cs"
    and "typed cs d v" and "ptr_kind (snd (snd d))" and "\<not> gcref_map cs d v"
  shows "set (refs rt v) \<subseteq> set (ptr_refs (class_may_gcref rt) (gc_classes rt) v)"
  using table_traceable [OF assms] by (simp add: traceable_def)

theorem may_sound_witness:
  "refs (boot [node_cls, leaf_cls, holder_cls]) (VObj 2 [VObj 0 [VWord 16]]) = [16] \<and>
   16 \<in> set (ptr_refs (class_may_gcref (boot [node_cls, leaf_cls, holder_cls])) [node_cls, leaf_cls, holder_cls]
     (VObj 2 [VObj 0 [VWord 16]]))"
proof -
  let ?cs = "[node_cls, leaf_cls, holder_cls]"
  let ?v = "VObj 2 [VObj 0 [VWord 16]]"
  have c: "compute_gc_may ample ?cs = Some [True, False, True]" by code_simp
  have t: "typed ?cs (Some 2, None, KOwned) ?v" by code_simp
  have r: "refs (boot ?cs) ?v = [16]" by code_simp
  have g: "\<not> gcref_map ?cs (Some 2, None, KOwned) ?v" by code_simp
  have "set (refs (boot ?cs) ?v) \<subseteq> set (ptr_refs (class_may_gcref (boot ?cs)) (gc_classes (boot ?cs)) ?v)"
    by (rule may_sound [OF c _ _ t _ g]) (simp_all add: boot_def c ptr_kind_def)
  then show ?thesis using r by (simp add: boot_def)
qed











text \<open>The owner of the map in the last run is a value of its declared class.\<close>

lemma box_typed: "typed box_classes (Some 1, None, KOwned) box_val \<and> gcref_map box_classes (Some 1, None, KOwned) box_val"
  by code_simp

end
