(* ===== verification/Loader.thy ===== *)
theory Loader
  imports WalCodec "HOL-Library.Product_Lexorder"
begin

text \<open>
  The image loader (\<open>wo_load_buf\<close> of \<open>runtime/src/loader.c\<close>) and the instruction words of
  \<open>wob.h\<close>: sections are parsed through a cursor that checks every read, and everything the
  interpreter does not check again is checked here. A refusal (\<open>BAIL\<close>) is \<open>None\<close>; the text of its
  reason is left out. Shown: an image that is accepted satisfies the contract stated in the loader
  (\<open>module_ok\<close>).

  Counts and indexes are natural numbers below \<open>2 ^ 32\<close>, as they are read; the slot numbers of the
  interfaces are added up in 32 bits, as in the code.
\<close>

section \<open>Instruction words\<close>

definition wo_ins_op :: "u32 \<Rightarrow> nat" where "wo_ins_op i = unat (i AND 0xFF)"
definition wo_ins_a :: "u32 \<Rightarrow> nat" where "wo_ins_a i = unat (drop_bit 8 i AND 0xFF)"
definition wo_ins_b :: "u32 \<Rightarrow> nat" where "wo_ins_b i = unat (drop_bit 16 i AND 0xFF)"
definition wo_ins_c :: "u32 \<Rightarrow> nat" where "wo_ins_c i = unat (drop_bit 24 i AND 0xFF)"
definition wo_ins_bx :: "u32 \<Rightarrow> nat" where "wo_ins_bx i = unat (drop_bit 16 i)"
definition wo_ins_sbx :: "u32 \<Rightarrow> int" where "wo_ins_sbx i = int (wo_ins_bx i) - 32768"

definition wo_ins_abc :: "nat \<Rightarrow> nat \<Rightarrow> nat \<Rightarrow> nat \<Rightarrow> u32" where
  "wo_ins_abc op a b c =
     of_nat op OR push_bit 8 (of_nat a) OR push_bit 16 (of_nat b) OR push_bit 24 (of_nat c)"

text \<open>The opcodes; 27 and 28 are retired.\<close>

datatype wop = NOP | LOADK | MOVE | ADD | SUB | MUL | DIV | NEG | CONCAT | EQ | LT | LE | EQS | JMP | JZ | CALL
  | ICALL | RET | RET0 | NEW | GETF | SETF | DROP | BORROW_S | BORROW_X | RELEASE_S | RELEASE_X | BUILTIN
  | DB_STUB | TRAP | TRY | ENDTRY | FADD | FSUB | FMUL | FDIV | FNEG | FEQ | FLT | FLE | BAND | BOR | BXOR | SHL | SHR

definition wops :: "wop option list" where
  "wops = map Some [NOP, LOADK, MOVE, ADD, SUB, MUL, DIV, NEG, CONCAT, EQ, LT, LE, EQS, JMP, JZ, CALL, ICALL, RET, RET0,
     NEW, GETF, SETF, DROP, BORROW_S, BORROW_X, RELEASE_S, RELEASE_X] @ [None, None] @
     map Some [BUILTIN, DB_STUB, TRAP, TRY, ENDTRY, FADD, FSUB, FMUL, FDIV, FNEG, FEQ, FLT, FLE, BAND, BOR, BXOR, SHL, SHR]"

definition wop_of :: "u32 \<Rightarrow> wop option" where
  "wop_of i = (if wo_ins_op i < length wops then wops ! wo_ins_op i else None)"

section \<open>The module\<close>

datatype wo_const = CInt u64 | CText bytes | CFloat u64

text \<open>The loader's part of a class: the name constant and the name of each field; the rest is the
  descriptor the engine and the collector read.\<close>

record wo_class = wo_classdesc +
  cls_name :: nat
  field_names :: "nat list"

record wo_dropent =
  d_pc :: nat
  d_owned :: u64
  d_gc :: u64

record wo_methodrec =
  m_name :: nat
  m_class :: nat
  arg_cnt :: nat
  reg_cnt :: nat
  code :: "u32 list"
  lines :: "(nat \<times> nat) list"
  drops :: "wo_dropent list"

record wo_vtabent =
  v_class :: nat
  v_slot :: nat
  v_method :: nat

record wo_module =
  kconsts :: "wo_const list"
  mclasses :: "wo_class list"
  slot_cnt :: nat
  vtabs :: "wo_vtabent list"
  methods :: "wo_methodrec list"
  entry :: nat

definition WOB_MAGIC :: nat where "WOB_MAGIC = 0x31424F57"
definition WOB_VERSION :: nat where "WOB_VERSION = 8"
definition WO_MAX_REGS :: nat where "WO_MAX_REGS = 64"
definition WO_K_MAX :: nat where "WO_K_MAX = 7"
definition WO_B_MAX :: nat where "WO_B_MAX = 118"
definition WO_B_MULTI_NEW :: nat where "WO_B_MULTI_NEW = 4"
definition WO_B_MAP_NEW :: nat where "WO_B_MAP_NEW = 9"
definition NO_METHOD :: nat where "NO_METHOD = 0xFFFFFFFF"
definition WO_CLASSF_ALL :: u32 where "WO_CLASSF_ALL = 0x0F"

text \<open>The argument registers of each builtin, in the order of the ids; the initializer of \<open>b_arity\<close>
  names no entry for the ids 84 to 95, which are therefore 0.\<close>

definition b_arity_table :: "nat list" where
  "b_arity_table = [0, 1, 1, 1, 0, 2, 2, 1, 1, 0, 3, 2, 2, 1, 1, 1,
     1, 2, 1, 2, 2, 2, 2, 3, 1, 1, 1, 1, 2, 1, 2, 3, 1, 1, 1, 1, 2, 2, 2, 3,
     1, 1, 2, 2, 3, 2, 1, 2, 1, 1, 0, 2, 1, 2, 2, 1, 3, 2, 2, 2, 1,
     1, 4, 2, 1, 3, 3, 2, 2, 2,
     1, 1, 1, 1, 2, 1, 2, 3, 2, 2, 1, 1, 1, 1,
     0, 0, 0, 0, 0, 0, 0, 0, 0, 0, 0, 0,
     6, 3, 2, 2, 5, 3, 3, 1, 1, 2, 1, 1, 2, 1, 2, 4, 4, 4, 4, 2, 2, 2, 3]"

definition b_arity :: "nat \<Rightarrow> nat" where "b_arity b = b_arity_table ! b"

section \<open>Constants\<close>

definition load_const :: "mem \<Rightarrow> wo_const parser" where
  "load_const mem bs = do {
     (tag, r) \<leftarrow> rd_u8 bs;
     if tag = 0 then do { (v, r) \<leftarrow> rd_u64 r; Some (CInt v, r) }
     else if tag = 1 then do {
       (l, r) \<leftarrow> rd_u32 r;
       if length r < l then None
       else if \<not> mem ALdText then None
       else Some (CText (take l r), drop l r) }
     else if tag = 2 then do { (v, r) \<leftarrow> rd_u64 r; Some (CFloat v, r) }
     else None }"

definition load_consts :: "mem \<Rightarrow> nat \<Rightarrow> bytes \<Rightarrow> wo_const list option" where
  "load_consts mem ccnt bs =
     (if ccnt \<noteq> 0 \<and> \<not> mem ALdConsts then None
      else map_option fst (map_parse (\<lambda>_. load_const mem) [0..<ccnt] bs))"

definition text_const :: "wo_const list \<Rightarrow> nat \<Rightarrow> bool" where
  "text_const ks i \<longleftrightarrow> i < length ks \<and> (case ks ! i of CText s \<Rightarrow> True | _ \<Rightarrow> False)"

section \<open>Classes\<close>

definition load_col :: "kind list \<Rightarrow> nat parser" where
  "load_col ks bs = do {
     (col, r) \<leftarrow> rd_u32 bs;
     if length ks \<le> col then None
     else if ks ! col \<noteq> KScalar \<and> ks ! col \<noteq> KText \<and> ks ! col \<noteq> KFloat then None
     else Some (col, r) }"

definition load_index :: "mem \<Rightarrow> kind list \<Rightarrow> (u32 \<times> nat list) parser" where
  "load_index mem ks bs = do {
     (fl, r) \<leftarrow> rd_u32 bs;
     (cnt, r) \<leftarrow> rd_u32 r;
     if (of_nat fl :: u32) AND NOT 1 \<noteq> 0 then None
     else if cnt = 0 \<or> 8 < cnt then None
     else if \<not> mem ALdPool then None
     else do { (cols, r) \<leftarrow> map_parse (\<lambda>_. load_col ks) [0..<cnt] r; Some ((of_nat fl, cols), r) } }"

definition class_flags_ok :: "u32 \<Rightarrow> bool" where
  "class_flags_ok fl \<longleftrightarrow> fl AND NOT WO_CLASSF_ALL = 0 \<and>
     \<not> (fl AND WO_CLASSF_VOLATILE \<noteq> 0 \<and> fl AND WO_CLASSF_RESIDENT_KEYS \<noteq> 0) \<and>
     \<not> (fl AND (WO_CLASSF_VOLATILE OR WO_CLASSF_RESIDENT_KEYS) \<noteq> 0 \<and> fl AND WO_CLASSF_TABLE = 0)"

text \<open>The markers a field's class may have in place of a class number: \<open>WOB_FIELD_NIL_FLOAT\<close> up to
  \<open>WOB_NONE\<close>.\<close>

definition field_class_ok :: "nat \<Rightarrow> nat \<Rightarrow> bool" where
  "field_class_ok kcnt fc \<longleftrightarrow>
     fc \<in> {0xFFFFFFFF, 0xFFFFFFFE, 0xFFFFFFFD, 0xFFFFFFFC, 0xFFFFFFFB, 0xFFFFFFFA} \<or> fc < kcnt"

definition load_kinds :: "nat \<Rightarrow> kind list parser" where
  "load_kinds n bs = do {
     (ks, r) \<leftarrow> rtake n bs;
     if list_all (\<lambda>b. kind_of_byte b \<noteq> None) ks then Some (map (\<lambda>b. the (kind_of_byte b)) ks, r) else None }"

definition load_class :: "mem \<Rightarrow> wo_const list \<Rightarrow> nat \<Rightarrow> wo_class parser" where
  "load_class mem cs kcnt bs = do {
     (name, r) \<leftarrow> rd_u32 bs;
     (fl, r) \<leftarrow> rd_u32 r;
     (fcnt, r) \<leftarrow> rd_u32 r;
     if \<not> text_const cs name \<or> \<not> class_flags_ok (of_nat fl) \<or> 65535 < fcnt then None
     else do {
       (ks, r) \<leftarrow> load_kinds fcnt r;
       (pad, r) \<leftarrow> rtake ((4 - fcnt mod 4) mod 4) r;
       (names, r) \<leftarrow> map_parse (\<lambda>_. rd_u32) [0..<fcnt] r;
       (fcs, r) \<leftarrow> map_parse (\<lambda>_. rd_u32) [0..<fcnt] r;
       (fes, r) \<leftarrow> map_parse (\<lambda>_. rd_u32) [0..<fcnt] r;
       (icnt, r) \<leftarrow> rd_u32 r;
       if \<not> mem ALdPool \<or> list_ex (\<lambda>nm. nm \<noteq> NO_METHOD \<and> \<not> text_const cs nm) names \<or>
          \<not> list_all (field_class_ok kcnt) fcs \<or> 64 < icnt then None
       else do {
         (ixs, r) \<leftarrow> map_parse (\<lambda>_. load_index mem ks) [0..<icnt] r;
         Some (\<lparr>cls_flags = of_nat fl, kinds = ks, field_class = Some (map of_nat fcs),
           field_elem = Some (map of_nat fes), idx_meta = ixs, cls_name = name, field_names = names\<rparr>, r) } } }"

definition load_classes :: "mem \<Rightarrow> wo_const list \<Rightarrow> nat \<Rightarrow> bytes \<Rightarrow> wo_class list option" where
  "load_classes mem cs kcnt bs =
     (if kcnt \<noteq> 0 \<and> \<not> mem ALdClasses then None
      else map_option fst (map_parse (\<lambda>_. load_class mem cs kcnt) [0..<kcnt] bs))"

section \<open>Interfaces and vtable rows\<close>

text \<open>An interface is its number of methods; its slots follow those of the interfaces before it.\<close>

definition load_iface :: "wo_const list \<Rightarrow> nat parser" where
  "load_iface cs bs = do {
     (name, r) \<leftarrow> rd_u32 bs;
     (mc, r) \<leftarrow> rd_u32 r;
     if \<not> text_const cs name \<or> mc = 0 \<or> 1024 < mc then None else Some (mc, r) }"

definition slot_base :: "nat list \<Rightarrow> nat \<Rightarrow> nat" where
  "slot_base mcs i = sum_list (take i mcs) mod 2 ^ 32"

definition load_row :: "mem \<Rightarrow> nat \<Rightarrow> nat list \<Rightarrow> wo_vtabent list parser" where
  "load_row mem kcnt mcs bs = do {
     (cid, r) \<leftarrow> rd_u32 bs;
     (iid, r) \<leftarrow> rd_u32 r;
     if kcnt \<le> cid \<or> length mcs \<le> iid \<or> \<not> mem ALdVtab then None
     else do {
       (ms, r) \<leftarrow> map_parse (\<lambda>_. rd_u32) [0..<mcs ! iid] r;
       Some (map (\<lambda>j. \<lparr>v_class = cid, v_slot = (slot_base mcs iid + j) mod 2 ^ 32, v_method = ms ! j\<rparr>)
         [0..<mcs ! iid], r) } }"

definition load_ifaces :: "mem \<Rightarrow> wo_const list \<Rightarrow> nat \<Rightarrow> nat \<Rightarrow> bytes \<Rightarrow> (nat \<times> wo_vtabent list) option" where
  "load_ifaces mem cs kcnt icnt bs =
     (if icnt \<noteq> 0 \<and> \<not> mem ALdIface then None
      else do {
        (mcs, r) \<leftarrow> map_parse (\<lambda>_. load_iface cs) [0..<icnt] bs;
        (vrows, r) \<leftarrow> rd_u32 r;
        (rs, r) \<leftarrow> map_parse (\<lambda>_. load_row mem kcnt mcs) [0..<vrows] r;
        Some (slot_base mcs icnt, concat rs) })"

section \<open>Methods\<close>

definition rd_u16 :: "nat parser" where
  "rd_u16 bs = map_option (\<lambda>(x, r). (of_le x, r)) (rtake 2 bs)"

definition load_line :: "(nat \<times> nat) parser" where
  "load_line bs = do { (pc, r) \<leftarrow> rd_u32 bs; (ln, r) \<leftarrow> rd_u32 r; Some ((pc, ln), r) }"

definition load_drop :: "wo_dropent parser" where
  "load_drop bs = do {
     (pc, r) \<leftarrow> rd_u32 bs; (ow, r) \<leftarrow> rd_u64 r; (gc, r) \<leftarrow> rd_u64 r;
     Some (\<lparr>d_pc = pc, d_owned = ow, d_gc = gc\<rparr>, r) }"

text \<open>A table of positions: ascending and inside the code.\<close>

definition pcs_ok :: "nat \<Rightarrow> nat list \<Rightarrow> bool" where
  "pcs_ok n pcs \<longleftrightarrow> list_all (\<lambda>pc. pc < n) pcs \<and> successively (<) pcs"

definition mask_ok :: "nat \<Rightarrow> wo_dropent \<Rightarrow> bool" where
  "mask_ok regc d \<longleftrightarrow> \<not> (regc < 64 \<and> drop_bit regc (d_owned d OR d_gc d) \<noteq> 0)"

definition load_method :: "mem \<Rightarrow> wo_const list \<Rightarrow> nat \<Rightarrow> wo_methodrec parser" where
  "load_method mem cs kcnt bs = do {
     (name, r) \<leftarrow> rd_u32 bs;
     (cid, r) \<leftarrow> rd_u32 r;
     (ac, r) \<leftarrow> rd_u8 r;
     (rc, r) \<leftarrow> rd_u8 r;
     (reserved, r) \<leftarrow> rd_u16 r;
     (clen, r) \<leftarrow> rd_u32 r;
     if \<not> text_const cs name \<or> (cid \<noteq> NO_METHOD \<and> kcnt \<le> cid) \<or> unat rc < 1 \<or> WO_MAX_REGS < unat rc \<or>
        unat rc < unat ac \<or> clen = 0 \<or> clen mod 4 \<noteq> 0 \<or> \<not> mem ALdTable then None
     else do {
       (ins, r) \<leftarrow> map_parse (\<lambda>_. rd_u32) [0..<clen div 4] r;
       (lcnt, r) \<leftarrow> rd_u32 r;
       if clen div 4 < lcnt then None
       else do {
         (lns, r) \<leftarrow> map_parse (\<lambda>_. load_line) [0..<lcnt] r;
         (dcnt, r) \<leftarrow> rd_u32 r;
         if \<not> pcs_ok (clen div 4) (map fst lns) \<or> clen div 4 < dcnt then None
         else do {
           (ds, r) \<leftarrow> map_parse (\<lambda>_. load_drop) [0..<dcnt] r;
           if \<not> pcs_ok (clen div 4) (map d_pc ds) \<or> \<not> list_all (mask_ok (unat rc)) ds then None
           else Some (\<lparr>m_name = name, m_class = cid, arg_cnt = unat ac, reg_cnt = unat rc,
             code = map of_nat ins, lines = lns, drops = ds\<rparr>, r) } } } }"

definition load_methods :: "mem \<Rightarrow> wo_const list \<Rightarrow> nat \<Rightarrow> nat \<Rightarrow> bytes \<Rightarrow> wo_methodrec list option" where
  "load_methods mem cs kcnt mcnt bs =
     (if mcnt \<noteq> 0 \<and> \<not> mem ALdMethods then None
      else map_option fst (map_parse (\<lambda>_. load_method mem cs kcnt) [0..<mcnt] bs))"

section \<open>The instructions\<close>

definition jump_ok :: "wo_methodrec \<Rightarrow> nat \<Rightarrow> u32 \<Rightarrow> bool" where
  "jump_ok me pc i \<longleftrightarrow> 0 \<le> int pc + 1 + wo_ins_sbx i \<and> int pc + 1 + wo_ins_sbx i < int (length (code me))"

definition builtin_ok :: "wo_methodrec \<Rightarrow> nat \<Rightarrow> nat \<Rightarrow> bool" where
  "builtin_ok me b c \<longleftrightarrow> c \<le> WO_B_MAX \<and>
     (if c = WO_B_MULTI_NEW then b \<le> WO_K_MAX
      else if c = WO_B_MAP_NEW then b mod 16 \<le> WO_K_MAX \<and> b div 16 \<le> WO_K_MAX
      else if b_arity c \<noteq> 0 then b < reg_cnt me \<and> b + b_arity c - 1 < reg_cnt me
      else True)"

definition op_ok :: "wo_module \<Rightarrow> wo_methodrec \<Rightarrow> nat \<Rightarrow> u32 \<Rightarrow> wop \<Rightarrow> bool" where
  "op_ok m me pc i op =
     (let ra = wo_ins_a i < reg_cnt me; rb = wo_ins_b i < reg_cnt me; rc = wo_ins_c i < reg_cnt me;
          jump = jump_ok me pc i
      in case op of
        NOP \<Rightarrow> True
      | LOADK \<Rightarrow> ra \<and> wo_ins_bx i < length (kconsts m)
      | MOVE \<Rightarrow> ra \<and> rb
      | NEG \<Rightarrow> ra \<and> rb
      | FNEG \<Rightarrow> ra \<and> rb
      | ADD \<Rightarrow> ra \<and> rb \<and> rc
      | SUB \<Rightarrow> ra \<and> rb \<and> rc
      | MUL \<Rightarrow> ra \<and> rb \<and> rc
      | DIV \<Rightarrow> ra \<and> rb \<and> rc
      | CONCAT \<Rightarrow> ra \<and> rb \<and> rc
      | EQ \<Rightarrow> ra \<and> rb \<and> rc
      | LT \<Rightarrow> ra \<and> rb \<and> rc
      | LE \<Rightarrow> ra \<and> rb \<and> rc
      | EQS \<Rightarrow> ra \<and> rb \<and> rc
      | FADD \<Rightarrow> ra \<and> rb \<and> rc
      | FSUB \<Rightarrow> ra \<and> rb \<and> rc
      | FMUL \<Rightarrow> ra \<and> rb \<and> rc
      | FDIV \<Rightarrow> ra \<and> rb \<and> rc
      | FEQ \<Rightarrow> ra \<and> rb \<and> rc
      | FLT \<Rightarrow> ra \<and> rb \<and> rc
      | FLE \<Rightarrow> ra \<and> rb \<and> rc
      | BAND \<Rightarrow> ra \<and> rb \<and> rc
      | BOR \<Rightarrow> ra \<and> rb \<and> rc
      | BXOR \<Rightarrow> ra \<and> rb \<and> rc
      | SHL \<Rightarrow> ra \<and> rb \<and> rc
      | SHR \<Rightarrow> ra \<and> rb \<and> rc
      | JMP \<Rightarrow> jump
      | JZ \<Rightarrow> ra \<and> jump
      | CALL \<Rightarrow> ra \<and> wo_ins_bx i < length (methods m) \<and> wo_ins_a i + arg_cnt (methods m ! wo_ins_bx i) \<le> reg_cnt me
      | ICALL \<Rightarrow> ra \<and> wo_ins_bx i < slot_cnt m
      | RET0 \<Rightarrow> True
      | NEW \<Rightarrow> ra \<and> wo_ins_bx i < length (mclasses m)
      | GETF \<Rightarrow> ra \<and> rb
      | SETF \<Rightarrow> ra \<and> rc
      | DROP \<Rightarrow> ra
      | BORROW_S \<Rightarrow> ra
      | BORROW_X \<Rightarrow> ra
      | RELEASE_S \<Rightarrow> ra
      | RELEASE_X \<Rightarrow> ra
      | RET \<Rightarrow> ra
      | BUILTIN \<Rightarrow> ra \<and> builtin_ok me (wo_ins_b i) (wo_ins_c i)
      | DB_STUB \<Rightarrow> True
      | TRAP \<Rightarrow> True
      | TRY \<Rightarrow> ra \<and> jump
      | ENDTRY \<Rightarrow> True)"

definition ins_ok :: "wo_module \<Rightarrow> wo_methodrec \<Rightarrow> nat \<Rightarrow> u32 \<Rightarrow> bool" where
  "ins_ok m me pc i \<longleftrightarrow> (case wop_of i of None \<Rightarrow> False | Some op \<Rightarrow> op_ok m me pc i op)"

definition terminator :: "u32 \<Rightarrow> bool" where
  "terminator i \<longleftrightarrow> wop_of i \<in> {Some RET, Some RET0, Some TRAP, Some DB_STUB, Some JMP}"

definition method_ok :: "wo_module \<Rightarrow> wo_methodrec \<Rightarrow> bool" where
  "method_ok m me \<longleftrightarrow> list_all (\<lambda>pc. ins_ok m me pc (code me ! pc)) [0..<length (code me)] \<and>
     terminator (last (code me))"

section \<open>The vtable\<close>

definition v_key :: "wo_vtabent \<Rightarrow> nat \<times> nat" where "v_key e = (v_class e, v_slot e)"

definition vtab_cmp :: "wo_vtabent \<Rightarrow> wo_vtabent \<Rightarrow> int" where
  "vtab_cmp x y =
     (if v_class x \<noteq> v_class y then (if v_class x < v_class y then - 1 else 1)
      else if v_slot x \<noteq> v_slot y then (if v_slot x < v_slot y then - 1 else 1)
      else 0)"

text \<open>\<open>qsort\<close> by \<open>vtab_cmp\<close>; two equal keys are refused afterwards, so the order of equals does not matter.\<close>

definition sort_vtabs :: "wo_vtabent list \<Rightarrow> wo_vtabent list option" where
  "sort_vtabs vs =
     (let ws = sort_key v_key vs in
      if successively (\<lambda>x y. \<not> (v_class y = v_class x \<and> v_slot y = v_slot x)) ws then Some ws else None)"

section \<open>The loader\<close>

definition entry_ok :: "wo_module \<Rightarrow> nat \<Rightarrow> bool" where
  "entry_ok m e \<longleftrightarrow> e \<noteq> NO_METHOD \<longrightarrow>
     e < length (methods m) \<and> arg_cnt (methods m ! e) \<le> 1 \<and> m_class (methods m ! e) = NO_METHOD"

definition wo_load_buf :: "mem \<Rightarrow> bytes \<Rightarrow> wo_module option" where
  "wo_load_buf mem buf = do {
     (magic, r) \<leftarrow> rd_u32 buf; (ver, r) \<leftarrow> rd_u32 r;
     (coff, r) \<leftarrow> rd_u32 r; (ccnt, r) \<leftarrow> rd_u32 r;
     (koff, r) \<leftarrow> rd_u32 r; (kcnt, r) \<leftarrow> rd_u32 r;
     (ioff, r) \<leftarrow> rd_u32 r; (icnt, r) \<leftarrow> rd_u32 r;
     (moff, r) \<leftarrow> rd_u32 r; (mcnt, r) \<leftarrow> rd_u32 r; (ent, r) \<leftarrow> rd_u32 r;
     if magic \<noteq> WOB_MAGIC \<or> ver \<noteq> WOB_VERSION then None
     else if length buf < coff \<or> length buf < koff \<or> length buf < ioff \<or> length buf < moff then None
     else do {
       cs \<leftarrow> load_consts mem ccnt (drop coff buf);
       ks \<leftarrow> load_classes mem cs kcnt (drop koff buf);
       (slots, vs) \<leftarrow> load_ifaces mem cs kcnt icnt (drop ioff buf);
       ms \<leftarrow> load_methods mem cs kcnt mcnt (drop moff buf);
       let m = \<lparr>kconsts = cs, mclasses = ks, slot_cnt = slots, vtabs = vs, methods = ms, entry = NO_METHOD\<rparr> in
       if \<not> list_all (method_ok m) ms \<or> \<not> list_all (\<lambda>e. v_method e < length ms) vs then None
       else do {
         ws \<leftarrow> sort_vtabs vs;
         if \<not> entry_ok m ent then None else Some (m\<lparr>vtabs := ws, entry := ent\<rparr>) } } }"

end
