(* ===== verification/Vm.thy ===== *)
theory Vm
  imports Loader
begin

text \<open>
  The register interpreter (\<open>vm_run\<close> and what it calls in \<open>runtime/src/vm.c\<close>, \<open>borrow.c\<close>): one
  instruction of one fiber as a function from state to outcome.

  A fiber is its register array, its frames and its catch regions, the innermost first; the current
  frame's \<open>f_pc\<close> is the instruction under execution. Objects have addresses, as in the code; a
  word that is dereferenced and is no object's address is the outcome \<open>Wild\<close>, and an access outside
  the frame's window, the code or a table of the module is \<open>Stray\<close> (the C code does not test for
  either). What the interpreter calls in other files is a record of functions (\<open>hooks\<close>): the arena,
  the collector (\<open>Gc\<close>), the drop of an owned value, the builtins, and the arithmetic of the floating
  point unit. The text of a trap's message is left out.
\<close>

section \<open>State\<close>

record wo_frame =
  f_method :: nat
  f_pc :: nat
  f_base :: nat

record wo_catch =
  c_depth :: nat
  c_pc :: nat
  c_reg :: nat

record wo_err =
  e_code :: nat
  e_line :: nat
  e_method :: bytes

record wo_fiber =
  regs :: "u64 list"
  frames :: "wo_frame list"
  catches :: "wo_catch list"
  caught :: wo_err

definition WO_STACK_SLOTS :: nat where "WO_STACK_SLOTS = 4096"
definition WO_MAX_FRAMES :: nat where "WO_MAX_FRAMES = 256"
definition WO_MAX_CATCH :: nat where "WO_MAX_CATCH = 64"

text \<open>An object: the class number of its header, its borrow word, and its slots or bytes; \<open>HNative\<close> is a
  container or a \<open>Bytes\<close>, which the interpreter itself does not look into.\<close>

datatype hbody = HFields "u64 list" | HText bytes | HNative

record hobj =
  h_class :: nat
  h_borrow :: u32
  h_body :: hbody

record vheap =
  objs :: "u64 \<Rightarrow> hobj option"

definition WO_CLS_STR :: nat where "WO_CLS_STR = 0xFFFFFFFC"
definition WO_BORROW_FREE :: u32 where "WO_BORROW_FREE = 0"
definition WO_BORROW_EXCL :: u32 where "WO_BORROW_EXCL = 0xFFFFFFFF"

text \<open>What a builtin answers: the new value of the result register, a trap, a wait that re-executes the
  instruction or goes past it (the flag), a wait that could not be armed, or a stop.\<close>

datatype bres = BOk "u64 option" | BTrap nat | BParked bool "u64 option" | BUnarmed "u64 option" | BStopped

record 'h hooks =
  k_const :: "nat \<Rightarrow> u64"
  k_arena :: "nat \<Rightarrow> 'h \<Rightarrow> u64 option \<times> 'h"
  k_track :: "u64 \<Rightarrow> 'h \<Rightarrow> 'h"
  k_drop :: "u64 \<Rightarrow> 'h \<Rightarrow> 'h"
  k_marking :: "'h \<Rightarrow> bool"
  k_shade :: "u64 \<Rightarrow> 'h \<Rightarrow> 'h"
  k_safepoint :: "u64 list \<Rightarrow> 'h \<Rightarrow> 'h"
  k_builtin :: "u32 \<Rightarrow> u64 list \<Rightarrow> wo_err \<Rightarrow> 'h \<Rightarrow> bres \<times> 'h"
  k_fpu :: "wop \<Rightarrow> u64 \<Rightarrow> u64 \<Rightarrow> u64"

record 'h vmst =
  vmheap :: 'h
  fib :: wo_fiber
  budget :: int
  budget0 :: int

datatype 'h vres =
    Run "'h vmst" | Slice "'h vmst" | Done u64 "'h vmst" | Uncaught wo_err "'h vmst"
  | Park "'h vmst" | Stopped "'h vmst" | Stray | Wild

text \<open>The numbers of the trap codes, their positions in the enum of \<open>wob.h\<close>.\<close>

fun trap_code :: "trap \<Rightarrow> nat" where
  "trap_code WO_T_DIV0 = 1" | "trap_code WO_T_BORROW = 2" | "trap_code WO_T_STACK = 3"
| "trap_code WO_T_OOM = 4" | "trap_code WO_T_DB = 5" | "trap_code WO_T_BOUNDS = 6"
| "trap_code WO_T_KEY = 7" | "trap_code WO_T_EXPLICIT = 8" | "trap_code WO_T_IO = 9"
| "trap_code WO_T_UNIQUE = 10" | "trap_code WO_T_FK = 11" | "trap_code WO_T_SHIFT = 12"
| "trap_code WO_T_ACTOR = 13"

section \<open>Drop tables and unwinding\<close>

definition vm_dropent :: "wo_methodrec \<Rightarrow> nat \<Rightarrow> wo_dropent option" where
  "vm_dropent me pc =
     (let es = takeWhile (\<lambda>d. d_pc d \<le> pc) (drops me) in if es = [] then None else Some (last es))"

text \<open>One register of a dying frame: an owned value is dropped, a traced reference goes away.\<close>

definition release_reg ::
  "'h hooks \<Rightarrow> nat \<Rightarrow> u64 \<Rightarrow> u64 \<Rightarrow> nat \<Rightarrow> u64 list \<times> 'h \<Rightarrow> u64 list \<times> 'h" where
  "release_reg k base ow gc r st =
     (case st of (rs, h) \<Rightarrow>
        let st1 = (if bit ow r \<and> rs ! (base + r) \<noteq> 0 then (rs[base + r := 0], k_drop k (rs ! (base + r)) h) else (rs, h))
        in if bit gc r \<and> fst st1 ! (base + r) \<noteq> 0 then ((fst st1)[base + r := 0], snd st1) else st1)"

definition vm_release_frame ::
  "wo_module \<Rightarrow> 'h hooks \<Rightarrow> wo_frame \<Rightarrow> nat \<Rightarrow> nat option \<Rightarrow> u64 list \<times> 'h \<Rightarrow> u64 list \<times> 'h" where
  "vm_release_frame m k f pc keep st =
     (let me = methods m ! f_method f in
      case vm_dropent me pc of
        None \<Rightarrow> st
      | Some e \<Rightarrow>
          let kept = (case keep of None \<Rightarrow> None | Some kp \<Rightarrow> vm_dropent me kp);
              ow = d_owned e AND NOT (case kept of None \<Rightarrow> 0 | Some q \<Rightarrow> d_owned q);
              gc = d_gc e AND NOT (case kept of None \<Rightarrow> 0 | Some q \<Rightarrow> d_gc q)
          in fold (release_reg k (f_base f) ow gc) [0..<reg_cnt me] st)"

text \<open>\<open>n\<close> frames die; the governing instruction of the innermost is its own position, of the others the
  call before the saved one.\<close>

fun vm_unwind ::
  "wo_module \<Rightarrow> 'h hooks \<Rightarrow> bool \<Rightarrow> nat \<Rightarrow> wo_frame list \<Rightarrow> u64 list \<times> 'h \<Rightarrow> wo_frame list \<times> u64 list \<times> 'h" where
  "vm_unwind m k inner (Suc n) (f # fs) st =
     vm_unwind m k False n fs (vm_release_frame m k f (if inner then f_pc f else f_pc f - 1) None st)"
| "vm_unwind m k inner n fs st = (fs, st)"

definition vm_fill_err :: "wo_module \<Rightarrow> nat \<Rightarrow> wo_frame \<Rightarrow> wo_err option" where
  "vm_fill_err m tcode f =
     (let me = methods m ! f_method f;
          ls = takeWhile (\<lambda>l. fst l \<le> f_pc f) (lines me)
      in case kconsts m ! m_name me of
           CText s \<Rightarrow> Some \<lparr>e_code = tcode, e_line = (if ls = [] then 0 else snd (last ls)), e_method = take 63 s\<rparr>
         | _ \<Rightarrow> None)"

definition vm_trap :: "wo_module \<Rightarrow> 'h hooks \<Rightarrow> nat \<Rightarrow> 'h vmst \<Rightarrow> 'h vres" where
  "vm_trap m k tcode st =
     (let fb = fib st in
      case vm_fill_err m tcode (hd (frames fb)) of
        None \<Rightarrow> Stray
      | Some err \<Rightarrow>
          (case catches fb of
             [] \<Rightarrow>
               (case vm_unwind m k True (length (frames fb)) (frames fb) (regs fb, vmheap st) of
                  (fs, rs, h) \<Rightarrow>
                    Uncaught err (st\<lparr>vmheap := h, fib := fb\<lparr>regs := rs, frames := fs, caught := err\<rparr>\<rparr>))
           | c # cs \<Rightarrow>
               (case vm_unwind m k True (length (frames fb) - c_depth c) (frames fb) (regs fb, vmheap st) of
                  ([], rs, h) \<Rightarrow> Stray
                | (cf # fs, rs, h) \<Rightarrow>
                    (case vm_release_frame m k cf (if c_depth c = length (frames fb) then f_pc cf else f_pc cf - 1)
                       (Some (c_pc c)) (rs, h) of
                       (rs', h') \<Rightarrow>
                         Run (st\<lparr>vmheap := h',
                           fib := fb\<lparr>regs := rs', frames := cf\<lparr>f_pc := c_pc c\<rparr> # fs, catches := cs, caught := err\<rparr>\<rparr>)))))"

section \<open>The collector's roots\<close>

definition frame_roots :: "wo_module \<Rightarrow> u64 list \<Rightarrow> bool \<Rightarrow> wo_frame \<Rightarrow> u64 list" where
  "frame_roots m rs inner f =
     (let me = methods m ! f_method f in
      case vm_dropent me (if inner then f_pc f else f_pc f - 1) of
        None \<Rightarrow> []
      | Some e \<Rightarrow>
          map (\<lambda>r. rs ! (f_base f + r))
            (filter (\<lambda>r. bit (d_gc e OR d_owned e) r \<and> rs ! (f_base f + r) \<noteq> 0) [0..<reg_cnt me]))"

definition vm_gc_roots_fiber :: "wo_module \<Rightarrow> wo_fiber \<Rightarrow> u64 list" where
  "vm_gc_roots_fiber m fb =
     (case frames fb of
        [] \<Rightarrow> []
      | f # fs \<Rightarrow> frame_roots m (regs fb) True f @ concat (map (frame_roots m (regs fb) False) fs))"

definition gc_safepoint :: "wo_module \<Rightarrow> 'h hooks \<Rightarrow> 'h vmst \<Rightarrow> 'h vmst" where
  "gc_safepoint m k st = st\<lparr>vmheap := k_safepoint k (vm_gc_roots_fiber m (fib st)) (vmheap st)\<rparr>"

section \<open>Borrow words\<close>

definition wo_borrow_shared :: "u32 \<Rightarrow> u32 option" where
  "wo_borrow_shared b = (if b = WO_BORROW_EXCL then None else Some (b + 1))"

definition wo_borrow_excl :: "u32 \<Rightarrow> u32 option" where
  "wo_borrow_excl b = (if b \<noteq> WO_BORROW_FREE then None else Some WO_BORROW_EXCL)"

definition wo_release_shared :: "u32 \<Rightarrow> u32" where "wo_release_shared b = b - 1"
definition wo_release_excl :: "u32 \<Rightarrow> u32" where "wo_release_excl b = WO_BORROW_FREE"

section \<open>Floating point comparison\<close>

text \<open>The order of the doubles on their bits: sign and magnitude, the two zeros being equal.\<close>

definition f64_key :: "u64 \<Rightarrow> int" where
  "f64_key b = (if bit b 63 then - uint (b AND 0x7FFFFFFFFFFFFFFF) else uint b)"

definition f64_eq :: "u64 \<Rightarrow> u64 \<Rightarrow> bool" where
  "f64_eq a b \<longleftrightarrow> \<not> f64_is_nan a \<and> \<not> f64_is_nan b \<and> f64_key a = f64_key b"

definition f64_lt :: "u64 \<Rightarrow> u64 \<Rightarrow> bool" where
  "f64_lt a b \<longleftrightarrow> \<not> f64_is_nan a \<and> \<not> f64_is_nan b \<and> f64_key a < f64_key b"

definition f64_le :: "u64 \<Rightarrow> u64 \<Rightarrow> bool" where
  "f64_le a b \<longleftrightarrow> \<not> f64_is_nan a \<and> \<not> f64_is_nan b \<and> f64_key a \<le> f64_key b"

definition f64_neg :: "u64 \<Rightarrow> u64" where "f64_neg b = b XOR 0x8000000000000000"

definition wo_float_cmp :: "u64 \<Rightarrow> u64 \<Rightarrow> int" where
  "wo_float_cmp a b =
     (let an = f64_is_nan a; bn = f64_is_nan b in
      if an \<or> bn then (if an \<and> bn then 0 else if an then 1 else - 1)
      else if f64_lt a b then - 1 else if f64_lt b a then 1 else 0)"

section \<open>Registers\<close>

definition cur_frame :: "'h vmst \<Rightarrow> wo_frame" where "cur_frame st = hd (frames (fib st))"

definition cur_method :: "wo_module \<Rightarrow> 'h vmst \<Rightarrow> wo_methodrec" where
  "cur_method m st = methods m ! f_method (cur_frame st)"

definition in_window :: "wo_module \<Rightarrow> 'h vmst \<Rightarrow> nat \<Rightarrow> bool" where
  "in_window m st r \<longleftrightarrow> r < reg_cnt (cur_method m st) \<and> f_base (cur_frame st) + r < length (regs (fib st))"

definition getr :: "wo_module \<Rightarrow> 'h vmst \<Rightarrow> nat \<Rightarrow> (u64 \<Rightarrow> 'h vres) \<Rightarrow> 'h vres" where
  "getr m st r g = (if in_window m st r then g (regs (fib st) ! (f_base (cur_frame st) + r)) else Stray)"

definition put_reg :: "nat \<Rightarrow> u64 \<Rightarrow> 'h vmst \<Rightarrow> 'h vmst" where
  "put_reg r v st = st\<lparr>fib := (fib st)\<lparr>regs := (regs (fib st))[f_base (cur_frame st) + r := v]\<rparr>\<rparr>"

definition set_pc :: "nat \<Rightarrow> 'h vmst \<Rightarrow> 'h vmst" where
  "set_pc pc st = st\<lparr>fib := (fib st)\<lparr>frames := (cur_frame st)\<lparr>f_pc := pc\<rparr> # tl (frames (fib st))\<rparr>\<rparr>"

text \<open>The next instruction; a result in a register, and the next instruction.\<close>

definition go :: "'h vmst \<Rightarrow> 'h vres" where "go st = Run (set_pc (f_pc (cur_frame st) + 1) st)"

definition setr :: "wo_module \<Rightarrow> 'h vmst \<Rightarrow> nat \<Rightarrow> u64 \<Rightarrow> 'h vres" where
  "setr m st r v = (if in_window m st r then go (put_reg r v st) else Stray)"

definition op2 :: "wo_module \<Rightarrow> 'h vmst \<Rightarrow> u32 \<Rightarrow> (u64 \<Rightarrow> u64 \<Rightarrow> u64) \<Rightarrow> 'h vres" where
  "op2 m st i g = getr m st (wo_ins_b i) (\<lambda>x. getr m st (wo_ins_c i) (\<lambda>y. setr m st (wo_ins_a i) (g x y)))"

definition truth :: "bool \<Rightarrow> u64" where "truth b = (if b then 1 else 0)"

section \<open>Objects\<close>

text \<open>A check of a word that should be an object: the object, a trap, or no object there.\<close>

datatype 'a chk = Good 'a | Bad trap | Lost

definition recv_check :: "wo_module \<Rightarrow> 'z vheap_scheme \<Rightarrow> u64 \<Rightarrow> nat \<Rightarrow> hobj chk" where
  "recv_check m h v fidx =
     (if v = 0 then Bad WO_T_BOUNDS
      else
        (case objs h v of
           None \<Rightarrow> Lost
         | Some o1 \<Rightarrow>
             if length (mclasses m) \<le> h_class o1 then Bad WO_T_BOUNDS
             else if length (kinds (mclasses m ! h_class o1)) \<le> fidx then Bad WO_T_BOUNDS
             else Good o1))"

definition str_check :: "'z vheap_scheme \<Rightarrow> u64 \<Rightarrow> bytes chk" where
  "str_check h v =
     (if v = 0 then Bad WO_T_BOUNDS
      else
        (case objs h v of
           None \<Rightarrow> Lost
         | Some o1 \<Rightarrow>
             if h_class o1 \<noteq> WO_CLS_STR then Bad WO_T_BOUNDS
             else (case h_body o1 of HText s \<Rightarrow> Good s | _ \<Rightarrow> Lost)))"

definition on_chk ::
  "wo_module \<Rightarrow> 'h hooks \<Rightarrow> 'h vmst \<Rightarrow> 'a chk \<Rightarrow> ('a \<Rightarrow> 'h vres) \<Rightarrow> 'h vres" where
  "on_chk m k st c g = (case c of Good x \<Rightarrow> g x | Bad t \<Rightarrow> vm_trap m k (trap_code t) st | Lost \<Rightarrow> Wild)"

definition put_obj :: "u64 \<Rightarrow> hobj \<Rightarrow> 'z vheap_scheme \<Rightarrow> 'z vheap_scheme" where
  "put_obj a o1 h = h\<lparr>objs := (objs h)(a \<mapsto> o1)\<rparr>"

text \<open>An allocation of \<open>obj.c\<close>: a block of the arena, written with a fresh header.\<close>

definition new_obj ::
  "'z vheap_scheme hooks \<Rightarrow> nat \<Rightarrow> hobj \<Rightarrow> 'z vheap_scheme \<Rightarrow> (u64 \<times> 'z vheap_scheme) option" where
  "new_obj k sz o1 h =
     (case k_arena k sz h of (None, h1) \<Rightarrow> None | (Some a, h1) \<Rightarrow> Some (a, put_obj a o1 h1))"

definition wo_str_new :: "'z vheap_scheme hooks \<Rightarrow> bytes \<Rightarrow> 'z vheap_scheme \<Rightarrow> (u64 \<times> 'z vheap_scheme) option" where
  "wo_str_new k s h = new_obj k (20 + length s) \<lparr>h_class = WO_CLS_STR, h_borrow = 0, h_body = HText s\<rparr> h"

definition vm_obj_new ::
  "wo_module \<Rightarrow> 'z vheap_scheme hooks \<Rightarrow> nat \<Rightarrow> 'z vheap_scheme \<Rightarrow> (u64 \<times> 'z vheap_scheme) option" where
  "vm_obj_new m k cid h =
     (let c = mclasses m ! cid; n = length (kinds c) in
      case new_obj k (16 + n * 8) \<lparr>h_class = cid, h_borrow = 0, h_body = HFields (replicate n 0)\<rparr> h of
        None \<Rightarrow> None
      | Some (a, h1) \<Rightarrow> Some (a, if cls_flags c AND WO_CLASSF_GC \<noteq> 0 then k_track k a h1 else h1))"

section \<open>Calls\<close>

text \<open>The window of the callee starts at the caller's register \<open>a\<close>; what is not an argument is zeroed.\<close>

definition enter :: "wo_module \<Rightarrow> 'h hooks \<Rightarrow> nat \<Rightarrow> nat \<Rightarrow> 'h vmst \<Rightarrow> 'h vres" where
  "enter m k mi a st =
     (if length (methods m) \<le> mi then Stray
      else
        let callee = methods m ! mi; nbase = f_base (cur_frame st) + a; fb = fib st in
        if WO_MAX_FRAMES \<le> length (frames fb) then vm_trap m k (trap_code WO_T_STACK) st
        else if WO_STACK_SLOTS < nbase + reg_cnt callee then vm_trap m k (trap_code WO_T_STACK) st
        else
          Run (st\<lparr>fib := fb\<lparr>
            regs := take (nbase + arg_cnt callee) (regs fb) @ replicate (reg_cnt callee - arg_cnt callee) 0 @
              drop (nbase + reg_cnt callee) (regs fb),
            frames := \<lparr>f_method = mi, f_pc = 0, f_base = nbase\<rparr> # (cur_frame st)\<lparr>f_pc := f_pc (cur_frame st) + 1\<rparr> # tl (frames fb)\<rparr>\<rparr>))"

text \<open>The frame goes, and the try regions it left open.\<close>

definition leave :: "u64 \<Rightarrow> 'h vmst \<Rightarrow> 'h vres" where
  "leave rv st =
     (let fb = fib st; fs = tl (frames fb);
          st1 = st\<lparr>fib := fb\<lparr>regs := (regs fb)[f_base (cur_frame st) := rv], frames := fs,
                  catches := dropWhile (\<lambda>c. length fs < c_depth c) (catches fb)\<rparr>\<rparr>
      in if fs = [] then Done rv st1 else Run st1)"

text \<open>The binary search in the vtable.\<close>

function vtab_find :: "wo_vtabent list \<Rightarrow> nat \<Rightarrow> nat \<Rightarrow> nat \<Rightarrow> nat \<Rightarrow> wo_vtabent option" where
  "vtab_find vs cid slot lo hi =
     (if hi \<le> lo then None
      else
        let mid = lo + (hi - lo) div 2; e = vs ! mid in
        if v_class e < cid \<or> (v_class e = cid \<and> v_slot e < slot) then vtab_find vs cid slot (mid + 1) hi
        else if v_class e = cid \<and> v_slot e = slot then Some e
        else vtab_find vs cid slot lo mid)"
  by pat_completeness auto

termination
  by (relation "measure (\<lambda>(vs, cid, slot, lo, hi). hi - lo)") auto

declare vtab_find.simps [simp del]

section \<open>Builtins\<close>

definition B_DB_INSERT :: nat where "B_DB_INSERT = 61"

text \<open>The registers a builtin reads: those of its arity; the ids 84 to 95, which the loader's table
  leaves out, by their own code; the insert one for each field of the class its first register names.\<close>

definition b_reads :: "wo_module \<Rightarrow> nat \<Rightarrow> u64 \<Rightarrow> nat" where
  "b_reads m c w =
     (if c = B_DB_INSERT then
        1 + (let cid = unat (ucast w :: u32) in if cid < length (mclasses m) then length (kinds (mclasses m ! cid)) else 0)
      else if 84 \<le> c \<and> c \<le> 95 then [0, 1, 1, 2, 2, 3, 3, 3, 2, 3, 1, 1] ! (c - 84)
      else b_arity c)"

definition vm_builtin :: "wo_module \<Rightarrow> 'h hooks \<Rightarrow> u32 \<Rightarrow> 'h vmst \<Rightarrow> 'h vres" where
  "vm_builtin m k i st =
     (let b = wo_ins_b i; base = f_base (cur_frame st); rs = regs (fib st);
          n = b_reads m (wo_ins_c i) (if b < reg_cnt (cur_method m st) then rs ! (base + b) else 0)
      in if n \<noteq> 0 \<and> \<not> in_window m st (b + n - 1) then Stray
         else
           (case k_builtin k i (take n (drop (base + b) rs)) (caught (fib st)) (vmheap st) of
              (res, h) \<Rightarrow>
                let st1 = st\<lparr>vmheap := h\<rparr>;
                    put = (\<lambda>w. case w of None \<Rightarrow> st1 | Some v \<Rightarrow> put_reg (wo_ins_a i) v st1) in
                if \<not> in_window m st (wo_ins_a i) then Stray
                else
                  (case res of
                     BOk w \<Rightarrow> go (put w)
                   | BTrap t \<Rightarrow> vm_trap m k t st1
                   | BParked past w \<Rightarrow> Park (if past then set_pc (f_pc (cur_frame st) + 1) (put w) else put w)
                   | BUnarmed w \<Rightarrow> vm_trap m k (trap_code WO_T_IO) (put w)
                   | BStopped \<Rightarrow>
                       (case vm_unwind m k True (length (frames (fib st))) (frames (fib st)) (rs, h) of
                          (fs, rs', h') \<Rightarrow>
                            Stopped (st1\<lparr>vmheap := h',
                              fib := (fib st)\<lparr>regs := rs', frames := fs, catches := []\<rparr>\<rparr>)))))"

end
