(* ===== verification/VmStep.thy ===== *)
theory VmStep
  imports Vm "HOL-Library.Signed_Division"
begin

text \<open>
  The instructions of the interpreter (the case bodies of \<open>vm_run\<close>), one step of a fiber, runs of
  steps, and the entry of a call from outside (\<open>wo_vm_call\<close>).
\<close>

section \<open>Arithmetic\<close>

text \<open>The shifts take a count from 0 to 63.\<close>

definition vm_div :: "u64 \<Rightarrow> u64 \<Rightarrow> u64 option" where
  "vm_div x y =
     (if y = 0 then None else if sint x = - (2 ^ 63) \<and> sint y = - 1 then None
      else Some (word_of_int (sint x sdiv sint y)))"

definition shift_count :: "u64 \<Rightarrow> nat option" where
  "shift_count c = (if sint c < 0 \<or> 63 < sint c then None else Some (nat (sint c)))"

definition op_trap ::
  "wo_module \<Rightarrow> 'h hooks \<Rightarrow> 'h vmst \<Rightarrow> u32 \<Rightarrow> trap \<Rightarrow> (u64 \<Rightarrow> u64 \<Rightarrow> u64 option) \<Rightarrow> 'h vres" where
  "op_trap m k st i t g =
     getr m st (wo_ins_b i) (\<lambda>x. getr m st (wo_ins_c i) (\<lambda>y.
       case g x y of None \<Rightarrow> vm_trap m k (trap_code t) st | Some v \<Rightarrow> setr m st (wo_ins_a i) v))"

section \<open>Jumps\<close>

definition jump_pc :: "nat \<Rightarrow> u32 \<Rightarrow> nat" where
  "jump_pc pc i = nat ((int pc + 1 + wo_ins_sbx i) mod 2 ^ 32)"

text \<open>A jump back is a safepoint and one reduction; when the budget is used up, another fiber may run.\<close>

definition vm_jmp :: "wo_module \<Rightarrow> 'h hooks \<Rightarrow> u32 \<Rightarrow> 'h vmst \<Rightarrow> 'h vres" where
  "vm_jmp m k i st =
     (let pc' = jump_pc (f_pc (cur_frame st)) i in
      if wo_ins_sbx i < 0 then
        let st1 = set_pc pc' (gc_safepoint m k st) in
        if budget st - 1 \<le> 0 then Slice (st1\<lparr>budget := budget0 st\<rparr>) else Run (st1\<lparr>budget := budget st - 1\<rparr>)
      else Run (set_pc pc' st))"

section \<open>Fields\<close>

definition vm_getf :: "wo_module \<Rightarrow> ('z vheap_scheme) hooks \<Rightarrow> u32 \<Rightarrow> ('z vheap_scheme) vmst \<Rightarrow> ('z vheap_scheme) vres" where
  "vm_getf m k i st =
     getr m st (wo_ins_b i) (\<lambda>v. on_chk m k st (recv_check m (vmheap st) v (wo_ins_c i)) (\<lambda>o1.
       case h_body o1 of
         HFields fs \<Rightarrow> if wo_ins_c i < length fs then setr m st (wo_ins_a i) (fs ! wo_ins_c i) else Wild
       | _ \<Rightarrow> Wild))"

text \<open>The store of \<open>SETF\<close>: the deletion barrier for a traced reference, a copy for a text.\<close>

definition setf_value ::
  "wo_module \<Rightarrow> ('z vheap_scheme) hooks \<Rightarrow> kind \<Rightarrow> u64 \<Rightarrow> 'z vheap_scheme \<Rightarrow> (u64 \<times> 'z vheap_scheme) chk" where
  "setf_value m k kd v h =
     (if v \<noteq> 0 \<and> kd = KText then
        (case objs h v of
           None \<Rightarrow> Lost
         | Some src \<Rightarrow>
             if h_class src \<noteq> WO_CLS_STR then Bad WO_T_BOUNDS
             else
               (case h_body src of
                  HText s \<Rightarrow> (case wo_str_new k s h of None \<Rightarrow> Bad WO_T_OOM | Some r \<Rightarrow> Good r)
                | _ \<Rightarrow> Lost))
      else Good (v, h))"

definition vm_setf_w :: "wo_module \<Rightarrow> ('z vheap_scheme) hooks \<Rightarrow> u32 \<Rightarrow> ('z vheap_scheme) vmst \<Rightarrow> ('z vheap_scheme) vres" where
  "vm_setf_w m k i st =
     getr m st (wo_ins_a i) (\<lambda>r. on_chk m k st (recv_check m (vmheap st) r (wo_ins_b i)) (\<lambda>o1.
       getr m st (wo_ins_c i) (\<lambda>v.
         case h_body o1 of
           HFields fs \<Rightarrow>
             if length fs \<le> wo_ins_b i then Wild
             else
               let kd = kinds (mclasses m ! h_class o1) ! wo_ins_b i; old = fs ! wo_ins_b i;
                   h1 = (if k_marking k (vmheap st) \<and> kd = KGcref \<and> old \<noteq> 0 then k_shade k old (vmheap st) else vmheap st)
               in on_chk m k (st\<lparr>vmheap := h1\<rparr>) (setf_value m k kd v h1) (\<lambda>(w, h2).
                    case objs h2 r of
                      Some o2 \<Rightarrow>
                        (case h_body o2 of
                           HFields fs2 \<Rightarrow> go (st\<lparr>vmheap := put_obj r (o2\<lparr>h_body := HFields (fs2[wo_ins_b i := w])\<rparr>) h2\<rparr>)
                         | _ \<Rightarrow> Wild)
                    | None \<Rightarrow> Wild)
         | _ \<Rightarrow> Wild)))"

section \<open>Texts\<close>

text \<open>The length of a concatenation is computed in 32 bits: past that the copy overruns the block.\<close>

definition vm_concat :: "wo_module \<Rightarrow> ('z vheap_scheme) hooks \<Rightarrow> u32 \<Rightarrow> ('z vheap_scheme) vmst \<Rightarrow> ('z vheap_scheme) vres" where
  "vm_concat m k i st =
     getr m st (wo_ins_b i) (\<lambda>x. on_chk m k st (str_check (vmheap st) x) (\<lambda>sx.
       getr m st (wo_ins_c i) (\<lambda>y. on_chk m k st (str_check (vmheap st) y) (\<lambda>sy.
         if 2 ^ 32 \<le> length sx + length sy then Wild
         else
           (case wo_str_new k (sx @ sy) (vmheap st) of
              None \<Rightarrow> vm_trap m k (trap_code WO_T_OOM) st
            | Some (a, h1) \<Rightarrow> setr m (st\<lparr>vmheap := h1\<rparr>) (wo_ins_a i) a)))))"

text \<open>Two absent texts are equal, an absent one differs from every other.\<close>

definition vm_eqs :: "wo_module \<Rightarrow> ('z vheap_scheme) hooks \<Rightarrow> u32 \<Rightarrow> ('z vheap_scheme) vmst \<Rightarrow> ('z vheap_scheme) vres" where
  "vm_eqs m k i st =
     getr m st (wo_ins_b i) (\<lambda>x. getr m st (wo_ins_c i) (\<lambda>y.
       if x = 0 \<or> y = 0 then setr m st (wo_ins_a i) (truth (x = y))
       else on_chk m k st (str_check (vmheap st) x) (\<lambda>sx. on_chk m k st (str_check (vmheap st) y) (\<lambda>sy.
         setr m st (wo_ins_a i) (truth (sx = sy))))))"

section \<open>Borrows\<close>

definition vm_borrow ::
  "wo_module \<Rightarrow> ('z vheap_scheme) hooks \<Rightarrow> u32 \<Rightarrow> (u32 \<Rightarrow> u32 option) \<Rightarrow> ('z vheap_scheme) vmst \<Rightarrow> ('z vheap_scheme) vres" where
  "vm_borrow m k i f st =
     getr m st (wo_ins_a i) (\<lambda>v.
       if v = 0 then vm_trap m k (trap_code WO_T_BOUNDS) st
       else
         (case objs (vmheap st) v of
            None \<Rightarrow> Wild
          | Some o1 \<Rightarrow>
              (case f (h_borrow o1) of
                 None \<Rightarrow> vm_trap m k (trap_code WO_T_BORROW) st
               | Some b \<Rightarrow> go (st\<lparr>vmheap := put_obj v (o1\<lparr>h_borrow := b\<rparr>) (vmheap st)\<rparr>))))"

text \<open>A release is not checked.\<close>

definition vm_release ::
  "wo_module \<Rightarrow> u32 \<Rightarrow> (u32 \<Rightarrow> u32) \<Rightarrow> ('z vheap_scheme) vmst \<Rightarrow> ('z vheap_scheme) vres" where
  "vm_release m i f st =
     getr m st (wo_ins_a i) (\<lambda>v.
       case objs (vmheap st) v of
         None \<Rightarrow> Wild
       | Some o1 \<Rightarrow> go (st\<lparr>vmheap := put_obj v (o1\<lparr>h_borrow := f (h_borrow o1)\<rparr>) (vmheap st)\<rparr>))"

section \<open>Calls, allocation, catch regions\<close>

definition vm_new_w :: "wo_module \<Rightarrow> ('z vheap_scheme) hooks \<Rightarrow> u32 \<Rightarrow> ('z vheap_scheme) vmst \<Rightarrow> ('z vheap_scheme) vres" where
  "vm_new_w m k i st =
     (let st1 = gc_safepoint m k st in
      if length (mclasses m) \<le> wo_ins_bx i then Stray
      else
        (case vm_obj_new m k (wo_ins_bx i) (vmheap st1) of
           None \<Rightarrow> vm_trap m k (trap_code WO_T_OOM) st1
         | Some (a, h1) \<Rightarrow> setr m (st1\<lparr>vmheap := h1\<rparr>) (wo_ins_a i) a))"

definition vm_loadk :: "wo_module \<Rightarrow> 'h hooks \<Rightarrow> u32 \<Rightarrow> 'h vmst \<Rightarrow> 'h vres" where
  "vm_loadk m k i st =
     (if length (kconsts m) \<le> wo_ins_bx i then Stray
      else
        setr m st (wo_ins_a i)
          (case kconsts m ! wo_ins_bx i of CInt w \<Rightarrow> w | CFloat w \<Rightarrow> w | CText s \<Rightarrow> k_const k (wo_ins_bx i)))"

definition vm_icall :: "wo_module \<Rightarrow> ('z vheap_scheme) hooks \<Rightarrow> u32 \<Rightarrow> ('z vheap_scheme) vmst \<Rightarrow> ('z vheap_scheme) vres" where
  "vm_icall m k i st =
     getr m st (wo_ins_a i) (\<lambda>v.
       if v = 0 then vm_trap m k (trap_code WO_T_BOUNDS) st
       else
         (case objs (vmheap st) v of
            None \<Rightarrow> Wild
          | Some o1 \<Rightarrow>
              if length (mclasses m) \<le> h_class o1 then vm_trap m k (trap_code WO_T_BOUNDS) st
              else
                (case vtab_find (vtabs m) (h_class o1) (wo_ins_bx i) 0 (length (vtabs m)) of
                   None \<Rightarrow> vm_trap m k (trap_code WO_T_BOUNDS) st
                 | Some e \<Rightarrow>
                     if length (methods m) \<le> v_method e then Stray
                     else if reg_cnt (cur_method m st) < wo_ins_a i + arg_cnt (methods m ! v_method e)
                     then vm_trap m k (trap_code WO_T_STACK) st
                     else enter m k (v_method e) (wo_ins_a i) st)))"

definition vm_try :: "wo_module \<Rightarrow> 'h hooks \<Rightarrow> u32 \<Rightarrow> 'h vmst \<Rightarrow> 'h vres" where
  "vm_try m k i st =
     (let fb = fib st in
      if WO_MAX_CATCH \<le> length (catches fb) then vm_trap m k (trap_code WO_T_STACK) st
      else
        go (st\<lparr>fib := fb\<lparr>catches :=
          \<lparr>c_depth = length (frames fb), c_pc = jump_pc (f_pc (cur_frame st)) i, c_reg = wo_ins_a i\<rparr> # catches fb\<rparr>\<rparr>))"

definition vm_drop :: "wo_module \<Rightarrow> 'h hooks \<Rightarrow> u32 \<Rightarrow> 'h vmst \<Rightarrow> 'h vres" where
  "vm_drop m k i st =
     getr m st (wo_ins_a i) (\<lambda>v.
       setr m (if v \<noteq> 0 then st\<lparr>vmheap := k_drop k v (vmheap st)\<rparr> else st) (wo_ins_a i) 0)"

section \<open>The step\<close>

definition vm_op ::
  "wo_module \<Rightarrow> ('z vheap_scheme) hooks \<Rightarrow> wop \<Rightarrow> u32 \<Rightarrow> ('z vheap_scheme) vmst \<Rightarrow> ('z vheap_scheme) vres" where
  "vm_op m k op i st =
     (case op of
        NOP \<Rightarrow> go st
      | LOADK \<Rightarrow> vm_loadk m k i st
      | MOVE \<Rightarrow> getr m st (wo_ins_b i) (setr m st (wo_ins_a i))
      | ADD \<Rightarrow> op2 m st i (+)
      | SUB \<Rightarrow> op2 m st i (-)
      | MUL \<Rightarrow> op2 m st i (*)
      | DIV \<Rightarrow> op_trap m k st i WO_T_DIV0 vm_div
      | NEG \<Rightarrow> getr m st (wo_ins_b i) (\<lambda>x. setr m st (wo_ins_a i) (0 - x))
      | CONCAT \<Rightarrow> vm_concat m k i st
      | EQ \<Rightarrow> op2 m st i (\<lambda>x y. truth (x = y))
      | LT \<Rightarrow> op2 m st i (\<lambda>x y. truth (sint x < sint y))
      | LE \<Rightarrow> op2 m st i (\<lambda>x y. truth (sint x \<le> sint y))
      | EQS \<Rightarrow> vm_eqs m k i st
      | JMP \<Rightarrow> vm_jmp m k i st
      | JZ \<Rightarrow> getr m st (wo_ins_a i) (\<lambda>x. if x = 0 then Run (set_pc (jump_pc (f_pc (cur_frame st)) i) st) else go st)
      | CALL \<Rightarrow> enter m k (wo_ins_bx i) (wo_ins_a i) (gc_safepoint m k st)
      | ICALL \<Rightarrow> vm_icall m k i st
      | RET \<Rightarrow> getr m st (wo_ins_a i) (\<lambda>rv. leave rv st)
      | RET0 \<Rightarrow> leave 0 st
      | NEW \<Rightarrow> vm_new_w m k i st
      | GETF \<Rightarrow> vm_getf m k i st
      | SETF \<Rightarrow> vm_setf_w m k i st
      | DROP \<Rightarrow> vm_drop m k i st
      | BORROW_S \<Rightarrow> vm_borrow m k i wo_borrow_shared st
      | BORROW_X \<Rightarrow> vm_borrow m k i wo_borrow_excl st
      | RELEASE_S \<Rightarrow> vm_release m i wo_release_shared st
      | RELEASE_X \<Rightarrow> vm_release m i wo_release_excl st
      | BUILTIN \<Rightarrow> vm_builtin m k i st
      | DB_STUB \<Rightarrow> vm_trap m k (trap_code WO_T_DB) st
      | TRAP \<Rightarrow> vm_trap m k (wo_ins_bx i) st
      | TRY \<Rightarrow> vm_try m k i st
      | ENDTRY \<Rightarrow> go (st\<lparr>fib := (fib st)\<lparr>catches := tl (catches (fib st))\<rparr>\<rparr>)
      | FADD \<Rightarrow> op2 m st i (k_fpu k FADD)
      | FSUB \<Rightarrow> op2 m st i (k_fpu k FSUB)
      | FMUL \<Rightarrow> op2 m st i (k_fpu k FMUL)
      | FDIV \<Rightarrow> op2 m st i (k_fpu k FDIV)
      | FNEG \<Rightarrow> getr m st (wo_ins_b i) (\<lambda>x. setr m st (wo_ins_a i) (f64_neg x))
      | FEQ \<Rightarrow> op2 m st i (\<lambda>x y. truth (f64_eq x y))
      | FLT \<Rightarrow> op2 m st i (\<lambda>x y. truth (f64_lt x y))
      | FLE \<Rightarrow> op2 m st i (\<lambda>x y. truth (f64_le x y))
      | BAND \<Rightarrow> op2 m st i (AND)
      | BOR \<Rightarrow> op2 m st i (OR)
      | BXOR \<Rightarrow> op2 m st i (XOR)
      | SHL \<Rightarrow> op_trap m k st i WO_T_SHIFT (\<lambda>x y. map_option (\<lambda>n. push_bit n x) (shift_count y))
      | SHR \<Rightarrow> op_trap m k st i WO_T_SHIFT (\<lambda>x y. map_option (\<lambda>n. signed_drop_bit n x) (shift_count y)))"

text \<open>Fetch and dispatch; the code has no default arm.\<close>

definition vm_step :: "wo_module \<Rightarrow> ('z vheap_scheme) hooks \<Rightarrow> ('z vheap_scheme) vmst \<Rightarrow> ('z vheap_scheme) vres" where
  "vm_step m k st =
     (if frames (fib st) = [] \<or> length (methods m) \<le> f_method (cur_frame st) \<or>
         length (code (cur_method m st)) \<le> f_pc (cur_frame st) then Stray
      else
        let i = code (cur_method m st) ! f_pc (cur_frame st) in
        (case wop_of i of None \<Rightarrow> Stray | Some op \<Rightarrow> vm_op m k op i st))"

text \<open>\<open>n\<close> instructions at most, as long as the fiber is not interrupted.\<close>

fun vm_run :: "wo_module \<Rightarrow> ('z vheap_scheme) hooks \<Rightarrow> nat \<Rightarrow> ('z vheap_scheme) vmst \<Rightarrow> ('z vheap_scheme) vres" where
  "vm_run m k 0 st = Run st"
| "vm_run m k (Suc n) st = (case vm_step m k st of Run st1 \<Rightarrow> vm_run m k n st1 | r \<Rightarrow> r)"

text \<open>A call from outside: \<open>None\<close> is the refusal (no such method, wrong number of arguments).\<close>

definition wo_vm_call :: "wo_module \<Rightarrow> nat \<Rightarrow> u64 list \<Rightarrow> 'h vmst \<Rightarrow> 'h vmst option" where
  "wo_vm_call m mi args st =
     (if length (methods m) \<le> mi then None
      else if length args \<noteq> arg_cnt (methods m ! mi) then None
      else
        let me = methods m ! mi; fb = fib st in
        Some (st\<lparr>fib := fb\<lparr>
          regs := args @ replicate (reg_cnt me - length args) 0 @ drop (reg_cnt me) (regs fb),
          frames := [\<lparr>f_method = mi, f_pc = 0, f_base = 0\<rparr>], catches := []\<rparr>\<rparr>))"

end
