(* ===== verification/LoaderOk.thy ===== *)
theory LoaderOk
  imports Loader
begin

text \<open>
  What an accepted image is known to be: the invariant the interpreter's proofs rest on, made of the
  loader's own checks of one instruction, one builtin and one jump, and the proof that every module the
  loader returns satisfies it. It is a lemma of the library and no specification: that these checks are
  enough is what the safety of the interpreter shows (\<open>VmProps\<close>: no step of an accepted image leaves its
  window, its code or a table, but for the builtins whose ids the loader's table leaves out).
\<close>

section \<open>Well-formed modules\<close>

definition index_wf :: "kind list \<Rightarrow> u32 \<times> nat list \<Rightarrow> bool" where
  "index_wf ks ix \<longleftrightarrow> fst ix AND NOT 1 = 0 \<and> snd ix \<noteq> [] \<and> length (snd ix) \<le> 8 \<and>
     (\<forall>c\<in>set (snd ix). c < length ks \<and> ks ! c \<in> {KScalar, KText, KFloat})"

definition class_wf :: "wo_const list \<Rightarrow> nat \<Rightarrow> wo_class \<Rightarrow> bool" where
  "class_wf cs n k \<longleftrightarrow> text_const cs (cls_name k) \<and> class_flags_ok (cls_flags k) \<and> length (kinds k) \<le> 65535 \<and>
     length (field_names k) = length (kinds k) \<and>
     (\<forall>nm\<in>set (field_names k). nm = NO_METHOD \<or> text_const cs nm) \<and>
     (\<exists>fcs. field_class k = Some (map of_nat fcs) \<and> length fcs = length (kinds k) \<and> (\<forall>fc\<in>set fcs. field_class_ok n fc)) \<and>
     (\<exists>fes. field_elem k = Some fes \<and> length fes = length (kinds k)) \<and>
     (\<forall>ix\<in>set (idx_meta k). index_wf (kinds k) ix)"

definition method_wf :: "wo_module \<Rightarrow> wo_methodrec \<Rightarrow> bool" where
  "method_wf m me \<longleftrightarrow> text_const (kconsts m) (m_name me) \<and>
     (m_class me = NO_METHOD \<or> m_class me < length (mclasses m)) \<and>
     1 \<le> reg_cnt me \<and> reg_cnt me \<le> WO_MAX_REGS \<and> arg_cnt me \<le> reg_cnt me \<and> code me \<noteq> [] \<and> length (code me) < 2 ^ 30 \<and>
     pcs_ok (length (code me)) (map fst (lines me)) \<and> pcs_ok (length (code me)) (map d_pc (drops me)) \<and>
     (\<forall>d\<in>set (drops me). mask_ok (reg_cnt me) d) \<and>
     (\<forall>pc<length (code me). ins_ok m me pc (code me ! pc)) \<and> terminator (last (code me))"

definition module_ok :: "wo_module \<Rightarrow> bool" where
  "module_ok m \<longleftrightarrow>
     length (mclasses m) < 2 ^ 32 \<and> (\<forall>k\<in>set (mclasses m). class_wf (kconsts m) (length (mclasses m)) k) \<and>
     (\<forall>me\<in>set (methods m). method_wf m me) \<and>
     sorted_wrt (\<lambda>x y. v_key x < v_key y) (vtabs m) \<and>
     (\<forall>e\<in>set (vtabs m). v_method e < length (methods m) \<and> v_class e < length (mclasses m)) \<and>
     entry_ok m (entry m)"

section \<open>What the section parsers return\<close>

lemma map_parse_all:
  assumes "\<And>b v r. f b = Some (v, r) \<Longrightarrow> P v"
  shows "map_parse (\<lambda>_. f) ks bs = Some (vs, r) \<Longrightarrow> \<forall>v\<in>set vs. P v"
  by (induction ks arbitrary: bs vs) (auto split: option.splits prod.splits dest: assms)

lemma load_kinds_length: "load_kinds n bs = Some (ks, r) \<Longrightarrow> length ks = n"
  by (auto simp: load_kinds_def rtake_def split: if_splits bind_splits)

lemma load_index_wf:
  assumes "load_index mem ks bs = Some (ix, r)"
  shows "index_wf ks ix"
proof -
  obtain w n r' cols where w: "(of_nat w :: u32) AND NOT 1 = 0" "n \<noteq> 0" "n \<le> 8" "ix = (of_nat w, cols)"
    "map_parse (\<lambda>_. load_col ks) [0..<n] r' = Some (cols, r)"
    using assms by (auto simp: load_index_def split: if_splits bind_splits)
  have "\<forall>c\<in>set cols. c < length ks \<and> ks ! c \<in> {KScalar, KText, KFloat}"
    by (rule map_parse_all [OF _ w(5)]) (auto simp: load_col_def split: if_splits bind_splits)
  then show ?thesis using w map_parse_length [OF w(5)] by (auto simp: index_wf_def)
qed

lemma load_class_wf:
  assumes "load_class mem cs n bs = Some (k, r)"
  shows "class_wf cs n k"
proof -
  obtain name fl fcnt ks names fcs fes icnt ixs r1 r2 r3 r4 r5 r6 r7 where
    k: "k = \<lparr>cls_flags = of_nat fl, kinds = ks, field_class = Some (map of_nat fcs),
      field_elem = Some (map of_nat fes), idx_meta = ixs, cls_name = name, field_names = names\<rparr>"
    and p: "text_const cs name" "class_flags_ok (of_nat fl)" "fcnt \<le> 65535" "load_kinds fcnt r1 = Some (ks, r2)"
      "map_parse (\<lambda>_. rd_u32) [0..<fcnt] r3 = Some (names, r4)" "map_parse (\<lambda>_. rd_u32) [0..<fcnt] r4 = Some (fcs, r5)"
      "map_parse (\<lambda>_. rd_u32) [0..<fcnt] r5 = Some (fes, r6)"
      "\<not> list_ex (\<lambda>nm. nm \<noteq> NO_METHOD \<and> \<not> text_const cs nm) names" "list_all (field_class_ok n) fcs"
      "map_parse (\<lambda>_. load_index mem ks) [0..<icnt] r7 = Some (ixs, r)"
    using assms
    by (clarsimp simp: load_class_def not_less split: if_splits bind_splits)
  have len: "length ks = fcnt" "length names = fcnt" "length fcs = fcnt" "length fes = fcnt"
    using load_kinds_length [OF p(4)] map_parse_length [OF p(5)] map_parse_length [OF p(6)] map_parse_length [OF p(7)] by simp_all
  have "\<forall>ix\<in>set ixs. index_wf ks ix" by (rule map_parse_all [OF _ p(10)]) (rule load_index_wf)
  then show ?thesis using p len
    by (auto simp: class_wf_def k list_ex_iff list_all_iff)
qed

lemma load_classes_wf:
  assumes "load_classes mem cs n bs = Some ks"
  shows "length ks = n \<and> (\<forall>k\<in>set ks. class_wf cs n k)"
proof -
  obtain r where r: "map_parse (\<lambda>_. load_class mem cs n) [0..<n] bs = Some (ks, r)"
    using assms by (auto simp: load_classes_def split: if_splits)
  have "\<forall>k\<in>set ks. class_wf cs n k" by (rule map_parse_all [OF _ r]) (rule load_class_wf)
  then show ?thesis using map_parse_length [OF r] by simp
qed

lemma load_row_class:
  "load_row mem n mcs bs = Some (es, r) \<Longrightarrow> \<forall>e\<in>set es. v_class e < n"
  by (auto simp: load_row_def split: if_splits bind_splits)

lemma load_ifaces_class:
  assumes "load_ifaces mem cs n icnt bs = Some (slots, es)"
  shows "\<forall>e\<in>set es. v_class e < n"
proof -
  obtain mcs rs r1 r2 vrows where r: "map_parse (\<lambda>_. load_row mem n mcs) [0..<vrows] r1 = Some (rs, r2)" "es = concat rs"
    using assms by (auto simp: load_ifaces_def split: if_splits bind_splits)
  have "\<forall>x\<in>set rs. \<forall>e\<in>set x. v_class e < n" by (rule map_parse_all [OF _ r(1)]) (rule load_row_class)
  then show ?thesis using r(2) by auto
qed

definition method_shape :: "wo_const list \<Rightarrow> nat \<Rightarrow> wo_methodrec \<Rightarrow> bool" where
  "method_shape cs n me \<longleftrightarrow> text_const cs (m_name me) \<and> (m_class me = NO_METHOD \<or> m_class me < n) \<and>
     1 \<le> reg_cnt me \<and> reg_cnt me \<le> WO_MAX_REGS \<and> arg_cnt me \<le> reg_cnt me \<and> code me \<noteq> [] \<and> length (code me) < 2 ^ 30 \<and>
     pcs_ok (length (code me)) (map fst (lines me)) \<and> pcs_ok (length (code me)) (map d_pc (drops me)) \<and>
     (\<forall>d\<in>set (drops me). mask_ok (reg_cnt me) d)"

lemma load_method_shape:
  assumes "load_method mem cs n bs = Some (me, r)"
  shows "method_shape cs n me"
proof -
  obtain name cid ac rc clen ins lns ds r1 r2 hdr hdr' where
    p: "text_const cs name" "cid = NO_METHOD \<or> cid < n" "1 \<le> unat rc" "unat rc \<le> WO_MAX_REGS" "unat ac \<le> unat rc"
      "clen \<noteq> 0" "clen mod 4 = 0" "rd_u32 hdr = Some (clen, hdr')" "map_parse (\<lambda>_. rd_u32) [0..<clen div 4] r1 = Some (ins, r2)"
      "pcs_ok (clen div 4) (map fst lns)" "pcs_ok (clen div 4) (map d_pc ds)"
      "list_all (mask_ok (unat rc)) ds"
    and me: "me = \<lparr>m_name = name, m_class = cid, arg_cnt = unat (ac :: u8), reg_cnt = unat (rc :: u8), code = map of_nat ins,
      lines = lns, drops = ds\<rparr>"
    using assms by (auto simp: load_method_def not_less not_le split: if_splits bind_splits)
  have "length ins = clen div 4" "clen div 4 \<noteq> 0" "clen div 4 < 2 ^ 30"
    using map_parse_length [OF p(9)] p(6,7) rd_u32_bound [OF p(8)] by auto
  then show ?thesis using p by (auto simp: method_shape_def me list_all_iff)
qed

lemma load_methods_shape:
  assumes "load_methods mem cs n mcnt bs = Some ms"
  shows "\<forall>me\<in>set ms. method_shape cs n me"
proof -
  obtain r where r: "map_parse (\<lambda>_. load_method mem cs n) [0..<mcnt] bs = Some (ms, r)"
    using assms by (auto simp: load_methods_def split: if_splits)
  show ?thesis by (rule map_parse_all [OF _ r]) (rule load_method_shape)
qed

section \<open>The vtable\<close>

lemma v_key_eq: "v_key x = v_key y \<longleftrightarrow> v_class y = v_class x \<and> v_slot y = v_slot x"
  by (auto simp: v_key_def)

lemma vtab_cmp_key: "vtab_cmp x y < 0 \<longleftrightarrow> v_key x < v_key y" "vtab_cmp x y = 0 \<longleftrightarrow> v_key x = v_key y"
  by (auto simp: vtab_cmp_def v_key_def)

lemma sort_vtabs_sorted:
  assumes "sort_vtabs vs = Some ws"
  shows "sorted_wrt (\<lambda>x y. v_key x < v_key y) ws" and "set ws = set vs"
proof -
  have ws: "ws = sort_key v_key vs" "successively (\<lambda>x y. v_key x \<noteq> v_key y) ws"
    using assms by (auto simp: sort_vtabs_def Let_def v_key_eq split: if_splits)
  have "sorted (map v_key ws)" using ws(1) by simp
  then have "successively (\<lambda>x y. v_key x \<le> v_key y) ws"
    by (simp add: sorted_wrt_map successively_if_sorted_wrt)
  then have "successively (\<lambda>x y. v_key x < v_key y) ws"
    using ws(2) by (auto simp: successively_conv_nth order.strict_iff_order)
  then show "sorted_wrt (\<lambda>x y. v_key x < v_key y) ws"
    by (subst (asm) successively_iff_sorted_wrt_strong) auto
  show "set ws = set vs" using ws(1) by simp
qed

section \<open>Accepted images\<close>

lemma ins_ok_same:
  assumes "methods m' = methods m" "kconsts m' = kconsts m" "mclasses m' = mclasses m" "slot_cnt m' = slot_cnt m"
  shows "ins_ok m' me pc i = ins_ok m me pc i"
proof -
  have "op_ok m' me pc i op = op_ok m me pc i op" for op by (cases op) (simp_all add: op_ok_def assms)
  then show ?thesis by (simp add: ins_ok_def split: option.split)
qed

lemma load_ok:
  assumes "wo_load_buf mem buf = Some m"
  shows "module_ok m"
proof -
  obtain cs ks slots vs ms ccnt kcnt icnt mcnt b1 b2 b3 b4 ws ent hdr where
    p: "load_classes mem cs kcnt b2 = Some ks" "load_ifaces mem cs kcnt icnt b3 = Some (slots, vs)"
      "load_methods mem cs kcnt mcnt b4 = Some ms" "rd_u32 hdr = Some (kcnt, b1)"
    and v: "list_all (method_ok \<lparr>kconsts = cs, mclasses = ks, slot_cnt = slots, vtabs = vs, methods = ms, entry = NO_METHOD\<rparr>) ms"
      "list_all (\<lambda>e. v_method e < length ms) vs" "sort_vtabs vs = Some ws"
      "entry_ok \<lparr>kconsts = cs, mclasses = ks, slot_cnt = slots, vtabs = vs, methods = ms, entry = NO_METHOD\<rparr> ent"
    and m: "m = \<lparr>kconsts = cs, mclasses = ks, slot_cnt = slots, vtabs = ws, methods = ms, entry = ent\<rparr>"
    using assms by (auto simp: wo_load_buf_def Let_def split: if_splits bind_splits)
  let ?m0 = "\<lparr>kconsts = cs, mclasses = ks, slot_cnt = slots, vtabs = vs, methods = ms, entry = NO_METHOD\<rparr>"
  note k = load_classes_wf [OF p(1)]
  have same: "ins_ok m me pc i = ins_ok ?m0 me pc i" for me pc i by (rule ins_ok_same) (simp_all add: m)
  have "method_wf m me" if "me \<in> set ms" for me
  proof -
    have "method_shape cs kcnt me" using load_methods_shape [OF p(3)] that by blast
    moreover have "method_ok ?m0 me" using v(1) that by (simp add: list_all_iff)
    ultimately show ?thesis using k
      by (auto simp: method_wf_def method_shape_def method_ok_def same [unfolded m] m list_all_iff)
  qed
  moreover have "kcnt < 2 ^ 32" by (rule rd_u32_bound [OF p(4)])
  moreover have "\<forall>e\<in>set ws. v_method e < length ms \<and> v_class e < kcnt"
    using v(2) load_ifaces_class [OF p(2)] sort_vtabs_sorted(2) [OF v(3)] by (simp add: list_all_iff)
  ultimately show ?thesis using k v(4) sort_vtabs_sorted(1) [OF v(3)]
    by (auto simp: module_ok_def m entry_ok_def)
qed

end
