(* ===== verification/VmContract.thy ===== *)
theory VmContract
  imports VmStep LoaderOk
begin

text \<open>
  What every instruction has in common, as an interface: a predicate \<open>J\<close> on the states of a fiber
  and a predicate \<open>Q\<close> on the outcome of a step. A client shows how \<open>J\<close> behaves under the few things
  instructions are built of (a write in the window, a change of position, a trap, a call, a return,
  a change of the catch regions) and gets the step theorem; \<open>Q Stray\<close> tells whether an access
  outside the window is an outcome it can accept.
\<close>

section \<open>Positions and windows\<close>

lemma put_reg_simps [simp]:
  "cur_frame (put_reg r v st) = cur_frame st" "cur_method m (put_reg r v st) = cur_method m st"
  "in_window m (put_reg r v st) q = in_window m st q"
  by (simp_all add: put_reg_def cur_frame_def cur_method_def in_window_def)

lemma heap_simps [simp]:
  "cur_frame (st\<lparr>vmheap := h\<rparr>) = cur_frame st" "cur_method m (st\<lparr>vmheap := h\<rparr>) = cur_method m st"
  "in_window m (st\<lparr>vmheap := h\<rparr>) q = in_window m st q" "fib (gc_safepoint m k st) = fib st"
  "cur_frame (gc_safepoint m k st) = cur_frame st" "cur_method m (gc_safepoint m k st) = cur_method m st"
  "in_window m (gc_safepoint m k st) q = in_window m st q"
  by (simp_all add: cur_frame_def cur_method_def in_window_def gc_safepoint_def)

text \<open>An instruction that is not a terminator has a next one.\<close>

definition has_next :: "wo_module \<Rightarrow> 'h vmst \<Rightarrow> bool" where
  "has_next m st \<longleftrightarrow> f_pc (cur_frame st) + 1 < length (code (cur_method m st))"

lemma has_next_simps [simp]:
  "has_next m (put_reg r v st) = has_next m st" "has_next m (st\<lparr>vmheap := h\<rparr>) = has_next m st"
  "has_next m (gc_safepoint m k st) = has_next m st"
  by (simp_all add: has_next_def)

lemma jump_pc_ok:
  assumes "jump_ok me pc i" and "length (code me) < 2 ^ 30"
  shows "jump_pc pc i < length (code me)"
  using assms by (simp add: jump_ok_def jump_pc_def nat_less_iff)

text \<open>The window of a builtin lies in the frame. The loader checks it through \<open>b_arity\<close>, which has no
  entry for the ids 84 to 95 and knows nothing of the fields an insert reads.\<close>

definition builtin_fits :: "wo_module \<Rightarrow> 'h vmst \<Rightarrow> u32 \<Rightarrow> bool" where
  "builtin_fits m st i \<longleftrightarrow>
     (let b = wo_ins_b i; me = cur_method m st;
          n = b_reads m (wo_ins_c i) (if b < reg_cnt me then regs (fib st) ! (f_base (cur_frame st) + b) else 0)
      in n = 0 \<or> b + n \<le> reg_cnt me)"

text \<open>The search in the vtable returns a row of the table for the class and the slot.\<close>

lemma vtab_find_mem:
  "vtab_find vs cid slot lo hi = Some e \<Longrightarrow> hi \<le> length vs \<Longrightarrow> e \<in> set vs \<and> v_class e = cid \<and> v_slot e = slot"
proof (induction vs cid slot lo hi rule: vtab_find.induct)
  case (1 vs cid slot lo hi)
  have "lo + (hi - lo) div 2 < hi" if "\<not> hi \<le> lo" using that by linarith
  then show ?case using 1(3,4) 1(1,2)
    by (auto simp: vtab_find.simps [of vs cid slot lo hi] Let_def split: if_splits)
qed

section \<open>The interface\<close>

locale vm_contract =
  fixes m :: wo_module
    and k :: "('z vheap_scheme) hooks"
    and J :: "('z vheap_scheme) vmst \<Rightarrow> bool"
    and Q :: "('z vheap_scheme) vres \<Rightarrow> bool"
  assumes code_bound: "J st \<Longrightarrow> length (code (cur_method m st)) < 2 ^ 30 \<or> Q Stray"
    and window: "J st \<Longrightarrow> r < reg_cnt (cur_method m st) \<Longrightarrow> in_window m st r \<or> Q Stray"
    and rows: "e \<in> set (vtabs m) \<Longrightarrow> v_method e < length (methods m) \<or> Q Stray"
    and heap: "J st \<Longrightarrow> J (st\<lparr>vmheap := h\<rparr>)"
    and put: "J st \<Longrightarrow> in_window m st r \<Longrightarrow> J (put_reg r v st)"
    and jump: "J st \<Longrightarrow> pc < length (code (cur_method m st)) \<or> Q Stray \<Longrightarrow> Q (Run (set_pc pc st))"
    and slice: "J st \<Longrightarrow> pc < length (code (cur_method m st)) \<or> Q Stray \<Longrightarrow> Q (Slice ((set_pc pc st)\<lparr>budget := b\<rparr>))"
    and reduce: "Q (Run st) \<Longrightarrow> Q (Run (st\<lparr>budget := b\<rparr>))"
    and park: "J st \<Longrightarrow> Q (Park st)"
    and park_past: "J st \<Longrightarrow> pc < length (code (cur_method m st)) \<or> Q Stray \<Longrightarrow> Q (Park (set_pc pc st))"
    and stop: "J st \<Longrightarrow> vm_unwind m k True (length (frames (fib st))) (frames (fib st)) (regs (fib st), h) = (fs, rs, h') \<Longrightarrow>
      Q (Stopped (st\<lparr>vmheap := h', fib := (fib st)\<lparr>regs := rs, frames := fs, catches := []\<rparr>\<rparr>))"
    and wild: "Q Wild"
    and trap: "J st \<Longrightarrow> Q (vm_trap m k t st)"
    and call: "J st \<Longrightarrow> has_next m st \<or> Q Stray \<Longrightarrow> mi < length (methods m) \<or> Q Stray \<Longrightarrow> Q (enter m k mi a st)"
    and ret: "J st \<Longrightarrow> Q (leave rv st)"
    and region: "J st \<Longrightarrow> length (catches (fib st)) < WO_MAX_CATCH \<Longrightarrow> pc < length (code (cur_method m st)) \<or> Q Stray \<Longrightarrow>
      J (st\<lparr>fib := (fib st)\<lparr>catches := \<lparr>c_depth = length (frames (fib st)), c_pc = pc, c_reg = r\<rparr> # catches (fib st)\<rparr>\<rparr>)"
    and unregion: "J st \<Longrightarrow> J (st\<lparr>fib := (fib st)\<lparr>catches := tl (catches (fib st))\<rparr>\<rparr>)"
begin

definition fits :: "('z vheap_scheme) vmst \<Rightarrow> nat \<Rightarrow> bool" where
  "fits st r \<longleftrightarrow> r < reg_cnt (cur_method m st) \<or> Q Stray"

definition nxt :: "('z vheap_scheme) vmst \<Rightarrow> bool" where
  "nxt st \<longleftrightarrow> has_next m st \<or> Q Stray"

lemma fits_simps [simp]:
  "fits (put_reg r v st) q = fits st q" "fits (st\<lparr>vmheap := h\<rparr>) q = fits st q" "fits (gc_safepoint m k st) q = fits st q"
  "nxt (put_reg r v st) = nxt st" "nxt (st\<lparr>vmheap := h\<rparr>) = nxt st" "nxt (gc_safepoint m k st) = nxt st"
  by (simp_all add: fits_def nxt_def)

lemma safepoint: "J st \<Longrightarrow> J (gc_safepoint m k st)"
  by (simp add: gc_safepoint_def heap)

lemma go_ok: "J st \<Longrightarrow> nxt st \<Longrightarrow> Q (go st)"
  by (simp add: go_def nxt_def has_next_def jump)

lemma setr_ok: "J st \<Longrightarrow> nxt st \<Longrightarrow> fits st r \<Longrightarrow> Q (setr m st r v)"
  using window [of st r] by (auto simp: setr_def fits_def go_ok put)

lemma getr_ok: "J st \<Longrightarrow> fits st r \<Longrightarrow> (\<And>v. Q (g v)) \<Longrightarrow> Q (getr m st r g)"
  using window [of st r] by (auto simp: getr_def fits_def)

lemma on_chk_ok: "J st \<Longrightarrow> (\<And>x. Q (g x)) \<Longrightarrow> Q (on_chk m k st c g)"
  by (cases c) (simp_all add: on_chk_def trap wild)

lemmas reg_rules = getr_ok setr_ok on_chk_ok go_ok trap heap safepoint

lemma op2_ok:
  assumes "J st" "nxt st" "fits st (wo_ins_a i)" "fits st (wo_ins_b i)" "fits st (wo_ins_c i)"
  shows "Q (op2 m st i g)"
  unfolding op2_def using assms by (intro reg_rules)

lemma op_trap_ok:
  assumes "J st" "nxt st" "fits st (wo_ins_a i)" "fits st (wo_ins_b i)" "fits st (wo_ins_c i)"
  shows "Q (op_trap m k st i t g)"
  unfolding op_trap_def using assms by (auto intro!: reg_rules split: option.split)

lemma vm_jmp_ok:
  assumes "J st" "jump_pc (f_pc (cur_frame st)) i < length (code (cur_method m st)) \<or> Q Stray"
  shows "Q (vm_jmp m k i st)"
  using assms slice [OF safepoint [OF assms(1)]] reduce [OF jump [OF safepoint [OF assms(1)]]] jump
  by (auto simp: vm_jmp_def Let_def)

lemma vm_getf_ok:
  assumes "J st" "nxt st" "fits st (wo_ins_a i)" "fits st (wo_ins_b i)"
  shows "Q (vm_getf m k i st)"
  unfolding vm_getf_def using assms by (auto intro!: reg_rules wild split: hbody.split)

lemma setf_store_ok:
  assumes "J st" "nxt st"
  shows "Q (case objs h2 r of
      Some o2 \<Rightarrow> (case h_body o2 of
          HFields fs2 \<Rightarrow> go (st\<lparr>vmheap := put_obj r (o2\<lparr>h_body := HFields (fs2[q := w])\<rparr>) h2\<rparr>)
        | _ \<Rightarrow> Wild)
    | None \<Rightarrow> Wild)"
proof -
  have "Q (go (st\<lparr>vmheap := h\<rparr>))" for h using assms by (intro go_ok heap) simp_all
  then show ?thesis using wild by (simp split: option.split hbody.split)
qed

lemma vm_setf_ok:
  assumes "J st" "nxt st" "fits st (wo_ins_a i)" "fits st (wo_ins_c i)"
  shows "Q (vm_setf_w m k i st)"
  unfolding vm_setf_w_def
proof (intro getr_ok on_chk_ok assms, goal_cases)
  case (1 v o1 w)
  show ?case
    by (cases "h_body o1") (auto simp: Let_def case_prod_beta intro!: wild on_chk_ok heap assms setf_store_ok)
qed

lemma vm_concat_ok:
  assumes "J st" "nxt st" "fits st (wo_ins_a i)" "fits st (wo_ins_b i)" "fits st (wo_ins_c i)"
  shows "Q (vm_concat m k i st)"
  unfolding vm_concat_def using assms by (auto intro!: reg_rules wild split: option.split prod.split)

lemma vm_eqs_ok:
  assumes "J st" "nxt st" "fits st (wo_ins_a i)" "fits st (wo_ins_b i)" "fits st (wo_ins_c i)"
  shows "Q (vm_eqs m k i st)"
  unfolding vm_eqs_def using assms by (auto intro!: reg_rules)

lemma vm_borrow_ok:
  assumes "J st" "nxt st" "fits st (wo_ins_a i)"
  shows "Q (vm_borrow m k i f st)"
  unfolding vm_borrow_def using assms by (auto intro!: reg_rules wild split: option.split)

lemma vm_release_ok:
  assumes "J st" "nxt st" "fits st (wo_ins_a i)"
  shows "Q (vm_release m i f st)"
  unfolding vm_release_def using assms by (auto intro!: reg_rules wild split: option.split)

lemma vm_new_ok:
  assumes "J st" "nxt st" "fits st (wo_ins_a i)" "wo_ins_bx i < length (mclasses m) \<or> Q Stray"
  shows "Q (vm_new_w m k i st)"
  unfolding vm_new_w_def Let_def using assms by (auto intro!: reg_rules split: option.split prod.split)

lemma vm_loadk_ok:
  assumes "J st" "nxt st" "fits st (wo_ins_a i)" "wo_ins_bx i < length (kconsts m) \<or> Q Stray"
  shows "Q (vm_loadk m k i st)"
  using assms by (auto simp: vm_loadk_def setr_ok)

lemma vm_icall_ok:
  assumes "J st" "nxt st" "fits st (wo_ins_a i)"
  shows "Q (vm_icall m k i st)"
proof -
  have row: "v_method e < length (methods m) \<or> Q Stray"
    if "vtab_find (vtabs m) c s 0 (length (vtabs m)) = Some e" for c s e
    using vtab_find_mem [OF that] rows by simp
  have "Q (enter m k mi a st)" if "mi < length (methods m)" for mi a
    using call [OF assms(1)] assms(2) that by (simp add: nxt_def)
  then show ?thesis unfolding vm_icall_def using assms
    by (intro getr_ok) (auto simp: not_le intro!: trap wild dest: row split: option.split)
qed

lemma vm_try_ok:
  assumes j: "J st" and n: "nxt st" and p: "jump_pc (f_pc (cur_frame st)) w < length (code (cur_method m st)) \<or> Q Stray"
  shows "Q (vm_try m k w st)"
proof (cases "WO_MAX_CATCH \<le> length (catches (fib st))")
  case True
  then show ?thesis using trap [OF j] by (simp add: vm_try_def Let_def)
next
  case False
  let ?st = "st\<lparr>fib := (fib st)\<lparr>catches := \<lparr>c_depth = length (frames (fib st)), c_pc = jump_pc (f_pc (cur_frame st)) w,
    c_reg = wo_ins_a w\<rparr> # catches (fib st)\<rparr>\<rparr>"
  have "nxt ?st" using n by (simp add: nxt_def has_next_def cur_frame_def cur_method_def)
  then show ?thesis using False go_ok [OF region [OF j _ p, of "wo_ins_a w"]] by (simp add: vm_try_def Let_def)
qed

lemma vm_endtry_ok:
  assumes j: "J st" and n: "nxt st"
  shows "Q (go (st\<lparr>fib := (fib st)\<lparr>catches := tl (catches (fib st))\<rparr>\<rparr>))"
proof -
  have "nxt (st\<lparr>fib := (fib st)\<lparr>catches := tl (catches (fib st))\<rparr>\<rparr>)"
    using n by (simp add: nxt_def has_next_def cur_frame_def cur_method_def)
  then show ?thesis by (rule go_ok [OF unregion [OF j]])
qed

lemma vm_drop_ok:
  assumes "J st" "nxt st" "fits st (wo_ins_a i)"
  shows "Q (vm_drop m k i st)"
  unfolding vm_drop_def using assms by (auto intro!: reg_rules)

lemma vm_builtin_ok:
  assumes j: "J st" and n: "nxt st" and a: "fits st (wo_ins_a i)" and w: "builtin_fits m st i \<or> Q Stray"
  shows "Q (vm_builtin m k i st)"
proof -
  let ?b = "wo_ins_b i" and ?fb = "fib st"
  define nn where
    "nn = b_reads m (wo_ins_c i) (if ?b < reg_cnt (cur_method m st) then regs ?fb ! (f_base (cur_frame st) + ?b) else 0)"
  obtain res h where r: "k_builtin k i (take nn (drop (f_base (cur_frame st) + ?b) (regs ?fb))) (caught ?fb) (vmheap st) = (res, h)"
    by fastforce
  let ?s = "st\<lparr>vmheap := h\<rparr>"
  note i1 = heap [OF j, of h]
  define put where "put w = (case w of None \<Rightarrow> ?s | Some v \<Rightarrow> put_reg (wo_ins_a i) v ?s)" for w
  obtain fs rs' h' where u: "vm_unwind m k True (length (frames ?fb)) (frames ?fb) (regs ?fb, h) = (fs, rs', h')"
    by (metis prod_cases3)
  define out where "out = (case res of
      BOk w \<Rightarrow> go (put w)
    | BTrap t \<Rightarrow> vm_trap m k t ?s
    | BParked past w \<Rightarrow> Park (if past then set_pc (f_pc (cur_frame st) + 1) (put w) else put w)
    | BUnarmed w \<Rightarrow> vm_trap m k (trap_code WO_T_IO) (put w)
    | BStopped \<Rightarrow> Stopped (?s\<lparr>vmheap := h', fib := ?fb\<lparr>regs := rs', frames := fs, catches := []\<rparr>\<rparr>))"
  have e: "vm_builtin m k i st = (if nn \<noteq> 0 \<and> \<not> in_window m st (?b + nn - 1) then Stray
      else if \<not> in_window m st (wo_ins_a i) then Stray else out)"
    unfolding vm_builtin_def Let_def nn_def [symmetric] r prod.case u put_def out_def by simp
  have "Q out" if aw: "in_window m st (wo_ins_a i)"
  proof -
    have p: "J (put w)" "nxt (put w)" "cur_frame (put w) = cur_frame st" "cur_method m (put w) = cur_method m st" for w
      using i1 put [OF i1, of "wo_ins_a i"] aw n by (simp_all add: put_def split: option.split)
    have past: "Q (Park (set_pc (f_pc (cur_frame st) + 1) (put w)))" for w
      by (rule park_past [OF p(1)]) (use p(2) [of w] in \<open>simp add: nxt_def has_next_def p(3,4)\<close>)
    show ?thesis unfolding out_def
      using go_ok [OF p(1,2)] trap [OF i1] trap [OF p(1)] past park [OF p(1)] stop [OF i1, of h] u
      by (auto split: bres.split)
  qed
  moreover have "in_window m st (?b + nn - 1) \<or> Q Stray" if "nn \<noteq> 0"
    using w window [OF j, of "?b + nn - 1"] that unfolding builtin_fits_def Let_def nn_def [symmetric] by linarith
  moreover have "in_window m st (wo_ins_a i) \<or> Q Stray" using a window [OF j] by (auto simp: fits_def)
  ultimately show ?thesis unfolding e by auto
qed

theorem vm_op_ok:
  assumes j: "J st" and op: "op_ok m (cur_method m st) (f_pc (cur_frame st)) i op \<or> Q Stray"
    and n: "op \<notin> {RET, RET0, TRAP, DB_STUB, JMP} \<Longrightarrow> nxt st"
    and b: "op = BUILTIN \<Longrightarrow> builtin_fits m st i \<or> Q Stray"
  shows "Q (vm_op m k op i st)"
proof -
  note rules = op2_ok [OF j n] op_trap_ok [OF j n] vm_getf_ok [OF j n] vm_setf_ok [OF j n] vm_concat_ok [OF j n]
    vm_eqs_ok [OF j n] vm_borrow_ok [OF j n] vm_release_ok [OF j n] vm_new_ok [OF j n] vm_loadk_ok [OF j n]
    vm_icall_ok [OF j n] vm_drop_ok [OF j n] vm_builtin_ok [OF j n] vm_endtry_ok [OF j n]
    go_ok [OF j] setr_ok [OF j] getr_ok [OF j] trap [OF j] ret [OF j]
  have jmp: "jump_pc (f_pc (cur_frame st)) i < length (code (cur_method m st)) \<or> Q Stray"
    if "jump_ok (cur_method m st) (f_pc (cur_frame st)) i \<or> Q Stray"
    using jump_pc_ok [of "cur_method m st" "f_pc (cur_frame st)" i] that code_bound [OF j] by auto
  show ?thesis
  proof (cases op)
    case JMP
    then show ?thesis using op jmp by (auto simp: op_ok_def vm_op_def intro!: vm_jmp_ok [OF j])
  next
    case JZ
    have "Q (go st)" using n JZ by (intro go_ok [OF j]) simp
    then show ?thesis using op jmp JZ by (auto simp: op_ok_def vm_op_def fits_def intro!: getr_ok [OF j] jump [OF j])
  next
    case CALL
    then show ?thesis using op n
      by (auto simp: op_ok_def vm_op_def nxt_def intro!: call [OF safepoint [OF j]])
  next
    case TRY
    then show ?thesis using op jmp n by (auto simp: op_ok_def vm_op_def intro!: vm_try_ok [OF j])
  qed (use op n b in \<open>auto simp: op_ok_def vm_op_def fits_def intro!: rules\<close>)
qed

end

end
