(* ===== verification/VmSafe.thy ===== *)
theory VmSafe
  imports VmContract
begin

text \<open>
  What the loader accepts, the interpreter can trust: from a well-formed fiber (\<open>vm_inv\<close>) of a module
  that satisfies the loader's contract, no instruction accesses a register outside the frame's
  window, an instruction outside the code, or an entry outside a table, and the next state is
  well-formed again. The exception is a builtin whose arguments the loader does not check.
\<close>

section \<open>The invariant\<close>

definition frame_ok :: "wo_module \<Rightarrow> wo_frame \<Rightarrow> bool" where
  "frame_ok m f \<longleftrightarrow> f_method f < length (methods m) \<and>
     f_pc f < length (code (methods m ! f_method f)) \<and>
     f_base f + reg_cnt (methods m ! f_method f) \<le> WO_STACK_SLOTS"

text \<open>A catch region belongs to a live frame, counted from the outermost, and its handler is in that
  frame's code; an inner region never belongs to a frame further out.\<close>

definition catches_ok :: "wo_module \<Rightarrow> wo_frame list \<Rightarrow> wo_catch list \<Rightarrow> bool" where
  "catches_ok m fs cs \<longleftrightarrow> length cs \<le> WO_MAX_CATCH \<and>
     sorted_wrt (\<lambda>c d. c_depth d \<le> c_depth c) cs \<and>
     (\<forall>c\<in>set cs. 1 \<le> c_depth c \<and> c_depth c \<le> length fs \<and>
        c_pc c < length (code (methods m ! f_method (rev fs ! (c_depth c - 1)))))"

definition vm_inv :: "wo_module \<Rightarrow> wo_fiber \<Rightarrow> bool" where
  "vm_inv m fb \<longleftrightarrow> length (regs fb) = WO_STACK_SLOTS \<and> frames fb \<noteq> [] \<and> length (frames fb) \<le> WO_MAX_FRAMES \<and>
     (\<forall>f\<in>set (frames fb). frame_ok m f) \<and> catches_ok m (frames fb) (catches fb)"

definition ended :: "wo_fiber \<Rightarrow> bool" where
  "ended fb \<longleftrightarrow> length (regs fb) = WO_STACK_SLOTS \<and> frames fb = [] \<and> catches fb = []"

definition outcome_ok :: "wo_module \<Rightarrow> 'h vres \<Rightarrow> bool" where
  "outcome_ok m r \<longleftrightarrow>
     (case r of Run st \<Rightarrow> vm_inv m (fib st) | Slice st \<Rightarrow> vm_inv m (fib st) | Park st \<Rightarrow> vm_inv m (fib st)
      | Done v st \<Rightarrow> ended (fib st) | Uncaught e st \<Rightarrow> ended (fib st) | Stopped st \<Rightarrow> ended (fib st)
      | Stray \<Rightarrow> False | Wild \<Rightarrow> True)"

lemma outcome_ok_simps [simp]:
  "outcome_ok m (Run st) \<longleftrightarrow> vm_inv m (fib st)" "outcome_ok m (Slice st) \<longleftrightarrow> vm_inv m (fib st)"
  "outcome_ok m (Park st) \<longleftrightarrow> vm_inv m (fib st)" "outcome_ok m (Done v st) \<longleftrightarrow> ended (fib st)"
  "outcome_ok m (Uncaught e st) \<longleftrightarrow> ended (fib st)" "outcome_ok m (Stopped st) \<longleftrightarrow> ended (fib st)"
  "\<not> outcome_ok m Stray" "outcome_ok m Wild"
  by (simp_all add: outcome_ok_def)

text \<open>The invariant sees of a frame its method, its position and its base.\<close>

lemma catches_ok_methods:
  assumes "map f_method gs = map f_method fs"
  shows "catches_ok m gs cs = catches_ok m fs cs"
proof -
  have len: "length gs = length fs" using assms map_eq_imp_length_eq by blast
  have "f_method (rev gs ! i) = f_method (rev fs ! i)" if "i < length fs" for i
  proof -
    have "map f_method (rev gs) = map f_method (rev fs)" by (simp only: rev_map [symmetric] assms)
    then show ?thesis using that len by (metis length_rev nth_map)
  qed
  then have "f_method (rev gs ! (c_depth c - 1)) = f_method (rev fs ! (c_depth c - 1))"
    if "1 \<le> c_depth c" "c_depth c \<le> length fs" for c using that by simp
  then show ?thesis using len unfolding catches_ok_def by (metis (no_types, lifting))
qed

lemma catches_ok_drop:
  assumes "catches_ok m fs (pre @ cs)" and "\<forall>c\<in>set cs. c_depth c \<le> length fs - n" and "n \<le> length fs"
  shows "catches_ok m (drop n fs) cs"
proof -
  have eq: "rev (drop n fs) ! (c_depth c - 1) = rev fs ! (c_depth c - 1)"
    if "1 \<le> c_depth c" "c_depth c \<le> length fs - n" for c
    using that assms(3) by (simp add: rev_drop)
  have a: "length cs \<le> WO_MAX_CATCH" "sorted_wrt (\<lambda>c d. c_depth d \<le> c_depth c) cs"
    and b: "\<And>c. c \<in> set cs \<Longrightarrow> 1 \<le> c_depth c \<and>
      c_pc c < length (code (methods m ! f_method (rev fs ! (c_depth c - 1))))"
    using assms(1) by (auto simp: catches_ok_def sorted_wrt_append)
  show ?thesis unfolding catches_ok_def
  proof (intro conjI ballI)
    fix c assume c: "c \<in> set cs"
    then have d: "c_depth c \<le> length fs - n" "1 \<le> c_depth c" using assms(2) b by auto
    show "c_pc c < length (code (methods m ! f_method (rev (drop n fs) ! (c_depth c - 1))))"
      using eq [OF d(2,1)] b [OF c] by metis
    show "1 \<le> c_depth c" "c_depth c \<le> length (drop n fs)" using d by simp_all
  qed (use a in simp_all)
qed

lemma catches_ok_tl: "catches_ok m fs cs \<Longrightarrow> catches_ok m fs (tl cs)"
  by (cases cs) (auto simp: catches_ok_def)

lemma catches_ok_push:
  assumes "catches_ok m fs cs"
  shows "catches_ok m (f # fs) cs"
proof -
  have "(rev fs @ [f]) ! (c_depth c - 1) = rev fs ! (c_depth c - 1)" if "1 \<le> c_depth c" "c_depth c \<le> length fs" for c
    using that by (simp add: nth_append)
  then show ?thesis using assms by (fastforce simp: catches_ok_def)
qed

section \<open>Dying frames\<close>

lemma release_reg_length [simp]: "length (fst (release_reg k b ow gc r st)) = length (fst st)"
  by (simp add: release_reg_def Let_def split: prod.split)

lemma release_frame_length [simp]: "length (fst (vm_release_frame m k f pc keep st)) = length (fst st)"
proof -
  have "length (fst (fold (release_reg k b ow gc) rs st)) = length (fst st)" for b ow gc rs st
    by (induction rs arbitrary: st) simp_all
  then show ?thesis by (simp add: vm_release_frame_def Let_def split: option.split)
qed

lemma unwind_frames:
  "n \<le> length fs \<Longrightarrow> fst (vm_unwind m k b n fs st) = drop n fs"
  "length (fst (snd (vm_unwind m k b n fs st))) = length (fst st)"
  by (induction m k b n fs st rule: vm_unwind.induct) auto

section \<open>Traps\<close>

lemma frame_text:
  assumes "module_ok m" and "frame_ok m f"
  shows "\<exists>err. vm_fill_err m t f = Some err"
proof -
  have "methods m ! f_method f \<in> set (methods m)" using assms(2) by (simp add: frame_ok_def)
  then have "text_const (kconsts m) (m_name (methods m ! f_method f))"
    using assms(1) by (auto simp: module_ok_def method_wf_def)
  then show ?thesis by (auto simp: vm_fill_err_def Let_def text_const_def split: wo_const.splits)
qed

lemma frame_ok_pc: "frame_ok m f \<Longrightarrow> pc < length (code (methods m ! f_method f)) \<Longrightarrow> frame_ok m (f\<lparr>f_pc := pc\<rparr>)"
  by (simp add: frame_ok_def)

lemma unwind_ended:
  assumes "vm_inv m fb" and "vm_unwind m k b (length (frames fb)) (frames fb) (regs fb, h) = (fs, rs, h')"
  shows "fs = [] \<and> length rs = WO_STACK_SLOTS"
  using assms unwind_frames(1) [where n = "length (frames fb)" and fs = "frames fb" and m = m and k = k and b = b and st = "(regs fb, h)"]
    unwind_frames(2) [where n = "length (frames fb)" and fs = "frames fb" and m = m and k = k and b = b and st = "(regs fb, h)"]
  by (simp add: vm_inv_def)

lemma trap_ok:
  assumes m: "module_ok m" and i: "vm_inv m (fib st)"
  shows "outcome_ok m (vm_trap m k t st)"
proof -
  let ?fb = "fib st"
  obtain f fs where f: "frames ?fb = f # fs" "frame_ok m f" using i by (cases "frames ?fb") (auto simp: vm_inv_def)
  obtain err where e: "vm_fill_err m t (hd (frames ?fb)) = Some err" using frame_text [OF m f(2)] f(1) by auto
  show ?thesis
  proof (cases "catches ?fb")
    case Nil
    obtain fs' rs h where u: "vm_unwind m k True (length (frames ?fb)) (frames ?fb) (regs ?fb, vmheap st) = (fs', rs, h)"
      by (metis prod_cases3)
    show ?thesis using unwind_ended [OF i u] Nil e u by (simp add: vm_trap_def Let_def ended_def)
  next
    case (Cons c cs)
    let ?n = "length (frames ?fb) - c_depth c"
    have co: "catches_ok m (frames ?fb) ([c] @ cs)" using i Cons by (simp add: vm_inv_def)
    have c: "1 \<le> c_depth c" "c_depth c \<le> length (frames ?fb)"
      "c_pc c < length (code (methods m ! f_method (rev (frames ?fb) ! (c_depth c - 1))))"
      "\<forall>d\<in>set cs. c_depth d \<le> c_depth c" using co by (auto simp: catches_ok_def)
    obtain fs' rs h where u: "vm_unwind m k True ?n (frames ?fb) (regs ?fb, vmheap st) = (fs', rs, h)"
      by (metis prod_cases3)
    have fs': "fs' = drop ?n (frames ?fb)" "length rs = WO_STACK_SLOTS"
      using unwind_frames(1) [where n = ?n and fs = "frames ?fb" and m = m and k = k and b = True and st = "(regs ?fb, vmheap st)"]
        unwind_frames(2) [where n = ?n and fs = "frames ?fb" and m = m and k = k and b = True and st = "(regs ?fb, vmheap st)"] u i
      by (simp_all add: vm_inv_def)
    have hd': "drop ?n (frames ?fb) \<noteq> []" "hd (drop ?n (frames ?fb)) = rev (frames ?fb) ! (c_depth c - 1)"
      using c by (simp_all add: hd_drop_conv_nth rev_nth)
    obtain cf gs where cf: "fs' = cf # gs" using fs'(1) hd'(1) by (metis list.exhaust)
    have cf': "cf = rev (frames ?fb) ! (c_depth c - 1)" using cf fs'(1) hd'(2) by simp
    have sub: "set (cf # gs) \<subseteq> set (frames ?fb)" using cf fs'(1) set_drop_subset by metis
    have fo: "\<forall>f\<in>set (cf # gs). frame_ok m f" using i sub by (auto simp: vm_inv_def)
    have "catches_ok m (drop ?n (frames ?fb)) cs"
      using c by (intro catches_ok_drop [OF co]) auto
    then have "catches_ok m (cf\<lparr>f_pc := c_pc c\<rparr> # gs) cs"
      using cf fs'(1) catches_ok_methods [of "cf\<lparr>f_pc := c_pc c\<rparr> # gs" "cf # gs" m cs] by simp
    moreover have "frame_ok m (cf\<lparr>f_pc := c_pc c\<rparr>)" using fo c(3) cf' by (intro frame_ok_pc) simp_all
    moreover have "length (cf # gs) \<le> WO_MAX_FRAMES" using i fs'(1) cf by (metis (no_types, lifting) diff_le_self le_trans length_drop vm_inv_def)
    moreover obtain rs' h' where r: "vm_release_frame m k cf (if c_depth c = length (frames ?fb) then f_pc cf else f_pc cf - 1)
        (Some (c_pc c)) (rs, h) = (rs', h')" by fastforce
    moreover have "length rs' = WO_STACK_SLOTS"
      using release_frame_length [of m k cf _ _ "(rs, h)"] r fs'(2) by (metis fst_conv)
    ultimately show ?thesis using Cons e u cf fo by (simp add: vm_trap_def Let_def vm_inv_def)
  qed
qed

section \<open>Registers and positions\<close>

lemma inv_frame:
  assumes "vm_inv m (fib st)"
  shows "frames (fib st) = cur_frame st # tl (frames (fib st))" and "frame_ok m (cur_frame st)"
    and "length (regs (fib st)) = WO_STACK_SLOTS"
  using assms by (auto simp: vm_inv_def cur_frame_def)

lemma inv_window:
  assumes "vm_inv m (fib st)" and "r < reg_cnt (cur_method m st)"
  shows "in_window m st r"
  using inv_frame(2,3) [OF assms(1)] assms(2) by (simp add: in_window_def frame_ok_def cur_method_def)

lemma put_reg_inv: "vm_inv m (fib st) \<Longrightarrow> vm_inv m (fib (put_reg r v st))"
  by (simp add: vm_inv_def put_reg_def)

lemma set_pc_inv:
  assumes i: "vm_inv m (fib st)" and pc: "pc < length (code (cur_method m st))"
  shows "vm_inv m (fib (set_pc pc st))"
proof -
  note f = inv_frame [OF i]
  have "catches_ok m ((cur_frame st)\<lparr>f_pc := pc\<rparr> # tl (frames (fib st))) (catches (fib st)) =
      catches_ok m (cur_frame st # tl (frames (fib st))) (catches (fib st))"
    by (rule catches_ok_methods) simp
  moreover have "frame_ok m ((cur_frame st)\<lparr>f_pc := pc\<rparr>)"
    using f(2) pc by (intro frame_ok_pc) (simp_all add: cur_method_def)
  moreover have "vm_inv m (fib st) \<longleftrightarrow> length (regs (fib st)) = WO_STACK_SLOTS \<and>
      length (cur_frame st # tl (frames (fib st))) \<le> WO_MAX_FRAMES \<and>
      (\<forall>f\<in>set (cur_frame st # tl (frames (fib st))). frame_ok m f) \<and>
      catches_ok m (cur_frame st # tl (frames (fib st))) (catches (fib st))"
    using f(1) unfolding vm_inv_def by (metis list.discI)
  ultimately show ?thesis using i by (simp add: set_pc_def vm_inv_def)
qed

lemma has_next_terminator:
  assumes m: "module_ok m" and i: "vm_inv m (fib st)"
    and t: "\<not> terminator (code (cur_method m st) ! f_pc (cur_frame st))"
  shows "has_next m st"
proof (rule ccontr)
  assume "\<not> has_next m st"
  note f = inv_frame(2) [OF i]
  then have "methods m ! f_method (cur_frame st) \<in> set (methods m)" by (simp add: frame_ok_def)
  then have "method_wf m (cur_method m st)" using m by (simp add: module_ok_def cur_method_def)
  then have l: "terminator (last (code (cur_method m st)))" "code (cur_method m st) \<noteq> []" by (simp_all add: method_wf_def)
  have "f_pc (cur_frame st) = length (code (cur_method m st)) - 1"
    using f \<open>\<not> has_next m st\<close> unfolding has_next_def frame_ok_def cur_method_def by linarith
  then show False using t l by (simp add: last_conv_nth)
qed


section \<open>Calls and returns\<close>

lemma module_method:
  assumes "module_ok m" and "mi < length (methods m)"
  shows "method_wf m (methods m ! mi)"
  using assms by (simp add: module_ok_def)

lemma enter_ok:
  assumes m: "module_ok m" and i: "vm_inv m (fib st)" and n: "has_next m st" and mi: "mi < length (methods m)"
  shows "outcome_ok m (enter m k mi a st)"
proof -
  let ?callee = "methods m ! mi" and ?nb = "f_base (cur_frame st) + a"
  let ?caller = "(cur_frame st)\<lparr>f_pc := f_pc (cur_frame st) + 1\<rparr>"
  have wf: "arg_cnt ?callee \<le> reg_cnt ?callee" "code ?callee \<noteq> []" using module_method [OF m mi] by (simp_all add: method_wf_def)
  note f = inv_frame [OF i]
  have after: "vm_inv m (fib (set_pc (f_pc (cur_frame st) + 1) st))"
    using set_pc_inv [OF i] n by (simp add: has_next_def)
  have co: "catches_ok m (\<lparr>f_method = mi, f_pc = 0, f_base = ?nb\<rparr> # ?caller # tl (frames (fib st))) (catches (fib st))"
    by (rule catches_ok_push) (use after in \<open>simp add: vm_inv_def set_pc_def\<close>)
  have fr: "\<forall>f\<in>set (?caller # tl (frames (fib st))). frame_ok m f" using after by (simp add: vm_inv_def set_pc_def)
  obtain fs where fs: "frames (fib st) = cur_frame st # fs" using f(1) by blast
  show ?thesis
  proof (cases "WO_MAX_FRAMES \<le> length (frames (fib st)) \<or> WO_STACK_SLOTS < ?nb + reg_cnt ?callee")
    case True
    then show ?thesis using mi trap_ok [OF m i] by (auto simp: enter_def Let_def)
  next
    case False
    have "frame_ok m \<lparr>f_method = mi, f_pc = 0, f_base = ?nb\<rparr>" using False mi wf(2) by (simp add: frame_ok_def)
    then show ?thesis using False mi wf co fr f(3) fs by (simp add: enter_def Let_def vm_inv_def)
  qed
qed

lemma dropWhile_depth:
  assumes "sorted_wrt (\<lambda>c d. c_depth d \<le> c_depth c) cs"
  shows "\<forall>c\<in>set (dropWhile (\<lambda>c. n < c_depth c) cs). c_depth c \<le> n"
  using assms by (induction cs) auto

lemma leave_ok:
  assumes i: "vm_inv m (fib st)"
  shows "outcome_ok m (leave rv st)"
proof -
  obtain fs where fs: "frames (fib st) = cur_frame st # fs" using inv_frame(1) [OF i] by blast
  let ?dw = "dropWhile (\<lambda>c. length fs < c_depth c) (catches (fib st))"
  have co: "catches_ok m (cur_frame st # fs) (catches (fib st))" and ln: "length (regs (fib st)) = WO_STACK_SLOTS"
    and fo: "\<forall>f\<in>set fs. frame_ok m f" "length fs \<le> WO_MAX_FRAMES" using i fs by (simp_all add: vm_inv_def)
  have low: "\<forall>c\<in>set ?dw. c_depth c \<le> length fs" using co by (intro dropWhile_depth) (simp add: catches_ok_def)
  show ?thesis
  proof (cases "fs = []")
    case True
    have "False" if "c \<in> set ?dw" for c
    proof -
      have "c \<in> set (catches (fib st))" by (rule set_dropWhileD [OF that])
      then have "1 \<le> c_depth c" using co by (simp add: catches_ok_def)
      moreover have "c_depth c \<le> length fs" using low that by (rule bspec)
      ultimately show False using True by simp
    qed
    then have "?dw = []" by (metis list.set_intros(1) neq_Nil_conv)
    then show ?thesis using True ln fs by (simp add: leave_def Let_def ended_def)
  next
    case False
    have "catches_ok m (drop 1 (cur_frame st # fs)) ?dw"
      by (rule catches_ok_drop [where pre = "takeWhile (\<lambda>c. length fs < c_depth c) (catches (fib st))"])
        (use co low in simp_all)
    then have "catches_ok m fs ?dw" by simp
    then show ?thesis unfolding leave_def Let_def fs list.sel using False ln fo by (simp add: vm_inv_def)
  qed
qed

section \<open>The step\<close>

lemma region_ok:
  assumes i: "vm_inv m (fib st)" and l: "length (catches (fib st)) < WO_MAX_CATCH"
    and p: "pc < length (code (cur_method m st))"
  shows "vm_inv m (fib (st\<lparr>fib := (fib st)\<lparr>catches := \<lparr>c_depth = length (frames (fib st)), c_pc = pc, c_reg = r\<rparr> # catches (fib st)\<rparr>\<rparr>))"
proof -
  have ne: "frames (fib st) \<noteq> []" using i by (simp add: vm_inv_def)
  then have "rev (frames (fib st)) ! (length (frames (fib st)) - 1) = cur_frame st"
    by (simp add: cur_frame_def rev_nth hd_conv_nth)
  then show ?thesis using i l p ne by (auto simp: vm_inv_def catches_ok_def cur_method_def Suc_le_eq)
qed

text \<open>For a module that does not satisfy the contract of the loader nothing is claimed.\<close>

interpretation safe: vm_contract m k "\<lambda>st. module_ok m \<and> vm_inv m (fib st)" "\<lambda>r. module_ok m \<longrightarrow> outcome_ok m r" for m k
proof (unfold_locales, goal_cases)
  case (1 st)
  then show ?case using module_method [of m "f_method (cur_frame st)"] inv_frame(2) [of m st]
    by (auto simp: frame_ok_def method_wf_def cur_method_def)
next
  case (3 e)
  then show ?case by (auto simp: module_ok_def)
next
  case (11 st h fs rs h')
  then show ?case using unwind_ended [OF conjunct2 [OF 11(1)] 11(2)] by (simp add: ended_def)
next
  case (13 st t)
  then show ?case by (simp add: trap_ok)
next
  case (14 st mi a)
  then show ?case by (auto intro: enter_ok)
next
  case (15 st rv)
  then show ?case by (simp add: leave_ok)
next
  case (16 st pc r)
  then show ?case using region_ok [of m st pc r] by simp
next
  case (17 st)
  then show ?case by (simp add: vm_inv_def catches_ok_tl)
qed (auto simp: inv_window put_reg_inv set_pc_inv)

text \<open>The builtin under execution, if there is one, has its window in the frame.\<close>

definition step_fits :: "wo_module \<Rightarrow> 'h vmst \<Rightarrow> bool" where
  "step_fits m st \<longleftrightarrow>
     (let i = code (cur_method m st) ! f_pc (cur_frame st) in wop_of i = Some BUILTIN \<longrightarrow> builtin_fits m st i)"

lemma terminator_iff:
  "wop_of i = Some op \<Longrightarrow> terminator i \<longleftrightarrow> op \<in> {RET, RET0, TRAP, DB_STUB, JMP}"
  by (auto simp: terminator_def)

theorem vm_step_ok:
  assumes m: "module_ok m" and i: "vm_inv m (fib st)" and b: "step_fits m st"
  shows "outcome_ok m (vm_step m k st)"
proof -
  let ?me = "cur_method m st" and ?pc = "f_pc (cur_frame st)"
  have f: "f_method (cur_frame st) < length (methods m)" "?pc < length (code ?me)"
    using inv_frame(2) [OF i] by (simp_all add: frame_ok_def cur_method_def)
  then have "ins_ok m ?me ?pc (code ?me ! ?pc)" using module_method [OF m f(1)] by (simp add: method_wf_def cur_method_def)
  then obtain op where op: "wop_of (code ?me ! ?pc) = Some op" "op_ok m ?me ?pc (code ?me ! ?pc) op"
    by (auto simp: ins_ok_def split: option.splits)
  have nx: "has_next m st" if "op \<notin> {RET, RET0, TRAP, DB_STUB, JMP}"
    using that terminator_iff [OF op(1)] has_next_terminator [OF m i] by simp
  have "module_ok m \<longrightarrow> outcome_ok m (vm_op m k op (code ?me ! ?pc) st)"
    by (rule safe.vm_op_ok [OF conjI [OF m i]]) (use op b nx in \<open>auto simp: step_fits_def Let_def safe.nxt_def\<close>)
  then have "outcome_ok m (vm_op m k op (code ?me ! ?pc) st)" using m by simp
  moreover have "frames (fib st) \<noteq> []" using i by (simp add: vm_inv_def)
  ultimately show ?thesis using f op(1) by (simp add: vm_step_def Let_def)
qed

section \<open>Runs\<close>

text \<open>The ids whose window the loader does check.\<close>

definition b_checked :: "nat \<Rightarrow> bool" where
  "b_checked c \<longleftrightarrow> c \<noteq> B_DB_INSERT \<and> \<not> (84 \<le> c \<and> c \<le> 95)"

lemma builtin_fits_checked:
  assumes "builtin_ok (cur_method m st) (wo_ins_b i) (wo_ins_c i)" and "b_checked (wo_ins_c i)"
  shows "builtin_fits m st i"
proof (cases "wo_ins_c i = WO_B_MULTI_NEW \<or> wo_ins_c i = WO_B_MAP_NEW")
  case True
  then have "b_arity (wo_ins_c i) = 0" by (auto simp: WO_B_MULTI_NEW_def WO_B_MAP_NEW_def b_arity_def b_arity_table_def)
  then show ?thesis using assms(2) by (auto simp: builtin_fits_def b_reads_def b_checked_def Let_def)
next
  case False
  then have "b_arity (wo_ins_c i) = 0 \<or> wo_ins_b i + b_arity (wo_ins_c i) \<le> reg_cnt (cur_method m st)"
    using assms(1) by (auto simp: builtin_ok_def split: if_splits)
  then show ?thesis using assms(2) by (auto simp: builtin_fits_def b_reads_def b_checked_def Let_def)
qed



text \<open>No builtin of an unchecked id in the module: then every builtin's window lies in its frame.\<close>

definition builtins_checked :: "wo_module \<Rightarrow> bool" where
  "builtins_checked m \<longleftrightarrow>
     list_all (\<lambda>me. list_all (\<lambda>i. wop_of i = Some BUILTIN \<longrightarrow> b_checked (wo_ins_c i)) (code me)) (methods m)"

lemma checked_step_fits:
  assumes m: "module_ok m" and i: "vm_inv m (fib st)" and b: "builtins_checked m"
  shows "step_fits m st"
proof -
  let ?me = "cur_method m st" and ?pc = "f_pc (cur_frame st)"
  have f: "f_method (cur_frame st) < length (methods m)" "?pc < length (code ?me)"
    using inv_frame(2) [OF i] by (simp_all add: frame_ok_def cur_method_def)
  then have "ins_ok m ?me ?pc (code ?me ! ?pc)" using module_method [OF m f(1)] by (simp add: method_wf_def cur_method_def)
  moreover have "?me \<in> set (methods m)" "code ?me ! ?pc \<in> set (code ?me)" using f by (simp_all add: cur_method_def)
  ultimately show ?thesis using b
    by (auto simp: step_fits_def Let_def ins_ok_def op_ok_def builtins_checked_def list_all_iff
        intro!: builtin_fits_checked)
qed

lemma vm_run_ok:
  assumes m: "module_ok m" and b: "builtins_checked m"
  shows "vm_inv m (fib st) \<Longrightarrow> outcome_ok m (vm_run m k n st)"
proof (induction n arbitrary: st)
  case (Suc n)
  have "outcome_ok m (vm_step m k st)" by (rule vm_step_ok [OF m Suc.prems checked_step_fits [OF m Suc.prems b]])
  then show ?case using Suc.IH by (cases "vm_step m k st") simp_all
qed simp

lemma vm_call_inv:
  assumes m: "module_ok m" and c: "wo_vm_call m mi args st = Some st'" and r: "length (regs (fib st)) = WO_STACK_SLOTS"
  shows "vm_inv m (fib st')"
proof -
  have mi: "mi < length (methods m)" and l: "length args = arg_cnt (methods m ! mi)"
    and st: "st' = st\<lparr>fib := (fib st)\<lparr>
          regs := args @ replicate (reg_cnt (methods m ! mi) - length args) 0 @ drop (reg_cnt (methods m ! mi)) (regs (fib st)),
          frames := [\<lparr>f_method = mi, f_pc = 0, f_base = 0\<rparr>], catches := []\<rparr>\<rparr>"
    using c by (auto simp: wo_vm_call_def Let_def split: if_splits)
  have "arg_cnt (methods m ! mi) \<le> reg_cnt (methods m ! mi)" "reg_cnt (methods m ! mi) \<le> WO_MAX_REGS" "code (methods m ! mi) \<noteq> []"
    using module_method [OF m mi] by (simp_all add: method_wf_def)
  then show ?thesis using mi l r
    by (simp add: st vm_inv_def frame_ok_def catches_ok_def WO_MAX_REGS_def WO_STACK_SLOTS_def WO_MAX_FRAMES_def)
qed

end
