(* ===== verification/VmFrames.thy ===== *)
theory VmFrames
  imports VmSafe
begin

text \<open>
  Calls seen from the caller: while frames above it are alive, nothing below the first of their windows
  changes, neither a register nor a frame (the interpreter's contract, instantiated a second time); and
  the search in the vtable finds the row of a class and a slot whenever there is one.
\<close>

section \<open>The frames below a call\<close>

definition inside :: "wo_frame list \<Rightarrow> nat \<Rightarrow> u64 list \<Rightarrow> wo_fiber \<Rightarrow> bool" where
  "inside gs b rs0 fb \<longleftrightarrow>
     (\<exists>fs. frames fb = fs @ gs \<and> fs \<noteq> [] \<and> (\<forall>f\<in>set fs. b \<le> f_base f) \<and> f_base (last fs) = b) \<and>
     take b (regs fb) = rs0 \<and> b \<le> length (regs fb)"

definition below_kept :: "wo_frame list \<Rightarrow> nat \<Rightarrow> u64 list \<Rightarrow> 'h vres \<Rightarrow> bool" where
  "below_kept gs b rs0 r \<longleftrightarrow>
     (case r of
        Run st \<Rightarrow> length gs < length (frames (fib st)) \<longrightarrow> inside gs b rs0 (fib st)
      | Slice st \<Rightarrow> length gs < length (frames (fib st)) \<longrightarrow> inside gs b rs0 (fib st)
      | Park st \<Rightarrow> length gs < length (frames (fib st)) \<longrightarrow> inside gs b rs0 (fib st)
      | _ \<Rightarrow> True)"

lemma below_kept_simps [simp]:
  "below_kept gs b rs0 (Run st) \<longleftrightarrow> (length gs < length (frames (fib st)) \<longrightarrow> inside gs b rs0 (fib st))"
  "below_kept gs b rs0 (Slice st) \<longleftrightarrow> (length gs < length (frames (fib st)) \<longrightarrow> inside gs b rs0 (fib st))"
  "below_kept gs b rs0 (Park st) \<longleftrightarrow> (length gs < length (frames (fib st)) \<longrightarrow> inside gs b rs0 (fib st))"
  "below_kept gs b rs0 (Done v st)" "below_kept gs b rs0 (Uncaught e st)" "below_kept gs b rs0 (Stopped st)"
  "below_kept gs b rs0 Stray" "below_kept gs b rs0 Wild"
  by (simp_all add: below_kept_def)

lemma inside_catches [simp]: "inside gs b rs0 (fb\<lparr>catches := cs\<rparr>) = inside gs b rs0 fb"
  by (simp add: inside_def)

lemma inside_cur:
  assumes "inside gs b rs0 (fib st)"
  obtains fs where "frames (fib st) = cur_frame st # fs @ gs" "b \<le> f_base (cur_frame st)" "\<forall>f\<in>set fs. b \<le> f_base f"
    "f_base (last (cur_frame st # fs)) = b"
proof -
  obtain fs0 where fs0: "frames (fib st) = fs0 @ gs" "fs0 \<noteq> []" "\<forall>g\<in>set fs0. b \<le> f_base g" "f_base (last fs0) = b"
    using assms unfolding inside_def by blast
  then obtain f fs where f: "fs0 = f # fs" by (cases fs0) simp_all
  then have "cur_frame st = f" using fs0(1) by (simp add: cur_frame_def)
  then show ?thesis using that [of fs] fs0 f by simp
qed

lemma inside_put:
  assumes "inside gs b rs0 (fib st)"
  shows "inside gs b rs0 (fib (put_reg r v st))"
proof -
  have "b \<le> f_base (cur_frame st)" using assms by (rule inside_cur)
  then show ?thesis using assms by (simp add: inside_def put_reg_def)
qed

lemma inside_set_pc:
  assumes "inside gs b rs0 (fib st)"
  shows "inside gs b rs0 (fib (set_pc pc st))"
proof -
  obtain fs where fs: "frames (fib st) = cur_frame st # fs @ gs" "b \<le> f_base (cur_frame st)" "\<forall>f\<in>set fs. b \<le> f_base f"
    "f_base (last (cur_frame st # fs)) = b" using inside_cur [OF assms] by blast
  have "f_base (last ((cur_frame st)\<lparr>f_pc := pc\<rparr> # fs)) = b" using fs(4) by (cases "fs = []") simp_all
  then have "\<exists>fs'. (cur_frame st)\<lparr>f_pc := pc\<rparr> # fs @ gs = fs' @ gs \<and> fs' \<noteq> [] \<and> (\<forall>f\<in>set fs'. b \<le> f_base f) \<and> f_base (last fs') = b"
    using fs(2,3) by (intro exI [of _ "(cur_frame st)\<lparr>f_pc := pc\<rparr> # fs"]) simp
  then show ?thesis using assms fs(1) by (simp add: inside_def set_pc_def)
qed

text \<open>What a dying frame releases is in its window.\<close>

lemma release_reg_take:
  "b \<le> base \<Longrightarrow> take b (fst (release_reg k base ow gc r st)) = take b (fst st)"
  by (auto simp: release_reg_def Let_def split: prod.split)

lemma release_frame_take:
  assumes "b \<le> f_base f"
  shows "take b (fst (vm_release_frame m k f pc keep st)) = take b (fst st)"
proof -
  have "take b (fst (fold (release_reg k (f_base f) ow gc) rs st)) = take b (fst st)" for ow gc rs st
    by (induction rs arbitrary: st) (simp_all add: release_reg_take [OF assms])
  then show ?thesis by (simp add: vm_release_frame_def Let_def split: option.split)
qed

lemma unwind_take:
  assumes "\<forall>f\<in>set (take n fs). b \<le> f_base f"
  shows "take b (fst (snd (vm_unwind m k inner n fs st))) = take b (fst st)"
  using assms by (induction m k inner n fs st rule: vm_unwind.induct) (simp_all add: release_frame_take)

lemma kept_trap:
  assumes i: "inside gs b rs0 (fib st)"
  shows "below_kept gs b rs0 (vm_trap m k t st)"
proof (cases "catches (fib st)")
  case Nil
  then show ?thesis by (auto simp: vm_trap_def Let_def split: option.split prod.split)
next
  case (Cons c cs)
  let ?fb = "fib st" and ?n = "length (frames (fib st)) - c_depth c"
  obtain fs where fs: "frames ?fb = fs @ gs" "fs \<noteq> []" "\<forall>f\<in>set fs. b \<le> f_base f" "f_base (last fs) = b"
    and r: "take b (regs ?fb) = rs0" "b \<le> length (regs ?fb)" using i by (auto simp: inside_def)
  obtain fs1 rs h where u: "vm_unwind m k True ?n (frames ?fb) (regs ?fb, vmheap st) = (fs1, rs, h)" by (metis prod_cases3)
  have u1: "fs1 = drop ?n (frames ?fb)" "length rs = length (regs ?fb)"
    using unwind_frames(1) [where n = ?n and fs = "frames ?fb" and m = m and k = k and b = True and st = "(regs ?fb, vmheap st)"]
      unwind_frames(2) [where n = ?n and fs = "frames ?fb" and m = m and k = k and b = True and st = "(regs ?fb, vmheap st)"] u
    by simp_all
  show ?thesis
  proof (cases fs1)
    case Nil
    then show ?thesis using Cons u by (simp add: vm_trap_def Let_def split: option.split)
  next
    case (Cons cf gs1)
    define kp where "kp = vm_release_frame m k cf (if c_depth c = length (frames ?fb) then f_pc cf else f_pc cf - 1)
      (Some (c_pc c)) (rs, h)"
    have eq: "vm_trap m k t st = (case vm_fill_err m t (hd (frames ?fb)) of None \<Rightarrow> Stray | Some err \<Rightarrow>
        Run (st\<lparr>vmheap := snd kp, fib := ?fb\<lparr>regs := fst kp, frames := cf\<lparr>f_pc := c_pc c\<rparr> # gs1, catches := cs, caught := err\<rparr>\<rparr>))"
      using u Cons \<open>catches ?fb = c # cs\<close> by (simp add: vm_trap_def Let_def kp_def case_prod_beta split: option.split)
    show ?thesis
    proof (cases "length gs < length fs1")
      case False
      then show ?thesis using Cons by (auto simp: eq split: option.split)
    next
      case True
      then have n: "?n < length fs" using u1(1) fs(1) by simp
      then have d: "fs1 = drop ?n fs @ gs" using u1(1) fs(1) by simp
      obtain fs2 where fs2: "drop ?n fs = cf # fs2" using n d Cons by (cases "drop ?n fs") auto
      have sub: "set (cf # fs2) \<subseteq> set fs" using fs2 set_drop_subset by metis
      have bs: "\<forall>f\<in>set (cf # fs2). b \<le> f_base f" using fs(3) sub by blast
      have "last (cf # fs2) = last fs" using fs2 n by (metis last_drop)
      then have lb: "f_base (last (cf\<lparr>f_pc := c_pc c\<rparr> # fs2)) = b" using fs(4) by (cases "fs2 = []") auto
      have "take b rs = rs0"
        using unwind_take [of ?n "frames ?fb" b m k True "(regs ?fb, vmheap st)"] u r(1) fs(1,3) n
        by (auto dest: in_set_takeD)
      then have "take b (fst kp) = rs0" "length (fst kp) = length (regs ?fb)"
        using release_frame_take [of b cf m k _ _ "(rs, h)"] bs u1(2) by (simp_all add: kp_def)
      moreover have "\<exists>fs'. cf\<lparr>f_pc := c_pc c\<rparr> # gs1 = fs' @ gs \<and> fs' \<noteq> [] \<and> (\<forall>f\<in>set fs'. b \<le> f_base f) \<and> f_base (last fs') = b"
        using bs lb d fs2 Cons by (intro exI [of _ "cf\<lparr>f_pc := c_pc c\<rparr> # fs2"]) simp
      ultimately show ?thesis using r(2) by (simp add: eq inside_def split: option.split)
    qed
  qed
qed

lemma kept_enter:
  assumes i: "inside gs b rs0 (fib st)"
  shows "below_kept gs b rs0 (enter m k mi a st)"
proof -
  obtain fs where fs: "frames (fib st) = cur_frame st # fs @ gs" "b \<le> f_base (cur_frame st)" "\<forall>f\<in>set fs. b \<le> f_base f"
    "f_base (last (cur_frame st # fs)) = b" using inside_cur [OF i] by blast
  let ?nb = "f_base (cur_frame st) + a" and ?pc = "f_pc (cur_frame st) + 1"
  let ?new = "\<lparr>f_method = mi, f_pc = 0, f_base = ?nb\<rparr> # (cur_frame st)\<lparr>f_pc := ?pc\<rparr> # fs"
  have "f_base (last ?new) = b" using fs(4) by (cases "fs = []") simp_all
  then have "\<exists>fs'. ?new @ gs = fs' @ gs \<and> fs' \<noteq> [] \<and> (\<forall>f\<in>set fs'. b \<le> f_base f) \<and> f_base (last fs') = b"
    using fs(2,3) by (intro exI [of _ ?new]) simp
  then show ?thesis using i fs(1,2) kept_trap [OF i]
    by (auto simp: enter_def Let_def inside_def min_def)
qed

lemma kept_leave:
  assumes i: "inside gs b rs0 (fib st)"
  shows "below_kept gs b rs0 (leave rv st)"
proof -
  obtain fs where fs: "frames (fib st) = cur_frame st # fs @ gs" "b \<le> f_base (cur_frame st)" "\<forall>f\<in>set fs. b \<le> f_base f"
    "f_base (last (cur_frame st # fs)) = b" using inside_cur [OF i] by blast
  have "\<exists>fs'. fs @ gs = fs' @ gs \<and> fs' \<noteq> [] \<and> (\<forall>f\<in>set fs'. b \<le> f_base f) \<and> f_base (last fs') = b" if "fs \<noteq> []"
    using fs(3,4) that by (intro exI [of _ fs]) simp
  then show ?thesis using i fs(1,2) by (auto simp: leave_def Let_def inside_def)
qed

interpretation below: vm_contract m k "\<lambda>st. inside gs b rs0 (fib st)" "below_kept gs b rs0" for m k gs b rs0
proof (unfold_locales, goal_cases)
  case (13 st t)
  then show ?case by (rule kept_trap)
next
  case (14 st mi a)
  then show ?case by (simp add: kept_enter)
next
  case (15 st rv)
  then show ?case by (rule kept_leave)
qed (simp_all add: inside_put inside_set_pc)

lemma step_below:
  assumes "inside gs b rs0 (fib st)"
  shows "below_kept gs b rs0 (vm_step m k st)"
proof -
  have "below_kept gs b rs0 (vm_op m k op i st)" for op i
    by (rule below.vm_op_ok [OF assms]) (simp_all add: below.nxt_def)
  then show ?thesis by (simp add: vm_step_def Let_def split: option.split)
qed

lemma vm_run_last:
  "vm_run m k (Suc n) st = (case vm_run m k n st of Run s \<Rightarrow> vm_step m k s | r \<Rightarrow> r)"
proof (induction n arbitrary: st)
  case 0
  show ?case by (cases "vm_step m k st") simp_all
next
  case (Suc n)
  show ?case
  proof (cases "vm_step m k st")
    case (Run s)
    then show ?thesis using Suc [of s] by simp
  qed simp_all
qed

lemma run_below:
  assumes i: "inside gs b rs0 (fib st)"
    and d: "\<forall>j\<le>n. \<forall>s. vm_run m k j st = Run s \<longrightarrow> length gs < length (frames (fib s))"
    and r: "vm_run m k n st = Run s"
  shows "inside gs b rs0 (fib s)"
  using d r
proof (induction n arbitrary: s)
  case 0
  then show ?case using i by simp
next
  case (Suc n)
  obtain s1 where s1: "vm_run m k n st = Run s1" "vm_step m k s1 = Run s"
    using Suc.prems(2) by (auto simp: vm_run_last simp del: vm_run.simps split: vres.splits)
  have "inside gs b rs0 (fib s1)" using Suc.IH [OF _ s1(1)] Suc.prems(1) le_SucI by blast
  moreover have "length gs < length (frames (fib s))" using Suc.prems by blast
  ultimately show ?case using step_below [of gs b rs0 s1 m k] s1(2) by simp
qed

section \<open>The search in the vtable\<close>

lemma vtab_find_none:
  assumes "sorted_wrt (\<lambda>x y. v_key x < v_key y) vs"
  shows "vtab_find vs cid slot lo hi = None \<Longrightarrow> hi \<le> length vs \<Longrightarrow> lo \<le> i \<Longrightarrow> i < hi \<Longrightarrow> v_key (vs ! i) \<noteq> (cid, slot)"
  using assms
proof (induction vs cid slot lo hi rule: vtab_find.induct)
  case (1 vs cid slot lo hi)
  define mid where "mid = lo + (hi - lo) div 2"
  have mid: "lo \<le> mid" "mid < hi" using 1(5,6) by (auto simp: mid_def)
  have less: "v_class (vs ! mid) < cid \<or> (v_class (vs ! mid) = cid \<and> v_slot (vs ! mid) < slot) \<longleftrightarrow> v_key (vs ! mid) < (cid, slot)"
    by (auto simp: v_key_def)
  have srt: "v_key (vs ! a) < v_key (vs ! c)" if "a < c" "c < length vs" for a c
    using 1(7) that by (simp add: sorted_wrt_iff_nth_less)
  have step: "vtab_find vs cid slot lo hi =
      (if v_key (vs ! mid) < (cid, slot) then vtab_find vs cid slot (mid + 1) hi
       else if v_key (vs ! mid) = (cid, slot) then Some (vs ! mid) else vtab_find vs cid slot lo mid)"
    using mid less by (simp add: vtab_find.simps [of vs cid slot lo hi] Let_def mid_def [symmetric] v_key_def)
  consider "v_key (vs ! mid) < (cid, slot)" | "(cid, slot) < v_key (vs ! mid)"
    using step 1(3) by (cases "v_key (vs ! mid)" "(cid, slot)" rule: linorder_cases) auto
  then show ?case
  proof cases
    case lt: 1
    show ?thesis
    proof (cases "i \<le> mid")
      case True
      then have "v_key (vs ! i) \<le> v_key (vs ! mid)" using srt [of i mid] mid 1(4) by (cases "i = mid") auto
      then show ?thesis using lt by auto
    next
      case False
      have "vtab_find vs cid slot (mid + 1) hi = None" using step 1(3) lt by simp
      then show ?thesis using mid False 1(4-7) less lt by (intro 1(1) [OF _ mid_def refl]) simp_all
    qed
  next
    case gt: 2
    show ?thesis
    proof (cases "mid \<le> i")
      case True
      then have "v_key (vs ! mid) \<le> v_key (vs ! i)" using srt [of mid i] 1(4,6) by (cases "i = mid") auto
      then show ?thesis using gt by auto
    next
      case False
      have n: "\<not> v_key (vs ! mid) < (cid, slot)" "v_key (vs ! mid) \<noteq> (cid, slot)" using gt by auto
      then have "vtab_find vs cid slot lo mid = None" using step 1(3) by simp
      moreover have "\<not> (v_class (vs ! mid) = cid \<and> v_slot (vs ! mid) = slot)" using n(2) by (simp add: v_key_def)
      ultimately show ?thesis using n mid False 1(4-7) less by (intro 1(2) [OF _ mid_def refl]) simp_all
    qed
  qed
qed

lemma vtab_find_iff:
  assumes s: "sorted_wrt (\<lambda>x y. v_key x < v_key y) vs"
  shows "vtab_find vs cid slot 0 (length vs) = Some e \<longleftrightarrow> e \<in> set vs \<and> v_class e = cid \<and> v_slot e = slot"
proof
  assume "vtab_find vs cid slot 0 (length vs) = Some e"
  then show "e \<in> set vs \<and> v_class e = cid \<and> v_slot e = slot" by (rule vtab_find_mem) simp
next
  assume e: "e \<in> set vs \<and> v_class e = cid \<and> v_slot e = slot"
  then obtain i where i: "i < length vs" "vs ! i = e" by (auto simp: in_set_conv_nth)
  obtain e' where e': "vtab_find vs cid slot 0 (length vs) = Some e'"
    using vtab_find_none [OF s, of cid slot 0 "length vs" i] i e by (cases "vtab_find vs cid slot 0 (length vs)") (auto simp: v_key_def)
  then have m: "e' \<in> set vs" "v_key e' = v_key e" using vtab_find_mem [OF e'] e by (auto simp: v_key_def)
  then obtain j where j: "j < length vs" "vs ! j = e'" by (auto simp: in_set_conv_nth)
  have "i = j" using s i j m(2) by (metis linorder_neqE_nat order.strict_iff_order sorted_wrt_iff_nth_less)
  then show "vtab_find vs cid slot 0 (length vs) = Some e" using e' i j by simp
qed

section \<open>From a call to its return\<close>

definition cur_ins :: "wo_module \<Rightarrow> 'h vmst \<Rightarrow> u32" where
  "cur_ins m st = code (cur_method m st) ! f_pc (cur_frame st)"

lemma step_op:
  assumes "vm_step m k st = Run s" and "wop_of (cur_ins m st) = Some op"
  shows "vm_op m k op (cur_ins m st) st = Run s" and "frames (fib st) \<noteq> []"
  using assms by (auto simp: vm_step_def cur_ins_def Let_def split: if_splits)

lemma unwind_shrinks: "length (fst (vm_unwind m k inner n fs st)) \<le> length fs"
  by (induction m k inner n fs st rule: vm_unwind.induct) auto

lemma trap_shrinks:
  assumes "vm_trap m k t st = Run s"
  shows "length (frames (fib s)) \<le> length (frames (fib st))"
proof -
  obtain c cs where c: "catches (fib st) = c # cs"
    using assms by (cases "catches (fib st)") (auto simp: vm_trap_def Let_def split: option.splits prod.splits)
  obtain fs rs h where u: "vm_unwind m k True (length (frames (fib st)) - c_depth c) (frames (fib st)) (regs (fib st), vmheap st) = (fs, rs, h)"
    by (metis prod_cases3)
  have "length fs \<le> length (frames (fib st))" using unwind_shrinks u by (metis fst_conv)
  then show ?thesis using assms u
    by (auto simp: vm_trap_def Let_def c split: option.splits list.splits prod.splits)
qed

lemma call_enters:
  assumes s: "vm_step m k st = Run s0" and op: "wop_of (cur_ins m st) = Some CALL"
    and d: "length (frames (fib st)) < length (frames (fib s0))" and r: "length (regs (fib st)) = WO_STACK_SLOTS"
    and b: "b = f_base (cur_frame st) + wo_ins_a (cur_ins m st)"
  shows "inside ((cur_frame st)\<lparr>f_pc := f_pc (cur_frame st) + 1\<rparr> # tl (frames (fib st))) b (take b (regs (fib st))) (fib s0)"
proof -
  let ?mi = "wo_ins_bx (cur_ins m st)" and ?gs = "(cur_frame st)\<lparr>f_pc := f_pc (cur_frame st) + 1\<rparr> # tl (frames (fib st))"
  have e: "enter m k ?mi (wo_ins_a (cur_ins m st)) (gc_safepoint m k st) = Run s0"
    using step_op(1) [OF s op] by (simp add: vm_op_def)
  have nt: "vm_trap m k t (gc_safepoint m k st) \<noteq> Run s0" for t
    using trap_shrinks [of m k t "gc_safepoint m k st" s0] d by auto
  have f: "\<not> length (methods m) \<le> ?mi" "b + reg_cnt (methods m ! ?mi) \<le> WO_STACK_SLOTS"
    and s0: "frames (fib s0) = \<lparr>f_method = ?mi, f_pc = 0, f_base = b\<rparr> # ?gs"
      "regs (fib s0) = take (b + arg_cnt (methods m ! ?mi)) (regs (fib st)) @
        replicate (reg_cnt (methods m ! ?mi) - arg_cnt (methods m ! ?mi)) 0 @ drop (b + reg_cnt (methods m ! ?mi)) (regs (fib st))"
    using e nt by (auto simp: enter_def Let_def b split: if_splits)
  have "\<exists>fs. frames (fib s0) = fs @ ?gs \<and> fs \<noteq> [] \<and> (\<forall>f\<in>set fs. b \<le> f_base f) \<and> f_base (last fs) = b"
    by (intro exI [of _ "[\<lparr>f_method = ?mi, f_pc = 0, f_base = b\<rparr>]"]) (simp add: s0)
  then show ?thesis using f r by (simp add: inside_def s0 min_def) linarith
qed

lemma inside_return:
  assumes i: "inside gs b rs0 (fib st)" and s: "vm_step m k st = Run s" and op: "wop_of (cur_ins m st) = Some RET"
    and d: "length (frames (fib s)) = length gs"
  shows "frames (fib s) = gs \<and> take b (regs (fib s)) = rs0 \<and>
    (b < length (regs (fib st)) \<longrightarrow> regs (fib s) ! b = regs (fib st) ! (b + wo_ins_a (cur_ins m st)))"
proof -
  obtain fs where fs: "frames (fib st) = cur_frame st # fs @ gs" "b \<le> f_base (cur_frame st)" "f_base (last (cur_frame st # fs)) = b"
    using inside_cur [OF i] by metis
  let ?rv = "regs (fib st) ! (f_base (cur_frame st) + wo_ins_a (cur_ins m st))"
  have "leave ?rv st = Run s"
    using step_op(1) [OF s op] by (simp add: vm_op_def getr_def split: if_splits)
  then have s: "frames (fib s) = fs @ gs" "regs (fib s) = (regs (fib st))[f_base (cur_frame st) := ?rv]"
    using fs(1) by (auto simp: leave_def Let_def split: if_splits)
  then have "fs = []" using d by simp
  then show ?thesis using fs i s by (simp add: inside_def)
qed

end
