(* ===== verification/VmDemo.thy ===== *)
theory VmDemo
  imports VmFrames
begin

text \<open>
  Two small images and a fiber to run them on, for the witnesses: one method that answers a constant,
  and one whose builtin reads a register that its frame does not have.
\<close>

definition demo_img :: "bytes \<Rightarrow> bytes" where
  "demo_img cb =
     [0x57, 0x4F, 0x42, 0x31, 8, 0, 0, 0, 44, 0, 0, 0, 2, 0, 0, 0, 62, 0, 0, 0, 0, 0, 0, 0,
      62, 0, 0, 0, 0, 0, 0, 0, 66, 0, 0, 0, 1, 0, 0, 0, 0, 0, 0, 0,
      1, 4, 0, 0, 0, 109, 97, 105, 110, 0, 42, 0, 0, 0, 0, 0, 0, 0,
      0, 0, 0, 0,
      0, 0, 0, 0, 255, 255, 255, 255, 0, 1, 0, 0, 8, 0, 0, 0] @ cb @ [0, 0, 0, 0, 0, 0, 0, 0]"

definition demo_answer :: bytes where "demo_answer = [1, 0, 1, 0, 17, 0, 0, 0]"
definition demo_beyond :: bytes where "demo_beyond = [29, 0, 200, 85, 18, 0, 0, 0]"

definition demo_module :: "u32 list \<Rightarrow> wo_module" where
  "demo_module is = \<lparr>kconsts = [CText [109, 97, 105, 110], CInt 42], mclasses = [], slot_cnt = 0, vtabs = [],
     methods = [\<lparr>m_name = 0, m_class = NO_METHOD, arg_cnt = 0, reg_cnt = 1, code = is, lines = [], drops = []\<rparr>], entry = 0\<rparr>"

definition answer_code :: "u32 list" where "answer_code = [0x00010001, 17]"
definition beyond_code :: "u32 list" where "beyond_code = [0x55C8001D, 18]"

lemmas parse_defs = rd_u32_def rd_u64_def rd_u16_def rtake_def

lemma upt2: "[0..<2] = [0, Suc 0]"
  by (simp add: upt_rec)

lemma demo_consts: "load_consts (\<lambda>_. True) 2 (drop 44 (demo_img cb)) = Some [CText [109, 97, 105, 110], CInt 42]"
  by (simp add: load_consts_def demo_img_def load_const_def parse_defs upt2)

lemma demo_ifaces: "load_ifaces (\<lambda>_. True) cs 0 0 (drop 62 (demo_img cb)) = Some (0, [])"
  by (simp add: load_ifaces_def demo_img_def parse_defs slot_base_def)


lemma demo_method:
  assumes "length cb = 8"
  shows "load_methods (\<lambda>_. True) [CText [109, 97, 105, 110], CInt 42] 0 (Suc 0) (drop 66 (demo_img cb)) =
    Some [\<lparr>m_name = 0, m_class = NO_METHOD, arg_cnt = 0, reg_cnt = 1,
      code = [of_nat (of_le (take 4 cb)), of_nat (of_le (take 4 (drop 4 cb)))], lines = [], drops = []\<rparr>]"
  using assms
  by (simp add: load_methods_def load_method_def demo_img_def parse_defs text_const_def NO_METHOD_def WO_MAX_REGS_def
      pcs_ok_def upt2)

lemma demo_header:
  "rd_u32 (demo_img cb) = Some (WOB_MAGIC, drop 4 (demo_img cb))"
  "rd_u32 (drop 4 (demo_img cb)) = Some (WOB_VERSION, drop 8 (demo_img cb))"
  "rd_u32 (drop 8 (demo_img cb)) = Some (44, drop 12 (demo_img cb))"
  "rd_u32 (drop 12 (demo_img cb)) = Some (2, drop 16 (demo_img cb))"
  "rd_u32 (drop 16 (demo_img cb)) = Some (62, drop 20 (demo_img cb))"
  "rd_u32 (drop 20 (demo_img cb)) = Some (0, drop 24 (demo_img cb))"
  "rd_u32 (drop 24 (demo_img cb)) = Some (62, drop 28 (demo_img cb))"
  "rd_u32 (drop 28 (demo_img cb)) = Some (0, drop 32 (demo_img cb))"
  "rd_u32 (drop 32 (demo_img cb)) = Some (66, drop 36 (demo_img cb))"
  "rd_u32 (drop 36 (demo_img cb)) = Some (1, drop 40 (demo_img cb))"
  "rd_u32 (drop 40 (demo_img cb)) = Some (0, drop 44 (demo_img cb))"
  by (simp_all add: demo_img_def parse_defs WOB_MAGIC_def WOB_VERSION_def)

lemma demo_load:
  assumes cb: "length cb = 8" "of_nat (of_le (take 4 cb)) = i0" "of_nat (of_le (take 4 (drop 4 cb))) = i1"
    and ok: "method_ok (demo_module [i0, i1]) (hd (methods (demo_module [i0, i1])))"
  shows "wo_load_buf (\<lambda>_. True) (demo_img cb) = Some (demo_module [i0, i1])"
proof -
  have h: "length (demo_img cb) = 98" using cb(1) by (simp add: demo_img_def)
  have d: "load_classes (\<lambda>_. True) cs 0 bs = Some []" for cs bs by (simp add: load_classes_def)
  have i1: "of_nat (of_le (drop 4 cb)) = i1" using cb(1,3) by simp
  have "method_ok (m\<lparr>entry := e\<rparr>) me = method_ok m me" for m me e
    using ins_ok_same [of "m\<lparr>entry := e\<rparr>" m me] by (simp add: method_ok_def)
  from this [of NO_METHOD "demo_module [i0, i1]"] ok show ?thesis
    by (simp add: wo_load_buf_def demo_header demo_consts demo_ifaces demo_method [OF cb(1)] cb(1,2) i1 d h demo_module_def
        sort_vtabs_def entry_ok_def Let_def)
qed

definition demo_fiber :: wo_fiber where
  "demo_fiber = \<lparr>regs = replicate WO_STACK_SLOTS 0, frames = [], catches = [], caught = \<lparr>e_code = 0, e_line = 0, e_method = []\<rparr>\<rparr>"

definition demo_hooks :: "vheap hooks" where
  "demo_hooks = \<lparr>k_const = (\<lambda>_. 0), k_arena = (\<lambda>_ h. (None, h)), k_track = (\<lambda>_ h. h), k_drop = (\<lambda>_ h. h),
     k_marking = (\<lambda>_. False), k_shade = (\<lambda>_ h. h), k_safepoint = (\<lambda>_ h. h), k_builtin = (\<lambda>_ _ _ h. (BOk None, h)),
     k_fpu = (\<lambda>_ x _. x)\<rparr>"

definition demo_vm :: "vheap vmst" where
  "demo_vm = \<lparr>vmheap = \<lparr>objs = (\<lambda>_. None)\<rparr>, fib = demo_fiber, budget = 100, budget0 = 100\<rparr>"

lemma ins_fields:
  "wo_ins_op 0x00010001 = 1" "wo_ins_a 0x00010001 = 0" "wo_ins_bx 0x00010001 = 1" "wo_ins_op 17 = 17" "wo_ins_a 17 = 0"
  "wo_ins_op 0x55C8001D = 29" "wo_ins_a 0x55C8001D = 0" "wo_ins_b 0x55C8001D = 200" "wo_ins_c 0x55C8001D = 85"
  "wo_ins_op 18 = 18"
  by (simp_all add: wo_ins_op_def wo_ins_a_def wo_ins_bx_def wo_ins_b_def wo_ins_c_def)

lemma demo_ops:
  "wop_of 0x00010001 = Some LOADK" "wop_of 17 = Some RET" "wop_of 0x55C8001D = Some BUILTIN" "wop_of 18 = Some RET0"
  by (simp_all add: wop_of_def ins_fields wops_def)

lemma answer_loads: "wo_load_buf (\<lambda>_. True) (demo_img demo_answer) = Some (demo_module answer_code)"
  unfolding answer_code_def
  by (rule demo_load)
    (simp_all add: demo_answer_def demo_module_def method_ok_def upt2 ins_ok_def op_ok_def demo_ops ins_fields terminator_def)

lemma beyond_loads: "wo_load_buf (\<lambda>_. True) (demo_img demo_beyond) = Some (demo_module beyond_code)"
  unfolding beyond_code_def
  by (rule demo_load)
    (simp_all add: demo_beyond_def demo_module_def method_ok_def upt2 ins_ok_def op_ok_def demo_ops ins_fields terminator_def
      builtin_ok_def WO_B_MAX_def WO_B_MULTI_NEW_def WO_B_MAP_NEW_def b_arity_def b_arity_table_def)

end
