(* ===== verification/VmUnwind.thy ===== *)
theory VmUnwind
  imports VmSafe
begin

text \<open>
  What a trap does to the values of the frames it ends: every owned value is dropped once, its
  register is cleared, and each was a root of the collector; a caught trap lands in the frame and at
  the position its region names.
\<close>

section \<open>Which registers die\<close>

text \<open>
  The contract of the drop tables. The entry that governs an instruction is the last one recorded at or
  before it; \<open>holds sel me pc r\<close> says that its mask \<open>sel\<close> (owned, or traced) has register \<open>r\<close>. What dies with a
  frame at \<open>pc\<close> are the registers its entry lists, less those the entry at the position it resumes at
  lists too; each is marked with whether the frame owned its value.
\<close>

definition governing :: "wo_methodrec \<Rightarrow> nat \<Rightarrow> wo_dropent option" where
  "governing me pc = (case rev (filter (\<lambda>d. d_pc d \<le> pc) (drops me)) of [] \<Rightarrow> None | d # ds \<Rightarrow> Some d)"

definition holds :: "(wo_dropent \<Rightarrow> u64) \<Rightarrow> wo_methodrec \<Rightarrow> nat \<Rightarrow> nat \<Rightarrow> bool" where
  "holds sel me pc r \<longleftrightarrow> (\<exists>e. governing me pc = Some e \<and> bit (sel e) r)"

definition dies :: "(wo_dropent \<Rightarrow> u64) \<Rightarrow> wo_methodrec \<Rightarrow> nat \<Rightarrow> nat option \<Rightarrow> nat \<Rightarrow> bool" where
  "dies sel me pc keep r \<longleftrightarrow> holds sel me pc r \<and> (\<forall>kp. keep = Some kp \<longrightarrow> \<not> holds sel me kp r)"

definition frame_marks :: "wo_module \<Rightarrow> wo_frame \<Rightarrow> nat \<Rightarrow> nat option \<Rightarrow> (nat \<times> bool) list" where
  "frame_marks m f pc keep =
     (let me = methods m ! f_method f in
      map (\<lambda>r. (f_base f + r, dies d_owned me pc keep r))
        (filter (\<lambda>r. dies d_owned me pc keep r \<or> dies d_gc me pc keep r) [0..<reg_cnt me]))"

text \<open>The innermost frame is governed by its own position, every other by the call it is in.\<close>

definition nth_marks :: "wo_module \<Rightarrow> wo_frame list \<Rightarrow> nat option \<Rightarrow> nat \<Rightarrow> (nat \<times> bool) list" where
  "nth_marks m fs keep q = frame_marks m (fs ! q) (if q = 0 then f_pc (fs ! q) else f_pc (fs ! q) - 1) keep"

text \<open>What dies at a trap, in the order it is released: every frame, innermost first; with a region open,
  the frames above the one that opened it and, of that one, what it does not hold at the handler.\<close>

definition trap_marks :: "wo_module \<Rightarrow> wo_fiber \<Rightarrow> (nat \<times> bool) list" where
  "trap_marks m fb =
     (case catches fb of
        [] \<Rightarrow> concat (map (nth_marks m (frames fb) None) [0..<length (frames fb)])
      | c # cs \<Rightarrow> (let n = length (frames fb) - c_depth c in
          concat (map (nth_marks m (frames fb) None) [0..<n]) @ nth_marks m (frames fb) (Some (c_pc c)) n))"

text \<open>A register is dropped when it holds something and is owned where it is first listed: windows may
  overlap, and what an inner frame released is gone for the outer ones.\<close>

definition owned_first :: "u64 list \<Rightarrow> (nat \<times> bool) list \<Rightarrow> nat list" where
  "owned_first rs ms = map (\<lambda>i. fst (ms ! i))
     (filter (\<lambda>i. snd (ms ! i) \<and> rs ! fst (ms ! i) \<noteq> 0 \<and> fst (ms ! i) \<notin> fst ` set (take i ms)) [0..<length ms])"

lemma owned_first_nil [simp]: "owned_first rs [] = []"
  by (simp add: owned_first_def)

lemma owned_first_snoc:
  "owned_first rs (ms @ [x]) =
     owned_first rs ms @ (if snd x \<and> rs ! fst x \<noteq> 0 \<and> fst x \<notin> fst ` set ms then [fst x] else [])"
proof -
  let ?P = "\<lambda>ms i. snd (ms ! i) \<and> rs ! fst (ms ! i) \<noteq> 0 \<and> fst (ms ! i) \<notin> fst ` set (take i ms)"
  have "filter (?P (ms @ [x])) [0..<length ms] = filter (?P ms) [0..<length ms]"
    by (rule filter_cong [OF refl]) (simp add: nth_append)
  then show ?thesis by (simp add: owned_first_def nth_append)
qed

text \<open>What the registers and the heap are once the marks \<open>ms\<close> are released.\<close>

definition released :: "'h hooks \<Rightarrow> u64 list \<Rightarrow> 'h \<Rightarrow> (nat \<times> bool) list \<Rightarrow> u64 list \<times> 'h \<Rightarrow> bool" where
  "released k rs0 h0 ms st \<longleftrightarrow>
     fst st = map (\<lambda>j. if j \<in> fst ` set ms then 0 else rs0 ! j) [0..<length rs0] \<and>
     snd st = fold (k_drop k) (map ((!) rs0) (owned_first rs0 ms)) h0"

lemma released_start: "released k rs h [] (rs, h)"
  by (simp add: released_def map_nth)

definition mark_step :: "'h hooks \<Rightarrow> nat \<times> bool \<Rightarrow> u64 list \<times> 'h \<Rightarrow> u64 list \<times> 'h" where
  "mark_step k x st = (let v = fst st ! fst x in
     if v = 0 then st else ((fst st)[fst x := 0], if snd x then k_drop k v (snd st) else snd st))"

lemma released_step:
  assumes r: "released k rs0 h0 ms st" and j: "fst x < length rs0"
  shows "released k rs0 h0 (ms @ [x]) (mark_step k x st)"
proof -
  have l: "length (fst st) = length rs0"
    and v: "fst st ! i = (if i \<in> fst ` set ms then 0 else rs0 ! i)" if "i < length rs0" for i
    using r that by (auto simp: released_def)
  have l: "length (fst st) = length rs0" using r by (simp add: released_def)
  have "fst (mark_step k x st) = map (\<lambda>i. if i \<in> fst ` set (ms @ [x]) then 0 else rs0 ! i) [0..<length rs0]"
  proof (rule nth_equalityI)
    have ln: "length (fst (mark_step k x st)) = length rs0" using l by (simp add: mark_step_def Let_def)
    then show "length (fst (mark_step k x st)) = length (map (\<lambda>i. if i \<in> fst ` set (ms @ [x]) then 0 else rs0 ! i) [0..<length rs0])" by simp
    show "fst (mark_step k x st) ! i = map (\<lambda>i. if i \<in> fst ` set (ms @ [x]) then 0 else rs0 ! i) [0..<length rs0] ! i"
      if "i < length (fst (mark_step k x st))" for i
    proof -
      have i: "i < length rs0" using that ln by simp
      then show ?thesis using l v [OF i] v [OF j] j by (auto simp: mark_step_def Let_def nth_list_update)
    qed
  qed
  moreover have "snd (mark_step k x st) = fold (k_drop k) (map ((!) rs0) (owned_first rs0 (ms @ [x]))) h0"
    using r v [OF j] by (auto simp: mark_step_def Let_def owned_first_snoc released_def)
  ultimately show ?thesis by (simp add: released_def)
qed

lemma released_steps:
  assumes "released k rs0 h0 ms st" and "\<forall>x\<in>set xs. fst x < length rs0"
  shows "released k rs0 h0 (ms @ xs) (fold (mark_step k) xs st)"
  using assms
proof (induction xs arbitrary: ms st)
  case (Cons x xs)
  then show ?case using Cons.IH [OF released_step [OF Cons.prems(1)]] by simp
qed simp

section \<open>The releases are those of the marks\<close>

lemma takeWhile_sorted:
  assumes "sorted_wrt (\<lambda>x y. f x < (f y :: nat)) xs"
  shows "takeWhile (\<lambda>x. f x \<le> b) xs = filter (\<lambda>x. f x \<le> b) xs"
  using assms
proof (induction xs)
  case (Cons x xs)
  have "filter (\<lambda>x. f x \<le> b) xs = []" if "\<not> f x \<le> b"
    using Cons.prems that by (fastforce simp: filter_empty_conv)
  then show ?case using Cons by simp
qed simp

lemma vm_dropent_governing:
  assumes "pcs_ok n (map d_pc (drops me))"
  shows "vm_dropent me pc = governing me pc"
proof -
  have "sorted_wrt (<) (map d_pc (drops me))" using assms by (simp add: pcs_ok_def successively_conv_sorted_wrt)
  then have "takeWhile (\<lambda>d. d_pc d \<le> pc) (drops me) = filter (\<lambda>d. d_pc d \<le> pc) (drops me)"
    by (intro takeWhile_sorted) (simp add: sorted_wrt_map)
  then show ?thesis by (cases "filter (\<lambda>d. d_pc d \<le> pc) (drops me)" rule: rev_cases) (simp_all add: vm_dropent_def governing_def Let_def)
qed

lemma frame_drops:
  assumes "module_ok m" and "f_method f < length (methods m)"
  shows "vm_dropent (methods m ! f_method f) pc = governing (methods m ! f_method f) pc"
  using assms by (intro vm_dropent_governing [of "length (code (methods m ! f_method f))"])
    (auto simp: module_ok_def method_wf_def)

lemma fold_filter_step: "(\<And>x st. \<not> P x \<Longrightarrow> g x st = st) \<Longrightarrow> (\<And>x st. P x \<Longrightarrow> g x st = h (t x) st) \<Longrightarrow>
    fold g xs st = fold h (map t (filter P xs)) st"
  by (induction xs arbitrary: st) auto

lemma release_reg_mark:
  "release_reg k base ow gc r st = (if bit ow r \<or> bit gc r then mark_step k (base + r, bit ow r) st else st)"
  by (cases st; cases "base + r < length (fst st)") (auto simp: release_reg_def mark_step_def Let_def)

lemma release_frame_marks:
  assumes m: "module_ok m" "f_method f < length (methods m)"
  shows "vm_release_frame m k f pc keep st = fold (mark_step k) (frame_marks m f pc keep) st"
proof (cases "governing (methods m ! f_method f) pc")
  case None
  then show ?thesis
    by (simp add: vm_release_frame_def Let_def frame_drops [OF m] frame_marks_def dies_def holds_def)
next
  case (Some e)
  define q where "q = (case keep of None \<Rightarrow> None | Some kp \<Rightarrow> governing (methods m ! f_method f) kp)"
  define ow where "ow = d_owned e AND NOT (case q of None \<Rightarrow> 0 | Some q \<Rightarrow> d_owned q)"
  define gc where "gc = d_gc e AND NOT (case q of None \<Rightarrow> 0 | Some q \<Rightarrow> d_gc q)"
  have few: "r < 64" if "r < reg_cnt (methods m ! f_method f)" for r
  proof -
    have "method_wf m (methods m ! f_method f)" using m by (simp add: module_ok_def)
    then show ?thesis using that by (simp add: method_wf_def WO_MAX_REGS_def)
  qed
  have o: "bit ow r = dies d_owned (methods m ! f_method f) pc keep r"
    and g: "bit gc r = dies d_gc (methods m ! f_method f) pc keep r"
    if "r < reg_cnt (methods m ! f_method f)" for r
    using few [OF that] Some
    by (auto simp: ow_def gc_def q_def dies_def holds_def bit_and_iff bit_not_iff split: option.splits)
  have "fold (release_reg k (f_base f) ow gc) rs st = fold (mark_step k)
      (map (\<lambda>r. (f_base f + r, dies d_owned (methods m ! f_method f) pc keep r))
        (filter (\<lambda>r. dies d_owned (methods m ! f_method f) pc keep r \<or> dies d_gc (methods m ! f_method f) pc keep r) rs)) st"
    if "set rs \<subseteq> {..<reg_cnt (methods m ! f_method f)}" for rs
    using that by (induction rs arbitrary: st) (auto simp: release_reg_mark o g)
  from this [of "[0..<reg_cnt (methods m ! f_method f)]"] show ?thesis
    using Some by (simp add: vm_release_frame_def Let_def frame_drops [OF m] frame_marks_def atLeast0LessThan ow_def gc_def q_def cong: option.case_cong)
qed

lemma nth_marks_shift:
  "concat (map (\<lambda>q. frame_marks m ((f # fs) ! q) (if i \<and> q = 0 then f_pc ((f # fs) ! q) else f_pc ((f # fs) ! q) - 1) None) [0..<Suc n]) =
     frame_marks m f (if i then f_pc f else f_pc f - 1) None @
     concat (map (\<lambda>q. frame_marks m (fs ! q) (if False \<and> q = 0 then f_pc (fs ! q) else f_pc (fs ! q) - 1) None) [0..<n])"
  by (simp add: upt_conv_Cons map_Suc_upt [symmetric] o_def del: upt_Suc)

lemma unwind_marks:
  assumes "module_ok m" and "\<forall>f\<in>set fs. f_method f < length (methods m)" and "n \<le> length fs"
  shows "snd (vm_unwind m k inner n fs st) = fold (mark_step k)
    (concat (map (\<lambda>q. frame_marks m (fs ! q) (if inner \<and> q = 0 then f_pc (fs ! q) else f_pc (fs ! q) - 1) None) [0..<n])) st"
  using assms
proof (induction m k inner n fs st rule: vm_unwind.induct)
  case (1 m k inner n f fs st)
  then show ?case unfolding nth_marks_shift by (simp add: release_frame_marks)
qed simp_all

lemma marks_in_window:
  assumes "\<forall>f\<in>set fs. f_base f + reg_cnt (methods m ! f_method f) \<le> n" and "q < length fs" and "x \<in> set (nth_marks m fs keep q)"
  shows "fst x < n"
proof -
  have "f_base (fs ! q) + reg_cnt (methods m ! f_method (fs ! q)) \<le> n" using assms by simp
  then show ?thesis using assms(3) by (auto simp: nth_marks_def frame_marks_def Let_def)
qed

section \<open>Dropped values are roots\<close>

lemma roots_nth:
  assumes "q < length (frames fb)" and "v \<in> set (frame_roots m (regs fb) (q = 0) (frames fb ! q))"
  shows "v \<in> set (vm_gc_roots_fiber m fb)"
proof (cases "frames fb")
  case (Cons f fs)
  then show ?thesis using assms by (cases q) (auto simp: vm_gc_roots_fiber_def)
qed (use assms in simp)

lemma mark_is_root:
  assumes m: "module_ok m" and q: "q < length (frames fb)" "f_method (frames fb ! q) < length (methods m)"
    and x: "(j, True) \<in> set (nth_marks m (frames fb) keep q)" "regs fb ! j \<noteq> 0"
  shows "regs fb ! j \<in> set (vm_gc_roots_fiber m fb)"
proof (rule roots_nth [OF q(1)])
  show "regs fb ! j \<in> set (frame_roots m (regs fb) (q = 0) (frames fb ! q))"
    using x by (auto simp: nth_marks_def frame_marks_def dies_def holds_def frame_roots_def Let_def bit_or_iff
        frame_drops [OF m q(2)] split: if_splits)
qed

lemma marks_roots:
  assumes m: "module_ok m" and i: "vm_inv m fb" and x: "(j, True) \<in> set (trap_marks m fb)" "regs fb ! j \<noteq> 0"
  shows "regs fb ! j \<in> set (vm_gc_roots_fiber m fb)"
proof -
  have w: "f_method f < length (methods m)" if "f \<in> set (frames fb)" for f
    using i that by (auto simp: vm_inv_def frame_ok_def)
  have "\<exists>keep. \<exists>q<length (frames fb). (j, True) \<in> set (nth_marks m (frames fb) keep q)"
  proof (cases "catches fb")
    case Nil
    then obtain q where "q < length (frames fb)" "(j, True) \<in> set (nth_marks m (frames fb) None q)"
      using x(1) by (auto simp: trap_marks_def)
    then show ?thesis by blast
  next
    case (Cons c cs)
    then have d: "1 \<le> c_depth c" "c_depth c \<le> length (frames fb)" using i by (auto simp: vm_inv_def catches_ok_def)
    let ?n = "length (frames fb) - c_depth c"
    have "(j, True) \<in> set (nth_marks m (frames fb) (Some (c_pc c)) ?n) \<or>
        (\<exists>q<?n. (j, True) \<in> set (nth_marks m (frames fb) None q))"
      using x(1) Cons by (auto simp: trap_marks_def Let_def)
    moreover have "?n < length (frames fb)" using d by simp
    ultimately show ?thesis using less_trans by blast
  qed
  then obtain keep q where "q < length (frames fb)" "(j, True) \<in> set (nth_marks m (frames fb) keep q)" by blast
  then show ?thesis using mark_is_root [OF m, of q fb j keep] w x(2) by simp
qed

text \<open>What a trap of a well-formed fiber did to the registers and to the heap: the dying registers are
  clear and no other has changed; the values dropped are those of the registers whose owner died, in that
  order and each once; and every one of them was a root of the collector.\<close>

definition released_once :: "wo_module \<Rightarrow> 'h hooks \<Rightarrow> 'h vmst \<Rightarrow> 'h vmst \<Rightarrow> bool" where
  "released_once m k st st' \<longleftrightarrow>
     (let ms = trap_marks m (fib st); rs = regs (fib st); js = owned_first rs ms in
        regs (fib st') = map (\<lambda>j. if j \<in> fst ` set ms then 0 else rs ! j) [0..<length rs] \<and>
        vmheap st' = fold (k_drop k) (map ((!) rs) js) (vmheap st) \<and>
        distinct js \<and> (\<forall>j\<in>set js. rs ! j \<in> set (vm_gc_roots_fiber m (fib st))))"

lemma owned_first_D:
  assumes "j \<in> set (owned_first rs ms)"
  shows "(j, True) \<in> set ms \<and> rs ! j \<noteq> 0"
  using assms
proof (induction ms rule: rev_induct)
  case (snoc x ms)
  then show ?case by (cases x) (auto simp: owned_first_snoc split: if_splits)
qed simp

lemma owned_first_distinct: "distinct (owned_first rs ms)"
proof (induction ms rule: rev_induct)
  case (snoc x ms)
  have "fst x \<notin> set (owned_first rs ms)" if "fst x \<notin> fst ` set ms"
    using that owned_first_D [of "fst x" rs ms] image_eqI [of "fst x" fst "(fst x, True)" "set ms"] by auto
  then show ?case using snoc by (auto simp: owned_first_snoc)
qed simp

lemma released_trap:
  assumes m: "module_ok m" and i: "vm_inv m (fib st)"
    and r: "released k (regs (fib st)) (vmheap st) (trap_marks m (fib st)) (regs (fib st'), vmheap st')"
  shows "released_once m k st st'"
  using r marks_roots [OF m i] owned_first_D owned_first_distinct
  unfolding released_once_def released_def Let_def by fastforce

lemma inv_windows:
  assumes "vm_inv m fb"
  shows "\<forall>f\<in>set (frames fb). f_base f + reg_cnt (methods m ! f_method f) \<le> length (regs fb)"
    and "\<forall>f\<in>set (frames fb). f_method f < length (methods m)"
  using assms by (auto simp: vm_inv_def frame_ok_def)

lemma unwind_released:
  assumes m: "module_ok m" and i: "vm_inv m fb" and n: "n \<le> length (frames fb)"
  shows "released k (regs fb) h (concat (map (nth_marks m (frames fb) None) [0..<n]))
    (snd (vm_unwind m k True n (frames fb) (regs fb, h)))"
proof -
  have "\<forall>x\<in>set (concat (map (nth_marks m (frames fb) None) [0..<n])). fst x < length (regs fb)"
  proof
    fix x assume "x \<in> set (concat (map (nth_marks m (frames fb) None) [0..<n]))"
    then obtain q where "q < n" "x \<in> set (nth_marks m (frames fb) None q)" by auto
    then show "fst x < length (regs fb)" using marks_in_window [OF inv_windows(1) [OF i], of q x None] n by simp
  qed
  from released_steps [OF released_start this] show ?thesis
    unfolding unwind_marks [OF m inv_windows(2) [OF i] n] nth_marks_def by simp
qed

text \<open>A trap with no region open ends the fiber.\<close>

lemma trap_uncaught:
  assumes m: "module_ok m" and i: "vm_inv m (fib st)" and c: "catches (fib st) = []"
  shows "\<exists>err st'. vm_trap m k t st = Uncaught err st' \<and> e_code err = t \<and> frames (fib st') = [] \<and> released_once m k st st'"
proof -
  let ?fb = "fib st" and ?n = "length (frames (fib st))"
  obtain err where e: "vm_fill_err m t (hd (frames ?fb)) = Some err" "e_code err = t"
    using frame_text [OF m inv_frame(2) [OF i], of t] by (auto simp: cur_frame_def vm_fill_err_def Let_def split: wo_const.splits)
  obtain fs rs h where u: "vm_unwind m k True ?n (frames ?fb) (regs ?fb, vmheap st) = (fs, rs, h)" by (metis prod_cases3)
  define st' where "st' = st\<lparr>vmheap := h, fib := ?fb\<lparr>regs := rs, frames := fs, caught := err\<rparr>\<rparr>"
  have "released_once m k st st'"
    using unwind_released [OF m i order_refl, of k "vmheap st"] u c
    by (intro released_trap [OF m i]) (simp add: st'_def trap_marks_def)
  moreover have "vm_trap m k t st = Uncaught err st'" using e u c by (simp add: vm_trap_def Let_def st'_def)
  moreover have "fs = []" using unwind_ended [OF i u] by simp
  ultimately show ?thesis using e(2) by (auto simp: st'_def)
qed

text \<open>Otherwise it lands in the frame and at the position of the innermost region, and closes it.\<close>

lemma trap_caught:
  assumes m: "module_ok m" and i: "vm_inv m (fib st)" and c: "catches (fib st) = c # cs"
  shows "\<exists>st'. vm_trap m k t st = Run st' \<and> e_code (caught (fib st')) = t \<and> length (frames (fib st')) = c_depth c \<and>
    f_pc (cur_frame st') = c_pc c \<and> catches (fib st') = cs \<and> released_once m k st st'"
proof -
  let ?fb = "fib st" and ?n = "length (frames (fib st)) - c_depth c"
  obtain err where e: "vm_fill_err m t (hd (frames ?fb)) = Some err" "e_code err = t"
    using frame_text [OF m inv_frame(2) [OF i], of t] by (auto simp: cur_frame_def vm_fill_err_def Let_def split: wo_const.splits)
  have d: "1 \<le> c_depth c" "c_depth c \<le> length (frames ?fb)" using i c by (auto simp: vm_inv_def catches_ok_def)
  obtain fs rs h where u: "vm_unwind m k True ?n (frames ?fb) (regs ?fb, vmheap st) = (fs, rs, h)" by (metis prod_cases3)
  have fs: "fs = drop ?n (frames ?fb)"
    using unwind_frames(1) [where n = ?n and fs = "frames ?fb" and m = m and k = k and b = True and st = "(regs ?fb, vmheap st)"] u by simp
  then obtain cf gs where cf: "fs = cf # gs" "cf = frames ?fb ! ?n" "?n < length (frames ?fb)"
    using d by (cases fs) (auto simp: Cons_nth_drop_Suc [symmetric] dest!: sym [of "_ # _"] intro: that)
  define kp where "kp = vm_release_frame m k cf (if c_depth c = length (frames ?fb) then f_pc cf else f_pc cf - 1)
      (Some (c_pc c)) (rs, h)"
  have inner: "(c_depth c = length (frames ?fb)) = (?n = 0)" using d by auto
  define ms where "ms = concat (map (nth_marks m (frames ?fb) None) [0..<?n])"
  have "f_method cf < length (methods m)" using inv_windows(2) [OF i] cf(2,3) by simp
  then have "kp = fold (mark_step k) (nth_marks m (frames ?fb) (Some (c_pc c)) ?n) (rs, h)"
    unfolding kp_def inner by (simp add: release_frame_marks [OF m] nth_marks_def cf(2))
  moreover have "released k (regs ?fb) (vmheap st) ms (rs, h)"
    using unwind_released [OF m i, of ?n k "vmheap st"] u by (simp add: ms_def)
  moreover have "\<forall>x\<in>set (nth_marks m (frames ?fb) (Some (c_pc c)) ?n). fst x < length (regs ?fb)"
    using marks_in_window [OF inv_windows(1) [OF i] cf(3)] by blast
  ultimately have kp: "released k (regs ?fb) (vmheap st) (trap_marks m ?fb) kp"
    using released_steps c by (simp add: trap_marks_def Let_def ms_def)
  define st' where "st' = st\<lparr>vmheap := snd kp,
    fib := ?fb\<lparr>regs := fst kp, frames := cf\<lparr>f_pc := c_pc c\<rparr> # gs, catches := cs, caught := err\<rparr>\<rparr>"
  have "released_once m k st st'" using kp by (intro released_trap [OF m i]) (simp add: st'_def)
  moreover have "vm_trap m k t st = Run st'"
    using e u c cf(1) by (simp add: vm_trap_def Let_def st'_def kp_def case_prod_beta)
  moreover have "length (cf # gs) = c_depth c" using fs cf(1) d by (metis diff_diff_cancel length_drop)
  ultimately show ?thesis using e(2) by (auto simp: st'_def cur_frame_def)
qed

end
