(* ===== verification/BorrowCmp.thy ===== *)
theory BorrowCmp
  imports VmStep
begin

text \<open>
  Borrow words and the order of floats: a borrow word refines the pair of a count of readers and a
  writer (\<open>borrow.c\<close>), and \<open>wo_float_cmp\<close> of \<open>wob.h\<close> is the comparison of a total preorder with the
  NaNs last.
\<close>

section \<open>Borrow words\<close>

datatype bop = Share | Excl | EndShare | EndExcl

text \<open>A refused borrow leaves the word alone; the trap is the interpreter's.\<close>

fun bword_op :: "bop \<Rightarrow> u32 \<Rightarrow> u32" where
  "bword_op Share b = (case wo_borrow_shared b of None \<Rightarrow> b | Some b' \<Rightarrow> b')"
| "bword_op Excl b = (case wo_borrow_excl b of None \<Rightarrow> b | Some b' \<Rightarrow> b')"
| "bword_op EndShare b = wo_release_shared b"
| "bword_op EndExcl b = wo_release_excl b"

text \<open>The readers, or the writer.\<close>

datatype bstate = Readers nat | Writer

fun babs_op :: "bop \<Rightarrow> bstate \<Rightarrow> bstate" where
  "babs_op Share (Readers n) = Readers (n + 1)"
| "babs_op Share Writer = Writer"
| "babs_op Excl (Readers n) = (if n = 0 then Writer else Readers n)"
| "babs_op Excl Writer = Writer"
| "babs_op EndShare (Readers n) = Readers (n - 1)"
| "babs_op EndShare Writer = Writer"
| "babs_op EndExcl s = Readers 0"

text \<open>A release ends a borrow of its own kind.\<close>

fun matched :: "bop list \<Rightarrow> bstate \<Rightarrow> bool" where
  "matched [] s = True"
| "matched (q # qs) s =
     ((case q of EndShare \<Rightarrow> (case s of Readers n \<Rightarrow> 0 < n | Writer \<Rightarrow> False) | EndExcl \<Rightarrow> s = Writer | _ \<Rightarrow> True) \<and>
      matched qs (babs_op q s))"

fun bword :: "bstate \<Rightarrow> u32" where
  "bword (Readers n) = of_nat n"
| "bword Writer = WO_BORROW_EXCL"

fun readers :: "bstate \<Rightarrow> nat" where
  "readers (Readers n) = n"
| "readers Writer = 0"

lemma bword_readers: "n < 2 ^ 32 - 1 \<Longrightarrow> (of_nat n :: u32) \<noteq> WO_BORROW_EXCL"
proof
  assume n: "n < 2 ^ 32 - 1" and "(of_nat n :: u32) = WO_BORROW_EXCL"
  then have "unat (of_nat n :: u32) = 2 ^ 32 - 1" by (simp add: WO_BORROW_EXCL_def)
  then show False using n by (simp add: take_bit_nat_eq_self unsigned_of_nat)
qed

lemma bword_zero: "n < 2 ^ 32 - 1 \<Longrightarrow> (of_nat n :: u32) = 0 \<longleftrightarrow> n = 0"
  by (auto simp: word_unat_eq_iff unsigned_of_nat take_bit_nat_eq_self)

lemma borrow_step:
  assumes "readers s < 2 ^ 32 - 1" and "matched [q] s"
  shows "bword_op q (bword s) = bword (babs_op q s)"
  using assms bword_readers bword_zero
  by (cases q; cases s)
    (auto simp: wo_borrow_shared_def wo_borrow_excl_def wo_release_shared_def wo_release_excl_def WO_BORROW_FREE_def
      of_nat_diff)

lemma readers_step: "readers (babs_op q s) \<le> Suc (readers s)"
  by (cases q; cases s) auto

lemma borrow_run:
  "matched qs s \<Longrightarrow> readers s + length qs < 2 ^ 32 \<Longrightarrow> fold bword_op qs (bword s) = bword (fold babs_op qs s)"
proof (induction qs arbitrary: s)
  case (Cons q qs)
  have "bword_op q (bword s) = bword (babs_op q s)" using Cons.prems by (intro borrow_step) simp_all
  moreover have "readers (babs_op q s) + length qs < 2 ^ 32" using readers_step [of q s] Cons.prems(2) by simp
  ultimately show ?case using Cons by simp
qed simp

section \<open>The order of floats\<close>

definition f64_rank :: "u64 \<Rightarrow> int" where
  "f64_rank b = (if f64_is_nan b then 2 ^ 64 else f64_key b)"

lemma f64_key_less: "f64_key b < 2 ^ 64"
proof (cases "bit b 63")
  case True
  then have "f64_key b \<le> 0" by (simp add: f64_key_def)
  then show ?thesis by (rule order.strict_trans1) simp
next
  case False
  then show ?thesis using uint_lt2p [of b] by (simp add: f64_key_def)
qed

lemma float_cmp_rank: "wo_float_cmp a b = sgn (f64_rank a - f64_rank b)"
  using f64_key_less [of a] f64_key_less [of b]
  by (auto simp: wo_float_cmp_def f64_rank_def f64_lt_def Let_def)

end
