(* ===== verification/VmProps.thy ===== *)
theory VmProps
  imports VmDemo VmUnwind BorrowCmp Replay
begin

text \<open>
  The properties of the image loader and of the interpreter.
\<close>

section \<open>The interpreter\<close>


lemma demo_call:
  "wo_vm_call (demo_module is) 0 [] demo_vm =
    Some (demo_vm\<lparr>fib := demo_fiber\<lparr>frames := [\<lparr>f_method = 0, f_pc = 0, f_base = 0\<rparr>]\<rparr>\<rparr>)"
proof -
  have "(0 :: u64) # replicate (WO_STACK_SLOTS - Suc 0) 0 = replicate (Suc (WO_STACK_SLOTS - Suc 0)) 0" by simp
  also have "Suc (WO_STACK_SLOTS - Suc 0) = WO_STACK_SLOTS" by (simp add: WO_STACK_SLOTS_def)
  finally show ?thesis
    by (simp add: wo_vm_call_def demo_module_def demo_vm_def demo_fiber_def Let_def)
qed

definition called_vm :: "vheap vmst" where
  "called_vm = demo_vm\<lparr>fib := demo_fiber\<lparr>frames := [\<lparr>f_method = 0, f_pc = 0, f_base = 0\<rparr>]\<rparr>\<rparr>"

lemma demo_regs: "length (regs (fib demo_vm)) = WO_STACK_SLOTS"
  by (simp add: demo_vm_def demo_fiber_def)



text \<open>An accepted image can still leave its frame, through a builtin that the loader's table of arities
  does not list: here one register is declared, and the builtin reads the register 200.\<close>

theorem unchecked_builtin_strays:
  "wo_load_buf (\<lambda>_. True) (demo_img demo_beyond) = Some (demo_module beyond_code) \<and>
   wo_vm_call (demo_module beyond_code) 0 [] demo_vm = Some called_vm \<and>
   vm_step (demo_module beyond_code) demo_hooks called_vm = Stray"
proof (intro conjI)
  show "vm_step (demo_module beyond_code) demo_hooks called_vm = Stray"
    by (simp add: vm_step_def cur_frame_def cur_method_def called_vm_def demo_vm_def demo_fiber_def demo_module_def
        beyond_code_def demo_ops vm_op_def vm_builtin_def Let_def ins_fields b_reads_def in_window_def B_DB_INSERT_def)
qed (simp_all add: beyond_loads demo_call called_vm_def)

text \<open>C23: And through no other instruction: a step from a well-formed fiber that leaves the window, the code or
  a table is a builtin whose id the loader's table leaves out, or an insert.\<close>

theorem only_builtins_stray:
  assumes m: "wo_load_buf mem buf = Some m" and i: "vm_inv m (fib st)" and s: "vm_step m k st = Stray"
  shows "\<exists>w. w = code (cur_method m st) ! f_pc (cur_frame st) \<and> wop_of w = Some BUILTIN \<and>
    \<not> b_checked (wo_ins_c w) \<and> \<not> builtin_fits m st w"
proof -
  note ok = load_ok [OF m]
  have nf: "\<not> step_fits m st" using vm_step_ok [OF ok i, of k] s by auto
  then have w: "wop_of (code (cur_method m st) ! f_pc (cur_frame st)) = Some BUILTIN"
    "\<not> builtin_fits m st (code (cur_method m st) ! f_pc (cur_frame st))"
    by (auto simp: step_fits_def Let_def)
  have "f_method (cur_frame st) < length (methods m)" "f_pc (cur_frame st) < length (code (cur_method m st))"
    using inv_frame(2) [OF i] by (simp_all add: frame_ok_def cur_method_def)
  then have "ins_ok m (cur_method m st) (f_pc (cur_frame st)) (code (cur_method m st) ! f_pc (cur_frame st))"
    using module_method [OF ok] by (simp add: method_wf_def cur_method_def)
  then have "\<not> b_checked (wo_ins_c (code (cur_method m st) ! f_pc (cur_frame st)))"
    using w builtin_fits_checked by (auto simp: ins_ok_def op_ok_def)
  then show ?thesis using w by blast
qed

theorem only_builtins_stray_witness:
  "\<exists>w. w = code (cur_method (demo_module beyond_code) called_vm) ! 0 \<and> \<not> b_checked (wo_ins_c w)"
proof -
  have "vm_inv (demo_module beyond_code) (fib called_vm)"
    by (rule vm_call_inv [OF load_ok [OF beyond_loads] demo_call [folded called_vm_def] demo_regs])
  moreover have "vm_step (demo_module beyond_code) demo_hooks called_vm = Stray"
    by (simp add: vm_step_def cur_frame_def cur_method_def called_vm_def demo_vm_def demo_fiber_def demo_module_def
        beyond_code_def demo_ops vm_op_def vm_builtin_def Let_def ins_fields b_reads_def in_window_def B_DB_INSERT_def)
  ultimately have "\<not> b_checked (wo_ins_c (code (cur_method (demo_module beyond_code) called_vm) ! f_pc (cur_frame called_vm)))"
    using only_builtins_stray [OF beyond_loads] by blast
  moreover have "f_pc (cur_frame called_vm) = 0" by (simp add: called_vm_def cur_frame_def)
  ultimately show ?thesis by simp
qed

section \<open>Calls, virtual calls and traps\<close>

text \<open>C7: A call comes back. Between a call that was entered and the return that ends it, whatever the frames
  above do, their own calls and caught traps included, the caller goes on at the instruction after the
  call, with the frames below it and every register below the window of the callee as they were, and the
  value returned in the register the call names. The callee's window begins at that register: the
  caller's registers from there on, the heap and the open regions are the callee's to change.\<close>

theorem call_returns:
  assumes c: "vm_step m k st = Run s0" "wop_of (cur_ins m st) = Some CALL" "length (frames (fib st)) < length (frames (fib s0))"
    and r: "length (regs (fib st)) = WO_STACK_SLOTS"
    and run: "vm_run m k n s0 = Run s1"
    and above: "\<forall>j\<le>n. \<forall>s. vm_run m k j s0 = Run s \<longrightarrow> length (frames (fib st)) < length (frames (fib s))"
    and e: "vm_step m k s1 = Run s2" "wop_of (cur_ins m s1) = Some RET" "length (frames (fib s2)) = length (frames (fib st))"
    and b: "b = f_base (cur_frame st) + wo_ins_a (cur_ins m st)"
  shows "frames (fib s2) = (cur_frame st)\<lparr>f_pc := f_pc (cur_frame st) + 1\<rparr> # tl (frames (fib st)) \<and>
    take b (regs (fib s2)) = take b (regs (fib st)) \<and>
    (b < length (regs (fib s1)) \<longrightarrow> regs (fib s2) ! b = regs (fib s1) ! (b + wo_ins_a (cur_ins m s1)))"
proof -
  let ?gs = "(cur_frame st)\<lparr>f_pc := f_pc (cur_frame st) + 1\<rparr> # tl (frames (fib st))"
  have l: "length ?gs = length (frames (fib st))" using step_op(2) [OF c(1,2)] by (cases "frames (fib st)") simp_all
  have "inside ?gs b (take b (regs (fib st))) (fib s1)"
    by (rule run_below [OF call_enters [OF c r b] _ run]) (use above l in simp)
  then show ?thesis using inside_return [OF _ e(1,2)] e(3) l by metis
qed

definition twice_module :: wo_module where
  "twice_module = (demo_module answer_code)\<lparr>methods :=
     [\<lparr>m_name = 0, m_class = NO_METHOD, arg_cnt = 0, reg_cnt = 2, code = [0x0001010F, 0x00000111], lines = [], drops = []\<rparr>,
      \<lparr>m_name = 0, m_class = NO_METHOD, arg_cnt = 0, reg_cnt = 1, code = answer_code, lines = [], drops = []\<rparr>]\<rparr>"

lemma twice_ops:
  "wop_of 0x0001010F = Some CALL" "wop_of 0x00000111 = Some RET" "wo_ins_a 0x0001010F = 1" "wo_ins_bx 0x0001010F = 1"
  "wo_ins_a 0x00000111 = 1"
  by (simp_all add: wop_of_def wo_ins_op_def wops_def wo_ins_a_def wo_ins_bx_def)

definition at_frames :: "u64 list \<Rightarrow> wo_frame list \<Rightarrow> vheap vmst" where
  "at_frames rs fs = demo_vm\<lparr>fib := demo_fiber\<lparr>regs := rs, frames := fs\<rparr>\<rparr>"

definition some_regs :: "u64 list \<Rightarrow> u64 list" where
  "some_regs xs = xs @ replicate (WO_STACK_SLOTS - length xs) 0"

lemma twice_run:
  assumes "length xs = 2"
  shows "vm_step twice_module demo_hooks (at_frames (some_regs xs) [\<lparr>f_method = 0, f_pc = 0, f_base = 0\<rparr>]) =
      Run (at_frames (some_regs [xs ! 0, 0]) [\<lparr>f_method = 1, f_pc = 0, f_base = 1\<rparr>, \<lparr>f_method = 0, f_pc = 1, f_base = 0\<rparr>])"
    and "vm_step twice_module demo_hooks (at_frames (some_regs xs) [\<lparr>f_method = 1, f_pc = 0, f_base = 1\<rparr>, \<lparr>f_method = 0, f_pc = 1, f_base = 0\<rparr>]) =
      Run (at_frames (some_regs [xs ! 0, 42]) [\<lparr>f_method = 1, f_pc = 1, f_base = 1\<rparr>, \<lparr>f_method = 0, f_pc = 1, f_base = 0\<rparr>])"
    and "vm_step twice_module demo_hooks (at_frames (some_regs xs) [\<lparr>f_method = 1, f_pc = 1, f_base = 1\<rparr>, \<lparr>f_method = 0, f_pc = 1, f_base = 0\<rparr>]) =
      Run (at_frames (some_regs xs) [\<lparr>f_method = 0, f_pc = 1, f_base = 0\<rparr>])"
proof -
  obtain x y where xs: "xs = [x, y]" using assms by (auto simp: length_Suc_conv numeral_2_eq_2)
  note defs = vm_step_def cur_frame_def cur_method_def at_frames_def some_regs_def demo_vm_def demo_fiber_def twice_module_def
    demo_module_def vm_op_def twice_ops demo_ops ins_fields Let_def answer_code_def xs demo_hooks_def WO_STACK_SLOTS_def
    gc_safepoint_def in_window_def getr_def set_pc_def put_reg_def go_def setr_def WO_MAX_FRAMES_def
  show "vm_step twice_module demo_hooks (at_frames (some_regs xs) [\<lparr>f_method = 0, f_pc = 0, f_base = 0\<rparr>]) =
      Run (at_frames (some_regs [xs ! 0, 0]) [\<lparr>f_method = 1, f_pc = 0, f_base = 1\<rparr>, \<lparr>f_method = 0, f_pc = 1, f_base = 0\<rparr>])"
    by (simp add: defs enter_def)
  show "vm_step twice_module demo_hooks (at_frames (some_regs xs) [\<lparr>f_method = 1, f_pc = 0, f_base = 1\<rparr>, \<lparr>f_method = 0, f_pc = 1, f_base = 0\<rparr>]) =
      Run (at_frames (some_regs [xs ! 0, 42]) [\<lparr>f_method = 1, f_pc = 1, f_base = 1\<rparr>, \<lparr>f_method = 0, f_pc = 1, f_base = 0\<rparr>])"
    by (simp add: defs vm_loadk_def)
  show "vm_step twice_module demo_hooks (at_frames (some_regs xs) [\<lparr>f_method = 1, f_pc = 1, f_base = 1\<rparr>, \<lparr>f_method = 0, f_pc = 1, f_base = 0\<rparr>]) =
      Run (at_frames (some_regs xs) [\<lparr>f_method = 0, f_pc = 1, f_base = 0\<rparr>])"
    by (simp add: defs leave_def)
qed

lemma at_frames_simps [simp]:
  "frames (fib (at_frames rs fs)) = fs" "regs (fib (at_frames rs fs)) = rs" "cur_frame (at_frames rs fs) = hd fs"
  by (simp_all add: at_frames_def cur_frame_def)

theorem call_returns_witness: "take 1 (some_regs [7, 42]) = take 1 (some_regs [7, 9]) \<and> some_regs [7, 42] ! 1 = 42"
proof -
  let ?f0 = "\<lparr>f_method = 0, f_pc = 0, f_base = 0\<rparr>" and ?g = "\<lparr>f_method = 0, f_pc = 1, f_base = 0\<rparr>"
  let ?st = "at_frames (some_regs [7, 9]) [?f0]"
  let ?s0 = "at_frames (some_regs [7, 0]) [\<lparr>f_method = 1, f_pc = 0, f_base = 1\<rparr>, ?g]"
  let ?s1 = "at_frames (some_regs [7, 42]) [\<lparr>f_method = 1, f_pc = 1, f_base = 1\<rparr>, ?g]"
  let ?s2 = "at_frames (some_regs [7, 42]) [?g]"
  have steps: "vm_step twice_module demo_hooks ?st = Run ?s0" "vm_step twice_module demo_hooks ?s0 = Run ?s1"
    "vm_step twice_module demo_hooks ?s1 = Run ?s2"
    using twice_run(1) [of "[7, 9]"] twice_run(2) [of "[7, 0]"] twice_run(3) [of "[7, 42]"] by simp_all
  have ins: "cur_ins twice_module ?st = 0x0001010F" "cur_ins twice_module ?s1 = 17"
    by (simp_all add: cur_ins_def cur_method_def twice_module_def answer_code_def)
  have run: "vm_run twice_module demo_hooks 1 ?s0 = Run ?s1" using steps(2) by simp
  have l: "length (some_regs [x, y]) = WO_STACK_SLOTS" for x y by (simp add: some_regs_def WO_STACK_SLOTS_def)
  have "\<forall>j\<le>1. \<forall>s. vm_run twice_module demo_hooks j ?s0 = Run s \<longrightarrow> length (frames (fib ?st)) < length (frames (fib s))"
    using steps(2) by (auto simp: le_Suc_eq)
  then have "frames (fib ?s2) = (cur_frame ?st)\<lparr>f_pc := f_pc (cur_frame ?st) + 1\<rparr> # tl (frames (fib ?st)) \<and>
    take 1 (regs (fib ?s2)) = take 1 (regs (fib ?st)) \<and>
    (1 < length (regs (fib ?s1)) \<longrightarrow> regs (fib ?s2) ! 1 = regs (fib ?s1) ! (1 + wo_ins_a (cur_ins twice_module ?s1)))"
    by (intro call_returns [OF steps(1) _ _ _ run _ steps(3)]) (simp_all only: ins, simp_all add: twice_ops demo_ops l)
  then show ?thesis by (simp add: some_regs_def)
qed

text \<open>C24: A virtual call reaches the method of the receiver's class: over the vtable of an accepted image the
  binary search is a lookup. It finds the row of a class and a slot if there is one, and no other, and the
  row names a method of the module.\<close>

theorem vtable_lookup:
  assumes m: "module_ok m"
  shows "(vtab_find (vtabs m) cid slot 0 (length (vtabs m)) = Some e \<longleftrightarrow>
      e \<in> set (vtabs m) \<and> v_class e = cid \<and> v_slot e = slot) \<and>
    (vtab_find (vtabs m) cid slot 0 (length (vtabs m)) = Some e \<longrightarrow> v_method e < length (methods m))"
proof -
  have "sorted_wrt (\<lambda>x y. v_key x < v_key y) (vtabs m)" using m by (simp add: module_ok_def)
  note found = vtab_find_iff [OF this, of cid slot e]
  then show ?thesis using m by (auto simp: module_ok_def)
qed

text \<open>Two classes that implement an interface of one method.\<close>

definition virtual_module :: wo_module where
  "virtual_module = (demo_module answer_code)\<lparr>
     mclasses := replicate 2 \<lparr>cls_flags = 0, kinds = [], field_class = Some [], field_elem = Some [], idx_meta = [],
       cls_name = 0, field_names = []\<rparr>,
     slot_cnt := 1, vtabs := [\<lparr>v_class = 0, v_slot = 0, v_method = 0\<rparr>, \<lparr>v_class = 1, v_slot = 0, v_method = 0\<rparr>]\<rparr>"

lemma virtual_ok: "module_ok virtual_module"
proof -
  have "ins_ok virtual_module (hd (methods virtual_module)) pc (answer_code ! pc)" if "pc < 2" for pc
    using that by (auto simp: less_2_cases_iff answer_code_def ins_ok_def demo_ops op_ok_def ins_fields virtual_module_def demo_module_def)
  then show ?thesis
    by (auto simp: module_ok_def virtual_module_def demo_module_def class_wf_def class_flags_ok_def method_wf_def text_const_def
        v_key_def entry_ok_def NO_METHOD_def WO_MAX_REGS_def pcs_ok_def answer_code_def terminator_def demo_ops)
qed

theorem vtable_lookup_witness: "vtab_find (vtabs virtual_module) 1 0 0 2 = Some \<lparr>v_class = 1, v_slot = 0, v_method = 0\<rparr>"
  using vtable_lookup [OF virtual_ok, of 1 0 "\<lparr>v_class = 1, v_slot = 0, v_method = 0\<rparr>"]
  by (simp add: virtual_module_def numeral_2_eq_2)

text \<open>C8: What a trap does in an accepted image. With no region open the fiber ends; otherwise it goes on in the
  frame and at the position of the innermost region, which is closed. The registers that die are those
  the drop tables list (\<open>trap_marks\<close>): of every frame that ends what its entry lists at the instruction it is
  at, of the frame that goes on what it lists there and not at the handler. They are cleared and every
  other register is unchanged; of those that held something, the values listed as owned, and no others,
  are dropped, innermost frame first and each register once; and each was a root of the collector.\<close>

theorem trap_outcome:
  assumes m: "wo_load_buf mem buf = Some m" and i: "vm_inv m (fib st)"
  shows "case catches (fib st) of
      [] \<Rightarrow> \<exists>err st'. vm_trap m k t st = Uncaught err st' \<and> e_code err = t \<and> frames (fib st') = [] \<and> released_once m k st st'
    | c # cs \<Rightarrow> \<exists>st'. vm_trap m k t st = Run st' \<and> e_code (caught (fib st')) = t \<and> length (frames (fib st')) = c_depth c \<and>
        f_pc (cur_frame st') = c_pc c \<and> catches (fib st') = cs \<and> released_once m k st st'"
  using trap_uncaught [OF load_ok [OF m] i, of k t] trap_caught [OF load_ok [OF m] i, of _ _ k t] by (simp split: list.split)

theorem trap_outcome_witness:
  "\<exists>st'. vm_trap (demo_module answer_code) demo_hooks 8
      (demo_vm\<lparr>fib := demo_fiber\<lparr>frames := [\<lparr>f_method = 0, f_pc = 0, f_base = 0\<rparr>], catches := [\<lparr>c_depth = 1, c_pc = 1, c_reg = 0\<rparr>]\<rparr>\<rparr>)
    = Run st' \<and> f_pc (cur_frame st') = 1"
proof -
  let ?st = "demo_vm\<lparr>fib := demo_fiber\<lparr>frames := [\<lparr>f_method = 0, f_pc = 0, f_base = 0\<rparr>], catches := [\<lparr>c_depth = 1, c_pc = 1, c_reg = 0\<rparr>]\<rparr>\<rparr>"
  have "vm_inv (demo_module answer_code) (fib ?st)"
    by (simp add: vm_inv_def demo_vm_def demo_fiber_def frame_ok_def catches_ok_def demo_module_def answer_code_def
        WO_STACK_SLOTS_def WO_MAX_FRAMES_def WO_MAX_CATCH_def)
  then show ?thesis
    using trap_outcome [OF answer_loads, of ?st demo_hooks 8] by auto
qed

section \<open>Borrows and floats\<close>

text \<open>A borrow word counts. Over any sequence of fewer than \<open>2 ^ 32 - 1\<close> borrows and releases in which every
  release ends a borrow of its kind, the word is the number of readers or the mark of the writer, never
  both; a refused borrow changes nothing.\<close>

theorem borrow_word_counts:
  assumes "matched qs (Readers 0)" and "length qs < 2 ^ 32 - 1"
  shows "fold bword_op qs WO_BORROW_FREE = bword (fold babs_op qs (Readers 0))"
  using borrow_run [OF assms(1)] assms(2) by (simp add: WO_BORROW_FREE_def)

theorem borrow_word_counts_witness: "fold bword_op [Share, Share, Excl, EndShare, EndShare, Excl, Share] 0 = WO_BORROW_EXCL"
  using borrow_word_counts [of "[Share, Share, Excl, EndShare, EndShare, Excl, Share]"] by (simp add: WO_BORROW_FREE_def)

text \<open>The comparison of floats is that of a total preorder: antisymmetric, transitive, equal exactly for
  equal keys, with every NaN behind every number.\<close>

theorem float_cmp_total:
  shows "wo_float_cmp a b = - wo_float_cmp b a \<and>
    (wo_float_cmp a b \<le> 0 \<longrightarrow> wo_float_cmp b c \<le> 0 \<longrightarrow> wo_float_cmp a c \<le> 0) \<and>
    (f64_is_nan b \<longrightarrow> \<not> f64_is_nan a \<longrightarrow> wo_float_cmp a b = - 1)"
  using f64_key_less [of a] by (auto simp: float_cmp_rank f64_rank_def sgn_if split: if_splits)

theorem float_cmp_total_witness: "wo_float_cmp 0x3FF0000000000000 0x7FF8000000000000 = - 1"
proof -
  have "f64_is_nan 0x7FF8000000000000" "\<not> f64_is_nan 0x3FF0000000000000" by (simp_all add: f64_is_nan_def)
  then show ?thesis using float_cmp_total [of "0x3FF0000000000000" "0x7FF8000000000000"] by blast
qed

end
