(* ===== verification/TextOps.thy ===== *)
theory TextOps
  imports Vm
begin

text \<open>
  The text builtins of \<open>runtime/src/builtin.c\<close>. A text is its bytes; a result is a value, a trap, or
  \<open>Lost\<close> where the C code reads a word that is no object, overruns a block or overflows a signed
  number. The loops of the source are recursive functions over positions.
\<close>

section \<open>Operands and results\<close>

text \<open>\<open>native_check\<close> for a text and for a \<open>Bytes\<close>: a null word or an object of another class traps.\<close>

fun text_check :: "vmval \<Rightarrow> bytes chk" where
  "text_check (VStr s) = Good s"
| "text_check (VWord w) = (if w = 0 then Bad WO_T_BOUNDS else Lost)"
| "text_check v = Bad WO_T_BOUNDS"

fun bytes_check :: "vmval \<Rightarrow> bytes chk" where
  "bytes_check (VBytes s) = Good s"
| "bytes_check (VWord w) = (if w = 0 then Bad WO_T_BOUNDS else Lost)"
| "bytes_check v = Bad WO_T_BOUNDS"

fun on_good :: "'a chk \<Rightarrow> ('a \<Rightarrow> 'b chk) \<Rightarrow> 'b chk" where
  "on_good (Good x) f = f x"
| "on_good (Bad t) f = Bad t"
| "on_good Lost f = Lost"

text \<open>A fresh text and a fresh \<open>Bytes\<close>.\<close>

definition new_text :: "mem \<Rightarrow> bytes \<Rightarrow> vmval chk" where
  "new_text mem s = (if mem AVmStr then Good (VStr s) else Bad WO_T_OOM)"

definition new_bytes :: "mem \<Rightarrow> bytes \<Rightarrow> vmval chk" where
  "new_bytes mem s = (if mem AVmStr then Good (VBytes s) else Bad WO_T_OOM)"

definition vm_bool :: "bool \<Rightarrow> vmval" where "vm_bool b = VWord (truth b)"

section \<open>Scanning\<close>

definition ws_byte :: "u8 \<Rightarrow> bool" where
  "ws_byte c \<longleftrightarrow> c = 32 \<or> c = 9 \<or> c = 10 \<or> c = 13"

text \<open>The tokens: one more at each byte that is no white space and follows one that is.\<close>

fun words_loop :: "bytes \<Rightarrow> bool \<Rightarrow> nat \<Rightarrow> nat" where
  "words_loop [] tok n = n"
| "words_loop (c # cs) tok n = words_loop cs (\<not> ws_byte c) (if \<not> ws_byte c \<and> \<not> tok then n + 1 else n)"

definition b_words :: "vmval \<Rightarrow> vmval chk" where
  "b_words v = on_good (text_check v) (\<lambda>s. Good (VWord (of_nat (words_loop s False 0))))"

definition occurs_at :: "bytes \<Rightarrow> bytes \<Rightarrow> nat \<Rightarrow> bool" where
  "occurs_at hay needle i \<longleftrightarrow> take (length needle) (drop i hay) = needle"

text \<open>Upwards over the positions \<open>i\<close> to \<open>span\<close>, downwards from \<open>n - 1\<close>.\<close>

function find_up :: "bytes \<Rightarrow> bytes \<Rightarrow> nat \<Rightarrow> nat \<Rightarrow> nat option" where
  "find_up hay needle span i =
     (if span < i then None else if occurs_at hay needle i then Some i else find_up hay needle span (i + 1))"
  by pat_completeness auto

termination
  by (relation "measure (\<lambda>(hay, needle, span, i). span + 1 - i)") auto

declare find_up.simps [simp del]

fun find_down :: "bytes \<Rightarrow> bytes \<Rightarrow> nat \<Rightarrow> nat option" where
  "find_down hay needle 0 = None"
| "find_down hay needle (Suc n) = (if occurs_at hay needle n then Some n else find_down hay needle n)"

definition str_find :: "bytes \<Rightarrow> bytes \<Rightarrow> bool \<Rightarrow> int" where
  "str_find hay needle up =
     (if length hay < length needle then - 1
      else
        let span = length hay - length needle in
        (case (if up then find_up hay needle span 0 else find_down hay needle (span + 1)) of
           None \<Rightarrow> - 1 | Some i \<Rightarrow> int i))"

definition b_index_of :: "bool \<Rightarrow> vmval \<Rightarrow> vmval \<Rightarrow> vmval chk" where
  "b_index_of up v w = on_good (text_check v) (\<lambda>s. on_good (text_check w) (\<lambda>n. Good (VWord (word_of_int (str_find s n up)))))"

definition b_starts_with :: "bool \<Rightarrow> vmval \<Rightarrow> vmval \<Rightarrow> vmval chk" where
  "b_starts_with front v w = on_good (text_check v) (\<lambda>s. on_good (text_check w) (\<lambda>fx.
     Good (vm_bool (if length s < length fx then False
       else take (length fx) (if front then s else drop (length s - length fx) s) = fx))))"

definition b_byte_at :: "vmval \<Rightarrow> u64 \<Rightarrow> vmval chk" where
  "b_byte_at v i = on_good (text_check v) (\<lambda>s.
     if length s \<le> unat i then Bad WO_T_BOUNDS else Good (VWord (ucast (s ! unat i))))"

section \<open>Pieces\<close>

text \<open>The clamp of \<open>SUBSTR\<close>; the sum of start and length is computed in 64 bits and signed.\<close>

definition b_substr :: "mem \<Rightarrow> vmval \<Rightarrow> u64 \<Rightarrow> u64 \<Rightarrow> vmval chk" where
  "b_substr mem v a b = on_good (text_check v) (\<lambda>s.
     let n = int (length s);
         start = (let x = (if sint a < 0 then 0 else sint a) in if n < x then n else x);
         want = (if sint b < 0 then 0 else sint b)
     in if 2 ^ 63 \<le> start + want then Lost
        else
          let len = (if n < start + want then n - start else want)
          in new_text mem (take (nat len) (drop (nat start) s)))"

text \<open>The clamp of \<open>BYTES_SLICE\<close> compares with the difference instead.\<close>

definition b_bytes_slice :: "mem \<Rightarrow> vmval \<Rightarrow> u64 \<Rightarrow> u64 \<Rightarrow> vmval chk" where
  "b_bytes_slice mem v a b = on_good (bytes_check v) (\<lambda>s.
     let n = int (length s);
         start = (let x = (if sint a < 0 then 0 else sint a) in if n < x then n else x);
         want = (let y = (if sint b < 0 then 0 else sint b) in if n - start < y then n - start else y)
     in new_bytes mem (take (nat want) (drop (nat start) s)))"

function skip_up :: "bytes \<Rightarrow> nat \<Rightarrow> nat \<Rightarrow> nat" where
  "skip_up s lo hi = (if lo < hi \<and> ws_byte (s ! lo) then skip_up s (lo + 1) hi else lo)"
  by pat_completeness auto

termination
  by (relation "measure (\<lambda>(s, lo, hi). hi - lo)") auto

declare skip_up.simps [simp del]

fun skip_down :: "bytes \<Rightarrow> nat \<Rightarrow> nat \<Rightarrow> nat" where
  "skip_down s lo 0 = 0"
| "skip_down s lo (Suc hi) = (if lo < Suc hi \<and> ws_byte (s ! hi) then skip_down s lo hi else Suc hi)"

definition trim_text :: "bytes \<Rightarrow> bytes" where
  "trim_text s =
     (let lo = skip_up s 0 (length s); hi = skip_down s lo (length s) in take (hi - lo) (drop lo s))"

definition b_trim :: "mem \<Rightarrow> vmval \<Rightarrow> vmval chk" where
  "b_trim mem v = on_good (text_check v) (\<lambda>s. new_text mem (trim_text s))"

definition lower_byte :: "u8 \<Rightarrow> u8" where
  "lower_byte c = (if 65 \<le> c \<and> c \<le> 90 then c + 32 else c)"

definition b_to_lower :: "mem \<Rightarrow> vmval \<Rightarrow> vmval chk" where
  "b_to_lower mem v = on_good (text_check v) (\<lambda>s. new_text mem (map lower_byte s))"

definition b_char_of :: "mem \<Rightarrow> u64 \<Rightarrow> vmval chk" where
  "b_char_of mem w = new_text mem [ucast w]"

section \<open>Numbers\<close>

text \<open>\<open>%lld\<close>: the decimal digits, the sign in front.\<close>

fun dec_digits :: "nat \<Rightarrow> bytes" where
  "dec_digits n = (if n < 10 then [of_nat (48 + n)] else dec_digits (n div 10) @ [of_nat (48 + n mod 10)])"

declare dec_digits.simps [simp del]

definition int_text :: "int \<Rightarrow> bytes" where
  "int_text i = (if i < 0 then 45 # dec_digits (nat (- i)) else dec_digits (nat i))"

definition b_int_to_text :: "mem \<Rightarrow> u64 \<Rightarrow> vmval chk" where
  "b_int_to_text mem w = new_text mem (int_text (sint w))"

text \<open>The digits are accumulated in a signed 64-bit number: \<open>None\<close> is its overflow. The second result is
  the number of digits.\<close>

definition is_digit :: "u8 \<Rightarrow> bool" where "is_digit c \<longleftrightarrow> 48 \<le> c \<and> c \<le> 57"

fun parse_digits :: "bytes \<Rightarrow> int \<Rightarrow> nat \<Rightarrow> (int \<times> nat) option" where
  "parse_digits [] acc n = Some (acc, n)"
| "parse_digits (c # cs) acc n =
     (if \<not> is_digit c then Some (acc, n)
      else
        let acc' = acc * 10 + (uint c - 48)
        in if 2 ^ 63 \<le> acc' then None else parse_digits cs acc' (n + 1))"

text \<open>White space and one sign in front; what follows the digits is ignored; no digit is nil.\<close>

definition parse_int :: "bytes \<Rightarrow> u64 option" where
  "parse_int s =
     (let r = dropWhile ws_byte s;
          neg = (case r of c # cs \<Rightarrow> c = 45 | [] \<Rightarrow> False);
          ds = (case r of c # cs \<Rightarrow> if c = 45 \<or> c = 43 then cs else r | [] \<Rightarrow> [])
      in case parse_digits ds 0 0 of
           None \<Rightarrow> None
         | Some (acc, n) \<Rightarrow> Some (if n = 0 then WO_NIL_SCALAR else word_of_int (if neg then - acc else acc)))"

definition b_parse_int :: "vmval \<Rightarrow> vmval chk" where
  "b_parse_int v = on_good (text_check v) (\<lambda>s. case parse_int s of None \<Rightarrow> Lost | Some w \<Rightarrow> Good (VWord w))"

section \<open>Splitting and joining\<close>

text \<open>One fresh text pushed onto the result.\<close>

definition push_part :: "mem \<Rightarrow> wo_multi \<Rightarrow> bytes \<Rightarrow> wo_multi chk" where
  "push_part mem m s =
     on_good (new_text mem s) (\<lambda>v. case wo_multi_push mem m v of None \<Rightarrow> Bad WO_T_OOM | Some m' \<Rightarrow> Good m')"

text \<open>The search of \<open>SPLIT\<close> for the next separator, from the position \<open>j\<close>. The end of the comparison is
  computed in 32 bits: where it wraps, the bytes behind the text are compared.\<close>

function next_sep :: "bytes \<Rightarrow> bytes \<Rightarrow> nat \<Rightarrow> nat option chk" where
  "next_sep s sep j =
     (if length s < (j + length sep) mod 2 ^ 32 then Good None
      else if length s < j + length sep then Lost
      else if occurs_at s sep j then Good (Some j)
      else next_sep s sep (j + 1))"
  by pat_completeness auto

termination
  by (relation "measure (\<lambda>(s, sep, j). length s + 1 - j)") auto

declare next_sep.simps [simp del]

lemma next_sep_Some: "next_sep s sep j = Good (Some e) \<Longrightarrow> j \<le> e \<and> e + length sep \<le> length s"
proof (induction s sep j rule: next_sep.induct)
  case (1 s sep j)
  then show ?case by (fastforce simp: next_sep.simps [of s sep j] split: if_splits)
qed

text \<open>The loop: the piece up to the separator, or up to the end of the text, is pushed.\<close>

function split_loop :: "mem \<Rightarrow> bytes \<Rightarrow> bytes \<Rightarrow> nat \<Rightarrow> wo_multi \<Rightarrow> wo_multi chk" where
  "split_loop mem s sep i m =
     (if sep = [] \<or> length s < i then Good m
      else
        (case next_sep s sep i of
           Lost \<Rightarrow> Lost
         | Bad t \<Rightarrow> Bad t
         | Good None \<Rightarrow> push_part mem m (drop i s)
         | Good (Some e) \<Rightarrow>
             (case push_part mem m (take (e - i) (drop i s)) of
                Lost \<Rightarrow> Lost
              | Bad t \<Rightarrow> Bad t
              | Good m' \<Rightarrow> split_loop mem s sep (e + length sep) m')))"
  by pat_completeness auto

termination
proof (relation "measure (\<lambda>(mem, s, sep, i, m). length s + 1 - i)", goal_cases)
  case (2 mem s sep i m a e m')
  then show ?case using next_sep_Some [of s sep i e] by (cases sep) auto
qed simp

declare split_loop.simps [simp del]

definition b_split :: "mem \<Rightarrow> vmval \<Rightarrow> vmval \<Rightarrow> wo_multi chk" where
  "b_split mem v w = on_good (text_check v) (\<lambda>s. on_good (text_check w) (\<lambda>sep.
     if sep = [] then Bad WO_T_BOUNDS
     else (case wo_multi_new mem KText of None \<Rightarrow> Bad WO_T_OOM | Some m \<Rightarrow> split_loop mem s sep 0 m)))"

fun push_all :: "mem \<Rightarrow> wo_multi \<Rightarrow> bytes list \<Rightarrow> wo_multi chk" where
  "push_all mem m [] = Good m"
| "push_all mem m (s # ss) = on_good (push_part mem m s) (\<lambda>m'. push_all mem m' ss)"

definition text_list :: "mem \<Rightarrow> bytes list \<Rightarrow> wo_multi chk" where
  "text_list mem ss = (case wo_multi_new mem KText of None \<Rightarrow> Bad WO_T_OOM | Some m \<Rightarrow> push_all mem m ss)"

text \<open>\<open>SPLIT_WS\<close>: skip white space, take a token, until the end.\<close>

function split_ws_loop :: "bytes \<Rightarrow> bytes list" where
  "split_ws_loop s =
     (let r = dropWhile ws_byte s
      in if r = [] then [] else takeWhile (\<lambda>c. \<not> ws_byte c) r # split_ws_loop (dropWhile (\<lambda>c. \<not> ws_byte c) r))"
  by pat_completeness auto

termination
proof (relation "measure length", goal_cases)
  case (2 s r)
  then have r: "r = dropWhile ws_byte s" "r \<noteq> []" by simp_all
  then have "\<not> ws_byte (hd r)" by (metis hd_dropWhile)
  then have "length (dropWhile (\<lambda>c. \<not> ws_byte c) r) < length r" using r(2) by (cases r) (auto simp: le_imp_less_Suc length_dropWhile_le)
  also have "length r \<le> length s" using r(1) by (simp add: length_dropWhile_le)
  finally show ?case by simp
qed simp

declare split_ws_loop.simps [simp del]

definition b_split_ws :: "mem \<Rightarrow> vmval \<Rightarrow> wo_multi chk" where
  "b_split_ws mem v = on_good (text_check v) (\<lambda>s. text_list mem (split_ws_loop s))"

text \<open>\<open>JOIN\<close>: a null element is the empty text; the total is computed in 32 bits.\<close>

definition elem_text :: "vmval \<Rightarrow> bytes" where
  "elem_text v = (case str_bytes v of None \<Rightarrow> [] | Some s \<Rightarrow> s)"

fun join_text :: "bytes \<Rightarrow> bytes list \<Rightarrow> bytes" where
  "join_text sep [] = []"
| "join_text sep [s] = s"
| "join_text sep (s # t # ss) = s @ sep @ join_text sep (t # ss)"

definition b_join :: "mem \<Rightarrow> wo_multi option \<Rightarrow> vmval \<Rightarrow> vmval chk" where
  "b_join mem mo w =
     (case mo of
        None \<Rightarrow> Bad WO_T_BOUNDS
      | Some m \<Rightarrow> on_good (text_check w) (\<lambda>sep.
          if elem_kind m \<noteq> KText then Bad WO_T_BOUNDS
          else
            let out = join_text sep (map elem_text (items m))
            in if \<not> mem AVmStr then Bad WO_T_OOM else if 2 ^ 32 \<le> length out then Lost else Good (VStr out)))"

section \<open>Kinds of text\<close>

definition b_text_copy :: "mem \<Rightarrow> vmval \<Rightarrow> vmval chk" where
  "b_text_copy mem v =
     (case v of
        VNull \<Rightarrow> Good VNull
      | VWord w \<Rightarrow> if w = 0 then Good VNull else Lost
      | VStr s \<Rightarrow> new_text mem s
      | VBytes s \<Rightarrow> new_bytes mem s
      | _ \<Rightarrow> Bad WO_T_BOUNDS)"

definition b_bytes_of_text :: "mem \<Rightarrow> vmval \<Rightarrow> vmval chk" where
  "b_bytes_of_text mem v = on_good (text_check v) (new_bytes mem)"

definition b_text_of_bytes :: "mem \<Rightarrow> vmval \<Rightarrow> vmval chk" where
  "b_text_of_bytes mem v = on_good (bytes_check v) (new_text mem)"

definition b_bytes_len :: "vmval \<Rightarrow> vmval chk" where
  "b_bytes_len v = on_good (bytes_check v) (\<lambda>s. Good (VWord (of_nat (length s))))"

definition b_bytes_at :: "vmval \<Rightarrow> u64 \<Rightarrow> vmval chk" where
  "b_bytes_at v i = on_good (bytes_check v) (\<lambda>s.
     if length s \<le> unat i then Bad WO_T_BOUNDS else Good (VWord (ucast (s ! unat i))))"

definition b_bytes_eq :: "vmval \<Rightarrow> vmval \<Rightarrow> vmval chk" where
  "b_bytes_eq v w = on_good (bytes_check v) (\<lambda>x. on_good (bytes_check w) (\<lambda>y. Good (vm_bool (x = y))))"

text \<open>Here the length is checked, in 64 bits.\<close>

definition b_bytes_concat :: "mem \<Rightarrow> vmval \<Rightarrow> vmval \<Rightarrow> vmval chk" where
  "b_bytes_concat mem v w = on_good (bytes_check v) (\<lambda>x. on_good (bytes_check w) (\<lambda>y.
     if 2 ^ 32 \<le> length x + length y then Bad WO_T_OOM else new_bytes mem (x @ y)))"

text \<open>\<open>STR_LT\<close>, \<open>PRINT\<close> and \<open>PRINT_INT\<close>; the output is the bytes written so far.\<close>

definition b_print :: "vmval \<Rightarrow> bytes \<Rightarrow> bytes chk" where
  "b_print v out = on_good (text_check v) (\<lambda>s. Good (out @ s @ [10]))"

definition b_print_int :: "u64 \<Rightarrow> bytes \<Rightarrow> bytes chk" where
  "b_print_int w out = Good (out @ int_text (sint w) @ [10])"

end
