(* ===== verification/TextFacts.thy ===== *)
theory TextFacts
  imports TextOps
begin

text \<open>
  What the text builtins compute: the loops of the source against list functions, searching,
  splitting and joining, and numbers.
\<close>

section \<open>Searching\<close>

lemma find_up_Some:
  "find_up hay needle span i = Some j \<Longrightarrow> i \<le> j \<and> j \<le> span \<and> occurs_at hay needle j \<and> (\<forall>k. i \<le> k \<longrightarrow> k < j \<longrightarrow> \<not> occurs_at hay needle k)"
proof (induction hay needle span i rule: find_up.induct)
  case (1 hay needle span i)
  show ?case
  proof (cases "span < i \<or> occurs_at hay needle i")
    case True
    then show ?thesis using 1(2) by (auto simp: find_up.simps [of hay needle span i] split: if_splits)
  next
    case False
    then have "find_up hay needle span (i + 1) = Some j" using 1(2) by (simp add: find_up.simps [of hay needle span i])
    then show ?thesis using 1(1) False by (metis Suc_eq_plus1 Suc_leI Suc_le_lessD le_neq_implies_less less_or_eq_imp_le)
  qed
qed

lemma find_up_None: "find_up hay needle span i = None \<Longrightarrow> i \<le> k \<Longrightarrow> k \<le> span \<Longrightarrow> \<not> occurs_at hay needle k"
proof (induction hay needle span i rule: find_up.induct)
  case (1 hay needle span i)
  then have "\<not> occurs_at hay needle i" "find_up hay needle span (i + 1) = None" "\<not> span < i"
    by (auto simp: find_up.simps [of hay needle span i] split: if_splits)
  then show ?case using 1 by (cases "i = k") auto
qed

lemma find_down_Some:
  "find_down hay needle n = Some j \<Longrightarrow> j < n \<and> occurs_at hay needle j \<and> (\<forall>k. j < k \<longrightarrow> k < n \<longrightarrow> \<not> occurs_at hay needle k)"
  by (induction hay needle n rule: find_down.induct) (auto split: if_splits simp: less_Suc_eq)

lemma find_down_None: "find_down hay needle n = None \<Longrightarrow> k < n \<Longrightarrow> \<not> occurs_at hay needle k"
  by (induction hay needle n rule: find_down.induct) (auto split: if_splits simp: less_Suc_eq)

text \<open>The position found is that of an occurrence inside the text, the first or the last one; without an
  occurrence the answer is \<open>- 1\<close>.\<close>

definition occurrence :: "bytes \<Rightarrow> bytes \<Rightarrow> nat \<Rightarrow> bool" where
  "occurrence hay needle i \<longleftrightarrow> (\<exists>a b. hay = a @ needle @ b \<and> length a = i)"

lemma occurrence_iff: "occurrence hay needle i \<longleftrightarrow> i + length needle \<le> length hay \<and> occurs_at hay needle i"
proof
  assume "occurrence hay needle i"
  then show "i + length needle \<le> length hay \<and> occurs_at hay needle i" by (auto simp: occurrence_def occurs_at_def)
next
  assume h: "i + length needle \<le> length hay \<and> occurs_at hay needle i"
  then have "hay = take i hay @ needle @ drop (length needle) (drop i hay)"
    unfolding occurs_at_def by (metis append_take_drop_id)
  then show "occurrence hay needle i" using h unfolding occurrence_def
    by (intro exI [of _ "take i hay"] exI [of _ "drop (length needle) (drop i hay)"]) simp
qed

lemma str_find_spec:
  shows "(str_find hay needle up = - 1 \<longleftrightarrow> (\<forall>i. \<not> occurrence hay needle i)) \<and>
    (\<forall>i. str_find hay needle up = int i \<longleftrightarrow> occurrence hay needle i \<and>
       (\<forall>j. occurrence hay needle j \<longrightarrow> (if up then i \<le> j else j \<le> i)))"
proof (cases "length hay < length needle")
  case True
  then have "\<not> occurrence hay needle i" for i by (simp add: occurrence_iff)
  then show ?thesis using True by (simp add: str_find_def)
next
  case False
  let ?span = "length hay - length needle"
  have inr: "occurrence hay needle i \<longleftrightarrow> i \<le> ?span \<and> occurs_at hay needle i" for i
    using False by (auto simp: occurrence_iff)
  define r where "r = (if up then find_up hay needle ?span 0 else find_down hay needle (?span + 1))"
  have f: "str_find hay needle up = (case r of None \<Rightarrow> - 1 | Some i \<Rightarrow> int i)"
    using False by (simp add: str_find_def Let_def r_def)
  show ?thesis
  proof (cases r)
    case None
    then have "\<not> occurrence hay needle i" for i
      using find_up_None [of hay needle ?span 0 i] find_down_None [of hay needle "?span + 1" i] inr
      by (auto simp: r_def split: if_splits)
    then show ?thesis using None f by simp
  next
    case (Some j)
    have "j \<le> ?span \<and> occurs_at hay needle j \<and>
        (\<forall>k\<le>?span. occurs_at hay needle k \<longrightarrow> (if up then j \<le> k else k \<le> j))"
    proof (cases up)
      case True
      then have "find_up hay needle ?span 0 = Some j" using Some by (simp add: r_def)
      from find_up_Some [OF this] show ?thesis using True by (simp add: not_less [symmetric]) (meson le0 not_less)
    next
      case False
      then have "find_down hay needle (?span + 1) = Some j" using Some by (simp add: r_def)
      from find_down_Some [OF this] show ?thesis using False by (simp add: less_Suc_eq_le) (meson not_less)
    qed
    then have j: "occurrence hay needle j" "occurrence hay needle k \<Longrightarrow> if up then j \<le> k else k \<le> j" for k
      using inr by blast+
    have e: "str_find hay needle up = int j" using Some f by simp
    have uniq: "i = j" if "occurrence hay needle i" "\<forall>k. occurrence hay needle k \<longrightarrow> (if up then i \<le> k else k \<le> i)" for i
      using j(1) j(2) [OF that(1)] that(2) by (auto split: if_splits intro: order.antisym)
    have "(occurrence hay needle i \<and> (\<forall>k. occurrence hay needle k \<longrightarrow> (if up then i \<le> k else k \<le> i))) = (i = j)" for i
      using uniq [of i] j by blast
    moreover have "(str_find hay needle up = int i) = (i = j)" for i using e by auto
    moreover have "\<not> (\<forall>i. \<not> occurrence hay needle i)" "str_find hay needle up \<noteq> - 1" using j(1) e by auto
    ultimately show ?thesis by (simp only: simp_thms)
  qed
qed

section \<open>White space\<close>

lemma words_ws: "words_loop s False n = words_loop (dropWhile ws_byte s) False n"
  by (induction s) auto

lemma words_token: "words_loop s True n = words_loop (dropWhile (\<lambda>c. \<not> ws_byte c) s) False n"
  by (induction s) auto

lemma words_count: "words_loop s False n = n + length (split_ws_loop s)"
proof (induction s arbitrary: n rule: split_ws_loop.induct)
  case (1 s)
  let ?r = "dropWhile ws_byte s"
  show ?case
  proof (cases "?r")
    case Nil
    have "words_loop s False n = words_loop [] False n" by (simp only: words_ws [of s] Nil)
    then show ?thesis using Nil by (simp add: split_ws_loop.simps [of s] Let_def)
  next
    case (Cons c cs)
    then have c: "\<not> ws_byte c" by (metis hd_dropWhile list.distinct(1) list.sel(1))
    have "words_loop s False n = words_loop (dropWhile (\<lambda>c. \<not> ws_byte c) ?r) False (n + 1)"
      by (subst words_ws) (simp add: Cons c words_token)
    then show ?thesis using 1 [OF refl] Cons by (simp add: split_ws_loop.simps [of s] Let_def)
  qed
qed

text \<open>The tokens: no white space in them, none is empty, and they are the bytes that are not white space.\<close>

lemma split_ws_tokens:
  "(\<forall>t\<in>set (split_ws_loop s). t \<noteq> [] \<and> (\<forall>c\<in>set t. \<not> ws_byte c)) \<and>
   concat (split_ws_loop s) = filter (\<lambda>c. \<not> ws_byte c) s"
proof (induction s rule: split_ws_loop.induct)
  case (1 s)
  let ?r = "dropWhile ws_byte s"
  have f: "filter (\<lambda>c. \<not> ws_byte c) s = filter (\<lambda>c. \<not> ws_byte c) ?r"
    by (induction s) auto
  show ?case
  proof (cases "?r = []")
    case True
    then show ?thesis using f by (simp add: split_ws_loop.simps [of s])
  next
    case False
    let ?t = "takeWhile (\<lambda>c. \<not> ws_byte c) ?r" and ?d = "dropWhile (\<lambda>c. \<not> ws_byte c) ?r"
    have "\<not> ws_byte (hd ?r)" using False by (rule hd_dropWhile)
    then have t: "?t \<noteq> []" using False by (cases "?r") auto
    have tf: "filter (\<lambda>c. \<not> ws_byte c) ?r = ?t @ filter (\<lambda>c. \<not> ws_byte c) ?d"
      by (metis filter_append filter_id_conv set_takeWhileD takeWhile_dropWhile_id)
    have e: "split_ws_loop s = ?t # split_ws_loop ?d" using False by (simp add: split_ws_loop.simps [of s] Let_def)
    have "\<forall>c\<in>set ?t. \<not> ws_byte c" by (auto dest: set_takeWhileD)
    with t 1 [OF refl False] have "\<forall>t\<in>set (split_ws_loop s). t \<noteq> [] \<and> (\<forall>c\<in>set t. \<not> ws_byte c)"
      unfolding e by (metis set_ConsD)
    moreover have "concat (split_ws_loop s) = filter (\<lambda>c. \<not> ws_byte c) s"
      unfolding f tf e concat.simps using 1 [OF refl False] by metis
    ultimately show ?thesis ..
  qed
qed

lemma skip_up_eq:
  "lo \<le> length s \<Longrightarrow> skip_up s lo (length s) = lo + length (takeWhile ws_byte (drop lo s))"
proof (induction "length s - lo" arbitrary: lo)
  case 0
  then show ?case by (subst skip_up.simps) simp
next
  case (Suc n)
  then have lt: "lo < length s" by simp
  then have d: "drop lo s = s ! lo # drop (Suc lo) s" by (simp add: Cons_nth_drop_Suc)
  have ih: "skip_up s (lo + 1) (length s) = lo + 1 + length (takeWhile ws_byte (drop (lo + 1) s))"
    using Suc.hyps(1) [of "lo + 1"] Suc.hyps(2) lt by simp
  show ?case
  proof (cases "ws_byte (s ! lo)")
    case True
    then have "skip_up s lo (length s) = skip_up s (lo + 1) (length s)" using lt by (subst skip_up.simps) simp
    also note ih
    finally show ?thesis using True by (simp add: d)
  next
    case False
    then show ?thesis by (subst skip_up.simps) (simp add: d)
  qed
qed

lemma skip_down_eq:
  "lo \<le> hi \<Longrightarrow> hi \<le> length s \<Longrightarrow>
    take (skip_down s lo hi - lo) (drop lo s) = rev (dropWhile ws_byte (rev (take (hi - lo) (drop lo s)))) \<and> lo \<le> skip_down s lo hi"
proof (induction s lo hi rule: skip_down.induct)
  case (2 s lo hi)
  show ?case
  proof (cases "lo < Suc hi")
    case False
    then have "lo = Suc hi" using 2(2) by simp
    then show ?thesis by simp
  next
    case True
    then have t: "take (Suc hi - lo) (drop lo s) = take (hi - lo) (drop lo s) @ [s ! hi]"
      using 2(3) by (simp add: Suc_diff_le take_Suc_conv_app_nth)
    show ?thesis
    proof (cases "ws_byte (s ! hi)")
      case True
      then show ?thesis using 2 t \<open>lo < Suc hi\<close> by simp
    next
      case False
      then show ?thesis using 2 t \<open>lo < Suc hi\<close> by simp
    qed
  qed
qed simp

lemma trim_text_eq: "trim_text s = rev (dropWhile ws_byte (rev (dropWhile ws_byte s)))"
proof -
  let ?lo = "skip_up s 0 (length s)"
  have lo: "?lo = length (takeWhile ws_byte s)" using skip_up_eq [of 0 s] by simp
  then have le: "?lo \<le> length s" by (simp add: length_takeWhile_le)
  have d: "drop ?lo s = dropWhile ws_byte s" by (simp add: lo dropWhile_eq_drop)
  then have "take (length s - ?lo) (dropWhile ws_byte s) = dropWhile ws_byte s" by (metis length_drop order_refl take_all)
  with d show ?thesis using skip_down_eq [OF le order_refl] le by (simp add: trim_text_def Let_def)
qed

section \<open>Splitting and joining\<close>

text \<open>Splitting without positions and memory: the pieces between the first separator, the first one behind
  it, and so on.\<close>

definition first_sep :: "bytes \<Rightarrow> bytes \<Rightarrow> nat option" where
  "first_sep sep s = (if length s < length sep then None else find_up s sep (length s - length sep) 0)"

lemma first_sep_Some:
  assumes "first_sep sep s = Some e"
  shows "e + length sep \<le> length s" "take (length sep) (drop e s) = sep"
  using assms find_up_Some [of s sep "length s - length sep" 0 e] by (auto simp: first_sep_def occurs_at_def split: if_splits)

function pieces :: "bytes \<Rightarrow> bytes \<Rightarrow> bytes list" where
  "pieces sep s =
     (if sep = [] then []
      else
        (case first_sep sep s of
           None \<Rightarrow> [s]
         | Some e \<Rightarrow> take e s # pieces sep (drop (e + length sep) s)))"
  by pat_completeness auto

termination
proof (relation "measure (\<lambda>(sep, s). length s)", goal_cases)
  case (2 sep s e)
  then show ?case using first_sep_Some(1) [of sep s e] by (cases sep) auto
qed simp

declare pieces.simps [simp del]

text \<open>The loop of the code computes them, when no position it compares with wraps in 32 bits.\<close>

lemma find_up_shift: "i \<le> span \<Longrightarrow> find_up (drop i s) sep (span - i) k = map_option (\<lambda>e. e - i) (find_up s sep span (i + k))"
proof (induction s sep span "i + k" arbitrary: k rule: find_up.induct)
  case (1 s sep span)
  have "occurs_at (drop i s) sep k = occurs_at s sep (i + k)" by (simp add: occurs_at_def add.commute)
  moreover have "(span - i < k) = (span < i + k)" using 1(2) by linarith
  ultimately show ?case using 1(1) [of "k + 1"] 1(2)
    by (simp add: find_up.simps [of "drop i s" sep "span - i" k] find_up.simps [of s sep span "i + k"])
qed

lemma next_sep_find:
  assumes "length s + length sep < 2 ^ 32" and "sep \<noteq> []"
  shows "j \<le> length s \<Longrightarrow> next_sep s sep j =
    Good (if length s < length sep then None else find_up s sep (length s - length sep) j)"
  using assms
proof (induction s sep j rule: next_sep.induct)
  case (1 s sep j)
  have m: "(j + length sep) mod 2 ^ 32 = j + length sep" using 1(2,3) by simp
  show ?case
  proof (cases "length s < j + length sep")
    case True
    then have "length s < length sep \<or> length s - length sep < j" by linarith
    then have "(if length s < length sep then None else find_up s sep (length s - length sep) j) = None"
      by (auto simp: find_up.simps [of s sep "length s - length sep" j])
    then show ?thesis using True m by (simp only: next_sep.simps [of s sep j] if_True)
  next
    case False
    then have "j + 1 \<le> length s" "\<not> length s - length sep < j" "\<not> length s < length sep" using 1(4) by (cases sep; simp)+
    then show ?thesis using False m 1
      by (simp add: next_sep.simps [of s sep j] find_up.simps [of s sep "length s - length sep" j])
  qed
qed

lemma next_sep_first:
  assumes "length s + length sep < 2 ^ 32" and "sep \<noteq> []" and "i \<le> length s"
  shows "next_sep s sep i = Good (map_option (\<lambda>e. i + e) (first_sep sep (drop i s)))"
proof (cases "length s < i + length sep")
  case True
  then have "length s < length sep \<or> length s - length sep < i" by linarith
  then show ?thesis using True assms
    by (simp add: next_sep_find first_sep_def find_up.simps [of s sep "length s - length sep" i]) linarith
next
  case False
  then have le: "i \<le> length s - length sep" "\<not> length s < length sep" by linarith+
  have "map_option (\<lambda>e. i + e) (map_option (\<lambda>e. e - i) (find_up s sep (length s - length sep) i)) = find_up s sep (length s - length sep) i"
    using find_up_Some [of s sep "length s - length sep" i] by (cases "find_up s sep (length s - length sep) i") simp_all
  moreover have "length s - i - length sep = length s - length sep - i" by simp
  moreover have "\<not> length s - i < length sep" using False assms(3) by linarith
  ultimately show ?thesis
    using assms False le find_up_shift [OF le(1), of s sep 0] by (simp add: next_sep_find first_sep_def)
qed

lemma split_loop_pieces:
  assumes "length s + length sep < 2 ^ 32" and "sep \<noteq> []" and "i \<le> length s"
  shows "split_loop mem s sep i m = push_all mem m (pieces sep (drop i s))"
  using assms
proof (induction mem s sep i m rule: split_loop.induct)
  case (1 mem s sep i m)
  show ?case
  proof (cases "first_sep sep (drop i s)")
    case None
    then have "next_sep s sep i = Good None" using next_sep_first [OF 1(2-4)] by simp
    then show ?thesis using None 1(3,4)
      by (cases "push_part mem m (drop i s)") (simp_all add: split_loop.simps [of mem s sep i m] pieces.simps [of sep "drop i s"])
  next
    case (Some e)
    then have n: "next_sep s sep i = Good (Some (i + e))" using next_sep_first [OF 1(2-4)] by simp
    have le: "i + e + length sep \<le> length s" using next_sep_Some [OF n] by simp
    show ?thesis
    proof (cases "push_part mem m (take e (drop i s))")
      case (Good m')
      have "split_loop mem s sep (i + e + length sep) m' = push_all mem m' (pieces sep (drop (i + e + length sep) s))"
        by (rule 1(1) [OF _ n refl]) (use Good 1(2-4) le in simp_all)
      then show ?thesis using Some n 1(3,4) Good
        by (simp add: split_loop.simps [of mem s sep i m] pieces.simps [of sep "drop i s"] ac_simps)
    qed (use Some n 1(3,4) in \<open>simp_all add: split_loop.simps [of mem s sep i m] pieces.simps [of sep "drop i s"]\<close>)
  qed
qed

text \<open>In a text of the greatest length the position always wraps in time: the search for a separator that
  is not there goes on behind the text.\<close>

lemma next_sep_overruns:
  assumes "length s = 2 ^ 32 - 1" and "\<forall>k. \<not> occurs_at s sep k"
  shows "next_sep s sep j = Lost"
  using assms
proof (induction s sep j rule: next_sep.induct)
  case (1 s sep j)
  have "(j + length sep) mod 2 ^ 32 < 2 ^ 32" by simp
  then have "\<not> length s < (j + length sep) mod 2 ^ 32" using 1(2) by linarith
  then show ?case using 1 by (simp add: next_sep.simps [of s sep j])
qed

lemma split_nonempty: "sep \<noteq> [] \<Longrightarrow> pieces sep s \<noteq> []"
  by (subst pieces.simps) (simp split: option.split)

lemma join_cons: "ps \<noteq> [] \<Longrightarrow> join_text sep (p # ps) = p @ sep @ join_text sep ps"
  by (cases ps) simp_all

lemma join_split: "sep \<noteq> [] \<Longrightarrow> join_text sep (pieces sep s) = s"
proof (induction sep s rule: pieces.induct)
  case (1 sep s)
  show ?case
  proof (cases "first_sep sep s")
    case None
    then show ?thesis using 1(2) by (simp add: pieces.simps [of sep s])
  next
    case (Some e)
    have e: "e + length sep \<le> length s" "take (length sep) (drop e s) = sep" "e \<noteq> length s"
      using first_sep_Some [OF Some] 1(2) by auto
    then have "join_text sep (pieces sep s) = take e s @ sep @ drop (e + length sep) s"
      using Some 1 split_nonempty [OF 1(2)] by (simp add: pieces.simps [of sep s] join_cons)
    also have "\<dots> = take e s @ take (length sep) (drop e s) @ drop (length sep) (drop e s)" using e(2) by (simp add: add.commute)
    also have "\<dots> = s" by (metis append_take_drop_id)
    finally show ?thesis .
  qed
qed

lemma split_pieces: "sep \<noteq> [] \<Longrightarrow> p \<in> set (pieces sep s) \<Longrightarrow> \<not> occurrence p sep i"
proof (induction sep s rule: pieces.induct)
  case (1 sep s)
  show ?case
  proof (cases "first_sep sep s")
    case None
    then have "p = s" using 1(2,3) by (simp add: pieces.simps [of sep s])
    then show ?thesis using None find_up_None [of s sep "length s - length sep" 0 i]
      by (auto simp: first_sep_def occurrence_iff split: if_splits)
  next
    case (Some e)
    note e = first_sep_Some [OF Some]
    have first: "\<not> occurs_at s sep k" if "k < e" for k
      using Some find_up_Some [of s sep "length s - length sep" 0 e] that by (auto simp: first_sep_def split: if_splits)
    have "\<not> occurrence (take e s) sep i"
    proof
      assume "occurrence (take e s) sep i"
      then have i: "i + length sep \<le> e" "take (length sep) (drop i (take e s)) = sep" using e(1) by (auto simp: occurrence_iff occurs_at_def)
      then have "occurs_at s sep i" by (simp add: occurs_at_def drop_take min_def split: if_splits)
      moreover have "i < e" using i(1) 1(2) by (cases sep) auto
      ultimately show False using first by blast
    qed
    moreover have "e \<noteq> length s" using e(1) 1(2) by auto
    ultimately show ?thesis using 1 Some by (auto simp: pieces.simps [of sep s])
  qed
qed

text \<open>For a separator of one byte the pieces are exactly those that were joined.\<close>

lemma first_sep_byte: "c \<notin> set p \<Longrightarrow> first_sep [c] (p @ c # r) = Some (length p)"
proof -
  assume c: "c \<notin> set p"
  let ?s = "p @ c # r"
  have "find_up ?s [c] (length ?s - 1) 0 \<noteq> None"
    using find_up_None [of ?s "[c]" "length ?s - 1" 0 "length p"] by (auto simp: occurs_at_def)
  then obtain e where e: "find_up ?s [c] (length ?s - 1) 0 = Some e" by blast
  note f = find_up_Some [OF e]
  have "\<not> e < length p"
  proof
    assume "e < length p"
    then have "?s ! e = p ! e" "p ! e \<in> set p" by (simp_all add: nth_append)
    moreover have "take 1 (drop e ?s) = [?s ! e]" using \<open>e < length p\<close> by (simp add: take_Suc_conv_app_nth nth_append)
    ultimately show False using f c by (auto simp: occurs_at_def)
  qed
  moreover have "\<not> length p < e" using f by (auto simp: occurs_at_def)
  ultimately show ?thesis using e by (simp add: first_sep_def)
qed

lemma first_sep_none: "c \<notin> set p \<Longrightarrow> first_sep [c] p = None"
proof (rule ccontr)
  assume c: "c \<notin> set p" and "first_sep [c] p \<noteq> None"
  then obtain e where "first_sep [c] p = Some e" by blast
  from first_sep_Some [OF this] have "c \<in> set (take 1 (drop e p))" by simp
  then show False using c by (metis in_set_dropD in_set_takeD)
qed

lemma split_join_byte:
  "ps \<noteq> [] \<Longrightarrow> \<forall>p\<in>set ps. c \<notin> set p \<Longrightarrow> pieces [c] (join_text [c] ps) = ps"
proof (induction ps)
  case (Cons p ps)
  show ?case
  proof (cases "ps = []")
    case True
    then show ?thesis using Cons.prems first_sep_none [of c p] by (simp add: pieces.simps [of "[c]" p])
  next
    case False
    have "pieces [c] (p @ c # r) = p # pieces [c] r" for r
      using Cons.prems first_sep_byte [of c p r] by (simp add: pieces.simps [of "[c]" "p @ c # r"])
    then show ?thesis using Cons.IH Cons.prems False by (simp add: join_cons)
  qed
qed simp

lemma push_all_ok:
  assumes "\<forall>s. mem s"
  shows "\<exists>m'. push_all mem m ss = Good m' \<and> items m' = items m @ map VStr ss \<and> elem_kind m' = elem_kind m"
proof (induction ss arbitrary: m)
  case (Cons s ss)
  obtain m1 where m1: "wo_multi_push mem m (VStr s) = Some m1" using assms wo_multi_push_ok by blast
  obtain m' where "push_all mem m1 ss = Good m' \<and> items m' = items m1 @ map VStr ss \<and> elem_kind m' = elem_kind m1" using Cons by blast
  moreover have "new_text mem s = Good (VStr s)" using assms by (simp add: new_text_def)
  ultimately show ?case using m1 wo_multi_push_items [OF m1] by (simp add: push_part_def)
qed simp

lemma text_list_ok:
  assumes "\<forall>s. mem s"
  shows "\<exists>m. text_list mem ss = Good m \<and> items m = map VStr ss \<and> elem_kind m = KText"
proof -
  have "wo_multi_new mem KText = Some \<lparr>elem_kind = KText, items = [], mcap = 0\<rparr>" using assms by (simp add: wo_multi_new_def)
  then show ?thesis using push_all_ok [OF assms, of "\<lparr>elem_kind = KText, items = [], mcap = 0\<rparr>" ss] by (simp add: text_list_def)
qed

section \<open>Numbers\<close>

lemma uint_digit: "d < 10 \<Longrightarrow> uint (of_nat (48 + d) :: u8) = int (48 + d) \<and> is_digit (of_nat (48 + d))"
proof -
  assume "d < 10"
  then have "unat (of_nat (48 + d) :: u8) = 48 + d" by (simp add: unsigned_of_nat take_bit_nat_eq_self del: of_nat_add)
  then have u: "uint (of_nat (48 + d) :: u8) = int (48 + d)" by (metis uint_nat)
  then show ?thesis using \<open>d < 10\<close> by (simp add: is_digit_def word_le_def del: of_nat_add)
qed

lemma parse_digits_append:
  assumes "\<forall>d\<in>set ds. is_digit d"
  shows "parse_digits (ds @ r) acc n =
    (case parse_digits ds acc n of None \<Rightarrow> None | Some (acc', n') \<Rightarrow> parse_digits r acc' n')"
  using assms by (induction ds acc n rule: parse_digits.induct) (auto simp: Let_def)

lemma dec_digits_shape: "dec_digits n \<noteq> [] \<and> (\<forall>d\<in>set (dec_digits n). is_digit d)"
proof (induction n rule: dec_digits.induct)
  case (1 n)
  show ?case
  proof (cases "n < 10")
    case True
    then show ?thesis using uint_digit [OF True] by (simp add: dec_digits.simps [of n])
  next
    case False
    then show ?thesis using 1 uint_digit [of "n mod 10"] by (simp add: dec_digits.simps [of n])
  qed
qed

lemma parse_dec:
  "parse_digits (dec_digits n) 0 0 = (if n < 2 ^ 63 then Some (int n, length (dec_digits n)) else None)"
proof (induction n rule: dec_digits.induct)
  case (1 n)
  show ?case
  proof (cases "n < 10")
    case True
    then show ?thesis using uint_digit [OF True] by (simp add: dec_digits.simps [of n])
  next
    case False
    define c :: u8 where "c = of_nat (48 + n mod 10)"
    have d: "uint c = 48 + int (n mod 10)" "is_digit c"
      using uint_digit [of "n mod 10"] by (simp_all add: c_def)
    have n: "int (n div 10) * 10 + int (n mod 10) = int n" by (simp add: zdiv_int zmod_int)
    have dd: "dec_digits n = dec_digits (n div 10) @ [c]" using False by (simp add: dec_digits.simps [of n] c_def)
    have "parse_digits (dec_digits n) 0 0 =
        (case parse_digits (dec_digits (n div 10)) 0 0 of None \<Rightarrow> None | Some (a, l) \<Rightarrow> parse_digits [c] a l)"
      unfolding dd by (rule parse_digits_append) (use dec_digits_shape in blast)
    also have "\<dots> = (if n < 2 ^ 63 then Some (int n, length (dec_digits n)) else None)"
    proof (cases "n div 10 < 2 ^ 63")
      case True
      have "(2 ^ 63 \<le> int (n div 10) * 10 + (48 + int (n mod 10) - 48)) = (\<not> n < 2 ^ 63)" using n by simp linarith
      then show ?thesis using 1 [OF False] True d n False
        by (simp add: Let_def dd)
    next
      case False
      then show ?thesis using 1 [OF \<open>\<not> n < 10\<close>] by simp
    qed
    finally show ?thesis .
  qed
qed

lemma digit_not_ws: "is_digit c \<Longrightarrow> \<not> ws_byte c \<and> c \<noteq> 45 \<and> c \<noteq> 43"
  by (auto simp: is_digit_def ws_byte_def word_le_def)

lemma parse_int_text:
  assumes "- (2 ^ 63) \<le> i" and "i < 2 ^ 63"
  shows "parse_int (int_text i) = (if i = - (2 ^ 63) then None else Some (word_of_int i))"
proof (cases "i < 0")
  case True
  have "int_text i = 45 # dec_digits (nat (- i))" using True by (simp add: int_text_def)
  moreover have "\<not> ws_byte 45" by (simp add: ws_byte_def)
  moreover have "dec_digits (nat (- i)) \<noteq> []" using dec_digits_shape by blast
  ultimately show ?thesis using assms True by (auto simp: parse_int_def Let_def parse_dec nat_less_iff)
next
  case False
  obtain c cs where c: "dec_digits (nat i) = c # cs" "is_digit c"
    using dec_digits_shape [of "nat i"] by (cases "dec_digits (nat i)") auto
  then have "int_text i = c # cs" using False by (simp add: int_text_def)
  moreover have "parse_digits (c # cs) 0 0 = Some (i, length (c # cs))"
    using parse_dec [of "nat i"] c(1) assms False by (simp add: nat_less_iff)
  ultimately show ?thesis using digit_not_ws [OF c(2)] False by (simp add: parse_int_def Let_def)
qed

end
