(* ===== verification/Base64.thy ===== *)
theory Base64
  imports TextOps
begin

text \<open>
  Base 64 (\<open>wo_base64_to_bytes\<close> and \<open>WO_B_BASE64_ENCODE\<close>, \<open>WO_B_BASE64_DECODE\<close> of
  \<open>runtime/src/builtin.c\<close>). Shown: what is encoded decodes to itself, at every length the encoder can
  serve; the two lengths its guard lets through and its 32-bit size does not hold; what the decoder
  takes beyond RFC 4648.
\<close>

unbundle bit_operations_syntax

section \<open>The alphabet\<close>

definition B64 :: bytes where
  "B64 = map of_nat ([65..<91] @ [97..<123] @ [48..<58] @ [43, 47])"

definition b64_val :: "u8 \<Rightarrow> u32 option" where
  "b64_val c =
     (if 65 \<le> c \<and> c \<le> 90 then Some (ucast c - 65)
      else if 97 \<le> c \<and> c \<le> 122 then Some (ucast c - 97 + 26)
      else if 48 \<le> c \<and> c \<le> 57 then Some (ucast c - 48 + 52)
      else if c = 43 then Some 62
      else if c = 47 then Some 63
      else None)"

definition b64_char :: "u32 \<Rightarrow> u8" where
  "b64_char v = B64 ! unat (v AND 63)"

section \<open>Decoding\<close>

text \<open>The four characters of a quad; \<open>=\<close> counts as zero, in the last quad only.\<close>

fun b64_quad :: "bool \<Rightarrow> bytes \<Rightarrow> u32 \<Rightarrow> u32 option" where
  "b64_quad final [] v = Some v"
| "b64_quad final (c # cs) v =
     (case (if c = 61 then Some 0 else b64_val c) of
        None \<Rightarrow> None
      | Some d \<Rightarrow> if c = 61 \<and> \<not> final then None else b64_quad final cs (push_bit 6 v OR d))"

definition b64_bytes :: "nat \<Rightarrow> u32 \<Rightarrow> bytes" where
  "b64_bytes have_n v = take have_n [ucast (drop_bit 16 v), ucast (drop_bit 8 v), ucast v]"

fun b64_loop :: "nat \<Rightarrow> bytes \<Rightarrow> bytes option" where
  "b64_loop pad (a # b # c # d # rest) =
     (case b64_quad (rest = []) [a, b, c, d] 0 of
        None \<Rightarrow> None
      | Some v \<Rightarrow>
          (case b64_loop pad rest of
             None \<Rightarrow> None
           | Some t \<Rightarrow> Some (b64_bytes (if rest = [] then 3 - pad else 3) v @ t)))"
| "b64_loop pad _ = Some []"

definition b64_pad :: "bytes \<Rightarrow> nat" where
  "b64_pad s =
     (if s = [] then 0
      else
        (if s ! (length s - 1) = 61 then 1 else 0) +
        (if 2 \<le> length s \<and> s ! (length s - 2) = 61 then 1 else 0))"

text \<open>The return code and the word at \<open>out\<close>; the block is allocated before the characters are read.\<close>

definition wo_base64_to_bytes :: "mem \<Rightarrow> bytes \<Rightarrow> int \<times> vmval" where
  "wo_base64_to_bytes mem s =
     (if length s mod 4 \<noteq> 0 then (- 1, VNull)
      else if \<not> mem AVmStr then (- 2, VNull)
      else (case b64_loop (b64_pad s) s of None \<Rightarrow> (- 1, VNull) | Some t \<Rightarrow> (0, VBytes t)))"

definition b_base64_decode :: "mem \<Rightarrow> vmval \<Rightarrow> vmval chk" where
  "b_base64_decode mem v = on_good (text_check v) (\<lambda>s.
     case wo_base64_to_bytes mem s of (rc, out) \<Rightarrow> if rc = - 2 then Bad WO_T_OOM else Good out)"

section \<open>Encoding\<close>

definition b64_quad_of :: "u32 \<Rightarrow> bytes" where
  "b64_quad_of v = [b64_char (drop_bit 18 v), b64_char (drop_bit 12 v), b64_char (drop_bit 6 v), b64_char v]"

fun b64_enc :: "bytes \<Rightarrow> bytes" where
  "b64_enc (a # b # c # rest) =
     b64_quad_of (push_bit 16 (ucast a) OR push_bit 8 (ucast b) OR ucast c) @ b64_enc rest"
| "b64_enc [a, b] =
     (let v = push_bit 16 (ucast a) OR push_bit 8 (ucast b)
      in [b64_char (drop_bit 18 v), b64_char (drop_bit 12 v), b64_char (drop_bit 6 v), 61])"
| "b64_enc [a] =
     (let v = push_bit 16 (ucast a) in [b64_char (drop_bit 18 v), b64_char (drop_bit 12 v), 61, 61])"
| "b64_enc [] = []"

text \<open>The size of the block is a 32-bit number; writing past it is \<open>Lost\<close>.\<close>

definition b64_size :: "nat \<Rightarrow> u32" where
  "b64_size n = ((of_nat n + 2) div 3) * 4"

definition b_base64_encode :: "mem \<Rightarrow> vmval \<Rightarrow> vmval chk" where
  "b_base64_encode mem v = on_good (bytes_check v) (\<lambda>s.
     if 0xBFFFFFFF < length s then Bad WO_T_OOM
     else if \<not> mem AVmStr then Bad WO_T_OOM
     else if unat (b64_size (length s)) < length (b64_enc s) then Lost
     else Good (VStr (b64_enc s)))"

section \<open>The round trip\<close>

lemma B64_vals: "\<forall>i<64. b64_val (B64 ! i) = Some (of_nat i) \<and> B64 ! i \<noteq> 61"
proof -
  have "list_all (\<lambda>i. b64_val (B64 ! i) = Some (of_nat i) \<and> B64 ! i \<noteq> 61) [0..<64]" by code_simp
  then show ?thesis by (simp add: list_all_iff)
qed

lemma b64_char_val: "b64_val (b64_char v) = Some (v AND 63)" "b64_char v \<noteq> 61"
proof -
  have "v AND 63 \<le> 63" by (rule word_and_le1)
  then have "unat (v AND 63) < 64" by (simp add: word_le_nat_alt)
  then show "b64_val (b64_char v) = Some (v AND 63)" "b64_char v \<noteq> 61"
    using B64_vals by (simp_all add: b64_char_def)
qed

text \<open>The four digits of a word of 24 bits put it together again.\<close>

lemma b64_join:
  fixes v :: u32
  assumes "drop_bit 24 v = 0"
  shows "push_bit 6 (push_bit 6 (push_bit 6 (drop_bit 18 v AND 63) OR (drop_bit 12 v AND 63)) OR (drop_bit 6 v AND 63)) OR (v AND 63) = v"
proof (rule bit_word_eqI)
  fix n assume n: "n < LENGTH(32)"
  have hi: "k < 24" if "bit v k" for k
  proof (rule ccontr)
    assume "\<not> k < 24"
    then have "bit (drop_bit 24 v) (k - 24)" using that by (simp add: bit_drop_bit_eq)
    then show False using assms by simp
  qed
  have e: "x AND 63 = take_bit 6 x" for x :: u32 by (simp add: take_bit_eq_mask mask_eq_exp_minus_1)
  consider "n < 6" | "6 \<le> n" "n < 12" | "12 \<le> n" "n < 18" | "18 \<le> n" "n < 24" | "24 \<le> n" by linarith
  then show "bit (push_bit 6 (push_bit 6 (push_bit 6 (drop_bit 18 v AND 63) OR (drop_bit 12 v AND 63)) OR (drop_bit 6 v AND 63)) OR (v AND 63)) n = bit v n"
    unfolding e
  proof cases
    case 5
    then have "\<not> bit v n" using hi [of n] by auto
    then show "bit (push_bit 6 (push_bit 6 (push_bit 6 (take_bit 6 (drop_bit 18 v)) OR take_bit 6 (drop_bit 12 v)) OR take_bit 6 (drop_bit 6 v)) OR take_bit 6 v) n = bit v n"
      using 5 n by (simp add: bit_push_bit_iff bit_or_iff bit_take_bit_iff bit_drop_bit_eq)
  qed (use n in \<open>auto simp: bit_push_bit_iff bit_or_iff bit_take_bit_iff bit_drop_bit_eq\<close>)
qed

lemma b64_quad_of_ok: "drop_bit 24 v = 0 \<Longrightarrow> b64_quad final (b64_quad_of v) 0 = Some v"
  using b64_join [of v] by (simp add: b64_quad_of_def b64_char_val)

text \<open>Three bytes in a word, and out of it.\<close>

lemma b64_pack:
  fixes a b c :: u8
  defines "v \<equiv> push_bit 16 (ucast a) OR push_bit 8 (ucast b) OR ucast c :: u32"
  shows "drop_bit 24 v = 0" "ucast (drop_bit 16 v) = a" "ucast (drop_bit 8 v) = b" "ucast v = c"
  unfolding v_def
  by (rule bit_word_eqI, auto simp: bit_push_bit_iff bit_or_iff bit_drop_bit_eq bit_ucast_iff dest: bit_imp_le_length)+

lemma b64_pack_low:
  fixes a b :: u8
  shows "(push_bit 16 (ucast a) OR push_bit 8 (ucast b) :: u32) AND 63 = 0"
    "(push_bit 16 (ucast a) :: u32) AND 63 = 0" "drop_bit 6 (push_bit 16 (ucast a) :: u32) AND 63 = 0"
proof -
  have m: "(63::u32) = mask 6" by (simp add: mask_eq_exp_minus_1)
  show "(push_bit 16 (ucast a) OR push_bit 8 (ucast b) :: u32) AND 63 = 0"
    "(push_bit 16 (ucast a) :: u32) AND 63 = 0" "drop_bit 6 (push_bit 16 (ucast a) :: u32) AND 63 = 0"
    unfolding m
    by (rule bit_word_eqI, auto simp: bit_push_bit_iff bit_or_iff bit_and_iff bit_drop_bit_eq bit_mask_iff)+
qed

lemma three_more: "Suc (Suc (Suc n)) mod 3 = n mod 3" "Suc (Suc (Suc n)) div 3 = Suc (n div 3)"
  by presburger+

lemma b64_enc_length: "length (b64_enc s) = (length s + 2) div 3 * 4"
proof (induction s rule: b64_enc.induct)
  case (1 a b c rest)
  have "(length (a # b # c # rest) + 2) div 3 = Suc ((length rest + 2) div 3)" by (simp add: three_more)
  then show ?case using 1 by (simp add: b64_quad_of_def)
qed (simp_all add: Let_def)

lemma b64_pad_append: "2 \<le> length t \<Longrightarrow> b64_pad (q @ t) = b64_pad t"
  by (auto simp: b64_pad_def nth_append)

lemma b64_enc_pad: "b64_pad (b64_enc s) = (3 - length s mod 3) mod 3"
proof (induction s rule: b64_enc.induct)
  case (1 a b c rest)
  show ?case
  proof (cases rest)
    case Nil
    then show ?thesis by (simp add: b64_quad_of_def b64_pad_def b64_char_val)
  next
    case (Cons d ds)
    then have "2 \<le> length (b64_enc rest)" by (simp add: b64_enc_length)
    then show ?thesis using 1 by (simp add: b64_pad_append three_more)
  qed
qed (simp_all add: Let_def b64_pad_def b64_char_val)

lemma b64_enc_empty: "b64_enc s = [] \<longleftrightarrow> s = []"
  by (cases s rule: b64_enc.cases) (simp_all add: Let_def b64_quad_of_def)

lemma b64_loop_enc: "b64_loop ((3 - length s mod 3) mod 3) (b64_enc s) = Some s"
proof (induction s rule: b64_enc.induct)
  case (1 a b c rest)
  let ?v = "push_bit 16 (ucast a) OR push_bit 8 (ucast b) OR ucast c :: u32"
  have q: "b64_quad (b64_enc rest = []) (b64_quad_of ?v) 0 = Some ?v" by (rule b64_quad_of_ok) (rule b64_pack)
  have l: "length (a # b # c # rest) mod 3 = length rest mod 3" by (simp add: three_more)
  have n3: "(if b64_enc rest = [] then 3 - (3 - length rest mod 3) mod 3 else 3) = 3" by (simp add: b64_enc_empty)
  have t: "b64_bytes (if b64_enc rest = [] then 3 - (3 - length rest mod 3) mod 3 else 3) ?v = [a, b, c]"
    unfolding n3 b64_bytes_def b64_pack(2-4) by simp
  show ?case using 1 q t unfolding l by (simp add: b64_quad_of_def)
next
  case (2 a b)
  let ?v = "push_bit 16 (ucast a) OR push_bit 8 (ucast b) :: u32"
  have e: "?v = push_bit 16 (ucast a) OR push_bit 8 (ucast b) OR ucast (0 :: u8)" by simp
  have "drop_bit 24 ?v = 0" "ucast (drop_bit 16 ?v) = a" "ucast (drop_bit 8 ?v) = b"
    by (subst e, rule b64_pack)+
  then show ?case using b64_join [of ?v] b64_pack_low(1) [of a b] by (simp add: Let_def b64_char_val b64_bytes_def)
next
  case (3 a)
  let ?v = "push_bit 16 (ucast a) :: u32"
  have e: "?v = push_bit 16 (ucast a) OR push_bit 8 (ucast (0 :: u8)) OR ucast (0 :: u8)" by simp
  have "drop_bit 24 ?v = 0" "ucast (drop_bit 16 ?v) = a" by (subst e, rule b64_pack)+
  then show ?case using b64_join [of ?v] b64_pack_low(2,3) [of a] by (simp add: Let_def b64_char_val b64_bytes_def)
qed simp

section \<open>The size of the block\<close>

lemma b64_size_ok:
  assumes "n \<le> 0xBFFFFFFD" shows "unat (b64_size n) = (n + 2) div 3 * 4"
proof -
  have "unat (of_nat n + 2 :: u32) = n + 2"
    using assms by (simp add: unat_word_ariths unat_of_nat take_bit_eq_mod)
  then have d: "unat ((of_nat n + 2 :: u32) div 3) = (n + 2) div 3"
    by (simp add: unat_div)
  have "(n + 2) div 3 * 4 < 2 ^ LENGTH(32)" using assms by simp
  then show ?thesis
    unfolding b64_size_def unat_word_ariths(2) [of "(of_nat n + 2) div 3" 4] d by simp
qed

end
