(* ===== verification/MultiOps.thy ===== *)
theory MultiOps
  imports TextOps
begin

text \<open>
  The container builtins of \<open>runtime/src/builtin.c\<close>: what \<open>multi\<close> and \<open>map\<close> (\<open>Containers\<close>) do as
  instructions. A receiver is \<open>None\<close> when \<open>native_check\<close> refuses it. A result names what the code
  drops, as pairs of the kind it is dropped at and the value.
\<close>

section \<open>Receivers\<close>

definition on_recv :: "'a option \<Rightarrow> ('a \<Rightarrow> 'b chk) \<Rightarrow> 'b chk" where
  "on_recv r f = (case r of None \<Rightarrow> Bad WO_T_BOUNDS | Some x \<Rightarrow> f x)"

definition vm_null :: "vmval \<Rightarrow> bool" where
  "vm_null v \<longleftrightarrow> v = VNull \<or> v = VWord 0"

text \<open>A text that goes into a container is copied; a word that is no object is \<open>Lost\<close>.\<close>

definition copy_in :: "mem \<Rightarrow> kind \<Rightarrow> vmval \<Rightarrow> vmval chk" where
  "copy_in mem kd v =
     (if kd = KText \<and> \<not> vm_null v then on_good (text_check v) (new_text mem) else Good v)"

definition on_mem :: "'a option \<Rightarrow> 'a chk" where
  "on_mem r = (case r of None \<Rightarrow> Bad WO_T_OOM | Some x \<Rightarrow> Good x)"

section \<open>\<open>multi\<close>\<close>

definition b_multi_push :: "mem \<Rightarrow> wo_multi option \<Rightarrow> vmval \<Rightarrow> wo_multi chk" where
  "b_multi_push mem r v = on_recv r (\<lambda>m. on_good (copy_in mem (elem_kind m) v) (\<lambda>w. on_mem (wo_multi_push mem m w)))"

definition b_multi_get :: "wo_multi option \<Rightarrow> u64 \<Rightarrow> vmval chk" where
  "b_multi_get r i = on_recv r (\<lambda>m. case wo_multi_get m i of None \<Rightarrow> Bad WO_T_BOUNDS | Some v \<Rightarrow> Good v)"

definition b_latest :: "wo_multi option \<Rightarrow> vmval chk" where
  "b_latest r = on_recv r (\<lambda>m. if items m = [] then Bad WO_T_BOUNDS else Good (last (items m)))"

text \<open>\<open>same\<close>: the new word is the word that is there.\<close>

definition b_multi_set ::
  "mem \<Rightarrow> wo_multi option \<Rightarrow> u64 \<Rightarrow> bool \<Rightarrow> vmval \<Rightarrow> (wo_multi \<times> (kind \<times> vmval) list) chk" where
  "b_multi_set mem r i same v = on_recv r (\<lambda>m.
     if length (items m) \<le> unat i then Bad WO_T_BOUNDS
     else on_good (copy_in mem (elem_kind m) v) (\<lambda>w.
       Good (m\<lparr>items := (items m)[unat i := w]\<rparr>,
         if same \<and> (elem_kind m = KText \<longrightarrow> vm_null v) then [] else [(elem_kind m, items m ! unat i)])))"

definition b_pop :: "wo_multi option \<Rightarrow> (vmval \<times> wo_multi) chk" where
  "b_pop r = on_recv r (\<lambda>m. if items m = [] then Bad WO_T_BOUNDS
     else Good (items m ! (length (items m) - 1), m\<lparr>items := take (length (items m) - 1) (items m)\<rparr>))"

definition b_shift :: "wo_multi option \<Rightarrow> (vmval \<times> wo_multi) chk" where
  "b_shift r = on_recv r (\<lambda>m. if items m = [] then Bad WO_T_BOUNDS
     else Good (items m ! 0, m\<lparr>items := drop 1 (items m)\<rparr>))"

text \<open>\<open>SLICE\<close>: the positions from \<open>lo\<close> up to \<open>hi\<close>, texts copied; an element of a multi of texts is null or a string.\<close>

definition slice_copy :: "mem \<Rightarrow> kind \<Rightarrow> vmval \<Rightarrow> vmval chk" where
  "slice_copy mem kd v =
     (if kd = KText \<and> \<not> vm_null v then (case str_bytes v of None \<Rightarrow> Lost | Some s \<Rightarrow> new_text mem s) else Good v)"

fun slice_loop :: "mem \<Rightarrow> wo_multi \<Rightarrow> wo_multi \<Rightarrow> nat list \<Rightarrow> wo_multi chk" where
  "slice_loop mem m out [] = Good out"
| "slice_loop mem m out (i # is) =
     on_good (slice_copy mem (elem_kind m) (items m ! i)) (\<lambda>w.
       on_good (on_mem (wo_multi_push mem out w)) (\<lambda>out'. slice_loop mem m out' is))"

definition b_slice :: "mem \<Rightarrow> wo_multi option \<Rightarrow> u64 \<Rightarrow> u64 \<Rightarrow> wo_multi chk" where
  "b_slice mem r a b = on_recv r (\<lambda>m.
     if elem_kind m \<noteq> KText \<and> elem_kind m \<noteq> KScalar then Bad WO_T_BOUNDS
     else
       let lo = (if sint a < 0 then 0 else sint a);
           hi = (if int (length (items m)) < sint b then int (length (items m)) else sint b)
       in on_good (on_mem (wo_multi_new mem (elem_kind m))) (\<lambda>out.
            slice_loop mem m out [nat lo..<nat hi]))"

section \<open>Sorting and reversing\<close>

text \<open>\<open>memcmp\<close> of two blocks of one length: its sign.\<close>

fun mem_cmp :: "bytes \<Rightarrow> bytes \<Rightarrow> int" where
  "mem_cmp (x # xs) (y # ys) = (if x = y then mem_cmp xs ys else if x < y then - 1 else 1)"
| "mem_cmp xs ys = 0"

definition text_cmp :: "bytes \<Rightarrow> bytes \<Rightarrow> int" where
  "text_cmp x y =
     (let n = min (length x) (length y);
          c = (if n = 0 then 0 else mem_cmp (take n x) (take n y))
      in if c \<noteq> 0 then c else if length x = length y then 0 else if length x < length y then - 1 else 1)"

text \<open>The word of an object is its address, a parameter.\<close>

definition elem_word :: "(vmval \<Rightarrow> u64) \<Rightarrow> vmval \<Rightarrow> u64" where
  "elem_word addr v = (case v of VWord w \<Rightarrow> w | VNull \<Rightarrow> 0 | _ \<Rightarrow> addr v)"

definition elem_cmp :: "(vmval \<Rightarrow> u64) \<Rightarrow> kind \<Rightarrow> vmval \<Rightarrow> vmval \<Rightarrow> int" where
  "elem_cmp addr kd a b =
     (if kd = KText then
        (case (str_bytes a, str_bytes b) of
           (Some x, Some y) \<Rightarrow> text_cmp x y
         | (x, y) \<Rightarrow> (if x \<noteq> None then 1 else 0) - (if y \<noteq> None then 1 else 0))
      else
        let ia = sint (elem_word addr a); ib = sint (elem_word addr b)
        in if ia = ib then 0 else if ia < ib then - 1 else 1)"

definition b_str_lt :: "vmval \<Rightarrow> vmval \<Rightarrow> vmval" where
  "b_str_lt a b = vm_bool (elem_cmp (\<lambda>_. 0) KText a b < 0)"

text \<open>The inner loop moves the greater elements up by one and stores \<open>v\<close>; the outer one goes over the positions from 1.\<close>

fun sift :: "('a \<Rightarrow> 'a \<Rightarrow> int) \<Rightarrow> 'a list \<Rightarrow> nat \<Rightarrow> 'a \<Rightarrow> 'a list" where
  "sift cmp xs 0 v = xs[0 := v]"
| "sift cmp xs (Suc j) v = (if 0 < cmp (xs ! j) v then sift cmp (xs[Suc j := xs ! j]) j v else xs[Suc j := v])"

definition sort_loop :: "('a \<Rightarrow> 'a \<Rightarrow> int) \<Rightarrow> 'a list \<Rightarrow> 'a list" where
  "sort_loop cmp xs = fold (\<lambda>i ys. sift cmp ys i (ys ! i)) [1..<length xs] xs"

definition b_sort :: "(vmval \<Rightarrow> u64) \<Rightarrow> wo_multi option \<Rightarrow> wo_multi chk" where
  "b_sort addr r = on_recv r (\<lambda>m. Good (m\<lparr>items := sort_loop (elem_cmp addr (elem_kind m)) (items m)\<rparr>))"

function rev_loop :: "'a list \<Rightarrow> nat \<Rightarrow> nat \<Rightarrow> 'a list" where
  "rev_loop xs i j =
     (if i + 1 < j then rev_loop (xs[i := xs ! (j - 1), j - 1 := xs ! i]) (i + 1) (j - 1) else xs)"
  by pat_completeness auto

termination
  by (relation "measure (\<lambda>(xs, i, j). j - i)") auto

declare rev_loop.simps [simp del]

definition b_reverse :: "wo_multi option \<Rightarrow> wo_multi chk" where
  "b_reverse r = on_recv r (\<lambda>m. Good (m\<lparr>items := rev_loop (items m) 0 (length (items m))\<rparr>))"

section \<open>\<open>map\<close>\<close>

text \<open>A replaced entry keeps its key, so the copy of the key goes away, and the displaced value.\<close>

definition b_map_set ::
  "mem \<Rightarrow> wo_map option \<Rightarrow> vmval \<Rightarrow> vmval \<Rightarrow> (wo_map \<times> (kind \<times> vmval) list) chk" where
  "b_map_set mem r k v = on_recv r (\<lambda>m.
     on_good (copy_in mem (key_kind m) k) (\<lambda>k'. on_good (copy_in mem (val_kind m) v) (\<lambda>v'.
       case wo_map_set mem m k' v' of
         None \<Rightarrow> Bad WO_T_OOM
       | Some (m', None) \<Rightarrow> Good (m', [])
       | Some (m', Some old) \<Rightarrow>
           Good (m', (if key_kind m = KText \<and> \<not> vm_null k then [(KText, k')] else []) @ [(val_kind m, old)]))))"

definition b_map_get :: "wo_map option \<Rightarrow> vmval \<Rightarrow> vmval chk" where
  "b_map_get r k = on_recv r (\<lambda>m. case wo_map_get m k of None \<Rightarrow> Bad WO_T_KEY | Some v \<Rightarrow> Good v)"

definition b_map_get_opt :: "wo_map option \<Rightarrow> vmval \<Rightarrow> vmval chk" where
  "b_map_get_opt r k = on_recv r (\<lambda>m. case wo_map_get m k of None \<Rightarrow> Good VNull | Some v \<Rightarrow> Good v)"

definition b_map_has :: "wo_map option \<Rightarrow> vmval \<Rightarrow> vmval chk" where
  "b_map_has r k = on_recv r (\<lambda>m. Good (vm_bool (wo_map_has m k)))"

definition remove_hit :: "kind \<Rightarrow> vmval \<Rightarrow> vmval \<Rightarrow> bool" where
  "remove_hit kk x k \<longleftrightarrow> (if kk = KText then \<not> vm_null x \<and> \<not> vm_null k \<and> key_eq kk x k else key_eq kk x k)"

fun remove_find :: "kind \<Rightarrow> vmval list \<Rightarrow> vmval \<Rightarrow> nat \<Rightarrow> nat option" where
  "remove_find kk [] k i = None"
| "remove_find kk (x # xs) k i = (if remove_hit kk x k then Some i else remove_find kk xs k (Suc i))"

definition remove_at :: "nat \<Rightarrow> 'a list \<Rightarrow> 'a list" where
  "remove_at i xs = take i xs @ drop (i + 1) xs"

definition b_map_remove :: "wo_map option \<Rightarrow> vmval \<Rightarrow> (vmval \<times> wo_map \<times> (kind \<times> vmval) list) chk" where
  "b_map_remove r k = on_recv r (\<lambda>m.
     case remove_find (key_kind m) (keys m) k 0 of
       None \<Rightarrow> Good (vm_bool False, m, [])
     | Some i \<Rightarrow> Good (vm_bool True, m\<lparr>keys := remove_at i (keys m), vals := remove_at i (vals m)\<rparr>,
         [(key_kind m, keys m ! i), (val_kind m, vals m ! i)]))"

definition b_map_at :: "bool \<Rightarrow> wo_map option \<Rightarrow> u64 \<Rightarrow> vmval chk" where
  "b_map_at key r i = on_recv r (\<lambda>m. if length (keys m) \<le> unat i then Bad WO_T_BOUNDS
     else Good (if key then keys m ! unat i else vals m ! unat i))"

section \<open>Either container\<close>

datatype nativ = NText bytes | NMulti wo_multi | NMap wo_map | NOther

definition b_count :: "nativ option \<Rightarrow> vmval chk" where
  "b_count r = on_recv r (\<lambda>c. case c of
     NMulti m \<Rightarrow> Good (VWord (of_nat (length (items m))))
   | NMap m \<Rightarrow> Good (VWord (of_nat (length (keys m))))
   | _ \<Rightarrow> Bad WO_T_BOUNDS)"

definition b_len :: "nativ option \<Rightarrow> vmval chk" where
  "b_len r = on_recv r (\<lambda>c. case c of
     NText s \<Rightarrow> Good (VWord (of_nat (length s)))
   | NMulti m \<Rightarrow> Good (VWord (of_nat (length (items m))))
   | NMap m \<Rightarrow> Good (VWord (of_nat (length (keys m))))
   | NOther \<Rightarrow> Bad WO_T_BOUNDS)"

section \<open>Objects of the module's classes\<close>

definition b_variant_tag :: "wo_module \<Rightarrow> 'z vheap_scheme \<Rightarrow> u64 \<Rightarrow> u64 chk" where
  "b_variant_tag m h v =
     (if v = 0 then Bad WO_T_BOUNDS
      else
        (case objs h v of
           None \<Rightarrow> Lost
         | Some o1 \<Rightarrow> if length (mclasses m) \<le> h_class o1 then Bad WO_T_BOUNDS else Good (of_nat (h_class o1))))"

text \<open>\<open>ERR_FILL\<close>: the catch arm's record; both texts are made before a field is written.\<close>

definition b_err_fill ::
  "wo_module \<Rightarrow> 'z vheap_scheme hooks \<Rightarrow> wo_err \<Rightarrow> bytes \<Rightarrow> u64 \<Rightarrow> 'z vheap_scheme \<Rightarrow> u64 chk \<times> 'z vheap_scheme" where
  "b_err_fill m k err text_msg v h =
     (if v = 0 then (Bad WO_T_BOUNDS, h)
      else
        (case objs h v of
           None \<Rightarrow> (Lost, h)
         | Some o1 \<Rightarrow>
             if length (mclasses m) \<le> h_class o1 \<or> length (kinds (mclasses m ! h_class o1)) < 4 then (Bad WO_T_BOUNDS, h)
             else
               (case wo_str_new k (takeWhile (\<lambda>c. c \<noteq> 0) (e_method err)) h of
                  None \<Rightarrow> (Bad WO_T_OOM, h)
                | Some (a, h1) \<Rightarrow>
                    (case wo_str_new k (takeWhile (\<lambda>c. c \<noteq> 0) text_msg) h1 of
                       None \<Rightarrow> (Bad WO_T_OOM, k_drop k a h1)
                     | Some (b, h2) \<Rightarrow>
                         (case h_body o1 of
                            HFields fs \<Rightarrow>
                              (Good v, put_obj v (o1\<lparr>h_body := HFields
                                 (fs[0 := of_nat (e_code err), 1 := of_nat (e_line err), 2 := a, 3 := b])\<rparr>) h2)
                          | _ \<Rightarrow> (Lost, h2))))))"

end
