(* ===== verification/MultiFacts.thy ===== *)
theory MultiFacts
  imports MultiOps "HOL-Library.Multiset"
begin

text \<open>
  What the container builtins do (\<open>MultiOps\<close>): the insertion sort is a stable sort by the element
  order, the swap loop reverses, a removal takes exactly one entry out of a map, a slice is a copy of
  a stretch.
\<close>

section \<open>Insertion sort, for any order that compares\<close>

locale total_cmp =
  fixes cmp :: "'a \<Rightarrow> 'a \<Rightarrow> int"
  assumes cmp_flip: "cmp a b < 0 \<longleftrightarrow> 0 < cmp b a"
    and cmp_trans: "cmp a b \<le> 0 \<Longrightarrow> cmp b c \<le> 0 \<Longrightarrow> cmp a c \<le> 0"
begin

definition ins :: "'a \<Rightarrow> 'a list \<Rightarrow> 'a list" where
  "ins v ys = rev (dropWhile (\<lambda>y. 0 < cmp y v) (rev ys)) @ v # rev (takeWhile (\<lambda>y. 0 < cmp y v) (rev ys))"

lemma ins_Nil: "ins v [] = [v]" by (simp add: ins_def)

lemma ins_snoc: "ins v (ys @ [y]) = (if 0 < cmp y v then ins v ys @ [y] else ys @ [y, v])"
  by (simp add: ins_def)

lemma sift_ins: "sift cmp (ys @ w # zs) (length ys) v = ins v ys @ zs"
proof (induction ys arbitrary: w zs rule: rev_induct)
  case Nil
  then show ?case by (simp add: ins_Nil)
next
  case (snoc y ys)
  have n: "(ys @ [y] @ w # zs) ! length ys = y" by simp
  have u: "(ys @ [y] @ w # zs)[Suc (length ys) := x] = ys @ y # x # zs" for x by (simp add: list_update_append)
  show ?case using snoc [of y "y # zs"] n u by (simp add: ins_snoc)
qed

lemma mset_ins: "mset (ins v ys) = add_mset v (mset ys)"
  by (induction ys rule: rev_induct) (simp_all add: ins_Nil ins_snoc)

lemma sorted_ins:
  "sorted_wrt (\<lambda>a b. cmp a b \<le> 0) ys \<Longrightarrow> sorted_wrt (\<lambda>a b. cmp a b \<le> 0) (ins v ys)"
proof (induction ys rule: rev_induct)
  case (snoc y ys)
  have up: "\<forall>a\<in>set ys. cmp a y \<le> 0" using snoc.prems by (simp add: sorted_wrt_append)
  show ?case
  proof (cases "0 < cmp y v")
    case True
    then have "cmp v y \<le> 0" using cmp_flip [of v y] by simp
    moreover have "set (ins v ys) = insert v (set ys)" by (metis mset_ins set_mset_add_mset_insert set_mset_mset)
    ultimately show ?thesis using snoc True up by (simp add: ins_snoc sorted_wrt_append)
  next
    case False
    then have "cmp y v \<le> 0" by simp
    then show ?thesis using snoc.prems False up cmp_trans [of _ y v] by (auto simp: ins_snoc sorted_wrt_append)
  qed
qed (simp add: ins_Nil)

text \<open>Equal elements keep their order.\<close>

lemma filter_ins:
  assumes "\<And>y. P y \<Longrightarrow> P v \<Longrightarrow> cmp y v = 0"
  shows "filter P (ins v ys) = filter P (ys @ [v])"
proof (induction ys rule: rev_induct)
  case (snoc y ys)
  show ?case
  proof (cases "0 < cmp y v")
    case True
    then have "\<not> (P y \<and> P v)" using assms [of y] by auto
    then show ?thesis using snoc True by (auto simp: ins_snoc)
  qed (simp add: ins_snoc)
qed (simp add: ins_Nil)

definition sorted_of :: "'a list \<Rightarrow> 'a list" where
  "sorted_of xs = fold ins xs []"

lemma sorted_of_snoc: "sorted_of (xs @ [x]) = ins x (sorted_of xs)"
  by (simp add: sorted_of_def)

lemma mset_sorted_of: "mset (sorted_of xs) = mset xs"
  by (induction xs rule: rev_induct) (simp add: sorted_of_def, simp add: sorted_of_snoc mset_ins)

lemma sorted_sorted_of: "sorted_wrt (\<lambda>a b. cmp a b \<le> 0) (sorted_of xs)"
  by (induction xs rule: rev_induct) (simp add: sorted_of_def, simp add: sorted_of_snoc sorted_ins)

lemma cmp_zero_trans: "cmp a b = 0 \<Longrightarrow> cmp b c = 0 \<Longrightarrow> cmp a c = 0"
  by (metis cmp_flip cmp_trans linorder_not_less order_refl order_antisym_conv)

lemma cmp_zero_sym: "cmp a b = 0 \<Longrightarrow> cmp b a = 0"
  by (metis cmp_flip linorder_neqE less_irrefl)

lemma stable_sorted_of: "filter (\<lambda>x. cmp x k = 0) (sorted_of xs) = filter (\<lambda>x. cmp x k = 0) xs"
proof (induction xs rule: rev_induct)
  case (snoc x xs)
  have "filter (\<lambda>x. cmp x k = 0) (ins x (sorted_of xs)) = filter (\<lambda>x. cmp x k = 0) (sorted_of xs @ [x])"
    by (rule filter_ins) (metis cmp_zero_trans cmp_zero_sym)
  then show ?case using snoc by (simp add: sorted_of_snoc)
qed (simp add: sorted_of_def)

lemma sort_loop_upto:
  "n \<le> length xs \<Longrightarrow> 0 < n \<Longrightarrow> fold (\<lambda>i ys. sift cmp ys i (ys ! i)) [1..<n] xs = sorted_of (take n xs) @ drop n xs"
proof (induction n)
  case (Suc n)
  show ?case
  proof (cases "n = 0")
    case True
    then show ?thesis using Suc.prems by (cases xs) (auto simp: sorted_of_def ins_Nil)
  next
    case False
    let ?s = "sorted_of (take n xs)"
    have l: "length ?s = n" using Suc.prems by (metis mset_sorted_of size_mset length_take min.absorb2 Suc_leD)
    have d: "drop n xs = xs ! n # drop (Suc n) xs" using Suc.prems by (simp add: Cons_nth_drop_Suc)
    have "fold (\<lambda>i ys. sift cmp ys i (ys ! i)) [1..<Suc n] xs
        = (\<lambda>ys. sift cmp ys n (ys ! n)) (fold (\<lambda>i ys. sift cmp ys i (ys ! i)) [1..<n] xs)"
      using False by simp
    also have "\<dots> = (\<lambda>ys. sift cmp ys n (ys ! n)) (?s @ xs ! n # drop (Suc n) xs)"
      using Suc False d by simp
    also have "\<dots> = ins (xs ! n) ?s @ drop (Suc n) xs"
      using sift_ins [of ?s "xs ! n" "drop (Suc n) xs" "xs ! n"] l by (simp add: nth_append)
    also have "ins (xs ! n) ?s = sorted_of (take (Suc n) xs)"
      using Suc.prems by (simp add: take_Suc_conv_app_nth sorted_of_snoc)
    finally show ?thesis .
  qed
qed simp

lemma sort_loop_eq: "sort_loop cmp xs = sorted_of xs"
  using sort_loop_upto [of "length xs" xs] by (cases xs) (auto simp: sort_loop_def sorted_of_def)

lemma sort_loop_sorts:
  "mset (sort_loop cmp xs) = mset xs" "sorted_wrt (\<lambda>a b. cmp a b \<le> 0) (sort_loop cmp xs)"
  "filter (\<lambda>x. cmp x k = 0) (sort_loop cmp xs) = filter (\<lambda>x. cmp x k = 0) xs"
  by (simp_all add: sort_loop_eq mset_sorted_of sorted_sorted_of stable_sorted_of)

end

section \<open>The order of the elements\<close>

fun lex_cmp :: "bytes \<Rightarrow> bytes \<Rightarrow> int" where
  "lex_cmp [] [] = 0"
| "lex_cmp [] (y # ys) = - 1"
| "lex_cmp (x # xs) [] = 1"
| "lex_cmp (x # xs) (y # ys) = (if x = y then lex_cmp xs ys else if x < y then - 1 else 1)"

lemma lex_cmp_flip: "lex_cmp y x = - lex_cmp x y"
  by (induction x y rule: lex_cmp.induct) auto

lemma lex_cmp_Nil: "lex_cmp [] z \<le> 0"
  by (cases z) simp_all

lemma lex_cmp_trans: "lex_cmp x y \<le> 0 \<Longrightarrow> lex_cmp y z \<le> 0 \<Longrightarrow> lex_cmp x z \<le> 0"
proof (induction x y arbitrary: z rule: lex_cmp.induct)
  case (4 x xs y ys)
  then show ?case by (cases z) (auto split: if_splits)
qed (simp_all add: lex_cmp_Nil)

lemma lex_cmp_zero: "lex_cmp x y = 0 \<longleftrightarrow> x = y"
  by (induction x y rule: lex_cmp.induct) auto

lemma text_cmp_lex: "text_cmp x y = lex_cmp x y"
proof (induction x y rule: lex_cmp.induct)
  case (4 x xs y ys)
  then show ?case by (auto simp: text_cmp_def Let_def min_def split: if_splits)
qed (auto simp: text_cmp_def)

lemma elem_cmp_text:
  "elem_cmp addr KText a b =
     (case str_bytes a of
        None \<Rightarrow> (if str_bytes b = None then 0 else - 1)
      | Some x \<Rightarrow> (case str_bytes b of None \<Rightarrow> 1 | Some y \<Rightarrow> lex_cmp x y))"
  by (simp add: elem_cmp_def text_cmp_lex split: option.split)

lemma elem_cmp_word:
  "kd \<noteq> KText \<Longrightarrow> elem_cmp addr kd a b =
     (if sint (elem_word addr a) = sint (elem_word addr b) then 0
      else if sint (elem_word addr a) < sint (elem_word addr b) then - 1 else 1)"
  by (simp add: elem_cmp_def Let_def)

lemma elem_cmp_flip: "elem_cmp addr kd b a = - elem_cmp addr kd a b"
proof (cases "kd = KText")
  case True
  show ?thesis unfolding True elem_cmp_text
    by (cases "str_bytes a"; cases "str_bytes b") (simp_all, rule lex_cmp_flip)
qed (simp add: elem_cmp_word)

lemma elem_cmp_trans:
  assumes "elem_cmp addr kd a b \<le> 0" "elem_cmp addr kd b c \<le> 0"
  shows "elem_cmp addr kd a c \<le> 0"
proof (cases "kd = KText")
  case True
  show ?thesis using assms unfolding True elem_cmp_text
    by (cases "str_bytes a"; cases "str_bytes b"; cases "str_bytes c") (simp_all, rule lex_cmp_trans)
next
  case False
  then have "sint (elem_word addr a) \<le> sint (elem_word addr b)" "sint (elem_word addr b) \<le> sint (elem_word addr c)"
    using assms by (simp_all only: elem_cmp_word [OF False] split: if_splits)
  then show ?thesis by (simp add: elem_cmp_word [OF False])
qed

interpretation elem: total_cmp "elem_cmp addr kd" for addr kd
proof (unfold_locales, goal_cases)
  case (1 a b)
  show ?case using elem_cmp_flip [of addr kd b a] by linarith
next
  case 2
  then show ?case by (rule elem_cmp_trans)
qed

section \<open>Reversing\<close>

lemma rev_loop_eq:
  "j \<le> length xs \<Longrightarrow> i \<le> j \<Longrightarrow> rev_loop xs i j = take i xs @ rev (take (j - i) (drop i xs)) @ drop j xs"
proof (induction xs i j rule: rev_loop.induct)
  case (1 xs i j)
  show ?case
  proof (cases "i + 1 < j")
    case False
    then have "j = i \<or> j = i + 1" using 1(3) by auto
    then show ?thesis
    proof
      assume "j = i"
      then show ?thesis by (subst rev_loop.simps) simp
    next
      assume j: "j = i + 1"
      then show ?thesis using 1(2) by (subst rev_loop.simps) (simp add: take_Suc_conv_app_nth Cons_nth_drop_Suc take_Suc)
    qed
  next
    case True
    obtain as x ms y bs where xs: "xs = as @ x # ms @ y # bs" and i: "length as = i" and j: "j = i + length ms + 2"
    proof -
      have a: "xs = take i xs @ xs ! i # drop (i + 1) xs" using True 1(2) by (simp add: id_take_nth_drop)
      have b: "drop (i + 1) xs = take (j - i - 2) (drop (i + 1) xs) @ drop (i + 1) xs ! (j - i - 2) # drop (j - i - 1) (drop (i + 1) xs)"
        using True 1(2) id_take_nth_drop [of "j - i - 2" "drop (i + 1) xs"] by (simp add: Suc_diff_Suc)
      show ?thesis
        by (rule that [of "take i xs" "xs ! i" "take (j - i - 2) (drop (i + 1) xs)" "drop (i + 1) xs ! (j - i - 2)" "drop (j - i - 1) (drop (i + 1) xs)"])
          (use a b True 1(2) in \<open>simp_all\<close>)
    qed
    have up: "xs[i := xs ! (j - 1), j - 1 := xs ! i] = as @ y # ms @ x # bs"
      using i j by (simp add: xs list_update_append nth_append)
    have "rev_loop xs i j = rev_loop (as @ y # ms @ x # bs) (i + 1) (j - 1)"
      using True up by (subst rev_loop.simps) simp
    also have "\<dots> = take (i + 1) (as @ y # ms @ x # bs) @ rev (take (j - 1 - (i + 1)) (drop (i + 1) (as @ y # ms @ x # bs))) @ drop (j - 1) (as @ y # ms @ x # bs)"
      using 1(1) [OF True] True 1(2) unfolding up by (simp add: xs)
    also have "\<dots> = as @ y # rev ms @ x # bs" using i j by simp
    finally show ?thesis using i j by (simp add: xs)
  qed
qed

lemma b_reverse_rev: "b_reverse (Some m) = Good (m\<lparr>items := rev (items m)\<rparr>)"
  by (simp add: b_reverse_def on_recv_def rev_loop_eq)

section \<open>Slices\<close>

definition texts_ok :: "wo_multi \<Rightarrow> bool" where
  "texts_ok m \<longleftrightarrow> (elem_kind m = KText \<longrightarrow> (\<forall>v\<in>set (items m). vm_null v \<or> (\<exists>s. v = VStr s)))"

lemma slice_loop_items:
  assumes "mem AVmStr" "mem AVmPush" "texts_ok m" "\<forall>i\<in>set is. i < length (items m)"
  shows "\<exists>out'. slice_loop mem m out is = Good out' \<and> items out' = items out @ map ((!) (items m)) is \<and> elem_kind out' = elem_kind out"
  using assms(4)
proof (induction "is" arbitrary: out)
  case (Cons i "is")
  let ?v = "items m ! i"
  have v: "slice_copy mem (elem_kind m) ?v = Good ?v"
  proof (cases "elem_kind m = KText \<and> \<not> vm_null ?v")
    case True
    then obtain s where "?v = VStr s" using assms(3) Cons.prems by (auto simp: texts_ok_def)
    then show ?thesis using True assms(1) by (simp add: slice_copy_def new_text_def)
  qed (auto simp: slice_copy_def)
  obtain out1 where o1: "wo_multi_push mem out ?v = Some out1" using wo_multi_push_ok [of mem out ?v] assms(2) by auto
  note p = wo_multi_push_items [OF o1]
  obtain out' where "slice_loop mem m out1 is = Good out'" "items out' = items out1 @ map ((!) (items m)) is" "elem_kind out' = elem_kind out1"
    using Cons.IH [of out1] Cons.prems by auto
  then show ?case using o1 p v by (simp add: on_mem_def)
qed simp

lemma map_nth_upt: "hi \<le> length xs \<Longrightarrow> map ((!) xs) [lo..<hi] = drop lo (take hi xs)"
  by (rule nth_equalityI) auto

section \<open>Removing from a map\<close>

lemma remove_hit_eq: "remove_hit kk x k \<longleftrightarrow> key_eq kk x k"
  by (auto simp: remove_hit_def key_eq_def key_norm_def vm_null_def)

lemma remove_find_eq: "remove_find kk xs k i = find_from kk xs k i"
  by (induction xs arbitrary: i) (simp_all add: remove_hit_eq)

lemma remove_at_nth: "i < length xs \<Longrightarrow> remove_at i xs ! j = (if j < i then xs ! j else xs ! Suc j)"
  by (auto simp: remove_at_def nth_append min_def)

lemma remove_at_length: "i < length xs \<Longrightarrow> length (remove_at i xs) = length xs - 1"
  by (simp add: remove_at_def)

lemma remove_at_split: "length xs = i \<Longrightarrow> remove_at i (xs @ y # ys) = xs @ ys"
  by (simp add: remove_at_def)

text \<open>What a lookup finds, as the value behind the first equal key.\<close>

lemma find_from_zip:
  "length vs = length ks \<Longrightarrow>
    (case find_from kk ks k i of None \<Rightarrow> None | Some j \<Rightarrow> Some (vs ! (j - i))) =
    map_option snd (find (\<lambda>p. key_eq kk (fst p) k) (zip ks vs))"
proof (induction ks arbitrary: vs i)
  case (Cons x ks)
  then obtain w ws where vs: "vs = w # ws" and l: "length ws = length ks" by (cases vs) auto
  have "find_from kk ks k (Suc i) = Some j \<Longrightarrow> vs ! (j - i) = ws ! (j - Suc i)" for j
    using find_from_Some [of kk ks k "Suc i" j] vs by (auto simp: nth_Cons' diff_Suc split: nat.splits)
  then show ?case using Cons.IH [OF l, of "Suc i"] vs by (auto split: option.split option.split_asm)
qed simp

lemma wo_map_get_zip:
  "length (vals m) = length (keys m) \<Longrightarrow>
    wo_map_get m k = map_option snd (find (\<lambda>p. key_eq (key_kind m) (fst p) k) (zip (keys m) (vals m)))"
  using find_from_zip [where vs = "vals m" and ks = "keys m" and kk = "key_kind m" and k = k and i = 0, unfolded diff_zero] by (simp add: wo_map_get_def map_find_def)

lemma find_append: "find P (xs @ ys) = (case find P xs of None \<Rightarrow> find P ys | Some x \<Rightarrow> Some x)"
  by (induction xs) auto

lemma map_remove_ok:
  assumes inv: "map_inv m" and r: "b_map_remove (Some m) k = Good (found, m', dropped)"
  shows "map_inv m' \<and> found = vm_bool (wo_map_has m k) \<and>
    wo_map_get m' k' = (if key_eq (key_kind m) k k' then None else wo_map_get m k')"
proof (cases "map_find m k")
  case None
  then have m': "m' = m" "found = vm_bool False"
    using r by (simp_all add: b_map_remove_def on_recv_def remove_find_eq map_find_def)
  have "key_eq (key_kind m) k k' \<Longrightarrow> wo_map_get m k' = None"
    using None map_find_None [of m k] map_find_None [of m k'] by (metis wo_map_get_def option.simps(4) key_eq_sym key_eq_trans)
  then show ?thesis using None inv m' by (simp add: wo_map_has_def)
next
  case (Some i)
  let ?kk = "key_kind m"
  have i: "i < length (keys m)" "key_eq ?kk (keys m ! i) k" using map_find_Some [OF Some] by auto
  have len: "length (vals m) = length (keys m)" using inv by (simp add: map_inv_def)
  have m': "keys m' = remove_at i (keys m)" "vals m' = remove_at i (vals m)" "key_kind m' = ?kk" "pcap m' = pcap m"
    "found = vm_bool True"
    using r Some by (auto simp: b_map_remove_def on_recv_def remove_find_eq map_find_def)
  have inv': "map_inv m'"
    unfolding map_inv_def m'
  proof (intro conjI allI impI)
    fix a b assume ab: "a < b" "b < length (remove_at i (keys m))"
    then show "\<not> key_eq ?kk (remove_at i (keys m) ! a) (remove_at i (keys m) ! b)"
      using inv i by (auto simp: map_inv_def remove_at_nth remove_at_length)
  qed (use inv i in \<open>auto simp: map_inv_def remove_at_length\<close>)
  obtain ks k0 ks2 where ks: "keys m = ks @ k0 # ks2" "length ks = i"
    using id_take_nth_drop [OF i(1)] i(1) by (metis length_take min.absorb2 less_imp_le_nat)
  obtain vs v0 vs2 where vs: "vals m = vs @ v0 # vs2" "length vs = i"
    using id_take_nth_drop [of i "vals m"] i(1) len by (metis length_take min.absorb2 less_imp_le_nat)
  have l2: "length ks2 = length vs2" using ks vs len by auto
  have k0: "key_eq ?kk k0 k" using i ks by (simp add: nth_append)
  have distinct_k0: "\<not> key_eq ?kk x k0" if "x \<in> set ks \<union> set ks2" for x
  proof -
    from that consider j where "j < i" "x = keys m ! j" | j where "i < j" "j < length (keys m)" "x = keys m ! j"
    proof
      assume "x \<in> set ks"
      then obtain j where "j < length ks" "x = ks ! j" by (auto simp: in_set_conv_nth)
      then show ?thesis using that(1) [of j] ks by (simp add: nth_append)
    next
      assume "x \<in> set ks2"
      then obtain j where "j < length ks2" "x = ks2 ! j" by (auto simp: in_set_conv_nth)
      then show ?thesis using that(2) [of "Suc (i + j)"] ks by (simp add: nth_append)
    qed
    then have "\<not> key_eq ?kk x (keys m ! i)"
    proof cases
      case 1
      then show ?thesis using inv i(1) by (simp add: map_inv_def)
    next
      case 2
      then show ?thesis using inv key_eq_sym by (metis map_inv_def)
    qed
    then show ?thesis using ks by (simp add: nth_append)
  qed
  have g': "wo_map_get m' k' = map_option snd (find (\<lambda>p. key_eq ?kk (fst p) k') (zip (ks @ ks2) (vs @ vs2)))"
    using wo_map_get_zip [of m' k'] inv' ks vs by (simp add: map_inv_def m' remove_at_split)
  have g: "wo_map_get m k' = map_option snd (find (\<lambda>p. key_eq ?kk (fst p) k') (zip (ks @ k0 # ks2) (vs @ v0 # vs2)))"
    using wo_map_get_zip [of m k'] len ks vs by simp
  show ?thesis
  proof (cases "key_eq ?kk k k'")
    case True
    then have "\<not> key_eq ?kk x k'" if "x \<in> set ks \<union> set ks2" for x
      using distinct_k0 [OF that] k0 by (metis key_eq_sym key_eq_trans)
    then have "find (\<lambda>p. key_eq ?kk (fst p) k') (zip (ks @ ks2) (vs @ vs2)) = None"
      by (auto simp: find_None_iff dest!: set_zip_leftD)
    then show ?thesis using g' True inv' Some m' by (simp add: wo_map_has_def)
  next
    case False
    then have "\<not> key_eq ?kk k0 k'" using k0 by (metis key_eq_sym key_eq_trans)
    then show ?thesis using g g' False inv' Some m' ks vs by (simp add: wo_map_has_def find_append split: option.split)
  qed
qed

end
