(* ===== verification/BuiltinProps.thy ===== *)
theory BuiltinProps
  imports TextFacts Base64 MultiFacts
begin

text \<open>
  The properties of the text, base 64 and container builtins.
\<close>

section \<open>Text\<close>

text \<open>C30: Splitting a text at a non-empty separator and joining the pieces with it gives the text back, and no
  piece contains the separator. The lengths of the text and of the separator together must be below
  \<open>2 ^ 32\<close>: beyond that a position can wrap, and the search goes on behind the text (\<open>next_sep_overruns\<close>).\<close>

theorem split_join:
  assumes "\<forall>s. mem s" and "sep \<noteq> []" and "length t + length sep < 2 ^ 32"
  shows "\<exists>m. b_split mem (VStr t) (VStr sep) = Good m \<and> elem_kind m = KText \<and>
    (\<forall>p\<in>set (items m). \<exists>s. p = VStr s \<and> (\<forall>i. \<not> occurrence s sep i)) \<and>
    b_join mem (Some m) (VStr sep) = Good (VStr t)"
proof -
  have "wo_multi_new mem KText = Some \<lparr>elem_kind = KText, items = [], mcap = 0\<rparr>" using assms(1) by (simp add: wo_multi_new_def)
  then have b: "b_split mem (VStr t) (VStr sep) = text_list mem (pieces sep t)"
    using split_loop_pieces [OF assms(3,2), of 0] assms(2) by (simp add: b_split_def text_list_def)
  obtain m where m: "text_list mem (pieces sep t) = Good m" "items m = map VStr (pieces sep t)" "elem_kind m = KText"
    using text_list_ok [OF assms(1)] by blast
  have "map elem_text (map VStr ps) = ps" for ps by (simp add: elem_text_def o_def)
  then have "b_join mem (Some m) (VStr sep) = Good (VStr t)"
    using assms m by (simp add: b_join_def join_split)
  then show ?thesis using m b split_pieces [OF assms(2), of _ t] by auto
qed

theorem split_join_witness:
  "\<exists>m. b_split (\<lambda>_. True) (VStr [97, 44, 98, 44]) (VStr [44]) = Good m \<and> elem_kind m = KText \<and>
    (\<forall>p\<in>set (items m). \<exists>s. p = VStr s \<and> (\<forall>i. \<not> occurrence s [44] i)) \<and>
    b_join (\<lambda>_. True) (Some m) (VStr [44]) = Good (VStr [97, 44, 98, 44])"
  by (rule split_join) simp_all

text \<open>\<open>INDEX_OF\<close> and \<open>LAST_INDEX_OF\<close> answer the first and the last position at which the needle occurs,
  and -1 exactly when there is none.\<close>

theorem index_of_spec:
  "\<exists>i. b_index_of up (VStr s) (VStr n) = Good (VWord (word_of_int i)) \<and>
    (if i = - 1 then \<forall>k. \<not> occurrence s n k
     else 0 \<le> i \<and> occurrence s n (nat i) \<and>
       (\<forall>k. occurrence s n k \<longrightarrow> (if up then nat i \<le> k else k \<le> nat i)))"
proof (rule exI [of _ "str_find s n up"], intro conjI)
  show "b_index_of up (VStr s) (VStr n) = Good (VWord (word_of_int (str_find s n up)))" by (simp add: b_index_of_def)
  show "if str_find s n up = - 1 then \<forall>k. \<not> occurrence s n k
     else 0 \<le> str_find s n up \<and> occurrence s n (nat (str_find s n up)) \<and>
       (\<forall>k. occurrence s n k \<longrightarrow> (if up then nat (str_find s n up) \<le> k else k \<le> nat (str_find s n up)))"
  proof (cases "str_find s n up = - 1")
    case True
    then show ?thesis using str_find_spec [of s n up] by simp
  next
    case False
    then obtain j where j: "str_find s n up = int j" by (auto simp: str_find_def Let_def split: option.splits if_splits)
    then show ?thesis using str_find_spec [of s n up] by (metis False nat_int of_nat_0_le_iff)
  qed
qed

theorem index_of_spec_witness:
  "\<exists>i. b_index_of False (VStr [97, 98, 97]) (VStr [97]) = Good (VWord (word_of_int i)) \<and>
    (if i = - 1 then \<forall>k. \<not> occurrence [97, 98, 97] [97] k
     else 0 \<le> i \<and> occurrence [97, 98, 97] [97] (nat i) \<and>
       (\<forall>k. occurrence [97, 98, 97] [97] k \<longrightarrow> (if False then nat i \<le> k else k \<le> nat i)))"
  by (rule index_of_spec)

text \<open>C34: The decimal text of a number is read back as that number, but for the least one: reading its text
  overflows the accumulator.\<close>

theorem int_text_roundtrip:
  assumes "mem AVmStr"
  shows "\<exists>s. b_int_to_text mem w = Good (VStr s) \<and> s \<noteq> [] \<and>
    b_parse_int (VStr s) = (if w = 0x8000000000000000 then Lost else Good (VWord w))"
proof -
  have b: "- (2 ^ 63) \<le> sint w" "sint w < 2 ^ 63" using sint_ge [of w] sint_lt [of w] by simp_all
  have m: "sint w = - (2 ^ 63) \<longleftrightarrow> w = 0x8000000000000000"
  proof
    assume "sint w = - (2 ^ 63)"
    then have "word_of_int (sint w) = (word_of_int (- (2 ^ 63)) :: u64)" by simp
    then show "w = 0x8000000000000000" by simp
  next
    assume "w = 0x8000000000000000"
    then show "sint w = - (2 ^ 63)" by simp
  qed
  have "int_text (sint w) \<noteq> []" using dec_digits_shape by (auto simp: int_text_def)
  then show ?thesis using assms parse_int_text [OF b] m
    by (auto simp: b_int_to_text_def b_parse_int_def new_text_def)
qed

theorem int_text_roundtrip_witness:
  "\<exists>s. b_int_to_text (\<lambda>_. True) 0x8000000000000000 = Good (VStr s) \<and> s \<noteq> [] \<and>
    b_parse_int (VStr s) = (if (0x8000000000000000 :: u64) = 0x8000000000000000 then Lost else Good (VWord 0x8000000000000000))"
  by (rule int_text_roundtrip) simp

text \<open>C35: \<open>SUBSTR\<close> cuts out what the clamped start and length say, and agrees with \<open>BYTES_SLICE\<close>, unless the sum of the
  clamped start and the requested length passes the greatest 64-bit number, when the code overflows.\<close>

theorem substr_clamps:
  assumes "mem AVmStr" and "length s < 2 ^ 32"
  shows "let start = min (max 0 (sint a)) (int (length s)); want = max 0 (sint b) in
      b_substr mem (VStr s) a b =
        (if 2 ^ 63 \<le> start + want then Lost else Good (VStr (take (nat want) (drop (nat start) s)))) \<and>
      b_bytes_slice mem (VBytes s) a b = Good (VBytes (take (nat want) (drop (nat start) s)))"
proof -
  define start where "start = min (max 0 (sint a)) (int (length s))"
  define want where "want = max 0 (sint b)"
  have e: "(let x = (if sint a < 0 then 0 else sint a) in if int (length s) < x then int (length s) else x) = start"
    "(if sint b < 0 then 0 else sint b) = want"
    "(let x = (if sint b < 0 then 0 else sint b) in if k < x then k else x) = min want k" for k
    by (auto simp: start_def want_def Let_def)
  have s: "0 \<le> start" "start \<le> int (length s)" "0 \<le> want" by (auto simp: start_def want_def)
  have t: "take (nat k) (drop (nat start) s) = take (nat want) (drop (nat start) s)"
    if "k = min want (int (length s) - start)" for k
  proof (cases "want \<le> int (length s) - start")
    case False
    then have "length (drop (nat start) s) \<le> nat k" "length (drop (nat start) s) \<le> nat want" using that s by auto
    then show ?thesis by simp
  qed (use that in simp)
  have b: "b_bytes_slice mem (VBytes s) a b = Good (VBytes (take (nat want) (drop (nat start) s)))"
    using assms(1) t unfolding b_bytes_slice_def bytes_check.simps on_good.simps e Let_def [of "int (length s)"] Let_def [of start] Let_def [of "min want k" for k]
    by (simp add: new_bytes_def)
  have k: "(if int (length s) < start + want then int (length s) - start else want) = min want (int (length s) - start)"
    by auto
  have "b_substr mem (VStr s) a b =
      (if 2 ^ 63 \<le> start + want then Lost else Good (VStr (take (nat want) (drop (nat start) s))))"
    using assms(1) t unfolding b_substr_def text_check.simps on_good.simps e Let_def [of "int (length s)"] Let_def [of start] Let_def [of want] k
    by (simp add: new_text_def)
  with b show ?thesis by (simp add: start_def want_def)
qed

theorem substr_clamps_witness:
  "let start = min (max 0 (sint (1 :: u64))) (int (length [97, 98 :: u8])); want = max 0 (sint (0x7FFFFFFFFFFFFFFF :: u64)) in
      b_substr (\<lambda>_. True) (VStr [97, 98]) 1 0x7FFFFFFFFFFFFFFF =
        (if 2 ^ 63 \<le> start + want then Lost else Good (VStr (take (nat want) (drop (nat start) [97, 98])))) \<and>
      b_bytes_slice (\<lambda>_. True) (VBytes [97, 98]) 1 0x7FFFFFFFFFFFFFFF =
        Good (VBytes (take (nat want) (drop (nat start) [97, 98])))"
  by (rule substr_clamps) simp_all

section \<open>Base 64\<close>

text \<open>C33: Encoding any bytes the encoder's size can hold gives a text of four characters for every three bytes,
  and decoding it gives the bytes back.\<close>

theorem base64_roundtrip:
  assumes "mem AVmStr" and "length s \<le> 0xBFFFFFFD"
  shows "\<exists>t. b_base64_encode mem (VBytes s) = Good (VStr t) \<and> length t = (length s + 2) div 3 * 4 \<and>
    b_base64_decode mem (VStr t) = Good (VBytes s)"
proof -
  have "length (b64_enc s) mod 4 = 0" by (simp add: b64_enc_length)
  then have "wo_base64_to_bytes mem (b64_enc s) = (0, VBytes s)"
    using assms(1) by (simp add: wo_base64_to_bytes_def b64_enc_pad b64_loop_enc)
  then show ?thesis using assms b64_size_ok [OF assms(2)]
    by (simp add: b_base64_encode_def b_base64_decode_def b64_enc_length)
qed

theorem base64_roundtrip_witness:
  "\<exists>t. b_base64_encode (\<lambda>_. True) (VBytes [0, 255, 16, 7]) = Good (VStr t) \<and> length t = (length [0, 255, 16, 7 :: u8] + 2) div 3 * 4 \<and>
    b_base64_decode (\<lambda>_. True) (VStr t) = Good (VBytes [0, 255, 16, 7])"
  by (rule base64_roundtrip) simp_all

text \<open>At the two lengths above that bound which the encoder's guard still lets through, its 32-bit size is
  zero and the block is overrun; the next length is refused.\<close>

theorem base64_guard_off:
  assumes "mem AVmStr" and "0xBFFFFFFD < length s"
  shows "b_base64_encode mem (VBytes s) = (if length s \<le> 0xBFFFFFFF then Lost else Bad WO_T_OOM)"
proof (cases "length s \<le> 0xBFFFFFFF")
  case False
  then show ?thesis by (simp add: b_base64_encode_def)
next
  case True
  then have "length s = 0xBFFFFFFE \<or> length s = 0xBFFFFFFF" using assms(2) by auto
  then have "b64_size (length s) = 0" by (auto simp: b64_size_def)
  moreover have "b64_enc s \<noteq> []" using assms(2) b64_enc_empty [of s] by auto
  ultimately show ?thesis using True assms(1) by (simp add: b_base64_encode_def)
qed

theorem base64_guard_off_witness:
  "b_base64_encode (\<lambda>_. True) (VBytes (replicate 0xBFFFFFFE 0)) =
    (if length (replicate 0xBFFFFFFE (0 :: u8)) \<le> 0xBFFFFFFF then Lost else Bad WO_T_OOM)"
  by (rule base64_guard_off) (rule TrueI, unfold length_replicate, simp)

section \<open>Containers\<close>

text \<open>C31: \<open>SORT\<close> permutes the elements into the order of \<open>elem_cmp\<close>, texts by content and all others as
  signed numbers, and elements that compare equal keep their order.\<close>

theorem sort_sorts:
  "\<exists>m'. b_sort addr (Some m) = Good m' \<and> mset (items m') = mset (items m) \<and>
    sorted_wrt (\<lambda>a b. elem_cmp addr (elem_kind m) a b \<le> 0) (items m') \<and>
    (\<forall>k. filter (\<lambda>x. elem_cmp addr (elem_kind m) x k = 0) (items m') = filter (\<lambda>x. elem_cmp addr (elem_kind m) x k = 0) (items m))"
  by (simp add: b_sort_def on_recv_def elem.sort_loop_sorts)

text \<open>C32: \<open>MAP_REMOVE\<close> takes exactly the entry of the key out of a well-formed map: it answers whether there was one,
  keeps the map well formed, and every other lookup is as before.\<close>

theorem map_remove_spec:
  assumes "map_inv m"
  shows "\<exists>m' dropped. b_map_remove (Some m) k = Good (vm_bool (wo_map_has m k), m', dropped) \<and> map_inv m' \<and>
    (\<forall>k'. wo_map_get m' k' = (if key_eq (key_kind m) k k' then None else wo_map_get m k')) \<and>
    length (keys m) = length (keys m') + (if wo_map_has m k then 1 else 0)"
proof -
  obtain found m' dr where r: "b_map_remove (Some m) k = Good (found, m', dr)"
    by (cases "remove_find (key_kind m) (keys m) k 0") (auto simp: b_map_remove_def on_recv_def)
  have "length (keys m) = length (keys m') + (if wo_map_has m k then 1 else 0)"
    using r by (auto simp: b_map_remove_def on_recv_def remove_find_eq wo_map_has_def map_find_def [symmetric] remove_at_length
        dest: map_find_Some split: option.splits)
  then show ?thesis using map_remove_ok [OF assms r] r by blast
qed

theorem map_remove_spec_witness:
  "\<exists>m' dropped. b_map_remove (Some \<lparr>key_kind = KText, val_kind = KScalar, keys = [VStr [1], VStr [2]], vals = [VWord 1, VWord 2], pcap = 8\<rparr>) (VStr [1])
      = Good (vm_bool (wo_map_has \<lparr>key_kind = KText, val_kind = KScalar, keys = [VStr [1], VStr [2]], vals = [VWord 1, VWord 2], pcap = 8\<rparr> (VStr [1])), m', dropped) \<and> map_inv m' \<and>
    (\<forall>k'. wo_map_get m' k' = (if key_eq KText (VStr [1]) k' then None
       else wo_map_get \<lparr>key_kind = KText, val_kind = KScalar, keys = [VStr [1], VStr [2]], vals = [VWord 1, VWord 2], pcap = 8\<rparr> k')) \<and>
    length [VStr [1], VStr [2]] = length (keys m') +
      (if wo_map_has \<lparr>key_kind = KText, val_kind = KScalar, keys = [VStr [1], VStr [2]], vals = [VWord 1, VWord 2], pcap = 8\<rparr> (VStr [1]) then 1 else 0)"
proof -
  have "map_inv \<lparr>key_kind = KText, val_kind = KScalar, keys = [VStr [1], VStr [2]], vals = [VWord 1, VWord 2], pcap = 8\<rparr>"
    by (auto simp: map_inv_def less_Suc_eq key_eq_def key_norm_def)
  from map_remove_spec [OF this, of "VStr [1]"] show ?thesis by simp
qed

end
