(* ===== verification/Json.thy ===== *)
theory Json
  imports TextOps Base64 MultiOps
begin

text \<open>
  \<open>json.encode\<close> and \<open>json.decode\<close> (\<open>runtime/src/json.c\<close>), driven by the class table of the module.

  The decoder works on the bytes that are left (from \<open>p\<close> to \<open>end\<close>). Its functions call each other along
  the nesting of the input, so they take fuel; \<open>JsonFuel\<close> shows that what \<open>wo_builtin_json\<close> is given
  here is always enough. \<open>snprintf\<close> of a Float in a format and a precision, \<open>strtod\<close> and the address
  of an object are parameters.
\<close>

datatype pfmt = FmtG | FmtE | FmtF

record jio =
  j_mod :: wo_module
  j_printf :: "pfmt \<Rightarrow> nat \<Rightarrow> u64 \<Rightarrow> bytes"
  j_strtod :: "bytes \<Rightarrow> u64"
  j_addr :: "vmval \<Rightarrow> u64"

definition WOB_FIELD_JSON_RAW :: u32 where "WOB_FIELD_JSON_RAW = 0xFFFFFFFE"
definition WOB_FIELD_NIL_SCALAR :: u32 where "WOB_FIELD_NIL_SCALAR = 0xFFFFFFFD"
definition WOB_FIELD_BOOL :: u32 where "WOB_FIELD_BOOL = 0xFFFFFFFC"
definition WOB_FIELD_NIL_BOOL :: u32 where "WOB_FIELD_NIL_BOOL = 0xFFFFFFFB"
definition WOB_FIELD_NIL_FLOAT :: u32 where "WOB_FIELD_NIL_FLOAT = 0xFFFFFFFA"
definition WO_JSON_KIND_RAW :: u8 where "WO_JSON_KIND_RAW = 255"

text \<open>The fields of a class: name (none: not encoded, never matched), kind, field class, element kinds.\<close>

record jfield =
  jf_name :: "bytes option"
  jf_kind :: kind
  jf_class :: u32
  jf_elem :: u32

definition meta_at :: "u32 list option \<Rightarrow> u32 \<Rightarrow> nat \<Rightarrow> u32" where
  "meta_at xs d i = (case xs of None \<Rightarrow> d | Some ys \<Rightarrow> ys ! i)"

definition jname :: "wo_module \<Rightarrow> nat \<Rightarrow> bytes option" where
  "jname m nm =
     (if nm = NO_METHOD \<or> length (kconsts m) \<le> nm then None
      else (case kconsts m ! nm of CText s \<Rightarrow> Some s | _ \<Rightarrow> None))"

definition jfields_of :: "wo_module \<Rightarrow> nat \<Rightarrow> jfield list" where
  "jfields_of m cid =
     (let c = mclasses m ! cid in
      map (\<lambda>i. \<lparr>jf_name = jname m (field_names c ! i), jf_kind = kinds c ! i,
                jf_class = meta_at (field_class c) WOB_NONE i, jf_elem = meta_at (field_elem c) 0 i\<rparr>)
        [0..<length (kinds c)])"

section \<open>Encoding\<close>

definition hex_digit :: "nat \<Rightarrow> u8" where
  "hex_digit d = (if d < 10 then of_nat (48 + d) else of_nat (87 + d))"

definition esc_byte :: "u8 \<Rightarrow> bytes" where
  "esc_byte c =
     (if c = 34 then [92, 34] else if c = 92 then [92, 92] else if c = 10 then [92, 110]
      else if c = 13 then [92, 114] else if c = 9 then [92, 116] else if c = 8 then [92, 98]
      else if c = 12 then [92, 102]
      else if c < 32 then [92, 117, 48, 48, hex_digit (unat c div 16), hex_digit (unat c mod 16)]
      else [c])"

definition jb_text :: "bytes \<Rightarrow> bytes" where
  "jb_text s = 34 # concat (map esc_byte s) @ [34]"

definition j_null :: bytes where "j_null = [110, 117, 108, 108]"
definition j_true :: bytes where "j_true = [116, 114, 117, 101]"
definition j_false :: bytes where "j_false = [102, 97, 108, 115, 101]"

text \<open>Infinities and NaNs have all ones in the exponent.\<close>

definition f64_finite :: "u64 \<Rightarrow> bool" where
  "f64_finite w \<longleftrightarrow> w AND 0x7FF0000000000000 \<noteq> 0x7FF0000000000000"

text \<open>\<open>wo_float_text\<close>: the fewest significant digits that are read back as the same bits; then fixed notation
  with at least one decimal where the exponent is small, else the exponent.\<close>

definition WO_FLOAT_TEXT_CAP :: nat where "WO_FLOAT_TEXT_CAP = 32"

definition float_sig :: "jio \<Rightarrow> u64 \<Rightarrow> nat" where
  "float_sig E w =
     (case List.find (\<lambda>p. let t = j_printf E FmtG p w in t \<noteq> [] \<and> length t < WO_FLOAT_TEXT_CAP \<and> j_strtod E t = w) [1..<18] of
        None \<Rightarrow> 17 | Some p \<Rightarrow> p)"

text \<open>\<open>strchr\<close> for the \<open>e\<close> and \<open>strtol\<close> behind it.\<close>

definition digits_int :: "bytes \<Rightarrow> int" where
  "digits_int s = foldl (\<lambda>a c. a * 10 + (uint c - 48)) 0 (takeWhile is_digit s)"

definition text_exp10 :: "bytes \<Rightarrow> int" where
  "text_exp10 t =
     (case dropWhile (\<lambda>c. c \<noteq> 101) t of
        [] \<Rightarrow> 0
      | e # r \<Rightarrow>
          (case r of
             [] \<Rightarrow> 0
           | c # ds \<Rightarrow> if c = 45 then - digits_int ds else if c = 43 then digits_int ds else digits_int r))"

definition wo_float_text :: "jio \<Rightarrow> u64 \<Rightarrow> bytes" where
  "wo_float_text E w =
     (if f64_is_nan w then [110, 97, 110]
      else if w = 0x7FF0000000000000 then [105, 110, 102]
      else if w = 0xFFF0000000000000 then [45, 105, 110, 102]
      else
        let sig = float_sig E w;
            x = text_exp10 (take (WO_FLOAT_TEXT_CAP - 1) (j_printf E FmtE (sig - 1) w));
            t = (if - 6 \<le> x \<and> x < 21
                 then j_printf E FmtF (nat (let d = int sig - 1 - x in if d < 1 then 1 else d)) w
                 else j_printf E FmtE (sig - 1) w)
        in if WO_FLOAT_TEXT_CAP \<le> length t then take (WO_FLOAT_TEXT_CAP - 1) (j_printf E FmtG 17 w) else t)"

lemma float_text_short: "length (wo_float_text E w) < WO_FLOAT_TEXT_CAP"
  by (simp add: wo_float_text_def Let_def WO_FLOAT_TEXT_CAP_def min_less_iff_disj)

definition enc_scalar :: "u64 \<Rightarrow> u32 \<Rightarrow> bytes" where
  "enc_scalar w fc =
     (if (fc = WOB_FIELD_NIL_SCALAR \<or> fc = WOB_FIELD_NIL_BOOL) \<and> w = WO_NIL_SCALAR then j_null
      else if fc = WOB_FIELD_BOOL \<or> fc = WOB_FIELD_NIL_BOOL then (if w \<noteq> 0 then j_true else j_false)
      else int_text (sint w))"

definition enc_float :: "jio \<Rightarrow> u64 \<Rightarrow> u32 \<Rightarrow> bytes" where
  "enc_float E w fc =
     (if fc = WOB_FIELD_NIL_FLOAT \<and> w = WO_NIL_FLOAT then j_null
      else if \<not> f64_finite w then j_null else wo_float_text E w)"

definition enc_key :: "jio \<Rightarrow> kind \<Rightarrow> vmval \<Rightarrow> bytes" where
  "enc_key E kk k =
     (if kk = KText \<and> \<not> vm_null k then jb_text (elem_text k)
      else 34 # int_text (sint (elem_word (j_addr E) k)) @ [34])"

text \<open>Lists: a separator in front of all but the first. A word of a heap kind is null or an object of that kind.\<close>

function (sequential) enc_value :: "jio \<Rightarrow> vmval \<Rightarrow> kind \<Rightarrow> u32 \<Rightarrow> bytes"
and enc_items :: "jio \<Rightarrow> bool \<Rightarrow> vmval list \<Rightarrow> kind \<Rightarrow> u32 \<Rightarrow> bytes"
and enc_pairs :: "jio \<Rightarrow> bool \<Rightarrow> vmval list \<Rightarrow> vmval list \<Rightarrow> kind \<Rightarrow> kind \<Rightarrow> u32 \<Rightarrow> bytes"
and enc_fields :: "jio \<Rightarrow> bool \<Rightarrow> vmval list \<Rightarrow> jfield list \<Rightarrow> bytes" where
  "enc_value E v kd fc =
     (if vm_null v \<and> kd \<noteq> KScalar \<and> kd \<noteq> KFloat then j_null
      else
        (case kd of
           KScalar \<Rightarrow> enc_scalar (elem_word (j_addr E) v) fc
         | KFloat \<Rightarrow> enc_float E (elem_word (j_addr E) v) fc
         | KBytes \<Rightarrow> 34 # b64_enc (elem_text v) @ [34]
         | KText \<Rightarrow> if fc = WOB_FIELD_JSON_RAW then elem_text v else jb_text (elem_text v)
         | KMulti \<Rightarrow> (case v of VMulti ek xs \<Rightarrow> 91 # enc_items E True xs ek fc @ [93] | _ \<Rightarrow> j_null)
         | KMap \<Rightarrow> (case v of VMap kk vk ks vs \<Rightarrow> 123 # enc_pairs E True ks vs kk vk fc @ [125] | _ \<Rightarrow> j_null)
         | _ \<Rightarrow>
             (case v of
                VStr s \<Rightarrow> jb_text s
              | VMulti ek xs \<Rightarrow> 91 # enc_items E True xs ek fc @ [93]
              | VMap kk vk ks vs \<Rightarrow> 123 # enc_pairs E True ks vs kk vk fc @ [125]
              | VObj cid fs \<Rightarrow>
                  if cid < length (mclasses (j_mod E))
                  then 123 # enc_fields E True fs (jfields_of (j_mod E) cid) @ [125] else j_null
              | _ \<Rightarrow> j_null)))"
| "enc_items E first [] ek fc = []"
| "enc_items E first (x # xs) ek fc = (if first then [] else [44]) @ enc_value E x ek fc @ enc_items E False xs ek fc"
| "enc_pairs E first (k # ks) (v # vs) kk vk fc =
     (if first then [] else [44]) @ enc_key E kk k @ 58 # enc_value E v vk fc @ enc_pairs E False ks vs kk vk fc"
| "enc_pairs E first _ _ kk vk fc = []"
| "enc_fields E first (v # vs) (f # fs) =
     (case jf_name f of
        None \<Rightarrow> enc_fields E first vs fs
      | Some nm \<Rightarrow>
          (if first then [] else [44]) @ jb_text nm @ 58 # enc_value E v (jf_kind f) (jf_class f) @ enc_fields E False vs fs)"
| "enc_fields E first _ _ = []"
  by pat_completeness auto

termination
  by (relation "measure (case_sum (case_sum (\<lambda>(E, v, kd, fc). size v) (\<lambda>(E, first, xs, ek, fc). size_list size xs))
    (case_sum (\<lambda>(E, first, ks, vs, kk, vk, fc). size_list size vs) (\<lambda>(E, first, vs, fs). size_list size vs)))") auto

declare enc_value.simps [simp del]

text \<open>The kind of the value is a register; \<open>WO_JSON_KIND_RAW\<close> says that it is JSON already. \<open>grown\<close>: whether the buffer could grow.
  The length of the text is cut to 32 bits.\<close>

definition b_json_encode :: "jio \<Rightarrow> mem \<Rightarrow> bool \<Rightarrow> vmval \<Rightarrow> kind option \<Rightarrow> vmval chk" where
  "b_json_encode E mem grown v ko =
     (let out = (case ko of None \<Rightarrow> enc_value E v KText WOB_FIELD_JSON_RAW | Some kd \<Rightarrow> enc_value E v kd WOB_NONE)
      in if \<not> grown then Bad WO_T_OOM else new_text mem (take (length out mod 2 ^ 32) out))"

section \<open>Skipping\<close>

definition jskip_ws :: "bytes \<Rightarrow> bytes" where "jskip_ws s = dropWhile ws_byte s"

text \<open>The rest of a string: up to its closing quote, or to the end.\<close>

fun skip_str :: "bytes \<Rightarrow> bytes" where
  "skip_str [] = []"
| "skip_str [c] = (if c = 34 then [c] else [])"
| "skip_str (c # d # s) = (if c = 34 then c # d # s else if c = 92 then skip_str s else skip_str (d # s))"

lemma skip_str_length: "length (skip_str s) \<le> length s"
  by (induction s rule: skip_str.induct) auto

function skip_nest :: "nat \<Rightarrow> bytes \<Rightarrow> bytes option" where
  "skip_nest depth [] = None"
| "skip_nest depth (d # s) =
     (if d = 34 then skip_nest depth (drop 1 (skip_str s))
      else if d = 123 \<or> d = 91 then skip_nest (depth + 1) s
      else if d = 125 \<or> d = 93 then (if depth - 1 = 0 then Some s else skip_nest (depth - 1) s)
      else skip_nest depth s)"
  by pat_completeness auto

termination
  by (relation "measure (\<lambda>(depth, s). length s)") (auto simp: le_imp_less_Suc diff_le_self [THEN le_trans] skip_str_length
      intro: le_imp_less_Suc [OF le_trans [OF diff_le_self skip_str_length]])

definition jdelim :: "u8 \<Rightarrow> bool" where
  "jdelim c \<longleftrightarrow> c = 44 \<or> c = 125 \<or> c = 93 \<or> c = 32 \<or> c = 10 \<or> c = 9 \<or> c = 13"

definition jskip_value :: "bytes \<Rightarrow> bytes option" where
  "jskip_value s0 =
     (case jskip_ws s0 of
        [] \<Rightarrow> None
      | c # s \<Rightarrow>
          if c = 123 \<or> c = 91 then skip_nest 0 (c # s)
          else if c = 34 then (case skip_str s of [] \<Rightarrow> None | q # r \<Rightarrow> Some r)
          else Some (dropWhile (\<lambda>c. \<not> jdelim c) (c # s)))"

section \<open>Strings and numbers\<close>

definition hex_val :: "u8 \<Rightarrow> nat" where
  "hex_val h =
     (if 48 \<le> h \<and> h \<le> 57 then unat h - 48 else if 97 \<le> h \<and> h \<le> 102 then unat h - 87
      else if 65 \<le> h \<and> h \<le> 70 then unat h - 55 else 0)"

definition hex4 :: "bytes \<Rightarrow> nat" where
  "hex4 s = foldl (\<lambda>cp h. cp * 16 + hex_val h) 0 (take 4 s)"

definition utf8_bmp :: "nat \<Rightarrow> bytes" where
  "utf8_bmp cp =
     (if cp < 0x80 then [of_nat cp]
      else if cp < 0x800 then [of_nat (0xC0 + cp div 64), of_nat (0x80 + cp mod 64)]
      else [of_nat (0xE0 + cp div 4096), of_nat (0x80 + cp div 64 mod 64), of_nat (0x80 + cp mod 64)])"

definition esc_val :: "u8 \<Rightarrow> u8" where
  "esc_val e = (if e = 110 then 10 else if e = 116 then 9 else if e = 114 then 13 else if e = 98 then 8 else if e = 102 then 12 else e)"

text \<open>The decoded bytes, and the rest from the closing quote on.\<close>

function str_body :: "bytes \<Rightarrow> bytes \<times> bytes" where
  "str_body [] = ([], [])"
| "str_body (c # s) =
     (if c = 34 then ([], c # s)
      else if c \<noteq> 92 then (case str_body s of (b, r) \<Rightarrow> (c # b, r))
      else
        (case s of
           [] \<Rightarrow> ([], [])
         | e # s1 \<Rightarrow>
             if e = 117 then (case str_body (drop 4 s1) of (b, r) \<Rightarrow> (utf8_bmp (hex4 s1) @ b, r))
             else (case str_body s1 of (b, r) \<Rightarrow> (esc_val e # b, r))))"
  by pat_completeness auto

termination
  by (relation "measure length") auto

declare str_body.simps(2) [simp del]

lemma str_body_simps [simp]:
  "str_body (34 # s) = ([], 34 # s)"
  "c \<noteq> 34 \<Longrightarrow> c \<noteq> 92 \<Longrightarrow> str_body (c # s) = (c # fst (str_body s), snd (str_body s))"
  "str_body [92] = ([], [])"
  "str_body (92 # 117 # s) = (utf8_bmp (hex4 s) @ fst (str_body (drop 4 s)), snd (str_body (drop 4 s)))"
  "e \<noteq> 117 \<Longrightarrow> str_body (92 # e # s) = (esc_val e # fst (str_body s), snd (str_body s))"
  by (subst str_body.simps(2), simp split: prod.split)+

definition jparse_string :: "mem \<Rightarrow> bytes \<Rightarrow> (bytes \<times> bytes) option" where
  "jparse_string mem s =
     (case s of
        [] \<Rightarrow> None
      | c # s1 \<Rightarrow>
          if c \<noteq> 34 \<or> \<not> mem AVmStr then None
          else (case str_body s1 of (b, []) \<Rightarrow> None | (b, q # r) \<Rightarrow> Some (b, r)))"

text \<open>A result, malformed input (or no memory), what the code does not define, no fuel.\<close>

datatype 'a jres = JOk 'a bytes | JBad | JUndef | JFuel

definition on_jok :: "'a jres \<Rightarrow> ('a \<Rightarrow> bytes \<Rightarrow> 'b jres) \<Rightarrow> 'b jres" where
  "on_jok r f = (case r of JOk a s \<Rightarrow> f a s | JBad \<Rightarrow> JBad | JUndef \<Rightarrow> JUndef | JFuel \<Rightarrow> JFuel)"

definition jsign :: "bytes \<Rightarrow> bytes" where
  "jsign s = (case s of c # r \<Rightarrow> if c = 45 \<or> c = 43 then r else s | [] \<Rightarrow> [])"

text \<open>The integer branch; the accumulator is signed and of 64 bits.\<close>

definition jint :: "kind \<Rightarrow> bytes \<Rightarrow> vmval jres" where
  "jint kd s =
     (case parse_digits (jsign s) 0 0 of
        None \<Rightarrow> JUndef
      | Some (acc, n) \<Rightarrow>
          (let r = dropWhile is_digit (jsign s) in
           if n = 0 then JBad
           else if r \<noteq> [] \<and> (hd r = 46 \<or> hd r = 101 \<or> hd r = 69) then JBad
           else if kd = KScalar then JOk (VWord (word_of_int (if s \<noteq> [] \<and> hd s = 45 then - acc else acc))) r
           else JOk VNull r))"

text \<open>The Float branch: where the number ends.\<close>

definition jexp :: "bytes \<Rightarrow> bytes" where
  "jexp s =
     (case s of
        c # r \<Rightarrow> if c = 101 \<or> c = 69 then (let t = jsign r in if takeWhile is_digit t = [] then s else dropWhile is_digit t) else s
      | [] \<Rightarrow> [])"

definition jfloat_end :: "bytes \<Rightarrow> bytes option" where
  "jfloat_end s =
     (let a = jsign s; b = dropWhile is_digit a;
          c = (case b of x # y \<Rightarrow> if x = 46 then dropWhile is_digit y else b | [] \<Rightarrow> []);
          digits = length (takeWhile is_digit a) + (case b of x # y \<Rightarrow> if x = 46 then length (takeWhile is_digit y) else 0 | [] \<Rightarrow> 0)
      in if digits = 0 then None else Some (jexp c))"

definition jfloat :: "jio \<Rightarrow> bytes \<Rightarrow> vmval jres" where
  "jfloat E s =
     (case jfloat_end s of
        None \<Rightarrow> JBad
      | Some r \<Rightarrow>
          (let n = length s - length r in
           if 64 \<le> n then JBad else JOk (VWord (j_strtod E (take n s))) r))"

end
