(* ===== verification/JsonDecode.thy ===== *)
theory JsonDecode
  imports Json
begin

text \<open>
  The decoder proper (\<open>jparse_value\<close>, \<open>jparse_object\<close> and \<open>WO_B_JSON_DECODE\<close> of \<open>runtime/src/json.c\<close>), and
  its fuel: a run that is given three units for every byte and three more never ends for want of it, and
  more fuel changes nothing.
\<close>

section \<open>Parse and bind\<close>

text \<open>The zero word, and the nil word of a field, as values of a kind.\<close>

definition zero_of :: "kind \<Rightarrow> vmval" where
  "zero_of kd = (if kd = KScalar \<or> kd = KFloat then VWord 0 else VNull)"

definition nil_of :: "kind \<Rightarrow> u32 \<Rightarrow> vmval" where
  "nil_of kd fc =
     (if fc = WOB_FIELD_NIL_FLOAT then VWord WO_NIL_FLOAT
      else if fc = WOB_FIELD_NIL_SCALAR \<or> fc = WOB_FIELD_NIL_BOOL then VWord WO_NIL_SCALAR
      else zero_of kd)"

definition field_init :: "jfield \<Rightarrow> vmval" where
  "field_init f =
     (if jf_class f = WOB_FIELD_NIL_SCALAR \<or> jf_class f = WOB_FIELD_NIL_BOOL then VWord WO_NIL_SCALAR
      else if jf_class f = WOB_FIELD_NIL_FLOAT then VWord WO_NIL_FLOAT
      else zero_of (jf_kind f))"

text \<open>Which field is this key? The first of that name.\<close>

fun field_find :: "jfield list \<Rightarrow> bytes \<Rightarrow> nat \<Rightarrow> nat option" where
  "field_find [] key i = None"
| "field_find (f # fs) key i = (if jf_name f = Some key then Some i else field_find fs key (Suc i))"

definition elem_kinds :: "u32 \<Rightarrow> kind option \<times> kind option" where
  "elem_kinds fe = (kind_of_byte (ucast (fe AND 0x0F)), kind_of_byte (ucast (drop_bit 4 fe AND 0x0F)))"

text \<open>What is left of the input where \<open>c\<close> is expected, white space skipped.\<close>

definition expect :: "u8 \<Rightarrow> bytes \<Rightarrow> bytes option" where
  "expect c s = (case jskip_ws s of [] \<Rightarrow> None | d # r \<Rightarrow> if d = c then Some r else None)"

definition of_opt :: "'a \<Rightarrow> bytes option \<Rightarrow> 'a jres" where
  "of_opt v r = (case r of None \<Rightarrow> JBad | Some s \<Rightarrow> JOk v s)"

text \<open>Key and colon of an object or a map.\<close>

definition jkey :: "mem \<Rightarrow> bytes \<Rightarrow> (bytes \<times> bytes) option" where
  "jkey mem s =
     (case jparse_string mem (jskip_ws s) of
        None \<Rightarrow> None
      | Some (key, r) \<Rightarrow> (case expect 58 r of None \<Rightarrow> None | Some r1 \<Rightarrow> Some (key, r1)))"

text \<open>After an entry: a comma and the next one, or the closing bracket.\<close>

definition jnext :: "u8 \<Rightarrow> (bytes \<Rightarrow> 'a jres) \<Rightarrow> 'a \<Rightarrow> bytes \<Rightarrow> 'a jres" where
  "jnext close again v s =
     (case expect 44 s of Some r \<Rightarrow> again r | None \<Rightarrow> of_opt v (expect close s))"

text \<open>One level of each function, the calls to the next level being its first arguments.\<close>

definition value_step ::
  "jio \<Rightarrow> mem \<Rightarrow> (nat \<Rightarrow> bytes \<Rightarrow> vmval jres) \<Rightarrow> (u32 \<Rightarrow> wo_map \<Rightarrow> bytes \<Rightarrow> wo_map jres) \<Rightarrow>
   (u32 \<Rightarrow> wo_multi \<Rightarrow> bytes \<Rightarrow> wo_multi jres) \<Rightarrow> kind \<Rightarrow> u32 \<Rightarrow> u32 \<Rightarrow> bytes \<Rightarrow> vmval jres" where
  "value_step E mem obj prs its kd fc fe s0 =
     (case jskip_ws s0 of
        [] \<Rightarrow> JBad
      | c # r \<Rightarrow>
          let s = c # r in
          if fc = WOB_FIELD_JSON_RAW then
            (case jskip_value s of
               None \<Rightarrow> JBad
             | Some t \<Rightarrow> if mem AVmStr then JOk (VStr (take (length s - length t) s)) t else JBad)
          else if c = 110 then of_opt (nil_of kd fc) (jskip_value s)
          else if c = 123 then
            (if (kd = KOwned \<or> kd = KGcref) \<and> unat fc < length (mclasses (j_mod E)) then obj (unat fc) s
             else if kd = KMap then
               (case elem_kinds fe of
                  (Some kk, Some vk) \<Rightarrow>
                    (case wo_map_new mem kk vk of
                       None \<Rightarrow> JBad
                     | Some m \<Rightarrow>
                         (case expect 125 r of
                            Some t \<Rightarrow> JOk (VMap kk vk [] []) t
                          | None \<Rightarrow> on_jok (prs fc m r) (\<lambda>m'. JOk (VMap kk vk (keys m') (vals m')))))
                | _ \<Rightarrow> JUndef)
             else of_opt (zero_of kd) (jskip_value s))
          else if c = 91 then
            (if kd \<noteq> KMulti then of_opt (zero_of kd) (jskip_value s)
             else
               (case fst (elem_kinds fe) of
                  None \<Rightarrow> JUndef
                | Some ek \<Rightarrow>
                    (case wo_multi_new mem ek of
                       None \<Rightarrow> JBad
                     | Some m \<Rightarrow>
                         (case expect 93 r of
                            Some t \<Rightarrow> JOk (VMulti ek []) t
                          | None \<Rightarrow> on_jok (its fc m r) (\<lambda>m'. JOk (VMulti ek (items m')))))))
          else if c = 34 then
            (case jparse_string mem s of
               None \<Rightarrow> JBad
             | Some (b, t) \<Rightarrow>
                 if kd = KText then JOk (VStr b) t
                 else if kd = KBytes then (case wo_base64_to_bytes mem b of (rc, v) \<Rightarrow> JOk (if rc = 0 then v else VNull) t)
                 else JOk (zero_of kd) t)
          else if c = 116 \<or> c = 102 then
            of_opt (if kd = KScalar then VWord (truth (c = 116)) else zero_of kd) (jskip_value s)
          else if kd = KFloat then jfloat E s
          else jint kd s)"

definition object_step ::
  "jio \<Rightarrow> mem \<Rightarrow> (jfield list \<Rightarrow> vmval list \<Rightarrow> bytes \<Rightarrow> vmval list jres) \<Rightarrow> nat \<Rightarrow> bytes \<Rightarrow> vmval jres" where
  "object_step E mem flds cid s =
     (if \<not> mem AVmObj then JBad
      else
        let fs = jfields_of (j_mod E) cid; init = map field_init fs in
        (case expect 123 s of
           None \<Rightarrow> JBad
         | Some r \<Rightarrow>
             (case expect 125 r of
                Some t \<Rightarrow> JOk (VObj cid init) t
              | None \<Rightarrow> on_jok (flds fs init r) (\<lambda>vs. JOk (VObj cid vs)))))"

definition fields_step ::
  "mem \<Rightarrow> (kind \<Rightarrow> u32 \<Rightarrow> u32 \<Rightarrow> bytes \<Rightarrow> vmval jres) \<Rightarrow> (jfield list \<Rightarrow> vmval list \<Rightarrow> bytes \<Rightarrow> vmval list jres) \<Rightarrow>
   jfield list \<Rightarrow> vmval list \<Rightarrow> bytes \<Rightarrow> vmval list jres" where
  "fields_step mem val flds fs vs s =
     (case jkey mem s of
        None \<Rightarrow> JBad
      | Some (key, r) \<Rightarrow>
          on_jok
            (case field_find fs key 0 of
               None \<Rightarrow> of_opt vs (jskip_value r)
             | Some i \<Rightarrow> on_jok (val (jf_kind (fs ! i)) (jf_class (fs ! i)) (jf_elem (fs ! i)) r)
                 (\<lambda>v. JOk (vs[i := v])))
            (\<lambda>vs'. jnext 125 (flds fs vs') vs'))"

definition pairs_step ::
  "mem \<Rightarrow> (kind \<Rightarrow> u32 \<Rightarrow> u32 \<Rightarrow> bytes \<Rightarrow> vmval jres) \<Rightarrow> (u32 \<Rightarrow> wo_map \<Rightarrow> bytes \<Rightarrow> wo_map jres) \<Rightarrow>
   u32 \<Rightarrow> wo_map \<Rightarrow> bytes \<Rightarrow> wo_map jres" where
  "pairs_step mem val prs fc m s =
     (case jkey mem s of
        None \<Rightarrow> JBad
      | Some (key, r) \<Rightarrow>
          on_jok (val (val_kind m) fc 0 r) (\<lambda>v t.
            case wo_map_set mem m (VStr key) v of
              None \<Rightarrow> JBad
            | Some (m', old) \<Rightarrow> jnext 125 (prs fc m') m' t))"

definition items_step ::
  "mem \<Rightarrow> (kind \<Rightarrow> u32 \<Rightarrow> u32 \<Rightarrow> bytes \<Rightarrow> vmval jres) \<Rightarrow> (u32 \<Rightarrow> wo_multi \<Rightarrow> bytes \<Rightarrow> wo_multi jres) \<Rightarrow>
   u32 \<Rightarrow> wo_multi \<Rightarrow> bytes \<Rightarrow> wo_multi jres" where
  "items_step mem val its fc m s =
     on_jok (val (elem_kind m) fc 0 s) (\<lambda>v t.
       case wo_multi_push mem m v of
         None \<Rightarrow> JBad
       | Some m' \<Rightarrow> jnext 93 (its fc m') m' t)"

function jvalue :: "jio \<Rightarrow> mem \<Rightarrow> nat \<Rightarrow> kind \<Rightarrow> u32 \<Rightarrow> u32 \<Rightarrow> bytes \<Rightarrow> vmval jres"
and jobject :: "jio \<Rightarrow> mem \<Rightarrow> nat \<Rightarrow> nat \<Rightarrow> bytes \<Rightarrow> vmval jres"
and jfields :: "jio \<Rightarrow> mem \<Rightarrow> nat \<Rightarrow> jfield list \<Rightarrow> vmval list \<Rightarrow> bytes \<Rightarrow> vmval list jres"
and jpairs :: "jio \<Rightarrow> mem \<Rightarrow> nat \<Rightarrow> u32 \<Rightarrow> wo_map \<Rightarrow> bytes \<Rightarrow> wo_map jres"
and jitems :: "jio \<Rightarrow> mem \<Rightarrow> nat \<Rightarrow> u32 \<Rightarrow> wo_multi \<Rightarrow> bytes \<Rightarrow> wo_multi jres" where
  "jvalue E mem 0 kd fc fe s = JFuel"
| "jvalue E mem (Suc n) kd fc fe s =
     value_step E mem (jobject E mem n) (jpairs E mem n) (jitems E mem n) kd fc fe s"
| "jobject E mem 0 cid s = JFuel"
| "jobject E mem (Suc n) cid s = object_step E mem (jfields E mem n) cid s"
| "jfields E mem 0 fs vs s = JFuel"
| "jfields E mem (Suc n) fs vs s = fields_step mem (jvalue E mem n) (jfields E mem n) fs vs s"
| "jpairs E mem 0 fc m s = JFuel"
| "jpairs E mem (Suc n) fc m s = pairs_step mem (jvalue E mem n) (jpairs E mem n) fc m s"
| "jitems E mem 0 fc m s = JFuel"
| "jitems E mem (Suc n) fc m s = items_step mem (jvalue E mem n) (jitems E mem n) fc m s"
  by pat_completeness auto

termination
  by (relation "measure (case_sum (case_sum (\<lambda>(E, mem, n, x). n) (\<lambda>(E, mem, n, x). n))
    (case_sum (\<lambda>(E, mem, n, x). n) (case_sum (\<lambda>(E, mem, n, x). n) (\<lambda>(E, mem, n, x). n))))") auto

text \<open>Malformed input answers null, what follows the object is not read.\<close>

definition b_json_decode :: "jio \<Rightarrow> mem \<Rightarrow> vmval \<Rightarrow> u64 \<Rightarrow> vmval chk" where
  "b_json_decode E mem v cls =
     (if vm_null v then Good VNull
      else on_good (text_check v) (\<lambda>s.
        if length (mclasses (j_mod E)) \<le> unat cls then Bad WO_T_BOUNDS
        else
          (case jobject E mem (3 * length s + 3) (unat cls) s of
             JOk out r \<Rightarrow> Good out
           | JBad \<Rightarrow> Good VNull
           | _ \<Rightarrow> Lost)))"

end
