(* ===== verification/JsonFuel.thy ===== *)
theory JsonFuel
  imports JsonDecode
begin

text \<open>
  The decoder ends: three units of fuel for every byte that is left, and three more, are enough, and a
  result does not depend on the fuel once there is enough. Every function leaves a suffix that is no
  longer than its input.
\<close>

section \<open>What is left\<close>

lemma jskip_ws_length: "length (jskip_ws s) \<le> length s"
  by (simp add: jskip_ws_def length_dropWhile_le)

lemma expect_length: "expect c s = Some r \<Longrightarrow> length r < length s"
  using jskip_ws_length [of s] by (auto simp: expect_def split: list.splits if_splits)

lemma skip_nest_length: "skip_nest d s = Some r \<Longrightarrow> length r < length s"
proof (induction d s rule: skip_nest.induct)
  case (2 depth d s)
  then show ?case using skip_str_length [of s] by (fastforce split: if_splits)
qed simp

lemma jskip_value_length: "jskip_value s = Some r \<Longrightarrow> length r \<le> length s"
proof -
  assume a: "jskip_value s = Some r"
  then obtain c t where t: "jskip_ws s = c # t" by (auto simp: jskip_value_def split: list.splits)
  then have l: "length (c # t) \<le> length s" by (metis jskip_ws_length)
  show ?thesis
  proof (cases "c = 123 \<or> c = 91")
    case True
    then have "skip_nest 0 (c # t) = Some r" using a by (simp only: jskip_value_def t list.case if_True)
    then show ?thesis using skip_nest_length l by fastforce
  next
    case False
    then have "r = dropWhile (\<lambda>c. \<not> jdelim c) (c # t) \<or> (\<exists>q. skip_str t = q # r)"
      using a unfolding jskip_value_def t by (auto split: list.splits if_splits)
    then show ?thesis
    proof
      assume "r = dropWhile (\<lambda>c. \<not> jdelim c) (c # t)"
      then show ?thesis using l length_dropWhile_le [of "\<lambda>c. \<not> jdelim c" "c # t"] by simp
    next
      assume "\<exists>q. skip_str t = q # r"
      then show ?thesis using l skip_str_length [of t] by auto
    qed
  qed
qed

lemma str_body_length: "length (snd (str_body s)) \<le> length s"
proof (induction s rule: length_induct)
  case (1 s)
  show ?case
  proof (cases s)
    case (Cons c t)
    consider "c = 34" | "c \<noteq> 34" "c \<noteq> 92" | "c = 92" "t = []" | u where "c = 92" "t = 117 # u" | e u where "c = 92" "t = e # u" "e \<noteq> 117"
      by (cases t) auto
    then show ?thesis
    proof cases
      case 2
      then show ?thesis using 1 Cons by (simp add: le_SucI)
    next
      case 4
      then have "length (drop 4 u) < length s" using Cons by simp
      then have "length (snd (str_body (drop 4 u))) \<le> length (drop 4 u)" using 1 by blast
      then show ?thesis using 4 Cons by simp
    next
      case 5
      then have "length (snd (str_body u)) \<le> length u" using 1 Cons by simp
      then show ?thesis using 5 Cons by simp
    qed (use Cons in simp_all)
  qed simp
qed

lemma jparse_string_length: "jparse_string mem s = Some (b, r) \<Longrightarrow> length r + 2 \<le> length s"
proof -
  assume a: "jparse_string mem s = Some (b, r)"
  then obtain c s1 where s: "s = c # s1" by (auto simp: jparse_string_def split: list.splits)
  then obtain q where "str_body s1 = (b, q # r)" using a
    by (auto simp: jparse_string_def split: if_splits prod.splits list.splits)
  then show ?thesis using str_body_length [of s1] s by simp
qed

lemma jkey_length: "jkey mem s = Some (key, r) \<Longrightarrow> length r + 3 \<le> length s"
  using jskip_ws_length [of s]
  by (auto simp: jkey_def split: option.splits prod.splits dest!: jparse_string_length expect_length)

definition jshort :: "'a jres \<Rightarrow> nat \<Rightarrow> bool" where
  "jshort r n \<longleftrightarrow> (\<forall>v t. r = JOk v t \<longrightarrow> length t \<le> n)"

lemma jshort_simps [simp]:
  "jshort (JOk v t) n \<longleftrightarrow> length t \<le> n" "jshort JBad n" "jshort JUndef n" "jshort JFuel n"
  by (simp_all add: jshort_def)

lemma jshort_mono: "jshort r n \<Longrightarrow> n \<le> k \<Longrightarrow> jshort r k"
  by (auto simp: jshort_def)

lemma on_jok_simps [simp]:
  "on_jok (JOk v t) f = f v t" "on_jok JBad f = JBad" "on_jok JUndef f = JUndef" "on_jok JFuel f = JFuel"
  by (simp_all add: on_jok_def)

lemma jshort_on_jok: "(\<And>v t. r = JOk v t \<Longrightarrow> jshort (f v t) n) \<Longrightarrow> jshort (on_jok r f) n"
  by (cases r) simp_all

lemma jshort_of_opt: "(\<And>t. r = Some t \<Longrightarrow> length t \<le> n) \<Longrightarrow> jshort (of_opt v r) n"
  by (simp add: of_opt_def split: option.split)

lemma jshort_jnext: "(\<And>t. length t < length s \<Longrightarrow> jshort (again t) n) \<Longrightarrow> length s \<le> n \<Longrightarrow> jshort (jnext close again v s) n"
  by (auto simp: jnext_def intro!: jshort_of_opt dest: expect_length split: option.split)

lemma jsign_length: "length (jsign s) \<le> length s"
  by (cases s) (simp_all add: jsign_def)

lemma jint_short: "jshort (jint kd s) (length s)"
proof -
  have "length (dropWhile is_digit (jsign s)) \<le> length s"
    using jsign_length [of s] length_dropWhile_le [of is_digit "jsign s"] by linarith
  then show ?thesis unfolding jint_def Let_def by (simp only: jshort_simps split: option.split prod.split if_split) blast
qed

lemma jexp_length: "length (jexp s) \<le> length s"
proof (cases s)
  case (Cons c r)
  then show ?thesis using jsign_length [of r] length_dropWhile_le [of is_digit "jsign r"]
    by (auto simp: jexp_def Let_def)
qed (simp add: jexp_def)

lemma jfloat_end_length: "jfloat_end s = Some r \<Longrightarrow> length r \<le> length s"
proof -
  assume a: "jfloat_end s = Some r"
  let ?b = "dropWhile is_digit (jsign s)"
  define c where "c = (case ?b of x # y \<Rightarrow> if x = 46 then dropWhile is_digit y else ?b | [] \<Rightarrow> [])"
  have "r = jexp c" using a by (simp add: jfloat_end_def Let_def c_def [symmetric] split: if_splits)
  moreover have "length c \<le> length ?b"
  proof (cases ?b)
    case (Cons x y)
    then show ?thesis unfolding c_def Cons using length_dropWhile_le [of is_digit y] by simp
  next
    case Nil
    then show ?thesis unfolding c_def Nil by simp
  qed
  moreover have "length ?b \<le> length s"
    using jsign_length [of s] length_dropWhile_le [of is_digit "jsign s"] by linarith
  ultimately show ?thesis using jexp_length [of c] by (metis le_trans)
qed

lemma jfloat_short: "jshort (jfloat E s) (length s)"
  by (auto simp: jfloat_def Let_def dest: jfloat_end_length split: option.split)

lemma jleaf_ok [simp]:
  "of_opt v x \<noteq> JFuel" "jint kd u \<noteq> JFuel" "jfloat E u \<noteq> JFuel"
  "length u \<le> n \<Longrightarrow> jshort (of_opt v (jskip_value u)) n"
  "length u \<le> n \<Longrightarrow> jshort (jint kd u) n" "length u \<le> n \<Longrightarrow> jshort (jfloat E u) n"
  subgoal by (simp add: of_opt_def split: option.split)
  subgoal by (simp add: jint_def Let_def split: option.split)
  subgoal by (simp add: jfloat_def Let_def split: option.split)
  subgoal by (auto simp: of_opt_def split: option.split dest: jskip_value_length)
  subgoal by (rule jshort_mono [OF jint_short])
  subgoal by (rule jshort_mono [OF jfloat_short])
  done

section \<open>The shape of one level\<close>

text \<open>A value is a leaf, which no other level is asked for, or exactly one question to the next level.\<close>

lemma value_step_shape:
  shows "(\<exists>leaf. leaf \<noteq> JFuel \<and> jshort leaf (length s) \<and> (\<forall>obj prs its. value_step E mem obj prs its kd fc fe s = leaf)) \<or>
    (\<exists>cid. \<forall>obj prs its. value_step E mem obj prs its kd fc fe s = obj cid (jskip_ws s)) \<or>
    (\<exists>kk vk m r. length r < length s \<and> (\<forall>obj prs its. value_step E mem obj prs its kd fc fe s =
       on_jok (prs fc m r) (\<lambda>m'. JOk (VMap kk vk (keys m') (vals m'))))) \<or>
    (\<exists>ek m r. length r < length s \<and> (\<forall>obj prs its. value_step E mem obj prs its kd fc fe s =
       on_jok (its fc m r) (\<lambda>m'. JOk (VMulti ek (items m')))))"
proof (cases "jskip_ws s")
  case Nil
  then have "value_step E mem obj prs its kd fc fe s = JBad" for obj prs its by (simp add: value_step_def)
  then show ?thesis by (intro disjI1 exI [of _ JBad]) simp
next
  case (Cons c r)
  then have l: "length (c # r) \<le> length s" by (metis jskip_ws_length)
  have sv: "jskip_value (c # r) = Some t \<Longrightarrow> length t \<le> length s" for t
    using jskip_value_length [of "c # r" t] l by linarith
  have leaf: ?thesis if "\<And>obj prs its. value_step E mem obj prs its kd fc fe s = x" "x \<noteq> JFuel" "jshort x (length s)" for x
    using that by (intro disjI1 exI [of _ x]) simp
  have skip: "of_opt v (jskip_value (c # r)) \<noteq> JFuel" "jshort (of_opt v (jskip_value (c # r))) (length s)" for v
    using sv by (auto simp: of_opt_def split: option.split)
  note step = value_step_def Cons list.case Let_def
  consider "fc = WOB_FIELD_JSON_RAW" | "fc \<noteq> WOB_FIELD_JSON_RAW" "c = 123" | "fc \<noteq> WOB_FIELD_JSON_RAW" "c = 91"
    | "fc \<noteq> WOB_FIELD_JSON_RAW" "c \<noteq> 123" "c \<noteq> 91" by blast
  then show ?thesis
  proof cases
    case 1
    show ?thesis
      by (rule leaf [of "case jskip_value (c # r) of None \<Rightarrow> JBad
          | Some t \<Rightarrow> if mem AVmStr then JOk (VStr (take (length (c # r) - length t) (c # r))) t else JBad"])
        (use 1 sv in \<open>auto simp: step split: option.split\<close>)
  next
    case 2
    show ?thesis
    proof (cases "(kd = KOwned \<or> kd = KGcref) \<and> unat fc < length (mclasses (j_mod E))")
      case True
      then have "\<forall>obj prs its. value_step E mem obj prs its kd fc fe s = obj (unat fc) (jskip_ws s)"
        using 2 by (simp add: step)
      then show ?thesis by blast
    next
      case notobj: False
      show ?thesis
      proof (cases "kd = KMap")
        case False
        show ?thesis by (rule leaf [OF _ skip, of "zero_of kd"]) (use 2 False in \<open>simp only: step if_not_P [OF notobj] if_True if_False simp_thms\<close>, use 2 in simp)
      next
        case True
        show ?thesis
        proof (cases "\<exists>kk vk m. elem_kinds fe = (Some kk, Some vk) \<and> wo_map_new mem kk vk = Some m \<and> expect 125 r = None")
          case True
          then obtain kk vk m where m: "elem_kinds fe = (Some kk, Some vk)" "wo_map_new mem kk vk = Some m" "expect 125 r = None" by blast
          then have "\<forall>obj prs its. value_step E mem obj prs its kd fc fe s = on_jok (prs fc m r) (\<lambda>m'. JOk (VMap kk vk (keys m') (vals m')))"
            using 2 \<open>kd = KMap\<close> by (simp add: step)
          moreover have "length r < length s" using l by simp
          ultimately show ?thesis by blast
        next
          case False
          show ?thesis
            by (rule leaf [of "case elem_kinds fe of (Some kk, Some vk) \<Rightarrow> (case wo_map_new mem kk vk of None \<Rightarrow> JBad
                | Some m \<Rightarrow> (case expect 125 r of Some t \<Rightarrow> JOk (VMap kk vk [] []) t | None \<Rightarrow> JBad)) | _ \<Rightarrow> JUndef"])
              (use 2 False \<open>kd = KMap\<close> l in \<open>auto simp: step split: option.split prod.split dest!: expect_length\<close>)
        qed
      qed
    qed
  next
    case 3
    show ?thesis
    proof (cases "kd = KMulti")
      case False
      show ?thesis by (rule leaf [OF _ skip, of "zero_of kd"]) (use 3 False in \<open>simp add: step\<close>)
    next
      case True
      show ?thesis
      proof (cases "\<exists>ek m. fst (elem_kinds fe) = Some ek \<and> wo_multi_new mem ek = Some m \<and> expect 93 r = None")
        case True
        then obtain ek m where m: "fst (elem_kinds fe) = Some ek" "wo_multi_new mem ek = Some m" "expect 93 r = None" by blast
        then have "\<forall>obj prs its. value_step E mem obj prs its kd fc fe s = on_jok (its fc m r) (\<lambda>m'. JOk (VMulti ek (items m')))"
          using 3 \<open>kd = KMulti\<close> by (simp add: step)
        moreover have "length r < length s" using l by simp
        ultimately show ?thesis by blast
      next
        case False
        show ?thesis
          by (rule leaf [of "case fst (elem_kinds fe) of Some ek \<Rightarrow> (case wo_multi_new mem ek of None \<Rightarrow> JBad
              | Some m \<Rightarrow> (case expect 93 r of Some t \<Rightarrow> JOk (VMulti ek []) t | None \<Rightarrow> JBad)) | _ \<Rightarrow> JUndef"])
            (use 3 False \<open>kd = KMulti\<close> l in \<open>auto simp: step split: option.split dest!: expect_length\<close>)
      qed
    qed
  next
    case 4
    define x where "x = value_step E mem (\<lambda>_ _. JBad) (\<lambda>_ _ _. JBad) (\<lambda>_ _ _. JBad) kd fc fe s"
    have e: "value_step E mem obj prs its kd fc fe s = x" for obj prs its
      using 4 unfolding x_def by (simp only: step if_False)
    have str: "jparse_string mem (d # r) = Some (b, t) \<Longrightarrow> length t \<le> length s" for b t d
      using l jparse_string_length [of mem "d # r" b t] by simp
    have "x \<noteq> JFuel \<and> jshort x (length s)"
      using 4 l unfolding x_def step
      by (auto split: option.split prod.split dest!: str)
    then show ?thesis using leaf [OF e] by blast
  qed
qed

section \<open>Enough fuel\<close>

lemma on_jok_JOk: "on_jok r f = JOk v t \<longleftrightarrow> (\<exists>u w. r = JOk u w \<and> f u w = JOk v t)"
  by (cases r) simp_all

lemma on_jok_JFuel: "on_jok r f = JFuel \<longleftrightarrow> r = JFuel \<or> (\<exists>u w. r = JOk u w \<and> f u w = JFuel)"
  by (cases r) simp_all

text \<open>Every level leaves no more than it got.\<close>

lemma level_short:
  "jshort (jvalue E mem n kd fc fe s) (length s)" "jshort (jobject E mem n cid s) (length s)"
  "jshort (jfields E mem n fs vs s) (length s)" "jshort (jpairs E mem n fc m s) (length s)"
  "jshort (jitems E mem n fc mm s) (length s)"
proof (induction n arbitrary: kd fc fe s cid fs vs m mm)
  case (Suc n)
  have le: "length t \<le> length s" if "length t < length u" "length u \<le> length s" for t u s :: bytes using that by simp
  {
    case 1
    show ?case
      using value_step_shape [of s E mem kd fc fe]
    proof (elim disjE exE conjE)
      fix cid assume "\<forall>obj prs its. value_step E mem obj prs its kd fc fe s = obj cid (jskip_ws s)"
      then show ?thesis using jshort_mono [OF Suc(2) jskip_ws_length] by simp
    next
      fix kk vk m r
      assume r: "length r < length s" "\<forall>obj prs its. value_step E mem obj prs its kd fc fe s = on_jok (prs fc m r) (\<lambda>m'. JOk (VMap kk vk (keys m') (vals m')))"
      have "jshort (jpairs E mem n fc m r) (length s)" using jshort_mono [OF Suc(4)] r(1) by simp
      then show ?thesis using r(2) by (auto simp: jshort_def on_jok_JOk)
    next
      fix ek m r
      assume r: "length r < length s" "\<forall>obj prs its. value_step E mem obj prs its kd fc fe s = on_jok (its fc m r) (\<lambda>m'. JOk (VMulti ek (items m')))"
      have "jshort (jitems E mem n fc m r) (length s)" using jshort_mono [OF Suc(5)] r(1) by simp
      then show ?thesis using r(2) by (auto simp: jshort_def on_jok_JOk)
    qed simp
  next
    case 2
    show ?case
    proof (cases "expect 123 s")
      case (Some r)
      note r = expect_length [OF Some]
      have "jshort (jfields E mem n fs vs r) (length s)" for fs vs using jshort_mono [OF Suc(3)] r by simp
      then show ?thesis using r expect_length [of 125 r]
        by (fastforce simp: object_step_def Let_def jshort_def on_jok_JOk Some split: option.split)
    qed (simp add: object_step_def)
  next
    case 3
    show ?case
    proof (cases "jkey mem s")
      case (Some p)
      obtain key r where p: "p = (key, r)" by (cases p)
      have r: "length r \<le> length s" using jkey_length [of mem s key r] Some p by simp
      have "jshort (case field_find fs key 0 of None \<Rightarrow> of_opt vs (jskip_value r)
          | Some i \<Rightarrow> on_jok (jvalue E mem n (jf_kind (fs ! i)) (jf_class (fs ! i)) (jf_elem (fs ! i)) r) (\<lambda>v. JOk (vs[i := v]))) (length s)"
        using jshort_mono [OF Suc(1) r] r by (auto simp: jshort_def on_jok_JOk split: option.split) (metis jleaf_ok(4) jshort_def)
      then show ?thesis
        unfolding jfields.simps fields_step_def Some option.case p prod.case
        by (intro jshort_on_jok jshort_jnext jshort_mono [OF Suc(3)]) (auto simp: jshort_def)
    qed (simp add: fields_step_def)
  next
    case 4
    show ?case
    proof (cases "jkey mem s")
      case (Some p)
      obtain key r where p: "p = (key, r)" by (cases p)
      have r: "length r \<le> length s" using jkey_length [of mem s key r] Some p by simp
      have v: "jshort (jvalue E mem n (val_kind m) fc 0 r) (length s)" using jshort_mono [OF Suc(1) r] .
      show ?thesis
        unfolding jpairs.simps pairs_step_def Some option.case p prod.case
      proof (rule jshort_on_jok)
        fix x t assume "jvalue E mem n (val_kind m) fc 0 r = JOk x t"
        then have t: "length t \<le> length s" using v by (simp add: jshort_def)
        have "jshort (jnext 125 (jpairs E mem n fc m') m' t) (length s)" for m'
          by (rule jshort_jnext [OF _ t]) (use t in \<open>auto intro: jshort_mono [OF Suc(4)]\<close>)
        then show "jshort (case wo_map_set mem m (VStr key) x of None \<Rightarrow> JBad | Some (m', old) \<Rightarrow> jnext 125 (jpairs E mem n fc m') m' t) (length s)"
          by (simp split: option.split prod.split)
      qed
    qed (simp add: pairs_step_def)
  next
    case 5
    have v: "jshort (jvalue E mem n (elem_kind mm) fc 0 s) (length s)" by (rule Suc(1))
    show ?case
      unfolding jitems.simps items_step_def
    proof (rule jshort_on_jok)
      fix x t assume "jvalue E mem n (elem_kind mm) fc 0 s = JOk x t"
      then have t: "length t \<le> length s" using v by (simp add: jshort_def)
      have "jshort (jnext 93 (jitems E mem n fc m') m' t) (length s)" for m'
        by (rule jshort_jnext [OF _ t]) (use t in \<open>auto intro: jshort_mono [OF Suc(5)]\<close>)
      then show "jshort (case wo_multi_push mem mm x of None \<Rightarrow> JBad | Some m' \<Rightarrow> jnext 93 (jitems E mem n fc m') m' t) (length s)"
        by (simp split: option.split)
    qed
  }
qed simp_all

text \<open>Two runs that agree and are not out of fuel.\<close>

definition same_run :: "'a jres \<Rightarrow> 'a jres \<Rightarrow> bool" where
  "same_run r r' \<longleftrightarrow> r = r' \<and> r \<noteq> JFuel"

lemma same_bad: "same_run JBad JBad" by (simp add: same_run_def)

lemma same_on_jok: "same_run r r' \<Longrightarrow> (\<And>v t. r = JOk v t \<Longrightarrow> same_run (f v t) (f' v t)) \<Longrightarrow> same_run (on_jok r f) (on_jok r' f')"
  by (cases r) (auto simp: same_run_def)

lemma same_jnext: "(\<And>t. length t < length s \<Longrightarrow> same_run (a t) (b t)) \<Longrightarrow> same_run (jnext c a v s) (jnext c b v s)"
  by (auto simp: same_run_def jnext_def dest: expect_length split: option.split)

lemma enough_fuel:
  "3 * length s + 2 < n \<Longrightarrow> n \<le> k \<Longrightarrow> same_run (jvalue E mem n kd fc fe s) (jvalue E mem k kd fc fe s)"
  "3 * length s + 1 < n \<Longrightarrow> n \<le> k \<Longrightarrow> same_run (jobject E mem n cid s) (jobject E mem k cid s)"
  "3 * length s < n \<Longrightarrow> n \<le> k \<Longrightarrow> same_run (jfields E mem n fs vs s) (jfields E mem k fs vs s)"
  "3 * length s < n \<Longrightarrow> n \<le> k \<Longrightarrow> same_run (jpairs E mem n fc m s) (jpairs E mem k fc m s)"
  "3 * length s + 3 < n \<Longrightarrow> n \<le> k \<Longrightarrow> same_run (jitems E mem n fc mm s) (jitems E mem k fc mm s)"
proof (induction n arbitrary: k kd fc fe s cid fs vs m mm)
  case (Suc n)
  {
    case 1
    then obtain k' where k: "k = Suc k'" "n \<le> k'" by (cases k) auto
    show ?case
      using value_step_shape [of s E mem kd fc fe]
    proof (elim disjE exE conjE)
      fix cid assume "\<forall>obj prs its. value_step E mem obj prs its kd fc fe s = obj cid (jskip_ws s)"
      then show ?thesis using Suc(2) [OF _ k(2), of "jskip_ws s" cid] jskip_ws_length [of s] 1 k by simp
    next
      fix kk vk m r
      assume r: "length r < length s" "\<forall>obj prs its. value_step E mem obj prs its kd fc fe s = on_jok (prs fc m r) (\<lambda>m'. JOk (VMap kk vk (keys m') (vals m')))"
      have "same_run (jpairs E mem n fc m r) (jpairs E mem k' fc m r)" using Suc(4) [OF _ k(2), of r] r(1) 1 by simp
      then show ?thesis using r(2) k by (auto simp: same_run_def on_jok_JFuel)
    next
      fix ek m r
      assume r: "length r < length s" "\<forall>obj prs its. value_step E mem obj prs its kd fc fe s = on_jok (its fc m r) (\<lambda>m'. JOk (VMulti ek (items m')))"
      have "same_run (jitems E mem n fc m r) (jitems E mem k' fc m r)" using Suc(5) [OF _ k(2), of r] r(1) 1 by simp
      then show ?thesis using r(2) k by (auto simp: same_run_def on_jok_JFuel)
    qed (simp add: k same_run_def)
  next
    case 2
    then obtain k' where k: "k = Suc k'" "n \<le> k'" by (cases k) auto
    show ?case
    proof (cases "expect 123 s")
      case (Some r)
      let ?fs = "jfields_of (j_mod E) cid"
      have "same_run (jfields E mem n ?fs (map field_init ?fs) r) (jfields E mem k' ?fs (map field_init ?fs) r)"
        using Suc(3) [OF _ k(2), of r ?fs "map field_init ?fs"] expect_length [OF Some] 2 by simp
      then show ?thesis
        by (auto simp: k object_step_def Let_def same_run_def on_jok_JFuel Some split: option.split)
    qed (simp add: k object_step_def same_run_def)
  next
    case 3
    then obtain k' where k: "k = Suc k'" "n \<le> k'" by (cases k) auto
    show ?case
    proof (cases "jkey mem s")
      case (Some p)
      obtain key r where p: "p = (key, r)" by (cases p)
      have r: "length r + 3 \<le> length s" using jkey_length [of mem s key r] Some p by simp
      have v: "same_run (jvalue E mem n kd fc fe r) (jvalue E mem k' kd fc fe r)" for kd fc fe
        using Suc(1) [OF _ k(2), of r kd fc fe] r 3 by simp
      have f: "same_run (jfields E mem n fs vs t) (jfields E mem k' fs vs t)" if "length t < length r" for vs t
        using Suc(3) [OF _ k(2), of t fs vs] r 3 that by simp
      let ?mid = "\<lambda>n. case field_find fs key 0 of None \<Rightarrow> of_opt vs (jskip_value r)
          | Some i \<Rightarrow> on_jok (jvalue E mem n (jf_kind (fs ! i)) (jf_class (fs ! i)) (jf_elem (fs ! i)) r) (\<lambda>v. JOk (vs[i := v]))"
      have "same_run (?mid n) (?mid k')"
      proof (cases "field_find fs key 0")
        case (Some i)
        then show ?thesis using v [of "jf_kind (fs ! i)" "jf_class (fs ! i)" "jf_elem (fs ! i)"]
          by (auto simp: same_run_def on_jok_JFuel)
      qed (simp add: same_run_def)
      moreover have "jshort (?mid n) (length r)"
        using level_short(1) by (auto simp: jshort_def on_jok_JOk split: option.split) (metis jleaf_ok(4) jshort_def order_refl)
      ultimately show ?thesis
        unfolding k jfields.simps fields_step_def Some option.case p prod.case
        by (intro same_on_jok same_jnext f) (auto simp: jshort_def)
    qed (simp add: k fields_step_def same_run_def)
  next
    case 4
    then obtain k' where k: "k = Suc k'" "n \<le> k'" by (cases k) auto
    show ?case
    proof (cases "jkey mem s")
      case (Some p)
      obtain key r where p: "p = (key, r)" by (cases p)
      have r: "length r + 3 \<le> length s" using jkey_length [of mem s key r] Some p by simp
      have v: "same_run (jvalue E mem n (val_kind m) fc 0 r) (jvalue E mem k' (val_kind m) fc 0 r)"
        using Suc(1) [OF _ k(2), of r] r 4 by simp
      have f: "same_run (jpairs E mem n fc m' t) (jpairs E mem k' fc m' t)" if "length t < length r" for m' t
        using Suc(4) [OF _ k(2), of t] r 4 that by simp
      have l: "length t \<le> length r" if "jvalue E mem n (val_kind m) fc 0 r = JOk v t" for v t
        using level_short(1) [of E mem n "val_kind m" fc 0 r] that by (simp add: jshort_def)
      show ?thesis
        unfolding k jpairs.simps pairs_step_def Some option.case p prod.case
      proof (rule same_on_jok [OF v])
        fix x t assume "jvalue E mem n (val_kind m) fc 0 r = JOk x t"
        then have "same_run (jnext 125 (jpairs E mem n fc m') m' t) (jnext 125 (jpairs E mem k' fc m') m' t)" for m'
          using l by (intro same_jnext f) fastforce
        then show "same_run (case wo_map_set mem m (VStr key) x of None \<Rightarrow> JBad | Some (m', old) \<Rightarrow> jnext 125 (jpairs E mem n fc m') m' t)
            (case wo_map_set mem m (VStr key) x of None \<Rightarrow> JBad | Some (m', old) \<Rightarrow> jnext 125 (jpairs E mem k' fc m') m' t)"
          by (simp add: same_bad split: option.split prod.split)
      qed
    qed (simp add: k pairs_step_def same_run_def)
  next
    case 5
    then obtain k' where k: "k = Suc k'" "n \<le> k'" by (cases k) auto
    have v: "same_run (jvalue E mem n (elem_kind mm) fc 0 s) (jvalue E mem k' (elem_kind mm) fc 0 s)"
      using Suc(1) [OF _ k(2), of s] 5 by simp
    have f: "same_run (jitems E mem n fc m' t) (jitems E mem k' fc m' t)" if "length t < length s" for m' t
      using Suc(5) [OF _ k(2), of t] 5 that by simp
    have l: "length t \<le> length s" if "jvalue E mem n (elem_kind mm) fc 0 s = JOk v t" for v t
      using level_short(1) [of E mem n "elem_kind mm" fc 0 s] that by (simp add: jshort_def)
    show ?case
      unfolding k jitems.simps items_step_def
    proof (rule same_on_jok [OF v])
      fix x t assume "jvalue E mem n (elem_kind mm) fc 0 s = JOk x t"
      then have "same_run (jnext 93 (jitems E mem n fc m') m' t) (jnext 93 (jitems E mem k' fc m') m' t)" for m'
        using l by (intro same_jnext f) fastforce
      then show "same_run (case wo_multi_push mem mm x of None \<Rightarrow> JBad | Some m' \<Rightarrow> jnext 93 (jitems E mem n fc m') m' t)
          (case wo_multi_push mem mm x of None \<Rightarrow> JBad | Some m' \<Rightarrow> jnext 93 (jitems E mem k' fc m') m' t)"
        by (simp add: same_bad split: option.split)
    qed
  }
qed simp_all

end
