(* ===== verification/JsonRound.thy ===== *)
theory JsonRound
  imports JsonFuel TextFacts
begin

text \<open>
  The round trip: the text of a value that fits its field, whatever follows it in an object or an array, is
  parsed to that value. \<open>jv_ok\<close> says which values fit: texts and bytes any, numbers all but the least,
  Booleans as 0 and 1, a Float that its printed text gives back, containers element by element, maps with
  distinct text keys, objects of the field's class.
\<close>

section \<open>Values that fit\<close>

definition stops :: "bytes \<Rightarrow> bool" where
  "stops r \<longleftrightarrow> r = [] \<or> hd r = 44 \<or> hd r = 93 \<or> hd r = 125"

definition jmarked :: "u32 \<Rightarrow> bool" where
  "jmarked fc \<longleftrightarrow> fc = WOB_FIELD_JSON_RAW \<or> fc = WOB_FIELD_NIL_SCALAR \<or> fc = WOB_FIELD_NIL_BOOL \<or> fc = WOB_FIELD_NIL_FLOAT"

definition scalar_fits :: "u32 \<Rightarrow> u64 \<Rightarrow> bool" where
  "scalar_fits fc w \<longleftrightarrow> fc \<noteq> WOB_FIELD_JSON_RAW \<and> fc \<noteq> WOB_FIELD_NIL_FLOAT \<and>
     (if fc = WOB_FIELD_BOOL then w = 0 \<or> w = 1
      else if fc = WOB_FIELD_NIL_BOOL then w = 0 \<or> w = 1 \<or> w = WO_NIL_SCALAR
      else w \<noteq> 0x8000000000000000)"

definition float_fits :: "jio \<Rightarrow> u32 \<Rightarrow> u64 \<Rightarrow> bool" where
  "float_fits E fc w \<longleftrightarrow> (fc = WOB_FIELD_NIL_FLOAT \<and> w = WO_NIL_FLOAT) \<or>
     (fc \<noteq> WOB_FIELD_JSON_RAW \<and> f64_finite w \<and> wo_float_text E w \<noteq> [] \<and>
      (is_digit (hd (wo_float_text E w)) \<or> hd (wo_float_text E w) = 45) \<and>
      (\<forall>r. stops r \<longrightarrow> jfloat_end (wo_float_text E w @ r) = Some r) \<and> j_strtod E (wo_float_text E w) = w)"

definition raw_fits :: "bytes \<Rightarrow> bool" where
  "raw_fits s \<longleftrightarrow> s \<noteq> [] \<and> \<not> ws_byte (hd s) \<and> (\<forall>r. stops r \<longrightarrow> jskip_value (s @ r) = Some r)"

inductive jv_ok :: "jio \<Rightarrow> kind \<Rightarrow> u32 \<Rightarrow> u32 \<Rightarrow> vmval \<Rightarrow> bool" for E where
  jv_scalar: "scalar_fits fc w \<Longrightarrow> jv_ok E KScalar fc fe (VWord w)"
| jv_float: "float_fits E fc w \<Longrightarrow> jv_ok E KFloat fc fe (VWord w)"
| jv_null: "kd \<noteq> KScalar \<Longrightarrow> kd \<noteq> KFloat \<Longrightarrow> \<not> jmarked fc \<Longrightarrow> jv_ok E kd fc fe VNull"
| jv_text: "fc \<noteq> WOB_FIELD_JSON_RAW \<Longrightarrow> jv_ok E KText fc fe (VStr s)"
| jv_raw: "raw_fits s \<Longrightarrow> jv_ok E KText WOB_FIELD_JSON_RAW fe (VStr s)"
| jv_bytes: "fc \<noteq> WOB_FIELD_JSON_RAW \<Longrightarrow> jv_ok E KBytes fc fe (VBytes s)"
| jv_obj: "kd = KOwned \<or> kd = KGcref \<Longrightarrow> fc \<noteq> WOB_FIELD_JSON_RAW \<Longrightarrow> cid = unat fc \<Longrightarrow> cid < length (mclasses (j_mod E)) \<Longrightarrow>
    fs = jfields_of (j_mod E) cid \<Longrightarrow> distinct (map jf_name fs) \<Longrightarrow> None \<notin> set (map jf_name fs) \<Longrightarrow> length vs = length fs \<Longrightarrow>
    (\<forall>i<length fs. jv_ok E (jf_kind (fs ! i)) (jf_class (fs ! i)) (jf_elem (fs ! i)) (vs ! i)) \<Longrightarrow>
    jv_ok E kd fc fe (VObj cid vs)"
| jv_multi: "fst (elem_kinds fe) = Some ek \<Longrightarrow> fc \<noteq> WOB_FIELD_JSON_RAW \<Longrightarrow> (\<forall>x\<in>set xs. jv_ok E ek fc 0 x) \<Longrightarrow>
    jv_ok E KMulti fc fe (VMulti ek xs)"
| jv_map: "elem_kinds fe = (Some KText, Some vk) \<Longrightarrow> fc \<noteq> WOB_FIELD_JSON_RAW \<Longrightarrow> distinct ks \<Longrightarrow> length vs = length ks \<Longrightarrow>
    (\<forall>x\<in>set vs. jv_ok E vk fc 0 x) \<Longrightarrow> jv_ok E KMap fc fe (VMap KText vk (map VStr ks) vs)"

section \<open>Strings\<close>

lemma hex_esc:
  assumes "c < (32 :: u8)"
  shows "hex4 (48 # 48 # hex_digit (unat c div 16) # hex_digit (unat c mod 16) # r) = unat c"
    "utf8_bmp (unat c) = [c]"
proof -
  have "list_all (\<lambda>n. hex_val (hex_digit (n div 16)) = n div 16 \<and> hex_val (hex_digit (n mod 16)) = n mod 16) [0..<32]"
    by code_simp
  moreover have n: "unat c < 32" using assms by (simp add: word_less_nat_alt)
  ultimately have h: "hex_val (hex_digit (unat c div 16)) = unat c div 16" "hex_val (hex_digit (unat c mod 16)) = unat c mod 16"
    by (simp_all add: list_all_iff)
  have z: "hex_val 48 = 0" by (simp add: hex_val_def)
  show "hex4 (48 # 48 # hex_digit (unat c div 16) # hex_digit (unat c mod 16) # r) = unat c"
    using n by (simp add: hex4_def h z)
  show "utf8_bmp (unat c) = [c]" using n by (simp add: utf8_bmp_def)
qed

lemma str_esc: "str_body (esc_byte c @ r) = (c # fst (str_body r), snd (str_body r))"
proof (cases "c < 32 \<and> c \<notin> {10, 13, 9, 8, 12}")
  case True
  then have "c \<noteq> 34" "c \<noteq> 92" by auto
  then show ?thesis using True hex_esc(1) [of c r] hex_esc(2) [of c] by (simp add: esc_byte_def)
next
  case False
  then show ?thesis by (auto simp: esc_byte_def esc_val_def)
qed

lemma str_body_text: "str_body (concat (map esc_byte s) @ 34 # r) = (s, 34 # r)"
  by (induction s) (simp_all add: str_esc)

lemma parse_text: "mem AVmStr \<Longrightarrow> jparse_string mem (jb_text s @ r) = Some (s, r)"
  by (simp add: jparse_string_def jb_text_def str_body_text)

lemma str_body_plain: "34 \<notin> set s \<Longrightarrow> 92 \<notin> set s \<Longrightarrow> str_body (s @ 34 # r) = (s, 34 # r)"
  by (induction s) auto

lemma b64_enc_plain: "34 \<notin> set (b64_enc s) \<and> 92 \<notin> set (b64_enc s)"
proof -
  have "b64_char v \<noteq> 34 \<and> b64_char v \<noteq> 92" for v
    using b64_char_val(1) [of v] by (auto simp: b64_val_def)
  then show ?thesis by (induction s rule: b64_enc.induct) (auto simp: b64_quad_of_def Let_def)
qed

section \<open>Words\<close>

lemma skip_ws_at [simp]: "\<not> ws_byte c \<Longrightarrow> jskip_ws (c # s) = c # s"
  by (simp add: jskip_ws_def)

lemma stops_delim: "stops r \<Longrightarrow> r = [] \<or> (\<exists>c t. r = c # t \<and> jdelim c \<and> \<not> is_digit c \<and> \<not> ws_byte c \<and> c \<noteq> 46 \<and> c \<noteq> 101 \<and> c \<noteq> 69)"
  by (cases r) (auto simp: stops_def jdelim_def is_digit_def ws_byte_def word_le_def)

lemma skip_plain:
  "stops r \<Longrightarrow> s \<noteq> [] \<Longrightarrow> \<forall>c\<in>set s. \<not> jdelim c \<Longrightarrow> hd s \<noteq> 123 \<Longrightarrow> hd s \<noteq> 91 \<Longrightarrow> hd s \<noteq> 34 \<Longrightarrow> jskip_value (s @ r) = Some r"
proof -
  assume a: "stops r" "s \<noteq> []" "\<forall>c\<in>set s. \<not> jdelim c" "hd s \<noteq> 123" "hd s \<noteq> 91" "hd s \<noteq> 34"
  then obtain c t where s: "s = c # t" by (cases s) auto
  have "\<not> ws_byte c" using a(3) s by (auto simp: jdelim_def ws_byte_def)
  moreover have "dropWhile (\<lambda>c. \<not> jdelim c) (s @ r) = dropWhile (\<lambda>c. \<not> jdelim c) r"
    using a(3) by (simp add: dropWhile_append2)
  moreover have "dropWhile (\<lambda>c. \<not> jdelim c) r = r" using stops_delim [OF a(1)] by auto
  ultimately show ?thesis using a s by (simp add: jskip_value_def)
qed

lemma skip_words:
  assumes "stops r"
  shows "jskip_value (j_null @ r) = Some r" "jskip_value (j_true @ r) = Some r" "jskip_value (j_false @ r) = Some r"
  by (rule skip_plain [OF assms]; simp add: j_null_def j_true_def j_false_def jdelim_def)+

lemma parse_digits_stop: "stops r \<Longrightarrow> parse_digits r acc n = Some (acc, n)"
  using stops_delim [of r] by (cases r) auto

lemma drop_digits: "stops r \<Longrightarrow> \<forall>d\<in>set ds. is_digit d \<Longrightarrow> dropWhile is_digit (ds @ r) = r"
  using stops_delim [of r] by (auto simp: dropWhile_append2)

lemma parse_dec_stop:
  assumes "stops r" "n < 2 ^ 63"
  shows "parse_digits (dec_digits n @ r) 0 0 = Some (int n, length (dec_digits n))"
    "dropWhile is_digit (dec_digits n @ r) = r" "dec_digits n \<noteq> []"
    "\<exists>c t. dec_digits n = c # t \<and> is_digit c \<and> c \<noteq> 45 \<and> c \<noteq> 43"
proof -
  have sh: "dec_digits n \<noteq> []" "\<forall>d\<in>set (dec_digits n). is_digit d" using dec_digits_shape [of n] by blast+
  show "parse_digits (dec_digits n @ r) 0 0 = Some (int n, length (dec_digits n))"
    using parse_digits_append [OF sh(2), of r 0 0] parse_dec [of n] assms(2) parse_digits_stop [OF assms(1)] by simp
  show "dropWhile is_digit (dec_digits n @ r) = r" by (rule drop_digits [OF assms(1) sh(2)])
  show "dec_digits n \<noteq> []" by (rule sh(1))
  show "\<exists>c t. dec_digits n = c # t \<and> is_digit c \<and> c \<noteq> 45 \<and> c \<noteq> 43"
    using sh digit_not_ws by (cases "dec_digits n") auto
qed

lemma jint_text:
  assumes r: "stops r" and w: "w \<noteq> 0x8000000000000000"
  shows "jint KScalar (int_text (sint w) @ r) = JOk (VWord w) r"
proof -
  have b: "- (2 ^ 63) \<le> sint w" "sint w < 2 ^ 63" using sint_ge [of w] sint_lt [of w] by simp_all
  have "sint w \<noteq> - (2 ^ 63)"
  proof
    assume "sint w = - (2 ^ 63)"
    then have "word_of_int (sint w) = (word_of_int (- (2 ^ 63)) :: u64)" by simp
    then show False using w by simp
  qed
  then have n: "nat \<bar>sint w\<bar> < 2 ^ 63" using b by simp
  note d = parse_dec_stop [OF r n]
  have stop: "\<not> (r \<noteq> [] \<and> (hd r = 46 \<or> hd r = 101 \<or> hd r = 69))" using stops_delim [OF r] by auto
  show ?thesis
  proof (cases "sint w < 0")
    case True
    then have t: "int_text (sint w) = 45 # dec_digits (nat \<bar>sint w\<bar>)" by (simp add: int_text_def)
    have "jsign (int_text (sint w) @ r) = dec_digits (nat \<bar>sint w\<bar>) @ r" by (simp add: t jsign_def)
    then show ?thesis using d(1-3) stop True by (simp add: jint_def t Let_def)
  next
    case False
    then have t: "int_text (sint w) = dec_digits (nat \<bar>sint w\<bar>)" by (simp add: int_text_def)
    obtain c u where c: "dec_digits (nat \<bar>sint w\<bar>) = c # u" "c \<noteq> 45" "c \<noteq> 43" using d(4) by blast
    have "jsign (int_text (sint w) @ r) = dec_digits (nat \<bar>sint w\<bar>) @ r" using c by (simp add: t jsign_def)
    then show ?thesis using d(1-3) stop False c by (simp add: jint_def t Let_def)
  qed
qed

lemma int_text_head: "\<exists>c t. int_text i = c # t \<and> (is_digit c \<or> c = 45)"
proof -
  obtain c t where "dec_digits (nat \<bar>i\<bar>) = c # t" "is_digit c" using dec_digits_shape [of "nat \<bar>i\<bar>"] by (cases "dec_digits (nat \<bar>i\<bar>)") auto
  then show ?thesis by (auto simp: int_text_def)
qed

lemma digit_head: "is_digit c \<or> c = 45 \<Longrightarrow> \<not> ws_byte c \<and> c \<noteq> 110 \<and> c \<noteq> 123 \<and> c \<noteq> 91 \<and> c \<noteq> 34 \<and> c \<noteq> 116 \<and> c \<noteq> 102"
  by (auto simp: is_digit_def ws_byte_def word_le_def)

section \<open>Leaves\<close>

lemma value_null:
  "stops r \<Longrightarrow> fc \<noteq> WOB_FIELD_JSON_RAW \<Longrightarrow> value_step E mem obj prs its kd fc fe (j_null @ r) = JOk (nil_of kd fc) r"
  using skip_words(1) [of r] by (simp add: value_step_def j_null_def ws_byte_def of_opt_def)

lemma value_bool:
  assumes "stops r" "fc \<noteq> WOB_FIELD_JSON_RAW"
  shows "value_step E mem obj prs its KScalar fc fe (j_true @ r) = JOk (VWord 1) r"
    "value_step E mem obj prs its KScalar fc fe (j_false @ r) = JOk (VWord 0) r"
  using skip_words(2,3) [OF assms(1)] assms(2)
  by (simp_all add: value_step_def j_true_def j_false_def ws_byte_def of_opt_def truth_def)

lemma value_scalar:
  assumes r: "stops r" and fits: "scalar_fits fc w"
  shows "value_step E mem obj prs its KScalar fc fe (enc_scalar w fc @ r) = JOk (VWord w) r"
proof -
  have fc: "fc \<noteq> WOB_FIELD_JSON_RAW" "fc \<noteq> WOB_FIELD_NIL_FLOAT" using fits by (simp_all add: scalar_fits_def)
  have num: "value_step E mem obj prs its KScalar fc fe (int_text (sint w) @ r) = JOk (VWord w) r"
    if "w \<noteq> 0x8000000000000000"
  proof -
    obtain c t where c: "int_text (sint w) = c # t" "is_digit c \<or> c = 45" using int_text_head by blast
    show ?thesis using jint_text [OF r that] digit_head [OF c(2)] fc(1) by (simp add: value_step_def c(1))
  qed
  show ?thesis
    using fits fc num value_null [OF r fc(1), of E mem obj prs its KScalar fe] value_bool [OF r fc(1)]
    by (auto simp: scalar_fits_def enc_scalar_def nil_of_def WOB_FIELD_NIL_SCALAR_def WOB_FIELD_BOOL_def WOB_FIELD_NIL_BOOL_def
        WO_NIL_SCALAR_def split: if_splits)
qed

lemma value_float:
  assumes r: "stops r" and fits: "float_fits E fc w"
  shows "value_step E mem obj prs its KFloat fc fe (enc_float E w fc @ r) = JOk (VWord w) r"
proof (cases "fc = WOB_FIELD_NIL_FLOAT \<and> w = WO_NIL_FLOAT")
  case True
  then show ?thesis using value_null [OF r, of fc E mem obj prs its KFloat fe]
    by (simp add: enc_float_def nil_of_def WOB_FIELD_NIL_FLOAT_def WOB_FIELD_JSON_RAW_def)
next
  case False
  let ?t = "wo_float_text E w"
  have f: "fc \<noteq> WOB_FIELD_JSON_RAW" "f64_finite w" "?t \<noteq> []" "length ?t < 64" "is_digit (hd ?t) \<or> hd ?t = 45"
    "jfloat_end (?t @ r) = Some r" "j_strtod E ?t = w"
    using fits False r float_text_short [of E w] by (auto simp: float_fits_def WO_FLOAT_TEXT_CAP_def)
  obtain c u where c: "?t = c # u" using f(3) by (cases ?t) auto
  have "jfloat E (?t @ r) = JOk (VWord w) r" using f by (simp add: jfloat_def)
  moreover have "enc_float E w fc = ?t" using False f(2) by (auto simp: enc_float_def)
  moreover have "is_digit c \<or> c = 45" using f(5) by (simp add: c)
  ultimately show ?thesis using digit_head [of c] f(1) c by (simp add: value_step_def)
qed

lemma value_text:
  assumes "mem AVmStr" "fc \<noteq> WOB_FIELD_JSON_RAW"
  shows "value_step E mem obj prs its KText fc fe (jb_text s @ r) = JOk (VStr s) r"
proof -
  obtain u where u: "jb_text s @ r = 34 # u" by (simp add: jb_text_def)
  show ?thesis using parse_text [where mem = mem and s = s and r = r] assms unfolding u
    by (simp add: value_step_def ws_byte_def)
qed

lemma value_bytes:
  assumes "mem AVmStr" "fc \<noteq> WOB_FIELD_JSON_RAW"
  shows "value_step E mem obj prs its KBytes fc fe (34 # b64_enc s @ 34 # r) = JOk (VBytes s) r"
proof -
  have "length (b64_enc s) mod 4 = 0" by (simp add: b64_enc_length)
  then have "wo_base64_to_bytes mem (b64_enc s) = (0, VBytes s)"
    using assms(1) by (simp add: wo_base64_to_bytes_def b64_enc_pad b64_loop_enc)
  moreover have "jparse_string mem (34 # b64_enc s @ 34 # r) = Some (b64_enc s, r)"
    using assms(1) b64_enc_plain str_body_plain by (simp add: jparse_string_def)
  ultimately show ?thesis using assms(2) by (simp add: value_step_def ws_byte_def)
qed

lemma value_raw:
  assumes "mem AVmStr" "raw_fits s" "stops r"
  shows "value_step E mem obj prs its kd WOB_FIELD_JSON_RAW fe (s @ r) = JOk (VStr s) r"
proof -
  obtain c t where c: "s = c # t" "\<not> ws_byte c" using assms(2) by (cases s) (auto simp: raw_fits_def)
  have "jskip_value (s @ r) = Some r" using assms(2,3) by (simp add: raw_fits_def)
  then show ?thesis using assms(1) c by (simp add: value_step_def)
qed

section \<open>Lists of entries\<close>

lemma expect_at: "\<not> ws_byte d \<Longrightarrow> expect c (d # s) = (if d = c then Some s else None)"
  by (simp add: expect_def)

lemma sep_not_ws [simp]: "\<not> ws_byte 44" "\<not> ws_byte 93" "\<not> ws_byte 125" "\<not> ws_byte 34" "\<not> ws_byte 58" "\<not> ws_byte 91" "\<not> ws_byte 123"
  by (simp_all add: ws_byte_def)

lemma jnext_close: "close = 93 \<or> close = 125 \<Longrightarrow> jnext close again v (close # r) = JOk v r"
  by (auto simp: jnext_def expect_at of_opt_def)

lemma jnext_more: "jnext close again v (44 # r) = again r"
  by (simp add: jnext_def expect_at)

lemma stops_cons [simp]: "stops (44 # r)" "stops (93 # r)" "stops (125 # r)" "stops []"
  by (simp_all add: stops_def)

lemma enc_items_more: "xs \<noteq> [] \<Longrightarrow> enc_items E False xs ek fc = 44 # enc_items E True xs ek fc"
  by (cases xs) simp_all

lemma enc_pairs_more: "ks \<noteq> [] \<Longrightarrow> length vs = length ks \<Longrightarrow> enc_pairs E False ks vs kk vk fc = 44 # enc_pairs E True ks vs kk vk fc"
  by (cases ks; cases vs) simp_all

lemma enc_fields_more:
  "fs \<noteq> [] \<Longrightarrow> length vs = length fs \<Longrightarrow> None \<notin> set (map jf_name fs) \<Longrightarrow> enc_fields E False vs fs = 44 # enc_fields E True vs fs"
  by (cases fs; cases vs) (auto split: option.split)

lemma jkey_text:
  "mem AVmStr \<Longrightarrow> jkey mem (jb_text k @ 58 # r) = Some (k, r)"
proof -
  assume m: "mem AVmStr"
  obtain u where u: "jb_text k @ 58 # r = 34 # u" by (simp add: jb_text_def)
  show ?thesis using parse_text [where mem = mem and s = k and r = "58 # r", OF m] unfolding u
    by (simp add: jkey_def expect_at)
qed

text \<open>\<open>trips E mem x kd fc fe\<close>: with enough fuel, the text of \<open>x\<close> is read as \<open>x\<close> in front of any delimiter.\<close>

definition trips :: "jio \<Rightarrow> mem \<Rightarrow> vmval \<Rightarrow> kind \<Rightarrow> u32 \<Rightarrow> u32 \<Rightarrow> bool" where
  "trips E mem x kd fc fe \<longleftrightarrow>
     (\<forall>r. stops r \<longrightarrow> (\<exists>N. \<forall>n\<ge>N. jvalue E mem n kd fc fe (enc_value E x kd fc @ r) = JOk x r))"

lemma tripsD: "trips E mem x kd fc fe \<Longrightarrow> stops r \<Longrightarrow> \<exists>N. \<forall>n\<ge>N. jvalue E mem n kd fc fe (enc_value E x kd fc @ r) = JOk x r"
  by (simp add: trips_def)

lemma trips_leaf:
  assumes "\<And>obj prs its r. stops r \<Longrightarrow> value_step E mem obj prs its kd fc fe (enc_value E x kd fc @ r) = JOk x r"
  shows "trips E mem x kd fc fe"
  unfolding trips_def
proof (intro allI impI exI [of _ 1])
  fix r n assume r: "stops r" and "(1 :: nat) \<le> n"
  then obtain k where "n = Suc k" by (cases n) auto
  then show "jvalue E mem n kd fc fe (enc_value E x kd fc @ r) = JOk x r" using assms [OF r] by simp
qed

lemma items_trip:
  assumes "mem AVmPush"
  shows "xs \<noteq> [] \<Longrightarrow> \<forall>x\<in>set xs. trips E mem x (elem_kind m) fc 0 \<Longrightarrow>
    \<exists>N. \<forall>n\<ge>N. \<exists>m'. jitems E mem n fc m (enc_items E True xs (elem_kind m) fc @ 93 # r) = JOk m' r \<and> items m' = items m @ xs"
proof (induction xs arbitrary: m)
  case (Cons x xs)
  let ?ek = "elem_kind m"
  obtain m1 where m1: "wo_multi_push mem m x = Some m1" using wo_multi_push_ok [where mem = mem and m = m and v = x, OF assms] by blast
  note p = wo_multi_push_items [OF m1]
  have x: "trips E mem x ?ek fc 0" using Cons.prems by simp
  show ?case
  proof (cases "xs = []")
    case True
    obtain N where N: "\<forall>n\<ge>N. jvalue E mem n ?ek fc 0 (enc_value E x ?ek fc @ 93 # r) = JOk x (93 # r)"
      using tripsD [OF x, of "93 # r"] by auto
    have "jitems E mem n fc m (enc_items E True (x # xs) ?ek fc @ 93 # r) = JOk m1 r" if "Suc N \<le> n" for n
      using that N m1 True by (cases n) (simp_all add: items_step_def jnext_close)
    then show ?thesis using p True by blast
  next
    case False
    let ?rest = "enc_items E True xs ?ek fc @ 93 # r"
    obtain N1 where N1: "\<forall>n\<ge>N1. jvalue E mem n ?ek fc 0 (enc_value E x ?ek fc @ 44 # ?rest) = JOk x (44 # ?rest)"
      using tripsD [OF x, of "44 # ?rest"] by auto
    obtain N2 where N2: "\<forall>n\<ge>N2. \<exists>m'. jitems E mem n fc m1 ?rest = JOk m' r \<and> items m' = items m1 @ xs"
      using Cons.IH [OF False, of m1] Cons.prems p by auto
    have "\<exists>m'. jitems E mem n fc m (enc_items E True (x # xs) ?ek fc @ 93 # r) = JOk m' r \<and> items m' = items m @ x # xs" if h: "Suc (max N1 N2) \<le> n" for n
    proof -
      obtain k where k: "n = Suc k" "N1 \<le> k" "N2 \<le> k" using h by (cases n) auto
      obtain m' where m': "jitems E mem k fc m1 ?rest = JOk m' r" "items m' = items m1 @ xs" using N2 k by blast
      have "jvalue E mem k ?ek fc 0 (enc_value E x ?ek fc @ 44 # ?rest) = JOk x (44 # ?rest)" using N1 k by blast
      then show ?thesis using m' m1 p False by (simp add: k enc_items_more items_step_def jnext_more)
    qed
    then show ?thesis by blast
  qed
qed simp

lemma map_set_new:
  assumes "mem AVmMapKeys" "mem AVmMapVals" "key_kind m = KText" "keys m = map VStr ks" "k \<notin> set ks"
  shows "\<exists>m' old. wo_map_set mem m (VStr k) v = Some (m', old) \<and> keys m' = map VStr (ks @ [k]) \<and> vals m' = vals m @ [v] \<and>
    key_kind m' = KText \<and> val_kind m' = val_kind m"
proof -
  have "map_find m (VStr k) = None" using assms(3-5) by (auto simp: map_find_None key_eq_def key_norm_def)
  then show ?thesis using assms by (simp add: wo_map_set_def)
qed

lemma pairs_trip:
  assumes mm: "mem AVmMapKeys" "mem AVmMapVals" "mem AVmStr"
  shows "ks \<noteq> [] \<Longrightarrow> length vs = length ks \<Longrightarrow> distinct (ks0 @ ks) \<Longrightarrow> key_kind m = KText \<Longrightarrow> keys m = map VStr ks0 \<Longrightarrow>
    \<forall>x\<in>set vs. trips E mem x (val_kind m) fc 0 \<Longrightarrow>
    \<exists>N. \<forall>n\<ge>N. \<exists>m'. jpairs E mem n fc m (enc_pairs E True (map VStr ks) vs KText (val_kind m) fc @ 125 # r) = JOk m' r \<and>
      keys m' = map VStr (ks0 @ ks) \<and> vals m' = vals m @ vs"
proof (induction ks arbitrary: m vs ks0)
  case (Cons k ks)
  let ?vk = "val_kind m"
  obtain v ws where vs: "vs = v # ws" and l: "length ws = length ks" using Cons.prems(2) by (cases vs) auto
  have v: "trips E mem v ?vk fc 0" using Cons.prems vs by simp
  obtain m1 old where m1: "wo_map_set mem m (VStr k) v = Some (m1, old)" "keys m1 = map VStr (ks0 @ [k])" "vals m1 = vals m @ [v]"
      "key_kind m1 = KText" "val_kind m1 = ?vk"
    using map_set_new [where m = m and ks = ks0 and k = k and v = v, OF mm(1,2)] Cons.prems by auto
  have key: "enc_key E KText (VStr k) = jb_text k" by (simp add: enc_key_def vm_null_def elem_text_def)
  show ?case
  proof (cases "ks = []")
    case True
    obtain N where N: "\<forall>n\<ge>N. jvalue E mem n ?vk fc 0 (enc_value E v ?vk fc @ 125 # r) = JOk v (125 # r)"
      using tripsD [OF v, of "125 # r"] by auto
    have "jpairs E mem n fc m (enc_pairs E True (map VStr (k # ks)) vs KText ?vk fc @ 125 # r) = JOk m1 r" if "Suc N \<le> n" for n
      using that N m1(1) True vs l jkey_text [where mem = mem, OF mm(3)] key by (cases n) (simp_all add: pairs_step_def jnext_close)
    then show ?thesis using m1 True vs l by force
  next
    case False
    let ?rest = "enc_pairs E True (map VStr ks) ws KText ?vk fc @ 125 # r"
    obtain N1 where N1: "\<forall>n\<ge>N1. jvalue E mem n ?vk fc 0 (enc_value E v ?vk fc @ 44 # ?rest) = JOk v (44 # ?rest)"
      using tripsD [OF v, of "44 # ?rest"] by auto
    obtain N2 where N2: "\<forall>n\<ge>N2. \<exists>m'. jpairs E mem n fc m1 ?rest = JOk m' r \<and> keys m' = map VStr ((ks0 @ [k]) @ ks) \<and> vals m' = vals m1 @ ws"
      using Cons.IH [OF False l, of "ks0 @ [k]" m1] Cons.prems m1 vs by auto
    have "\<exists>m'. jpairs E mem n fc m (enc_pairs E True (map VStr (k # ks)) vs KText ?vk fc @ 125 # r) = JOk m' r \<and>
      keys m' = map VStr (ks0 @ k # ks) \<and> vals m' = vals m @ vs" if h: "Suc (max N1 N2) \<le> n" for n
    proof -
      obtain q where q: "n = Suc q" "N1 \<le> q" "N2 \<le> q" using h by (cases n) auto
      obtain m' where m': "jpairs E mem q fc m1 ?rest = JOk m' r" "keys m' = map VStr ((ks0 @ [k]) @ ks)" "vals m' = vals m1 @ ws" using N2 q by blast
      have "jvalue E mem q ?vk fc 0 (enc_value E v ?vk fc @ 44 # ?rest) = JOk v (44 # ?rest)" using N1 q by blast
      then show ?thesis using m' m1 False l vs jkey_text [where mem = mem, OF mm(3)] key by (simp add: q enc_pairs_more pairs_step_def jnext_more)
    qed
    then show ?thesis by blast
  qed
qed simp

lemma field_find_at:
  "distinct (map jf_name (as @ f # bs)) \<Longrightarrow> jf_name f = Some nm \<Longrightarrow> field_find (as @ f # bs) nm i = Some (i + length as)"
proof (induction as arbitrary: i)
  case (Cons a as)
  then have "jf_name a \<noteq> Some nm" by (auto simp: image_iff)
  then show ?case using Cons by simp
qed simp

text \<open>The fields in front have their values, the others those of a fresh object.\<close>

lemma fields_trip:
  assumes "mem AVmStr"
  shows "fb \<noteq> [] \<Longrightarrow> length vb = length fb \<Longrightarrow> length va = length fa \<Longrightarrow> distinct (map jf_name (fa @ fb)) \<Longrightarrow> None \<notin> set (map jf_name fb) \<Longrightarrow>
    length ib = length fb \<Longrightarrow>
    (\<forall>i<length fb. trips E mem (vb ! i) (jf_kind (fb ! i)) (jf_class (fb ! i)) (jf_elem (fb ! i))) \<Longrightarrow>
    \<exists>N. \<forall>n\<ge>N. jfields E mem n (fa @ fb) (va @ ib) (enc_fields E True vb fb @ 125 # r) = JOk (va @ vb) r"
proof (induction fb arbitrary: vb fa va ib)
  case (Cons f fb)
  obtain v ws where vb: "vb = v # ws" "length ws = length fb" using Cons.prems(2) by (cases vb) auto
  obtain i0 ir where ib: "ib = i0 # ir" "length ir = length fb" using Cons.prems(6) by (cases ib) auto
  obtain nm where nm: "jf_name f = Some nm" using Cons.prems(5) by (cases "jf_name f") auto
  have v: "trips E mem v (jf_kind f) (jf_class f) (jf_elem f)" using Cons.prems(7) vb by force
  have find: "field_find (fa @ f # fb) nm 0 = Some (length fa)" using field_find_at [OF Cons.prems(4) nm, of 0] by simp
  have upd: "(va @ i0 # ir)[length fa := v] = va @ v # ir" using Cons.prems(3) by (metis list_update_length)
  note simps = fields_step_def jkey_text [where mem = mem, OF assms] find upd nm vb ib
  show ?case
  proof (cases "fb = []")
    case True
    obtain N where N: "\<forall>n\<ge>N. jvalue E mem n (jf_kind f) (jf_class f) (jf_elem f) (enc_value E v (jf_kind f) (jf_class f) @ 125 # r) = JOk v (125 # r)"
      using tripsD [OF v, of "125 # r"] by auto
    have e: "ws = []" "ir = []" "field_find (fa @ [f]) nm 0 = Some (length fa)" using True vb ib find by simp_all
    have "jfields E mem n (fa @ f # fb) (va @ ib) (enc_fields E True vb (f # fb) @ 125 # r) = JOk (va @ vb) r" if "Suc N \<le> n" for n
      using that N True upd by (cases n) (simp_all add: simps e jnext_close)
    then show ?thesis by blast
  next
    case False
    let ?rest = "enc_fields E True ws fb @ 125 # r"
    have named: "None \<notin> set (map jf_name fb)" using Cons.prems(5) by simp
    obtain N1 where N1: "\<forall>n\<ge>N1. jvalue E mem n (jf_kind f) (jf_class f) (jf_elem f) (enc_value E v (jf_kind f) (jf_class f) @ 44 # ?rest) = JOk v (44 # ?rest)"
      using tripsD [OF v, of "44 # ?rest"] by auto
    have "\<forall>i<length fb. trips E mem (ws ! i) (jf_kind (fb ! i)) (jf_class (fb ! i)) (jf_elem (fb ! i))"
      using Cons.prems(7) vb by (metis Suc_less_eq length_Cons nth_Cons_Suc)
    then obtain N2 where N2: "\<forall>n\<ge>N2. jfields E mem n ((fa @ [f]) @ fb) ((va @ [v]) @ ir) ?rest = JOk ((va @ [v]) @ ws) r"
      using Cons.IH [OF False vb(2), of "va @ [v]" "fa @ [f]" ir] Cons.prems vb ib by auto
    have "jfields E mem n (fa @ f # fb) (va @ ib) (enc_fields E True vb (f # fb) @ 125 # r) = JOk (va @ vb) r" if h: "Suc (max N1 N2) \<le> n" for n
    proof -
      obtain q where q: "n = Suc q" "N1 \<le> q" "N2 \<le> q" using h by (cases n) auto
      have "jvalue E mem q (jf_kind f) (jf_class f) (jf_elem f) (enc_value E v (jf_kind f) (jf_class f) @ 44 # ?rest) = JOk v (44 # ?rest)"
        "jfields E mem q (fa @ f # fb) (va @ v # ir) ?rest = JOk (va @ v # ws) r" using N1 N2 q by simp_all
      then show ?thesis using enc_fields_more [OF False vb(2) named] by (simp add: q simps jnext_more)
    qed
    then show ?thesis by blast
  qed
qed simp

section \<open>Every value\<close>

text \<open>The first byte of a text of a value is no white space and closes nothing.\<close>

lemma enc_head:
  assumes "jv_ok E kd fc fe x"
  shows "\<exists>c t. enc_value E x kd fc = c # t \<and> \<not> ws_byte c \<and> c \<noteq> 93 \<and> c \<noteq> 125"
  using assms
proof cases
  case (jv_scalar w)
  obtain c t where "int_text (sint w) = c # t" "is_digit c \<or> c = 45" using int_text_head by blast
  moreover from this(2) have "\<not> ws_byte c \<and> c \<noteq> 93 \<and> c \<noteq> 125" by (auto simp: is_digit_def ws_byte_def word_le_def)
  ultimately show ?thesis using jv_scalar
    by (auto simp: enc_value.simps enc_scalar_def elem_word_def j_null_def j_true_def j_false_def ws_byte_def)
next
  case (jv_float w)
  then show ?thesis
  proof (cases "fc = WOB_FIELD_NIL_FLOAT \<and> w = WO_NIL_FLOAT")
    case True
    then show ?thesis using jv_float by (simp add: enc_value.simps enc_float_def elem_word_def j_null_def ws_byte_def)
  next
    case False
    then have f: "f64_finite w" "wo_float_text E w \<noteq> []" "is_digit (hd (wo_float_text E w)) \<or> hd (wo_float_text E w) = 45"
      using jv_float by (auto simp: float_fits_def)
    then obtain c t where "wo_float_text E w = c # t" "is_digit c \<or> c = 45" by (cases "wo_float_text E w") auto
    moreover from this(2) have "\<not> ws_byte c \<and> c \<noteq> 93 \<and> c \<noteq> 125" by (auto simp: is_digit_def ws_byte_def word_le_def)
    ultimately show ?thesis using jv_float f(1) False by (auto simp: enc_value.simps enc_float_def elem_word_def)
  qed
next
  case (jv_obj cid fs vs)
  then show ?thesis by (auto simp: enc_value.simps vm_null_def ws_byte_def)
next
  case (jv_raw s)
  then obtain c t where c: "s = c # t" "\<not> ws_byte c" "jskip_value (s @ []) = Some []" by (cases s) (auto simp: raw_fits_def stops_def)
  then have "c \<noteq> 93 \<and> c \<noteq> 125" by (auto simp: jskip_value_def jdelim_def)
  then show ?thesis using jv_raw c by (simp add: enc_value.simps vm_null_def elem_text_def)
qed (simp_all add: enc_value.simps vm_null_def j_null_def jb_text_def ws_byte_def)

lemma enc_fields_head:
  "fs \<noteq> [] \<Longrightarrow> length vs = length fs \<Longrightarrow> None \<notin> set (map jf_name fs) \<Longrightarrow> \<exists>u. enc_fields E True vs fs @ t = 34 # u"
  by (cases fs; cases vs) (auto simp: jb_text_def split: option.split)

lemma value_trip:
  assumes mm: "\<forall>s. mem s" and x: "jv_ok E kd fc fe x"
  shows "trips E mem x kd fc fe"
  using x
proof (induction rule: jv_ok.induct)
  case (jv_scalar fc w fe)
  then show ?case by (intro trips_leaf) (simp add: enc_value.simps elem_word_def value_scalar)
next
  case (jv_float fc w fe)
  then show ?case by (intro trips_leaf) (simp add: enc_value.simps elem_word_def value_float)
next
  case (jv_null kd fc fe)
  then have "nil_of kd fc = VNull" by (simp add: jmarked_def nil_of_def zero_of_def)
  then show ?case using jv_null by (intro trips_leaf) (simp add: enc_value.simps vm_null_def value_null jmarked_def)
next
  case (jv_text fc fe s)
  then show ?case using mm by (intro trips_leaf) (simp add: enc_value.simps vm_null_def elem_text_def value_text)
next
  case (jv_raw s fe)
  then show ?case using mm by (intro trips_leaf) (simp add: enc_value.simps vm_null_def elem_text_def value_raw)
next
  case (jv_bytes fc fe s)
  then show ?case using mm by (intro trips_leaf) (simp add: enc_value.simps vm_null_def elem_text_def value_bytes)
next
  case (jv_multi fe ek fc xs)
  obtain m where m: "wo_multi_new mem ek = Some m" "elem_kind m = ek" "items m = []" using mm by (simp add: wo_multi_new_def)
  have "\<exists>N. \<forall>n\<ge>N. jvalue E mem n KMulti fc fe (enc_value E (VMulti ek xs) KMulti fc @ r) = JOk (VMulti ek xs) r" for r
  proof (cases "xs = []")
    case True
    have "jvalue E mem n KMulti fc fe (enc_value E (VMulti ek xs) KMulti fc @ r) = JOk (VMulti ek xs) r" if "1 \<le> n" for n
      using that jv_multi m True by (cases n) (simp_all add: enc_value.simps vm_null_def value_step_def expect_at)
    then show ?thesis by blast
  next
    case False
    then obtain x ys where xs: "xs = x # ys" by (cases xs) auto
    have "jv_ok E ek fc 0 x" using jv_multi xs by simp
    then obtain c t where c: "enc_value E x ek fc = c # t" "\<not> ws_byte c" "c \<noteq> 93" using enc_head by blast
    have ne: "expect 93 (enc_items E True xs ek fc @ 93 # r) = None" using c by (simp add: xs expect_at)
    obtain N where N: "\<forall>n\<ge>N. \<exists>m'. jitems E mem n fc m (enc_items E True xs ek fc @ 93 # r) = JOk m' r \<and> items m' = items m @ xs"
      using items_trip [of mem xs E m fc r] mm jv_multi m False by auto
    have "jvalue E mem n KMulti fc fe (enc_value E (VMulti ek xs) KMulti fc @ r) = JOk (VMulti ek xs) r" if h: "Suc N \<le> n" for n
    proof -
      obtain q where q: "n = Suc q" "N \<le> q" using h by (cases n) auto
      obtain m' where "jitems E mem q fc m (enc_items E True xs ek fc @ 93 # r) = JOk m' r" "items m' = xs" using N q m by auto
      then show ?thesis using jv_multi m ne by (simp add: q enc_value.simps vm_null_def value_step_def)
    qed
    then show ?thesis by blast
  qed
  then show ?case by (simp add: trips_def)
next
  case (jv_map fe vk fc ks vs)
  obtain m where m: "wo_map_new mem KText vk = Some m" "key_kind m = KText" "val_kind m = vk" "keys m = []" "vals m = []"
    using mm by (simp add: wo_map_new_def)
  let ?x = "VMap KText vk (map VStr ks) vs"
  have "\<exists>N. \<forall>n\<ge>N. jvalue E mem n KMap fc fe (enc_value E ?x KMap fc @ r) = JOk ?x r" for r
  proof (cases "ks = []")
    case True
    have "jvalue E mem n KMap fc fe (enc_value E ?x KMap fc @ r) = JOk ?x r" if "1 \<le> n" for n
      using that jv_map m True by (cases n) (simp_all add: enc_value.simps vm_null_def value_step_def expect_at)
    then show ?thesis by blast
  next
    case False
    obtain u where u: "enc_pairs E True (map VStr ks) vs KText vk fc @ 125 # r = 34 # u"
      using False jv_map by (cases ks; cases vs) (auto simp: enc_key_def vm_null_def jb_text_def)
    have ne: "expect 125 (enc_pairs E True (map VStr ks) vs KText vk fc @ 125 # r) = None" unfolding u by (simp add: expect_at)
    have tr: "\<forall>x\<in>set vs. trips E mem x (val_kind m) fc 0" using jv_map m by simp
    obtain N where N: "\<forall>n\<ge>N. \<exists>m'. jpairs E mem n fc m (enc_pairs E True (map VStr ks) vs KText vk fc @ 125 # r) = JOk m' r \<and>
        keys m' = map VStr ks \<and> vals m' = vs"
      using pairs_trip [where mem = mem and ks = ks and vs = vs and ks0 = "[]" and E = E and m = m and fc = fc and r = r] mm jv_map m tr False by auto
    have "jvalue E mem n KMap fc fe (enc_value E ?x KMap fc @ r) = JOk ?x r" if h: "Suc N \<le> n" for n
    proof -
      obtain q where q: "n = Suc q" "N \<le> q" using h by (cases n) auto
      obtain m' where "jpairs E mem q fc m (enc_pairs E True (map VStr ks) vs KText vk fc @ 125 # r) = JOk m' r" "keys m' = map VStr ks" "vals m' = vs"
        using N q by auto
      then show ?thesis using jv_map m ne by (simp add: q enc_value.simps vm_null_def value_step_def)
    qed
    then show ?thesis by blast
  qed
  then show ?case by (simp add: trips_def)
next
  case (jv_obj kd fc cid fs vs fe)
  let ?x = "VObj cid vs"
  have body: "enc_value E ?x kd fc = 123 # enc_fields E True vs fs @ [125]"
    using jv_obj(1,4,5) by (auto simp: enc_value.simps vm_null_def)
  have call: "jvalue E mem (Suc n) kd fc fe (123 # s) = jobject E mem n cid (123 # s)" for n s
    using jv_obj(1-4) by (auto simp: value_step_def)
  have "\<exists>N. \<forall>n\<ge>N. jvalue E mem n kd fc fe (enc_value E ?x kd fc @ r) = JOk ?x r" for r
  proof (cases "fs = []")
    case True
    have "jvalue E mem n kd fc fe (enc_value E ?x kd fc @ r) = JOk ?x r" if h: "2 \<le> n" for n
    proof -
      obtain q where q: "n = Suc (Suc q)" using h by (cases n; cases "n - 1") auto
      have e: "jfields_of (j_mod E) cid = []" "vs = []" using jv_obj(5,8) True by simp_all
      have b: "enc_value E ?x kd fc @ r = 123 # 125 # r" by (subst body) (simp add: True e)
      show ?thesis using mm unfolding q b call by (simp add: object_step_def Let_def expect_at e)
    qed
    then show ?thesis by blast
  next
    case False
    obtain u where u: "enc_fields E True vs fs @ 125 # r = 34 # u"
      using enc_fields_head [OF False jv_obj(8,7)] by blast
    have ne: "expect 125 (enc_fields E True vs fs @ 125 # r) = None" unfolding u by (simp add: expect_at)
    obtain N where N: "\<forall>n\<ge>N. jfields E mem n fs (map field_init fs) (enc_fields E True vs fs @ 125 # r) = JOk vs r"
      using fields_trip [where mem = mem and fb = fs and vb = vs and va = "[]" and fa = "[]" and ib = "map field_init fs" and E = E and r = r]
        mm jv_obj(6-9) False by auto
    have "jvalue E mem n kd fc fe (enc_value E ?x kd fc @ r) = JOk ?x r" if h: "Suc (Suc N) \<le> n" for n
    proof -
      obtain q where q: "n = Suc (Suc q)" "N \<le> q" using h by (cases n; cases "n - 1") auto
      then have "jfields E mem q fs (map field_init fs) (enc_fields E True vs fs @ 125 # r) = JOk vs r" using N by blast
      then show ?thesis using mm ne unfolding q body append_Cons append_assoc call by (simp add: object_step_def Let_def expect_at jv_obj(5) [symmetric])
    qed
    then show ?thesis by blast
  qed
  then show ?case by (simp add: trips_def)
qed

end
