(* ===== verification/JsonTyped.thy ===== *)
theory JsonTyped
  imports JsonRound
begin

text \<open>
  What the decoder binds is well typed: every field of a decoded object holds a word or a null, a string, a
  \<open>Bytes\<close>, an object of the field's class, a \<open>multi\<close> or a well-formed \<open>map\<close> of the field's element kinds, as its
  kind says. \<open>metas_ok\<close> is what is asked of the class table, and the loader does not check: the markers of
  \<open>json.Value\<close> and of nullable words stand at fields of their kinds, the keys of \<open>map\<close>s are Text, and no \<open>multi\<close> or
  \<open>map\<close> holds \<open>map\<close>s, whose keys and values would have no kinds of their own.
\<close>

definition meta_fits :: "kind \<Rightarrow> u32 \<Rightarrow> bool" where
  "meta_fits kd fc \<longleftrightarrow> (fc = WOB_FIELD_JSON_RAW \<longrightarrow> kd = KText) \<and>
     (fc = WOB_FIELD_NIL_SCALAR \<or> fc = WOB_FIELD_NIL_BOOL \<longrightarrow> kd = KScalar) \<and> (fc = WOB_FIELD_NIL_FLOAT \<longrightarrow> kd = KFloat)"

definition elems_fit :: "kind \<Rightarrow> u32 \<Rightarrow> bool" where
  "elems_fit kd fe \<longleftrightarrow>
     (kd = KMap \<longrightarrow> fst (elem_kinds fe) \<in> {None, Some KText} \<and> snd (elem_kinds fe) \<noteq> Some KMap) \<and>
     (kd = KMulti \<longrightarrow> fst (elem_kinds fe) \<noteq> Some KMap)"

definition metas_ok :: "wo_module \<Rightarrow> bool" where
  "metas_ok m \<longleftrightarrow> (\<forall>cid<length (mclasses m). \<forall>f\<in>set (jfields_of m cid).
     meta_fits (jf_kind f) (jf_class f) \<and> elems_fit (jf_kind f) (jf_elem f))"

definition map_of_texts :: "wo_map \<Rightarrow> bool" where
  "map_of_texts m \<longleftrightarrow> map_inv m \<and> key_kind m = KText \<and> (\<forall>k\<in>set (keys m). \<exists>s. k = VStr s)"

inductive jtyped :: "jio \<Rightarrow> kind \<Rightarrow> u32 \<Rightarrow> u32 \<Rightarrow> vmval \<Rightarrow> bool" for E where
  jt_word: "kd = KScalar \<or> kd = KFloat \<Longrightarrow> jtyped E kd fc fe (VWord w)"
| jt_null: "kd \<noteq> KScalar \<Longrightarrow> kd \<noteq> KFloat \<Longrightarrow> jtyped E kd fc fe VNull"
| jt_text: "jtyped E KText fc fe (VStr s)"
| jt_bytes: "jtyped E KBytes fc fe (VBytes s)"
| jt_obj: "kd = KOwned \<or> kd = KGcref \<Longrightarrow> cid = unat fc \<Longrightarrow> cid < length (mclasses (j_mod E)) \<Longrightarrow>
    length vs = length (jfields_of (j_mod E) cid) \<Longrightarrow>
    (\<forall>i<length vs. jtyped E (jf_kind (jfields_of (j_mod E) cid ! i)) (jf_class (jfields_of (j_mod E) cid ! i))
       (jf_elem (jfields_of (j_mod E) cid ! i)) (vs ! i)) \<Longrightarrow> jtyped E kd fc fe (VObj cid vs)"
| jt_multi: "fst (elem_kinds fe) = Some ek \<Longrightarrow> (\<forall>x\<in>set xs. jtyped E ek fc 0 x) \<Longrightarrow> jtyped E KMulti fc fe (VMulti ek xs)"
| jt_map: "elem_kinds fe = (Some (key_kind m), Some (val_kind m)) \<Longrightarrow> map_inv m \<Longrightarrow>
    (\<forall>x\<in>set (keys m). jtyped E (key_kind m) fc 0 x) \<Longrightarrow> (\<forall>x\<in>set (vals m). jtyped E (val_kind m) fc 0 x) \<Longrightarrow>
    jtyped E KMap fc fe (VMap (key_kind m) (val_kind m) (keys m) (vals m))"

lemma text_keys_typed: "map_of_texts m \<Longrightarrow> \<forall>x\<in>set (keys m). jtyped E (key_kind m) fc fe x"
  by (auto simp: map_of_texts_def jt_text)

lemma elems_fit_0: "kd \<noteq> KMap \<Longrightarrow> elems_fit kd 0"
  by (simp add: elems_fit_def elem_kinds_def kind_of_byte_def)

lemma zero_typed: "jtyped E kd fc fe (zero_of kd)"
  by (simp add: zero_of_def jt_word jt_null)

lemma nil_typed: "meta_fits kd fc \<Longrightarrow> jtyped E kd fc fe (nil_of kd fc)"
  using zero_typed by (auto simp: nil_of_def meta_fits_def intro: jt_word)

lemma init_typed: "meta_fits (jf_kind f) (jf_class f) \<Longrightarrow> jtyped E (jf_kind f) (jf_class f) fe (field_init f)"
  using zero_typed by (auto simp: field_init_def meta_fits_def intro: jt_word)

definition fields_typed :: "jio \<Rightarrow> jfield list \<Rightarrow> vmval list \<Rightarrow> bool" where
  "fields_typed E fs vs \<longleftrightarrow> length vs = length fs \<and>
     (\<forall>i<length vs. jtyped E (jf_kind (fs ! i)) (jf_class (fs ! i)) (jf_elem (fs ! i)) (vs ! i))"

lemma of_opt_JOk: "of_opt v x = JOk w r \<longleftrightarrow> w = v \<and> x = Some r"
  by (auto simp: of_opt_def split: option.split)

lemma jint_typed: "jint kd s = JOk v r \<Longrightarrow> kd \<noteq> KFloat \<Longrightarrow> jtyped E kd fc fe v"
  by (auto simp: jint_def Let_def jt_word jt_null split: option.splits if_splits)

lemma jfloat_typed: "jfloat E s = JOk v r \<Longrightarrow> jtyped E KFloat fc fe v"
  by (auto simp: jfloat_def Let_def jt_word split: option.splits if_splits)

lemma base64_typed: "wo_base64_to_bytes mem b = (rc, v) \<Longrightarrow> jtyped E KBytes fc fe (if rc = 0 then v else VNull)"
  by (auto simp: wo_base64_to_bytes_def jt_bytes jt_null split: if_splits option.splits)

lemma value_step_typed:
  assumes meta: "meta_fits kd fc" and el: "elems_fit kd fe"
    and obj: "\<And>cid t v r. cid < length (mclasses (j_mod E)) \<Longrightarrow> obj cid t = JOk v r \<Longrightarrow>
      \<exists>vs. v = VObj cid vs \<and> fields_typed E (jfields_of (j_mod E) cid) vs"
    and prs: "\<And>m t m' r. meta_fits (val_kind m) fc \<Longrightarrow> val_kind m \<noteq> KMap \<Longrightarrow> map_of_texts m \<Longrightarrow> (\<forall>x\<in>set (vals m). jtyped E (val_kind m) fc 0 x) \<Longrightarrow> prs fc m t = JOk m' r \<Longrightarrow>
      key_kind m' = key_kind m \<and> val_kind m' = val_kind m \<and> map_of_texts m' \<and> (\<forall>x\<in>set (vals m'). jtyped E (val_kind m) fc 0 x)"
    and its: "\<And>m t m' r. meta_fits (elem_kind m) fc \<Longrightarrow> elem_kind m \<noteq> KMap \<Longrightarrow> (\<forall>x\<in>set (items m). jtyped E (elem_kind m) fc 0 x) \<Longrightarrow> its fc m t = JOk m' r \<Longrightarrow>
      (\<forall>x\<in>set (items m'). jtyped E (elem_kind m) fc 0 x)"
    and run: "value_step E mem obj prs its kd fc fe s = JOk v r"
  shows "jtyped E kd fc fe v"
proof (cases "jskip_ws s")
  case Nil
  then show ?thesis using run by (simp add: value_step_def)
next
  case (Cons c u)
  note step = value_step_def Cons list.case Let_def
  have plain: "meta_fits k fc" if "kd = KMulti \<or> kd = KMap" for k
    using meta that by (auto simp: meta_fits_def)
  consider "fc = WOB_FIELD_JSON_RAW" | "fc \<noteq> WOB_FIELD_JSON_RAW" "c = 123" | "fc \<noteq> WOB_FIELD_JSON_RAW" "c = 91"
    | "fc \<noteq> WOB_FIELD_JSON_RAW" "c \<noteq> 123" "c \<noteq> 91" by blast
  then show ?thesis
  proof cases
    case 1
    then show ?thesis using run meta by (auto simp: step meta_fits_def jt_text split: option.splits if_splits)
  next
    case 2
    show ?thesis
    proof (cases "(kd = KOwned \<or> kd = KGcref) \<and> unat fc < length (mclasses (j_mod E))")
      case True
      then have "obj (unat fc) (c # u) = JOk v r" using run 2 by (auto simp: step)
      with obj True obtain vs where "v = VObj (unat fc) vs" "fields_typed E (jfields_of (j_mod E) (unat fc)) vs" by blast
      then show ?thesis using True by (auto simp: fields_typed_def intro!: jt_obj)
    next
      case notobj: False
      show ?thesis
      proof (cases "kd = KMap")
        case False
        have "v = zero_of kd"
          using run 2 False unfolding step by (simp only: if_not_P [OF notobj] if_False if_True of_opt_JOk) (simp add: of_opt_JOk)
        then show ?thesis using zero_typed by simp
      next
        case True
        then obtain kk vk m where m: "elem_kinds fe = (Some kk, Some vk)" "wo_map_new mem kk vk = Some m"
          and v: "expect 125 u \<noteq> None \<and> v = VMap kk vk [] [] \<or> (\<exists>m' t. prs fc m u = JOk m' t \<and> v = VMap kk vk (keys m') (vals m'))"
          using run 2 by (auto simp: step on_jok_JOk split: option.splits prod.splits)
        have kt: "kk = KText" "vk \<noteq> KMap" using el m(1) True by (auto simp: elems_fit_def)
        have k: "key_kind m = kk" "val_kind m = vk" "keys m = []" "vals m = []" "map_of_texts m"
          using m(2) kt(1) by (auto simp: wo_map_new_def map_of_texts_def map_inv_def split: if_splits)
        from v show ?thesis
        proof
          assume "expect 125 u \<noteq> None \<and> v = VMap kk vk [] []"
          moreover have "map_inv m" using k(5) by (simp add: map_of_texts_def)
          ultimately show ?thesis using jt_map [where m = m and fe = fe and fc = fc and E = E] m(1) k True by simp
        next
          assume "\<exists>m' t. prs fc m u = JOk m' t \<and> v = VMap kk vk (keys m') (vals m')"
          then obtain m' t where m': "prs fc m u = JOk m' t" "v = VMap kk vk (keys m') (vals m')" by blast
          from prs [OF _ _ k(5) _ m'(1)] have "key_kind m' = kk" "val_kind m' = vk" "map_of_texts m'" "\<forall>x\<in>set (vals m'). jtyped E vk fc 0 x"
            using plain True k kt by simp_all
          moreover from this(3) have "map_inv m'" "\<forall>x\<in>set (keys m'). jtyped E (key_kind m') fc 0 x"
            using text_keys_typed by (simp_all add: map_of_texts_def)
          ultimately show ?thesis using jt_map [where m = m' and fe = fe and fc = fc and E = E] m(1) True m' by simp
        qed
      qed
    qed
  next
    case 3
    show ?thesis
    proof (cases "kd = KMulti")
      case False
      then have "v = zero_of kd" using run 3 by (simp add: step of_opt_JOk)
      then show ?thesis using zero_typed by simp
    next
      case True
      then obtain ek m where m: "fst (elem_kinds fe) = Some ek" "wo_multi_new mem ek = Some m"
        and v: "v = VMulti ek [] \<or> (\<exists>m' t. its fc m u = JOk m' t \<and> v = VMulti ek (items m'))"
        using run 3 by (auto simp: step on_jok_JOk split: option.splits)
      have ke: "ek \<noteq> KMap" using el m(1) True by (auto simp: elems_fit_def)
      have k: "elem_kind m = ek" "items m = []" using m(2) by (auto simp: wo_multi_new_def split: if_splits)
      from v have "\<exists>xs. v = VMulti ek xs \<and> (\<forall>x\<in>set xs. jtyped E ek fc 0 x)"
        using its [of m u] plain True k ke by fastforce
      then show ?thesis using jt_multi m(1) True by blast
    qed
  next
    case 4
    show ?thesis
      using run 4 nil_typed [OF meta] zero_typed base64_typed jint_typed jfloat_typed unfolding step
      by (auto simp: of_opt_JOk jt_text jt_word split: if_splits option.splits prod.splits) (metis base64_typed)+
  qed
qed

section \<open>Every level\<close>

lemma field_find_Some: "field_find fs key i = Some j \<Longrightarrow> i \<le> j \<and> j < i + length fs"
proof (induction fs arbitrary: i)
  case (Cons f fs)
  then show ?case by (cases "jf_name f = Some key") fastforce+
qed simp

lemma jnext_JOk: "jnext close again v s = JOk w r \<Longrightarrow> w = v \<or> (\<exists>t. again t = JOk w r)"
  by (auto simp: jnext_def of_opt_JOk split: option.splits)

lemma text_map_set:
  assumes "map_of_texts m" "wo_map_set mem m (VStr key) v = Some (m', old)"
  shows "map_of_texts m' \<and> key_kind m' = key_kind m \<and> val_kind m' = val_kind m \<and> set (vals m') \<subseteq> insert v (set (vals m))"
proof -
  have "map_inv m'" using wo_map_set_inv assms by (auto simp: map_of_texts_def)
  then show ?thesis using assms set_update_subset_insert
    by (fastforce simp: map_of_texts_def wo_map_set_def split: option.splits if_splits)
qed

lemma level_typed:
  assumes metas: "metas_ok (j_mod E)"
  shows "meta_fits kd fc \<Longrightarrow> elems_fit kd fe \<Longrightarrow> jvalue E mem n kd fc fe s = JOk v r \<Longrightarrow> jtyped E kd fc fe v"
    "cid < length (mclasses (j_mod E)) \<Longrightarrow> jobject E mem n cid s = JOk v r \<Longrightarrow>
      \<exists>vs. v = VObj cid vs \<and> fields_typed E (jfields_of (j_mod E) cid) vs"
    "\<forall>f\<in>set fs. meta_fits (jf_kind f) (jf_class f) \<and> elems_fit (jf_kind f) (jf_elem f) \<Longrightarrow> fields_typed E fs vs \<Longrightarrow> jfields E mem n fs vs s = JOk ws r \<Longrightarrow> fields_typed E fs ws"
    "meta_fits (val_kind m) fc \<Longrightarrow> val_kind m \<noteq> KMap \<Longrightarrow> map_of_texts m \<Longrightarrow> \<forall>x\<in>set (vals m). jtyped E (val_kind m) fc 0 x \<Longrightarrow> jpairs E mem n fc m s = JOk m' r \<Longrightarrow>
      key_kind m' = key_kind m \<and> val_kind m' = val_kind m \<and> map_of_texts m' \<and> (\<forall>x\<in>set (vals m'). jtyped E (val_kind m) fc 0 x)"
    "meta_fits (elem_kind mm) fc \<Longrightarrow> elem_kind mm \<noteq> KMap \<Longrightarrow> \<forall>x\<in>set (items mm). jtyped E (elem_kind mm) fc 0 x \<Longrightarrow> jitems E mem n fc mm s = JOk mm' r \<Longrightarrow>
      \<forall>x\<in>set (items mm'). jtyped E (elem_kind mm) fc 0 x"
proof (induction n arbitrary: kd fc fe s v r cid fs vs ws m m' mm mm')
  case (Suc n)
  {
    case 1
    from 1(3) have "value_step E mem (jobject E mem n) (jpairs E mem n) (jitems E mem n) kd fc fe s = JOk v r"
      by (simp only: jvalue.simps(2))
    then show ?case
      by (rule value_step_typed [where obj = "jobject E mem n" and prs = "jpairs E mem n" and its = "jitems E mem n", OF 1(1,2), rotated 3])
        (blast intro: Suc(2), (rule Suc(4); assumption), rule Suc(5))
  next
    case 2
    let ?fs = "jfields_of (j_mod E) cid"
    have f: "\<forall>f\<in>set ?fs. meta_fits (jf_kind f) (jf_class f) \<and> elems_fit (jf_kind f) (jf_elem f)" using metas 2(1) by (simp add: metas_ok_def)
    then have i: "fields_typed E ?fs (map field_init ?fs)" by (simp add: fields_typed_def init_typed)
    from 2(2) obtain t where "v = VObj cid (map field_init ?fs) \<or> (\<exists>vs. jfields E mem n ?fs (map field_init ?fs) t = JOk vs r \<and> v = VObj cid vs)"
      by (auto simp: object_step_def Let_def on_jok_JOk split: if_splits option.splits)
    then show ?case using i Suc(3) [OF f i] by blast
  next
    case 3
    from 3(3) obtain key t us q where key: "jkey mem s = Some (key, t)"
      and us: "(case field_find fs key 0 of None \<Rightarrow> of_opt vs (jskip_value t)
         | Some i \<Rightarrow> on_jok (jvalue E mem n (jf_kind (fs ! i)) (jf_class (fs ! i)) (jf_elem (fs ! i)) t) (\<lambda>v. JOk (vs[i := v]))) = JOk us q"
      and more: "jnext 125 (jfields E mem n fs us) us q = JOk ws r"
      by (auto simp: fields_step_def on_jok_JOk split: option.splits prod.splits)
    have "fields_typed E fs us"
    proof (cases "field_find fs key 0")
      case None
      then show ?thesis using us 3(2) by (simp add: of_opt_JOk)
    next
      case (Some i)
      then obtain v p where v: "jvalue E mem n (jf_kind (fs ! i)) (jf_class (fs ! i)) (jf_elem (fs ! i)) t = JOk v p" "us = vs[i := v]"
        using us by (auto simp: on_jok_JOk)
      have i: "i < length fs" using field_find_Some [OF Some] by simp
      then have "jtyped E (jf_kind (fs ! i)) (jf_class (fs ! i)) (jf_elem (fs ! i)) v" using Suc(1) [OF _ _ v(1)] 3(1) by simp
      then show ?thesis using 3(2) v(2) i by (auto simp: fields_typed_def nth_list_update)
    qed
    then show ?case using jnext_JOk [OF more] Suc(3) [OF 3(1)] by blast
  next
    case 4
    from 4(5) obtain key t v q m1 old where "jkey mem s = Some (key, t)" and v: "jvalue E mem n (val_kind m) fc 0 t = JOk v q"
      and m1: "wo_map_set mem m (VStr key) v = Some (m1, old)" and more: "jnext 125 (jpairs E mem n fc m1) m1 q = JOk m' r"
      by (auto simp: pairs_step_def on_jok_JOk split: option.splits prod.splits)
    have tv: "jtyped E (val_kind m) fc 0 v" using Suc(1) [OF 4(1) elems_fit_0 [OF 4(2)] v] .
    note k = text_map_set [OF 4(3) m1]
    have all: "\<forall>x\<in>set (vals m1). jtyped E (val_kind m) fc 0 x" using k tv 4(4) by blast
    from jnext_JOk [OF more] show ?case
    proof
      assume "m' = m1"
      then show ?thesis using k all by simp
    next
      assume "\<exists>t. jpairs E mem n fc m1 t = JOk m' r"
      then obtain t' where "jpairs E mem n fc m1 t' = JOk m' r" by blast
      from Suc(4) [OF _ _ _ _ this] show ?thesis using k all 4(1,2) by simp
    qed
  next
    case 5
    from 5(4) obtain v q m1 where v: "jvalue E mem n (elem_kind mm) fc 0 s = JOk v q"
      and m1: "wo_multi_push mem mm v = Some m1" and more: "jnext 93 (jitems E mem n fc m1) m1 q = JOk mm' r"
      by (auto simp: items_step_def on_jok_JOk split: option.splits)
    have tv: "jtyped E (elem_kind mm) fc 0 v" using Suc(1) [OF 5(1) elems_fit_0 [OF 5(2)] v] .
    note k = wo_multi_push_items [OF m1]
    have all: "\<forall>x\<in>set (items m1). jtyped E (elem_kind mm) fc 0 x" using k tv 5(3) by simp
    from jnext_JOk [OF more] show ?case
    proof
      assume "mm' = m1"
      then show ?thesis using all by simp
    next
      assume "\<exists>t. jitems E mem n fc m1 t = JOk mm' r"
      then obtain t' where "jitems E mem n fc m1 t' = JOk mm' r" by blast
      from Suc(5) [OF _ _ _ this] show ?thesis using k all 5(1,2) by simp
    qed
  }
qed simp_all

end
