(* ===== verification/JsonProps.thy ===== *)
theory JsonProps
  imports JsonTyped
begin

text \<open>
  The properties of \<open>json.encode\<close> and \<open>json.decode\<close>.
\<close>

text \<open>A class table for the examples: class 0 has a Text \<open>a\<close>, an Int \<open>b\<close> that may be nil and a \<open>multi\<close> of Int \<open>c\<close>.\<close>

definition note_env :: jio where
  "note_env =
     \<lparr>j_mod = \<lparr>kconsts = [CText [97], CText [98], CText [99]],
        mclasses = [\<lparr>cls_flags = 0, kinds = [KText, KScalar, KMulti],
          field_class = Some [WOB_NONE, WOB_FIELD_NIL_SCALAR, WOB_NONE], field_elem = Some [0, 0, 0], idx_meta = [],
          cls_name = 0, field_names = [0, 1, 2]\<rparr>],
        slot_cnt = 0, vtabs = [], methods = [], entry = 0\<rparr>,
      j_printf = (\<lambda>_ _ _. []), j_strtod = (\<lambda>_. 0), j_addr = (\<lambda>_. 0)\<rparr>"


section \<open>Round trip\<close>



lemma note_fields:
  "jfields_of (j_mod note_env) 0 =
     [\<lparr>jf_name = Some [97], jf_kind = KText, jf_class = WOB_NONE, jf_elem = 0\<rparr>,
      \<lparr>jf_name = Some [98], jf_kind = KScalar, jf_class = WOB_FIELD_NIL_SCALAR, jf_elem = 0\<rparr>,
      \<lparr>jf_name = Some [99], jf_kind = KMulti, jf_class = WOB_NONE, jf_elem = 0\<rparr>]"
  by (simp add: jfields_of_def note_env_def jname_def meta_at_def NO_METHOD_def Let_def upt_conv_Cons)



section \<open>Termination\<close>

text \<open>C27: The decoder ends on every input: with three calls in a row for every byte and three more it has its
  answer, an object or a refusal, and no deeper recursion changes it.\<close>

theorem json_decode_ends:
  assumes "3 * length s + 3 \<le> n"
  shows "jobject E mem n cid s = jobject E mem (3 * length s + 3) cid s \<and> jobject E mem n cid s \<noteq> JFuel"
proof -
  have "same_run (jobject E mem (3 * length s + 3) cid s) (jobject E mem n cid s)"
    using enough_fuel(2) [OF _ assms, of s E mem cid] by simp
  then show ?thesis unfolding same_run_def by metis
qed

theorem json_decode_ends_witness:
  "jobject note_env (\<lambda>_. True) 100 0 [123, 91, 125] = jobject note_env (\<lambda>_. True) 12 0 [123, 91, 125] \<and>
    jobject note_env (\<lambda>_. True) 100 0 [123, 91, 125] \<noteq> JFuel"
proof -
  have b: "3 * length [123 :: u8, 91, 125] + 3 \<le> 100" and e: "3 * length [123 :: u8, 91, 125] + 3 = 12" by simp_all
  show ?thesis using json_decode_ends [OF b, of note_env "\<lambda>_. True" 0] unfolding e .
qed

section \<open>Types\<close>

text \<open>C26: What \<open>json.decode\<close> answers is null or an object of the class it was asked for, whose every field holds a
  value of the field's kind, down to the keys and the elements of its \<open>multi\<close>s and \<open>map\<close>s, whatever the input
  says. The class table must be one the compiler means (\<open>metas_ok\<close>, which the loader does not check): the
  markers of \<open>json.Value\<close> and of nullable words stand at fields of their kinds, every \<open>map\<close> has Text keys (the
  decoder stores strings as keys whatever their kind), and no \<open>multi\<close> or \<open>map\<close> holds \<open>map\<close>s.\<close>

theorem json_decode_typed:
  assumes "metas_ok (j_mod E)" and "b_json_decode E mem (VStr s) cls = Good v"
  shows "v = VNull \<or> (\<exists>vs. v = VObj (unat cls) vs \<and> fields_typed E (jfields_of (j_mod E) (unat cls)) vs)"
proof -
  from assms(2) have "unat cls < length (mclasses (j_mod E))"
    "v = VNull \<or> (\<exists>r. jobject E mem (3 * length s + 3) (unat cls) s = JOk v r)"
    by (auto simp: b_json_decode_def vm_null_def split: if_splits jres.splits)
  then show ?thesis using level_typed(2) [OF assms(1), of "unat cls" mem "3 * length s + 3" s v] by blast
qed

lemma note_metas: "metas_ok (j_mod note_env)"
proof -
  have "length (mclasses (j_mod note_env)) = 1" by (simp add: note_env_def)
  then show ?thesis
    by (simp add: metas_ok_def note_fields meta_fits_def elems_fit_def elem_kinds_def kind_of_byte_def WOB_NONE_def WOB_FIELD_JSON_RAW_def WOB_FIELD_NIL_FLOAT_def
      WOB_FIELD_NIL_SCALAR_def WOB_FIELD_NIL_BOOL_def)
qed

text \<open>\<open>{"b":5}\<close>\<close>

lemma note_decode: "b_json_decode note_env (\<lambda>_. True) (VStr [123, 34, 98, 34, 58, 53, 125]) 0 =
      Good (VObj 0 [VNull, VWord 5, VNull])"
proof -
  let ?m = "\<lambda>_. True"
  have f: "field_find (jfields_of (j_mod note_env) 0) [98] 0 = Some 1" by (simp add: note_fields)
  have k: "jkey ?m [34, 98, 34, 58, 53, 125] = Some ([98], [53, 125])"
    by (simp add: jkey_def jskip_ws_def ws_byte_def jparse_string_def expect_def)
  have n: "jint KScalar [53, 125] = JOk (VWord 5) [125]"
    by (simp add: jint_def jsign_def jexp_def is_digit_def Let_def)
  have v: "value_step note_env ?m obj prs its KScalar WOB_FIELD_NIL_SCALAR 0 [53, 125] = JOk (VWord 5) [125]" for obj prs its
    by (simp add: value_step_def n ws_byte_def WOB_FIELD_NIL_SCALAR_def WOB_FIELD_JSON_RAW_def)
  have fs: "fields_step ?m (jvalue note_env ?m (Suc i)) flds (jfields_of (j_mod note_env) 0) vs [34, 98, 34, 58, 53, 125] = JOk (vs[1 := VWord 5]) []" for i flds vs
    unfolding fields_step_def k option.case prod.case f jvalue.simps
    by (simp add: note_fields v jnext_def expect_def ws_byte_def of_opt_def)
  have "jobject note_env ?m (Suc (Suc (Suc i))) 0 [123, 34, 98, 34, 58, 53, 125] = JOk (VObj 0 [VNull, VWord 5, VNull]) []" for i
    unfolding jobject.simps object_step_def Let_def jfields.simps
    by (simp add: expect_def ws_byte_def fs) (simp add: note_fields field_init_def zero_of_def WOB_NONE_def WOB_FIELD_NIL_FLOAT_def
        WOB_FIELD_NIL_SCALAR_def WOB_FIELD_NIL_BOOL_def)
  from this [of 21] have "jobject note_env ?m 24 0 [123, 34, 98, 34, 58, 53, 125] = JOk (VObj 0 [VNull, VWord 5, VNull]) []" by simp
  then show ?thesis by (simp add: b_json_decode_def vm_null_def) (simp add: note_env_def)
qed

theorem json_decode_typed_witness:
  "b_json_decode note_env (\<lambda>_. True) (VStr [123, 34, 98, 34, 58, 53, 125]) 0 = Good (VObj 0 [VNull, VWord 5, VNull]) \<and>
    fields_typed note_env (jfields_of (j_mod note_env) 0) [VNull, VWord 5, VNull]"
  using json_decode_typed [OF note_metas note_decode] note_decode by simp

end
