(* ===== verification/Arena.thy ===== *)
theory Arena
  imports WobFormat
begin

text \<open>
  The arena (\<open>runtime/src/obj.c\<close>, \<open>obj.h\<close>): one region with a bump pointer and 64 free lists of blocks of 16, 32,
  ..., 1024 bytes, linked through the dead blocks themselves; larger blocks come from \<open>malloc\<close>, whose answer is a
  parameter. Addresses are numbers, NULL is 0. The memory (\<open>ram\<close>) is its aligned words of 8 bytes by
  address: the first word of a block is the first half of its header, the link of a dead block is in the second.
\<close>

type_synonym ram = "nat \<Rightarrow> u64"

definition WO_ARENA_MAX_CLASS :: nat where "WO_ARENA_MAX_CLASS = 1024"
definition WO_ARENA_NCLASSES :: nat where "WO_ARENA_NCLASSES = WO_ARENA_MAX_CLASS div 16"
definition WO_CLS_FREED :: u32 where "WO_CLS_FREED = 0xFFFFFFFF"

record wo_arena =
  abase :: nat
  acap :: nat
  aused :: nat
  afree :: "nat list"

definition round16 :: "nat \<Rightarrow> nat" where
  "round16 n = (n + 15) mod 2 ^ 64 div 16 * 16"

definition wo_arena_init :: "nat option \<Rightarrow> nat \<Rightarrow> wo_arena option" where
  "wo_arena_init region cap =
     (case region of
        None \<Rightarrow> None
      | Some b \<Rightarrow> Some \<lparr>abase = b, acap = cap, aused = 0, afree = replicate WO_ARENA_NCLASSES 0\<rparr>)"

text \<open>What a request takes, and the list of a size.\<close>

definition asize :: "nat \<Rightarrow> nat" where
  "asize n = round16 (if n \<noteq> 0 then n else 1)"

definition aclass :: "nat \<Rightarrow> nat" where
  "aclass sz = sz div 16 - 1"

definition wo_arena_alloc :: "nat option \<Rightarrow> wo_arena \<Rightarrow> ram \<Rightarrow> nat \<Rightarrow> nat option \<times> wo_arena" where
  "wo_arena_alloc region a m n =
     (let sz = asize n; c = aclass sz in
      if WO_ARENA_MAX_CLASS < sz then (region, a)
      else if afree a ! c \<noteq> 0 then (Some (afree a ! c), a\<lparr>afree := (afree a)[c := unat (m (afree a ! c + 8))]\<rparr>)
      else if acap a < aused a + sz then (None, a)
      else (Some (abase a + aused a), a\<lparr>aused := aused a + sz\<rparr>))"

text \<open>The header of a dead block: class \<open>WO_CLS_FREED\<close>, shard \<open>0xFFFF\<close>, no flags.\<close>

definition freed_header :: u64 where
  "freed_header = ucast WO_CLS_FREED OR push_bit 32 0xFFFF"

definition wo_arena_free :: "wo_arena \<Rightarrow> ram \<Rightarrow> nat \<Rightarrow> nat \<Rightarrow> wo_arena \<times> ram" where
  "wo_arena_free a m p n =
     (let sz = asize n; c = aclass sz in
      if p = 0 \<or> WO_ARENA_MAX_CLASS < sz then (a, m)
      else (a\<lparr>afree := (afree a)[c := p]\<rparr>, m(p := freed_header, p + 8 := of_nat (afree a ! c))))"

text \<open>The class id that a header shows.\<close>

definition header_class :: "u64 \<Rightarrow> u32" where
  "header_class w = ucast w"

lemma freed_class [simp]: "header_class freed_header = WO_CLS_FREED"
  by (simp add: header_class_def freed_header_def WO_CLS_FREED_def)

section \<open>The program and the arena\<close>

text \<open>What the program holds: \<open>h_live\<close> has the size it asked for at each address, \<open>h_dead\<close> the size of each block
  it gave back to the lists. Requests are those of the runtime: an object of a class table, a string of 32-bit length.\<close>

record heap_state =
  h_arena :: wo_arena
  h_ram :: ram
  h_live :: "nat \<Rightarrow> nat option"
  h_dead :: "nat \<Rightarrow> nat option"

definition span :: "nat \<Rightarrow> nat \<Rightarrow> nat set" where
  "span p k = {p..<p + k}"

definition small :: "nat \<Rightarrow> bool" where
  "small n \<longleftrightarrow> asize n \<le> WO_ARENA_MAX_CLASS"

definition region :: "wo_arena \<Rightarrow> nat set" where
  "region a = {abase a..<abase a + acap a}"

text \<open>What \<open>malloc\<close> promises of a block: it lies outside of the arena's region and of every live block.\<close>

definition malloc_fresh :: "heap_state \<Rightarrow> nat \<Rightarrow> nat \<Rightarrow> bool" where
  "malloc_fresh s p n \<longleftrightarrow>
     span p (asize n) \<inter> region (h_arena s) = {} \<and> (\<forall>q k. h_live s q = Some k \<longrightarrow> span p (asize n) \<inter> span q (asize k) = {})"

text \<open>The program allocates, writes any word into a block of its own, and frees a live block with a size
  of the same class; in any order.\<close>

inductive heap_step :: "heap_state \<Rightarrow> heap_state \<Rightarrow> bool" where
  hs_alloc: "n < 2 ^ 36 \<Longrightarrow> wo_arena_alloc big (h_arena s) (h_ram s) n = (Some p, a) \<Longrightarrow> small n \<or> malloc_fresh s p n \<Longrightarrow>
    heap_step s (s\<lparr>h_arena := a, h_live := (h_live s)(p \<mapsto> n), h_dead := (h_dead s)(p := None)\<rparr>)"
| hs_oom: "wo_arena_alloc big (h_arena s) (h_ram s) n = (None, a) \<Longrightarrow> heap_step s (s\<lparr>h_arena := a\<rparr>)"
| hs_write: "h_live s p = Some n \<Longrightarrow> 8 dvd q - p \<Longrightarrow> q \<in> span p (asize n) \<Longrightarrow> heap_step s (s\<lparr>h_ram := (h_ram s)(q := w)\<rparr>)"
| hs_free: "h_live s p = Some n \<Longrightarrow> asize k = asize n \<Longrightarrow> wo_arena_free (h_arena s) (h_ram s) p k = (a, m) \<Longrightarrow>
    heap_step s (s\<lparr>h_arena := a, h_ram := m, h_live := (h_live s)(p := None),
      h_dead := (if small n then (h_dead s)(p \<mapsto> asize n) else h_dead s)\<rparr>)"

inductive heap_run :: "heap_state \<Rightarrow> heap_state \<Rightarrow> bool" where
  hr_start: "heap_run s s"
| hr_step: "heap_run s t \<Longrightarrow> heap_step t u \<Longrightarrow> heap_run s u"

text \<open>The start: an arena that \<open>wo_arena_init\<close> made, nothing allocated; the region fits the address space.\<close>

definition heap_start :: "heap_state \<Rightarrow> bool" where
  "heap_start s \<longleftrightarrow>
     (\<exists>b cap. wo_arena_init (Some b) cap = Some (h_arena s) \<and> 0 < b \<and> b + cap < 2 ^ 64) \<and>
     h_live s = Map.empty \<and> h_dead s = Map.empty"

end
