(* ===== verification/ArenaInv.thy ===== *)
theory ArenaInv
  imports Arena
begin

text \<open>
  The invariant of the arena under a program that allocates, writes and frees in any order: live and dead
  blocks tile the region up to the bump pointer, and every list holds exactly the dead blocks of its size.
\<close>

section \<open>Lists in memory\<close>

primrec chain :: "ram \<Rightarrow> nat \<Rightarrow> nat list \<Rightarrow> bool" where
  "chain m h [] \<longleftrightarrow> h = 0"
| "chain m h (x # xs) \<longleftrightarrow> h = x \<and> x \<noteq> 0 \<and> chain m (unat (m (x + 8))) xs"

lemma chain_unique: "chain m h xs \<Longrightarrow> chain m h ys \<Longrightarrow> xs = ys"
proof (induction xs arbitrary: h ys)
  case Nil
  then show ?case by (cases ys) auto
next
  case (Cons x xs)
  then show ?case by (cases ys) auto
qed

lemma chain_append: "chain m h (xs @ y # ys) \<Longrightarrow> chain m y (y # ys)"
  by (induction xs arbitrary: h) auto

lemma chain_distinct: "chain m h xs \<Longrightarrow> distinct xs"
proof (induction xs arbitrary: h)
  case (Cons x xs)
  have "x \<notin> set xs"
  proof
    assume "x \<in> set xs"
    then obtain ys zs where xs: "xs = ys @ x # zs" by (meson split_list)
    then have "chain m x (x # zs)" using Cons.prems chain_append [of m h "x # ys" x zs] by simp
    moreover have "chain m x (x # xs)" using Cons.prems by auto
    ultimately show False using chain_unique [of m x "x # zs" "x # xs"] xs by simp
  qed
  then show ?case using Cons by auto
qed simp

lemma chain_cong: "(\<And>x. x \<in> set xs \<Longrightarrow> m (x + 8) = m' (x + 8)) \<Longrightarrow> chain m h xs = chain m' h xs"
  by (induction xs arbitrary: h) auto

section \<open>Sizes\<close>

lemma asize_ok:
  assumes "n < 2 ^ 36"
  shows "16 dvd asize n" "16 \<le> asize n" "n \<le> asize n"
proof -
  define k where "k = (if n \<noteq> 0 then n else 1)"
  have k: "k < 2 ^ 36" "0 < k" "n \<le> k" using assms by (auto simp: k_def)
  have e: "asize n = (k + 15) div 16 * 16" using k(1) by (simp add: asize_def round16_def k_def)
  show "16 dvd asize n" unfolding e by simp
  have "asize n + (k + 15) mod 16 = k + 15" unfolding e by (rule div_mult_mod_eq)
  moreover have "(k + 15) mod 16 < 16" by simp
  ultimately have "k \<le> asize n" by linarith
  then show "n \<le> asize n" using k(3) by simp
  show "16 \<le> asize n" using \<open>16 dvd asize n\<close> \<open>k \<le> asize n\<close> k(2) by (auto simp: dvd_def)
qed

lemma aclass_ok: "16 dvd k \<Longrightarrow> 16 \<le> k \<Longrightarrow> 16 * Suc (aclass k) = k"
  by (auto simp: aclass_def dvd_def)

lemma aclass_less: "16 dvd k \<Longrightarrow> 16 \<le> k \<Longrightarrow> k \<le> WO_ARENA_MAX_CLASS \<Longrightarrow> aclass k < 64"
  by (auto simp: aclass_def dvd_def WO_ARENA_MAX_CLASS_def)

section \<open>Tilings\<close>

definition tiles :: "nat \<Rightarrow> nat \<Rightarrow> (nat \<times> nat) set \<Rightarrow> bool" where
  "tiles b u B \<longleftrightarrow> 16 dvd u \<and> (\<forall>p k. (p, k) \<in> B \<longrightarrow> b \<le> p \<and> 16 dvd p - b \<and> 16 dvd k \<and> 16 \<le> k) \<and>
     (\<forall>p k q l x. (p, k) \<in> B \<and> (q, l) \<in> B \<and> x \<in> span p k \<and> x \<in> span q l \<longrightarrow> p = q \<and> k = l) \<and>
     (\<Union>(p, k)\<in>B. span p k) = {b..<b + u}"

lemma tiles_same: "tiles b u B \<Longrightarrow> (p, k) \<in> B \<Longrightarrow> (q, l) \<in> B \<Longrightarrow> x \<in> span p k \<Longrightarrow> x \<in> span q l \<Longrightarrow> p = q \<and> k = l"
  unfolding tiles_def by blast

lemma tiles_in: "tiles b u B \<Longrightarrow> (p, k) \<in> B \<Longrightarrow> span p k \<subseteq> {b..<b + u}"
  unfolding tiles_def by blast

lemma tiles_block: "tiles b u B \<Longrightarrow> (p, k) \<in> B \<Longrightarrow> b \<le> p \<and> 16 dvd p - b \<and> 16 dvd k \<and> 16 \<le> k"
  unfolding tiles_def by blast

lemma tiles_words: "tiles b u B \<Longrightarrow> (p, k) \<in> B \<Longrightarrow> p \<in> span p k \<and> p + 8 \<in> span p k"
  using tiles_block [of b u B p k] by (simp add: span_def)

lemma tiles_insert:
  assumes t: "tiles b u B" and k: "16 dvd k" "16 \<le> k"
  shows "tiles b (u + k) (insert (b + u, k) B)"
proof -
  have new: "span q l \<inter> span (b + u) k = {}" if "(q, l) \<in> B" for q l
    using tiles_in [OF t that] by (auto simp: span_def)
  have u: "16 dvd u + k" using t k by (simp add: tiles_def)
  have b: "\<forall>p l. (p, l) \<in> insert (b + u, k) B \<longrightarrow> b \<le> p \<and> 16 dvd p - b \<and> 16 dvd l \<and> 16 \<le> l"
    using t k by (auto simp: tiles_def)
  have d: "\<forall>p k' q l x. (p, k') \<in> insert (b + u, k) B \<and> (q, l) \<in> insert (b + u, k) B \<and> x \<in> span p k' \<and> x \<in> span q l \<longrightarrow> p = q \<and> k' = l"
    using tiles_same [OF t] new by (metis IntI empty_iff insertE prod.inject)
  have "(\<Union>(p, k)\<in>insert (b + u, k) B. span p k) = span (b + u) k \<union> {b..<b + u}"
    using t by (simp add: tiles_def)
  then have "(\<Union>(p, k)\<in>insert (b + u, k) B. span p k) = {b..<b + (u + k)}" by (auto simp: span_def)
  then show ?thesis using u b d by (simp only: tiles_def)
qed

section \<open>The invariant\<close>

definition blocks :: "heap_state \<Rightarrow> (nat \<times> nat) set" where
  "blocks s = {(x, k). (\<exists>n. h_live s x = Some n \<and> small n \<and> k = asize n) \<or> h_dead s x = Some k}"

definition listed :: "(nat \<Rightarrow> nat list) \<Rightarrow> nat \<Rightarrow> nat \<Rightarrow> bool" where
  "listed fl x k \<longleftrightarrow> (\<exists>c<64. x \<in> set (fl c) \<and> k = 16 * Suc c)"

text \<open>The blocks of \<open>malloc\<close> lie outside of the region and of all others.\<close>

definition bigs :: "nat set \<Rightarrow> (nat \<Rightarrow> nat option) \<Rightarrow> bool" where
  "bigs R L \<longleftrightarrow> (\<forall>p n. L p = Some n \<and> \<not> small n \<longrightarrow> span p (asize n) \<inter> R = {} \<and>
     (\<forall>q k. L q = Some k \<and> q \<noteq> p \<longrightarrow> span p (asize n) \<inter> span q (asize k) = {}))"

lemma bigs_del: "bigs R L \<Longrightarrow> bigs R (L(p := None))"
  unfolding bigs_def by (metis fun_upd_other fun_upd_same option.distinct(1))

lemma bigs_small:
  assumes b: "bigs R L" and n: "small n" "span p (asize n) \<subseteq> R"
  shows "bigs R (L(p \<mapsto> n))"
  unfolding bigs_def
proof (intro allI impI)
  fix q k
  assume q: "(L(p \<mapsto> n)) q = Some k \<and> \<not> small k"
  then have o: "L q = Some k" "q \<noteq> p" "\<not> small k" using n(1) by (auto split: if_splits)
  then have R: "span q (asize k) \<inter> R = {}" using b unfolding bigs_def by blast
  have "span q (asize k) \<inter> span r (asize l) = {}" if "(L(p \<mapsto> n)) r = Some l" "r \<noteq> q" for r l
  proof (cases "r = p")
    case True
    then show ?thesis using R n(2) that by auto
  next
    case False
    then show ?thesis using that o b unfolding bigs_def by (metis fun_upd_other)
  qed
  then show "span q (asize k) \<inter> R = {} \<and>
      (\<forall>r l. (L(p \<mapsto> n)) r = Some l \<and> r \<noteq> q \<longrightarrow> span q (asize k) \<inter> span r (asize l) = {})"
    using R by blast
qed

lemma bigs_big:
  assumes b: "bigs R L" and f: "span p (asize n) \<inter> R = {}" "\<forall>q k. L q = Some k \<longrightarrow> span p (asize n) \<inter> span q (asize k) = {}"
  shows "bigs R (L(p \<mapsto> n))"
  unfolding bigs_def
proof (intro allI impI conjI)
  fix q k
  assume q: "(L(p \<mapsto> n)) q = Some k \<and> \<not> small k"
  then show "span q (asize k) \<inter> R = {}" using b f unfolding bigs_def by (metis fun_upd_apply option.sel)
  fix r l
  assume r: "(L(p \<mapsto> n)) r = Some l \<and> r \<noteq> q"
  show "span q (asize k) \<inter> span r (asize l) = {}"
    using q r f b unfolding bigs_def by (cases "q = p"; cases "r = p") (auto simp: Int_commute)
qed

definition arena_inv :: "heap_state \<Rightarrow> (nat \<Rightarrow> nat list) \<Rightarrow> bool" where
  "arena_inv s fl \<longleftrightarrow>
     0 < abase (h_arena s) \<and> abase (h_arena s) + acap (h_arena s) < 2 ^ 64 \<and>
     aused (h_arena s) \<le> acap (h_arena s) \<and> length (afree (h_arena s)) = 64 \<and>
     (\<forall>c<64. chain (h_ram s) (afree (h_arena s) ! c) (fl c)) \<and>
     (\<forall>x k. h_dead s x = Some k \<longleftrightarrow> listed fl x k) \<and>
     (\<forall>x k. h_dead s x = Some k \<longrightarrow> h_live s x = None \<and> h_ram s x = freed_header) \<and>
     tiles (abase (h_arena s)) (aused (h_arena s)) (blocks s) \<and>
     (\<forall>p n. h_live s p = Some n \<longrightarrow> n < 2 ^ 36) \<and>
     bigs (region (h_arena s)) (h_live s)"

lemma start_inv: "heap_start s \<Longrightarrow> arena_inv s (\<lambda>_. [])"
proof -
  assume "heap_start s"
  then obtain b cap where "h_arena s = \<lparr>abase = b, acap = cap, aused = 0, afree = replicate 64 0\<rparr>" "0 < b" "b + cap < 2 ^ 64"
    "h_live s = Map.empty" "h_dead s = Map.empty"
    by (auto simp: heap_start_def wo_arena_init_def WO_ARENA_NCLASSES_def WO_ARENA_MAX_CLASS_def dest: sym)
  then show ?thesis by (simp add: arena_inv_def tiles_def blocks_def listed_def bigs_def)
qed

text \<open>The parts of the invariant that proofs use by name.\<close>

lemma arena_parts:
  assumes "arena_inv s fl"
  shows "0 < abase (h_arena s)" "abase (h_arena s) + acap (h_arena s) < 2 ^ 64" "aused (h_arena s) \<le> acap (h_arena s)"
    "length (afree (h_arena s)) = 64" "c < 64 \<Longrightarrow> chain (h_ram s) (afree (h_arena s) ! c) (fl c)"
    "h_dead s x = Some k \<longleftrightarrow> listed fl x k" "h_dead s x = Some k \<Longrightarrow> h_live s x = None" "h_dead s x = Some k \<Longrightarrow> h_ram s x = freed_header"
    "tiles (abase (h_arena s)) (aused (h_arena s)) (blocks s)" "h_live s p = Some n \<Longrightarrow> n < 2 ^ 36"
    "bigs (region (h_arena s)) (h_live s)"
  using assms unfolding arena_inv_def by blast+

lemma live_block: "arena_inv s fl \<Longrightarrow> h_live s p = Some n \<Longrightarrow> small n \<Longrightarrow> (p, asize n) \<in> blocks s"
  by (auto simp: blocks_def)

lemma in_region: "arena_inv s fl \<Longrightarrow> (p, k) \<in> blocks s \<Longrightarrow> span p k \<subseteq> region (h_arena s)"
  using tiles_in [OF arena_parts(9)] arena_parts(3) by (fastforce simp: region_def)

lemma live_apart:
  assumes i: "arena_inv s fl" and "h_live s p = Some n" "h_live s q = Some k" "p \<noteq> q"
  shows "span p (asize n) \<inter> span q (asize k) = {}"
proof (cases "small n \<and> small k")
  case True
  have t: "tiles (abase (h_arena s)) (aused (h_arena s)) (blocks s)" using arena_parts(9) [OF i] .
  show ?thesis
    using tiles_same [OF t live_block [OF i assms(2)] live_block [OF i assms(3)]] True assms(4) by blast
next
  case False
  then show ?thesis using arena_parts(11) [OF i] assms(2-4) unfolding bigs_def by blast
qed

text \<open>A word of a live block is neither header nor link of a dead one.\<close>

lemma dead_apart:
  assumes i: "arena_inv s fl" and p: "h_live s p = Some n" "q \<in> span p (asize n)" and x: "h_dead s x = Some k"
  shows "q \<notin> span x k" "q \<noteq> x" "q \<noteq> x + 8"
proof -
  have t: "tiles (abase (h_arena s)) (aused (h_arena s)) (blocks s)" using arena_parts(9) [OF i] .
  have b: "(x, k) \<in> blocks s" using x by (simp add: blocks_def)
  have l: "h_live s x = None" using arena_parts(7) [OF i x] .
  show "q \<notin> span x k"
  proof (cases "small n")
    case True
    then show ?thesis using tiles_same [OF t live_block [OF i p(1)] b p(2)] l p(1) by fastforce
  next
    case False
    then have "span p (asize n) \<inter> region (h_arena s) = {}" using arena_parts(11) [OF i] p(1) unfolding bigs_def by blast
    then show ?thesis using in_region [OF i b] p(2) by blast
  qed
  then show "q \<noteq> x" "q \<noteq> x + 8" using tiles_words [OF t b] by blast+
qed

section \<open>Allocating\<close>

lemma class_of_size:
  assumes "n < 2 ^ 36" "small n"
  shows "aclass (asize n) < 64" "16 * Suc (aclass (asize n)) = asize n"
  using aclass_less aclass_ok asize_ok [OF assms(1)] assms(2) by (simp_all add: small_def)

lemma arena_alloc_cases:
  assumes "wo_arena_alloc big a m n = (r, a')"
  obtains "\<not> small n" "r = big" "a' = a"
  | "small n" "afree a ! aclass (asize n) \<noteq> 0" "r = Some (afree a ! aclass (asize n))"
    "a' = a\<lparr>afree := (afree a)[aclass (asize n) := unat (m (afree a ! aclass (asize n) + 8))]\<rparr>"
  | "small n" "afree a ! aclass (asize n) = 0" "acap a < aused a + asize n" "r = None" "a' = a"
  | "small n" "afree a ! aclass (asize n) = 0" "aused a + asize n \<le> acap a" "r = Some (abase a + aused a)"
    "a' = a\<lparr>aused := aused a + asize n\<rparr>"
  using assms by (auto simp: wo_arena_alloc_def Let_def small_def not_less split: if_splits)

text \<open>A block taken from a list.\<close>

lemma pop_inv:
  assumes i: "arena_inv s fl" and n: "n < 2 ^ 36" "small n" and h: "afree (h_arena s) ! aclass (asize n) = p" "p \<noteq> 0"
  shows "h_dead s p = Some (asize n) \<and>
    arena_inv (s\<lparr>h_arena := (h_arena s)\<lparr>afree := (afree (h_arena s))[aclass (asize n) := unat (h_ram s (p + 8))]\<rparr>,
      h_live := (h_live s)(p \<mapsto> n), h_dead := (h_dead s)(p := None)\<rparr>)
      (fl(aclass (asize n) := tl (fl (aclass (asize n)))))" (is "_ \<and> arena_inv ?s' ?fl'")
proof -
  let ?c = "aclass (asize n)"
  note c = class_of_size [OF n] and dead = arena_parts(6) [OF i]
  have ch: "chain (h_ram s) p (fl ?c)" using arena_parts(5) [OF i c(1)] h(1) by simp
  then obtain ys where ys: "fl ?c = p # ys" "chain (h_ram s) (unat (h_ram s (p + 8))) ys" using h(2) by (cases "fl ?c") auto
  have py: "p \<notin> set ys" using chain_distinct [OF ch] ys(1) by simp
  have dp: "h_dead s p = Some (asize n)" unfolding dead listed_def using c ys(1) by (intro exI [of _ ?c]) simp
  have dx: "((h_dead s)(p := None)) x = Some k \<longleftrightarrow> listed ?fl' x k" for x k
  proof (cases "x = p")
    case True
    have "p \<notin> set (?fl' d)" if "d < 64" for d
    proof (cases "d = ?c")
      case False
      have "d = ?c" if "p \<in> set (fl d)"
      proof -
        have "h_dead s p = Some (16 * Suc d)" unfolding dead listed_def using that \<open>d < 64\<close> by blast
        then show ?thesis using dp c(2) by simp
      qed
      then show ?thesis using False by auto
    qed (simp add: ys(1) py)
    then have "\<not> listed ?fl' p k" unfolding listed_def by blast
    then show ?thesis using True by simp
  next
    case False
    then have "x \<in> set (?fl' d) \<longleftrightarrow> x \<in> set (fl d)" for d using ys(1) by (cases "d = ?c") auto
    then have "listed ?fl' x k \<longleftrightarrow> listed fl x k" by (simp only: listed_def)
    then show ?thesis using False dead by simp
  qed
  have b: "blocks ?s' = blocks s" using dp n(2) arena_parts(7) [OF i dp] by (auto simp: blocks_def split: if_splits)
  have big: "span p (asize n) \<subseteq> region (h_arena s)" using in_region [OF i, of p "asize n"] dp by (simp add: blocks_def)
  have "arena_inv ?s' ?fl'"
    unfolding arena_inv_def
  proof (intro conjI)
    show "\<forall>d<64. chain (h_ram ?s') (afree (h_arena ?s') ! d) (?fl' d)"
      using arena_parts(4,5) [OF i] ys by (auto simp: nth_list_update)
    show "tiles (abase (h_arena ?s')) (aused (h_arena ?s')) (blocks ?s')" unfolding b using arena_parts(9) [OF i] by simp
    show "\<forall>x k. h_dead ?s' x = Some k \<longleftrightarrow> listed ?fl' x k" using dx by simp
    show "\<forall>x k. h_dead ?s' x = Some k \<longrightarrow> h_live ?s' x = None \<and> h_ram ?s' x = freed_header"
      using arena_parts(7,8) [OF i] by auto
    show "\<forall>q k. h_live ?s' q = Some k \<longrightarrow> k < 2 ^ 36" using arena_parts(10) [OF i] n(1) by auto
    show "bigs (region (h_arena ?s')) (h_live ?s')" using bigs_small [OF arena_parts(11) [OF i] n(2) big] by (simp add: region_def)
  qed (use arena_parts(1-4) [OF i] in simp_all)
  with dp show ?thesis by blast
qed

text \<open>A block cut off the free end.\<close>

lemma bump_inv:
  assumes i: "arena_inv s fl" and n: "n < 2 ^ 36" "small n" and room: "aused (h_arena s) + asize n \<le> acap (h_arena s)"
  shows "arena_inv (s\<lparr>h_arena := (h_arena s)\<lparr>aused := aused (h_arena s) + asize n\<rparr>,
      h_live := (h_live s)(abase (h_arena s) + aused (h_arena s) \<mapsto> n),
      h_dead := (h_dead s)(abase (h_arena s) + aused (h_arena s) := None)\<rparr>) fl" (is "arena_inv ?s' fl")
proof -
  let ?p = "abase (h_arena s) + aused (h_arena s)"
  have out: "?p \<notin> span q k" if "(q, k) \<in> blocks s" for q k
    using tiles_in [OF arena_parts(9) [OF i] that] by fastforce
  have old: "(?p, k) \<notin> blocks s" for k
    using out [of ?p k] tiles_words [OF arena_parts(9) [OF i], of ?p k] by blast
  have d: "h_dead s ?p = None" using old by (cases "h_dead s ?p") (auto simp: blocks_def)
  then have dd: "(h_dead s)(?p := None) = h_dead s" by auto
  have nl: "\<not> (h_live s ?p = Some k \<and> small k)" for k using old [of "asize k"] by (auto simp: blocks_def)
  have b: "blocks ?s' = insert (?p, asize n) (blocks s)"
    using n(2) nl by (auto simp: blocks_def dd split: if_splits)
  have big: "span ?p (asize n) \<subseteq> region (h_arena s)" using room by (auto simp: span_def region_def)
  show ?thesis
    unfolding arena_inv_def
  proof (intro conjI)
    show "\<forall>d<64. chain (h_ram ?s') (afree (h_arena ?s') ! d) (fl d)" using arena_parts(5) [OF i] by simp
    show "tiles (abase (h_arena ?s')) (aused (h_arena ?s')) (blocks ?s')"
      unfolding b using tiles_insert [OF arena_parts(9) [OF i] asize_ok(1,2) [OF n(1)]] by simp
    show "\<forall>x k. h_dead ?s' x = Some k \<longleftrightarrow> listed fl x k" using arena_parts(6) [OF i] by (simp add: dd)
    show "\<forall>x k. h_dead ?s' x = Some k \<longrightarrow> h_live ?s' x = None \<and> h_ram ?s' x = freed_header"
      using arena_parts(7,8) [OF i] by auto
    show "\<forall>q k. h_live ?s' q = Some k \<longrightarrow> k < 2 ^ 36" using arena_parts(10) [OF i] n(1) by auto
    show "bigs (region (h_arena ?s')) (h_live ?s')" using bigs_small [OF arena_parts(11) [OF i] n(2) big] by (simp add: region_def)
  qed (use arena_parts(1-4) [OF i] room in simp_all)
qed

section \<open>Every step\<close>

lemma write_inv:
  assumes i: "arena_inv s fl" and p: "h_live s p = Some n" "q \<in> span p (asize n)"
  shows "arena_inv (s\<lparr>h_ram := (h_ram s)(q := w)\<rparr>) fl"
proof -
  have d: "q \<noteq> x \<and> q \<noteq> x + 8" if "c < 64" "x \<in> set (fl c)" for c x
  proof -
    have "h_dead s x = Some (16 * Suc c)" using arena_parts(6) [OF i] that by (auto simp: listed_def)
    then show ?thesis using dead_apart [OF i p] by blast
  qed
  have "chain ((h_ram s)(q := w)) (afree (h_arena s) ! c) (fl c)" if "c < 64" for c
    using arena_parts(5) [OF i that] d [OF that] chain_cong [of "fl c" "h_ram s" "(h_ram s)(q := w)"] by fastforce
  moreover have "((h_ram s)(q := w)) x = freed_header" if "h_dead s x = Some k" for x k
    using arena_parts(8) [OF i that] dead_apart(2) [OF i p that] by simp
  moreover have "blocks (s\<lparr>h_ram := (h_ram s)(q := w)\<rparr>) = blocks s" by (simp add: blocks_def)
  ultimately show ?thesis using i unfolding arena_inv_def by simp
qed

lemma free_small_inv:
  assumes i: "arena_inv s fl" and p: "h_live s p = Some n" "small n" and c: "c = aclass (asize n)"
  shows "arena_inv (s\<lparr>h_arena := (h_arena s)\<lparr>afree := (afree (h_arena s))[c := p]\<rparr>,
      h_ram := (h_ram s)(p := freed_header, p + 8 := of_nat (afree (h_arena s) ! c)),
      h_live := (h_live s)(p := None), h_dead := (h_dead s)(p \<mapsto> asize n)\<rparr>) (fl(c := p # fl c))" (is "arena_inv ?s' ?fl'")
proof -
  note t = arena_parts(9) [OF i]
  have n: "n < 2 ^ 36" using arena_parts(10) [OF i p(1)] .
  note c = class_of_size [OF n p(2), folded c]
  have pb: "(p, asize n) \<in> blocks s" using live_block [OF i p] .
  have own: "p \<in> span p (asize n)" "p + 8 \<in> span p (asize n)" using tiles_words [OF t pb] by simp_all
  have p0: "p \<noteq> 0" using tiles_block [OF t pb] arena_parts(1) [OF i] by auto
  have nd: "h_dead s p = None" using arena_parts(7) [OF i, of p] p(1) by (cases "h_dead s p") auto
  have fresh: "p \<notin> set (fl d)" "\<forall>x\<in>set (fl d). p \<noteq> x + 8 \<and> p + 8 \<noteq> x \<and> p + 8 \<noteq> x + 8" if "d < 64" for d
  proof -
    have x: "h_dead s x = Some (16 * Suc d)" if "x \<in> set (fl d)" for x
      using arena_parts(6) [OF i] that \<open>d < 64\<close> by (auto simp: listed_def)
    then show "p \<notin> set (fl d)" using nd by fastforce
    show "\<forall>x\<in>set (fl d). p \<noteq> x + 8 \<and> p + 8 \<noteq> x \<and> p + 8 \<noteq> x + 8"
      using dead_apart(2,3) [OF i p(1) own(1) x] dead_apart(2,3) [OF i p(1) own(2) x] by blast
  qed
  have nd8: "h_dead s (p + 8) = None" using dead_apart(2) [OF i p(1) own(2), of "p + 8"] by (cases "h_dead s (p + 8)") auto
  let ?m = "(h_ram s)(p := freed_header, p + 8 := of_nat (afree (h_arena s) ! c))"
  have same: "chain ?m h (fl d) = chain (h_ram s) h (fl d)" if "d < 64" for h d
    using fresh [OF that] by (intro chain_cong) auto
  have "afree (h_arena s) ! c < 2 ^ 64"
  proof (cases "fl c")
    case Nil
    then show ?thesis using arena_parts(5) [OF i c(1)] by simp
  next
    case (Cons x xs)
    then have "x = afree (h_arena s) ! c" using arena_parts(5) [OF i c(1)] by simp
    moreover have "h_dead s x = Some (16 * Suc c)" using arena_parts(6) [OF i] Cons c(1) by (auto simp: listed_def)
    then have "(x, 16 * Suc c) \<in> blocks s" by (simp add: blocks_def)
    then have "x \<in> region (h_arena s)" using in_region [OF i] tiles_words [OF t] by blast
    ultimately show ?thesis using arena_parts(2) [OF i] by (simp add: region_def)
  qed
  then have link: "unat (of_nat (afree (h_arena s) ! c) :: u64) = afree (h_arena s) ! c"
    by (simp add: unsigned_of_nat take_bit_nat_eq_self)
  have dx: "((h_dead s)(p \<mapsto> asize n)) x = Some k \<longleftrightarrow> listed ?fl' x k" for x k
  proof (cases "x = p")
    case True
    have "p \<in> set (?fl' d) \<longleftrightarrow> d = c" if "d < 64" for d using fresh(1) [OF that] by simp
    then have "listed ?fl' p k \<longleftrightarrow> k = 16 * Suc c" unfolding listed_def using c(1) by blast
    then show ?thesis using True c(2) by auto
  next
    case False
    then have "x \<in> set (?fl' d) \<longleftrightarrow> x \<in> set (fl d)" for d by (cases "d = c") auto
    then have "listed ?fl' x k \<longleftrightarrow> listed fl x k" by (simp only: listed_def)
    then show ?thesis using False arena_parts(6) [OF i] by simp
  qed
  have b: "blocks ?s' = blocks s" using p nd by (auto simp: blocks_def split: if_splits)
  show ?thesis
    unfolding arena_inv_def
  proof (intro conjI)
    show "\<forall>d<64. chain (h_ram ?s') (afree (h_arena ?s') ! d) (?fl' d)"
      using arena_parts(4,5) [OF i] same link p0 c(1) by (simp add: nth_list_update)
    show "tiles (abase (h_arena ?s')) (aused (h_arena ?s')) (blocks ?s')" unfolding b using t by simp
    show "\<forall>x k. h_dead ?s' x = Some k \<longleftrightarrow> listed ?fl' x k" using dx by simp
    show "\<forall>x k. h_dead ?s' x = Some k \<longrightarrow> h_live ?s' x = None \<and> h_ram ?s' x = freed_header"
      using arena_parts(7,8) [OF i] nd8 by auto
    show "\<forall>q k. h_live ?s' q = Some k \<longrightarrow> k < 2 ^ 36" using arena_parts(10) [OF i] by auto
    show "bigs (region (h_arena ?s')) (h_live ?s')" using bigs_del [OF arena_parts(11) [OF i], of p] by (simp add: region_def)
  qed (use arena_parts(1-4) [OF i] in simp_all)
qed

lemma heap_step_inv:
  assumes "heap_step s t" and i: "arena_inv s fl"
  shows "\<exists>fl'. arena_inv t fl'"
  using assms(1)
proof cases
  case (hs_alloc n big p a)
  show ?thesis
    using hs_alloc(3)
  proof (cases rule: arena_alloc_cases)
    case 1
    have f: "malloc_fresh s p n" using hs_alloc(4) 1(1) by blast
    have "bigs (region (h_arena s)) ((h_live s)(p \<mapsto> n))"
      using bigs_big [OF arena_parts(11) [OF i]] f by (simp add: malloc_fresh_def)
    moreover have "p \<in> span p (asize n)" using asize_ok(2) [OF hs_alloc(2)] by (simp add: span_def)
    then have out: "p \<notin> region (h_arena s)" using f by (auto simp: malloc_fresh_def)
    have d: "h_dead s p = None"
    proof (rule ccontr)
      assume "h_dead s p \<noteq> None"
      then obtain k where "(p, k) \<in> blocks s" by (auto simp: blocks_def)
      then show False using in_region [OF i] tiles_words [OF arena_parts(9) [OF i]] out by blast
    qed
    then have dd: "(h_dead s)(p := None) = h_dead s" by auto
    have l: "\<not> (h_live s p = Some k \<and> small k)" for k
      using in_region [OF i live_block [OF i]] tiles_words [OF arena_parts(9) [OF i] live_block [OF i]] out by blast
    have nl: "\<not> listed fl p k" for k using arena_parts(6) [OF i, of p k] d by simp
    have "blocks t = blocks s" unfolding hs_alloc(1) using l 1(1) by (auto simp: blocks_def dd split: if_splits)
    ultimately show ?thesis
      using i hs_alloc(2) d nl unfolding arena_inv_def hs_alloc(1) 1(3) dd by (intro exI [of _ fl]) auto
  next
    case 2
    then have p: "p = afree (h_arena s) ! aclass (asize n)" by simp
    show ?thesis using pop_inv [OF i hs_alloc(2) 2(1) p [symmetric]] 2(2) unfolding hs_alloc(1) 2(4) p by blast
  next
    case 3
    then show ?thesis by simp
  next
    case 4
    then have p: "p = abase (h_arena s) + aused (h_arena s)" by simp
    show ?thesis using bump_inv [OF i hs_alloc(2) 4(1,3)] unfolding hs_alloc(1) 4(5) p by blast
  qed
next
  case (hs_oom big n a)
  from hs_oom(2) have "a = h_arena s" by (cases rule: arena_alloc_cases) simp_all
  then show ?thesis using i hs_oom(1) by auto
next
  case (hs_write p n q w)
  then show ?thesis using write_inv [OF i hs_write(2,4)] by blast
next
  case (hs_free p n k a m)
  show ?thesis
  proof (cases "small n")
    case True
    have "p \<noteq> 0" using tiles_block [OF arena_parts(9) [OF i] live_block [OF i hs_free(2) True]] arena_parts(1) [OF i] by auto
    then have "a = (h_arena s)\<lparr>afree := (afree (h_arena s))[aclass (asize n) := p]\<rparr>"
      "m = (h_ram s)(p := freed_header, p + 8 := of_nat (afree (h_arena s) ! aclass (asize n)))"
      using hs_free(3,4) True by (auto simp: wo_arena_free_def Let_def small_def)
    then show ?thesis using free_small_inv [OF i hs_free(2) True refl] unfolding hs_free(1) by (auto simp: True)
  next
    case False
    then have "a = h_arena s" "m = h_ram s" using hs_free(3,4) by (auto simp: wo_arena_free_def Let_def small_def split: if_splits)
    moreover have "blocks (s\<lparr>h_live := (h_live s)(p := None)\<rparr>) = blocks s"
      using False hs_free(2) by (auto simp: blocks_def split: if_splits)
    moreover have "arena_inv (s\<lparr>h_live := (h_live s)(p := None)\<rparr>) fl"
      using i bigs_del [OF arena_parts(11) [OF i], of p] calculation(3) unfolding arena_inv_def by auto
    ultimately show ?thesis unfolding hs_free(1) using False by auto
  qed
qed

lemma heap_run_inv: "heap_run s t \<Longrightarrow> heap_start s \<Longrightarrow> \<exists>fl. arena_inv t fl"
  by (induction rule: heap_run.induct) (use start_inv heap_step_inv in blast)+

end
