(* ===== verification/ArenaProps.thy ===== *)
theory ArenaProps
  imports ArenaInv
begin

text \<open>
  The properties of the arena, and runs on which they are used.
\<close>

text \<open>C28: Whatever the program allocates, writes into its own blocks and frees, in whatever order: no two live
  blocks share a byte; the blocks of up to 1024 bytes lie in the region, at multiples of 16 from its base; and a block that was
  freed and not given out again lies outside of every live block and still reads as freed, never as an object.\<close>

theorem arena_safe:
  assumes "heap_start s" and "heap_run s t"
  shows "(\<forall>p n q k. h_live t p = Some n \<and> h_live t q = Some k \<and> p \<noteq> q \<longrightarrow> span p (asize n) \<inter> span q (asize k) = {}) \<and>
    (\<forall>p n. h_live t p = Some n \<and> small n \<longrightarrow>
       n \<le> asize n \<and> span p (asize n) \<subseteq> region (h_arena t) \<and> 16 dvd p - abase (h_arena t)) \<and>
    (\<forall>x k. h_dead t x = Some k \<longrightarrow> header_class (h_ram t x) = WO_CLS_FREED \<and>
       (\<forall>p n. h_live t p = Some n \<longrightarrow> span p (asize n) \<inter> span x k = {}))"
proof -
  obtain fl where i: "arena_inv t fl" using heap_run_inv [OF assms(2,1)] by blast
  show ?thesis
    using live_apart [OF i] live_block [OF i] in_region [OF i] tiles_block [OF arena_parts(9) [OF i]]
      asize_ok(3) [OF arena_parts(10) [OF i]] arena_parts(8) [OF i] dead_apart(1) [OF i]
    by (intro conjI allI impI) (auto, blast+)
qed

text \<open>C29: A request of at most 1024 bytes is refused only when it has to be: no freed block of its size is left and
  the rest of the region is too small. Every byte up to the bump pointer is in a live block or in one that a
  list gives out again, and right after a free the next request of that size gets the same block.\<close>

theorem arena_reuses:
  assumes "heap_start s" and "heap_run s t" and "n < 2 ^ 36" and "small n"
  shows "(fst (wo_arena_alloc big (h_arena t) (h_ram t) n) = None \<longleftrightarrow>
      (\<forall>x. h_dead t x \<noteq> Some (asize n)) \<and> acap (h_arena t) < aused (h_arena t) + asize n) \<and>
    (\<forall>b\<in>{abase (h_arena t)..<abase (h_arena t) + aused (h_arena t)}.
       (\<exists>p k. h_live t p = Some k \<and> b \<in> span p (asize k)) \<or> (\<exists>x k. h_dead t x = Some k \<and> b \<in> span x k)) \<and>
    (\<forall>p k. h_live t p = Some k \<and> asize k = asize n \<longrightarrow>
       fst (wo_arena_alloc big (fst (wo_arena_free (h_arena t) (h_ram t) p k)) (snd (wo_arena_free (h_arena t) (h_ram t) p k)) n) = Some p)"
proof -
  obtain fl where i: "arena_inv t fl" using heap_run_inv [OF assms(2,1)] by blast
  let ?c = "aclass (asize n)"
  note c = class_of_size [OF assms(3,4)]
  have ch: "chain (h_ram t) (afree (h_arena t) ! ?c) (fl ?c)" using arena_parts(5) [OF i c(1)] .
  have none: "(\<forall>x. h_dead t x \<noteq> Some (asize n)) \<longleftrightarrow> fl ?c = []"
  proof -
    have "h_dead t x = Some (asize n) \<longleftrightarrow> x \<in> set (fl ?c)" for x
      unfolding arena_parts(6) [OF i] listed_def using c by (metis Suc_inject mult_cancel1 zero_neq_numeral)
    then show ?thesis by simp
  qed
  have "fl ?c = [] \<longleftrightarrow> afree (h_arena t) ! ?c = 0" using ch by (cases "fl ?c") auto
  then have 1: "fst (wo_arena_alloc big (h_arena t) (h_ram t) n) = None \<longleftrightarrow>
      (\<forall>x. h_dead t x \<noteq> Some (asize n)) \<and> acap (h_arena t) < aused (h_arena t) + asize n"
    unfolding none using assms(4) by (simp add: wo_arena_alloc_def Let_def small_def)
  have "(\<Union>(p, k)\<in>blocks t. span p k) = {abase (h_arena t)..<abase (h_arena t) + aused (h_arena t)}"
    using arena_parts(9) [OF i] by (simp add: tiles_def)
  then have 2: "(\<exists>p k. h_live t p = Some k \<and> b \<in> span p (asize k)) \<or> (\<exists>x k. h_dead t x = Some k \<and> b \<in> span x k)"
    if "b \<in> {abase (h_arena t)..<abase (h_arena t) + aused (h_arena t)}" for b
  proof -
    have "b \<in> (\<Union>(p, k)\<in>blocks t. span p k)" using that \<open>(\<Union>(p, k)\<in>blocks t. span p k) = _\<close> by simp
    then obtain p k where "(p, k) \<in> blocks t" "b \<in> span p k" by blast
    then show ?thesis by (auto simp: blocks_def)
  qed
  have 3: "fst (wo_arena_alloc big (fst (wo_arena_free (h_arena t) (h_ram t) p k)) (snd (wo_arena_free (h_arena t) (h_ram t) p k)) n) = Some p"
    if "h_live t p = Some k" "asize k = asize n" for p k
  proof -
    have "small k" using that(2) assms(4) by (simp add: small_def)
    then have "p \<noteq> 0" using tiles_block [OF arena_parts(9) [OF i] live_block [OF i that(1)]] arena_parts(1) [OF i] by auto
    then show ?thesis
      using that(2) assms(4) c(1) arena_parts(4) [OF i] by (simp add: wo_arena_alloc_def wo_arena_free_def Let_def small_def)
  qed
  show ?thesis using 1 2 3 by blast
qed

section \<open>A run\<close>

text \<open>A region of 64 bytes at 4096: a block of 20 bytes is allocated, written to and freed.\<close>

definition arena0 :: wo_arena where
  "arena0 = \<lparr>abase = 4096, acap = 64, aused = 0, afree = replicate WO_ARENA_NCLASSES 0\<rparr>"

definition run0 :: heap_state where
  "run0 = \<lparr>h_arena = arena0, h_ram = (\<lambda>_. 0), h_live = Map.empty, h_dead = Map.empty\<rparr>"

definition run1 :: heap_state where
  "run1 = run0\<lparr>h_arena := arena0\<lparr>aused := 32\<rparr>, h_live := [4096 \<mapsto> 20]\<rparr>"

definition run3 :: heap_state where
  "run3 = run1\<lparr>h_arena := arena0\<lparr>aused := 32, afree := (replicate WO_ARENA_NCLASSES 0)[1 := 4096]\<rparr>,
     h_ram := (\<lambda>_. 0)(4104 := 7, 4096 := freed_header, 4104 := 0), h_live := Map.empty, h_dead := [4096 \<mapsto> 32]\<rparr>"

lemma run0_start: "heap_start run0"
  by (simp add: heap_start_def run0_def arena0_def wo_arena_init_def)

lemma asize_20: "asize 20 = 32" "small 20"
  by (simp_all add: asize_def round16_def small_def WO_ARENA_MAX_CLASS_def)

lemma run0_run3: "heap_run run0 run1" "heap_run run0 run3"
proof -
  have "wo_arena_alloc None (h_arena run0) (h_ram run0) 20 = (Some 4096, arena0\<lparr>aused := 32\<rparr>)"
    by (simp add: wo_arena_alloc_def Let_def asize_20 run0_def arena0_def aclass_def WO_ARENA_MAX_CLASS_def WO_ARENA_NCLASSES_def)
  then have "heap_step run0 (run0\<lparr>h_arena := arena0\<lparr>aused := 32\<rparr>, h_live := (h_live run0)(4096 \<mapsto> 20), h_dead := (h_dead run0)(4096 := None)\<rparr>)"
    using asize_20 by (intro hs_alloc) simp_all
  moreover have "run0\<lparr>h_arena := arena0\<lparr>aused := 32\<rparr>, h_live := (h_live run0)(4096 \<mapsto> 20), h_dead := (h_dead run0)(4096 := None)\<rparr> = run1"
    by (simp add: run1_def run0_def)
  ultimately have "heap_step run0 run1" by simp
  then show 1: "heap_run run0 run1" by (rule hr_step [OF hr_start])
  let ?w = "run1\<lparr>h_ram := (h_ram run1)(4104 := 7)\<rparr>"
  have 2: "heap_step run1 ?w" by (rule hs_write [of _ 4096 20]) (simp_all add: run1_def span_def asize_20)
  have "wo_arena_free (h_arena ?w) (h_ram ?w) 4096 20 = (h_arena run3, h_ram run3)"
    by (simp add: wo_arena_free_def Let_def asize_20 run3_def run1_def run0_def arena0_def aclass_def WO_ARENA_MAX_CLASS_def WO_ARENA_NCLASSES_def)
  then have "heap_step ?w (?w\<lparr>h_arena := h_arena run3, h_ram := h_ram run3, h_live := (h_live ?w)(4096 := None),
      h_dead := (if small 20 then (h_dead ?w)(4096 \<mapsto> asize 20) else h_dead ?w)\<rparr>)"
    by (intro hs_free) (simp_all add: run1_def)
  moreover have "?w\<lparr>h_arena := h_arena run3, h_ram := h_ram run3, h_live := (h_live ?w)(4096 := None),
      h_dead := (if small 20 then (h_dead ?w)(4096 \<mapsto> asize 20) else h_dead ?w)\<rparr> = run3"
    by (simp add: run3_def run1_def run0_def asize_20)
  ultimately have "heap_step ?w run3" by simp
  then show "heap_run run0 run3" by (rule hr_step [OF hr_step [OF 1 2]])
qed

theorem arena_safe_witness:
  "header_class (h_ram run3 4096) = WO_CLS_FREED \<and> span 4096 32 \<subseteq> region (h_arena run1)"
proof -
  have d: "h_dead run3 4096 = Some 32" by (simp add: run3_def)
  have l: "h_live run1 4096 = Some 20" by (simp add: run1_def)
  from arena_safe [OF run0_start run0_run3(2)] d have "header_class (h_ram run3 4096) = WO_CLS_FREED" by blast
  moreover from arena_safe [OF run0_start run0_run3(1)] l asize_20(2)
  have "span 4096 (asize 20) \<subseteq> region (h_arena run1)" by blast
  ultimately show ?thesis by (simp add: asize_20)
qed

theorem arena_reuses_witness:
  "fst (wo_arena_alloc None (h_arena run3) (h_ram run3) 30) \<noteq> None"
proof -
  have n: "(30 :: nat) < 2 ^ 36" "small 30" "asize 30 = 32" by (simp_all add: asize_def round16_def small_def WO_ARENA_MAX_CLASS_def)
  have "h_dead run3 4096 = Some (asize 30)" by (simp add: run3_def n)
  then show ?thesis using arena_reuses [OF run0_start run0_run3(2) n(1,2), of None] by blast
qed

end
