(* ===== verification/Spec2Isabelle.thy ===== *)
theory Spec2Isabelle
  imports LogProps StoreProps CodecProps SchemaProps MigProps GcProps VmProps BuiltinProps JsonProps ArenaProps
begin

text \<open>
  Verification of the image loader, the interpreter, the garbage collector and the storage engine of
  writeonce (C runtime, \<open>src/runtime/src\<close>, and database, \<open>src/database/src\<close>).

  \<^bold>\<open>The program.\<close> A compiler (OCaml) turns a program into an image; the virtual machine
  (\<open>runtime/src/vm.c\<close> and the files beside it) loads it (\<open>loader.c\<close>), checking once what the
  interpreter relies on, and executes it in fibers of register windows and catch regions. Classes with \<open>@table\<close> have their rows
  in the database engine: \<open>table.c\<close> keeps the rows (slabs, an id hash, secondary indexes), \<open>wal.c\<close>
  keeps the write-ahead log, from which a restart rebuilds the rows, and \<open>db.c\<close> executes the
  statements, either inline on the shard that owns the engine or as a request of another shard
  that the owner takes from its inbox (\<open>wo_vm_adopt\<close> in \<open>vm.c\<close>). In memory, owned values die
  with their owner, and the instances of classes that can form cycles are traced: \<open>gc.c\<close> marks and
  sweeps them in slices at the safepoints of the interpreter.

  \<^bold>\<open>The theories.\<close>
  \<^item> \<open>Prelude\<close>: types of bytes and words, little-endian numbers, parsers, the named collections.
  \<^item> \<open>WobFormat\<close> (\<open>wob.h\<close>): field kinds, class flags, trap codes, the class descriptor, and the
    allocation sites.
  \<^item> \<open>Containers\<close> (\<open>cont.c\<close>): \<open>multi\<close> and \<open>map\<close> of the virtual machine.
  \<^item> \<open>Values\<close> (\<open>table.c\<close>, value gates): VM values to engine values and back, the clone.
  \<^item> \<open>Crc\<close>, \<open>WalCodec\<close> (\<open>wal.c\<close>): checksum, value encoding, frames and the scan.
  \<^item> \<open>Probing\<close>, \<open>IdHash\<close>, \<open>Index\<close> (\<open>table.c\<close>): the probe loop on its own, the id hash over it, the
    secondary indexes over it.
  \<^item> \<open>Wal\<close>, \<open>Fold\<close> (\<open>wal.c\<close>): the log as an object; reading a row back through its delta chain.
  \<^item> \<open>Table\<close> (\<open>table.c\<close>): the operations on rows; \<open>TableInv\<close>, \<open>TableOps\<close>: the invariant and what each
    operation does to the table seen as a map from ids to rows; \<open>InsertFaults\<close>: an insert when memory
    may run out.
  \<^item> \<open>Replay\<close>, \<open>Compact\<close>, \<open>Schema\<close> (\<open>wal.c\<close>): recovery, checkpoint, schema record and boot
    diff; \<open>CompactFaults\<close>: compaction of any store, on any device.
  \<^item> \<open>MigMap\<close>, \<open>Migrate\<close> (\<open>wal.c\<close>): the offset map and the rewriting of an old log for the compiled
    schema; \<open>MigProps\<close>: what it does to the rows, and its refusals.
  \<^item> \<open>Db\<close> (\<open>db.c\<close>, the drain of \<open>vm.c\<close>): the statement executors; \<open>Executor\<close>: their refinement.
  \<^item> \<open>Gc\<close> (\<open>gc.c\<close>, \<open>obj.c\<close>, the safepoint and \<open>SETF\<close> of \<open>vm.c\<close>, \<open>gc_pump\<close> of \<open>main.c\<close>): the collector.
    \<open>GcShade\<close>: what shading does to the heap; \<open>GcSafety\<close>: the invariant of the cycle and its slices;
    \<open>GcSteps\<close>: the program between the safepoints as a step relation, which keeps the invariant;
    \<open>GcStores\<close>: the interpreter's stores are such steps; \<open>GcMay\<close>: the table of classes that may hold
    a reference; \<open>GcCycle\<close>: a cycle ends and frees exactly the garbage; \<open>GcProps\<close>: the properties.
  \<^item> \<open>Loader\<close> (\<open>loader.c\<close>, the instruction words of \<open>wob.h\<close>): images to modules; \<open>LoaderOk\<close>: the
    invariant \<open>module_ok\<close> of accepted images, on which the theorems about their runs rest.
  \<^item> \<open>Vm\<close>, \<open>VmStep\<close> (\<open>vm.c\<close>, \<open>borrow.c\<close>): fibers, traps and unwinding, and every instruction as a function
    from state to outcome. \<open>VmContract\<close>: what instructions have in common, as a locale; \<open>VmSafe\<close>: the
    invariant of a fiber, kept by every step of loaded code; \<open>VmFrames\<close>: what a call leaves alone, and the
    vtable search; \<open>VmUnwind\<close>: what a trap releases, read off the
    drop tables alone; \<open>BorrowCmp\<close>: borrow words and the order of floats;
    \<open>VmDemo\<close>: images for concrete instances; \<open>VmProps\<close>: the properties.
  \<^item> \<open>TextOps\<close>, \<open>Base64\<close>, \<open>MultiOps\<close> (\<open>builtin.c\<close>): the builtins on texts, \<open>Bytes\<close>, numbers and containers.
    \<open>TextFacts\<close>, \<open>MultiFacts\<close>: searching, splitting, trimming and parsing; sorting, reversing, slicing and
    removing. \<open>BuiltinProps\<close>: the properties.
  \<^item> \<open>Json\<close>, \<open>JsonDecode\<close> (\<open>json.c\<close>): \<open>json.encode\<close> and \<open>json.decode\<close> over the class table. \<open>JsonFuel\<close>: the
    decoder ends; \<open>JsonRound\<close>: it reads back what was encoded; \<open>JsonTyped\<close>: what it binds is well typed;
    \<open>JsonProps\<close>: the properties.
  \<^item> \<open>Arena\<close> (\<open>obj.c\<close>): the allocator over its memory, and programs that allocate, write and free. \<open>ArenaInv\<close>: live and
    dead blocks tile the region; \<open>ArenaProps\<close>: the properties.
  \<^item> \<open>Demo\<close>: a small store for concrete instances. \<open>CodecProps\<close>, \<open>StoreProps\<close>, \<open>LogProps\<close>,
    \<open>SchemaProps\<close> and this theory: the properties, C1 to C40.

  \<^bold>\<open>Interfaces.\<close> \<open>Probing\<close> serves the id hash, the index buckets. The locale \<open>kv_store\<close>
  (\<open>IdHash\<close>) states what a key-value store promises and is interpreted on the id hash (\<open>ih\<close>) and on the
  offset map of the migration (\<open>mm\<close>). The locale \<open>vm_contract\<close> (\<open>VmContract\<close>) is what an instruction needs of
  a predicate on fibers; it is interpreted on the invariant of a fiber (\<open>safe\<close> in \<open>VmSafe\<close>) and on the
  frames below a call (\<open>below\<close> in \<open>VmFrames\<close>), and gives the step theorem of both. The
  locale \<open>row_source\<close> (\<open>Index\<close>) is what the indexes need of the table, an accessor that finds every
  live row; the table provides it (\<open>tr\<close> in \<open>TableInv\<close>), and the index lemmas come back through
  that interpretation. The locale \<open>total_cmp\<close> (\<open>MultiFacts\<close>) is what the insertion sort needs of a
  comparison; it is interpreted on the element order of the containers (\<open>elem\<close>).

  \<^bold>\<open>The specification.\<close> \<open>Replay\<close> has the store as a map from class and id to rows, and logged
  statements (\<open>stmt\<close>) with their effect on it (\<open>run_stmt\<close>). \<open>log_agrees db w done todo\<close> says that
  running the written statements \<open>done\<close> and the staged ones \<open>todo\<close> from the empty store gives the
  rows of the durable tables of \<open>db\<close>. Every request keeps it, the barrier moves \<open>todo\<close> to \<open>done\<close>,
  compaction replaces \<open>done\<close> by the dump, and a crash at any byte of the barrier leaves a file that
  replays to \<open>done\<close> and a prefix of \<open>todo\<close>.

  \<^bold>\<open>The collector's invariant.\<close> \<open>gc_inv\<close>: while marking, every object that was reachable at the start
  or was born since is not white, or is reached from the worklist along white objects (\<open>kept\<close>), unless
  the worklist could not grow; while sweeping, nothing reachable in front of the cursor is white. A run
  (\<open>gc_run\<close>) interleaves loads, stores with their barrier, births, removals and safepoints in any order. Three
  things the program may do are hazards (\<open>hazard\<close>): a birth behind the sweep (\<open>BornBehind\<close>), a value taken out
  of an object without the barrier (\<open>TakenOut\<close>), a value with a reference where the class table hides it
  (\<open>HiddenRef\<close>). \<open>gc_run H\<close> admits those in \<open>H\<close>: \<open>gc_run UNIV\<close> has every run, the safety theorems are about
  \<open>gc_run {}\<close>, and \<open>GcProps\<close> shows that each of the three alone breaks them.

  \<^bold>\<open>Modelling decisions.\<close> Bytes are a list of 8-bit words, row ids and register words 64-bit words;
  class numbers, field numbers, lengths and offsets are natural numbers, and the invariants bound
  them by the widths of the code. An allocation asks the parameter \<open>mem\<close>, one answer for each
  allocation site, so the out-of-memory arms are branches (also the envelope of a reply in the drain, \<open>e_reply\<close>). The device is a parameter too (\<open>io\<close>,
  \<open>cio\<close>): how many bytes a failing write got out, whether a sync and a rename succeed. A call that
  may stop the process returns \<open>Dies f\<close> with the file that survives. Message texts, frees and
  timing are left out. The interpreter and the collector take addresses from a parameter; that the arena
  never gives out a live address is a property of its own. The pointers of rows, slabs and buckets are their contents.

  \<^bold>\<open>Bounds.\<close> A decoder call is bounded by the length of its input plus one (\<open>dec_val\<close>, \<open>decoder_depth\<close>: any larger
  bound gives the same result). The probe loop is bounded by the number of places, which is enough
  because a place is always empty (\<open>probe_ends\<close>). The JSON decoder has three calls for every byte of its
  input and three more, and no input uses them up (\<open>enough_fuel\<close>). The collector's theorems take a budget of at most
  64 objects a slice, the default and the first size of the worklist; more is a finding. The loops over the log end because each record
  has at least 13 bytes, the fold because each pointer leads strictly back. A store has room
  (\<open>has_room\<close>, \<open>room_for\<close>) while slot numbers fit 32 bits and ids 64 bits.

  \<^bold>\<open>Not modelled.\<close> The scheduler and the actors, the parsing of Floats, the clock, TLS,
  system calls and the compiler; \<open>wo_wal_resolve_data_path\<close>, directory syncs and statistics in time. The
  lemmas on row operations are about tables whose rows are in memory; for \<open>resident: keys\<close> the
  operations are defined, with the fold lemmas, but their table invariant is not stated.
\<close>

section \<open>The executor and the log\<close>

text \<open>C1: A request drain whose barrier fails loses nothing that was written before and invents
  nothing: the file that the dead process leaves replays to the store that the written statements
  and a prefix of the drain's own staged statements give, in their order.\<close>

theorem drain_crash_recovers:
  assumes "\<forall>s. e_mem E s" and "log_agrees db w done []" and "schema_head_ok w" and "reqs_ok E db w qs"
    and "wr (e_io E) \<noteq> None \<or> \<not> sync_ok (e_io E)" and "drain E (Some db) (Some w) qs = Dies f"
    and "shard db < nshards db" and "nshards db < 2 ^ 32"
    and "(length done + 2 * length qs) * DB_SLAB_ROWS < 2 ^ 32"
  shows "\<exists>sent held n db1 w1 ss k S db'.
    drain_reqs E (Some db) (Some w) qs 0 = Lives (sent, held, n, Some db1, Some w1) \<and>
    log_agrees db1 w1 done ss \<and> k \<le> length ss \<and>
    run_stmts (classes db) (done @ take k ss) (\<lambda>cid. Map.empty) = Some S \<and>
    wo_wal_replay_ex (e_mem E) rt (Some f) (fresh_db db) = (Replayed (row_records (done @ take k ss)), db') \<and>
    db_inv db' \<and> live_rows db' = S"
  by (rule drain_crash [OF assms])

theorem drain_crash_recovers_witness:
  "\<exists>f n S db'. drain bad_env (Some demo_db) (Some demo_wal) [demo_req WO_B_DB_INSERT] = Dies f \<and>
     wo_wal_replay_ex all_mem True (Some f) (fresh_db demo_db) = (Replayed n, db') \<and> live_rows db' = S"
proof -
  obtain f where f: "drain bad_env (Some demo_db) (Some demo_wal) [demo_req WO_B_DB_INSERT] = Dies f"
    using demo_drain_dies by blast
  have "wr (e_io bad_env) \<noteq> None \<or> \<not> sync_ok (e_io bad_env)" by (simp add: bad_env_def)
  from drain_crash_recovers [OF _ demo_agrees demo_schema demo_reqs_ok this f, where rt = True] f
  show ?thesis by (auto simp: DB_SLAB_ROWS_def)
qed

text \<open>C2: A request drain whose barrier succeeds returns with its log and store in agreement, when every
  class is durable with its rows in memory and the store finds memory: the store is what the old log and
  the statements of this drain make of the empty one, and the log on the device, run from the empty
  store, gives the same, be it the old one with the new statements or the one that a checkpoint wrote,
  whatever the checkpoint's device does. When there is memory for the envelopes of the replies, every
  request has one, and none is held only if nothing was staged. (A volatile class with rows makes a
  checkpoint write a log that the next start refuses, a property of its own in \<open>LogProps\<close>.)\<close>

theorem drain_log_agrees:
  assumes "\<forall>s. e_mem E s" and "log_agrees db w done []" and "schema_head_ok w" and "reqs_ok E db w qs"
    and "pend w = []" and "repoint w = []" and "all_durable db" and "wr (e_io E) = None" and "sync_ok (e_io E)"
  shows "\<exists>sent held db' w' ss done'. drain E (Some db) (Some w) qs = Lives (sent, held, Some db', Some w') \<and>
    log_agrees db' w' done' [] \<and> same_shape db db' \<and>
    run_stmts (classes db) (done @ ss) (\<lambda>cid. Map.empty) = Some (live_rows db') \<and>
    (done' = done @ ss \<or> done' = head_stmts (schema w) @ dump db' [0..<length (tables db')]) \<and>
    (ss = [] \<longrightarrow> held = []) \<and> (all_replies E \<longrightarrow> length sent + length held = length qs \<and> (held = [] \<longrightarrow> ss = []))"
  by (rule drain_final [OF assms])

theorem drain_log_agrees_witness:
  "\<exists>sent held db' w' ss done'. drain good_env (Some demo_db) (Some demo_wal) [demo_req WO_B_DB_INSERT] =
       Lives (sent, held, Some db', Some w') \<and> log_agrees db' w' done' [] \<and>
     run_stmts [demo_class] ss (\<lambda>cid. Map.empty) = Some (live_rows db') \<and> length sent + length held = 1"
proof -
  have "\<not> wo_table_is_keys_resident demo_db 0"
    by (simp add: wo_table_is_keys_resident_def WO_CLASSF_RESIDENT_KEYS_def)
  then have dur: "all_durable demo_db" by (simp add: all_durable_def table_is_durable_def WO_CLASSF_VOLATILE_def)
  have io: "wr (e_io good_env) = None" "sync_ok (e_io good_env)" and re: "all_replies good_env"
    by (simp_all add: good_env_def all_replies_def)
  have no: "pend demo_wal = []" "repoint demo_wal = []" by simp_all
  have mem: "\<forall>s. e_mem good_env s" and cs: "[] @ ss = ss" "length [demo_req WO_B_DB_INSERT] = 1" for ss :: "stmt list" by simp_all
  from drain_log_agrees [OF mem demo_agrees demo_schema demo_reqs_ok no dur io, unfolded cs demo_db_simps(1)] re
  show ?thesis by blast
qed

text \<open>C3: The insert request adds exactly its row under the next id of the shard, or answers with
  the unique error when a live row has its key and changes nothing; the statement it stages keeps
  log and store in agreement.\<close>

theorem insert_request:
  assumes "\<forall>s. e_mem E s" and "log_agrees db w done todo" and "schema_head_ok w"
    and "req_ok db q" and "r_op q = WO_B_DB_INSERT" and "r_status q = None"
  shows "\<exists>q' db' w'. exec_insert E db (Some w) q = Lives (q', db', Some w') \<and>
    exec_result db w done todo q' db' w' \<and> only_table (r_cid q) db db' \<and> table_inv db' (r_cid q) \<and>
    inserted db (r_cid q) (r_slots q)
      (case r_status q' of None \<Rightarrow> Inr (r_result q') | Some e \<Rightarrow> Inl DB_ERR_UNIQUE) db' \<and>
    r_status q' \<in> {None, Some WO_T_UNIQUE}"
  by (rule exec_insert_agrees [OF assms]) blast

theorem insert_request_witness:
  "\<exists>q' db' w'. exec_insert good_env demo_db (Some demo_wal) (demo_req WO_B_DB_INSERT) = Lives (q', db', Some w') \<and>
     r_result q' = 1 \<and> r_status q' = None \<and> live_rows db' 0 = [1 \<mapsto> demo_row]"
proof -
  have "\<exists>q' db' w'. exec_insert good_env demo_db (Some demo_wal) (demo_req WO_B_DB_INSERT) = Lives (q', db', Some w') \<and>
      inserted demo_db 0 [DWord 7]
        (case r_status q' of None \<Rightarrow> Inr (r_result q') | Some e \<Rightarrow> Inl DB_ERR_UNIQUE) db'"
    using insert_request [OF _ demo_agrees demo_schema demo_req_ok, of good_env] by fastforce
  then show ?thesis
    by (auto simp: inserted_def Let_def demo_row_def split: option.splits)
qed

text \<open>C4: The update request replaces exactly the one field of the row it names; refused, it
  changes neither rows nor log.\<close>

theorem update_request:
  assumes "\<forall>s. e_mem E s" and "log_agrees db w done todo" and "schema_head_ok w"
    and "req_ok db q" and "r_op q = WO_B_DB_UPDATE_FIELD" and "r_status q = None"
  shows "\<exists>q' db' w'. exec_update E db (Some w) q = Lives (q', db', Some w') \<and>
    exec_result db w done todo q' db' w' \<and> only_table (r_cid q) db db' \<and>
    r_status q' = update_refusal db q \<and>
    (r_status q' = None \<longrightarrow> r_field q < field_cnt (class_of db (r_cid q)) \<and>
      (\<exists>r. live_rows db (r_cid q) (r_id q) = Some r \<and>
        live_rows db' (r_cid q) = (live_rows db (r_cid q))
          (r_id q \<mapsto> r\<lparr>slots := (slots r)[r_field q := r_slots q ! 0]\<rparr>)))"
  using exec_update_agrees [OF assms] by metis

theorem update_request_witness:
  "\<exists>db w ss q' db' w'. log_agrees db w [] ss \<and> live_rows db 0 = [1 \<mapsto> demo_row] \<and>
     exec_update good_env db (Some w) ((demo_req WO_B_DB_UPDATE_FIELD)\<lparr>r_slots := [DWord 9]\<rparr>) = Lives (q', db', Some w') \<and>
     r_status q' = None \<and> live_rows db' 0 = [1 \<mapsto> demo_row\<lparr>slots := [DWord 9]\<rparr>]"
proof -
  let ?q = "(demo_req WO_B_DB_UPDATE_FIELD)\<lparr>r_slots := [DWord 9]\<rparr>"
  obtain q1 db w ss where x: "log_agrees db w [] ss" "keeps demo_wal w" "live_rows db 0 = [1 \<mapsto> demo_row]"
      "only_table 0 demo_db db"
    by (rule demo_exec [of good_env]) simp_all
  note sh = same_shape_simps [OF only_table_shape [OF x(4)]]
  have q: "req_ok db ?q" "schema_head_ok w" using x keeps_head_ok [OF x(2)] demo_schema demo_payload9
    by (simp_all add: req_ok_def Let_def sh id_ok_def)
  have "update_refusal db ?q = None" by (simp add: update_refusal_def x(3) sh)
  then show ?thesis
    using update_request [of good_env db w "[]" ss ?q] x(1,3) q by fastforce
qed

text \<open>C5: The delete request refuses a row whose id a live row holds in a column declared as a reference to
  its class, and a row that is not there, without an effect; otherwise it removes exactly the row and
  stages the remove. The rows that count are those in memory: a row of a \<open>resident: keys\<close> table has no
  slot for the walk to find, so a reference from it does not protect the row.\<close>

theorem delete_request:
  assumes "\<forall>s. e_mem E s" and "log_agrees db w done todo" and "schema_head_ok w"
    and "req_ok db q" and "r_op q = WO_B_DB_DELETE" and "r_status q = None" and "keys_unslotted db"
  shows "\<exists>q' db' w'. exec_delete E db (Some w) q = Lives (q', db', Some w') \<and>
    exec_result db w done todo q' db' w' \<and> only_table (r_cid q) db db' \<and>
    r_status q' = (if referred db (r_cid q) (r_id q) then Some WO_T_FK
      else if live_rows db (r_cid q) (r_id q) = None then Some WO_T_DB else None) \<and>
    (r_status q' = None \<longrightarrow> live_rows db' (r_cid q) = (live_rows db (r_cid q))(r_id q := None))"
proof -
  have "r_cid q < length (classes db)" "length (classes db) < 256 ^ 4" "db_inv db"
    using assms(2,4,5) by (simp_all add: req_ok_def Let_def log_agrees_def classes_fit_def)
  then have "wo_row_has_referrers db (r_cid q) (r_id q) = referred db (r_cid q) (r_id q)"
    by (intro referrers_iff [OF _ assms(7)]) simp_all
  then show ?thesis using exec_delete_agrees [OF assms(1-6)] by metis
qed

theorem delete_request_witness:
  "\<exists>db w ss q' db' w'. log_agrees db w [] ss \<and> live_rows db 0 = [1 \<mapsto> demo_row] \<and>
     exec_delete good_env db (Some w) (demo_req WO_B_DB_DELETE) = Lives (q', db', Some w') \<and>
     r_status q' = None \<and> live_rows db' 0 = Map.empty"
proof -
  let ?q = "demo_req WO_B_DB_DELETE"
  obtain q1 db w ss where x: "log_agrees db w [] ss" "keeps demo_wal w" "live_rows db 0 = [1 \<mapsto> demo_row]"
      "only_table 0 demo_db db"
    by (rule demo_exec [of good_env]) simp_all
  note sh = same_shape_simps [OF only_table_shape [OF x(4)]]
  have q: "req_ok db ?q" "schema_head_ok w" using x keeps_head_ok [OF x(2)] demo_schema
    by (simp_all add: req_ok_def Let_def sh id_ok_def)
  have len: "length (tables db) = 1" using only_table_shape [OF x(4)] by (simp add: same_shape_def)
  have "\<not> referred db 0 1"
  proof
    assume "referred db 0 1"
    then obtain c j r fc where c: "live_rows db c j = Some r" "field_class (class_of db c) = Some fc"
      unfolding referred_def by blast
    have "c = 0" using c(1) len by (cases c) (simp_all add: live_rows_def)
    then show False using c(2) by (simp add: sh) (simp add: demo_class_def)
  qed
  moreover have "keys_unslotted db" using len by (simp add: keys_unslotted_def sh)
  ultimately show ?thesis
    using delete_request [of good_env db w "[]" ss ?q] x(1,3) q by fastforce
qed

end
